(* ===== verification/Prelude.thy ===== *)
theory Prelude
  imports Complex_Main "HOL-Library.AList"
begin

text \<open>
  Shared ground of the development.

  \<^item> Types: names, tokens and keys are strings; clock readings and durations (Python floats)
    are real numbers, so floating point rounding is outside the model.
  \<^item> Python dictionaries keep insertion order and have a length, so they are association lists:
    \<open>d[k] = v\<close> is \<open>dput\<close> (in place when the key is there, at the end otherwise), \<open>del d[k]\<close> and
    \<open>d.pop(k, None)\<close> are \<open>ddel\<close>, \<open>d.get(k)\<close> is \<open>dget\<close>.
  \<^item> Results of calls that may raise are values of the sum \<open>'e + 'a\<close>, \<open>Inl\<close> being the exception.
  \<^item> \<open>py_dict\<close> is the interface the components use of a dictionary: the laws of reading after a
    write, interpreted here on the association lists.
\<close>

type_synonym seconds = real
type_synonym key = string
type_synonym token = string

type_synonym ('k, 'v) pydict = "('k \<times> 'v) list"

abbreviation dget :: "('k, 'v) pydict \<Rightarrow> 'k \<Rightarrow> 'v option" where
  "dget d k \<equiv> map_of d k"

abbreviation dput :: "'k \<Rightarrow> 'v \<Rightarrow> ('k, 'v) pydict \<Rightarrow> ('k, 'v) pydict" where
  "dput k v d \<equiv> AList.update k v d"

abbreviation ddel :: "'k \<Rightarrow> ('k, 'v) pydict \<Rightarrow> ('k, 'v) pydict" where
  "ddel k d \<equiv> AList.delete k d"

text \<open>The built-in exceptions that the modelled code can raise, and the error answer of a Redis server.\<close>

datatype py_exc = KeyError | IndexError | ValueError | RuntimeError | ZeroDivisionError | OSError | OverflowError
  | TypeError | ResponseError | DataError

text \<open>The values of \<open>INT\<close> in Postgres; a cast of another number to it raises (asyncpg's \<open>DataError\<close>).\<close>

definition fits_int :: "int \<Rightarrow> bool" where
  "fits_int x \<longleftrightarrow> - 2147483648 \<le> x \<and> x \<le> 2147483647"

text \<open>
  An exception object is its class and the classes it derives from, its message and its cause;
  \<open>issubclass\<close> and \<open>isinstance\<close> look for a class among them.
\<close>

datatype py_raised = Exc (ex_classes: "string list") (ex_message: string) (ex_cause: "py_raised option")

definition is_instance :: "py_raised \<Rightarrow> string list \<Rightarrow> bool" where
  "is_instance x classes \<longleftrightarrow> list_ex (\<lambda>c. c \<in> set classes) (ex_classes x)"

text \<open>\<open>d.get(k, default)\<close>.\<close>

definition dget_or :: "('k, 'v) pydict \<Rightarrow> 'k \<Rightarrow> 'v \<Rightarrow> 'v" where
  "dget_or d k v = (case dget d k of None \<Rightarrow> v | Some x \<Rightarrow> x)"

text \<open>\<open>int(x)\<close> on a float: towards zero.\<close>

definition py_int :: "real \<Rightarrow> int" where
  "py_int x = (if 0 \<le> x then \<lfloor>x\<rfloor> else \<lceil>x\<rceil>)"

text \<open>The keys of a dictionary are distinct; every operation keeps it so.\<close>

definition dwf :: "('k, 'v) pydict \<Rightarrow> bool" where
  "dwf d \<longleftrightarrow> distinct (map fst d)"

named_theorems clock_defs \<open>definitions that read the clock\<close>
named_theorems dict_simps \<open>reading a dictionary after a write\<close>

section \<open>Dictionaries\<close>

locale py_dict =
  fixes get :: "'d \<Rightarrow> 'k \<Rightarrow> 'v option"
    and put :: "'k \<Rightarrow> 'v \<Rightarrow> 'd \<Rightarrow> 'd"
    and del :: "'k \<Rightarrow> 'd \<Rightarrow> 'd"
    and wf :: "'d \<Rightarrow> bool"
  assumes get_put: "get (put k v d) k' = (if k' = k then Some v else get d k')"
    and get_del: "get (del k d) k' = (if k' = k then None else get d k')"
    and wf_put: "wf d \<Longrightarrow> wf (put k v d)"
    and wf_del: "wf d \<Longrightarrow> wf (del k d)"
begin

lemma get_put_del: "get (put k v (del k d)) = get (put k v d)"
  by (rule ext) (simp add: get_put get_del)

lemma get_put_commute: "k \<noteq> l \<Longrightarrow> get (put k v (put l w d)) = get (put l w (put k v d))"
  by (rule ext) (simp add: get_put)

lemma get_fold_del: "get (fold del ks d) k = (if k \<in> set ks then None else get d k)"
  by (induction ks arbitrary: d) (auto simp: get_del)

lemma wf_fold_del: "wf d \<Longrightarrow> wf (fold del ks d)"
  by (induction ks arbitrary: d) (auto intro: wf_del)

end

interpretation pd: py_dict "map_of :: ('k, 'v) pydict \<Rightarrow> 'k \<Rightarrow> 'v option" AList.update AList.delete dwf
  by unfold_locales
    (auto simp: AList.update_conv' AList.delete_conv' dwf_def distinct_update distinct_delete)

lemmas [simp, dict_simps] = pd.get_put pd.get_del pd.get_fold_del

lemma dwf_Nil [simp]: "dwf []"
  by (simp add: dwf_def)

lemma dget_or_put [simp, dict_simps]:
  "dget_or (dput k v d) k' x = (if k' = k then v else dget_or d k' x)"
  by (simp add: dget_or_def)

lemma dget_or_del [simp, dict_simps]:
  "dget_or (ddel k d) k' x = (if k' = k then x else dget_or d k' x)"
  by (simp add: dget_or_def)

lemma dget_or_Nil [simp]: "dget_or [] k x = x"
  by (simp add: dget_or_def)

lemma dget_or_Cons [simp]: "dget_or ((k', v) # d) k x = (if k = k' then v else dget_or d k x)"
  by (simp add: dget_or_def)

lemma dget_or_None: "dget d k = None \<Longrightarrow> dget_or d k x = x"
  by (simp add: dget_or_def)

lemma dget_or_Some: "dget d k = Some v \<Longrightarrow> dget_or d k x = v"
  by (simp add: dget_or_def)

lemma py_int_bounds: "0 \<le> x \<Longrightarrow> x \<le> real_of_int c \<Longrightarrow> 0 \<le> py_int x \<and> py_int x \<le> c"
  by (auto simp: py_int_def) linarith

lemma dwf_fold_ddel: "dwf d \<Longrightarrow> dwf (fold AList.delete ks d)"
  by (rule pd.wf_fold_del)

lemma dget_iff: "dwf d \<Longrightarrow> (k, v) \<in> set d \<longleftrightarrow> dget d k = Some v"
  by (auto simp: dwf_def dest: map_of_SomeD intro: map_of_is_SomeI)

lemma length_ddel_le: "length (ddel k d) \<le> length d"
  by (simp add: AList.delete_eq)

lemma length_dput: "length (dput k v d) = (if k \<in> fst ` set d then length d else Suc (length d))"
  by (induction d) auto

lemma ddel_none: "dget d k = None \<Longrightarrow> ddel k d = d"
  by (simp add: delete_idem map_of_eq_None_iff)

lemma dget_filter_fst: "dget (filter (\<lambda>r. P (fst r)) d) k = (if P k then dget d k else None)"
  by (induction d) auto

lemma dput_new: "dget d k = None \<Longrightarrow> dput k v d = d @ [(k, v)]"
  by (induction d) (auto split: if_splits)

end
