(* ===== verification/Lock_Contract.thy ===== *)
theory Lock_Contract
  imports Prelude
begin

text \<open>
  The lock backend protocol (\<open>coordination/_protocol.py\<close>, \<open>LockBackend\<close>).

  A backend is a record of its four calls over a state \<open>'s\<close>. A call takes the clock readings it
  makes (in the order the code makes them), may raise, and returns the new state.
  \<open>lock_backend_laws\<close> is the contract the protocol's documentation promises, stated over two
  observers: \<open>holder s t n\<close>, the token whose lease on \<open>n\<close> is live at \<open>t\<close>, and \<open>fence s n\<close>, the
  high-water mark of the fencing tokens of \<open>n\<close>. How long a lease lasts (\<open>lease t1 t2 d t\<close>: is a lease of
  duration \<open>d\<close>, granted by a call that read the clocks \<open>t1\<close> and \<open>t2\<close>, live at \<open>t\<close>), which durations are served and
  which names may be used differ between the backends and are parameters of the contract. Runs of calls by any number of clients are
  lists of timed requests; the lemmas of the locale are about every such run: fencing tokens
  never go back and separate the holders, and a live lease excludes every other token.
\<close>

section \<open>Backends and runs\<close>

record 's lock_backend =
  lb_acquire :: "seconds \<Rightarrow> seconds \<Rightarrow> key \<Rightarrow> token \<Rightarrow> seconds \<Rightarrow> 's \<Rightarrow> (py_exc + int option) \<times> 's"
  lb_release :: "seconds \<Rightarrow> seconds \<Rightarrow> key \<Rightarrow> token \<Rightarrow> 's \<Rightarrow> (py_exc + bool) \<times> 's"
  lb_locked :: "seconds \<Rightarrow> key \<Rightarrow> 's \<Rightarrow> py_exc + bool"
  lb_owned :: "seconds \<Rightarrow> key \<Rightarrow> token \<Rightarrow> 's \<Rightarrow> py_exc + bool"

datatype lock_request = Acquire key token seconds | Release key token

text \<open>A request with the two clock readings the backend makes while it serves it.\<close>

type_synonym timed_request = "seconds \<times> seconds \<times> lock_request"

text \<open>The grants of a run: lock name, token and fencing token of every successful acquire.\<close>

type_synonym grant = "key \<times> token \<times> int"

fun lock_step :: "'s lock_backend \<Rightarrow> timed_request \<Rightarrow> 's \<Rightarrow> grant option \<times> 's" where
  "lock_step B (t1, t2, Acquire n a d) s =
     (case lb_acquire B t1 t2 n a d s of
        (Inr (Some f), s') \<Rightarrow> (Some (n, a, f), s')
      | (_, s') \<Rightarrow> (None, s'))"
| "lock_step B (t1, t2, Release n a) s = (None, snd (lb_release B t1 t2 n a s))"

fun lock_run :: "'s lock_backend \<Rightarrow> timed_request list \<Rightarrow> 's \<Rightarrow> grant list \<times> 's" where
  "lock_run B [] s = ([], s)"
| "lock_run B (x # rs) s =
     (let (g, s') = lock_step B x s; (gs, s'') = lock_run B rs s'
      in (case g of None \<Rightarrow> gs | Some y \<Rightarrow> y # gs, s''))"

text \<open>The clock never goes back: not within a call and not from one call to the next.\<close>

fun clock_ok :: "seconds \<Rightarrow> timed_request list \<Rightarrow> bool" where
  "clock_ok t [] = True"
| "clock_ok t ((t1, t2, r) # rs) = (t \<le> t1 \<and> t1 \<le> t2 \<and> clock_ok t2 rs)"

text \<open>
  What a resource that checks fencing tokens relies on: along the run the tokens of one name do
  not decrease, and grow strictly whenever the holder changes.
\<close>

definition fence_ordered :: "grant \<Rightarrow> grant \<Rightarrow> bool" where
  "fence_ordered g h \<longleftrightarrow>
     (case (g, h) of ((n, a, f), (m, b, k)) \<Rightarrow> n = m \<longrightarrow> f \<le> k \<and> (a \<noteq> b \<longrightarrow> f < k))"

text \<open>A request of token \<open>a\<close> on lock \<open>n\<close>.\<close>

fun concerns :: "key \<Rightarrow> token \<Rightarrow> timed_request \<Rightarrow> bool" where
  "concerns n a (t1, t2, Acquire m b d) = (m = n \<and> b = a)"
| "concerns n a (t1, t2, Release m b) = (m = n \<and> b = a)"

text \<open>The requests a backend takes: a usable name and, to acquire, a duration it serves.\<close>

fun request_ok :: "(key \<Rightarrow> bool) \<Rightarrow> (seconds \<Rightarrow> bool) \<Rightarrow> lock_request \<Rightarrow> bool" where
  "request_ok name_ok served (Acquire n a d) = (name_ok n \<and> served d)"
| "request_ok name_ok served (Release n a) = name_ok n"

text \<open>The four calls of the protocol with everything they answer.\<close>

datatype lock_call = Ask lock_request | Locked key | Owned key token

datatype lock_answer = Fencing "py_exc + int option" | Truth "py_exc + bool"

fun lock_answer_step :: "'s lock_backend \<Rightarrow> seconds \<times> seconds \<times> lock_call \<Rightarrow> 's \<Rightarrow> lock_answer \<times> 's" where
  "lock_answer_step B (t1, t2, Ask (Acquire n a d)) s = map_prod Fencing id (lb_acquire B t1 t2 n a d s)"
| "lock_answer_step B (t1, t2, Ask (Release n a)) s = map_prod Truth id (lb_release B t1 t2 n a s)"
| "lock_answer_step B (t1, t2, Locked n) s = (Truth (lb_locked B t1 n s), s)"
| "lock_answer_step B (t1, t2, Owned n a) s = (Truth (lb_owned B t1 n a s), s)"

fun lock_answers :: "'s lock_backend \<Rightarrow> (seconds \<times> seconds \<times> lock_call) list \<Rightarrow> 's \<Rightarrow> lock_answer list" where
  "lock_answers B [] s = []"
| "lock_answers B (x # cs) s = (case lock_answer_step B x s of (y, s') \<Rightarrow> y # lock_answers B cs s')"

fun lock_calls_ordered :: "seconds \<Rightarrow> (seconds \<times> seconds \<times> lock_call) list \<Rightarrow> bool" where
  "lock_calls_ordered t [] = True"
| "lock_calls_ordered t ((t1, t2, c) # cs) = (t \<le> t1 \<and> t1 \<le> t2 \<and> lock_calls_ordered t2 cs)"

section \<open>The contract\<close>

locale lock_backend_laws =
  fixes B :: "'s lock_backend"
    and holder :: "'s \<Rightarrow> seconds \<Rightarrow> key \<Rightarrow> token option"
    and fence :: "'s \<Rightarrow> key \<Rightarrow> int"
    and inv :: "'s \<Rightarrow> bool"
    and lease :: "seconds \<Rightarrow> seconds \<Rightarrow> seconds \<Rightarrow> seconds \<Rightarrow> bool"
    and name_ok :: "key \<Rightarrow> bool"
    and served :: "seconds \<Rightarrow> bool"
  assumes acquire_grant:
      "inv s \<Longrightarrow> t1 \<le> t2 \<Longrightarrow> name_ok n \<Longrightarrow> served d \<Longrightarrow> holder s t1 n = None \<or> holder s t1 n = Some a \<Longrightarrow>
       lb_acquire B t1 t2 n a d s = (r, s') \<Longrightarrow>
       r = Inr (Some (fence s' n)) \<and>
       fence s' n = (if holder s t1 n = None then fence s n + 1 else fence s n) \<and>
       (\<forall>t. holder s' t n = (if lease t1 t2 d t then Some a else None)) \<and>
       (\<forall>m. m \<noteq> n \<longrightarrow> name_ok m \<longrightarrow> fence s' m = fence s m \<and> (\<forall>t. holder s' t m = holder s t m))"
    and acquire_deny:
      "inv s \<Longrightarrow> t1 \<le> t2 \<Longrightarrow> name_ok n \<Longrightarrow> served d \<Longrightarrow> holder s t1 n = Some b \<Longrightarrow> a \<noteq> b \<Longrightarrow>
       lb_acquire B t1 t2 n a d s = (Inr None, s)"
    and release_own:
      "inv s \<Longrightarrow> t1 \<le> t2 \<Longrightarrow> name_ok n \<Longrightarrow> holder s t1 n = Some a \<Longrightarrow> lb_release B t1 t2 n a s = (q, s') \<Longrightarrow>
       q = Inr True \<and> (\<forall>t. holder s' t n = None)"
    and release_other:
      "inv s \<Longrightarrow> t1 \<le> t2 \<Longrightarrow> name_ok n \<Longrightarrow> holder s t1 n \<noteq> Some a \<Longrightarrow> lb_release B t1 t2 n a s = (q, s') \<Longrightarrow>
       q = Inr False \<and> (\<forall>t \<ge> t2. holder s' t n = holder s t n)"
    and release_frame:
      "inv s \<Longrightarrow> name_ok n \<Longrightarrow> lb_release B t1 t2 n a s = (q, s') \<Longrightarrow> name_ok m \<Longrightarrow>
       fence s' m = fence s m \<and> (m \<noteq> n \<longrightarrow> (\<forall>t. holder s' t m = holder s t m))"
    and locked_iff: "inv s \<Longrightarrow> name_ok n \<Longrightarrow> lb_locked B t n s = Inr (holder s t n \<noteq> None)"
    and owned_iff: "inv s \<Longrightarrow> name_ok n \<Longrightarrow> lb_owned B t n a s = Inr (holder s t n = Some a)"
    and holder_expires: "holder s t n = None \<Longrightarrow> t \<le> t' \<Longrightarrow> holder s t' n = None"
    and holder_same: "holder s t n = Some a \<Longrightarrow> holder s t' n = Some b \<Longrightarrow> a = b"
    and inv_acquire: "inv s \<Longrightarrow> name_ok n \<Longrightarrow> served d \<Longrightarrow> lb_acquire B t1 t2 n a d s = (r, s') \<Longrightarrow> inv s'"
    and inv_release: "inv s \<Longrightarrow> name_ok n \<Longrightarrow> lb_release B t1 t2 n a s = (q, s') \<Longrightarrow> inv s'"
begin

lemma holder_mono:
  assumes "t \<le> t'" and "holder s t' n = Some a"
  shows "holder s t n = Some a"
proof (cases "holder s t n")
  case None
  with holder_expires [OF None assms(1)] assms(2) show ?thesis by simp
next
  case (Some b)
  with holder_same [OF Some assms(2)] show ?thesis by simp
qed

lemma acquire_cases:
  assumes "inv s" "t1 \<le> t2" "name_ok n" "served d" "lb_acquire B t1 t2 n a d s = (r, s')"
  obtains
    (granted) "holder s t1 n = None \<or> holder s t1 n = Some a" "r = Inr (Some (fence s' n))"
      "fence s' n = (if holder s t1 n = None then fence s n + 1 else fence s n)"
      "\<And>t. holder s' t n = (if lease t1 t2 d t then Some a else None)"
      "\<And>m. m \<noteq> n \<Longrightarrow> name_ok m \<Longrightarrow> fence s' m = fence s m"
      "\<And>m t. m \<noteq> n \<Longrightarrow> name_ok m \<Longrightarrow> holder s' t m = holder s t m"
  | (denied) b where "holder s t1 n = Some b" "b \<noteq> a" "r = Inr None" "s' = s"
proof (cases "holder s t1 n = None \<or> holder s t1 n = Some a")
  case True
  from acquire_grant [OF assms(1-4) this assms(5)] True granted show ?thesis by blast
next
  case False
  then obtain b where b: "holder s t1 n = Some b" "b \<noteq> a" by auto
  with acquire_deny [OF assms(1-4) b(1)] assms(5) denied show ?thesis by fastforce
qed

lemma release_holder:
  assumes "inv s" "t1 \<le> t2" "name_ok n" "lb_release B t1 t2 n a s = (r, s')" "name_ok m" "t2 \<le> t"
    and "holder s' t m = Some b"
  shows "holder s t m = Some b"
proof (cases "m = n")
  case True
  show ?thesis
  proof (cases "holder s t1 n = Some a")
    case own: True
    from release_own [OF assms(1-3) own assms(4)] assms(7) True show ?thesis by auto
  next
    case False
    from release_other [OF assms(1-3) False assms(4)] assms(6,7) True show ?thesis by auto
  qed
next
  case False
  with release_frame [OF assms(1,3,4,5)] assms(7) show ?thesis by auto
qed

text \<open>One request: what it does to the marks and holders, and what a grant means.\<close>

lemma step_facts:
  assumes "inv s" "t \<le> t1" "t1 \<le> t2" "request_ok name_ok served q" "lock_step B (t1, t2, q) s = (g, s')"
  shows step_inv: "inv s'"
    and step_fence: "name_ok m \<Longrightarrow> fence s m \<le> fence s' m"
    and step_holder: "name_ok m \<Longrightarrow> fence s' m = fence s m \<Longrightarrow> holder s' t2 m = Some b \<Longrightarrow> holder s t m = Some b"
    and step_grant: "g = Some (n, a, f) \<Longrightarrow> f = fence s' n \<and>
      (f = fence s n \<longrightarrow> holder s t n = Some a) \<and> (holder s' t2 n = Some b \<longrightarrow> b = a)"
proof -
  have "inv s' \<and> (name_ok m \<longrightarrow> fence s m \<le> fence s' m) \<and>
    (name_ok m \<longrightarrow> fence s' m = fence s m \<longrightarrow> holder s' t2 m = Some b \<longrightarrow> holder s t m = Some b) \<and>
    (g = Some (n, a, f) \<longrightarrow> f = fence s' n \<and>
      (f = fence s n \<longrightarrow> holder s t n = Some a) \<and> (holder s' t2 n = Some b \<longrightarrow> b = a))"
  proof (cases q)
    case (Acquire k c d)
    obtain r u where acq: "lb_acquire B t1 t2 k c d s = (r, u)"
      by (cases "lb_acquire B t1 t2 k c d s")
    have ok: "name_ok k" "served d" using assms(4) Acquire by simp_all
    from inv_acquire [OF assms(1) ok acq] have "inv u" .
    from assms(1,3) ok acq show ?thesis
    proof (cases rule: acquire_cases)
      case granted
      with \<open>inv u\<close> assms Acquire acq show ?thesis
        by (cases "m = k")
          (auto split: if_splits intro: holder_mono [of t t1] holder_mono [of t t2])
    next
      case denied
      with \<open>inv u\<close> assms Acquire acq show ?thesis by (auto intro: holder_mono [of t t2])
    qed
  next
    case (Release k c)
    then have rel: "lb_release B t1 t2 k c s = (fst (lb_release B t1 t2 k c s), s')" "g = None"
      using assms(5) by (auto simp: prod_eq_iff)
    have ok: "name_ok k" using assms(4) Release by simp
    with inv_release [OF assms(1) ok rel(1)] release_frame [OF assms(1) ok rel(1)] assms rel(2) show ?thesis
      by (auto intro: holder_mono [of t t2] dest: release_holder [OF assms(1,3) ok rel(1) _ order_refl])
  qed
  then show "inv s'" "name_ok m \<Longrightarrow> fence s m \<le> fence s' m"
    "name_ok m \<Longrightarrow> fence s' m = fence s m \<Longrightarrow> holder s' t2 m = Some b \<Longrightarrow> holder s t m = Some b"
    "g = Some (n, a, f) \<Longrightarrow> f = fence s' n \<and>
      (f = fence s n \<longrightarrow> holder s t n = Some a) \<and> (holder s' t2 n = Some b \<longrightarrow> b = a)"
    by blast+
qed

lemma run_inv:
  assumes "inv s" "clock_ok t rs" "\<And>x. x \<in> set rs \<Longrightarrow> request_ok name_ok served (snd (snd x))"
  shows "inv (snd (lock_run B rs s))"
  using assms
proof (induction rs arbitrary: s t)
  case (Cons x rs)
  obtain t1 t2 q where x: "x = (t1, t2, q)" by (cases x)
  obtain y s' where st: "lock_step B (t1, t2, q) s = (y, s')" by (cases "lock_step B (t1, t2, q) s")
  have "request_ok name_ok served q" using Cons.prems(3) [of x] x by simp
  from step_facts(1) [OF Cons.prems(1) order_refl _ this st] Cons.prems(2) x have "inv s'" by simp
  from Cons.IH [OF this, of t2] Cons.prems x st show ?case by (simp add: case_prod_beta Let_def)
qed simp

text \<open>Grants are for names that were asked for.\<close>

lemma step_grant_name:
  "lock_step B (t1, t2, q) s = (Some (n, a, f), s') \<Longrightarrow> request_ok name_ok served q \<Longrightarrow> name_ok n"
  by (cases q) (auto split: prod.splits sum.splits option.splits)

lemma run_grant_name:
  assumes "\<And>x. x \<in> set rs \<Longrightarrow> request_ok name_ok served (snd (snd x))" "(n, a, f) \<in> set (fst (lock_run B rs s))"
  shows "name_ok n"
  using assms
proof (induction rs arbitrary: s)
  case (Cons x rs)
  obtain t1 t2 q where x: "x = (t1, t2, q)" by (cases x)
  obtain y s' where st: "lock_step B (t1, t2, q) s = (y, s')" by (cases "lock_step B (t1, t2, q) s")
  from Cons.prems(2) x st consider "y = Some (n, a, f)" | "(n, a, f) \<in> set (fst (lock_run B rs s'))"
    by (auto split: prod.splits option.splits)
  then show ?case
  proof cases
    case 1
    with step_grant_name [of t1 t2 q s n a f s'] st Cons.prems(1) [of x] x show ?thesis by simp
  next
    case 2
    with Cons.IH [of s'] Cons.prems(1) show ?thesis by simp
  qed
qed simp

text \<open>
  Every grant of a run has a fencing token at or above the mark the run started from, and a
  grant at that very mark goes to the token that holds the lock from the start.
\<close>

lemma run_fences_above:
  assumes "inv s" "clock_ok t rs" "\<And>x. x \<in> set rs \<Longrightarrow> request_ok name_ok served (snd (snd x))"
    and "(m, b, g) \<in> set (fst (lock_run B rs s))"
  shows "fence s m \<le> g \<and> (g = fence s m \<longrightarrow> holder s t m = Some b)"
  using assms
proof (induction rs arbitrary: s t)
  case Nil
  then show ?case by simp
next
  case (Cons x rs)
  obtain t1 t2 q where x: "x = (t1, t2, q)" by (cases x)
  with Cons.prems(2) have t: "t \<le> t1" "t1 \<le> t2" "clock_ok t2 rs" by auto
  obtain y s' where st: "lock_step B (t1, t2, q) s = (y, s')"
    by (cases "lock_step B (t1, t2, q) s")
  have q: "request_ok name_ok served q" using Cons.prems(3) [of x] x by simp
  note facts = step_facts [OF Cons.prems(1) t(1,2) q st]
  have m: "name_ok m" by (rule run_grant_name [OF Cons.prems(3,4)])
  from Cons.prems(4) x st consider "y = Some (m, b, g)" | "(m, b, g) \<in> set (fst (lock_run B rs s'))"
    by (auto split: prod.splits option.splits)
  then show ?case
  proof cases
    case 1
    with facts(4) [OF 1] facts(2) [OF m] show ?thesis by auto
  next
    case 2
    from Cons.IH [OF facts(1) t(3) _ 2] Cons.prems(3) facts(2,3) [OF m] show ?thesis by fastforce
  qed
qed

theorem run_fence_ordered:
  assumes "inv s" "clock_ok t rs" "\<And>x. x \<in> set rs \<Longrightarrow> request_ok name_ok served (snd (snd x))"
  shows "sorted_wrt fence_ordered (fst (lock_run B rs s))"
  using assms
proof (induction rs arbitrary: s t)
  case Nil
  then show ?case by simp
next
  case (Cons x rs)
  obtain t1 t2 q where x: "x = (t1, t2, q)" by (cases x)
  with Cons.prems(2) have t: "t \<le> t1" "t1 \<le> t2" "clock_ok t2 rs" by auto
  obtain y s' where st: "lock_step B (t1, t2, q) s = (y, s')"
    by (cases "lock_step B (t1, t2, q) s")
  have q: "request_ok name_ok served q" using Cons.prems(3) [of x] x by simp
  have rest: "request_ok name_ok served (snd (snd x))" if "x \<in> set rs" for x using Cons.prems(3) that by simp
  note facts = step_facts [OF Cons.prems(1) t(1,2) q st]
  have "fence_ordered z w" if z: "y = Some z" and w: "w \<in> set (fst (lock_run B rs s'))" for z w
  proof -
    obtain n a f m b k where zw: "z = (n, a, f)" "w = (m, b, k)" by (metis prod_cases3)
    from run_fences_above [OF facts(1) t(3) rest] w facts(4) [of n a f b] z show ?thesis
      unfolding zw fence_ordered_def by fastforce
  qed
  with Cons.IH [OF facts(1) t(3) rest] x st show ?case
    by (auto split: prod.splits option.splits)
qed

text \<open>While a lease lasts and its holder makes no request, the lock stays with the holder.\<close>

lemma step_excludes:
  assumes "inv s" "t1 \<le> t2" "t2 \<le> e" "holder s e n = Some a" "\<not> concerns n a (t1, t2, q)"
    and "request_ok name_ok served q" "name_ok n" "lock_step B (t1, t2, q) s = (g, s')"
  shows "holder s' e n = Some a \<and> (\<forall>b f. g \<noteq> Some (n, b, f))"
proof (cases q)
  case (Acquire k c d)
  obtain r u where acq: "lb_acquire B t1 t2 k c d s = (r, u)"
    by (cases "lb_acquire B t1 t2 k c d s")
  have ok: "name_ok k" "served d" using assms(6) Acquire by simp_all
  have "holder s t1 n = Some a" by (rule holder_mono [OF _ assms(4)]) (use assms in simp)
  with assms acq Acquire show ?thesis
    by (cases "n = k"; cases rule: acquire_cases [OF assms(1,2) ok acq]; auto)
next
  case (Release k c)
  then have rel: "lb_release B t1 t2 k c s = (fst (lb_release B t1 t2 k c s), s')" "g = None"
    using assms(8) by (auto simp: prod_eq_iff)
  have ok: "name_ok k" using assms(6) Release by simp
  show ?thesis
  proof (cases "k = n")
    case True
    have "holder s t1 n = Some a" by (rule holder_mono [OF _ assms(4)]) (use assms in simp)
    with release_other [OF assms(1,2) ok _ rel(1)] assms True Release rel(2) show ?thesis by auto
  next
    case False
    with release_frame [OF assms(1) ok rel(1) assms(7)] assms(4) rel(2) show ?thesis by auto
  qed
qed

theorem run_excludes:
  assumes "inv s" "clock_ok t rs" "\<And>t1 t2 q. (t1, t2, q) \<in> set rs \<Longrightarrow> t2 \<le> e"
    and "holder s e n = Some a" "\<And>x. x \<in> set rs \<Longrightarrow> \<not> concerns n a x"
    and "\<And>x. x \<in> set rs \<Longrightarrow> request_ok name_ok served (snd (snd x))" "name_ok n"
  shows "holder (snd (lock_run B rs s)) e n = Some a \<and> n \<notin> fst ` set (fst (lock_run B rs s))"
  using assms
proof (induction rs arbitrary: s t)
  case Nil
  then show ?case by simp
next
  case (Cons x rs)
  obtain t1 t2 q where x: "x = (t1, t2, q)" by (cases x)
  with Cons.prems(2) have t: "t \<le> t1" "t1 \<le> t2" "clock_ok t2 rs" by auto
  obtain y s' where st: "lock_step B (t1, t2, q) s = (y, s')"
    by (cases "lock_step B (t1, t2, q) s")
  have q: "request_ok name_ok served q" using Cons.prems(6) [of x] x by simp
  have ex: "holder s' e n = Some a \<and> (\<forall>b f. y \<noteq> Some (n, b, f))"
    using step_excludes [OF Cons.prems(1) t(2) _ Cons.prems(4) _ q Cons.prems(7) st] Cons.prems(3,5) x by auto
  have "holder (snd (lock_run B rs s')) e n = Some a \<and> n \<notin> fst ` set (fst (lock_run B rs s'))"
    by (rule Cons.IH [OF step_facts(1) [OF Cons.prems(1) t(1,2) q st] t(3)])
      (use Cons.prems ex in auto)
  with ex x st show ?case by (auto split: prod.splits option.splits)
qed

end

section \<open>The contract determines the answers\<close>

text \<open>
  Two backends are alike from \<open>t\<close> on when their marks and their holders from then on agree. Two backends
  of the contract that start alike, and whose leases last alike for the readings of a run, answer every call
  alike.
\<close>

definition backends_alike ::
  "('s \<Rightarrow> seconds \<Rightarrow> key \<Rightarrow> token option) \<Rightarrow> ('s \<Rightarrow> key \<Rightarrow> int) \<Rightarrow> ('u \<Rightarrow> seconds \<Rightarrow> key \<Rightarrow> token option) \<Rightarrow>
   ('u \<Rightarrow> key \<Rightarrow> int) \<Rightarrow> seconds \<Rightarrow> 's \<Rightarrow> 'u \<Rightarrow> bool"
where
  "backends_alike h1 f1 h2 f2 t s u \<longleftrightarrow> (\<forall>n. f1 s n = f2 u n \<and> (\<forall>t' \<ge> t. h1 s t' n = h2 u t' n))"

lemma alike_later: "backends_alike h1 f1 h2 f2 t s u \<Longrightarrow> t \<le> t' \<Longrightarrow> backends_alike h1 f1 h2 f2 t' s u"
  by (force simp: backends_alike_def)

lemma lock_step_alike:
  assumes L1: "lock_backend_laws B1 h1 f1 i1 l1 (\<lambda>n. True) (\<lambda>d. True)"
    and L2: "lock_backend_laws B2 h2 f2 i2 l2 (\<lambda>n. True) (\<lambda>d. True)"
    and same: "l1 t1 t2 = l2 t1 t2" and inv: "i1 s" "i2 u" and t: "t1 \<le> t2"
    and alike: "backends_alike h1 f1 h2 f2 t1 s u"
    and st: "lock_step B1 (t1, t2, q) s = (g, s')" "lock_step B2 (t1, t2, q) u = (k, u')"
  shows "g = k \<and> backends_alike h1 f1 h2 f2 t2 s' u'"
proof (cases q)
  case (Acquire n a d)
  obtain r v where a1: "lb_acquire B1 t1 t2 n a d s = (r, v)" by (cases "lb_acquire B1 t1 t2 n a d s")
  obtain r' v' where a2: "lb_acquire B2 t1 t2 n a d u = (r', v')" by (cases "lb_acquire B2 t1 t2 n a d u")
  have hold: "h1 s t1 n = h2 u t1 n" using alike by (simp add: backends_alike_def)
  show ?thesis
  proof (cases rule: lock_backend_laws.acquire_cases [OF L1 inv(1) t TrueI TrueI a1])
    case g1: 1
    show ?thesis
    proof (cases rule: lock_backend_laws.acquire_cases [OF L2 inv(2) t TrueI TrueI a2])
      case g2: 1
      from alike have "f1 s m = f2 u m" "\<And>t'. t1 \<le> t' \<Longrightarrow> h1 s t' m = h2 u t' m" for m
        by (simp_all add: backends_alike_def)
      then have "f1 v m = f2 v' m \<and> (\<forall>t' \<ge> t2. h1 v t' m = h2 v' t' m)" for m
        using g1 g2 hold same t by (cases "m = n") auto
      with g1 g2 a1 a2 st Acquire show ?thesis by (auto simp: backends_alike_def)
    qed (use g1 hold in auto)
  next
    case d1: (2 b)
    show ?thesis
    proof (cases rule: lock_backend_laws.acquire_cases [OF L2 inv(2) t TrueI TrueI a2])
      case d2: (2 c)
      with d1 a1 a2 st Acquire alike_later [OF alike t] show ?thesis by auto
    qed (use d1 hold in auto)
  qed
next
  case (Release n a)
  have r1: "lb_release B1 t1 t2 n a s = (fst (lb_release B1 t1 t2 n a s), s')" "g = None"
    and r2: "lb_release B2 t1 t2 n a u = (fst (lb_release B2 t1 t2 n a u), u')" "k = None"
    using st Release by (auto simp: prod_eq_iff)
  have hold: "h1 s t1 n = h2 u t1 n" using alike by (simp add: backends_alike_def)
  have "f1 s' m = f2 u' m \<and> (\<forall>t' \<ge> t2. h1 s' t' m = h2 u' t' m)" for m
  proof -
    have base: "f1 s m = f2 u m" "\<And>t'. t2 \<le> t' \<Longrightarrow> h1 s t' m = h2 u t' m"
      using alike t by (simp_all add: backends_alike_def)
    have fr: "f1 s' m = f1 s m" "f2 u' m = f2 u m"
      using lock_backend_laws.release_frame [OF L1 inv(1) TrueI r1(1) TrueI]
        lock_backend_laws.release_frame [OF L2 inv(2) TrueI r2(1) TrueI] by simp_all
    show ?thesis
    proof (cases "m = n")
      case True
      show ?thesis
      proof (cases "h1 s t1 n = Some a")
        case own: True
        with lock_backend_laws.release_own [OF L1 inv(1) t TrueI own r1(1)]
          lock_backend_laws.release_own [OF L2 inv(2) t TrueI _ r2(1)] hold fr base True show ?thesis by simp
      next
        case False
        with lock_backend_laws.release_other [OF L1 inv(1) t TrueI False r1(1)]
          lock_backend_laws.release_other [OF L2 inv(2) t TrueI _ r2(1)] hold fr base True show ?thesis by simp
      qed
    next
      case False
      with lock_backend_laws.release_frame [OF L1 inv(1) TrueI r1(1) TrueI, of m]
        lock_backend_laws.release_frame [OF L2 inv(2) TrueI r2(1) TrueI, of m] base show ?thesis by simp
    qed
  qed
  with r1 r2 show ?thesis by (simp add: backends_alike_def)
qed

lemma snd_lock_step: "snd (lock_step B (t1, t2, q) s) = snd (lock_answer_step B (t1, t2, Ask q) s)"
  by (cases q) (auto split: prod.splits sum.splits option.splits)

lemma lock_answer_alike:
  assumes L1: "lock_backend_laws B1 h1 f1 i1 l1 (\<lambda>n. True) (\<lambda>d. True)"
    and L2: "lock_backend_laws B2 h2 f2 i2 l2 (\<lambda>n. True) (\<lambda>d. True)"
    and same: "l1 t1 t2 = l2 t1 t2" and inv: "i1 s" "i2 u" and t: "t1 \<le> t2"
    and alike: "backends_alike h1 f1 h2 f2 t1 s u"
    and st: "lock_answer_step B1 (t1, t2, c) s = (y, s')" "lock_answer_step B2 (t1, t2, c) u = (z, u')"
  shows "y = z \<and> backends_alike h1 f1 h2 f2 t2 s' u' \<and> i1 s' \<and> i2 u'"
proof -
  have al: "h1 s t1 n = h2 u t1 n" "f1 s n = f2 u n" for n using alike by (simp_all add: backends_alike_def)
  note later = alike_later [OF alike t]
  show ?thesis
  proof (cases c)
    case (Ask q)
    have q: "request_ok (\<lambda>n. True) (\<lambda>d. True) q" by (cases q) simp_all
    obtain g where g: "lock_step B1 (t1, t2, q) s = (g, s')" using snd_lock_step [of B1 t1 t2 q s] st(1) Ask by (cases "lock_step B1 (t1, t2, q) s") simp
    obtain k where k: "lock_step B2 (t1, t2, q) u = (k, u')" using snd_lock_step [of B2 t1 t2 q u] st(2) Ask by (cases "lock_step B2 (t1, t2, q) u") simp
    have step: "g = k \<and> backends_alike h1 f1 h2 f2 t2 s' u'" by (rule lock_step_alike [OF L1 L2 same inv t alike g k])
    have i: "i1 s'" "i2 u'"
      using lock_backend_laws.step_inv [OF L1 inv(1) order_refl t q g] lock_backend_laws.step_inv [OF L2 inv(2) order_refl t q k] by simp_all
    have "y = z"
    proof (cases q)
      case (Acquire n a d)
      obtain r where r: "lb_acquire B1 t1 t2 n a d s = (r, s')" "y = Fencing r" using st(1) Ask Acquire by (cases "lb_acquire B1 t1 t2 n a d s") simp
      obtain r' where r': "lb_acquire B2 t1 t2 n a d u = (r', u')" "z = Fencing r'" using st(2) Ask Acquire by (cases "lb_acquire B2 t1 t2 n a d u") simp
      have "f1 s' n = f2 u' n" using step by (simp add: backends_alike_def)
      then show ?thesis
        by (cases rule: lock_backend_laws.acquire_cases [OF L1 inv(1) t TrueI TrueI r(1)]; cases rule: lock_backend_laws.acquire_cases [OF L2 inv(2) t TrueI TrueI r'(1)])
          (use r(2) r'(2) al [of n] in auto)
    next
      case (Release n a)
      obtain r where r: "lb_release B1 t1 t2 n a s = (r, s')" "y = Truth r" using st(1) Ask Release by (cases "lb_release B1 t1 t2 n a s") simp
      obtain r' where r': "lb_release B2 t1 t2 n a u = (r', u')" "z = Truth r'" using st(2) Ask Release by (cases "lb_release B2 t1 t2 n a u") simp
      show ?thesis
        using lock_backend_laws.release_own [OF L1 inv(1) t TrueI _ r(1)] lock_backend_laws.release_own [OF L2 inv(2) t TrueI _ r'(1)]
          lock_backend_laws.release_other [OF L1 inv(1) t TrueI _ r(1)] lock_backend_laws.release_other [OF L2 inv(2) t TrueI _ r'(1)] al(1) [of n] r(2) r'(2)
        by (cases "h1 s t1 n = Some a") auto
    qed
    then show ?thesis using step i by simp
  next
    case (Locked n)
    then show ?thesis using st later inv lock_backend_laws.locked_iff [OF L1 inv(1) TrueI] lock_backend_laws.locked_iff [OF L2 inv(2) TrueI] al(1) [of n] by auto
  next
    case (Owned n a)
    then show ?thesis using st later inv lock_backend_laws.owned_iff [OF L1 inv(1) TrueI] lock_backend_laws.owned_iff [OF L2 inv(2) TrueI] al(1) [of n] by auto
  qed
qed

theorem lock_backends_agree:
  assumes L1: "lock_backend_laws B1 h1 f1 i1 l1 (\<lambda>n. True) (\<lambda>d. True)"
    and L2: "lock_backend_laws B2 h2 f2 i2 l2 (\<lambda>n. True) (\<lambda>d. True)"
    and "lock_calls_ordered t cs" "\<And>t1 t2 c. (t1, t2, c) \<in> set cs \<Longrightarrow> l1 t1 t2 = l2 t1 t2" "i1 s" "i2 u"
    and "\<And>n. f1 s n = f2 u n" "\<And>n t'. t \<le> t' \<Longrightarrow> h1 s t' n = h2 u t' n"
  shows "lock_answers B1 cs s = lock_answers B2 cs u"
proof -
  have "backends_alike h1 f1 h2 f2 t s u" using assms(7,8) by (simp add: backends_alike_def)
  with assms(3-6) show ?thesis
  proof (induction cs arbitrary: s u t)
    case (Cons x cs)
    obtain t1 t2 c where x: "x = (t1, t2, c)" by (cases x)
    with Cons.prems(1) have t: "t \<le> t1" "t1 \<le> t2" "lock_calls_ordered t2 cs" by auto
    obtain y s' where st: "lock_answer_step B1 (t1, t2, c) s = (y, s')" by (cases "lock_answer_step B1 (t1, t2, c) s")
    obtain z u' where su: "lock_answer_step B2 (t1, t2, c) u = (z, u')" by (cases "lock_answer_step B2 (t1, t2, c) u")
    have eq: "l1 t1 t2 = l2 t1 t2" by (rule Cons.prems(2) [of t1 t2 c]) (simp add: x)
    have step: "y = z \<and> backends_alike h1 f1 h2 f2 t2 s' u' \<and> i1 s' \<and> i2 u'"
      by (rule lock_answer_alike [OF L1 L2 eq Cons.prems(3,4) t(2) alike_later [OF Cons.prems(5) t(1)] st su])
    have "lock_answers B1 cs s' = lock_answers B2 cs u'"
      by (rule Cons.IH [OF t(3) Cons.prems(2)]) (use step in auto)
    with step st su x show ?case by simp
  qed simp
qed

end
