(* ===== verification/Memory_Lock.thy ===== *)
theory Memory_Lock
  imports Lock_Contract
begin

text \<open>
  The in-memory lock adapter (\<open>coordination/memory.py\<close>, \<open>MemoryLockAdapter\<close>): the state is the
  dictionary of leases \<open>_locks\<close> (token and monotonic deadline per name) and the dictionary
  \<open>_fences\<close> of the per-name high-water counters. Each call takes the readings of \<open>monotonic()\<close> it
  makes. The interpretation \<open>ml\<close> discharges the laws of \<open>lock_backend_laws\<close> for these
  definitions.
\<close>

record memory_lock =
  locks :: "(key, token \<times> seconds) pydict"
  fences :: "(key, int) pydict"

definition memory_lock_init :: memory_lock where
  "memory_lock_init = \<lparr>locks = [], fences = []\<rparr>"

text \<open>\<open>self._locks.get(name, (None, 0))\<close>.\<close>

definition lock_entry :: "memory_lock \<Rightarrow> key \<Rightarrow> token option \<times> seconds" where
  "lock_entry s name = (case dget (locks s) name of
     None \<Rightarrow> (None, 0) | Some (token, expire_at) \<Rightarrow> (Some token, expire_at))"

definition memory_lock_acquire ::
  "seconds \<Rightarrow> seconds \<Rightarrow> key \<Rightarrow> token \<Rightarrow> seconds \<Rightarrow> memory_lock \<Rightarrow> (py_exc + int option) \<times> memory_lock"
where
  "memory_lock_acquire t1 t2 name token duration s =
     (let (current_token, expire_at) = lock_entry s name;
          free = (current_token = None \<or> expire_at < t1)
      in if free \<or> current_token = Some token then
           let s1 = (if free then s\<lparr>fences := dput name (dget_or (fences s) name 0 + 1) (fences s)\<rparr>
                     else s);
               s2 = s1\<lparr>locks := dput name (token, t2 + duration) (locks s1)\<rparr>
           in (case dget (fences s2) name of None \<Rightarrow> Inl KeyError | Some f \<Rightarrow> Inr (Some f), s2)
         else (Inr None, s))"

text \<open>The second test of \<open>release\<close> is on the truth value of the token: an empty string is false.\<close>

definition memory_lock_release ::
  "seconds \<Rightarrow> seconds \<Rightarrow> key \<Rightarrow> token \<Rightarrow> memory_lock \<Rightarrow> (py_exc + bool) \<times> memory_lock"
where
  "memory_lock_release t1 t2 name token s =
     (let (current_token, expire_at) = lock_entry s name
      in if current_token = Some token \<and> expire_at \<ge> t1 then
           (Inr True, s\<lparr>locks := ddel name (locks s)\<rparr>)
         else if current_token \<noteq> None \<and> current_token \<noteq> Some '''' \<and> expire_at < t2 then
           (Inr False, s\<lparr>locks := ddel name (locks s)\<rparr>)
         else (Inr False, s))"

definition memory_lock_locked :: "seconds \<Rightarrow> key \<Rightarrow> memory_lock \<Rightarrow> py_exc + bool" where
  "memory_lock_locked t name s =
     (let (current_token, expire_at) = lock_entry s name
      in Inr (current_token \<noteq> None \<and> expire_at \<ge> t))"

definition memory_lock_owned :: "seconds \<Rightarrow> key \<Rightarrow> token \<Rightarrow> memory_lock \<Rightarrow> py_exc + bool" where
  "memory_lock_owned t name token s =
     (let (current_token, expire_at) = lock_entry s name
      in Inr (current_token = Some token \<and> expire_at \<ge> t))"

text \<open>\<open>__aexit__\<close> clears both dictionaries.\<close>

definition memory_lock_close :: "memory_lock \<Rightarrow> memory_lock" where
  "memory_lock_close s = s\<lparr>locks := [], fences := []\<rparr>"

definition MemoryLockAdapter :: "memory_lock lock_backend" where
  "MemoryLockAdapter = \<lparr>lb_acquire = memory_lock_acquire, lb_release = memory_lock_release,
     lb_locked = memory_lock_locked, lb_owned = memory_lock_owned\<rparr>"

section \<open>Observers and invariant\<close>

definition lock_holder :: "memory_lock \<Rightarrow> seconds \<Rightarrow> key \<Rightarrow> token option" where
  "lock_holder s t n = (case dget (locks s) n of
     None \<Rightarrow> None | Some (a, e) \<Rightarrow> if e \<ge> t then Some a else None)"

definition lock_fence :: "memory_lock \<Rightarrow> key \<Rightarrow> int" where
  "lock_fence s n = dget_or (fences s) n 0"

text \<open>A lease has a counter (so \<open>self._fences[name]\<close> never raises), and counters are positive.\<close>

definition memory_lock_inv :: "memory_lock \<Rightarrow> bool" where
  "memory_lock_inv s \<longleftrightarrow> dwf (locks s) \<and> dwf (fences s) \<and>
     (\<forall>n. dget (locks s) n \<noteq> None \<longrightarrow> dget (fences s) n \<noteq> None) \<and>
     (\<forall>n f. dget (fences s) n = Some f \<longrightarrow> 0 < f)"

lemmas memory_lock_defs = memory_lock_acquire_def memory_lock_release_def memory_lock_locked_def
  memory_lock_owned_def lock_entry_def lock_holder_def lock_fence_def Let_def

lemma MemoryLockAdapter_sel [simp]:
  "lb_acquire MemoryLockAdapter = memory_lock_acquire"
  "lb_release MemoryLockAdapter = memory_lock_release"
  "lb_locked MemoryLockAdapter = memory_lock_locked"
  "lb_owned MemoryLockAdapter = memory_lock_owned"
  by (simp_all add: MemoryLockAdapter_def)

lemma memory_lock_inv_init: "memory_lock_inv memory_lock_init"
  by (simp add: memory_lock_inv_def memory_lock_init_def)

lemma memory_lock_inv_close: "memory_lock_inv (memory_lock_close s)"
  by (simp add: memory_lock_inv_def memory_lock_close_def)

lemma memory_lock_invD:
  assumes "memory_lock_inv s"
  shows "dwf (locks s)" "dwf (fences s)"
    and "dget (locks s) n = Some e \<Longrightarrow> \<exists>f. dget (fences s) n = Some f"
    and "dget (fences s) n = Some f \<Longrightarrow> 0 < f" and "0 \<le> lock_fence s n"
  using assms by (force simp: memory_lock_inv_def lock_fence_def dget_or_def split: option.splits)+

text \<open>The three outcomes of \<open>acquire\<close>: free or expired, renewed by its holder, held by another.\<close>

lemma memory_lock_acquire_free:
  "lock_holder s t1 n = None \<Longrightarrow> memory_lock_acquire t1 t2 n a d s =
     (Inr (Some (lock_fence s n + 1)),
      s\<lparr>fences := dput n (lock_fence s n + 1) (fences s), locks := dput n (a, t2 + d) (locks s)\<rparr>)"
  by (auto simp: memory_lock_defs split: option.splits if_splits prod.splits)

lemma memory_lock_acquire_renew:
  assumes "memory_lock_inv s" "lock_holder s t1 n = Some a"
  shows "memory_lock_acquire t1 t2 n a d s =
    (Inr (Some (lock_fence s n)), s\<lparr>locks := dput n (a, t2 + d) (locks s)\<rparr>)"
proof -
  from assms(2) obtain e where e: "dget (locks s) n = Some (a, e)" "\<not> e < t1"
    by (auto simp: lock_holder_def split: option.splits if_splits)
  from memory_lock_invD(3) [OF assms(1) e(1)] obtain f where "dget (fences s) n = Some f" by blast
  with e show ?thesis by (simp add: memory_lock_defs dget_or_def)
qed

lemma memory_lock_acquire_held:
  "lock_holder s t1 n = Some b \<Longrightarrow> a \<noteq> b \<Longrightarrow> memory_lock_acquire t1 t2 n a d s = (Inr None, s)"
  by (auto simp: memory_lock_defs split: option.splits if_splits prod.splits)

lemmas memory_lock_acquire_simps =
  memory_lock_acquire_free memory_lock_acquire_renew memory_lock_acquire_held

lemma lock_holder_put [simp]:
  "lock_holder (s\<lparr>locks := dput n (a, e) l\<rparr>) t m =
     (if m = n then if t \<le> e then Some a else None else lock_holder (s\<lparr>locks := l\<rparr>) t m)"
  by (simp add: lock_holder_def)

lemma lock_holder_del [simp]:
  "lock_holder (s\<lparr>locks := ddel n l\<rparr>) t m =
     (if m = n then None else lock_holder (s\<lparr>locks := l\<rparr>) t m)"
  by (simp add: lock_holder_def)

lemma lock_holder_frame [simp]:
  "lock_holder (s\<lparr>fences := x\<rparr>) t m = lock_holder s t m" "lock_holder (s\<lparr>locks := locks s\<rparr>) t m = lock_holder s t m"
  by (simp_all add: lock_holder_def)

lemma lock_fence_put [simp]:
  "lock_fence (s\<lparr>fences := dput n f x\<rparr>) m = (if m = n then f else lock_fence (s\<lparr>fences := x\<rparr>) m)"
  "lock_fence (s\<lparr>locks := l\<rparr>) m = lock_fence s m"
  by (simp_all add: lock_fence_def)

lemma memory_lock_inv_acquire:
  assumes "memory_lock_inv s" "memory_lock_acquire t1 t2 n a d s = (r, s')"
  shows "memory_lock_inv s'"
proof -
  note invD = memory_lock_invD [OF assms(1)]
  consider "lock_holder s t1 n = None" | "lock_holder s t1 n = Some a"
    | b where "lock_holder s t1 n = Some b" "a \<noteq> b"
    by (cases "lock_holder s t1 n") auto
  then show ?thesis
  proof cases
    case 1
    with assms invD(5) [of n] show ?thesis
      by (auto simp: memory_lock_acquire_free memory_lock_inv_def pd.wf_put split: if_splits)
  next
    case 2
    then have "\<exists>e. dget (locks s) n = Some e"
      by (auto simp: lock_holder_def split: option.splits)
    with 2 assms invD(3) [of n] show ?thesis
      by (auto simp: memory_lock_acquire_renew memory_lock_inv_def pd.wf_put split: if_splits)
  next
    case 3
    with assms show ?thesis by (simp add: memory_lock_acquire_held)
  qed
qed

lemma memory_lock_inv_release:
  "memory_lock_inv s \<Longrightarrow> memory_lock_release t1 t2 n a s = (r, s') \<Longrightarrow> memory_lock_inv s'"
  by (auto simp: memory_lock_release_def Let_def memory_lock_inv_def pd.wf_del
      split: if_splits prod.splits)

lemma memory_lock_release_own:
  "lock_holder s t1 n = Some a \<Longrightarrow>
   memory_lock_release t1 t2 n a s = (Inr True, s\<lparr>locks := ddel n (locks s)\<rparr>)"
  by (auto simp: memory_lock_defs split: option.splits if_splits)

lemma memory_lock_release_other:
  assumes "t1 \<le> t2" "lock_holder s t1 n \<noteq> Some a" "memory_lock_release t1 t2 n a s = (r, s')"
  shows "r = Inr False \<and> (\<forall>t \<ge> t2. lock_holder s' t n = lock_holder s t n)"
  using assms
  by (cases "dget (locks s) n") (auto simp: memory_lock_defs split: if_splits)

interpretation ml: lock_backend_laws MemoryLockAdapter lock_holder lock_fence memory_lock_inv
  "\<lambda>t1 t2 d t. t \<le> t2 + d" "\<lambda>n. True" "\<lambda>d. True"
proof (unfold_locales, goal_cases)
  case (1 s t1 t2 n d a r s')
  then show ?case by (auto simp: memory_lock_acquire_free memory_lock_acquire_renew)
next
  case (2 s t1 t2 n d b a)
  then show ?case by (simp add: memory_lock_acquire_held)
next
  case (3 s t1 t2 n a r s')
  then show ?case by (auto simp: memory_lock_release_own)
next
  case (4 s t1 t2 n a r s')
  then show ?case using memory_lock_release_other [of t1 t2 s n a r s'] by simp
next
  case (5 s n t1 t2 a q s' m)
  then show ?case
    by (auto simp: memory_lock_release_def Let_def split: if_splits prod.splits)
next
  case (6 s n t)
  then show ?case by (auto simp: memory_lock_defs split: option.splits)
next
  case (7 s n t a)
  then show ?case by (auto simp: memory_lock_defs split: option.splits)
next
  case (8 s t n t')
  then show ?case by (auto simp: lock_holder_def split: option.splits if_splits)
next
  case (9 s t n a t' b)
  then show ?case by (auto simp: lock_holder_def split: option.splits if_splits)
next
  case (10 s n d t1 t2 a r s')
  then show ?case by (simp add: memory_lock_inv_acquire)
next
  case (11 s n t1 t2 a q s')
  then show ?case by (simp add: memory_lock_inv_release)
qed

lemma any_request_ok [simp]: "request_ok (\<lambda>n. True) (\<lambda>d. True) q"
  by (cases q) simp_all

section \<open>The adapter's guarantees\<close>

text \<open>
  C3. In every run of acquires and releases by any clients, from an empty adapter and with a
  clock that does not go back, the fencing tokens of one lock never decrease, and each change of
  holder raises them strictly: a resource that remembers the highest token it saw rejects every
  write of a holder that lost the lock.
\<close>

theorem memory_lock_fencing_ordered:
  assumes "clock_ok t rs"
  shows "sorted_wrt fence_ordered (fst (lock_run MemoryLockAdapter rs memory_lock_init))"
  by (rule ml.run_fence_ordered [OF memory_lock_inv_init assms]) simp

theorem memory_lock_fencing_ordered_witness:
  "clock_ok 0 [(0, 0, Acquire ''a'' ''x'' 10), (1, 1, Acquire ''a'' ''y'' 10), (11, 11, Acquire ''a'' ''y'' 5)] \<and>
   fst (lock_run MemoryLockAdapter
     [(0, 0, Acquire ''a'' ''x'' 10), (1, 1, Acquire ''a'' ''y'' 10), (11, 11, Acquire ''a'' ''y'' 5)]
     memory_lock_init) = [(''a'', ''x'', 1), (''a'', ''y'', 2)] \<and>
   sorted_wrt fence_ordered [(''a'', ''x'', 1), (''a'', ''y'', 2)]"
proof -
  let ?rs = "[(0, 0, Acquire ''a'' ''x'' 10), (1, 1, Acquire ''a'' ''y'' 10),
    (11, 11, Acquire ''a'' ''y'' 5)] :: timed_request list"
  have c: "clock_ok 0 ?rs" by simp
  have r: "fst (lock_run MemoryLockAdapter ?rs memory_lock_init) = [(''a'', ''x'', 1), (''a'', ''y'', 2)]"
    by (simp add: memory_lock_defs memory_lock_init_def)
  from c r memory_lock_fencing_ordered [OF c] show ?thesis by simp
qed

text \<open>
  C2. A granted lease excludes everyone else: from the grant until the lease ends, as long as the
  holder makes no request of its own on the lock, no other token is granted the lock, whatever
  the other clients request, and the holder still owns it at the end of the lease.
\<close>

theorem memory_lock_lease_excludes:
  assumes "memory_lock_inv s" "t1 \<le> t2" "0 \<le> d"
    and "memory_lock_acquire t1 t2 n a d s = (Inr (Some f), s')"
    and "clock_ok t2 rs" "\<forall>(u1, u2, q) \<in> set rs. u2 \<le> t2 + d" "\<forall>x \<in> set rs. \<not> concerns n a x"
  shows "n \<notin> fst ` set (fst (lock_run MemoryLockAdapter rs s')) \<and>
    memory_lock_owned (t2 + d) n a (snd (lock_run MemoryLockAdapter rs s')) = Inr True"
proof -
  have acq: "lb_acquire MemoryLockAdapter t1 t2 n a d s = (Inr (Some f), s')"
    using assms(4) by simp
  have h: "lock_holder s' (t2 + d) n = Some a"
    by (rule ml.acquire_cases [OF assms(1,2) TrueI TrueI acq]) auto
  have i: "memory_lock_inv s'" by (rule memory_lock_inv_acquire [OF assms(1,4)])
  have "lock_holder (snd (lock_run MemoryLockAdapter rs s')) (t2 + d) n = Some a \<and>
    n \<notin> fst ` set (fst (lock_run MemoryLockAdapter rs s'))"
    by (rule ml.run_excludes [OF i assms(5) _ h]) (use assms(6,7) in auto)
  then show ?thesis by (auto simp: memory_lock_defs split: option.splits if_splits)
qed

theorem memory_lock_lease_excludes_witness:
  "''a'' \<notin> fst ` set (fst (lock_run MemoryLockAdapter
      [(4, 4, Acquire ''a'' ''y'' 10), (5, 5, Release ''a'' ''y''), (9, 10, Acquire ''a'' ''z'' 3)]
      (snd (memory_lock_acquire 0 1 ''a'' ''x'' 9 memory_lock_init)))) \<and>
   memory_lock_owned 10 ''a'' ''x'' (snd (lock_run MemoryLockAdapter
      [(4, 4, Acquire ''a'' ''y'' 10), (5, 5, Release ''a'' ''y''), (9, 10, Acquire ''a'' ''z'' 3)]
      (snd (memory_lock_acquire 0 1 ''a'' ''x'' 9 memory_lock_init)))) = Inr True"
proof -
  let ?rs = "[(4, 4, Acquire ''a'' ''y'' 10), (5, 5, Release ''a'' ''y''),
    (9, 10, Acquire ''a'' ''z'' 3)] :: timed_request list"
  have acq: "memory_lock_acquire 0 1 ''a'' ''x'' 9 memory_lock_init =
    (Inr (Some 1), snd (memory_lock_acquire 0 1 ''a'' ''x'' 9 memory_lock_init))"
    by (simp add: memory_lock_defs memory_lock_init_def)
  show ?thesis
    using memory_lock_lease_excludes [OF memory_lock_inv_init _ _ acq, of ?rs] by simp
qed

lemma memory_lock_inv_step:
  assumes "memory_lock_inv s"
  shows "memory_lock_inv (snd (lock_step MemoryLockAdapter (t1, t2, q) s))"
proof (cases q)
  case (Acquire n a d)
  obtain r s' where acq: "memory_lock_acquire t1 t2 n a d s = (r, s')"
    by (cases "memory_lock_acquire t1 t2 n a d s")
  from memory_lock_inv_acquire [OF assms acq] acq Acquire show ?thesis
    by (simp split: sum.splits option.splits)
next
  case (Release n a)
  then show ?thesis
    by (simp add: memory_lock_inv_release [OF assms prod.collapse [symmetric]])
qed

lemma memory_lock_inv_run: "memory_lock_inv s \<Longrightarrow> memory_lock_inv (snd (lock_run MemoryLockAdapter rs s))"
proof (induction rs arbitrary: s)
  case (Cons x rs)
  obtain t1 t2 q where x: "x = (t1, t2, q)" by (cases x)
  from memory_lock_inv_step [OF Cons.prems] x
  have "memory_lock_inv (snd (lock_step MemoryLockAdapter x s))" by simp
  from Cons.IH [OF this] show ?case by (simp add: case_prod_beta Let_def)
qed simp

text \<open>
  Every run keeps the adapter's invariant, so \<open>acquire\<close> never raises \<open>KeyError\<close>: in any state
  the adapter can reach it answers a fencing token of at least one, or \<open>None\<close>.
\<close>

theorem memory_lock_acquire_total:
  "(case fst (memory_lock_acquire t1 t2 n a d (snd (lock_run MemoryLockAdapter rs memory_lock_init)))
    of Inl e \<Rightarrow> False | Inr None \<Rightarrow> True | Inr (Some f) \<Rightarrow> 1 \<le> f)"
proof -
  let ?s = "snd (lock_run MemoryLockAdapter rs memory_lock_init)"
  have i: "memory_lock_inv ?s" by (rule memory_lock_inv_run [OF memory_lock_inv_init])
  show ?thesis
  proof (cases "lock_holder ?s t1 n")
    case None
    then show ?thesis using memory_lock_invD(5) [OF i, of n] by (simp add: memory_lock_acquire_free)
  next
    case (Some b)
    show ?thesis
    proof (cases "a = b")
      case True
      from Some obtain e where "dget (locks ?s) n = Some e"
        by (auto simp: lock_holder_def split: option.splits)
      from memory_lock_invD(3) [OF i this] memory_lock_invD(4) [OF i, of n] have "0 < lock_fence ?s n"
        by (auto simp: lock_fence_def dget_or_def)
      with True Some show ?thesis by (simp add: memory_lock_acquire_renew [OF i])
    next
      case False
      with Some show ?thesis by (simp add: memory_lock_acquire_held)
    qed
  qed
qed

end
