(* ===== verification/Tokens.thy ===== *)
theory Tokens
  imports Text
begin

text \<open>
  Ownership tokens (\<open>coordination/_tokens.py\<close>). A process is its pid, the pid that imported the
  module and the memo of fork suffixes; random hexadecimal text is a parameter. The lemmas show
  that tokens tell apart the tasks and threads of a worker, and the processes of a fork.
\<close>

record process =
  pid :: nat
  origin_pid :: nat
  fork_suffixes :: "(nat, string) pydict"

text \<open>\<open>resolve_worker\<close>; \<open>hex\<close> is what \<open>token_hex(4)\<close> returns if it is called.\<close>

definition resolve_worker :: "string \<Rightarrow> process \<Rightarrow> string \<Rightarrow> string \<times> process" where
  "resolve_worker hex p worker =
     (if pid p = origin_pid p then (worker, p)
      else case dget (fork_suffixes p) (pid p) of
        Some suffix \<Rightarrow> (worker @ suffix, p)
      | None \<Rightarrow> (let suffix = ''.'' @ hex
                in (worker @ suffix, p\<lparr>fork_suffixes := dput (pid p) suffix (fork_suffixes p)\<rparr>)))"

text \<open>\<open>task\<close> is the identity of the running asyncio task, \<open>None\<close> outside one.\<close>

definition generate_task_token ::
  "string \<Rightarrow> process \<Rightarrow> nat option \<Rightarrow> string \<Rightarrow> string \<Rightarrow> (py_exc + token) \<times> process"
where
  "generate_task_token hex p task worker nonce =
     (case task of
        None \<Rightarrow> (Inl RuntimeError, p)
      | Some i \<Rightarrow> (let (w, p') = resolve_worker hex p worker
                  in (Inr (w @ '':task:'' @ show_nat i @ nonce), p')))"

definition generate_thread_token ::
  "string \<Rightarrow> process \<Rightarrow> nat \<Rightarrow> string \<Rightarrow> string \<Rightarrow> token \<times> process"
where
  "generate_thread_token hex p thread_id worker nonce =
     (let (w, p') = resolve_worker hex p worker
      in (w @ '':thread:'' @ show_nat thread_id @ nonce, p'))"

text \<open>\<open>generate_token_nonce\<close>: the process-wide counter and random text.\<close>

definition generate_token_nonce :: "string \<Rightarrow> nat \<Rightarrow> string \<times> nat" where
  "generate_token_nonce hex counter = ('':'' @ show_nat counter @ ''.'' @ hex, Suc counter)"

section \<open>Properties\<close>

text \<open>The memo makes the identity stable: a second call answers the same, whatever it would draw.\<close>

lemma resolve_worker_stable:
  "resolve_worker hex p w = (w', p') \<Longrightarrow> resolve_worker hex' p' w = (w', p')"
  by (auto simp: resolve_worker_def Let_def split: if_splits option.splits)

lemma generate_task_token_eq:
  "resolve_worker hex p worker = (w, p') \<Longrightarrow>
   generate_task_token hex p (Some i) worker nonce = (Inr (w @ '':task:'' @ show_nat i @ nonce), p')"
  by (simp add: generate_task_token_def)

lemma generate_thread_token_eq:
  "resolve_worker hex p worker = (w, p') \<Longrightarrow>
   generate_thread_token hex p i worker nonce = (w @ '':thread:'' @ show_nat i @ nonce, p')"
  by (simp add: generate_thread_token_def)

text \<open>Nonces of one process differ: the counter part does, and ends at the dot.\<close>

lemma show_nat_dot_inject:
  assumes "show_nat m @ CHR ''.'' # x = show_nat n @ CHR ''.'' # y"
  shows "m = n"
proof -
  have nodot: "CHR ''.'' \<notin> set (show_nat k)" for k
    using show_nat_digits [of k] by (auto simp: list_all_iff is_digit_def)
  have "takeWhile (\<lambda>c. c \<noteq> CHR ''.'') (show_nat k @ CHR ''.'' # z) = show_nat k" for k z
    using nodot [of k] by (subst takeWhile_append2) auto
  with assms have "show_nat m = show_nat n" by metis
  then show ?thesis by simp
qed

lemma generate_token_nonce_distinct:
  "m \<noteq> n \<Longrightarrow> fst (generate_token_nonce h m) \<noteq> fst (generate_token_nonce k n)"
  by (auto simp: generate_token_nonce_def dest: show_nat_dot_inject)

lemma hex_suffix_differs:
  "length h = length h' \<Longrightarrow> h \<noteq> h' \<Longrightarrow> w @ CHR ''.'' # h @ x \<noteq> w @ CHR ''.'' # h' @ y"
  by simp

text \<open>
  A forked worker never presents a token of its parent or of a sibling: whatever tasks the two
  processes run, the task tokens built from one configured worker identity differ, given that the
  siblings drew different random suffixes of the same length.
\<close>

theorem fork_tokens_differ:
  assumes "pid parent = origin_pid parent"
    and "pid child \<noteq> origin_pid child" "dget (fork_suffixes child) (pid child) = None"
    and "pid sibling \<noteq> origin_pid sibling" "dget (fork_suffixes sibling) (pid sibling) = None"
    and "length h = length h'" "h \<noteq> h'"
  shows "fst (generate_task_token g parent (Some i) worker nonce)
           \<noteq> fst (generate_task_token h child (Some j) worker nonce') \<and>
         fst (generate_task_token h child (Some j) worker nonce')
           \<noteq> fst (generate_task_token h' sibling (Some k) worker nonce'')"
  using assms by (simp add: generate_task_token_def resolve_worker_def Let_def)

theorem fork_tokens_differ_witness:
  "fst (generate_task_token '''' \<lparr>pid = 1, origin_pid = 1, fork_suffixes = []\<rparr> (Some 7) ''w'' '''')
     \<noteq> fst (generate_task_token ''ab'' \<lparr>pid = 2, origin_pid = 1, fork_suffixes = []\<rparr> (Some 7) ''w'' '''') \<and>
   fst (generate_task_token ''ab'' \<lparr>pid = 2, origin_pid = 1, fork_suffixes = []\<rparr> (Some 7) ''w'' '''')
     \<noteq> fst (generate_task_token ''cd'' \<lparr>pid = 3, origin_pid = 1, fork_suffixes = []\<rparr> (Some 7) ''w'' '''')"
  by (rule fork_tokens_differ) simp_all

end
