(* ===== verification/Lock_Client.thy ===== *)
theory Lock_Client
  imports Memory_Lock Tokens
begin

text \<open>
  The distributed lock a program uses (\<open>coordination/lock.py\<close>, \<open>Lock\<close>), over any backend.

  A world is the lock object (its name, configuration, effective worker identity and the two sets
  of local ownership markers) and the backend's state. An owner is an asyncio task or a worker
  thread; the thread methods run the same bodies with the thread's token and marker set, and
  differ from the task methods in nothing else. The retry loop of \<open>acquire\<close> takes one wake-up per
  iteration: the loop time of the deadline test, the random draw of the jitter, what the rest of
  the world did during the sleep, and the backend's clock readings. A loop that has used its
  wake-ups is still waiting (\<open>None\<close>).

  The lemmas on ownership markers and acquired leases are proved in \<open>lock_backend_laws\<close>, for every
  backend that keeps the contract.
\<close>

section \<open>Data\<close>

datatype lock_error = LockReentrantError | LockAcquireError | LockNotOwnedError | LockReleaseError
  | LockLockedCheckError | LockOwnedCheckError | WouldBlockError | TimeoutError

record lock_config =
  lease_duration :: seconds
  retry_interval :: seconds
  retry_jitter :: real

datatype lock_owner = Task nat | Thread nat

record lock_obj =
  lock_id :: string
  lock_cfg :: lock_config
  lock_worker :: string
  held_by_tasks :: "nat set"
  held_by_threads :: "nat set"

record lock_handle =
  handle_name :: string
  handle_token :: token
  fencing_token :: int

type_synonym 's world = "lock_obj \<times> 's"

record 's wakeup =
  wk_time :: seconds
  wk_random :: real
  wk_env :: "'s world \<Rightarrow> 's world"
  wk_t1 :: seconds
  wk_t2 :: seconds

section \<open>Names, configuration, jitter\<close>

definition newline :: char where
  "newline = CHR 0x0A"

definition name_char :: "char \<Rightarrow> bool" where
  "name_char c \<longleftrightarrow> is_alnum c \<or> c \<in> set ''._:/-''"

text \<open>
  \<open>_NAME_PATTERN.match(name)\<close>. In Python \<open>$\<close> also matches just before a newline that ends the
  text, so one trailing newline is accepted.
\<close>

definition name_pattern_match :: "string \<Rightarrow> bool" where
  "name_pattern_match s = (case s of [] \<Rightarrow> False | c # cs \<Rightarrow> is_alnum c \<and>
     (list_all name_char cs \<or> (cs \<noteq> [] \<and> last cs = newline \<and> list_all name_char (butlast cs))))"

definition validate_lock_name :: "string \<Rightarrow> py_exc + unit" where
  "validate_lock_name name =
     (if name = [] \<or> 200 < length name \<or> \<not> name_pattern_match name then Inl ValueError else Inr ())"

text \<open>The \<open>Seconds\<close> fields are positive floats; \<open>_validate\<close> then adds its two tests.\<close>

definition validate_lock_config :: "lock_config \<Rightarrow> py_exc + lock_config" where
  "validate_lock_config c =
     (if lease_duration c \<le> 0 \<or> retry_interval c \<le> 0 then Inl ValueError
      else if retry_interval c < 1 / 1000 then Inl ValueError
      else if \<not> (0 \<le> retry_jitter c \<and> retry_jitter c < 1) then Inl ValueError
      else Inr c)"

definition jittered_interval :: "real \<Rightarrow> real \<Rightarrow> real \<Rightarrow> real" where
  "jittered_interval rnd base jitter =
     (if jitter \<noteq> 0 then base * (1 + jitter * (2 * rnd - 1)) else base)"

definition lock_setup :: "string \<Rightarrow> lock_config \<Rightarrow> string \<Rightarrow> py_exc + lock_obj" where
  "lock_setup name config worker =
     (case validate_lock_name name of Inl e \<Rightarrow> Inl e
      | Inr _ \<Rightarrow> Inr \<lparr>lock_id = name, lock_cfg = config, lock_worker = worker,
          held_by_tasks = {}, held_by_threads = {}\<rparr>)"

definition lock_name :: "lock_obj \<Rightarrow> key" where
  "lock_name L = ''lock:'' @ lock_id L"

section \<open>Operations\<close>

fun owner_token :: "lock_obj \<Rightarrow> lock_owner \<Rightarrow> token" where
  "owner_token L (Task i) = lock_worker L @ '':task:'' @ show_nat i"
| "owner_token L (Thread i) = lock_worker L @ '':thread:'' @ show_nat i"

fun is_held :: "lock_obj \<Rightarrow> lock_owner \<Rightarrow> bool" where
  "is_held L (Task i) = (i \<in> held_by_tasks L)"
| "is_held L (Thread i) = (i \<in> held_by_threads L)"

fun mark :: "lock_owner \<Rightarrow> lock_obj \<Rightarrow> lock_obj" where
  "mark (Task i) L = L\<lparr>held_by_tasks := insert i (held_by_tasks L)\<rparr>"
| "mark (Thread i) L = L\<lparr>held_by_threads := insert i (held_by_threads L)\<rparr>"

fun unmark :: "lock_owner \<Rightarrow> lock_obj \<Rightarrow> lock_obj" where
  "unmark (Task i) L = L\<lparr>held_by_tasks := held_by_tasks L - {i}\<rparr>"
| "unmark (Thread i) L = L\<lparr>held_by_threads := held_by_threads L - {i}\<rparr>"

definition do_acquire ::
  "'s lock_backend \<Rightarrow> seconds \<Rightarrow> seconds \<Rightarrow> token \<Rightarrow> seconds \<Rightarrow> 's world \<Rightarrow> (lock_error + int option) \<times> 's world"
where
  "do_acquire B t1 t2 token duration w =
     (case w of (L, s) \<Rightarrow> case lb_acquire B t1 t2 (lock_name L) token duration s of
        (Inl exc, s') \<Rightarrow> (Inl LockAcquireError, L, s')
      | (Inr r, s') \<Rightarrow> (Inr r, L, s'))"

definition do_release ::
  "'s lock_backend \<Rightarrow> seconds \<Rightarrow> seconds \<Rightarrow> token \<Rightarrow> 's world \<Rightarrow> (lock_error + bool) \<times> 's world"
where
  "do_release B t1 t2 token w =
     (case w of (L, s) \<Rightarrow> case lb_release B t1 t2 (lock_name L) token s of
        (Inl exc, s') \<Rightarrow> (Inl LockReleaseError, L, s')
      | (Inr r, s') \<Rightarrow> (Inr r, L, s'))"

definition do_owned :: "'s lock_backend \<Rightarrow> seconds \<Rightarrow> token \<Rightarrow> 's world \<Rightarrow> lock_error + bool" where
  "do_owned B t token w =
     (case w of (L, s) \<Rightarrow> case lb_owned B t (lock_name L) token s of
        Inl exc \<Rightarrow> Inl LockOwnedCheckError | Inr r \<Rightarrow> Inr r)"

definition lock_locked :: "'s lock_backend \<Rightarrow> seconds \<Rightarrow> 's world \<Rightarrow> lock_error + bool" where
  "lock_locked B t w =
     (case w of (L, s) \<Rightarrow> case lb_locked B t (lock_name L) s of
        Inl exc \<Rightarrow> Inl LockLockedCheckError | Inr r \<Rightarrow> Inr r)"

definition lock_owned :: "'s lock_backend \<Rightarrow> seconds \<Rightarrow> lock_owner \<Rightarrow> 's world \<Rightarrow> lock_error + bool" where
  "lock_owned B t i w = do_owned B t (owner_token (fst w) i) w"

definition make_handle :: "lock_obj \<Rightarrow> token \<Rightarrow> int \<Rightarrow> lock_handle" where
  "make_handle L token f = \<lparr>handle_name = lock_id L, handle_token = token, fencing_token = f\<rparr>"

text \<open>The retry loop: it also reports the sleeps it made.\<close>

fun acquire_loop ::
  "'s lock_backend \<Rightarrow> lock_config \<Rightarrow> token \<Rightarrow> seconds option \<Rightarrow> 's wakeup list \<Rightarrow> 's world \<Rightarrow>
   (lock_error + int) option \<times> seconds list \<times> 's world"
where
  "acquire_loop B config token deadline [] w = (None, [], w)"
| "acquire_loop B config token deadline (k # ks) w =
     (if (case deadline of None \<Rightarrow> False | Some d \<Rightarrow> wk_time k \<ge> d) then (Some (Inl TimeoutError), [], w)
      else let interval = jittered_interval (wk_random k) (retry_interval config) (retry_jitter config)
           in case do_acquire B (wk_t1 k) (wk_t2 k) token (lease_duration config) (wk_env k w) of
                (Inl e, w') \<Rightarrow> (Some (Inl e), [interval], w')
              | (Inr (Some f), w') \<Rightarrow> (Some (Inr f), [interval], w')
              | (Inr None, w') \<Rightarrow>
                  (case acquire_loop B config token deadline ks w' of
                     (r, sleeps, w'') \<Rightarrow> (r, interval # sleeps, w'')))"

definition lock_acquire ::
  "'s lock_backend \<Rightarrow> seconds \<Rightarrow> seconds option \<Rightarrow> seconds \<Rightarrow> seconds \<Rightarrow> 's wakeup list \<Rightarrow> lock_owner \<Rightarrow>
   's world \<Rightarrow> (lock_error + lock_handle) option \<times> seconds list \<times> 's world"
where
  "lock_acquire B now timeout t1 t2 ks i w =
     (let L = fst w; config = lock_cfg L in
      if is_held L i then (Some (Inl LockReentrantError), [], w)
      else let token = owner_token L i;
               deadline = (case timeout of None \<Rightarrow> None | Some x \<Rightarrow> Some (now + x));
               (r, sleeps, w') =
                 (case do_acquire B t1 t2 token (lease_duration config) w of
                    (Inl e, w') \<Rightarrow> (Some (Inl e), [], w')
                  | (Inr (Some f), w') \<Rightarrow> (Some (Inr f), [], w')
                  | (Inr None, w') \<Rightarrow> acquire_loop B config token deadline ks w')
           in (case r of
                 None \<Rightarrow> (None, sleeps, w')
               | Some (Inl e) \<Rightarrow> (Some (Inl e), sleeps, w')
               | Some (Inr f) \<Rightarrow>
                   (Some (Inr (make_handle (fst w') token f)), sleeps, mark i (fst w'), snd w')))"

definition lock_extend ::
  "'s lock_backend \<Rightarrow> seconds \<Rightarrow> seconds \<Rightarrow> lock_owner \<Rightarrow> 's world \<Rightarrow> (lock_error + lock_handle) \<times> 's world"
where
  "lock_extend B t1 t2 i w =
     (let L = fst w in
      if \<not> is_held L i then (Inl LockNotOwnedError, w)
      else let token = owner_token L i in
        case do_acquire B t1 t2 token (lease_duration (lock_cfg L)) w of
          (Inl e, w') \<Rightarrow> (Inl e, w')
        | (Inr None, w') \<Rightarrow> (Inl LockNotOwnedError, w')
        | (Inr (Some f), w') \<Rightarrow> (Inr (make_handle L token f), w'))"

definition lock_acquire_nowait ::
  "'s lock_backend \<Rightarrow> seconds \<Rightarrow> seconds \<Rightarrow> lock_owner \<Rightarrow> 's world \<Rightarrow> (lock_error + lock_handle) \<times> 's world"
where
  "lock_acquire_nowait B t1 t2 i w =
     (let L = fst w in
      if is_held L i then (Inl LockReentrantError, w)
      else let token = owner_token L i in
        case do_acquire B t1 t2 token (lease_duration (lock_cfg L)) w of
          (Inl e, w') \<Rightarrow> (Inl e, w')
        | (Inr None, w') \<Rightarrow> (Inl WouldBlockError, w')
        | (Inr (Some f), w') \<Rightarrow> (Inr (make_handle L token f), mark i (fst w'), snd w'))"

definition lock_release ::
  "'s lock_backend \<Rightarrow> seconds \<Rightarrow> seconds \<Rightarrow> lock_owner \<Rightarrow> 's world \<Rightarrow> (lock_error + unit) \<times> 's world"
where
  "lock_release B t1 t2 i w =
     (case do_release B t1 t2 (owner_token (fst w) i) w of
        (Inl e, w') \<Rightarrow> (Inl e, w')
      | (Inr released, w') \<Rightarrow>
          (if released then Inr () else Inl LockNotOwnedError, unmark i (fst w'), snd w'))"

text \<open>The methods of worker threads.\<close>

definition do_thread_acquire where
  "do_thread_acquire B now timeout t1 t2 ks thread_id w =
     lock_acquire B now timeout t1 t2 ks (Thread thread_id) w"

definition do_thread_extend where
  "do_thread_extend B t1 t2 thread_id w = lock_extend B t1 t2 (Thread thread_id) w"

definition do_thread_acquire_nowait where
  "do_thread_acquire_nowait B t1 t2 thread_id w = lock_acquire_nowait B t1 t2 (Thread thread_id) w"

definition do_thread_release where
  "do_thread_release B t1 t2 thread_id w = lock_release B t1 t2 (Thread thread_id) w"

text \<open>What happens around a lock object: its owners call it, other workers call the backend.\<close>

datatype lock_event =
    AcquireNowait lock_owner
  | Extend lock_owner
  | ReleaseLock lock_owner
  | Foreign lock_request

fun world_step :: "'s lock_backend \<Rightarrow> seconds \<times> seconds \<times> lock_event \<Rightarrow> 's world \<Rightarrow> 's world" where
  "world_step B (t1, t2, AcquireNowait i) w = snd (lock_acquire_nowait B t1 t2 i w)"
| "world_step B (t1, t2, Extend i) w = snd (lock_extend B t1 t2 i w)"
| "world_step B (t1, t2, ReleaseLock i) w = snd (lock_release B t1 t2 i w)"
| "world_step B (t1, t2, Foreign q) w = (fst w, snd (lock_step B (t1, t2, q) (snd w)))"

fun world_run :: "'s lock_backend \<Rightarrow> (seconds \<times> seconds \<times> lock_event) list \<Rightarrow> 's world \<Rightarrow> 's world" where
  "world_run B [] w = w"
| "world_run B (x # xs) w = world_run B xs (world_step B x w)"

fun events_ok :: "seconds \<Rightarrow> (seconds \<times> seconds \<times> lock_event) list \<Rightarrow> bool" where
  "events_ok t [] = True"
| "events_ok t ((t1, t2, e) # xs) = (t \<le> t1 \<and> t1 \<le> t2 \<and> events_ok t2 xs)"

fun last_time :: "seconds \<Rightarrow> (seconds \<times> seconds \<times> lock_event) list \<Rightarrow> seconds" where
  "last_time t [] = t"
| "last_time t ((t1, t2, e) # xs) = last_time t2 xs"

text \<open>A request of another worker does not carry a token of this lock's owners.\<close>

fun foreign_ok :: "lock_obj \<Rightarrow> lock_event \<Rightarrow> bool" where
  "foreign_ok L (Foreign (Acquire n a d)) = (\<forall>i. a \<noteq> owner_token L i)"
| "foreign_ok L (Foreign (Release n a)) = (\<forall>i. a \<noteq> owner_token L i)"
| "foreign_ok L e = True"

text \<open>A request of another worker is one the backend takes.\<close>

fun event_served :: "(key \<Rightarrow> bool) \<Rightarrow> (seconds \<Rightarrow> bool) \<Rightarrow> lock_event \<Rightarrow> bool" where
  "event_served name_ok served (Foreign q) = request_ok name_ok served q"
| "event_served name_ok served e = True"

lemmas lock_client_defs = do_acquire_def do_release_def do_owned_def lock_locked_def lock_owned_def
  lock_acquire_def lock_extend_def lock_acquire_nowait_def lock_release_def make_handle_def Let_def

text \<open>The ownership markers cover the backend: a live lease of an owner's token is marked.\<close>

definition markers_ok :: "('s \<Rightarrow> seconds \<Rightarrow> key \<Rightarrow> token option) \<Rightarrow> seconds \<Rightarrow> 's world \<Rightarrow> bool" where
  "markers_ok holder t w \<longleftrightarrow>
     (\<forall>i. holder (snd w) t (lock_name (fst w)) = Some (owner_token (fst w) i) \<longrightarrow> is_held (fst w) i)"

section \<open>Helpers\<close>

lemma owner_token_inject [simp]: "owner_token L i = owner_token L j \<longleftrightarrow> i = j"
  by (cases i; cases j) auto

lemma mark_frame [simp]:
  "lock_name (mark i L) = lock_name L" "owner_token (mark i L) j = owner_token L j"
  "lock_name (unmark i L) = lock_name L" "owner_token (unmark i L) j = owner_token L j"
  "lock_cfg (mark i L) = lock_cfg L" "lock_cfg (unmark i L) = lock_cfg L"
  by (cases i; cases j; simp add: lock_name_def)+

lemma is_held_mark [simp]:
  "is_held (mark i L) j \<longleftrightarrow> j = i \<or> is_held L j" "is_held (unmark i L) j \<longleftrightarrow> j \<noteq> i \<and> is_held L j"
  by (cases i; cases j; auto)+

lemma jittered_interval_bounds:
  assumes "0 \<le> base" "0 \<le> j" "0 \<le> r" "r \<le> 1"
  shows "base * (1 - j) \<le> jittered_interval r base j" "jittered_interval r base j \<le> base * (1 + j)"
proof -
  have "- j \<le> j * (2 * r - 1)" "j * (2 * r - 1) \<le> j"
    using assms mult_left_mono [of "-1" "2 * r - 1" j] mult_left_mono [of "2 * r - 1" 1 j] by auto
  then show "base * (1 - j) \<le> jittered_interval r base j" "jittered_interval r base j \<le> base * (1 + j)"
    using assms by (auto simp: jittered_interval_def intro!: mult_left_mono)
qed

lemma acquire_loop_sleeps:
  assumes "\<And>k. k \<in> set ks \<Longrightarrow> 0 \<le> wk_random k \<and> wk_random k \<le> 1"
    and "0 \<le> retry_interval c" "0 \<le> retry_jitter c"
    and "x \<in> set (fst (snd (acquire_loop B c tok d ks w)))"
  shows "retry_interval c * (1 - retry_jitter c) \<le> x \<and> x \<le> retry_interval c * (1 + retry_jitter c)"
  using assms
  by (induction B c tok d ks w rule: acquire_loop.induct)
    (auto simp: Let_def jittered_interval_bounds split: if_splits prod.splits sum.splits option.splits)

lemma acquire_loop_returns:
  "k \<in> set ks \<Longrightarrow> d \<le> wk_time k \<Longrightarrow> fst (acquire_loop B c tok (Some d) ks w) \<noteq> None"
  by (induction B c tok "Some d" ks w rule: acquire_loop.induct)
    (auto simp: Let_def split: if_splits prod.splits sum.splits option.splits)

lemma do_acquire_obj: "do_acquire B t1 t2 tok d w = (r, w') \<Longrightarrow> fst w' = fst w"
  by (auto simp: do_acquire_def split: prod.splits sum.splits)

lemma do_release_obj: "do_release B t1 t2 tok w = (r, w') \<Longrightarrow> fst w' = fst w"
  by (auto simp: do_release_def split: prod.splits sum.splits)

lemma world_step_frame:
  "lock_name (fst (world_step B (t1, t2, e) w)) = lock_name (fst w) \<and>
   owner_token (fst (world_step B (t1, t2, e) w)) i = owner_token (fst w) i \<and>
   lock_cfg (fst (world_step B (t1, t2, e) w)) = lock_cfg (fst w)"
proof (cases e)
  case (AcquireNowait j)
  then show ?thesis
    by (auto simp: lock_acquire_nowait_def Let_def dest!: do_acquire_obj
        split: prod.splits sum.splits option.splits)
next
  case (Extend j)
  then show ?thesis
    by (auto simp: lock_extend_def Let_def dest!: do_acquire_obj
        split: prod.splits sum.splits option.splits)
next
  case (ReleaseLock j)
  then show ?thesis
    by (auto simp: lock_release_def dest!: do_release_obj split: prod.splits sum.splits)
qed simp

lemma last_time_le: "t \<le> u \<Longrightarrow> (\<And>x. x \<in> set xs \<Longrightarrow> fst (snd x) \<le> u) \<Longrightarrow> last_time t xs \<le> u"
proof (induction xs arbitrary: t)
  case (Cons x xs)
  obtain a b c where x: "x = (a, b, c)" by (cases x)
  have "last_time b xs \<le> u" by (rule Cons.IH) (use Cons.prems(2) x in fastforce)+
  with x show ?case by simp
qed simp

lemma foreign_ok_cong: "owner_token L = owner_token L' \<Longrightarrow> foreign_ok L e = foreign_ok L' e"
  by (cases "(L, e)" rule: foreign_ok.cases) auto

section \<open>Clients of any backend\<close>

context lock_backend_laws
begin

lemma step_new_holder:
  assumes "inv s" "t1 \<le> t2" "lock_step B (t1, t2, q) s = (g, s')" "holder s' t2 m = Some b"
    and "request_ok name_ok served q" "name_ok m"
  shows "holder s t2 m = Some b \<or> (\<exists>d. q = Acquire m b d)"
proof (cases q)
  case (Acquire n a d)
  obtain r u where acq: "lb_acquire B t1 t2 n a d s = (r, u)" by (cases "lb_acquire B t1 t2 n a d s")
  from acq assms(3) Acquire have "u = s'" by (auto split: sum.splits option.splits)
  have ok: "name_ok n" "served d" using assms(5) Acquire by simp_all
  with \<open>u = s'\<close> assms Acquire show ?thesis
    by (cases "m = n"; cases rule: acquire_cases [OF assms(1,2) ok acq]; auto split: if_splits)
next
  case (Release n a)
  then have rel: "lb_release B t1 t2 n a s = (fst (lb_release B t1 t2 n a s), s')" "name_ok n"
    using assms(3,5) by (auto simp: prod_eq_iff)
  from release_holder [OF assms(1,2) rel(2,1) assms(6) order_refl assms(4)] show ?thesis by simp
qed

lemma markers_later: "markers_ok holder t w \<Longrightarrow> t \<le> t' \<Longrightarrow> markers_ok holder t' w"
  unfolding markers_ok_def by (blast intro: holder_mono)

lemma do_acquire_cases:
  assumes "inv s" "t1 \<le> t2" "do_acquire B t1 t2 tok d (L, s) = (r, w')" "name_ok (lock_name L)" "served d"
  obtains (granted) s' where "w' = (L, s')" "inv s'" "r = Inr (Some (fence s' (lock_name L)))"
      "holder s t1 (lock_name L) = None \<or> holder s t1 (lock_name L) = Some tok"
      "\<And>t. holder s' t (lock_name L) = (if lease t1 t2 d t then Some tok else None)"
      "fence s' (lock_name L) = (if holder s t1 (lock_name L) = None then fence s (lock_name L) + 1
         else fence s (lock_name L))"
  | (denied) b where "holder s t1 (lock_name L) = Some b" "b \<noteq> tok" "r = Inr None" "w' = (L, s)"
proof -
  obtain q s' where acq: "lb_acquire B t1 t2 (lock_name L) tok d s = (q, s')"
    by (cases "lb_acquire B t1 t2 (lock_name L) tok d s")
  from inv_acquire [OF assms(1,4,5) acq] have inv: "inv s'" .
  from assms(1,2,4,5) acq show thesis
    by (cases rule: acquire_cases) (use granted denied inv assms(3) acq in \<open>auto simp: do_acquire_def\<close>)
qed

lemma markers_acquire_nowait:
  assumes "inv s" "t1 \<le> t2" "markers_ok holder t1 (L, s)" "lock_acquire_nowait B t1 t2 i (L, s) = (r, w')"
    and "name_ok (lock_name L)" "served (lease_duration (lock_cfg L))"
  shows "inv (snd w') \<and> markers_ok holder t2 w'"
proof (cases "is_held L i")
  case True
  with assms markers_later [OF assms(3,2)] show ?thesis by (auto simp: lock_acquire_nowait_def)
next
  case False
  obtain q w where acq: "do_acquire B t1 t2 (owner_token L i) (lease_duration (lock_cfg L)) (L, s) = (q, w)"
    by (cases "do_acquire B t1 t2 (owner_token L i) (lease_duration (lock_cfg L)) (L, s)")
  from assms(1,2) acq assms(5,6) show ?thesis
  proof (cases rule: do_acquire_cases)
    case (granted s')
    with assms(4) False acq show ?thesis by (auto simp: lock_acquire_nowait_def markers_ok_def split: if_splits)
  next
    case denied
    with assms False acq markers_later [OF assms(3,2)] show ?thesis
      by (auto simp: lock_acquire_nowait_def)
  qed
qed

lemma markers_extend:
  assumes "inv s" "t1 \<le> t2" "markers_ok holder t1 (L, s)" "lock_extend B t1 t2 i (L, s) = (r, w')"
    and "name_ok (lock_name L)" "served (lease_duration (lock_cfg L))"
  shows "inv (snd w') \<and> markers_ok holder t2 w'"
proof (cases "is_held L i")
  case False
  with assms markers_later [OF assms(3,2)] show ?thesis by (auto simp: lock_extend_def)
next
  case True
  obtain q w where acq: "do_acquire B t1 t2 (owner_token L i) (lease_duration (lock_cfg L)) (L, s) = (q, w)"
    by (cases "do_acquire B t1 t2 (owner_token L i) (lease_duration (lock_cfg L)) (L, s)")
  from assms(1,2) acq assms(5,6) show ?thesis
  proof (cases rule: do_acquire_cases)
    case (granted s')
    with assms(4) True acq show ?thesis by (auto simp: lock_extend_def markers_ok_def split: if_splits)
  next
    case denied
    with assms True acq markers_later [OF assms(3,2)] show ?thesis by (auto simp: lock_extend_def)
  qed
qed

lemma markers_release:
  assumes "inv s" "t1 \<le> t2" "markers_ok holder t1 (L, s)" "lock_release B t1 t2 i (L, s) = (r, w')"
    and "name_ok (lock_name L)" "served (lease_duration (lock_cfg L))"
  shows "inv (snd w') \<and> markers_ok holder t2 w'"
proof -
  let ?n = "lock_name L" and ?a = "owner_token L i"
  obtain q s' where rel: "lb_release B t1 t2 ?n ?a s = (q, s')" by (cases "lb_release B t1 t2 ?n ?a s")
  have inv': "inv s'" by (rule inv_release [OF assms(1,5) rel])
  show ?thesis
  proof (cases "holder s t1 ?n = Some ?a")
    case True
    with release_own [OF assms(1,2,5) True rel] assms(4) rel inv' show ?thesis
      by (auto simp: lock_release_def do_release_def markers_ok_def)
  next
    case False
    note other = release_other [OF assms(1,2,5) False rel]
    have "holder s t2 ?n = Some b \<Longrightarrow> holder s t1 ?n = Some b" for b
      by (rule holder_mono [OF assms(2)])
    with other False assms(3,4) rel inv' show ?thesis
      by (auto simp: lock_release_def do_release_def markers_ok_def)
  qed
qed

lemma markers_step:
  assumes "inv (snd w)" "t1 \<le> t2" "markers_ok holder t1 w" "foreign_ok (fst w) e"
    and "name_ok (lock_name (fst w))" "served (lease_duration (lock_cfg (fst w)))" "event_served name_ok served e"
  shows "inv (snd (world_step B (t1, t2, e) w)) \<and> markers_ok holder t2 (world_step B (t1, t2, e) w)"
proof -
  obtain L s where w: "w = (L, s)" by (cases w)
  show ?thesis
  proof (cases e)
    case (Foreign q)
    obtain g s' where st: "lock_step B (t1, t2, q) s = (g, s')" by (cases "lock_step B (t1, t2, q) s")
    have "markers_ok holder t2 (L, s')"
      unfolding markers_ok_def
    proof (intro allI impI)
      fix i assume h: "holder (snd (L, s')) t2 (lock_name (fst (L, s'))) = Some (owner_token (fst (L, s')) i)"
      with step_new_holder [OF _ assms(2) st] assms(1,5,7) w Foreign
      have "holder s t2 (lock_name L) = Some (owner_token L i) \<or>
        (\<exists>d. q = Acquire (lock_name L) (owner_token L i) d)" by simp
      with Foreign assms(4) w markers_later [OF assms(3,2)] show "is_held (fst (L, s')) i"
        by (auto simp: markers_ok_def)
    qed
    with step_facts(1) [OF _ order_refl assms(2) _ st] assms(1,7) w Foreign st show ?thesis by simp
  next
    case (AcquireNowait i)
    with markers_acquire_nowait [OF _ assms(2) _ prod.collapse [symmetric], of s L i] assms w
    show ?thesis by simp
  next
    case (Extend i)
    with markers_extend [OF _ assms(2) _ prod.collapse [symmetric], of s L i] assms w
    show ?thesis by simp
  next
    case (ReleaseLock i)
    with markers_release [OF _ assms(2) _ prod.collapse [symmetric], of s L i] assms w
    show ?thesis by simp
  qed
qed

theorem markers_run:
  assumes "inv (snd w)" "events_ok t xs" "markers_ok holder t w"
    and "\<And>x. x \<in> set xs \<Longrightarrow> foreign_ok (fst w) (snd (snd x))"
    and "name_ok (lock_name (fst w))" "served (lease_duration (lock_cfg (fst w)))"
    and "\<And>x. x \<in> set xs \<Longrightarrow> event_served name_ok served (snd (snd x))"
  shows "inv (snd (world_run B xs w)) \<and> markers_ok holder (last_time t xs) (world_run B xs w)"
  using assms
proof (induction xs arbitrary: w t)
  case Nil
  then show ?case by simp
next
  case (Cons x xs)
  obtain t1 t2 e where x: "x = (t1, t2, e)" by (cases x)
  with Cons.prems(2) have t: "t \<le> t1" "t1 \<le> t2" "events_ok t2 xs" by simp_all
  have "foreign_ok (fst w) e" "event_served name_ok served e" using Cons.prems(4,7) [of x] x by simp_all
  from markers_step [OF Cons.prems(1) t(2) markers_later [OF Cons.prems(3) t(1)] this(1) Cons.prems(5,6) this(2)]
  have st: "inv (snd (world_step B x w))" "markers_ok holder t2 (world_step B x w)"
    unfolding x by simp_all
  have "owner_token (fst (world_step B x w)) = owner_token (fst w)"
    unfolding x using world_step_frame by blast
  then have "foreign_ok (fst (world_step B x w)) f = foreign_ok (fst w) f" for f
    by (rule foreign_ok_cong)
  then have "y \<in> set xs \<Longrightarrow> foreign_ok (fst (world_step B x w)) (snd (snd y))" for y
    using Cons.prems(4) [of y] by simp
  from Cons.IH [OF st(1) t(3) st(2) this] x Cons.prems(5-7) world_step_frame [of B t1 t2 e w] show ?case by simp
qed

text \<open>A loop that returns a fencing token leaves the lease with the token it asked for.\<close>

lemma acquire_loop_success:
  assumes "inv (snd w)" "\<And>k. k \<in> set ks \<Longrightarrow> wk_t1 k \<le> wk_t2 k"
    and "\<And>k w. k \<in> set ks \<Longrightarrow> inv (snd w) \<Longrightarrow> inv (snd (wk_env k w))"
    and "acquire_loop B c tok d ks w = (Some (Inr f), sleeps, w')"
    and "\<And>k w. k \<in> set ks \<Longrightarrow> name_ok (lock_name (fst w)) \<Longrightarrow> name_ok (lock_name (fst (wk_env k w)))"
    and "name_ok (lock_name (fst w))" "served (lease_duration c)"
  shows "\<exists>k \<in> set ks. f = fence (snd w') (lock_name (fst w')) \<and>
    (\<forall>t. lease (wk_t1 k) (wk_t2 k) (lease_duration c) t \<longrightarrow> holder (snd w') t (lock_name (fst w')) = Some tok)"
  using assms
proof (induction ks arbitrary: w sleeps)
  case Nil
  then show ?case by simp
next
  case (Cons k ks)
  obtain L s where e: "wk_env k w = (L, s)" by (cases "wk_env k w")
  with Cons.prems(1,3) have s: "inv s" by (metis list.set_intros(1) snd_conv)
  have nm: "name_ok (lock_name L)" using Cons.prems(5) [of k w] Cons.prems(6) e by simp
  have t: "wk_t1 k \<le> wk_t2 k" using Cons.prems(2) by simp
  obtain q u where acq: "do_acquire B (wk_t1 k) (wk_t2 k) tok (lease_duration c) (L, s) = (q, u)"
    by (cases "do_acquire B (wk_t1 k) (wk_t2 k) tok (lease_duration c) (L, s)")
  from s t acq nm Cons.prems(7) show ?case
  proof (cases rule: do_acquire_cases)
    case (granted s')
    with Cons.prems(4) e acq nm show ?thesis by (auto simp: Let_def split: if_splits option.splits)
  next
    case denied
    with Cons.prems(4) e acq obtain sl where "acquire_loop B c tok d ks (L, s) = (Some (Inr f), sl, w')"
      by (auto simp: Let_def split: if_splits option.splits prod.splits)
    from Cons.IH [OF _ _ _ this] s Cons.prems(2,3,5,7) nm show ?thesis by simp
  qed
qed

lemma acquire_success:
  assumes "inv (snd w)" "t1 \<le> t2" "\<And>k. k \<in> set ks \<Longrightarrow> wk_t1 k \<le> wk_t2 k"
    and "\<And>k w. k \<in> set ks \<Longrightarrow> inv (snd w) \<Longrightarrow> inv (snd (wk_env k w))"
    and "lock_acquire B now timeout t1 t2 ks i w = (Some (Inr h), sleeps, w')"
    and "\<And>k w. k \<in> set ks \<Longrightarrow> name_ok (lock_name (fst w)) \<Longrightarrow> name_ok (lock_name (fst (wk_env k w)))"
    and "name_ok (lock_name (fst w))" "served (lease_duration (lock_cfg (fst w)))"
  shows "is_held (fst w') i \<and> handle_token h = owner_token (fst w) i \<and>
    fencing_token h = fence (snd w') (lock_name (fst w')) \<and>
    (\<exists>u1 u2. (u1, u2) \<in> insert (t1, t2) ((\<lambda>k. (wk_t1 k, wk_t2 k)) ` set ks) \<and>
       (\<forall>t. lease u1 u2 (lease_duration (lock_cfg (fst w))) t \<longrightarrow>
         holder (snd w') t (lock_name (fst w')) = Some (handle_token h)))"
proof -
  obtain L s where w: "w = (L, s)" by (cases w)
  let ?tok = "owner_token L i" and ?d = "lease_duration (lock_cfg L)"
  have inv: "inv s" "name_ok (lock_name L)" "served ?d" using assms(1,7,8) w by simp_all
  have nh: "\<not> is_held L i" using assms(5) w by (auto simp: lock_acquire_def Let_def)
  obtain q u where acq: "do_acquire B t1 t2 ?tok ?d (L, s) = (q, u)"
    by (cases "do_acquire B t1 t2 ?tok ?d (L, s)")
  from inv(1) assms(2) acq inv(2,3) show ?thesis
  proof (cases rule: do_acquire_cases)
    case (granted s')
    with assms(5) w nh acq have "is_held (fst w') i" "handle_token h = owner_token (fst w) i"
      "fencing_token h = fence (snd w') (lock_name (fst w'))"
      "\<forall>t. lease t1 t2 ?d t \<longrightarrow> holder (snd w') t (lock_name (fst w')) = Some (handle_token h)"
      by (auto simp: lock_acquire_def Let_def make_handle_def)
    then show ?thesis using w by auto
  next
    case denied
    define dl where "dl = (case timeout of None \<Rightarrow> None | Some x \<Rightarrow> Some (now + x))"
    obtain r sl v where lp: "acquire_loop B (lock_cfg L) ?tok dl ks (L, s) = (r, sl, v)"
      by (metis prod_cases3)
    from assms(5) w nh acq denied lp obtain f where f: "r = Some (Inr f)"
      and h: "h = make_handle (fst v) ?tok f" "w' = (mark i (fst v), snd v)"
      by (auto simp: lock_acquire_def Let_def dl_def split: option.splits sum.splits)
    obtain k where "k \<in> set ks" "f = fence (snd v) (lock_name (fst v))"
      "\<And>t. lease (wk_t1 k) (wk_t2 k) ?d t \<Longrightarrow> holder (snd v) t (lock_name (fst v)) = Some ?tok"
      using acquire_loop_success [OF _ assms(3,4) lp [unfolded f] assms(6)] inv by auto
    moreover from this(1) have "(wk_t1 k, wk_t2 k) \<in> insert (t1, t2) ((\<lambda>k. (wk_t1 k, wk_t2 k)) ` set ks)" by simp
    ultimately show ?thesis using h w by (simp add: make_handle_def) blast
  qed
qed

end

section \<open>The lock over the memory adapter\<close>

text \<open>
  C8. A successful \<open>acquire\<close> (by a task or by a thread, at once or after any number of retries, with
  any interference during the sleeps) marks the caller as holder, and leaves the backend's lease
  with the caller's token for the whole lease duration; the handle carries that token and the
  lock's current fencing token.
\<close>

theorem lock_acquire_holds_lease:
  assumes "memory_lock_inv (snd w)" "t1 \<le> t2" "\<forall>k \<in> set ks. wk_t1 k \<le> wk_t2 k"
    and "\<forall>k \<in> set ks. \<forall>w. memory_lock_inv (snd w) \<longrightarrow> memory_lock_inv (snd (wk_env k w))"
    and "lock_acquire MemoryLockAdapter now timeout t1 t2 ks i w = (Some (Inr h), sleeps, w')"
  shows "is_held (fst w') i \<and> handle_token h = owner_token (fst w) i \<and>
    fencing_token h = lock_fence (snd w') (lock_name (fst w')) \<and>
    (\<exists>u \<in> insert t2 (wk_t2 ` set ks). \<forall>t \<le> u + lease_duration (lock_cfg (fst w)).
       memory_lock_owned t (lock_name (fst w')) (handle_token h) (snd w') = Inr True)"
proof -
  have own: "lock_holder s t n = Some a \<Longrightarrow> memory_lock_owned t n a s = Inr True" for s t n a
    by (auto simp: memory_lock_defs split: option.splits if_splits)
  have "is_held (fst w') i \<and> handle_token h = owner_token (fst w) i \<and>
    fencing_token h = lock_fence (snd w') (lock_name (fst w')) \<and>
    (\<exists>u1 u2. (u1, u2) \<in> insert (t1, t2) ((\<lambda>k. (wk_t1 k, wk_t2 k)) ` set ks) \<and>
       (\<forall>t. t \<le> u2 + lease_duration (lock_cfg (fst w)) \<longrightarrow>
         lock_holder (snd w') t (lock_name (fst w')) = Some (handle_token h)))"
    by (rule ml.acquire_success [OF assms(1,2) _ _ assms(5)]) (use assms(3,4) in auto)
  then obtain u1 u2 where "is_held (fst w') i" "handle_token h = owner_token (fst w) i"
      "fencing_token h = lock_fence (snd w') (lock_name (fst w'))"
      and u: "(u1, u2) \<in> insert (t1, t2) ((\<lambda>k. (wk_t1 k, wk_t2 k)) ` set ks)"
      "\<forall>t. t \<le> u2 + lease_duration (lock_cfg (fst w)) \<longrightarrow>
         lock_holder (snd w') t (lock_name (fst w')) = Some (handle_token h)"
    by blast
  moreover from u(1) have "u2 \<in> insert t2 (wk_t2 ` set ks)" by auto
  ultimately show ?thesis using own by blast
qed

definition lock_example :: lock_obj where
  "lock_example = \<lparr>lock_id = ''cart'', lock_cfg = \<lparr>lease_duration = 60, retry_interval = 1 / 10,
     retry_jitter = 0\<rparr>, lock_worker = ''w'', held_by_tasks = {}, held_by_threads = {}\<rparr>"

definition wakeup_example :: "memory_lock wakeup" where
  "wakeup_example = \<lparr>wk_time = 11, wk_random = 0, wk_env = id, wk_t1 = 11, wk_t2 = 12\<rparr>"

text \<open>The lock is held by another worker for ten seconds; the first retry after that gets it.\<close>

theorem lock_acquire_holds_lease_witness:
  "\<exists>h sleeps w'. lock_acquire MemoryLockAdapter 0 None 0 0 [wakeup_example] (Task 7)
      (lock_example, snd (memory_lock_acquire 0 0 ''lock:cart'' ''other'' 10 memory_lock_init)) =
      (Some (Inr h), sleeps, w') \<and> is_held (fst w') (Task 7) \<and> fencing_token h = 2 \<and>
    fencing_token h = lock_fence (snd w') (lock_name (fst w'))"
proof -
  let ?s = "snd (memory_lock_acquire 0 0 ''lock:cart'' ''other'' 10 memory_lock_init)"
  have inv: "memory_lock_inv (snd (lock_example, ?s))"
    using memory_lock_inv_acquire [OF memory_lock_inv_init prod.collapse [symmetric]] by simp
  obtain h sleeps w' where run: "lock_acquire MemoryLockAdapter 0 None 0 0 [wakeup_example] (Task 7)
      (lock_example, ?s) = (Some (Inr h), sleeps, w')" and "fencing_token h = 2"
    by (simp add: lock_client_defs lock_example_def wakeup_example_def memory_lock_defs
        memory_lock_init_def lock_name_def)
  with lock_acquire_holds_lease [OF inv _ _ _ run] show ?thesis
    by (auto simp: wakeup_example_def)
qed

text \<open>
  An \<open>acquire\<close> with a timeout always returns: as soon as one of its wake-ups finds the loop
  time at or past the deadline, it has returned a handle or raised, whatever the backend does.
\<close>

theorem lock_acquire_returns_by_deadline:
  assumes "k \<in> set ks" "now + x \<le> wk_time k"
  shows "fst (lock_acquire B now (Some x) t1 t2 ks i w) \<noteq> None"
  using acquire_loop_returns [OF assms(1), of "now + x"] assms(2)
  by (auto simp: lock_acquire_def Let_def split: prod.splits sum.splits option.splits)
    (metis fst_conv option.distinct(1))

theorem lock_acquire_returns_by_deadline_witness:
  "fst (lock_acquire MemoryLockAdapter 0 (Some 5) 0 0 [wakeup_example] (Task 7)
      (lock_example, snd (memory_lock_acquire 0 0 ''lock:cart'' ''other'' 90 memory_lock_init))) \<noteq> None"
  by (rule lock_acquire_returns_by_deadline [of wakeup_example]) (simp_all add: wakeup_example_def)

text \<open>
  Nested use is always detected: in every state that calls of this lock's live owners and of
  other workers can lead to, an owner whose token holds the lease in the backend gets
  \<open>LockReentrantError\<close> from a further acquire, never a silent renewal.
\<close>

theorem lock_reentrancy_detected:
  assumes "lock_setup name cfg worker = Inr L" "events_ok 0 xs" "\<forall>(t1, t2, e) \<in> set xs. t2 \<le> now"
    and "\<forall>(t1, t2, e) \<in> set xs. foreign_ok L e" "0 \<le> now"
    and "w = world_run MemoryLockAdapter xs (L, memory_lock_init)"
    and "lock_owned MemoryLockAdapter now i w = Inr True"
  shows "fst (lock_acquire_nowait MemoryLockAdapter now t2 i w) = Inl LockReentrantError"
proof -
  have m0: "markers_ok lock_holder 0 (L, memory_lock_init)"
    by (simp add: markers_ok_def lock_holder_def memory_lock_init_def)
  have "event_served (\<lambda>n. True) (\<lambda>d. True) e" for e by (cases e) simp_all
  with ml.markers_run [OF _ assms(2) m0 _ TrueI TrueI] assms(4,6) memory_lock_inv_init
  have m: "markers_ok lock_holder (last_time 0 xs) w" by (fastforce simp: case_prod_beta)
  have "last_time 0 xs \<le> now"
    by (rule last_time_le) (use assms(3,5) in auto)
  from ml.markers_later [OF m this] have "is_held (fst w) i"
    using assms(7) by (auto simp: markers_ok_def lock_owned_def do_owned_def memory_lock_defs
        split: prod.splits option.splits)
  then show ?thesis by (simp add: lock_acquire_nowait_def)
qed

theorem lock_reentrancy_detected_witness:
  "fst (lock_acquire_nowait MemoryLockAdapter 2 2 (Task 7)
     (world_run MemoryLockAdapter [(1, 1, AcquireNowait (Task 7))] (lock_example, memory_lock_init)))
     = Inl LockReentrantError"
proof -
  let ?w = "world_run MemoryLockAdapter [(1, 1, AcquireNowait (Task 7))] (lock_example, memory_lock_init)"
  have s: "lock_setup ''cart'' (lock_cfg lock_example) ''w'' = Inr lock_example"
    by (simp add: lock_setup_def validate_lock_name_def name_pattern_match_def lock_example_def
        is_alnum_def is_alpha_def is_digit_def name_char_def)
  have o: "lock_owned MemoryLockAdapter 2 (Task 7) ?w = Inr True"
    by (simp add: lock_client_defs memory_lock_defs memory_lock_init_def lock_example_def lock_name_def)
  show ?thesis by (rule lock_reentrancy_detected [OF s _ _ _ _ refl o]) auto
qed

text \<open>
  \<open>extend\<close> after the lease ran out does not report the loss: if nobody else took the lock, the
  backend sees a free lock, grants it again, and \<open>extend\<close> returns a handle whose fencing token is
  one higher than the holder's (the documentation promises \<open>LockNotOwnedError\<close> and an unchanged
  fencing token).
\<close>

theorem lock_extend_after_expiry:
  assumes "memory_lock_inv s" "is_held L i" "lock_holder s t1 (lock_name L) = None"
  shows "\<exists>h. fst (lock_extend MemoryLockAdapter t1 t2 i (L, s)) = Inr h \<and>
    fencing_token h = lock_fence s (lock_name L) + 1"
  using assms by (simp add: lock_extend_def do_acquire_def memory_lock_acquire_free make_handle_def Let_def)

theorem lock_extend_after_expiry_witness:
  "\<exists>h. fst (lock_extend MemoryLockAdapter 100 100 (Task 7)
      (world_run MemoryLockAdapter [(1, 1, AcquireNowait (Task 7))] (lock_example, memory_lock_init)))
      = Inr h \<and> fencing_token h = 2"
proof -
  let ?w = "world_run MemoryLockAdapter [(1, 1, AcquireNowait (Task 7))] (lock_example, memory_lock_init)"
  have w: "?w = (lock_example\<lparr>held_by_tasks := {7}\<rparr>,
      \<lparr>locks = [(''lock:cart'', ''w:task:7'', 61)], fences = [(''lock:cart'', 1)]\<rparr>)"
    by (simp add: lock_client_defs memory_lock_defs memory_lock_init_def lock_example_def lock_name_def
        show_nat.simps)
  show ?thesis unfolding w
    using lock_extend_after_expiry [of "\<lparr>locks = [(''lock:cart'', ''w:task:7'', 61)],
      fences = [(''lock:cart'', 1)]\<rparr>" "lock_example\<lparr>held_by_tasks := {7}\<rparr>" "Task 7" 100 100]
    by (simp add: memory_lock_inv_def dwf_def lock_holder_def lock_fence_def lock_name_def lock_example_def)
qed

text \<open>
  The check of lock names lets a final newline through: a valid name shorter than the limit
  stays valid with a newline added, although the check is there to block whitespace and control
  characters.
\<close>

theorem validate_lock_name_newline:
  assumes "validate_lock_name name = Inr ()" "length name < 200" "last name \<noteq> newline"
  shows "validate_lock_name (name @ [newline]) = Inr ()"
proof -
  from assms obtain c cs where name: "name = c # cs" and c: "is_alnum c"
    by (cases name) (auto simp: validate_lock_name_def name_pattern_match_def split: if_splits)
  with assms have "list_all name_char cs"
    by (auto simp: validate_lock_name_def name_pattern_match_def split: if_splits)
  with name c assms(2) show ?thesis by (simp add: validate_lock_name_def name_pattern_match_def)
qed

theorem validate_lock_name_newline_witness: "validate_lock_name (''cart'' @ [newline]) = Inr ()"
  by (rule validate_lock_name_newline)
    (simp_all add: validate_lock_name_def name_pattern_match_def is_alnum_def is_alpha_def
      is_digit_def name_char_def newline_def)

end
