(* ===== verification/Sql_Lock.thy ===== *)
theory Sql_Lock
  imports Memory_Lock
begin

text \<open>
  The lock adapters on SQLite (\<open>coordination/sqlite.py\<close>) and Postgres (\<open>coordination/postgres.py\<close>). Their
  statements are the same but for the clock: the table has a row per lock with the token, the expiry
  (both may be \<open>NULL\<close>) and the fence, and each call is one statement, so it is one step. A comparison with
  \<open>NULL\<close> is not true. \<open>now\<close> is what the statement reads as the current time and \<open>until\<close> the expiry it
  writes: Postgres has exact timestamps, SQLite whole seconds (\<open>datetime('now')\<close> cuts the fraction off)
  and rounds durations up. The locale \<open>sql_clock\<close> has what the adapters need of the clock; both satisfy the
  lock contract through it.
\<close>

record lock_row =
  row_token :: "token option"
  row_expire :: "real option"
  row_fence :: int

type_synonym lock_table = "(key, lock_row) pydict"

section \<open>The statements\<close>

text \<open>\<open>expire_at >= now\<close> and \<open>expire_at < now\<close>, not true of \<open>NULL\<close>.\<close>

definition unexpired :: "real \<Rightarrow> lock_row \<Rightarrow> bool" where
  "unexpired now r = (case row_expire r of None \<Rightarrow> False | Some e \<Rightarrow> now \<le> e)"

definition expired :: "real \<Rightarrow> lock_row \<Rightarrow> bool" where
  "expired now r = (case row_expire r of None \<Rightarrow> False | Some e \<Rightarrow> e < now)"

definition sql_acquire_or_extend :: "real \<Rightarrow> real \<Rightarrow> key \<Rightarrow> token \<Rightarrow> lock_table \<Rightarrow> int option \<times> lock_table" where
  "sql_acquire_or_extend now until name token tbl =
     (let row = (\<lambda>f. \<lparr>row_token = Some token, row_expire = Some until, row_fence = f\<rparr>)
      in case dget tbl name of
           None \<Rightarrow> (Some 1, dput name (row 1) tbl)
         | Some r \<Rightarrow>
             if row_token r = Some token \<or> row_token r = None \<or> row_expire r = None \<or> expired now r then
               let f = (if row_token r = Some token \<and> unexpired now r then row_fence r else row_fence r + 1)
               in (Some f, dput name (row f) tbl)
             else (None, tbl))"

definition sql_release :: "real \<Rightarrow> key \<Rightarrow> token \<Rightarrow> lock_table \<Rightarrow> bool \<times> lock_table" where
  "sql_release now name token tbl =
     (case dget tbl name of
        None \<Rightarrow> (False, tbl)
      | Some r \<Rightarrow>
          if row_token r = Some token \<and> unexpired now r then
            (True, dput name (r\<lparr>row_token := None, row_expire := None\<rparr>) tbl)
          else (False, tbl))"

definition sql_release_all_expired :: "real \<Rightarrow> lock_table \<Rightarrow> lock_table" where
  "sql_release_all_expired now tbl =
     map (\<lambda>(n, r). (n, if expired now r then r\<lparr>row_token := None, row_expire := None\<rparr> else r)) tbl"

definition sql_locked :: "real \<Rightarrow> key \<Rightarrow> lock_table \<Rightarrow> bool" where
  "sql_locked now name tbl =
     (case dget tbl name of None \<Rightarrow> False | Some r \<Rightarrow> row_token r \<noteq> None \<and> unexpired now r)"

definition sql_owned :: "real \<Rightarrow> key \<Rightarrow> token \<Rightarrow> lock_table \<Rightarrow> bool" where
  "sql_owned now name token tbl =
     (case dget tbl name of None \<Rightarrow> False | Some r \<Rightarrow> row_token r = Some token \<and> unexpired now r)"

section \<open>The adapters\<close>

text \<open>
  An adapter over a clock: \<open>clk t\<close> is the current time as the database shows it at \<open>t\<close>, \<open>until t d\<close> the
  expiry of a lease of duration \<open>d\<close>. The statement reads its time once, at the first reading.
\<close>

definition sql_lock_adapter :: "(seconds \<Rightarrow> real) \<Rightarrow> (seconds \<Rightarrow> seconds \<Rightarrow> real) \<Rightarrow> lock_table lock_backend" where
  "sql_lock_adapter clk until =
     \<lparr>lb_acquire = \<lambda>t1 t2 name token duration tbl.
        map_prod Inr id (sql_acquire_or_extend (clk t1) (until t1 duration) name token tbl),
      lb_release = \<lambda>t1 t2 name token tbl. map_prod Inr id (sql_release (clk t1) name token tbl),
      lb_locked = \<lambda>t name tbl. Inr (sql_locked (clk t) name tbl),
      lb_owned = \<lambda>t name token tbl. Inr (sql_owned (clk t) name token tbl)\<rparr>"

definition sqlite_now :: "seconds \<Rightarrow> real" where
  "sqlite_now t = real_of_int \<lfloor>t\<rfloor>"

text \<open>\<open>datetime('now', '+' || ceil(duration) || ' seconds')\<close>.\<close>

definition sqlite_until :: "seconds \<Rightarrow> seconds \<Rightarrow> real" where
  "sqlite_until t d = real_of_int (\<lfloor>t\<rfloor> + \<lceil>d\<rceil>)"

definition SQLiteLockAdapter :: "lock_table lock_backend" where
  "SQLiteLockAdapter = sql_lock_adapter sqlite_now sqlite_until"

definition PostgresLockAdapter :: "lock_table lock_backend" where
  "PostgresLockAdapter = sql_lock_adapter (\<lambda>t. t) (\<lambda>t d. t + d)"

definition sqlite_lock_close :: "seconds \<Rightarrow> lock_table \<Rightarrow> lock_table" where
  "sqlite_lock_close t tbl = sql_release_all_expired (sqlite_now t) tbl"

definition postgres_lock_close :: "seconds \<Rightarrow> lock_table \<Rightarrow> lock_table" where
  "postgres_lock_close t tbl = sql_release_all_expired t tbl"

section \<open>Observers\<close>

definition row_holder :: "real \<Rightarrow> lock_row \<Rightarrow> token option" where
  "row_holder now r = (if unexpired now r then row_token r else None)"

definition sql_holder :: "(seconds \<Rightarrow> real) \<Rightarrow> lock_table \<Rightarrow> seconds \<Rightarrow> key \<Rightarrow> token option" where
  "sql_holder clk tbl t n = (case dget tbl n of None \<Rightarrow> None | Some r \<Rightarrow> row_holder (clk t) r)"

definition sql_fence :: "lock_table \<Rightarrow> key \<Rightarrow> int" where
  "sql_fence tbl n = (case dget tbl n of None \<Rightarrow> 0 | Some r \<Rightarrow> row_fence r)"

text \<open>A row has a token and an expiry together, and its fence is positive.\<close>

definition sql_lock_inv :: "lock_table \<Rightarrow> bool" where
  "sql_lock_inv tbl \<longleftrightarrow> dwf tbl \<and>
     (\<forall>n r. dget tbl n = Some r \<longrightarrow> (row_token r = None \<longleftrightarrow> row_expire r = None) \<and> 0 < row_fence r)"

lemmas sql_statement_defs = sql_acquire_or_extend_def sql_release_def sql_locked_def sql_owned_def
  unexpired_def expired_def row_holder_def sql_holder_def sql_fence_def Let_def

lemma sql_lock_adapter_sel [simp]:
  "lb_acquire (sql_lock_adapter clk until) t1 t2 n a d tbl =
     map_prod Inr id (sql_acquire_or_extend (clk t1) (until t1 d) n a tbl)"
  "lb_release (sql_lock_adapter clk until) t1 t2 n a tbl = map_prod Inr id (sql_release (clk t1) n a tbl)"
  "lb_locked (sql_lock_adapter clk until) t n tbl = Inr (sql_locked (clk t) n tbl)"
  "lb_owned (sql_lock_adapter clk until) t n a tbl = Inr (sql_owned (clk t) n a tbl)"
  by (simp_all add: sql_lock_adapter_def)

lemma sql_lock_inv_Nil: "sql_lock_inv []"
  by (simp add: sql_lock_inv_def)

lemma sql_acquire_free:
  assumes "sql_lock_inv tbl" "sql_holder clk tbl t n = None"
  shows "sql_acquire_or_extend (clk t) e n a tbl =
    (Some (sql_fence tbl n + 1), dput n \<lparr>row_token = Some a, row_expire = Some e, row_fence = sql_fence tbl n + 1\<rparr> tbl)"
proof (cases "dget tbl n")
  case (Some r)
  with assms have "row_token r = None \<longleftrightarrow> row_expire r = None" by (auto simp: sql_lock_inv_def)
  with Some assms(2) show ?thesis
    by (cases "row_expire r") (auto simp: sql_statement_defs split: if_splits)
qed (simp add: sql_statement_defs)

lemma sql_acquire_renew:
  "sql_holder clk tbl t n = Some a \<Longrightarrow> sql_acquire_or_extend (clk t) e n a tbl =
    (Some (sql_fence tbl n), dput n \<lparr>row_token = Some a, row_expire = Some e, row_fence = sql_fence tbl n\<rparr> tbl)"
  by (auto simp: sql_statement_defs split: option.splits if_splits)

lemma sql_acquire_held:
  "sql_holder clk tbl t n = Some b \<Longrightarrow> a \<noteq> b \<Longrightarrow> sql_acquire_or_extend (clk t) e n a tbl = (None, tbl)"
  by (auto simp: sql_statement_defs split: option.splits if_splits)

lemma sql_release_own:
  "sql_holder clk tbl t n = Some a \<Longrightarrow>
   \<exists>r. dget tbl n = Some r \<and> sql_release (clk t) n a tbl = (True, dput n (r\<lparr>row_token := None, row_expire := None\<rparr>) tbl)"
  by (auto simp: sql_statement_defs split: option.splits if_splits)

lemma sql_release_other:
  "sql_holder clk tbl t n \<noteq> Some a \<Longrightarrow> sql_release (clk t) n a tbl = (False, tbl)"
  by (auto simp: sql_statement_defs split: option.splits if_splits)

lemma sql_lock_inv_put:
  "sql_lock_inv tbl \<Longrightarrow> (row_token r = None \<longleftrightarrow> row_expire r = None) \<Longrightarrow> 0 < row_fence r \<Longrightarrow> sql_lock_inv (dput n r tbl)"
  by (auto simp: sql_lock_inv_def pd.wf_put)

lemma sql_fence_nonneg: "sql_lock_inv tbl \<Longrightarrow> 0 \<le> sql_fence tbl n"
  by (force simp: sql_lock_inv_def sql_fence_def split: option.split)

lemma sql_lock_inv_acquire:
  assumes "sql_lock_inv tbl"
  shows "sql_lock_inv (snd (sql_acquire_or_extend now e n a tbl))"
proof (cases "dget tbl n")
  case None
  then show ?thesis using assms by (auto simp: sql_acquire_or_extend_def Let_def intro!: sql_lock_inv_put)
next
  case (Some r)
  with assms have "0 < row_fence r" by (auto simp: sql_lock_inv_def)
  with Some assms show ?thesis by (auto simp: sql_acquire_or_extend_def Let_def intro!: sql_lock_inv_put)
qed

lemma sql_lock_inv_release:
  assumes "sql_lock_inv tbl"
  shows "sql_lock_inv (snd (sql_release now n a tbl))"
proof (cases "dget tbl n")
  case (Some r)
  with assms have "0 < row_fence r" by (auto simp: sql_lock_inv_def)
  with Some assms show ?thesis by (auto simp: sql_release_def intro!: sql_lock_inv_put)
qed (simp add: sql_release_def assms)

text \<open>Closing an adapter clears what has run out: nobody's lease and no fence changes.\<close>

lemma sql_release_all_expired_get:
  "dget (sql_release_all_expired now tbl) n =
     map_option (\<lambda>r. if expired now r then r\<lparr>row_token := None, row_expire := None\<rparr> else r) (dget tbl n)"
  unfolding sql_release_all_expired_def by (induction tbl) auto

lemma sql_close_keeps:
  assumes "clk t \<le> clk t'"
  shows "sql_holder clk (sql_release_all_expired (clk t) tbl) t' n = sql_holder clk tbl t' n"
    and "sql_fence (sql_release_all_expired (clk t) tbl) n = sql_fence tbl n"
  using assms by (auto simp: sql_statement_defs sql_release_all_expired_get split: option.splits)

section \<open>The contract\<close>

locale sql_clock =
  fixes clk :: "seconds \<Rightarrow> real" and until :: "seconds \<Rightarrow> seconds \<Rightarrow> real"
  assumes clk_mono: "t \<le> t' \<Longrightarrow> clk t \<le> clk t'"
begin

lemma sql_holder_put:
  "sql_holder clk (dput n r tbl) t m = (if m = n then row_holder (clk t) r else sql_holder clk tbl t m)"
  "sql_fence (dput n r tbl) m = (if m = n then row_fence r else sql_fence tbl m)"
  by (simp_all add: sql_holder_def sql_fence_def)

end

sublocale sql_clock \<subseteq> lock_backend_laws "sql_lock_adapter clk until" "sql_holder clk" sql_fence sql_lock_inv
  "\<lambda>t1 t2 d t. clk t \<le> until t1 d" "\<lambda>n. True" "\<lambda>d. True"
proof (unfold_locales, goal_cases)
  case (1 s t1 t2 n d a r s')
  then show ?case
    using sql_acquire_free [OF 1(1), of clk t1 n] sql_acquire_renew [of clk s t1 n a]
    by (auto simp: sql_holder_put row_holder_def unexpired_def)
next
  case (2 s t1 t2 n d b a)
  then show ?case by (simp add: sql_acquire_held)
next
  case (3 s t1 t2 n a q s')
  then show ?case using sql_release_own [OF 3(4)] by (auto simp: sql_holder_put row_holder_def)
next
  case (4 s t1 t2 n a q s')
  then show ?case by (auto simp: sql_release_other)
next
  case (5 s n t1 t2 a q s' m)
  then show ?case by (auto simp: sql_release_def sql_holder_put sql_fence_def split: option.splits if_splits)
next
  case (6 s n t)
  then show ?case by (auto simp: sql_statement_defs split: option.splits)
next
  case (7 s n t a)
  then show ?case by (auto simp: sql_statement_defs split: option.splits)
next
  case (8 s t n t')
  then show ?case using clk_mono [OF 8(2)]
    by (auto simp: sql_holder_def row_holder_def unexpired_def sql_lock_inv_def split: option.splits if_splits)
next
  case (9 s t n a t' b)
  then show ?case by (auto simp: sql_holder_def row_holder_def split: option.splits if_splits)
next
  case (10 s n d t1 t2 a r s')
  then show ?case using sql_lock_inv_acquire [OF 10(1), of "clk t1" "until t1 d" n a] by (auto simp: map_prod_def split: prod.splits)
next
  case (11 s n t1 t2 a q s')
  then show ?case using sql_lock_inv_release [OF 11(1), of "clk t1" n a] by (auto simp: map_prod_def split: prod.splits)
qed

interpretation sqlite_lock: sql_clock sqlite_now sqlite_until
  by unfold_locales (simp add: sqlite_now_def floor_mono)

interpretation postgres_lock: sql_clock "\<lambda>t. t" "\<lambda>t d. t + d"
  by unfold_locales simp

section \<open>Guarantees\<close>

text \<open>
  C20. Postgres refines memory: with the same calls at the same times, in their order, the Postgres lock adapter
  answers each \<open>acquire\<close>, \<open>release\<close>, \<open>locked\<close> and \<open>owned\<close> exactly as the in-memory adapter does, with the same fencing tokens. The in-memory adapter reads
  its clock twice in a call, Postgres once: the two readings are taken to be the same.
\<close>

theorem postgres_lock_refines_memory:
  assumes "lock_calls_ordered t cs" "\<forall>(t1, t2, c) \<in> set cs. t1 = t2"
  shows "lock_answers PostgresLockAdapter cs [] = lock_answers MemoryLockAdapter cs memory_lock_init"
  unfolding PostgresLockAdapter_def
  by (rule lock_backends_agree [OF postgres_lock.lock_backend_laws_axioms ml.lock_backend_laws_axioms])
    (use assms memory_lock_inv_init in \<open>auto simp: sql_lock_inv_Nil sql_holder_def sql_fence_def lock_holder_def
      lock_fence_def memory_lock_init_def\<close>)

theorem postgres_lock_refines_memory_witness:
  "lock_answers PostgresLockAdapter [(0, 0, Ask (Acquire ''a'' ''x'' 10)), (1, 1, Ask (Release ''a'' ''y'')), (2, 2, Owned ''a'' ''x''), (11, 11, Locked ''a''),
      (11, 11, Ask (Acquire ''a'' ''y'' 10)), (12, 12, Ask (Release ''a'' ''y''))] [] =
     [Fencing (Inr (Some 1)), Truth (Inr False), Truth (Inr True), Truth (Inr False), Fencing (Inr (Some 2)), Truth (Inr True)]"
proof -
  let ?cs = "[(0, 0, Ask (Acquire ''a'' ''x'' 10)), (1, 1, Ask (Release ''a'' ''y'')), (2, 2, Owned ''a'' ''x''), (11, 11, Locked ''a''),
      (11, 11, Ask (Acquire ''a'' ''y'' 10)), (12, 12, Ask (Release ''a'' ''y''))] :: (seconds \<times> seconds \<times> lock_call) list"
  have "lock_answers MemoryLockAdapter ?cs memory_lock_init =
     [Fencing (Inr (Some 1)), Truth (Inr False), Truth (Inr True), Truth (Inr False), Fencing (Inr (Some 2)), Truth (Inr True)]"
    by (simp add: memory_lock_defs memory_lock_init_def)
  with postgres_lock_refines_memory [of 0 ?cs] show ?thesis by simp
qed

text \<open>
  A lease on SQLite covers its duration and ends within two seconds after it: from a grant at \<open>t1\<close>
  on, as long as the holder makes no request of its own, no other token gets the lock in any run of
  requests up to \<open>t1 + d\<close>; and from \<open>t1 + d + 2\<close> on the lease has run out.
\<close>

theorem sqlite_lock_lease:
  assumes "sql_lock_inv s" "t1 \<le> t2" "lb_acquire SQLiteLockAdapter t1 t2 n a d s = (Inr (Some f), s')"
    and "clock_ok t2 rs" "\<forall>(u1, u2, q) \<in> set rs. u2 \<le> t1 + d" "\<forall>x \<in> set rs. \<not> concerns n a x"
  shows "n \<notin> fst ` set (fst (lock_run SQLiteLockAdapter rs s')) \<and>
    lb_owned SQLiteLockAdapter (t1 + d) n a (snd (lock_run SQLiteLockAdapter rs s')) = Inr True \<and>
    (\<forall>t \<ge> t1 + d + 2. lb_locked SQLiteLockAdapter t n s' = Inr False)"
proof -
  have acq: "lb_acquire (sql_lock_adapter sqlite_now sqlite_until) t1 t2 n a d s = (Inr (Some f), s')"
    using assms(3) by (simp add: SQLiteLockAdapter_def)
  have h: "sql_holder sqlite_now s' t n = (if sqlite_now t \<le> sqlite_until t1 d then Some a else None)" for t
    by (rule sqlite_lock.acquire_cases [OF assms(1,2) TrueI TrueI acq]) auto
  have cover: "sqlite_now (t1 + d) \<le> sqlite_until t1 d"
    unfolding sqlite_now_def sqlite_until_def by (simp only: of_int_le_iff) linarith
  have inv: "sql_lock_inv s'" by (rule sqlite_lock.inv_acquire [OF assms(1) TrueI TrueI acq])
  have "sql_holder sqlite_now (snd (lock_run (sql_lock_adapter sqlite_now sqlite_until) rs s')) (t1 + d) n = Some a \<and>
    n \<notin> fst ` set (fst (lock_run (sql_lock_adapter sqlite_now sqlite_until) rs s'))"
    by (rule sqlite_lock.run_excludes [OF inv assms(4)]) (use assms(5,6) h cover in auto)
  moreover have "\<not> sqlite_now t \<le> sqlite_until t1 d" if "t1 + d + 2 \<le> t" for t
    using that unfolding sqlite_now_def sqlite_until_def by (simp only: of_int_le_iff) linarith
  then have "\<forall>t \<ge> t1 + d + 2. sql_holder sqlite_now s' t n = None" using h by simp
  ultimately show ?thesis
    by (auto simp: SQLiteLockAdapter_def sql_statement_defs split: option.splits if_splits)
qed

theorem sqlite_lock_lease_witness:
  "''a'' \<notin> fst ` set (fst (lock_run SQLiteLockAdapter [(4, 4, Acquire ''a'' ''y'' 10)]
     (snd (lb_acquire SQLiteLockAdapter (1 / 2) 1 ''a'' ''x'' 9 []))))"
proof -
  have acq: "lb_acquire SQLiteLockAdapter (1 / 2) 1 ''a'' ''x'' 9 [] =
      (Inr (Some 1), snd (lb_acquire SQLiteLockAdapter (1 / 2) 1 ''a'' ''x'' 9 []))"
    by (simp add: SQLiteLockAdapter_def sql_statement_defs)
  show ?thesis using sqlite_lock_lease [OF sql_lock_inv_Nil _ acq, of "[(4, 4, Acquire ''a'' ''y'' 10)]"] by simp
qed

end
