(* ===== verification/Redis_Store.thy ===== *)
theory Redis_Store
  imports Text
begin

text \<open>
  What the adapters use of a Redis server: a keyspace of texts, numbers written as texts, hashes and sets,
  each with an optional time to live, and the commands that the Lua scripts of the adapters call. A
  script is one step. Time is in whole milliseconds; a key is gone once the time is past its expiry.
  Commands answer an error (\<open>WRONGTYPE\<close>, not an integer, invalid expire time); a script that runs into
  one ends, and what it wrote before stays written.
\<close>

datatype rfield = FText string | FNum real | FInt int | FMeta "(string, string) pydict"
datatype rvalue = RText string | RNum real | RHash "(string, rfield) pydict" | RSet "string list"

type_synonym redis = "(string, rvalue \<times> int option) pydict"

text \<open>The server's clock in milliseconds.\<close>

definition ms :: "seconds \<Rightarrow> int" where
  "ms t = \<lfloor>t * 1000\<rfloor>"

definition r_alive :: "int \<Rightarrow> rvalue \<times> int option \<Rightarrow> bool" where
  "r_alive now e = (case snd e of None \<Rightarrow> True | Some x \<Rightarrow> now \<le> x)"

definition r_lookup :: "int \<Rightarrow> string \<Rightarrow> redis \<Rightarrow> (rvalue \<times> int option) option" where
  "r_lookup now k db = (case dget db k of None \<Rightarrow> None | Some e \<Rightarrow> if r_alive now e then Some e else None)"

text \<open>\<open>GET\<close> of a text.\<close>

definition r_get :: "int \<Rightarrow> string \<Rightarrow> redis \<Rightarrow> py_exc + string option" where
  "r_get now k db = (case r_lookup now k db of
     None \<Rightarrow> Inr None | Some (RText s, x) \<Rightarrow> Inr (Some s) | Some e \<Rightarrow> Inl ResponseError)"

text \<open>\<open>SET key value PX milliseconds\<close>.\<close>

definition r_set_px :: "int \<Rightarrow> string \<Rightarrow> string \<Rightarrow> int \<Rightarrow> redis \<Rightarrow> (py_exc + unit) \<times> redis" where
  "r_set_px now k v px db =
     (if px \<le> 0 then (Inl ResponseError, db) else (Inr (), dput k (RText v, Some (now + px)) db))"

text \<open>\<open>INCR\<close> counts from zero when the key is missing and keeps the time to live.\<close>

definition r_incr :: "int \<Rightarrow> string \<Rightarrow> redis \<Rightarrow> (py_exc + nat) \<times> redis" where
  "r_incr now k db =
     (case r_lookup now k db of
        None \<Rightarrow> (Inr 1, dput k (RText (show_nat 1), None) db)
      | Some (RText s, x) \<Rightarrow>
          (case read_nat s of
             None \<Rightarrow> (Inl ResponseError, db)
           | Some n \<Rightarrow> (Inr (n + 1), dput k (RText (show_nat (n + 1)), x) db))
      | Some e \<Rightarrow> (Inl ResponseError, db))"

text \<open>\<open>PEXPIRE\<close>: a time that is not positive deletes the key.\<close>

definition r_pexpire :: "int \<Rightarrow> string \<Rightarrow> int \<Rightarrow> redis \<Rightarrow> redis" where
  "r_pexpire now k px db =
     (case r_lookup now k db of
        None \<Rightarrow> db
      | Some (v, x) \<Rightarrow> if px \<le> 0 then ddel k db else dput k (v, Some (now + px)) db)"

definition r_del :: "string \<Rightarrow> redis \<Rightarrow> redis" where
  "r_del k db = ddel k db"

text \<open>\<open>SMEMBERS\<close>, \<open>SADD\<close> and \<open>SREM\<close> of one member; a set that loses its last member is gone.\<close>

definition r_smembers :: "int \<Rightarrow> string \<Rightarrow> redis \<Rightarrow> py_exc + string list" where
  "r_smembers now k db = (case r_lookup now k db of
     None \<Rightarrow> Inr [] | Some (RSet xs, x) \<Rightarrow> Inr xs | Some e \<Rightarrow> Inl ResponseError)"

definition r_sadd :: "int \<Rightarrow> string \<Rightarrow> string \<Rightarrow> redis \<Rightarrow> (py_exc + unit) \<times> redis" where
  "r_sadd now k m db =
     (case r_lookup now k db of
        None \<Rightarrow> (Inr (), dput k (RSet [m], None) db)
      | Some (RSet xs, x) \<Rightarrow> (Inr (), dput k (RSet (List.insert m xs), x) db)
      | Some e \<Rightarrow> (Inl ResponseError, db))"

definition r_srem :: "int \<Rightarrow> string \<Rightarrow> string \<Rightarrow> redis \<Rightarrow> (py_exc + unit) \<times> redis" where
  "r_srem now k m db =
     (case r_lookup now k db of
        None \<Rightarrow> (Inr (), db)
      | Some (RSet xs, x) \<Rightarrow>
          (let xs' = removeAll m xs in (Inr (), if xs' = [] then ddel k db else dput k (RSet xs', x) db))
      | Some e \<Rightarrow> (Inl ResponseError, db))"

text \<open>A script's loop over a list of keys: the first error ends it.\<close>

fun r_each :: "('a \<Rightarrow> redis \<Rightarrow> (py_exc + unit) \<times> redis) \<Rightarrow> 'a list \<Rightarrow> redis \<Rightarrow> (py_exc + unit) \<times> redis" where
  "r_each f [] db = (Inr (), db)"
| "r_each f (k # ks) db = (case f k db of (Inl e, db1) \<Rightarrow> (Inl e, db1) | (Inr u, db1) \<Rightarrow> r_each f ks db1)"

lemma ms_mono: "t \<le> t' \<Longrightarrow> ms t \<le> ms t'"
  by (simp add: ms_def floor_mono mult_right_mono)

lemma r_lookup_put [simp]:
  "r_lookup now k (dput k' e db) = (if k = k' then if r_alive now e then Some e else None else r_lookup now k db)"
  by (simp add: r_lookup_def)

lemma r_lookup_del [simp]: "r_lookup now k (ddel k' db) = (if k = k' then None else r_lookup now k db)"
  by (simp add: r_lookup_def)

lemma r_lookup_Nil [simp]: "r_lookup now k [] = None"
  by (simp add: r_lookup_def)

lemma r_lookup_get: "r_lookup now k db = Some e \<Longrightarrow> dget db k = Some e \<and> r_alive now e"
  by (auto simp: r_lookup_def split: option.splits if_splits)

lemma r_lookup_expires: "r_lookup now k db = None \<Longrightarrow> now \<le> now' \<Longrightarrow> r_lookup now' k db = None"
  by (auto simp: r_lookup_def r_alive_def split: option.splits if_splits)

text \<open>
  \<open>string.find(s, ':', 1, true)\<close> and the two \<open>string.sub\<close> around it: the parts before and after the first
  separator, and \<open>str.partition\<close>.
\<close>

fun cut_at :: "char \<Rightarrow> string \<Rightarrow> (string \<times> string) option" where
  "cut_at sep [] = None"
| "cut_at sep (c # cs) =
     (if c = sep then Some ([], cs) else map_option (map_prod ((#) c) id) (cut_at sep cs))"

lemma cut_at_append: "sep \<notin> set xs \<Longrightarrow> cut_at sep (xs @ sep # ys) = Some (xs, ys)"
  by (induction xs) auto

lemma colon_not_digit: "CHR '':'' \<notin> set (show_nat n)"
  using show_nat_digits [of n] by (auto simp: list_all_iff is_digit_def)

lemma cut_at_fence: "cut_at CHR '':'' (show_nat n @ CHR '':'' # a) = Some (show_nat n, a)"
  by (rule cut_at_append [OF colon_not_digit])

end
