(* ===== verification/Redis_Lock.thy ===== *)
theory Redis_Lock
  imports Redis_Store Lock_Client
begin

text \<open>
  The lock adapter on Redis (\<open>coordination/redis.py\<close>, \<open>RedisLockAdapter\<close>): the two Lua scripts on the
  keyspace of \<open>Redis_Store\<close>, the key of a lock and of its fence counter, the millisecond durations. The
  adapter satisfies the lock contract for lock names that do not themselves look like a counter's key and
  durations of at least a millisecond; the names and tokens of the client class qualify.
\<close>

section \<open>The scripts\<close>

definition lua_acquire_or_extend ::
  "int \<Rightarrow> string \<Rightarrow> string \<Rightarrow> token \<Rightarrow> int \<Rightarrow> redis \<Rightarrow> (py_exc + nat option) \<times> redis"
where
  "lua_acquire_or_extend now key1 key2 token px db =
     (case r_get now key1 db of
        Inl e \<Rightarrow> (Inl e, db)
      | Inr None \<Rightarrow>
          (case r_incr now key2 db of
             (Inl e, db1) \<Rightarrow> (Inl e, db1)
           | (Inr fence, db1) \<Rightarrow>
               (case r_set_px now key1 (show_nat fence @ CHR '':'' # token) px db1 of
                  (Inl e, db2) \<Rightarrow> (Inl e, db2)
                | (Inr _, db2) \<Rightarrow> (Inr (Some fence), db2)))
      | Inr (Some stored) \<Rightarrow>
          (case cut_at CHR '':'' stored of
             None \<Rightarrow> (Inl ResponseError, db)
           | Some (fence, holder) \<Rightarrow>
               if holder = token then (Inr (read_nat fence), r_pexpire now key1 px db) else (Inr None, db)))"

definition lua_release :: "int \<Rightarrow> string \<Rightarrow> token \<Rightarrow> redis \<Rightarrow> (py_exc + bool) \<times> redis" where
  "lua_release now key1 token db =
     (case r_get now key1 db of
        Inl e \<Rightarrow> (Inl e, db)
      | Inr None \<Rightarrow> (Inr False, db)
      | Inr (Some stored) \<Rightarrow>
          (case cut_at CHR '':'' stored of
             None \<Rightarrow> (Inl ResponseError, db)
           | Some (fence, holder) \<Rightarrow> if holder \<noteq> token then (Inr False, db) else (Inr True, r_del key1 db)))"

section \<open>The adapter\<close>

definition fence_key :: "string \<Rightarrow> key \<Rightarrow> string" where
  "fence_key prefix name = prefix @ ''fence:'' @ name"

definition redis_lock_acquire ::
  "string \<Rightarrow> seconds \<Rightarrow> key \<Rightarrow> token \<Rightarrow> seconds \<Rightarrow> redis \<Rightarrow> (py_exc + int option) \<times> redis"
where
  "redis_lock_acquire prefix t name token duration db =
     map_prod (map_sum id (map_option int)) id
       (lua_acquire_or_extend (ms t) (prefix @ name) (fence_key prefix name) token (py_int (duration * 1000)) db)"

definition redis_lock_release :: "string \<Rightarrow> seconds \<Rightarrow> key \<Rightarrow> token \<Rightarrow> redis \<Rightarrow> (py_exc + bool) \<times> redis" where
  "redis_lock_release prefix t name token db = lua_release (ms t) (prefix @ name) token db"

definition redis_lock_locked :: "string \<Rightarrow> seconds \<Rightarrow> key \<Rightarrow> redis \<Rightarrow> py_exc + bool" where
  "redis_lock_locked prefix t name db =
     (case r_get (ms t) (prefix @ name) db of
        Inl e \<Rightarrow> Inl e | Inr None \<Rightarrow> Inr False | Inr (Some s) \<Rightarrow> Inr (s \<noteq> []))"

definition redis_lock_owned :: "string \<Rightarrow> seconds \<Rightarrow> key \<Rightarrow> token \<Rightarrow> redis \<Rightarrow> py_exc + bool" where
  "redis_lock_owned prefix t name token db =
     (case r_get (ms t) (prefix @ name) db of
        Inl e \<Rightarrow> Inl e
      | Inr None \<Rightarrow> Inr False
      | Inr (Some s) \<Rightarrow> Inr (case cut_at CHR '':'' s of None \<Rightarrow> False | Some (fence, holder) \<Rightarrow> holder = token))"

definition RedisLockAdapter :: "string \<Rightarrow> redis lock_backend" where
  "RedisLockAdapter prefix =
     \<lparr>lb_acquire = \<lambda>t1 t2. redis_lock_acquire prefix t1, lb_release = \<lambda>t1 t2. redis_lock_release prefix t1,
      lb_locked = redis_lock_locked prefix, lb_owned = redis_lock_owned prefix\<rparr>"

section \<open>Observers and invariant\<close>

definition redis_holder :: "string \<Rightarrow> redis \<Rightarrow> seconds \<Rightarrow> key \<Rightarrow> token option" where
  "redis_holder prefix db t n =
     (case r_lookup (ms t) (prefix @ n) db of
        Some (RText s, x) \<Rightarrow> map_option snd (cut_at CHR '':'' s)
      | _ \<Rightarrow> None)"

definition redis_fence :: "string \<Rightarrow> redis \<Rightarrow> key \<Rightarrow> int" where
  "redis_fence prefix db n =
     (case dget db (fence_key prefix n) of
        Some (RText s, x) \<Rightarrow> (case read_nat s of None \<Rightarrow> 0 | Some f \<Rightarrow> int f)
      | _ \<Rightarrow> 0)"

definition redis_name_ok :: "key \<Rightarrow> bool" where
  "redis_name_ok n \<longleftrightarrow> take 6 n \<noteq> ''fence:''"

definition redis_served :: "seconds \<Rightarrow> bool" where
  "redis_served d \<longleftrightarrow> 0 < py_int (d * 1000)"

definition redis_lease :: "seconds \<Rightarrow> seconds \<Rightarrow> seconds \<Rightarrow> seconds \<Rightarrow> bool" where
  "redis_lease t1 t2 d t \<longleftrightarrow> ms t \<le> ms t1 + py_int (d * 1000)"

text \<open>The value of a lock carries the fence that its counter shows, and counters do not expire.\<close>

definition lock_value :: "nat \<Rightarrow> token \<Rightarrow> rvalue" where
  "lock_value f a = RText (show_nat f @ CHR '':'' # a)"

definition redis_lock_inv :: "string \<Rightarrow> redis \<Rightarrow> bool" where
  "redis_lock_inv prefix db \<longleftrightarrow>
     (\<forall>n. redis_name_ok n \<longrightarrow>
        (\<forall>e. dget db (fence_key prefix n) = Some e \<longrightarrow> (\<exists>f. e = (RText (show_nat f), None) \<and> 0 < f)) \<and>
        (\<forall>v x. dget db (prefix @ n) = Some (v, x) \<longrightarrow>
           (\<exists>f a. v = lock_value f a \<and> dget db (fence_key prefix n) = Some (RText (show_nat f), None))))"

lemma key_clash [simp]:
  assumes "redis_name_ok n"
  shows "prefix @ n \<noteq> fence_key prefix m" "fence_key prefix m \<noteq> prefix @ n"
  using assms by (auto simp: redis_name_ok_def fence_key_def)

lemma fence_key_inject [simp]: "fence_key prefix n = fence_key prefix m \<longleftrightarrow> n = m"
  by (simp add: fence_key_def)

lemma cut_lock_value: "cut_at CHR '':'' (show_nat f @ CHR '':'' # a) = Some (show_nat f, a)"
  by (rule cut_at_fence)

text \<open>The two shapes of a lock in a state of the invariant: free, or held with the counter's fence.\<close>

lemma redis_lock_cases:
  assumes "redis_lock_inv prefix db" "redis_name_ok n"
  obtains
    (free) "r_lookup (ms t) (prefix @ n) db = None" "redis_holder prefix db t n = None"
  | (held) f a x where "r_lookup (ms t) (prefix @ n) db = Some (lock_value f a, x)"
      "dget db (fence_key prefix n) = Some (RText (show_nat f), None)" "redis_holder prefix db t n = Some a"
      "redis_fence prefix db n = int f"
proof (cases "r_lookup (ms t) (prefix @ n) db")
  case None
  with free show thesis by (simp add: redis_holder_def)
next
  case (Some e)
  obtain v x where e: "e = (v, x)" by (cases e)
  from r_lookup_get [OF Some] e assms obtain f a where "v = lock_value f a"
      "dget db (fence_key prefix n) = Some (RText (show_nat f), None)"
    unfolding redis_lock_inv_def by blast
  with Some e held [of f a x] show thesis
    by (simp add: redis_holder_def lock_value_def cut_lock_value redis_fence_def)
qed

lemma redis_incr:
  assumes "redis_lock_inv prefix db" "redis_name_ok n"
  shows "\<exists>f. redis_fence prefix db n = int f \<and>
    r_incr now (fence_key prefix n) db = (Inr (Suc f), dput (fence_key prefix n) (RText (show_nat (Suc f)), None) db)"
proof (cases "dget db (fence_key prefix n)")
  case None
  then show ?thesis by (intro exI [of _ 0]) (simp add: redis_fence_def r_incr_def r_lookup_def)
next
  case (Some e)
  with assms obtain f where "e = (RText (show_nat f), None)" unfolding redis_lock_inv_def by blast
  with Some show ?thesis by (simp add: redis_fence_def r_incr_def r_lookup_def r_alive_def)
qed

lemma redis_acquire_free:
  assumes "redis_lock_inv prefix db" "redis_name_ok n" "redis_served d" "r_lookup (ms t) (prefix @ n) db = None"
  shows "\<exists>f. redis_fence prefix db n = int f \<and> redis_lock_acquire prefix t n a d db =
    (Inr (Some (int f + 1)),
     dput (prefix @ n) (lock_value (Suc f) a, Some (ms t + py_int (d * 1000)))
       (dput (fence_key prefix n) (RText (show_nat (Suc f)), None) db))"
proof -
  from redis_incr [OF assms(1,2), of "ms t"] obtain f where f: "redis_fence prefix db n = int f"
    "r_incr (ms t) (fence_key prefix n) db = (Inr (Suc f), dput (fence_key prefix n) (RText (show_nat (Suc f)), None) db)"
    by blast
  with assms(3,4) have "redis_lock_acquire prefix t n a d db =
    (Inr (Some (int f + 1)), dput (prefix @ n) (lock_value (Suc f) a, Some (ms t + py_int (d * 1000)))
       (dput (fence_key prefix n) (RText (show_nat (Suc f)), None) db))"
    by (simp add: redis_lock_acquire_def lua_acquire_or_extend_def r_get_def r_set_px_def lock_value_def redis_served_def)
  with f(1) show ?thesis by blast
qed

lemma redis_acquire_renew:
  assumes "redis_served d" "r_lookup (ms t) (prefix @ n) db = Some (lock_value f a, x)"
  shows "redis_lock_acquire prefix t n a d db =
    (Inr (Some (int f)), dput (prefix @ n) (lock_value f a, Some (ms t + py_int (d * 1000))) db)"
  using assms by (simp add: redis_lock_acquire_def lua_acquire_or_extend_def r_get_def lock_value_def cut_lock_value
      r_pexpire_def redis_served_def)

lemma redis_acquire_held:
  assumes "r_lookup (ms t) (prefix @ n) db = Some (lock_value f b, x)" "a \<noteq> b"
  shows "redis_lock_acquire prefix t n a d db = (Inr None, db)"
  using assms by (simp add: redis_lock_acquire_def lua_acquire_or_extend_def r_get_def lock_value_def cut_lock_value)

lemma redis_release_cases:
  "r_lookup (ms t) (prefix @ n) db = None \<Longrightarrow> redis_lock_release prefix t n a db = (Inr False, db)"
  "r_lookup (ms t) (prefix @ n) db = Some (lock_value f b, x) \<Longrightarrow>
   redis_lock_release prefix t n a db = (if a = b then (Inr True, ddel (prefix @ n) db) else (Inr False, db))"
  by (auto simp: redis_lock_release_def lua_release_def r_get_def lock_value_def cut_lock_value r_del_def)

text \<open>What a write does to the observers and to the invariant.\<close>

lemma redis_observe_put:
  assumes "redis_name_ok n" "redis_name_ok m"
  shows "redis_holder prefix (dput (prefix @ n) (lock_value f a, Some e) db) t m =
      (if m = n then if ms t \<le> e then Some a else None else redis_holder prefix db t m)"
    and "redis_fence prefix (dput (prefix @ n) v db) m = redis_fence prefix db m"
    and "redis_holder prefix (dput (fence_key prefix n) w db) t m = redis_holder prefix db t m"
    and "redis_fence prefix (dput (fence_key prefix n) (RText (show_nat f), None) db) m =
      (if m = n then int f else redis_fence prefix db m)"
    and "redis_holder prefix (ddel (prefix @ n) db) t m = (if m = n then None else redis_holder prefix db t m)"
    and "redis_fence prefix (ddel (prefix @ n) db) m = redis_fence prefix db m"
  using assms
  by (auto simp: redis_holder_def redis_fence_def lock_value_def cut_lock_value r_alive_def split: option.splits)

lemma redis_inv_grant:
  assumes "redis_lock_inv prefix db" "redis_name_ok n" "0 < f"
  shows "redis_lock_inv prefix (dput (prefix @ n) (lock_value f a, e) (dput (fence_key prefix n) (RText (show_nat f), None) db))"
  using assms unfolding redis_lock_inv_def by (auto split: if_splits)

lemma redis_inv_renew:
  assumes "redis_lock_inv prefix db" "redis_name_ok n" "dget db (fence_key prefix n) = Some (RText (show_nat f), None)"
  shows "redis_lock_inv prefix (dput (prefix @ n) (lock_value f a, e) db)"
  using assms unfolding redis_lock_inv_def by (auto split: if_splits)

lemma redis_inv_del: "redis_lock_inv prefix db \<Longrightarrow> redis_name_ok n \<Longrightarrow> redis_lock_inv prefix (ddel (prefix @ n) db)"
  unfolding redis_lock_inv_def by (auto split: if_splits)

lemma redis_lock_inv_Nil: "redis_lock_inv prefix []"
  by (simp add: redis_lock_inv_def)

lemma RedisLockAdapter_sel [simp]:
  "lb_acquire (RedisLockAdapter prefix) t1 t2 = redis_lock_acquire prefix t1"
  "lb_release (RedisLockAdapter prefix) t1 t2 = redis_lock_release prefix t1"
  "lb_locked (RedisLockAdapter prefix) = redis_lock_locked prefix"
  "lb_owned (RedisLockAdapter prefix) = redis_lock_owned prefix"
  by (simp_all add: RedisLockAdapter_def)

lemma redis_lock_inv_acquire:
  assumes "redis_lock_inv prefix db" "redis_name_ok n" "redis_served d"
  shows "redis_lock_inv prefix (snd (redis_lock_acquire prefix t n a d db))"
proof (cases rule: redis_lock_cases [OF assms(1,2), of t])
  case 1
  from redis_acquire_free [OF assms 1(1), of a] redis_inv_grant [OF assms(1,2)] show ?thesis by auto
next
  case (2 f b x)
  show ?thesis
  proof (cases "a = b")
    case True
    with 2 redis_acquire_renew [OF assms(3), of t prefix n db f b x] redis_inv_renew [OF assms(1,2)] show ?thesis by simp
  next
    case False
    with 2 redis_acquire_held [of t prefix n db f b x a d] assms(1) show ?thesis by simp
  qed
qed

interpretation redis_lock: lock_backend_laws "RedisLockAdapter prefix" "redis_holder prefix" "redis_fence prefix"
  "redis_lock_inv prefix" redis_lease redis_name_ok redis_served for prefix
proof (unfold_locales, goal_cases)
  case (1 s t1 t2 n d a r s')
  note put = redis_observe_put [OF 1(3)]
  show ?case
  proof (cases rule: redis_lock_cases [OF 1(1,3), of t1])
    case free: 1
    from redis_acquire_free [OF 1(1,3,4) free(1), of a] 1(6) free(2) show ?thesis
      by (auto simp: put 1(3) redis_lease_def)
  next
    case held: (2 f b x)
    with 1(5) have "a = b" by auto
    with held redis_acquire_renew [OF 1(4), of t1 prefix n s f b x] 1(3,6) show ?thesis
      by (auto simp: put redis_lease_def)
  qed
next
  case (2 s t1 t2 n d b a)
  show ?case
  proof (cases rule: redis_lock_cases [OF 2(1,3), of t1])
    case held: (2 f c x)
    with 2(5,6) redis_acquire_held [of t1 prefix n s f c x a d] show ?thesis by simp
  qed (use 2(5) in simp)
next
  case (3 s t1 t2 n a q s')
  show ?case
  proof (cases rule: redis_lock_cases [OF 3(1,3), of t1])
    case held: (2 f c x)
    with 3 redis_release_cases(2) [of t1 prefix n s f c x a] show ?thesis by (auto simp: redis_observe_put)
  qed (use 3(4) in simp)
next
  case (4 s t1 t2 n a q s')
  show ?case
  proof (cases rule: redis_lock_cases [OF 4(1,3), of t1])
    case 1
    with 4 redis_release_cases(1) [OF 1(1), of a] show ?thesis by simp
  next
    case held: (2 f c x)
    with 4 redis_release_cases(2) [of t1 prefix n s f c x a] show ?thesis by simp
  qed
next
  case (5 s n t1 t2 a q s' m)
  show ?case
  proof (cases rule: redis_lock_cases [OF 5(1,2), of t1])
    case 1
    with 5 redis_release_cases(1) [OF 1(1), of a] show ?thesis by simp
  next
    case held: (2 f c x)
    with 5 redis_release_cases(2) [of t1 prefix n s f c x a] show ?thesis
      by (auto simp: redis_observe_put split: if_splits)
  qed
next
  case (6 s n t)
  show ?case
    by (cases rule: redis_lock_cases [OF 6, of t]) (simp_all add: redis_lock_locked_def r_get_def lock_value_def)
next
  case (7 s n t a)
  show ?case
    by (cases rule: redis_lock_cases [OF 7, of t])
      (auto simp: redis_lock_owned_def r_get_def lock_value_def cut_lock_value)
next
  case (8 s t n t')
  have "r_lookup (ms t') (prefix @ n) s = r_lookup (ms t) (prefix @ n) s \<or> r_lookup (ms t') (prefix @ n) s = None"
    using ms_mono [OF 8(2)] by (auto simp: r_lookup_def r_alive_def split: option.splits)
  with 8(1) show ?case by (auto simp: redis_holder_def)
next
  case (9 s t n a t' b)
  then show ?case by (auto simp: redis_holder_def r_lookup_def split: option.splits prod.splits if_splits rvalue.splits)
next
  case (10 s n d t1 t2 a r s')
  then show ?case using redis_lock_inv_acquire [OF 10(1-3), of t1 a] by simp
next
  case (11 s n t1 t2 a q s')
  show ?case
  proof (cases rule: redis_lock_cases [OF 11(1,2), of t1])
    case 1
    with 11 redis_release_cases(1) [OF 1(1), of a] show ?thesis by simp
  next
    case held: (2 f c x)
    with 11 redis_release_cases(2) [of t1 prefix n s f c x a] redis_inv_del [OF 11(1,2)] show ?thesis
      by (auto split: if_splits)
  qed
qed

section \<open>Guarantees\<close>

lemma lock_name_redis_ok [simp]: "redis_name_ok (lock_name L)"
  by (simp add: redis_name_ok_def lock_name_def)

text \<open>
  A lease on Redis covers its duration up to a millisecond: from a grant at \<open>t1\<close> on, as long as
  the holder makes no request of its own, no other token gets the lock in any run of requests up to \<open>t1 + d\<close>
  less a millisecond, and the holder owns it until then; in the whole run, before and after, the fencing
  tokens of a lock never decrease and grow strictly at each change of holder.
\<close>

theorem redis_lock_lease:
  assumes "clock_ok t rs0" "\<forall>x \<in> set rs0. request_ok redis_name_ok redis_served (snd (snd x))"
    and "t1 \<le> t2" "redis_name_ok n" "redis_served d"
    and "redis_lock_acquire prefix t1 n a d (snd (lock_run (RedisLockAdapter prefix) rs0 [])) = (Inr (Some f), s')"
    and "clock_ok t2 rs" "\<forall>x \<in> set rs. request_ok redis_name_ok redis_served (snd (snd x))"
    and "\<forall>(u1, u2, q) \<in> set rs. u2 \<le> t1 + d - 1 / 1000" "\<forall>x \<in> set rs. \<not> concerns n a x"
  shows "n \<notin> fst ` set (fst (lock_run (RedisLockAdapter prefix) rs s')) \<and>
    redis_lock_owned prefix (t1 + d - 1 / 1000) n a (snd (lock_run (RedisLockAdapter prefix) rs s')) = Inr True \<and>
    sorted_wrt fence_ordered (fst (lock_run (RedisLockAdapter prefix) rs0 []))"
proof -
  let ?B = "RedisLockAdapter prefix" and ?s = "snd (lock_run (RedisLockAdapter prefix) rs0 [])"
  have inv: "redis_lock_inv prefix ?s"
    by (rule redis_lock.run_inv [OF redis_lock_inv_Nil assms(1)]) (use assms(2) in auto)
  have acq: "lb_acquire ?B t1 t2 n a d ?s = (Inr (Some f), s')" using assms(6) by simp
  have h: "redis_holder prefix s' u n = (if redis_lease t1 t2 d u then Some a else None)" for u
    by (rule redis_lock.acquire_cases [OF inv assms(3-5) acq]) auto
  have d: "0 < py_int (d * 1000)" using assms(5) by (simp add: redis_served_def)
  have cover: "redis_lease t1 t2 d (t1 + d - 1 / 1000)"
    using d unfolding redis_lease_def ms_def py_int_def by (simp split: if_splits) linarith
  have inv': "redis_lock_inv prefix s'" by (rule redis_lock.inv_acquire [OF inv assms(4,5) acq])
  have "redis_holder prefix (snd (lock_run ?B rs s')) (t1 + d - 1 / 1000) n = Some a \<and>
    n \<notin> fst ` set (fst (lock_run ?B rs s'))"
    by (rule redis_lock.run_excludes [OF inv' assms(7)]) (use assms(4,8-10) h cover in auto)
  moreover have "redis_lock_inv prefix (snd (lock_run ?B rs s'))"
    by (rule redis_lock.run_inv [OF inv' assms(7)]) (use assms(8) in auto)
  moreover have "sorted_wrt fence_ordered (fst (lock_run ?B rs0 []))"
    by (rule redis_lock.run_fence_ordered [OF redis_lock_inv_Nil assms(1)]) (use assms(2) in auto)
  ultimately show ?thesis using redis_lock.owned_iff [OF _ assms(4), of prefix] by auto
qed

theorem redis_lock_lease_witness:
  "''lock:a'' \<notin> fst ` set (fst (lock_run (RedisLockAdapter ''app:'') [(4, 4, Acquire ''lock:a'' ''y'' 10)]
     (snd (redis_lock_acquire ''app:'' 1 ''lock:a'' ''x'' 9 []))))"
proof -
  have acq: "redis_lock_acquire ''app:'' 1 ''lock:a'' ''x'' 9 (snd (lock_run (RedisLockAdapter ''app:'') [] [])) =
      (Inr (Some 1), snd (redis_lock_acquire ''app:'' 1 ''lock:a'' ''x'' 9 []))"
    by (simp add: redis_lock_acquire_def lua_acquire_or_extend_def r_get_def r_incr_def r_set_px_def py_int_def)
  show ?thesis
    using redis_lock_lease [OF _ _ _ _ _ acq, of 0 1 "[(4, 4, Acquire ''lock:a'' ''y'' 10)]"]
    by (simp add: redis_name_ok_def redis_served_def py_int_def)
qed

text \<open>
  A lease shorter than a millisecond, which the configuration of a lock accepts, never works on Redis: the
  server refuses the expiry zero, and each try still raises the fence counter.
\<close>

theorem redis_short_lease_fails:
  assumes "redis_lock_inv prefix db" "redis_name_ok n" "0 \<le> d" "d < 1 / 1000" "redis_holder prefix db t n = None"
    and "redis_lock_acquire prefix t n a d db = (r, db')"
  shows "r = Inl ResponseError \<and> redis_fence prefix db' n = redis_fence prefix db n + 1"
proof (cases rule: redis_lock_cases [OF assms(1,2), of t])
  case 1
  have px: "py_int (d * 1000) = 0" using assms(3,4) by (simp add: py_int_def floor_eq_iff)
  from redis_incr [OF assms(1,2), of "ms t"] obtain f where "redis_fence prefix db n = int f"
    "r_incr (ms t) (fence_key prefix n) db = (Inr (Suc f), dput (fence_key prefix n) (RText (show_nat (Suc f)), None) db)"
    by blast
  with 1(1) px assms(2,6) show ?thesis
    by (auto simp: redis_lock_acquire_def lua_acquire_or_extend_def r_get_def r_set_px_def redis_observe_put)
qed (use assms(5) in simp)

end
