(* ===== verification/Cron_Calendar.thy ===== *)
theory Cron_Calendar
  imports Prelude "HOL-Library.Product_Lexorder"
begin

text \<open>
  The part of Python's \<open>datetime\<close> that the cron search uses (\<open>task/_cron.py\<close>): dates of the
  Gregorian calendar, times of day in whole minutes, their order, and the steps the search makes.
  Comparison and arithmetic of datetimes with one \<open>tzinfo\<close> act on the local fields, so no time zone
  appears here. The range of years that Python supports is not bounded.
\<close>

type_synonym date = "int \<times> int \<times> int"
type_synonym datetime = "date \<times> int \<times> int"

definition is_leap :: "int \<Rightarrow> bool" where
  "is_leap y \<longleftrightarrow> y mod 4 = 0 \<and> (y mod 100 \<noteq> 0 \<or> y mod 400 = 0)"

definition days_in_month :: "int \<Rightarrow> int \<Rightarrow> int" where
  "days_in_month y m = (if m = 2 then (if is_leap y then 29 else 28)
     else if m \<in> {4, 6, 9, 11} then 30 else 31)"

fun valid_date :: "date \<Rightarrow> bool" where
  "valid_date (y, m, d) \<longleftrightarrow> 1 \<le> m \<and> m \<le> 12 \<and> 1 \<le> d \<and> d \<le> days_in_month y m"

fun valid_dt :: "datetime \<Rightarrow> bool" where
  "valid_dt (dt, h, mi) \<longleftrightarrow> valid_date dt \<and> 0 \<le> h \<and> h < 24 \<and> 0 \<le> mi \<and> mi < 60"

text \<open>One day later and earlier: \<open>timedelta(days=1)\<close>.\<close>

fun next_day :: "date \<Rightarrow> date" where
  "next_day (y, m, d) =
     (if d < days_in_month y m then (y, m, d + 1) else if m = 12 then (y + 1, 1, 1) else (y, m + 1, 1))"

fun prev_day :: "date \<Rightarrow> date" where
  "prev_day (y, m, d) =
     (if d > 1 then (y, m, d - 1) else if m = 1 then (y - 1, 12, 31) else (y, m - 1, days_in_month y (m - 1)))"

text \<open>One hour and one minute later and earlier.\<close>

fun plus_hour :: "datetime \<Rightarrow> datetime" where
  "plus_hour (dt, h, mi) = (if h < 23 then (dt, h + 1, mi) else (next_day dt, 0, mi))"

fun minus_hour :: "datetime \<Rightarrow> datetime" where
  "minus_hour (dt, h, mi) = (if h > 0 then (dt, h - 1, mi) else (prev_day dt, 23, mi))"

fun plus_minute :: "datetime \<Rightarrow> datetime" where
  "plus_minute (dt, h, mi) = (if mi < 59 then (dt, h, mi + 1) else plus_hour (dt, h, 0))"

fun minus_minute :: "datetime \<Rightarrow> datetime" where
  "minus_minute (dt, h, mi) = (if mi > 0 then (dt, h, mi - 1) else minus_hour (dt, h, 59))"

definition plus_days :: "nat \<Rightarrow> datetime \<Rightarrow> datetime" where
  "plus_days n c = ((next_day ^^ n) (fst c), snd c)"

definition minus_days :: "nat \<Rightarrow> datetime \<Rightarrow> datetime" where
  "minus_days n c = ((prev_day ^^ n) (fst c), snd c)"

text \<open>\<open>date.weekday()\<close>, Monday being 0: day 1 of year 1 was a Monday.\<close>

definition days_before_year :: "int \<Rightarrow> int" where
  "days_before_year y = (y - 1) * 365 + (y - 1) div 4 - (y - 1) div 100 + (y - 1) div 400"

definition days_before_month :: "int \<Rightarrow> int \<Rightarrow> int" where
  "days_before_month y m = (\<Sum>i\<leftarrow>[1..m - 1]. days_in_month y i)"

fun to_ordinal :: "date \<Rightarrow> int" where
  "to_ordinal (y, m, d) = days_before_year y + days_before_month y m + d"

definition weekday :: "date \<Rightarrow> int" where
  "weekday dt = (to_ordinal dt + 6) mod 7"

section \<open>Steps and order\<close>

lemma days_in_month_bounds: "28 \<le> days_in_month y m \<and> days_in_month y m \<le> 31"
  by (simp add: days_in_month_def)

lemma december: "days_in_month y 12 = 31"
  by (simp add: days_in_month_def)

lemma date_less: "((y, m, d) :: date) < (y', m', d') \<longleftrightarrow> y < y' \<or> y = y' \<and> (m < m' \<or> m = m' \<and> d < d')"
  by auto

lemma date_le: "((y, m, d) :: date) \<le> (y', m', d') \<longleftrightarrow> y < y' \<or> y = y' \<and> (m < m' \<or> m = m' \<and> d \<le> d')"
  by auto

lemma next_day_valid: "valid_date dt \<Longrightarrow> valid_date (next_day dt)"
proof (cases dt)
  case (fields y m d)
  assume "valid_date dt"
  then show ?thesis using fields days_in_month_bounds [of y "m + 1"] days_in_month_bounds [of "y + 1" 1] by auto
qed

lemma prev_day_valid: "valid_date dt \<Longrightarrow> valid_date (prev_day dt)"
proof (cases dt)
  case (fields y m d)
  assume "valid_date dt"
  then show ?thesis using fields days_in_month_bounds [of y m] days_in_month_bounds [of y "m - 1"]
    by (auto simp: december)
qed

lemma next_day_less: "dt < next_day dt"
  by (cases dt) (auto simp: date_less)

lemma next_day_least:
  assumes "valid_date dt" "valid_date x" "dt < x"
  shows "next_day dt \<le> x"
proof -
  obtain y m d y' m' d' where f: "dt = (y, m, d)" "x = (y', m', d')" by (cases dt, cases x) auto
  from assms show ?thesis unfolding f date_less by (auto simp: date_le simp del: less_eq_prod_simp)
qed

lemma prev_day_less: "valid_date dt \<Longrightarrow> prev_day dt < dt"
  by (cases dt) (auto simp: date_less)

lemma prev_day_greatest:
  assumes "valid_date dt" "valid_date x" "x < dt"
  shows "x \<le> prev_day dt"
proof -
  obtain y m d y' m' d' where f: "dt = (y, m, d)" "x = (y', m', d')" by (cases dt, cases x) auto
  have "d' \<le> 31" using days_in_month_bounds [of y' m'] assms(2) f by auto
  moreover have "m' = m - 1 \<Longrightarrow> y' = y \<Longrightarrow> d' \<le> days_in_month y (m - 1)" using assms(2) f by auto
  ultimately show ?thesis using assms unfolding f date_less
    by (auto simp: date_le simp del: less_eq_prod_simp)
qed

lemma next_prev_day: "valid_date dt \<Longrightarrow> next_day (prev_day dt) = dt"
  by (cases dt) (auto simp: december)

text \<open>The ordinal counts days, so the weekday advances with the date.\<close>

lemma leap_year_days: "days_before_year (y + 1) = days_before_year y + (if is_leap y then 366 else 365)"
proof -
  have step: "y div k = (y - 1) div k + (if y mod k = 0 then 1 else 0)" if "0 < k" for k :: int
  proof (cases "y mod k = 0")
    case True
    then have "y - 1 = k * (y div k - 1) + (k - 1)" by (auto simp: algebra_simps)
    from int_div_pos_eq [OF this] True that show ?thesis by simp
  next
    case False
    have "y - 1 = k * (y div k) + (y mod k - 1)" by simp
    from int_div_pos_eq [OF this] False that pos_mod_sign [OF that, of y] pos_mod_bound [OF that, of y]
    show ?thesis by simp
  qed
  have d: "y div 4 = (y - 1) div 4 + (if y mod 4 = 0 then 1 else 0)"
    "y div 100 = (y - 1) div 100 + (if y mod 100 = 0 then 1 else 0)"
    "y div 400 = (y - 1) div 400 + (if y mod 400 = 0 then 1 else 0)" by (rule step, simp)+
  have m: "y mod 400 = 0 \<Longrightarrow> y mod 100 = 0" "y mod 100 = 0 \<Longrightarrow> y mod 4 = 0"
    using dvd_trans [of 100 400 y] dvd_trans [of 4 100 y] by (simp_all add: mod_eq_0_iff_dvd)
  have e: "days_before_year (y + 1) = y * 365 + y div 4 - y div 100 + y div 400"
    by (simp add: days_before_year_def)
  define q4 q100 q400 p4 p100 p400 where
    q: "q4 = (y - 1) div 4" "q100 = (y - 1) div 100" "q400 = (y - 1) div 400"
      "p4 \<longleftrightarrow> y mod 4 = 0" "p100 \<longleftrightarrow> y mod 100 = 0" "p400 \<longleftrightarrow> y mod 400 = 0"
  have b: "days_before_year y = (y - 1) * 365 + q4 - q100 + q400" by (simp add: days_before_year_def q)
  define r4 r100 r400 where r: "r4 = y div 4" "r100 = y div 100" "r400 = y div 400"
  show ?thesis using m d unfolding e b is_leap_def q [symmetric] r [symmetric]
    by (cases p400; cases p100; cases p4) simp_all
qed

lemma month_days: "1 \<le> m \<Longrightarrow> days_before_month y (m + 1) = days_before_month y m + days_in_month y m"
proof -
  assume "1 \<le> m"
  then have "[1..m] = [1..m - 1] @ [m]" using upto_rec2 by simp
  then show ?thesis by (simp add: days_before_month_def)
qed

lemma year_days: "days_before_month y 12 + 31 = (if is_leap y then 366 else 365)"
proof -
  have "[1..11] = [1, 2, 3, 4, 5, 6, 7, 8, 9, 10, 11::int]" by code_simp
  then show ?thesis by (simp add: days_before_month_def days_in_month_def)
qed

lemma ordinal_next_day:
  assumes "valid_date dt"
  shows "to_ordinal (next_day dt) = to_ordinal dt + 1"
proof (cases dt)
  case (fields y m d)
  have "days_before_month y 1 = 0" for y by (simp add: days_before_month_def)
  with fields assms leap_year_days [of y] month_days [of m y] year_days [of y] show ?thesis
    by (auto simp: december)
qed

section \<open>Successors of datetimes\<close>

text \<open>
  The date decides first, then the time of day. A step that goes to the start of a later period, or
  to the end of an earlier one, passes only over datetimes of the period it leaves.
\<close>

lemma dt_less: "((a, h, mi) :: datetime) < (b, h', mi') \<longleftrightarrow> a < b \<or> a = b \<and> (h < h' \<or> h = h' \<and> mi < mi')"
  by (auto simp: le_less)

lemma dt_le: "((a, h, mi) :: datetime) \<le> (b, h', mi') \<longleftrightarrow> a < b \<or> a = b \<and> (h < h' \<or> h = h' \<and> mi \<le> mi')"
  by (auto simp: le_less)

end
