(* ===== verification/Cron_Expr.thy ===== *)
theory Cron_Expr
  imports Cron_Calendar Text
begin

text \<open>
  Cron expressions (\<open>task/_cron.py\<close>, \<open>CronExpression\<close>): the parser of the five fields, the day rule
  and the two searches, for the next match after and the last match at or before a given time.

  The lemmas show that a printed field parses to the set it denotes and that a parsed field stays
  within its bounds, and that each search returns the nearest match within its five years, or
  nothing when there is none: the steps that jump over a month, a day or an hour miss no match.
\<close>

section \<open>Parsing\<close>

datatype cron_error =
    MissingStep | InvalidStep | StepNotPositive | InvalidRange | StartAfterEnd | StepNeedsRange
  | InvalidValue | EmptyValue | OutOfRange | FieldCount nat | NoMatch

text \<open>
  \<open>int(s)\<close> on a string without white space: an optional sign and decimal digits, which single
  underscores may separate.
\<close>

definition read_unsigned :: "string \<Rightarrow> int option" where
  "read_unsigned s =
     (let ps = split_on (CHR ''_'') s
      in if list_all (\<lambda>p. p \<noteq> [] \<and> list_all is_digit p) ps then Some (int (read_digits (concat ps))) else None)"

fun read_int :: "string \<Rightarrow> int option" where
  "read_int [] = None"
| "read_int (c # cs) =
     (if c = CHR ''-'' then map_option uminus (read_unsigned cs)
      else if c = CHR ''+'' then read_unsigned cs
      else read_unsigned (c # cs))"

text \<open>\<open>s.partition(c)\<close>: the part before the separator and, when it occurs, the part after it.\<close>

definition py_partition :: "char \<Rightarrow> string \<Rightarrow> string \<times> string option" where
  "py_partition c s = (takeWhile (\<lambda>x. x \<noteq> c) s,
     if c \<in> set s then Some (tl (dropWhile (\<lambda>x. x \<noteq> c) s)) else None)"

definition parse_step :: "string \<Rightarrow> cron_error + int" where
  "parse_step spec =
     (if spec = [] then Inl MissingStep
      else case read_int spec of
             None \<Rightarrow> Inl InvalidStep
           | Some step \<Rightarrow> if step \<le> 0 then Inl StepNotPositive else Inr step)"

definition parse_bounds :: "string \<Rightarrow> int \<Rightarrow> int \<Rightarrow> bool \<Rightarrow> cron_error + int \<times> int" where
  "parse_bounds range_spec low high stepped =
     (if range_spec = ''*'' then Inr (low, high)
      else if CHR ''-'' \<in> set range_spec then
        case py_partition (CHR ''-'') range_spec of (start_spec, end_spec) \<Rightarrow>
          case (read_int start_spec, read_int (the end_spec)) of
            (Some start, Some end) \<Rightarrow> if start > end then Inl StartAfterEnd else Inr (start, end)
          | _ \<Rightarrow> Inl InvalidRange
      else if stepped then Inl StepNeedsRange
      else case read_int range_spec of None \<Rightarrow> Inl InvalidValue | Some v \<Rightarrow> Inr (v, v))"

text \<open>\<open>range(start, stop, step)\<close> for a positive step.\<close>

definition py_range :: "int \<Rightarrow> int \<Rightarrow> int \<Rightarrow> int set" where
  "py_range start stop step = set (filter (\<lambda>v. (v - start) mod step = 0) [start..stop - 1])"

definition parse_part :: "int \<Rightarrow> int \<Rightarrow> string \<Rightarrow> cron_error + int set" where
  "parse_part low high part =
     (if part = [] then Inl EmptyValue
      else case py_partition (CHR ''/'') part of (range_spec, step_spec) \<Rightarrow>
        (case (case step_spec of None \<Rightarrow> Inr 1 | Some s \<Rightarrow> parse_step s) of
           Inl e \<Rightarrow> Inl e
         | Inr step \<Rightarrow>
             (case parse_bounds range_spec low high (step_spec \<noteq> None) of
                Inl e \<Rightarrow> Inl e
              | Inr (start, end) \<Rightarrow>
                  if start < low \<or> end > high then Inl OutOfRange else Inr (py_range start (end + 1) step))))"

fun parse_parts :: "int \<Rightarrow> int \<Rightarrow> int set \<Rightarrow> string list \<Rightarrow> cron_error + int set" where
  "parse_parts low high values [] = Inr values"
| "parse_parts low high values (p # ps) =
     (case parse_part low high p of Inl e \<Rightarrow> Inl e | Inr vs \<Rightarrow> parse_parts low high (values \<union> vs) ps)"

definition parse_field :: "string \<Rightarrow> int \<Rightarrow> int \<Rightarrow> cron_error + int set" where
  "parse_field field low high = parse_parts low high {} (split_on (CHR '','') field)"

record cron_expression =
  minutes :: "int set"
  hours :: "int set"
  days :: "int set"
  months :: "int set"
  weekdays :: "int set"
  dom_restricted :: bool
  dow_restricted :: bool

text \<open>\<open>expr.split()\<close>: the runs of characters that are not white space.\<close>

definition is_space :: "char \<Rightarrow> bool" where
  "is_space c \<longleftrightarrow> (let n = (of_char c :: nat) in n = 32 \<or> 9 \<le> n \<and> n \<le> 13 \<or> 28 \<le> n \<and> n \<le> 31)"

definition split_space :: "string \<Rightarrow> string list" where
  "split_space s = filter (\<lambda>p. p \<noteq> []) (split_on (CHR '' '') (map (\<lambda>c. if is_space c then CHR '' '' else c) s))"

definition cron_init :: "string \<Rightarrow> cron_error + cron_expression" where
  "cron_init expr =
     (case split_space expr of
        [f0, f1, f2, f3, f4] \<Rightarrow>
          (case parse_field f0 0 59 of Inl e \<Rightarrow> Inl e | Inr mi \<Rightarrow>
          (case parse_field f1 0 23 of Inl e \<Rightarrow> Inl e | Inr h \<Rightarrow>
          (case parse_field f2 1 31 of Inl e \<Rightarrow> Inl e | Inr d \<Rightarrow>
          (case parse_field f3 1 12 of Inl e \<Rightarrow> Inl e | Inr mo \<Rightarrow>
          (case parse_field f4 0 7 of Inl e \<Rightarrow> Inl e | Inr dow \<Rightarrow>
             Inr \<lparr>minutes = mi, hours = h, days = d, months = mo,
                  weekdays = (\<lambda>w. if w = 7 then 0 else w) ` dow,
                  dom_restricted = (f2 \<noteq> ''*''), dow_restricted = (f4 \<noteq> ''*'')\<rparr>)))))
      | fs \<Rightarrow> Inl (FieldCount (length fs)))"

section \<open>Matching and searching\<close>

definition date_matches :: "cron_expression \<Rightarrow> date \<Rightarrow> bool" where
  "date_matches e dt =
     (let cron_dow = (weekday dt + 1) mod 7;
          dom_match = snd (snd dt) \<in> days e;
          dow_match = cron_dow \<in> weekdays e
      in if dom_restricted e \<and> dow_restricted e then dom_match \<or> dow_match
         else if dom_restricted e then dom_match
         else if dow_restricted e then dow_match
         else True)"

abbreviation dt_month :: "datetime \<Rightarrow> int" where
  "dt_month c \<equiv> fst (snd (fst c))"

text \<open>When a datetime matches, as the documentation of the class says.\<close>

definition cron_matches :: "cron_expression \<Rightarrow> datetime \<Rightarrow> bool" where
  "cron_matches e c \<longleftrightarrow> dt_month c \<in> months e \<and> date_matches e (fst c) \<and> fst (snd c) \<in> hours e \<and>
     snd (snd c) \<in> minutes e"

text \<open>The jumps: \<open>_advance_month\<close>, \<open>_retreat_month\<close> and those of the loops.\<close>

fun advance_month :: "datetime \<Rightarrow> datetime" where
  "advance_month ((y, m, d), h, mi) = (if m = 12 then ((y + 1, 1, 1), 0, 0) else ((y, m + 1, 1), 0, 0))"

fun retreat_month :: "datetime \<Rightarrow> datetime" where
  "retreat_month ((y, m, d), h, mi) = minus_minute ((y, m, 1), 0, 0)"

definition next_midnight :: "datetime \<Rightarrow> datetime" where
  "next_midnight c = (next_day (fst c), 0, 0)"

definition last_minute_before :: "datetime \<Rightarrow> datetime" where
  "last_minute_before c = (prev_day (fst c), 23, 59)"

definition next_full_hour :: "datetime \<Rightarrow> datetime" where
  "next_full_hour c = plus_hour (fst c, fst (snd c), 0)"

definition hour_before :: "datetime \<Rightarrow> datetime" where
  "hour_before c = minus_hour (fst c, fst (snd c), 59)"

text \<open>A strictly monotone number of a datetime, which bounds the loops.\<close>

fun dt_number :: "datetime \<Rightarrow> int" where
  "dt_number ((y, m, d), h, mi) = (((y * 13 + m) * 32 + d) * 24 + h) * 60 + mi"

lemma dt_number_less:
  assumes "valid_dt c" "valid_dt c'" "c < c'"
  shows "dt_number c < dt_number c'"
proof -
  obtain y m d h mi y' m' d' h' mi' where c: "c = ((y, m, d), h, mi)" "c' = ((y', m', d'), h', mi')"
    by (metis prod_cases3 surj_pair)
  have "d \<le> 31" "d' \<le> 31" using assms days_in_month_bounds [of y m] days_in_month_bounds [of y' m'] c by auto
  with assms show ?thesis by (auto simp: c dt_less date_less simp del: less_prod_simp)
qed

lemma dt_number_le: "valid_dt c \<Longrightarrow> valid_dt c' \<Longrightarrow> c \<le> c' \<Longrightarrow> dt_number c \<le> dt_number c'"
  using dt_number_less [of c c'] by (auto simp: le_less)

lemma advance_month_step: "valid_dt c \<Longrightarrow> valid_dt (advance_month c) \<and> c < advance_month c"
proof (cases c rule: advance_month.cases)
  case (1 y m d h mi)
  assume "valid_dt c"
  with 1 days_in_month_bounds [of y "m + 1"] days_in_month_bounds [of "y + 1" 1] show ?thesis by auto
qed

lemma next_midnight_step: "valid_dt c \<Longrightarrow> valid_dt (next_midnight c) \<and> c < next_midnight c"
  using next_day_valid next_day_less by (cases c) (auto simp: next_midnight_def)

lemma next_full_hour_step: "valid_dt c \<Longrightarrow> valid_dt (next_full_hour c) \<and> c < next_full_hour c"
  using next_day_valid next_day_less by (cases c) (auto simp: next_full_hour_def dt_less)

lemma plus_minute_step: "valid_dt c \<Longrightarrow> valid_dt (plus_minute c) \<and> c < plus_minute c"
  using next_day_valid next_day_less by (cases c) (auto simp: dt_less)

lemmas forward_steps = advance_month_step next_midnight_step next_full_hour_step plus_minute_step

text \<open>
  The loop of \<open>next_after\<close>. A \<open>datetime\<close> object is always a valid one, so the loop is defined for
  valid datetimes.
\<close>

function next_search :: "cron_expression \<Rightarrow> datetime \<Rightarrow> datetime \<Rightarrow> datetime option" where
  "next_search e limit c =
     (if \<not> (valid_dt c \<and> valid_dt limit) then None
      else if \<not> c \<le> limit then None
      else if dt_month c \<notin> months e then next_search e limit (advance_month c)
      else if \<not> date_matches e (fst c) then next_search e limit (next_midnight c)
      else if fst (snd c) \<notin> hours e then next_search e limit (next_full_hour c)
      else if snd (snd c) \<notin> minutes e then next_search e limit (plus_minute c)
      else Some c)"
  by pat_completeness auto
termination
  by (relation "measure (\<lambda>(e, limit, c). nat (dt_number limit + 1 - dt_number c))")
    (simp_all add: dt_number_less dt_number_le forward_steps)

declare next_search.simps [simp del]

lemma retreat_month_step: "valid_dt c \<Longrightarrow> valid_dt (retreat_month c) \<and> retreat_month c < c"
proof (cases c rule: retreat_month.cases)
  case (1 y m d h mi)
  assume v: "valid_dt c"
  then have "valid_date (y, m, 1)" using 1 by auto
  from prev_day_valid [OF this] prev_day_less [OF this] have "valid_date (prev_day (y, m, 1))" "prev_day (y, m, 1) < (y, m, d)"
    using 1 v by (auto simp: le_less split: if_splits)
  then show ?thesis using 1 by (simp add: dt_less del: less_prod_simp prev_day.simps)
qed

lemma last_minute_before_step: "valid_dt c \<Longrightarrow> valid_dt (last_minute_before c) \<and> last_minute_before c < c"
  using prev_day_valid prev_day_less by (cases c) (auto simp: last_minute_before_def)

lemma hour_before_step: "valid_dt c \<Longrightarrow> valid_dt (hour_before c) \<and> hour_before c < c"
  using prev_day_valid prev_day_less by (cases c) (auto simp: hour_before_def dt_less)

lemma minus_minute_step: "valid_dt c \<Longrightarrow> valid_dt (minus_minute c) \<and> minus_minute c < c"
  using prev_day_valid prev_day_less by (cases c) (auto simp: dt_less)

lemmas backward_steps = retreat_month_step last_minute_before_step hour_before_step minus_minute_step

text \<open>The loop of \<open>previous_or_equal\<close>.\<close>

function prev_search :: "cron_expression \<Rightarrow> datetime \<Rightarrow> datetime \<Rightarrow> datetime option" where
  "prev_search e limit c =
     (if \<not> (valid_dt c \<and> valid_dt limit) then None
      else if \<not> limit \<le> c then None
      else if dt_month c \<notin> months e then prev_search e limit (retreat_month c)
      else if \<not> date_matches e (fst c) then prev_search e limit (last_minute_before c)
      else if fst (snd c) \<notin> hours e then prev_search e limit (hour_before c)
      else if snd (snd c) \<notin> minutes e then prev_search e limit (minus_minute c)
      else Some c)"
  by pat_completeness auto
termination
  by (relation "measure (\<lambda>(e, limit, c). nat (dt_number c + 1 - dt_number limit))")
    (simp_all add: dt_number_less dt_number_le backward_steps)

declare prev_search.simps [simp del]

definition MAX_SEARCH_YEARS :: nat where
  "MAX_SEARCH_YEARS = 5"

text \<open>
  A moment is a datetime and the seconds within its minute, which \<open>replace(second=0, microsecond=0)\<close>
  drops.
\<close>

type_synonym moment = "datetime \<times> real"

definition next_after :: "cron_expression \<Rightarrow> moment \<Rightarrow> cron_error + datetime" where
  "next_after e now =
     (let candidate = plus_minute (fst now);
          limit = plus_days (MAX_SEARCH_YEARS * 366) candidate
      in case next_search e limit candidate of None \<Rightarrow> Inl NoMatch | Some c \<Rightarrow> Inr c)"

definition previous_or_equal :: "cron_expression \<Rightarrow> moment \<Rightarrow> datetime option" where
  "previous_or_equal e now = prev_search e (minus_days (MAX_SEARCH_YEARS * 366) (fst now)) (fst now)"

section \<open>The searches find the nearest match\<close>

text \<open>What a jump passes over belongs to the month, day, hour or minute it leaves.\<close>

lemma advance_month_skips:
  assumes "valid_dt c" "valid_dt x" "c \<le> x" "x < advance_month c"
  shows "dt_month x = dt_month c"
proof -
  obtain y m d h mi y' m' d' h' mi' where c: "c = ((y, m, d), h, mi)" "x = ((y', m', d'), h', mi')"
    by (metis prod_cases3 surj_pair)
  from assms show ?thesis unfolding c
    by (auto simp: dt_less dt_le date_less date_le simp del: less_prod_simp less_eq_prod_simp split: if_splits)
qed

lemma next_midnight_skips:
  assumes "valid_dt c" "valid_dt x" "c \<le> x" "x < next_midnight c"
  shows "fst x = fst c"
proof -
  obtain dt h mi dt' h' mi' where c: "c = (dt, h, mi)" "x = (dt', h', mi')" by (metis prod_cases3)
  from assms have "dt \<le> dt'" "dt' < next_day dt" unfolding c next_midnight_def
    by (auto simp: dt_less dt_le simp del: less_prod_simp less_eq_prod_simp)
  with next_day_least [of dt dt'] assms show ?thesis unfolding c by fastforce
qed

lemma next_full_hour_skips:
  assumes "valid_dt c" "valid_dt x" "c \<le> x" "x < next_full_hour c"
  shows "fst x = fst c \<and> fst (snd x) = fst (snd c)"
proof -
  obtain dt h mi dt' h' mi' where c: "c = (dt, h, mi)" "x = (dt', h', mi')" by (metis prod_cases3)
  have "x < next_midnight c"
    using assms next_day_less [of dt] unfolding c next_midnight_def next_full_hour_def
    by (auto simp: dt_less dt_le simp del: less_prod_simp less_eq_prod_simp split: if_splits)
  from next_midnight_skips [OF assms(1-3) this] assms show ?thesis unfolding c next_full_hour_def
    by (auto simp: dt_less dt_le simp del: less_prod_simp less_eq_prod_simp split: if_splits)
qed

lemma plus_minute_skips:
  assumes "valid_dt c" "valid_dt x" "c \<le> x" "x < plus_minute c"
  shows "x = c"
proof -
  obtain dt h mi dt' h' mi' where c: "c = (dt, h, mi)" "x = (dt', h', mi')" by (metis prod_cases3)
  have "x < next_full_hour c"
    using assms next_day_less [of dt] unfolding c next_full_hour_def
    by (auto simp: dt_less dt_le simp del: less_prod_simp less_eq_prod_simp split: if_splits)
  from next_full_hour_skips [OF assms(1-3) this] assms show ?thesis unfolding c
    by (auto simp: dt_less dt_le simp del: less_prod_simp less_eq_prod_simp split: if_splits)
qed

lemma retreat_month_skips:
  assumes "valid_dt c" "valid_dt x" "x \<le> c" "retreat_month c < x"
  shows "dt_month x = dt_month c"
proof -
  obtain y m d h mi y' m' d' h' mi' where c: "c = ((y, m, d), h, mi)" "x = ((y', m', d'), h', mi')"
    by (metis prod_cases3 surj_pair)
  have f: "valid_date (y, m, 1)" using assms(1) c by auto
  have r: "retreat_month c = (prev_day (y, m, 1), 23, 59)" by (simp add: c)
  have "prev_day (y, m, 1) < (y', m', d')"
    using assms(2,4) unfolding r c by (auto simp: dt_less simp del: less_prod_simp prev_day.simps)
  then have "(y, m, 1) \<le> (y', m', d')"
    using prev_day_greatest [OF f, of "(y', m', d')"] assms(2) c by (meson leD leI valid_dt.simps)
  moreover have "(y', m', d') \<le> (y, m, d)"
    using assms(3) unfolding c by (auto simp: dt_le simp del: less_prod_simp less_eq_prod_simp dest: less_imp_le)
  ultimately show ?thesis using c by (auto simp: date_le simp del: less_eq_prod_simp)
qed

lemma last_minute_before_skips:
  assumes "valid_dt c" "valid_dt x" "x \<le> c" "last_minute_before c < x"
  shows "fst x = fst c"
proof -
  obtain dt h mi dt' h' mi' where c: "c = (dt, h, mi)" "x = (dt', h', mi')" by (metis prod_cases3)
  from assms have "dt' \<le> dt" "prev_day dt < dt'" unfolding c last_minute_before_def
    by (auto simp: dt_less dt_le simp del: less_prod_simp less_eq_prod_simp)
  with prev_day_greatest [of dt dt'] assms show ?thesis unfolding c by fastforce
qed

lemma hour_before_skips:
  assumes "valid_dt c" "valid_dt x" "x \<le> c" "hour_before c < x"
  shows "fst x = fst c \<and> fst (snd x) = fst (snd c)"
proof -
  obtain dt h mi dt' h' mi' where c: "c = (dt, h, mi)" "x = (dt', h', mi')" by (metis prod_cases3)
  have "valid_date dt" using assms(1) c by simp
  then have "last_minute_before c < x"
    using assms prev_day_less [of dt] unfolding c last_minute_before_def hour_before_def
    by (auto simp: dt_less dt_le simp del: less_prod_simp less_eq_prod_simp split: if_splits)
  from last_minute_before_skips [OF assms(1-3) this] assms show ?thesis unfolding c hour_before_def
    by (auto simp: dt_less dt_le simp del: less_prod_simp less_eq_prod_simp split: if_splits)
qed

lemma minus_minute_skips:
  assumes "valid_dt c" "valid_dt x" "x \<le> c" "minus_minute c < x"
  shows "x = c"
proof -
  obtain dt h mi dt' h' mi' where c: "c = (dt, h, mi)" "x = (dt', h', mi')" by (metis prod_cases3)
  have "valid_date dt" using assms(1) c by simp
  then have "hour_before c < x"
    using assms prev_day_less [of dt] unfolding c hour_before_def
    by (auto simp: dt_less dt_le simp del: less_prod_simp less_eq_prod_simp split: if_splits)
  from hour_before_skips [OF assms(1-3) this] assms show ?thesis unfolding c
    by (auto simp: dt_less dt_le simp del: less_prod_simp less_eq_prod_simp split: if_splits)
qed

text \<open>The first match of \<open>c\<close> to \<open>limit\<close>, upwards and downwards, or the absence of one.\<close>

definition first_match :: "(datetime \<Rightarrow> bool) \<Rightarrow> datetime \<Rightarrow> datetime \<Rightarrow> datetime option \<Rightarrow> bool" where
  "first_match M limit c r = (case r of
      Some r \<Rightarrow> valid_dt r \<and> c \<le> r \<and> r \<le> limit \<and> M r \<and> (\<forall>x. valid_dt x \<and> c \<le> x \<and> x < r \<longrightarrow> \<not> M x)
    | None \<Rightarrow> \<forall>x. valid_dt x \<and> c \<le> x \<and> x \<le> limit \<longrightarrow> \<not> M x)"

definition last_match :: "(datetime \<Rightarrow> bool) \<Rightarrow> datetime \<Rightarrow> datetime \<Rightarrow> datetime option \<Rightarrow> bool" where
  "last_match M limit c r = (case r of
      Some r \<Rightarrow> valid_dt r \<and> r \<le> c \<and> limit \<le> r \<and> M r \<and> (\<forall>x. valid_dt x \<and> x \<le> c \<and> r < x \<longrightarrow> \<not> M x)
    | None \<Rightarrow> \<forall>x. valid_dt x \<and> x \<le> c \<and> limit \<le> x \<longrightarrow> \<not> M x)"

lemma first_match_skip:
  assumes "first_match M limit c' r" "c < c'" "\<And>x. valid_dt x \<Longrightarrow> c \<le> x \<Longrightarrow> x < c' \<Longrightarrow> \<not> M x"
  shows "first_match M limit c r"
proof -
  have none: "\<not> M x" if "\<forall>x. valid_dt x \<and> c' \<le> x \<and> P x \<longrightarrow> \<not> M x" "valid_dt x" "c \<le> x" "P x" for P x
    using that assms(3) [of x] leI [of x c'] by blast
  show ?thesis
  proof (cases r)
    case None
    then show ?thesis using assms(1) none [of "\<lambda>x. x \<le> limit"] unfolding first_match_def by (simp only: option.case) blast
  next
    case (Some y)
    then have "c \<le> y" using assms(1,2) unfolding first_match_def by (auto intro: order.trans [OF less_imp_le])
    then show ?thesis using Some assms(1) none [of "\<lambda>x. x < y"] unfolding first_match_def
      by (simp only: option.case) blast
  qed
qed

lemma last_match_skip:
  assumes "last_match M limit c' r" "c' < c" "\<And>x. valid_dt x \<Longrightarrow> x \<le> c \<Longrightarrow> c' < x \<Longrightarrow> \<not> M x"
  shows "last_match M limit c r"
proof -
  have "\<not> M x" if "\<forall>x. valid_dt x \<and> x \<le> c' \<and> P x \<longrightarrow> \<not> M x" "valid_dt x" "x \<le> c" "P x" for P x
    using that assms(3) [of x] leI [of c' x] by blast
  moreover have "x \<le> c' \<Longrightarrow> x \<le> c" for x using assms(2) less_imp_le order.trans by blast
  ultimately show ?thesis using assms(1) unfolding last_match_def
    by (cases r; simp only: option.case) blast+
qed

text \<open>The five ways a turn of a loop goes.\<close>

lemma turn_cases:
  obtains (month) "dt_month c \<notin> months e"
    | (day) "dt_month c \<in> months e" "\<not> date_matches e (fst c)"
    | (hour) "dt_month c \<in> months e" "date_matches e (fst c)" "fst (snd c) \<notin> hours e"
    | (minute) "dt_month c \<in> months e" "date_matches e (fst c)" "fst (snd c) \<in> hours e" "snd (snd c) \<notin> minutes e"
    | (found) "cron_matches e c"
  by (auto simp: cron_matches_def)

lemma next_search_nearest:
  assumes "valid_dt c" "valid_dt limit"
  shows "first_match (cron_matches e) limit c (next_search e limit c)"
  using assms
proof (induction e limit c rule: next_search.induct)
  case (1 e limit c)
  note v = 1(5,6) and step = next_search.simps [of e limit c]
  have jump: ?case if "next_search e limit c = next_search e limit c'" "valid_dt c' \<and> c < c'"
    "\<And>x. valid_dt x \<Longrightarrow> c \<le> x \<Longrightarrow> x < c' \<Longrightarrow> \<not> cron_matches e x"
    "first_match (cron_matches e) limit c' (next_search e limit c')" for c'
    unfolding that(1) using first_match_skip [OF that(4)] that(2,3) by blast
  show ?case
  proof (cases "c \<le> limit")
    case False
    then have "next_search e limit c = None" by (simp add: step)
    then show ?thesis using False order.trans unfolding first_match_def by (simp only: option.case) blast
  next
    case le: True
    show ?thesis
    proof (cases c e rule: turn_cases)
      case month
      then have "next_search e limit c = next_search e limit (advance_month c)" using v le by (simp add: step)
      then show ?thesis
      proof (rule jump [OF _ advance_month_step [OF v(1)]])
        show "first_match (cron_matches e) limit (advance_month c) (next_search e limit (advance_month c))"
          using 1(1) month v le advance_month_step [OF v(1)] by blast
        show "\<not> cron_matches e x" if "valid_dt x" "c \<le> x" "x < (advance_month c)" for x
          using advance_month_skips [OF v(1) that] month by (simp add: cron_matches_def)
      qed
    next
      case day
      then have "next_search e limit c = next_search e limit (next_midnight c)" using v le by (simp add: step)
      then show ?thesis
      proof (rule jump [OF _ next_midnight_step [OF v(1)]])
        show "first_match (cron_matches e) limit (next_midnight c) (next_search e limit (next_midnight c))"
          using 1(2) day v le next_midnight_step [OF v(1)] by blast
        show "\<not> cron_matches e x" if "valid_dt x" "c \<le> x" "x < (next_midnight c)" for x
          using next_midnight_skips [OF v(1) that] day by (simp add: cron_matches_def)
      qed
    next
      case hour
      then have "next_search e limit c = next_search e limit (next_full_hour c)" using v le by (simp add: step)
      then show ?thesis
      proof (rule jump [OF _ next_full_hour_step [OF v(1)]])
        show "first_match (cron_matches e) limit (next_full_hour c) (next_search e limit (next_full_hour c))"
          using 1(3) hour v le next_full_hour_step [OF v(1)] by blast
        show "\<not> cron_matches e x" if "valid_dt x" "c \<le> x" "x < (next_full_hour c)" for x
          using next_full_hour_skips [OF v(1) that] hour by (simp add: cron_matches_def)
      qed
    next
      case minute
      then have "next_search e limit c = next_search e limit (plus_minute c)" using v le by (simp add: step)
      then show ?thesis
      proof (rule jump [OF _ plus_minute_step [OF v(1)]])
        show "first_match (cron_matches e) limit (plus_minute c) (next_search e limit (plus_minute c))"
          using 1(4) minute v le plus_minute_step [OF v(1)] by blast
        show "\<not> cron_matches e x" if "valid_dt x" "c \<le> x" "x < (plus_minute c)" for x
          using plus_minute_skips [OF v(1) that] minute by (simp add: cron_matches_def)
      qed
    next
      case found
      then have "next_search e limit c = Some c" using v le by (simp add: step cron_matches_def)
      then show ?thesis using found v le unfolding first_match_def by (simp only: option.case) (meson leD order_refl)
    qed
  qed
qed

lemma prev_search_nearest:
  assumes "valid_dt c" "valid_dt limit"
  shows "last_match (cron_matches e) limit c (prev_search e limit c)"
  using assms
proof (induction e limit c rule: prev_search.induct)
  case (1 e limit c)
  note v = 1(5,6) and step = prev_search.simps [of e limit c]
  have jump: ?case if "prev_search e limit c = prev_search e limit c'" "valid_dt c' \<and> c' < c"
    "\<And>x. valid_dt x \<Longrightarrow> x \<le> c \<Longrightarrow> c' < x \<Longrightarrow> \<not> cron_matches e x"
    "last_match (cron_matches e) limit c' (prev_search e limit c')" for c'
    unfolding that(1) using last_match_skip [OF that(4)] that(2,3) by blast
  show ?case
  proof (cases "limit \<le> c")
    case False
    then have "prev_search e limit c = None" by (simp add: step)
    then show ?thesis using False order.trans unfolding last_match_def by (simp only: option.case) blast
  next
    case le: True
    show ?thesis
    proof (cases c e rule: turn_cases)
      case month
      then have "prev_search e limit c = prev_search e limit (retreat_month c)" using v le by (simp add: step)
      then show ?thesis
      proof (rule jump [OF _ retreat_month_step [OF v(1)]])
        show "last_match (cron_matches e) limit (retreat_month c) (prev_search e limit (retreat_month c))"
          using 1(1) month v le retreat_month_step [OF v(1)] by blast
        show "\<not> cron_matches e x" if "valid_dt x" "x \<le> c" "(retreat_month c) < x" for x
          using retreat_month_skips [OF v(1) that] month by (simp add: cron_matches_def)
      qed
    next
      case day
      then have "prev_search e limit c = prev_search e limit (last_minute_before c)" using v le by (simp add: step)
      then show ?thesis
      proof (rule jump [OF _ last_minute_before_step [OF v(1)]])
        show "last_match (cron_matches e) limit (last_minute_before c) (prev_search e limit (last_minute_before c))"
          using 1(2) day v le last_minute_before_step [OF v(1)] by blast
        show "\<not> cron_matches e x" if "valid_dt x" "x \<le> c" "(last_minute_before c) < x" for x
          using last_minute_before_skips [OF v(1) that] day by (simp add: cron_matches_def)
      qed
    next
      case hour
      then have "prev_search e limit c = prev_search e limit (hour_before c)" using v le by (simp add: step)
      then show ?thesis
      proof (rule jump [OF _ hour_before_step [OF v(1)]])
        show "last_match (cron_matches e) limit (hour_before c) (prev_search e limit (hour_before c))"
          using 1(3) hour v le hour_before_step [OF v(1)] by blast
        show "\<not> cron_matches e x" if "valid_dt x" "x \<le> c" "(hour_before c) < x" for x
          using hour_before_skips [OF v(1) that] hour by (simp add: cron_matches_def)
      qed
    next
      case minute
      then have "prev_search e limit c = prev_search e limit (minus_minute c)" using v le by (simp add: step)
      then show ?thesis
      proof (rule jump [OF _ minus_minute_step [OF v(1)]])
        show "last_match (cron_matches e) limit (minus_minute c) (prev_search e limit (minus_minute c))"
          using 1(4) minute v le minus_minute_step [OF v(1)] by blast
        show "\<not> cron_matches e x" if "valid_dt x" "x \<le> c" "(minus_minute c) < x" for x
          using minus_minute_skips [OF v(1) that] minute by (simp add: cron_matches_def)
      qed
    next
      case found
      then have "prev_search e limit c = Some c" using v le by (simp add: step cron_matches_def)
      then show ?thesis using found v le unfolding last_match_def by (simp only: option.case) (meson leD order_refl)
    qed
  qed
qed

section \<open>Days back and forth\<close>

lemma plus_days_valid: "valid_dt c \<Longrightarrow> valid_dt (plus_days n c)"
proof -
  have "valid_date dt \<Longrightarrow> valid_date ((next_day ^^ n) dt)" for dt by (induction n) (auto simp: next_day_valid)
  then show "valid_dt c \<Longrightarrow> valid_dt (plus_days n c)" by (cases c) (simp add: plus_days_def)
qed

lemma minus_days_valid: "valid_dt c \<Longrightarrow> valid_dt (minus_days n c)"
proof -
  have "valid_date dt \<Longrightarrow> valid_date ((prev_day ^^ n) dt)" for dt by (induction n) (auto simp: prev_day_valid)
  then show "valid_dt c \<Longrightarrow> valid_dt (minus_days n c)" by (cases c) (simp add: minus_days_def)
qed

lemma prev_next_day: "valid_date dt \<Longrightarrow> prev_day (next_day dt) = dt"
  by (cases dt) (auto simp: december)

lemma prev_day_mono: "valid_date a \<Longrightarrow> valid_date b \<Longrightarrow> a < b \<Longrightarrow> prev_day a < prev_day b"
  using prev_day_greatest [of b a] prev_day_less [of a] by (metis less_le_trans)

lemma minus_days_Suc: "minus_days (Suc n) c = minus_days 1 (minus_days n c)"
  by (simp add: minus_days_def)

lemma minus_days_mono: "valid_dt a \<Longrightarrow> valid_dt b \<Longrightarrow> a < b \<Longrightarrow> minus_days n a < minus_days n b"
proof (induction n)
  case 0
  then show ?case by (simp add: minus_days_def)
next
  case (Suc n)
  have one: "x < y \<Longrightarrow> valid_dt x \<Longrightarrow> valid_dt y \<Longrightarrow> minus_days 1 x < minus_days 1 y" for x y
    using prev_day_mono by (cases x; cases y) (auto simp: minus_days_def dt_less simp del: less_prod_simp)
  show ?case unfolding minus_days_Suc [of n]
    by (rule one [OF Suc.IH]) (use Suc.prems in \<open>simp_all add: minus_days_valid\<close>)
qed

lemma minus_days_le: "valid_dt c \<Longrightarrow> minus_days n c \<le> c"
proof (cases c)
  case (fields dt h mi)
  assume "valid_dt c"
  then have v: "valid_date dt" using fields by simp
  have "valid_date ((prev_day ^^ n) dt) \<and> (prev_day ^^ n) dt \<le> dt"
  proof (induction n)
    case (Suc n)
    then show ?case using prev_day_valid prev_day_less [of "(prev_day ^^ n) dt"] by auto
  qed (use v in simp)
  then show ?thesis using fields by (auto simp: minus_days_def le_less)
qed

lemma minus_plus_days: "valid_dt c \<Longrightarrow> minus_days n (plus_days n c) = c"
proof -
  have pull: "(prev_day ^^ Suc n) z = (prev_day ^^ n) (prev_day z)" for n z by (simp add: funpow_swap1)
  have "valid_date dt \<Longrightarrow> valid_date ((next_day ^^ n) dt) \<and> (prev_day ^^ n) ((next_day ^^ n) dt) = dt" for dt
    by (induction n) (simp_all add: next_day_valid prev_next_day pull del: funpow.simps(2) prev_day.simps next_day.simps
        add: funpow.simps(2) [of _ next_day])
  then show "valid_dt c \<Longrightarrow> minus_days n (plus_days n c) = c" by (cases c) (simp add: plus_days_def minus_days_def)
qed

section \<open>Guarantees of the searches\<close>

lemma after_iff: "valid_dt c \<Longrightarrow> valid_dt x \<Longrightarrow> plus_minute c \<le> x \<longleftrightarrow> c < x"
  using plus_minute_skips [of c x] plus_minute_step [of c] by (metis le_less less_le_trans not_le)

lemma next_after_match:
  assumes "valid_dt (fst now)"
  shows "first_match (cron_matches e) (plus_days (MAX_SEARCH_YEARS * 366) (plus_minute (fst now))) (plus_minute (fst now))
    (next_search e (plus_days (MAX_SEARCH_YEARS * 366) (plus_minute (fst now))) (plus_minute (fst now)))"
  using plus_minute_step [OF assms] by (intro next_search_nearest plus_days_valid) auto

text \<open>
  C9. \<open>next_after\<close> is exact: its result is a time of the expression strictly after the given moment
  and no such time lies between them; and when it raises, no time of the expression lies in the next
  five years of 366 days. The jumps over months, days and hours lose nothing.
\<close>

theorem cron_next_after_exact:
  assumes "valid_dt (fst now)" "0 \<le> snd now" "snd now < 60"
  shows "case next_after e now of
      Inr r \<Rightarrow> valid_dt r \<and> cron_matches e r \<and> now < (r, 0) \<and>
        (\<forall>x. valid_dt x \<and> now < (x, 0) \<and> x < r \<longrightarrow> \<not> cron_matches e x)
    | Inl err \<Rightarrow> err = NoMatch \<and>
        (\<forall>x. valid_dt x \<and> now < (x, 0) \<and> x \<le> plus_days 1830 (plus_minute (fst now)) \<longrightarrow> \<not> cron_matches e x)"
proof -
  have later: "now < (x, 0) \<longleftrightarrow> fst now < x" for x :: datetime
    using assms(2) by (cases now) (auto simp: less_prod_def le_less)
  have after: "plus_minute (fst now) \<le> x \<longleftrightarrow> fst now < x" if "valid_dt x" for x
    by (rule after_iff [OF assms(1) that])
  let ?r = "next_search e (plus_days (MAX_SEARCH_YEARS * 366) (plus_minute (fst now))) (plus_minute (fst now))"
  note match = next_after_match [OF assms(1), of e]
  have n: "MAX_SEARCH_YEARS * 366 = 1830" by (simp add: MAX_SEARCH_YEARS_def)
  show ?thesis
  proof (cases ?r)
    case None
    then show ?thesis using match after unfolding first_match_def next_after_def Let_def later n
      by (simp only: option.case sum.case) blast
  next
    case (Some r)
    then show ?thesis using match after unfolding first_match_def next_after_def Let_def later
      by (simp only: option.case sum.case) blast
  qed
qed

theorem cron_next_after_exact_witness:
  "case next_after \<lparr>minutes = {30}, hours = {2}, days = {1..31}, months = {1..12}, weekdays = {0..6},
        dom_restricted = False, dow_restricted = False\<rparr> (((2024, 2, 28), 2, 30), 5) of
      Inr r \<Rightarrow> valid_dt r \<and> (((2024, 2, 28), 2, 30), 5) < (r, 0) | Inl err \<Rightarrow> err = NoMatch"
  using cron_next_after_exact [of "(((2024, 2, 28), 2, 30), 5)" "\<lparr>minutes = {30}, hours = {2}, days = {1..31},
      months = {1..12}, weekdays = {0..6}, dom_restricted = False, dow_restricted = False\<rparr>"]
  by (simp add: days_in_month_def is_leap_def split: sum.splits del: split_paired_All)

text \<open>
  The task wakes for the fire it slept for: from a fire \<open>r\<close> until the fire after it, the most
  recent time at or before now is \<open>r\<close>, however late within that span the wake-up comes.
\<close>

theorem cron_due_is_last_fire:
  assumes "valid_dt r" "cron_matches e r" "next_after e (r, 0) = Inr r'"
    and "valid_dt (fst now)" "r \<le> fst now" "fst now < r'"
  shows "previous_or_equal e now = Some r"
proof -
  let ?n = "MAX_SEARCH_YEARS * 366"
  let ?limit = "minus_days ?n (fst now)"
  have m: "first_match (cron_matches e) (plus_days ?n (plus_minute r)) (plus_minute r) (Some r')"
    using next_after_match [of "(r, 0)" e] assms(1,3) by (simp add: next_after_def Let_def split: option.splits)
  then have r': "r' \<le> plus_days ?n (plus_minute r)" "valid_dt r'" by (simp_all add: first_match_def)
  have gap: "\<not> cron_matches e x" if "valid_dt x" "r < x" "x < r'" for x
    using m that iffD2 [OF after_iff [OF assms(1) that(1)]] unfolding first_match_def by (simp only: option.case) blast
  have pm: "valid_dt (plus_minute r)" using plus_minute_step [OF assms(1)] by blast
  have "fst now < plus_days ?n (plus_minute r)" using assms(6) r'(1) by (rule less_le_trans)
  from minus_days_mono [OF assms(4) plus_days_valid [OF pm] this, of ?n]
  have "?limit < plus_minute r" by (simp add: minus_plus_days [OF pm])
  then have lim: "?limit \<le> r" using after_iff [OF assms(1) minus_days_valid [OF assms(4)]] by (simp add: not_le [symmetric])
  have "last_match (cron_matches e) ?limit (fst now) (prev_search e ?limit (fst now))"
    by (intro prev_search_nearest assms(4) minus_days_valid)
  then show ?thesis
  proof (cases "prev_search e ?limit (fst now)")
    case None
    with \<open>last_match _ _ _ _\<close> lim assms show ?thesis unfolding last_match_def by (simp only: option.case) 
  next
    case (Some x)
    with \<open>last_match _ _ _ _\<close> have x: "valid_dt x" "x \<le> fst now" "cron_matches e x"
        "\<And>y. valid_dt y \<Longrightarrow> y \<le> fst now \<Longrightarrow> x < y \<Longrightarrow> \<not> cron_matches e y"
      unfolding last_match_def by (simp_all only: option.case) blast+
    have "\<not> r < x" using gap [OF x(1)] x(2,3) assms(6) by (meson le_less_trans)
    moreover have "\<not> x < r" using x(4) [of r] assms(1,2,5) by blast
    ultimately show ?thesis using Some by (simp add: previous_or_equal_def)
  qed
qed

theorem cron_due_is_last_fire_witness:
  "previous_or_equal \<lparr>minutes = {0..59}, hours = {0..23}, days = {1..31}, months = {1..12}, weekdays = {0..6},
      dom_restricted = False, dow_restricted = False\<rparr> (((2024, 12, 31), 23, 59), 7) = Some ((2024, 12, 31), 23, 59)"
proof -
  let ?e = "\<lparr>minutes = {0..59}, hours = {0..23}, days = {1..31}, months = {1..12}, weekdays = {0..6},
      dom_restricted = False, dow_restricted = False\<rparr>"
  let ?r = "((2024, 12, 31), 23, 59) :: datetime"
  let ?r' = "((2025, 1, 1), 0, 0) :: datetime"
  let ?limit = "plus_days (MAX_SEARCH_YEARS * 366) ?r'"
  have v: "valid_dt ?r" "valid_dt ?r'" by (simp_all add: days_in_month_def)
  have "dt \<le> (next_day ^^ n) dt" for dt n
    by (induction n) (auto intro: order.trans [OF _ less_imp_le [OF next_day_less]])
  then have "?r' \<le> ?limit" by (simp add: plus_days_def dt_le le_less del: less_eq_prod_simp)
  then have "next_search ?e ?limit ?r' = Some ?r'"
    using v plus_days_valid [OF v(2)] by (simp add: next_search.simps [of _ _ ?r'] date_matches_def)
  then have "next_after ?e (?r, 0) = Inr ?r'" by (simp add: next_after_def december)
  from cron_due_is_last_fire [OF v(1) _ this, of "(?r, 7)"] v show ?thesis
    by (simp add: cron_matches_def date_matches_def)
qed

section \<open>What a field denotes\<close>

text \<open>The parts a field may have, how they are written and which values they stand for.\<close>

datatype field_part = Star | Star_Step nat | Value nat | Range nat nat | Range_Step nat nat nat

fun print_part :: "field_part \<Rightarrow> string" where
  "print_part Star = ''*''"
| "print_part (Star_Step s) = ''*/'' @ show_nat s"
| "print_part (Value v) = show_nat v"
| "print_part (Range a b) = show_nat a @ ''-'' @ show_nat b"
| "print_part (Range_Step a b s) = show_nat a @ ''-'' @ show_nat b @ ''/'' @ show_nat s"

fun part_values :: "int \<Rightarrow> int \<Rightarrow> field_part \<Rightarrow> int set" where
  "part_values low high Star = {low..high}"
| "part_values low high (Star_Step s) = {v. low \<le> v \<and> v \<le> high \<and> (v - low) mod int s = 0}"
| "part_values low high (Value v) = {int v}"
| "part_values low high (Range a b) = {int a..int b}"
| "part_values low high (Range_Step a b s) = {v. int a \<le> v \<and> v \<le> int b \<and> (v - int a) mod int s = 0}"

fun part_ok :: "int \<Rightarrow> int \<Rightarrow> field_part \<Rightarrow> bool" where
  "part_ok low high Star = True"
| "part_ok low high (Star_Step s) = (0 < s)"
| "part_ok low high (Value v) = (low \<le> int v \<and> int v \<le> high)"
| "part_ok low high (Range a b) = (low \<le> int a \<and> a \<le> b \<and> int b \<le> high)"
| "part_ok low high (Range_Step a b s) = (low \<le> int a \<and> a \<le> b \<and> int b \<le> high \<and> 0 < s)"

lemma py_range_set: "py_range a (b + 1) s = {v. a \<le> v \<and> v \<le> b \<and> (v - a) mod s = 0}"
  by (auto simp: py_range_def)

lemma show_nat_plain: "x \<in> set (show_nat n) \<Longrightarrow> is_digit x"
  using show_nat_digits [of n] by (simp add: list_all_iff)

lemma show_nat_free [simp]:
  "CHR ''-'' \<notin> set (show_nat n)" "CHR ''/'' \<notin> set (show_nat n)" "CHR '','' \<notin> set (show_nat n)"
  "CHR ''_'' \<notin> set (show_nat n)" "CHR ''*'' \<notin> set (show_nat n)" "CHR ''+'' \<notin> set (show_nat n)"
  using show_nat_plain [of _ n] by (auto simp: is_digit_def dest!: show_nat_plain)

lemma read_int_show [simp]: "read_int (show_nat n) = Some (int n)"
proof (cases "show_nat n")
  case (Cons c cs)
  then have "c \<noteq> CHR ''-''" "c \<noteq> CHR ''+''" using show_nat_free(1,6) [of n] by auto
  then have "read_int (show_nat n) = read_unsigned (show_nat n)" by (simp add: Cons)
  then show ?thesis
    by (simp add: read_unsigned_def split_on_free [OF show_nat_free(4)] show_nat_digits read_digits_show)
qed simp

lemma partition_free: "c \<notin> set s \<Longrightarrow> py_partition c s = (s, None)"
  by (simp add: py_partition_def takeWhile_eq_all_conv) (metis)

lemma partition_at: "c \<notin> set p \<Longrightarrow> py_partition c (p @ c # s) = (p, Some s)"
  by (induction p) (auto simp: py_partition_def)

lemma parse_part_print:
  assumes "part_ok low high p"
  shows "parse_part low high (print_part p) = Inr (part_values low high p)"
  using assms
proof (cases p)
  case Star
  then show ?thesis by (simp add: parse_part_def py_partition_def parse_bounds_def py_range_set atLeastAtMost_def
        atLeast_def atMost_def Collect_conj_eq)
next
  case (Star_Step s)
  then show ?thesis using assms partition_at [of "CHR ''/''" "''*''" "show_nat s"]
    by (simp add: parse_part_def parse_step_def parse_bounds_def py_range_set)
next
  case (Value v)
  have "show_nat v \<noteq> ''*''" using show_nat_free(5) [of v] by (metis list.set_intros(1))
  with Value show ?thesis using assms
    by (auto simp: parse_part_def partition_free parse_bounds_def py_range_set)
next
  case (Range a b)
  have "show_nat a @ ''-'' @ show_nat b \<noteq> ''*''" using show_nat_free(5) [of a] by (cases "show_nat a") auto
  with Range show ?thesis using assms partition_at [of "CHR ''-''" "show_nat a" "show_nat b"]
    partition_free [of "CHR ''/''" "show_nat a @ ''-'' @ show_nat b"]
    by (auto simp: parse_part_def parse_bounds_def py_range_set)
next
  case (Range_Step a b s)
  have "show_nat a @ ''-'' @ show_nat b \<noteq> ''*''" using show_nat_free(5) [of a] by (cases "show_nat a") auto
  with Range_Step show ?thesis using assms partition_at [of "CHR ''-''" "show_nat a" "show_nat b"]
    partition_at [of "CHR ''/''" "show_nat a @ ''-'' @ show_nat b" "show_nat s"]
    by (auto simp: parse_part_def parse_step_def parse_bounds_def py_range_set)
qed

lemma print_part_free: "CHR '','' \<notin> set (print_part p)"
  by (cases p) auto

lemma parse_parts_print:
  "list_all (part_ok low high) ps \<Longrightarrow>
   parse_parts low high vs (map print_part ps) = Inr (vs \<union> (\<Union>p \<in> set ps. part_values low high p))"
  by (induction ps arbitrary: vs) (auto simp: parse_part_print)

text \<open>
  A field parses to what it says: any comma list of \<open>*\<close>, \<open>*/s\<close>, \<open>v\<close>, \<open>a-b\<close> and \<open>a-b/s\<close>, within
  the bounds of the field and with positive steps, parses to the union of the values its parts
  denote.
\<close>

theorem cron_field_denotes:
  assumes "ps \<noteq> []" "list_all (part_ok low high) ps"
  shows "parse_field (join_with (CHR '','') (map print_part ps)) low high =
    Inr (\<Union>p \<in> set ps. part_values low high p)"
proof -
  have "split_on (CHR '','') (join_with (CHR '','') (map print_part ps)) = map print_part ps"
    using assms(1) print_part_free by (intro split_join) auto
  then show ?thesis using parse_parts_print [OF assms(2), of "{}"] by (simp add: parse_field_def)
qed

theorem cron_field_denotes_witness:
  "parse_field (join_with (CHR '','') (map print_part [Value 7, Range_Step 10 30 5])) 0 59 =
     Inr (\<Union>p \<in> set [Value 7, Range_Step 10 30 5]. part_values 0 59 p)"
  by (rule cron_field_denotes) simp_all

text \<open>What is parsed stays within the bounds of the field.\<close>

lemma parse_part_bounds: "parse_part low high p = Inr vs \<Longrightarrow> vs \<subseteq> {low..high}"
  by (auto simp: parse_part_def py_range_def split: if_splits prod.splits sum.splits option.splits)

lemma parse_field_bounds: "parse_field f low high = Inr vs \<Longrightarrow> vs \<subseteq> {low..high}"
proof -
  have "parse_parts low high ws ps = Inr vs \<Longrightarrow> ws \<subseteq> {low..high} \<Longrightarrow> vs \<subseteq> {low..high}" for ws ps
    by (induction ps arbitrary: ws) (auto split: sum.splits dest!: parse_part_bounds)
  then show "parse_field f low high = Inr vs \<Longrightarrow> vs \<subseteq> {low..high}" by (simp add: parse_field_def)
qed

end
