(* ===== verification/Cron_Task.thy ===== *)
theory Cron_Task
  imports Cron_Expr
begin

text \<open>
  Distributed cron (\<open>task/_cron.py\<close>, \<open>CronTask\<close>) on a schedule backend (\<open>coordination/_protocol.py\<close>,
  \<open>coordination/memory.py\<close>). A tick reads the last fire of the schedule, decides, claims, enters the
  \<open>sync\<close> primitive and runs the body; the coroutine suspends between any two of these, so each is a step
  of a worker and the runs below interleave them freely. Instants are POSIX timestamps; the timestamp of
  a local datetime depends on the time zone data and is a parameter.

  The contract of a schedule backend is the locale \<open>schedule_laws\<close>, interpreted on the in-memory
  adapter; in it, each fire of a schedule is won at most once and in order, and its body starts at most once.
\<close>

section \<open>The schedule backend\<close>

record 's schedule_backend =
  sb_claim :: "string \<Rightarrow> real \<Rightarrow> 's \<Rightarrow> bool \<times> 's"
  sb_last_fired :: "string \<Rightarrow> 's \<Rightarrow> real option"

type_synonym schedule_store = "(string, real) pydict"

definition memory_claim :: "string \<Rightarrow> real \<Rightarrow> schedule_store \<Rightarrow> bool \<times> schedule_store" where
  "memory_claim name due st =
     (case dget st name of
        Some stored \<Rightarrow> if stored \<ge> due then (False, st) else (True, dput name due st)
      | None \<Rightarrow> (True, dput name due st))"

definition memory_last_fired :: "string \<Rightarrow> schedule_store \<Rightarrow> real option" where
  "memory_last_fired name st = dget st name"

definition memory_schedule_close :: "schedule_store \<Rightarrow> schedule_store" where
  "memory_schedule_close st = []"

definition memory_schedule :: "schedule_store schedule_backend" where
  "memory_schedule = \<lparr>sb_claim = memory_claim, sb_last_fired = memory_last_fired\<rparr>"

section \<open>The task\<close>

datatype fire_outcome = SUCCESS | ERROR | SKIPPED | MISSED | COORDINATION_ERROR

record cron_task =
  ct_name :: string
  ct_expr :: cron_expression
  misfire_grace :: "real option"
  last_fire :: "fire_outcome option"

text \<open>How the \<open>sync\<close> primitive answers; without one the body is always admitted.\<close>

datatype admission = Admitted | WouldBlock | SyncRaised

text \<open>What a tick does once it has read the last fire.\<close>

datatype tick_action = Finish "fire_outcome option" | Baseline real | DropLate real | ClaimRun real

text \<open>Where the coroutine of a worker is suspended: between ticks, before the claim, after a won claim, in the body.\<close>

datatype tick_phase = Idle | Decided tick_action | Won real | Running real

definition tick_decide ::
  "(datetime \<Rightarrow> real) \<Rightarrow> cron_task \<Rightarrow> bool \<Rightarrow> moment \<Rightarrow> real \<Rightarrow> real option \<Rightarrow> tick_action"
where
  "tick_decide timestamp task catchup now now_ts stored =
     (case previous_or_equal (ct_expr task) now of
        None \<Rightarrow> Finish None
      | Some due_dt \<Rightarrow>
          let due = timestamp due_dt in
          case stored of
            None \<Rightarrow> Baseline due
          | Some fired \<Rightarrow>
              if due \<le> fired then Finish (if catchup then None else Some SKIPPED)
              else if (case misfire_grace task of None \<Rightarrow> False | Some g \<Rightarrow> now_ts - due > g) then DropLate due
              else ClaimRun due)"

text \<open>The claim: the outcome it reports, where the worker goes on, and the backend.\<close>

fun tick_claim ::
  "'s schedule_backend \<Rightarrow> string \<Rightarrow> tick_action \<Rightarrow> 's \<Rightarrow> fire_outcome option \<times> tick_phase \<times> 's"
where
  "tick_claim sb name (Finish report) st = (report, Idle, st)"
| "tick_claim sb name (Baseline due) st = (None, Idle, snd (sb_claim sb name due st))"
| "tick_claim sb name (DropLate due) st =
     (case sb_claim sb name due st of (won, st1) \<Rightarrow> (Some (if won then MISSED else SKIPPED), Idle, st1))"
| "tick_claim sb name (ClaimRun due) st =
     (case sb_claim sb name due st of (won, st1) \<Rightarrow>
        if won then (None, Won due, st1) else (Some SKIPPED, Idle, st1))"

text \<open>
  \<open>_run\<close> up to the start of the body, with what the caller makes of a refusal: a miss after a won claim, a skip
  without a backend; any other exception before the body starts is a coordination error.
\<close>

fun run_admit :: "fire_outcome \<Rightarrow> admission \<Rightarrow> real \<Rightarrow> fire_outcome option \<times> tick_phase" where
  "run_admit blocked Admitted due = (None, Running due)"
| "run_admit blocked WouldBlock due = (Some blocked, Idle)"
| "run_admit blocked SyncRaised due = (Some COORDINATION_ERROR, Idle)"

text \<open>
  \<open>_run_body\<close> reports when the body returned, raised or was cancelled. What the \<open>sync\<close> primitive raises on exit after that
  changes nothing: the body has already reported.
\<close>

definition body_outcome :: "bool \<Rightarrow> fire_outcome" where
  "body_outcome ok = (if ok then SUCCESS else ERROR)"

text \<open>Without a backend every scheduled tick runs the body, and the start-up tick does nothing.\<close>

definition tick_local :: "(datetime \<Rightarrow> real) \<Rightarrow> cron_task \<Rightarrow> bool \<Rightarrow> moment \<Rightarrow> admission \<Rightarrow> fire_outcome option \<times> tick_phase" where
  "tick_local timestamp task catchup now adm =
     (case previous_or_equal (ct_expr task) now of
        None \<Rightarrow> (None, Idle)
      | Some due \<Rightarrow> if catchup then (None, Idle) else run_admit SKIPPED adm (timestamp due))"

definition report_fire :: "fire_outcome option \<Rightarrow> cron_task \<Rightarrow> cron_task" where
  "report_fire r task = (case r of None \<Rightarrow> task | Some x \<Rightarrow> task\<lparr>last_fire := Some x\<rparr>)"

section \<open>Many workers\<close>

text \<open>\<open>claims\<close> lists the fires that were claimed to be run, \<open>fired\<close> those whose body started, each in the order of the events.\<close>

record 's cron_world =
  workers :: "nat \<Rightarrow> cron_task"
  phase :: "nat \<Rightarrow> tick_phase"
  store :: 's
  claims :: "(string \<times> real) list"
  fired :: "(string \<times> real) list"

text \<open>
  \<open>ReadStep\<close>: a worker reads the clock and the last fire. \<open>ReadFails\<close> and \<open>ClaimFails\<close>: the backend
  raises, which is reported as a coordination error; a claim may have been applied although its answer is lost. \<open>AdmitStep\<close>: the
  \<open>sync\<close> primitive answers, and the body starts when it admits. \<open>BodyEnds\<close>: the body returned or raised. \<open>Cancelled\<close>: the task is cancelled
  wherever it waits.
\<close>

datatype cron_event =
    ReadStep nat bool moment real
  | ReadFails nat
  | ClaimStep nat
  | ClaimFails nat bool
  | AdmitStep nat admission
  | BodyEnds nat bool
  | Cancelled nat

fun goes_on :: "nat \<Rightarrow> fire_outcome option \<times> tick_phase \<Rightarrow> 's cron_world \<Rightarrow> 's cron_world" where
  "goes_on i (r, ph) w = w\<lparr>workers := (workers w)(i := report_fire r (workers w i)), phase := (phase w)(i := ph)\<rparr>"

fun cron_step :: "'s schedule_backend \<Rightarrow> (datetime \<Rightarrow> real) \<Rightarrow> cron_event \<Rightarrow> 's cron_world \<Rightarrow> 's cron_world" where
  "cron_step sb ts (ReadStep i catchup now now_ts) w =
     (if phase w i = Idle then goes_on i (None, Decided (tick_decide ts (workers w i) catchup now now_ts
         (sb_last_fired sb (ct_name (workers w i)) (store w)))) w else w)"
| "cron_step sb ts (ReadFails i) w =
     (if phase w i = Idle then goes_on i (Some COORDINATION_ERROR, Idle) w else w)"
| "cron_step sb ts (ClaimStep i) w =
     (case phase w i of
        Decided a \<Rightarrow>
          (case tick_claim sb (ct_name (workers w i)) a (store w) of
             (r, ph, st) \<Rightarrow>
               goes_on i (r, ph) (w\<lparr>store := st,
                 claims := (case ph of Won due \<Rightarrow> claims w @ [(ct_name (workers w i), due)] | _ \<Rightarrow> claims w)\<rparr>))
      | _ \<Rightarrow> w)"
| "cron_step sb ts (ClaimFails i applied) w =
     (case phase w i of
        Decided (Finish r) \<Rightarrow> w
      | Decided a \<Rightarrow>
          goes_on i (Some COORDINATION_ERROR, Idle)
            (if applied then w\<lparr>store := snd (snd (tick_claim sb (ct_name (workers w i)) a (store w)))\<rparr> else w)
      | _ \<Rightarrow> w)"
| "cron_step sb ts (AdmitStep i adm) w =
     (case phase w i of
        Won due \<Rightarrow>
          goes_on i (run_admit MISSED adm due)
            (if adm = Admitted then w\<lparr>fired := fired w @ [(ct_name (workers w i), due)]\<rparr> else w)
      | _ \<Rightarrow> w)"
| "cron_step sb ts (BodyEnds i ok) w =
     (case phase w i of Running due \<Rightarrow> goes_on i (Some (body_outcome ok), Idle) w | _ \<Rightarrow> w)"
| "cron_step sb ts (Cancelled i) w =
     goes_on i (case phase w i of Running due \<Rightarrow> Some ERROR | _ \<Rightarrow> None, Idle) w"

definition cron_run :: "'s schedule_backend \<Rightarrow> (datetime \<Rightarrow> real) \<Rightarrow> cron_event list \<Rightarrow> 's cron_world \<Rightarrow> 's cron_world" where
  "cron_run sb ts es w = fold (cron_step sb ts) es w"

abbreviation fires_of :: "string \<Rightarrow> (string \<times> real) list \<Rightarrow> real list" where
  "fires_of n xs \<equiv> map snd (filter (\<lambda>x. fst x = n) xs)"

text \<open>No worker is in a tick and nothing has been claimed or run.\<close>

definition cron_fresh :: "'s cron_world \<Rightarrow> bool" where
  "cron_fresh w \<longleftrightarrow> phase w = (\<lambda>i. Idle) \<and> claims w = [] \<and> fired w = []"

lemma ct_name_report [simp]: "ct_name (report_fire r task) = ct_name task"
  by (simp add: report_fire_def split: option.split)

lemma distinct_fires_of: "distinct xs \<Longrightarrow> distinct (fires_of n xs)"
  by (auto simp: distinct_map inj_on_def)

section \<open>The contract of a schedule backend\<close>

locale schedule_laws =
  fixes sb :: "'s schedule_backend"
  assumes wins: "fst (sb_claim sb n due st) \<longleftrightarrow>
      (case sb_last_fired sb n st of None \<Rightarrow> True | Some s \<Rightarrow> s < due)"
    and stores: "sb_last_fired sb n (snd (sb_claim sb n due st)) =
      (if fst (sb_claim sb n due st) then Some due else sb_last_fired sb n st)"
    and frame: "m \<noteq> n \<Longrightarrow> sb_last_fired sb m (snd (sb_claim sb n due st)) = sb_last_fired sb m st"
begin

text \<open>
  The claims of a schedule grow and are at most the stored fire; a body that started was claimed, once; and a claimed fire
  that has not started belongs to one worker.
\<close>

definition fires_ok :: "'s cron_world \<Rightarrow> bool" where
  "fires_ok w \<longleftrightarrow> (\<forall>n. sorted_wrt (<) (fires_of n (claims w))) \<and>
     (\<forall>(n, d) \<in> set (claims w). \<exists>s. sb_last_fired sb n (store w) = Some s \<and> d \<le> s) \<and>
     distinct (fired w) \<and> set (fired w) \<subseteq> set (claims w) \<and>
     (\<forall>i d. phase w i = Won d \<longrightarrow> (ct_name (workers w i), d) \<in> set (claims w) - set (fired w)) \<and>
     (\<forall>i j d. phase w i = Won d \<longrightarrow> phase w j = Won d \<longrightarrow> ct_name (workers w i) = ct_name (workers w j) \<longrightarrow> i = j)"

lemma fires_okI:
  assumes "\<And>n. sorted_wrt (<) (fires_of n (claims w))"
    and "\<And>n d. (n, d) \<in> set (claims w) \<Longrightarrow> \<exists>s. sb_last_fired sb n (store w) = Some s \<and> d \<le> s"
    and "distinct (fired w)" "set (fired w) \<subseteq> set (claims w)"
    and "\<And>i d. phase w i = Won d \<Longrightarrow> (ct_name (workers w i), d) \<in> set (claims w) - set (fired w)"
    and "\<And>i j d. phase w i = Won d \<Longrightarrow> phase w j = Won d \<Longrightarrow> ct_name (workers w i) = ct_name (workers w j) \<Longrightarrow> i = j"
  shows "fires_ok w"
  using assms unfolding fires_ok_def by fast

lemma claim_grows:
  assumes "sb_last_fired sb n st = Some s"
  shows "\<exists>s'. sb_last_fired sb n (snd (sb_claim sb m due st)) = Some s' \<and> s \<le> s'"
  using assms stores [of n due st] wins [of n due st] frame [of n m due st] by (cases "m = n") auto

lemma tick_claim_grows:
  assumes "sb_last_fired sb n st = Some s"
  shows "\<exists>s'. sb_last_fired sb n (snd (snd (tick_claim sb m a st))) = Some s' \<and> s \<le> s'"
  using assms claim_grows [of n st s m] by (cases a) (auto simp: case_prod_beta split: if_splits)

lemma tick_claim_won:
  assumes "tick_claim sb m a st = (r, Won due, st')"
  shows "sb_last_fired sb m st' = Some due" and "sb_last_fired sb m st = Some s \<Longrightarrow> s < due"
  using assms stores [of m due st] wins [of m due st]
  by (cases a; auto simp: case_prod_beta split: if_splits option.splits)+

text \<open>A step that neither claims nor starts a body: the store only grows and no worker newly holds a claim.\<close>

lemma fires_ok_quiet:
  assumes "fires_ok w" "claims w' = claims w" "fired w' = fired w" "\<And>i. ct_name (workers w' i) = ct_name (workers w i)"
    and "\<And>i d. phase w' i = Won d \<Longrightarrow> phase w i = Won d"
    and "\<And>n s. sb_last_fired sb n (store w) = Some s \<Longrightarrow> \<exists>s'. sb_last_fired sb n (store w') = Some s' \<and> s \<le> s'"
  shows "fires_ok w'"
proof -
  have "\<exists>s. sb_last_fired sb n (store w') = Some s \<and> d \<le> s" if "(n, d) \<in> set (claims w)" for n d
    using assms(1) that assms(6) [of n] unfolding fires_ok_def by (fastforce intro: order.trans)
  then show ?thesis using assms(1-5) unfolding fires_ok_def by auto
qed

lemma goes_on_quiet:
  assumes "fires_ok w" "\<And>d. ph \<noteq> Won d"
  shows "fires_ok (goes_on i (r, ph) w)"
  by (rule fires_ok_quiet [OF assms(1)]) (use assms(2) in \<open>auto split: if_splits\<close>)

lemma fires_ok_claims:
  assumes ok: "fires_ok w" and c: "tick_claim sb (ct_name (workers w i)) a (store w) = (r, Won due, st)"
  shows "fires_ok (goes_on i (r, Won due) (w\<lparr>store := st, claims := claims w @ [(ct_name (workers w i), due)]\<rparr>))"
proof -
  let ?n = "ct_name (workers w i)"
  have keep: "\<exists>s. sb_last_fired sb n st = Some s \<and> d \<le> s" if "(n, d) \<in> set (claims w)" for n d
    using ok that tick_claim_grows [of n "store w" _ ?n a] c unfolding fires_ok_def by (fastforce intro: order.trans)
  have below: "d < due" if "(?n, d) \<in> set (claims w)" for d
    using ok that tick_claim_won(2) [OF c] unfolding fires_ok_def by fastforce
  have new: "(?n, due) \<notin> set (claims w)" using below by blast
  have others: "(ct_name (workers w j), d) \<in> set (claims w) - set (fired w)" if "phase w j = Won d" for j d
    using ok that unfolding fires_ok_def by blast
  have alone: "j = k" if "phase w j = Won d" "phase w k = Won d" "ct_name (workers w j) = ct_name (workers w k)" for j k d
    using ok that unfolding fires_ok_def by blast
  have f: "distinct (fired w)" "set (fired w) \<subseteq> set (claims w)" using ok unfolding fires_ok_def by blast+
  let ?w = "goes_on i (r, Won due) (w\<lparr>store := st, claims := claims w @ [(?n, due)]\<rparr>)"
  have v: "claims ?w = claims w @ [(?n, due)]" "fired ?w = fired w" "store ?w = st" "\<And>j. ct_name (workers ?w j) = ct_name (workers w j)"
    "\<And>j. phase ?w j = (if j = i then Won due else phase w j)" by simp_all
  show ?thesis
  proof (rule fires_okI, unfold v)
    show "sorted_wrt (<) (fires_of n (claims w @ [(?n, due)]))" for n
      using ok below unfolding fires_ok_def by (auto simp: sorted_wrt_append)
    show "\<exists>s. sb_last_fired sb n st = Some s \<and> d \<le> s" if "(n, d) \<in> set (claims w @ [(?n, due)])" for n d
      using that keep tick_claim_won(1) [OF c] by auto
    show "distinct (fired w)" "set (fired w) \<subseteq> set (claims w @ [(?n, due)])" using f by auto
    show "(ct_name (workers w j), d) \<in> set (claims w @ [(?n, due)]) - set (fired w)" if "(if j = i then Won due else phase w j) = Won d" for j d
      using that others [of j d] new f(2) by (cases "j = i") auto
    show "j = k" if "(if j = i then Won due else phase w j) = Won d" "(if k = i then Won due else phase w k) = Won d"
      "ct_name (workers w j) = ct_name (workers w k)" for j k d
      using that others [of j d] others [of k d] alone [of j d k] new by (cases "j = i"; cases "k = i") auto
  qed
qed

lemma fires_ok_starts:
  assumes ok: "fires_ok w" and p: "phase w i = Won due"
  shows "fires_ok (goes_on i (None, Running due) (w\<lparr>fired := fired w @ [(ct_name (workers w i), due)]\<rparr>))"
proof -
  have "(ct_name (workers w i), due) \<in> set (claims w) - set (fired w)" using ok p unfolding fires_ok_def by blast
  moreover have "(ct_name (workers w j), d) \<noteq> (ct_name (workers w i), due)" if "phase w j = Won d" "j \<noteq> i" for j d
    using ok p that unfolding fires_ok_def by blast
  ultimately show ?thesis using ok unfolding fires_ok_def by auto
qed

lemma fires_ok_step:
  assumes "fires_ok w"
  shows "fires_ok (cron_step sb ts e w)"
proof (cases e)
  case (ClaimStep i)
  show ?thesis
  proof (cases "phase w i")
    case (Decided a)
    obtain r ph st where c: "tick_claim sb (ct_name (workers w i)) a (store w) = (r, ph, st)"
      by (cases "tick_claim sb (ct_name (workers w i)) a (store w)") auto
    have "fires_ok (w\<lparr>store := st\<rparr>)"
      by (rule fires_ok_quiet [OF assms]) (use tick_claim_grows [of _ "store w" _ "ct_name (workers w i)" a] c in auto)
    then show ?thesis using ClaimStep Decided c fires_ok_claims [OF assms, of i a r _ st] goes_on_quiet [of "w\<lparr>store := st\<rparr>" ph i r]
      by (cases ph) auto
  qed (use ClaimStep assms in simp_all)
next
  case (ClaimFails i applied)
  have "fires_ok (w\<lparr>store := snd (snd (tick_claim sb m a (store w)))\<rparr>)" for m a
    by (rule fires_ok_quiet [OF assms]) (use tick_claim_grows [of _ "store w" _ m a] in auto)
  then show ?thesis using ClaimFails assms
    by (auto simp del: goes_on.simps tick_claim.simps intro!: goes_on_quiet split: tick_phase.split tick_action.split)
next
  case (AdmitStep i adm)
  then show ?thesis using assms fires_ok_starts [OF assms, of i]
    by (cases adm) (auto simp del: goes_on.simps intro!: goes_on_quiet split: tick_phase.split)
qed (use assms in \<open>auto simp del: goes_on.simps intro!: goes_on_quiet split: tick_phase.split\<close>)

lemma fires_ok_run: "fires_ok w \<Longrightarrow> fires_ok (cron_run sb ts es w)"
  unfolding cron_run_def by (induction es arbitrary: w) (simp_all add: fires_ok_step)

lemma cron_runs_once:
  assumes "cron_fresh w"
  shows "sorted_wrt (<) (fires_of n (claims (cron_run sb ts es w))) \<and> distinct (fires_of n (fired (cron_run sb ts es w))) \<and>
    set (fires_of n (fired (cron_run sb ts es w))) \<subseteq> set (fires_of n (claims (cron_run sb ts es w)))"
proof -
  have "fires_ok (cron_run sb ts es w)" by (rule fires_ok_run) (use assms in \<open>simp add: cron_fresh_def fires_ok_def\<close>)
  then show ?thesis unfolding fires_ok_def using distinct_fires_of [of "fired (cron_run sb ts es w)" n] by auto
qed

end

interpretation msb: schedule_laws memory_schedule
  by unfold_locales
    (auto simp: memory_schedule_def memory_claim_def memory_last_fired_def split: option.splits)

section \<open>Guarantees\<close>

text \<open>
  C5. Each fire runs at most once: however the ticks of any number of workers interleave between
  reading the last fire, claiming, being admitted and running the body, and whatever fails, is cancelled or loses its answer, no
  body is started twice for one due time of a schedule, and none is started for a due time that was not claimed first; the claims
  are won in strictly increasing order. (The bodies need not start in that order: a worker may be held up between its claim and its body.)
\<close>

theorem cron_fire_runs_at_most_once:
  assumes "cron_fresh w"
  shows "sorted_wrt (<) (fires_of n (claims (cron_run memory_schedule ts es w))) \<and>
    distinct (fires_of n (fired (cron_run memory_schedule ts es w))) \<and>
    set (fires_of n (fired (cron_run memory_schedule ts es w))) \<subseteq> set (fires_of n (claims (cron_run memory_schedule ts es w)))"
  using assms by (rule msb.cron_runs_once)

definition cron_world_example :: "schedule_store cron_world" where
  "cron_world_example = \<lparr>workers = \<lambda>i. \<lparr>ct_name = ''job'', ct_expr = \<lparr>minutes = {0..59}, hours = {0..23},
      days = {1..31}, months = {1..12}, weekdays = {0..6}, dom_restricted = False, dow_restricted = False\<rparr>,
      misfire_grace = None, last_fire = None\<rparr>,
    phase = \<lambda>i. Idle, store = [(''job'', 0)], claims = [], fired = []\<rparr>"

lemma december_minute_due:
  "previous_or_equal (ct_expr (workers cron_world_example i)) (((2024, 12, 31), 23, 59), 7) = Some ((2024, 12, 31), 23, 59)"
proof -
  have v: "valid_dt ((2024, 12, 31), 23, 59)" by (simp add: december)
  note minus_days_le [OF v, of "MAX_SEARCH_YEARS * 366"] minus_days_valid [OF v, of "MAX_SEARCH_YEARS * 366"]
  then show ?thesis by (simp add: previous_or_equal_def prev_search.simps [of _ _ "((2024, 12, 31), 23, 59)"] december
        cron_world_example_def date_matches_def)
qed

lemma december_tick: "tick_decide (\<lambda>d. 60) (workers cron_world_example i) False (((2024, 12, 31), 23, 59), 7) 61 (Some 0) = ClaimRun 60"
  using december_minute_due [of i] by (simp add: tick_decide_def) (simp add: cron_world_example_def)

text \<open>Two workers read the same stored fire; both claim, one wins and runs.\<close>

definition cron_events_example :: "cron_event list" where
  "cron_events_example = [ReadStep 0 False (((2024, 12, 31), 23, 59), 7) 61, ReadStep 1 False (((2024, 12, 31), 23, 59), 7) 61,
     ClaimStep 0, ClaimStep 1, AdmitStep 1 Admitted, AdmitStep 0 Admitted, BodyEnds 0 True]"

lemma cron_example_facts:
  "cron_fresh cron_world_example" "ct_name (workers cron_world_example i) = ''job''" "store cron_world_example = [(''job'', 0)]"
  "phase cron_world_example = (\<lambda>i. Idle)" "claims cron_world_example = []" "fired cron_world_example = []"
  by (simp_all add: cron_world_example_def cron_fresh_def)

lemmas cron_example_run = cron_run_def cron_events_example_def cron_example_facts december_tick memory_schedule_def memory_claim_def
  memory_last_fired_def report_fire_def

theorem cron_fire_runs_at_most_once_witness:
  "fires_of ''job'' (claims (cron_run memory_schedule (\<lambda>d. 60) cron_events_example cron_world_example)) = [60] \<and>
   fires_of ''job'' (fired (cron_run memory_schedule (\<lambda>d. 60) cron_events_example cron_world_example)) = [60] \<and>
   distinct (fires_of ''job'' (fired (cron_run memory_schedule (\<lambda>d. 60) cron_events_example cron_world_example)))"
  using cron_fire_runs_at_most_once [OF cron_example_facts(1), of "''job''" "\<lambda>d. 60" cron_events_example]
  by (simp add: cron_example_run)

text \<open>
  A due fire is not lost: when a worker ticks at a moment whose last fire is newer than the
  stored one and within the grace period, and nobody claims in between, it wins the claim, and admitted it runs
  the body; and another worker that had read the same stored fire then stands down.
\<close>

theorem cron_due_fire_runs:
  assumes "previous_or_equal (ct_expr task) now = Some due" "memory_last_fired (ct_name task) st = Some s"
    and "s < ts due" "\<forall>g. misfire_grace task = Some g \<longrightarrow> now_ts - ts due \<le> g"
    and "tick_decide ts task catchup now now_ts (Some s) = a"
  shows "\<exists>st'. tick_claim memory_schedule (ct_name task) a st = (None, Won (ts due), st') \<and>
    memory_last_fired (ct_name task) st' = Some (ts due) \<and> run_admit MISSED Admitted (ts due) = (None, Running (ts due)) \<and>
    tick_claim memory_schedule (ct_name task) a st' = (Some SKIPPED, Idle, st')"
proof -
  have a: "a = ClaimRun (ts due)" using assms(1,3-5)
    by (auto simp: tick_decide_def Let_def split: option.splits if_splits)
  show ?thesis using assms(2,3)
    by (auto simp: a memory_schedule_def memory_claim_def memory_last_fired_def)
qed

theorem cron_due_fire_runs_witness:
  "\<exists>st'. tick_claim memory_schedule ''job'' (ClaimRun 60) [(''job'', 0)] = (None, Won 60, st')"
  using cron_due_fire_runs [OF december_minute_due [of 0] _ _ _ december_tick [of 0], of "[(''job'', 0)]"]
  by (auto simp: memory_last_fired_def cron_world_example_def)

end
