(* ===== verification/Leader.thy ===== *)
theory Leader
  imports Prelude
begin

text \<open>
  Leader election: the in-memory backend (\<open>coordination/memory.py\<close>, \<open>MemoryLeaderElectionAdapter\<close>) and
  the worker's side (\<open>coordination/leaderelection.py\<close>, \<open>LeaderElection\<close>): its local view of who leads, the
  handling of an answer or a failure of the backend, the release on stop, the guard.

  The answer of the backend reaches the worker some time after the backend decided, and other workers
  act in between: a request, the answer and a failure are separate steps of a worker. One clock
  is used for the dates of the backend and the monotonic readings of the workers, and the readings
  of one synchronous stretch of code are one reading. The contract of a backend is the locale
  \<open>leader_laws\<close>; in it, at most one worker believes to lead at a time.
\<close>

section \<open>The backend\<close>

record leader_record =
  holder :: token
  lease_duration :: seconds
  acquired_at :: seconds
  renewed_at :: seconds
  transitions :: int
  lr_metadata :: "(string, string) pydict"

type_synonym leader_store = "(string, leader_record) pydict"

definition leader_live :: "string \<Rightarrow> seconds \<Rightarrow> leader_store \<Rightarrow> leader_record option" where
  "leader_live name t st =
     (case dget st name of
        None \<Rightarrow> None
      | Some r \<Rightarrow> if t \<ge> renewed_at r + lease_duration r then None else Some r)"

text \<open>\<open>acquire_or_renew\<close>: \<open>now\<close> is its own reading of the date, \<open>t\<close> the one of \<open>_live\<close>.\<close>

definition acquire_or_renew ::
  "string \<Rightarrow> token \<Rightarrow> seconds \<Rightarrow> (string, string) pydict \<Rightarrow> seconds \<Rightarrow> seconds \<Rightarrow> leader_store \<Rightarrow> leader_record \<times> leader_store"
where
  "acquire_or_renew name token duration meta now t st =
     (case leader_live name t st of
        Some live \<Rightarrow>
          if holder live \<noteq> token then (live, st)
          else let r = live\<lparr>renewed_at := now, lease_duration := duration, lr_metadata := meta\<rparr>
               in (r, dput name r st)
      | None \<Rightarrow>
          let tr = (case dget st name of
                      None \<Rightarrow> 0
                    | Some p \<Rightarrow> if holder p = token then transitions p else transitions p + 1);
              r = \<lparr>holder = token, lease_duration = duration, acquired_at = now, renewed_at = now,
                   transitions = tr, lr_metadata = meta\<rparr>
          in (r, dput name r st))"

definition leader_release :: "string \<Rightarrow> token \<Rightarrow> seconds \<Rightarrow> leader_store \<Rightarrow> bool \<times> leader_store" where
  "leader_release name token t st =
     (case leader_live name t st of
        Some live \<Rightarrow> if holder live = token then (True, ddel name st) else (False, st)
      | None \<Rightarrow> (False, st))"

definition leader_get :: "string \<Rightarrow> seconds \<Rightarrow> leader_store \<Rightarrow> leader_record option" where
  "leader_get name t st = leader_live name t st"

record 's leader_backend =
  lb_acquire :: "string \<Rightarrow> token \<Rightarrow> seconds \<Rightarrow> (string, string) pydict \<Rightarrow> seconds \<Rightarrow> seconds \<Rightarrow> 's \<Rightarrow> leader_record \<times> 's"
  lb_release :: "string \<Rightarrow> token \<Rightarrow> seconds \<Rightarrow> 's \<Rightarrow> bool \<times> 's"

definition memory_leader :: "leader_store leader_backend" where
  "memory_leader = \<lparr>lb_acquire = acquire_or_renew, lb_release = leader_release\<rparr>"

section \<open>The worker\<close>

record election_config =
  ec_lease_duration :: seconds
  renew_deadline :: seconds
  retry_interval :: seconds
  backend_timeout :: seconds
  error_interval :: seconds
  retry_jitter :: real

definition validate_election_config :: "election_config \<Rightarrow> py_exc + election_config" where
  "validate_election_config c =
     (if renew_deadline c \<ge> ec_lease_duration c then Inl ValueError
      else if retry_interval c \<ge> renew_deadline c then Inl ValueError
      else if backend_timeout c \<ge> renew_deadline c then Inl ValueError
      else if \<not> (0 \<le> retry_jitter c \<and> retry_jitter c < 1) then Inl ValueError
      else Inr c)"

record election =
  el_name :: string
  el_worker :: token
  el_config :: election_config
  el_metadata :: "(string, string) pydict"
  el_record :: "leader_record option"
  service_running :: bool
  el_is_leader :: bool
  state_updated_at :: seconds
  last_confirmed_at :: "seconds option"
  error_logged_at :: "seconds option"

definition election_setup ::
  "string \<Rightarrow> token \<Rightarrow> election_config \<Rightarrow> (string, string) pydict \<Rightarrow> seconds \<Rightarrow> election"
where
  "election_setup name worker config meta t = \<lparr>el_name = name, el_worker = worker, el_config = config,
     el_metadata = meta, el_record = None, service_running = False, el_is_leader = False,
     state_updated_at = t, last_confirmed_at = None, error_logged_at = None\<rparr>"

definition lock_name :: "election \<Rightarrow> string" where
  "lock_name el = ''leader:'' @ el_name el"

definition is_renew_deadline_reached :: "seconds \<Rightarrow> election \<Rightarrow> bool" where
  "is_renew_deadline_reached t el \<longleftrightarrow> t - state_updated_at el \<ge> renew_deadline (el_config el)"

definition is_leader :: "seconds \<Rightarrow> election \<Rightarrow> bool" where
  "is_leader t el = (if \<not> el_is_leader el then False else \<not> is_renew_deadline_reached t el)"

definition last_confirmation_age :: "seconds \<Rightarrow> election \<Rightarrow> seconds option" where
  "last_confirmation_age t el = (case last_confirmed_at el of None \<Rightarrow> None | Some c \<Rightarrow> Some (t - c))"

definition is_leader_confirmed_within :: "seconds \<Rightarrow> seconds \<Rightarrow> election \<Rightarrow> bool" where
  "is_leader_confirmed_within max_age t el =
     (case last_confirmed_at el of
        None \<Rightarrow> False
      | Some c \<Rightarrow> if \<not> el_is_leader el then False else t - c \<le> max_age)"

definition seconds_before_expiration_deadline :: "seconds \<Rightarrow> election \<Rightarrow> seconds" where
  "seconds_before_expiration_deadline t el =
     max (state_updated_at el + ec_lease_duration (el_config el) - t) 0"

text \<open>\<open>_update_state\<close>; the second result says whether the waiting tasks are notified of a change.\<close>

definition update_state :: "bool \<Rightarrow> seconds \<Rightarrow> election \<Rightarrow> election \<times> bool" where
  "update_state flag now el =
     (let el1 = el\<lparr>state_updated_at := now, last_confirmed_at := (if flag then Some now else None)\<rparr>
      in if flag = el_is_leader el1 then (el1, False) else (el1\<lparr>el_is_leader := flag\<rparr>, True))"

text \<open>\<open>_check_error_interval\<close>: Python takes a stored time of zero for no time.\<close>

definition check_error_interval :: "seconds \<Rightarrow> election \<Rightarrow> bool \<times> election" where
  "check_error_interval t el =
     ((case error_logged_at el of
         None \<Rightarrow> True
       | Some x \<Rightarrow> x = 0 \<or> t - x > error_interval (el_config el)),
      el\<lparr>error_logged_at := Some t\<rparr>)"

text \<open>\<open>_try_acquire_or_renew\<close> after an answer, and after an exception (the timeout included).\<close>

definition on_answer :: "leader_record \<Rightarrow> seconds \<Rightarrow> election \<Rightarrow> election" where
  "on_answer r t el = fst (update_state (holder r = el_worker el) t (el\<lparr>el_record := Some r\<rparr>))"

definition on_failure :: "seconds \<Rightarrow> election \<Rightarrow> bool \<times> election" where
  "on_failure t el =
     (let (logged, el1) = check_error_interval t el
      in (logged, if is_renew_deadline_reached t el1 then fst (update_state False t el1) else el1))"

text \<open>The end of the service: the flag of the loop goes down and the lease is released.\<close>

definition election_stop :: "'s leader_backend \<Rightarrow> seconds \<Rightarrow> election \<Rightarrow> 's \<Rightarrow> election \<times> 's" where
  "election_stop lb t el st =
     (let el1 = el\<lparr>service_running := False\<rparr>
      in (el1, snd (lb_release lb (lock_name el1) (el_worker el1) t st)))"

text \<open>The guard of \<open>guard()\<close>: it raises WouldBlockError unless this worker leads.\<close>

datatype guard_error = WouldBlockError string

definition guard_enter :: "seconds \<Rightarrow> election \<Rightarrow> guard_error + unit" where
  "guard_enter t el =
     (if \<not> is_leader t el then Inl (WouldBlockError (''Not leader: '' @ el_name el)) else Inr ())"

section \<open>Many workers\<close>

record 's election_world =
  els :: "nat \<Rightarrow> election"
  answers :: "nat \<Rightarrow> (seconds \<times> leader_record) option"
  leases :: 's
  clock :: seconds

text \<open>
  \<open>Request i w t\<close>: the backend serves worker \<open>i\<close>, with the two readings \<open>w\<close> and \<open>t\<close> of the date.
  \<open>Answer i u\<close>: the answer reaches the worker at \<open>u\<close>. \<open>Fail i u\<close>: the call raised, at \<open>u\<close>.
\<close>

datatype election_event = Request nat seconds seconds | Answer nat seconds | Fail nat seconds | Stop nat seconds

fun election_step :: "'s leader_backend \<Rightarrow> election_event \<Rightarrow> 's election_world \<Rightarrow> 's election_world" where
  "election_step lb (Request i w t) W =
     (let el = els W i;
          (r, st) = lb_acquire lb (lock_name el) (el_worker el) (ec_lease_duration (el_config el)) (el_metadata el) w t (leases W)
      in W\<lparr>answers := (answers W)(i := Some (w, r)), leases := st, clock := t\<rparr>)"
| "election_step lb (Answer i u) W =
     (case answers W i of
        None \<Rightarrow> W\<lparr>clock := u\<rparr>
      | Some (w, r) \<Rightarrow> W\<lparr>els := (els W)(i := on_answer r u (els W i)), answers := (answers W)(i := None), clock := u\<rparr>)"
| "election_step lb (Fail i u) W =
     W\<lparr>els := (els W)(i := snd (on_failure u (els W i))), answers := (answers W)(i := None), clock := u\<rparr>"
| "election_step lb (Stop i u) W =
     (let (el, st) = election_stop lb u (els W i) (leases W)
      in W\<lparr>els := (els W)(i := el), leases := st, clock := u\<rparr>)"

text \<open>
  The events a run may have: time goes on, an answer takes at most \<open>delay\<close> from the moment the
  backend served the request, and no worker stops.
\<close>

fun event_ok :: "seconds \<Rightarrow> 's election_world \<Rightarrow> election_event \<Rightarrow> bool" where
  "event_ok delay W (Request i w t) = (clock W \<le> w \<and> w \<le> t)"
| "event_ok delay W (Answer i u) =
     (clock W \<le> u \<and> (case answers W i of None \<Rightarrow> True | Some (w, r) \<Rightarrow> u \<le> w + delay))"
| "event_ok delay W (Fail i u) = (clock W \<le> u)"
| "event_ok delay W (Stop i u) = False"

fun run_ok :: "'s leader_backend \<Rightarrow> seconds \<Rightarrow> election_event list \<Rightarrow> 's election_world \<Rightarrow> bool" where
  "run_ok lb delay [] W = True"
| "run_ok lb delay (e # es) W = (event_ok delay W e \<and> run_ok lb delay es (election_step lb e W))"

definition election_run :: "'s leader_backend \<Rightarrow> election_event list \<Rightarrow> 's election_world \<Rightarrow> 's election_world" where
  "election_run lb es W = fold (election_step lb) es W"

text \<open>Workers of one election with different identities and one configuration.\<close>

definition candidates :: "string \<Rightarrow> election_config \<Rightarrow> (nat \<Rightarrow> token) \<Rightarrow> 's election_world \<Rightarrow> bool" where
  "candidates name c tok W \<longleftrightarrow> inj tok \<and>
     (\<forall>i. el_name (els W i) = name \<and> el_worker (els W i) = tok i \<and> el_config (els W i) = c)"

lemma update_state_fields [simp]:
  "el_name (fst (update_state f t el)) = el_name el" "el_worker (fst (update_state f t el)) = el_worker el"
  "el_config (fst (update_state f t el)) = el_config el" "el_record (fst (update_state f t el)) = el_record el"
  "el_is_leader (fst (update_state f t el)) = f" "state_updated_at (fst (update_state f t el)) = t"
  by (simp_all add: update_state_def Let_def)

lemma on_answer_fields [simp]:
  "el_name (on_answer r t el) = el_name el" "el_worker (on_answer r t el) = el_worker el"
  "el_config (on_answer r t el) = el_config el" "el_record (on_answer r t el) = Some r"
  "el_is_leader (on_answer r t el) = (holder r = el_worker el)" "state_updated_at (on_answer r t el) = t"
  by (simp_all add: on_answer_def)

lemma on_failure_fields [simp]:
  "el_name (snd (on_failure t el)) = el_name el" "el_worker (snd (on_failure t el)) = el_worker el"
  "el_config (snd (on_failure t el)) = el_config el" "el_record (snd (on_failure t el)) = el_record el"
  by (simp_all add: on_failure_def check_error_interval_def Let_def)

lemma on_failure_leader:
  "el_is_leader (snd (on_failure t el)) \<Longrightarrow>
   el_is_leader el \<and> state_updated_at (snd (on_failure t el)) = state_updated_at el"
  by (simp add: on_failure_def check_error_interval_def Let_def split: if_splits)

lemma candidates_step: "candidates name c tok W \<Longrightarrow> candidates name c tok (election_step lb e W)"
  by (cases e) (auto simp: candidates_def Let_def case_prod_beta election_stop_def split: option.splits)

section \<open>The contract of a backend\<close>

text \<open>
  \<open>current\<close> is the stored lease. A live lease of another holder is answered and kept; in every other
  case the caller gets the lease, renewed now.
\<close>

locale leader_laws =
  fixes lb :: "'s leader_backend" and current :: "string \<Rightarrow> 's \<Rightarrow> leader_record option"
  assumes kept: "lb_acquire lb n tok d m w t st = (r, st') \<Longrightarrow> current n st = Some p \<Longrightarrow> holder p \<noteq> tok \<Longrightarrow>
      t < renewed_at p + lease_duration p \<Longrightarrow> r = p \<and> current n st' = Some p"
    and granted: "lb_acquire lb n tok d m w t st = (r, st') \<Longrightarrow>
      (\<And>p. current n st = Some p \<Longrightarrow> holder p = tok \<or> renewed_at p + lease_duration p \<le> t) \<Longrightarrow>
      holder r = tok \<and> renewed_at r = w \<and> lease_duration r = d \<and> current n st' = Some r"
begin

text \<open>
  A confirmation \<open>r\<close> of a worker is covered: the stored lease is the worker's and at least as fresh, or
  the lease it confirmed has run out.
\<close>

definition covered :: "string \<Rightarrow> seconds \<Rightarrow> token \<Rightarrow> leader_record \<Rightarrow> 's election_world \<Rightarrow> bool" where
  "covered n L tok r W \<longleftrightarrow>
     (\<exists>s. current n (leases W) = Some s \<and> holder s = tok \<and> renewed_at r \<le> renewed_at s \<and> lease_duration s = L) \<or>
     renewed_at r + L \<le> clock W"

definition lease_inv :: "string \<Rightarrow> election_config \<Rightarrow> seconds \<Rightarrow> (nat \<Rightarrow> token) \<Rightarrow> 's election_world \<Rightarrow> bool" where
  "lease_inv name c delay tok W \<longleftrightarrow>
     (let n = ''leader:'' @ name; L = ec_lease_duration c in
      (\<forall>s. current n (leases W) = Some s \<longrightarrow> lease_duration s = L \<and> renewed_at s \<le> clock W) \<and>
      (\<forall>i w r. answers W i = Some (w, r) \<and> holder r = tok i \<longrightarrow> renewed_at r = w \<and> covered n L (tok i) r W) \<and>
      (\<forall>i. el_is_leader (els W i) \<longrightarrow> (\<exists>r. el_record (els W i) = Some r \<and> holder r = tok i \<and>
         state_updated_at (els W i) \<le> renewed_at r + delay \<and> covered n L (tok i) r W)))"

lemma covered_mono:
  "covered n L tok r W \<Longrightarrow> current n (leases W') = current n (leases W) \<Longrightarrow> clock W \<le> clock W' \<Longrightarrow>
   covered n L tok r W'"
  by (auto simp: covered_def)

lemma request_covers:
  assumes store: "\<And>s. current n (leases W) = Some s \<Longrightarrow> lease_duration s = L \<and> renewed_at s \<le> clock W"
    and time: "clock W \<le> w" "w \<le> t" and inj: "inj tok"
    and acq: "lb_acquire lb n (tok i) L m w t (leases W) = (r, st')"
    and W': "leases W' = st'" "clock W' = t"
  shows "current n (leases W') = Some s \<Longrightarrow> lease_duration s = L \<and> renewed_at s \<le> clock W'"
    and "holder r = tok i \<Longrightarrow> renewed_at r = w \<and> covered n L (tok i) r W'"
    and "covered n L (tok j) x W \<Longrightarrow> covered n L (tok j) x W'"
proof -
  consider (other) p where "current n (leases W) = Some p" "holder p \<noteq> tok i" "t < renewed_at p + lease_duration p"
    | (free) "\<And>p. current n (leases W) = Some p \<Longrightarrow> holder p = tok i \<or> renewed_at p + lease_duration p \<le> t"
    by (meson not_le)
  then have "(current n (leases W') = Some s \<longrightarrow> lease_duration s = L \<and> renewed_at s \<le> clock W') \<and>
      (holder r = tok i \<longrightarrow> renewed_at r = w \<and> covered n L (tok i) r W') \<and>
      (covered n L (tok j) x W \<longrightarrow> covered n L (tok j) x W')"
  proof cases
    case (other p)
    with kept [OF acq] have "r = p" "current n (leases W') = current n (leases W)" using W' by auto
    with other store covered_mono [of n L "tok j" x W W'] W' time show ?thesis by fastforce
  next
    case free
    from granted [OF acq free]
    have r: "holder r = tok i" "renewed_at r = w" "lease_duration r = L" "current n (leases W') = Some r"
      using W' by auto
    have "covered n L (tok j) x W'" if cov: "covered n L (tok j) x W"
    proof (cases "renewed_at x + L \<le> clock W")
      case True
      then show ?thesis using time W' by (simp add: covered_def)
    next
      case False
      with cov obtain p where p: "current n (leases W) = Some p" "holder p = tok j" "renewed_at x \<le> renewed_at p"
        "lease_duration p = L" by (auto simp: covered_def)
      show ?thesis
      proof (cases "j = i")
        case True
        then show ?thesis using r p store [OF p(1)] time by (auto simp: covered_def)
      next
        case False
        with inj have "tok j \<noteq> tok i" by (simp add: inj_eq)
        with free [OF p(1)] p W' show ?thesis by (auto simp: covered_def)
      qed
    qed
    with r time W' show ?thesis by (auto simp: covered_def)
  qed
  then show "current n (leases W') = Some s \<Longrightarrow> lease_duration s = L \<and> renewed_at s \<le> clock W'"
    and "holder r = tok i \<Longrightarrow> renewed_at r = w \<and> covered n L (tok i) r W'"
    and "covered n L (tok j) x W \<Longrightarrow> covered n L (tok j) x W'" by auto
qed

lemma lease_inv_step:
  assumes inv: "lease_inv name c delay tok W" and cand: "candidates name c tok W" and ok: "event_ok delay W e"
  shows "lease_inv name c delay tok (election_step lb e W)"
proof -
  let ?n = "''leader:'' @ name" and ?L = "ec_lease_duration c"
  from inv have store: "\<And>s. current ?n (leases W) = Some s \<Longrightarrow> lease_duration s = ?L \<and> renewed_at s \<le> clock W"
    and ans: "\<And>i w r. answers W i = Some (w, r) \<Longrightarrow> holder r = tok i \<Longrightarrow> renewed_at r = w \<and> covered ?n ?L (tok i) r W"
    and led: "\<And>i. el_is_leader (els W i) \<Longrightarrow> \<exists>r. el_record (els W i) = Some r \<and> holder r = tok i \<and>
         state_updated_at (els W i) \<le> renewed_at r + delay \<and> covered ?n ?L (tok i) r W"
    by (auto simp: lease_inv_def Let_def)
  have el: "lock_name (els W i) = ?n" "el_worker (els W i) = tok i" "el_config (els W i) = c" for i
    using cand by (simp_all add: candidates_def lock_name_def)
  have inj: "inj tok" using cand by (simp add: candidates_def)
  let ?W = "election_step lb e W"
  show ?thesis
  proof (cases e)
    case (Request i w t)
    obtain r st' where acq: "lb_acquire lb ?n (tok i) ?L (el_metadata (els W i)) w t (leases W) = (r, st')"
      by (cases "lb_acquire lb ?n (tok i) ?L (el_metadata (els W i)) w t (leases W)")
    have W': "?W = W\<lparr>answers := (answers W)(i := Some (w, r)), leases := st', clock := t\<rparr>"
      using Request acq el by (simp add: Let_def)
    have time: "clock W \<le> w" "w \<le> t" using ok Request by auto
    note rc = request_covers [OF store time inj acq, of ?W]
    have l: "leases ?W = st'" "clock ?W = t" using W' by auto
    show ?thesis
      unfolding lease_inv_def Let_def
    proof (intro conjI allI impI)
      show "lease_duration s = ?L" "renewed_at s \<le> clock ?W" if "current ?n (leases ?W) = Some s" for s
        using rc(1) [OF _ l that] by auto
      show "renewed_at r' = w'" "covered ?n ?L (tok k) r' ?W" if "answers ?W k = Some (w', r') \<and> holder r' = tok k" for k w' r'
        using that rc(2) [OF _ l] rc(3) [OF _ l, of k r'] ans [of k w' r'] W' by (auto split: if_splits)
      show "\<exists>r. el_record (els ?W k) = Some r \<and> holder r = tok k \<and>
          state_updated_at (els ?W k) \<le> renewed_at r + delay \<and> covered ?n ?L (tok k) r ?W" if "el_is_leader (els ?W k)" for k
        using led [of k] that rc(3) [OF _ l] W' by auto
    qed
  next
    case (Answer i u)
    have cov: "covered ?n ?L x r W \<Longrightarrow> covered ?n ?L x r ?W" for x r
      using covered_mono [of ?n ?L x r W ?W] Answer ok by (auto split: option.splits)
    show ?thesis
      using store ans led ok cov el Answer unfolding lease_inv_def Let_def
      by (cases "answers W i") (fastforce split: if_splits)+
  next
    case (Fail i u)
    have cov: "covered ?n ?L x r W \<Longrightarrow> covered ?n ?L x r ?W" for x r
      using covered_mono [of ?n ?L x r W ?W] Fail ok by auto
    show ?thesis
      using store ans led ok cov on_failure_leader [of u "els W i"] Fail unfolding lease_inv_def Let_def
      by (fastforce split: if_splits)
  next
    case (Stop i u)
    then show ?thesis using ok by simp
  qed
qed

lemma lease_inv_run:
  "lease_inv name c delay tok W \<Longrightarrow> candidates name c tok W \<Longrightarrow> run_ok lb delay es W \<Longrightarrow>
   lease_inv name c delay tok (election_run lb es W) \<and> candidates name c tok (election_run lb es W)"
  unfolding election_run_def
  by (induction es arbitrary: W) (simp_all add: lease_inv_step candidates_step)

lemma one_leader:
  assumes inv: "lease_inv name c delay tok W" and cand: "candidates name c tok W"
    and slack: "delay + renew_deadline c \<le> ec_lease_duration c" and t: "clock W \<le> t"
    and i: "is_leader t (els W i)" and j: "is_leader t (els W j)"
  shows "i = j"
proof -
  have "\<exists>s. current (''leader:'' @ name) (leases W) = Some s \<and> holder s = tok k" if k: "is_leader t (els W k)" for k
  proof -
    have flag: "el_is_leader (els W k)" "t < state_updated_at (els W k) + renew_deadline c"
      using k cand by (auto simp: is_leader_def is_renew_deadline_reached_def candidates_def split: if_splits)
    with inv obtain r where "state_updated_at (els W k) \<le> renewed_at r + delay"
      "covered (''leader:'' @ name) (ec_lease_duration c) (tok k) r W" by (auto simp: lease_inv_def Let_def)
    with flag(2) slack t show ?thesis by (auto simp: covered_def)
  qed
  from this [OF i] this [OF j] have "tok i = tok j" by auto
  then show ?thesis using cand by (simp add: candidates_def inj_eq)
qed

end

definition stored_lease :: "string \<Rightarrow> leader_store \<Rightarrow> leader_record option" where
  "stored_lease n st = dget st n"

interpretation mll: leader_laws memory_leader stored_lease
  by unfold_locales
    (auto simp: memory_leader_def stored_lease_def acquire_or_renew_def leader_live_def Let_def
      split: option.splits if_splits)

section \<open>Guarantees\<close>

definition election_start :: "string \<Rightarrow> election_config \<Rightarrow> (nat \<Rightarrow> token) \<Rightarrow> seconds \<Rightarrow> leader_store election_world" where
  "election_start name c tok t = \<lparr>els = \<lambda>i. election_setup name (tok i) c [] t, answers = \<lambda>i. None, leases = [], clock = t\<rparr>"

lemma election_start_inv:
  "inj tok \<Longrightarrow> mll.lease_inv name c delay tok (election_start name c tok t) \<and>
     candidates name c tok (election_start name c tok t)"
  by (simp add: mll.lease_inv_def Let_def election_start_def election_setup_def stored_lease_def candidates_def)

text \<open>
  C4. One leader at a time: from an empty backend, however the requests, answers and failures of any
  number of workers interleave, no two workers answer \<open>is_leader()\<close> with True at the same time, provided
  that no worker stops and an answer takes at most \<open>lease_duration - renew_deadline\<close> to arrive.
\<close>

theorem leader_at_most_one:
  assumes "inj tok" "delay + renew_deadline c \<le> ec_lease_duration c"
    and "run_ok memory_leader delay es (election_start name c tok t0)"
    and "W = election_run memory_leader es (election_start name c tok t0)" "clock W \<le> t"
    and "is_leader t (els W i)" "is_leader t (els W j)"
  shows "i = j"
  using mll.lease_inv_run [OF conjunct1 [OF election_start_inv [OF assms(1)]]
      conjunct2 [OF election_start_inv [OF assms(1)]] assms(3)] mll.one_leader [OF _ _ assms(2)] assms(4-7)
  by blast

definition election_config_example :: election_config where
  "election_config_example = \<lparr>ec_lease_duration = 15, renew_deadline = 10, retry_interval = 2, backend_timeout = 5,
     error_interval = 30, retry_jitter = 0\<rparr>"

definition worker_token :: "nat \<Rightarrow> token" where
  "worker_token i = replicate i CHR ''w''"

lemma worker_token_inj: "inj worker_token"
  by (rule injI) (metis length_replicate worker_token_def)

lemma worker_token_eq [simp]: "worker_token i = worker_token j \<longleftrightarrow> i = j"
  using worker_token_inj by (simp add: inj_eq)

abbreviation example_run :: "election_event list" where
  "example_run \<equiv> [Request 0 1 1, Request 1 2 2, Answer 0 3, Answer 1 3]"

theorem leader_at_most_one_witness:
  "let W = election_run memory_leader example_run (election_start ''jobs'' election_config_example worker_token 0)
   in is_leader 4 (els W 0) \<and> \<not> is_leader 4 (els W 1)"
proof -
  let ?start = "election_start ''jobs'' election_config_example worker_token 0"
  let ?W = "election_run memory_leader example_run ?start"
  have ok: "run_ok memory_leader 5 example_run ?start" by code_simp
  have W: "clock ?W \<le> 4" "is_leader 4 (els ?W 0)" by code_simp+
  have "is_leader 4 (els ?W 1) \<Longrightarrow> 0 = (1 :: nat)"
    using leader_at_most_one [OF worker_token_inj _ ok refl W(1) W(2), of 1] by (simp add: election_config_example_def)
  with W show ?thesis by (auto simp: Let_def)
qed

text \<open>
  The configuration check is not enough for one leader: for every configuration that passes it
  but whose \<open>backend_timeout\<close> and \<open>renew_deadline\<close> together exceed \<open>lease_duration\<close>, there is a run in which
  each answer arrives before the backend timeout and two workers lead at the same time.
\<close>

theorem leader_slow_answer_two_leaders:
  assumes "validate_election_config c = Inr c" "0 < backend_timeout c" "0 < renew_deadline c"
    and "ec_lease_duration c < backend_timeout c + renew_deadline c"
  shows "\<exists>es t. let W = election_run memory_leader es (election_start name c worker_token 0) in
    run_ok memory_leader (backend_timeout c) es (election_start name c worker_token 0) \<and>
    clock W \<le> t \<and> is_leader t (els W 0) \<and> is_leader t (els W 1)"
proof -
  let ?L = "ec_lease_duration c" and ?d = "backend_timeout c"
  let ?es = "[Request 0 0 0, Answer 0 ?d, Request 1 ?L ?L, Answer 1 ?L]"
  let ?start = "election_start name c worker_token 0"
  note defs = election_run_def election_start_def election_setup_def memory_leader_def acquire_or_renew_def
    leader_live_def lock_name_def on_answer_def update_state_def Let_def
  have c: "renew_deadline c < ?L" "?d < renew_deadline c"
    using assms(1) by (auto simp: validate_election_config_def split: if_splits)
  have ok: "run_ok memory_leader ?d ?es ?start" using assms c by (simp add: defs)
  have "clock (election_run memory_leader ?es ?start) \<le> ?L \<and>
      is_leader ?L (els (election_run memory_leader ?es ?start) 0) \<and> is_leader ?L (els (election_run memory_leader ?es ?start) 1)"
    using assms c by (simp add: defs is_leader_def is_renew_deadline_reached_def)
  with ok show ?thesis unfolding Let_def by blast
qed

theorem leader_slow_answer_two_leaders_witness:
  "\<exists>es t. let c = \<lparr>ec_lease_duration = 15, renew_deadline = 14, retry_interval = 2, backend_timeout = 10,
        error_interval = 30, retry_jitter = 0\<rparr>;
      W = election_run memory_leader es (election_start ''jobs'' c worker_token 0) in
    run_ok memory_leader 10 es (election_start ''jobs'' c worker_token 0) \<and>
    clock W \<le> t \<and> is_leader t (els W 0) \<and> is_leader t (els W 1)"
  using leader_slow_answer_two_leaders [of "\<lparr>ec_lease_duration = 15, renew_deadline = 14, retry_interval = 2,
      backend_timeout = 10, error_interval = 30, retry_jitter = 0\<rparr>" "''jobs''"]
  by (simp add: validate_election_config_def Let_def)

text \<open>
  A stopped leader still says it leads: after the service of a leading worker stops and releases
  its lease, its \<open>is_leader()\<close> stays True until the renew deadline of its last confirmation, and another
  worker that asks in the meantime is given the lease and leads too.
\<close>

theorem stopped_leader_still_leads:
  assumes "is_leader t el" "stored_lease (lock_name el) st = Some r" "holder r = el_worker el"
    and "t < renewed_at r + lease_duration r" "el_name el2 = el_name el" "el_worker el2 \<noteq> el_worker el"
    and "0 < renew_deadline (el_config el2)"
    and "election_stop memory_leader t el st = (el', st')"
    and "acquire_or_renew (lock_name el2) (el_worker el2) d m t t st' = (r2, st2)"
  shows "\<not> service_running el' \<and> is_leader t el' \<and> is_leader t (on_answer r2 t el2)"
proof -
  have "leader_live (lock_name el) t st = Some r"
    using assms(2,4) by (simp add: leader_live_def stored_lease_def)
  then have stop: "el' = el\<lparr>service_running := False\<rparr>" "st' = ddel (lock_name el) st"
    using assms(3,8) by (auto simp: election_stop_def memory_leader_def leader_release_def lock_name_def Let_def)
  have "lock_name el2 = lock_name el" using assms(5) by (simp add: lock_name_def)
  with stop(2) have "leader_live (lock_name el2) t st' = None" by (simp add: leader_live_def)
  with assms(9) have "holder r2 = el_worker el2" by (auto simp: acquire_or_renew_def Let_def)
  with stop(1) assms(1,7) show ?thesis
    by (simp add: is_leader_def is_renew_deadline_reached_def on_answer_def update_state_def Let_def split: if_splits)
qed

theorem stopped_leader_still_leads_witness:
  "let c = election_config_example;
       (r, st) = acquire_or_renew ''leader:jobs'' ''a'' 15 [] 0 0 [];
       el = on_answer r 0 (election_setup ''jobs'' ''a'' c [] 0);
       (el', st') = election_stop memory_leader 1 el st;
       (r2, st2) = acquire_or_renew ''leader:jobs'' ''b'' 15 [] 1 1 st'
   in is_leader 1 el' \<and> is_leader 1 (on_answer r2 1 (election_setup ''jobs'' ''b'' c [] 0))"
proof -
  define r where "r = \<lparr>holder = ''a'', lease_duration = 15, acquired_at = 0, renewed_at = 0, transitions = 0, lr_metadata = []\<rparr>"
  let ?c = election_config_example and ?st = "[(''leader:jobs'', r)]"
  let ?el = "on_answer r 0 (election_setup ''jobs'' ''a'' ?c [] 0)" and ?el2 = "election_setup ''jobs'' ''b'' ?c [] 0"
  have a: "acquire_or_renew ''leader:jobs'' ''a'' 15 [] 0 0 [] = (r, ?st)"
    by (simp add: acquire_or_renew_def leader_live_def r_def Let_def)
  have n: "lock_name ?el = ''leader:jobs''" "lock_name ?el2 = ''leader:jobs''"
    by (simp_all add: lock_name_def election_setup_def)
  obtain el' st' where s: "election_stop memory_leader 1 ?el ?st = (el', st')" by (cases "election_stop memory_leader 1 ?el ?st")
  obtain r2 st2 where b: "acquire_or_renew ''leader:jobs'' ''b'' 15 [] 1 1 st' = (r2, st2)"
    by (cases "acquire_or_renew ''leader:jobs'' ''b'' 15 [] 1 1 st'")
  have "is_leader 1 ?el"
    by (simp add: is_leader_def is_renew_deadline_reached_def r_def election_setup_def election_config_example_def)
  moreover have "stored_lease (lock_name ?el) ?st = Some r" unfolding n(1) by (simp add: stored_lease_def)
  ultimately have "is_leader 1 el' \<and> is_leader 1 (on_answer r2 1 ?el2)"
    using stopped_leader_still_leads [OF _ _ _ _ _ _ _ s, of r ?el2 15 "[]" r2 st2] b n(2)
    by (simp add: r_def election_setup_def election_config_example_def)
  then show ?thesis by (simp add: a s b)
qed

text \<open>The errors that a row of failed attempts logs.\<close>

fun failures :: "seconds list \<Rightarrow> election \<Rightarrow> bool list" where
  "failures [] el = []"
| "failures (t # ts) el = (case on_failure t el of (logged, el1) \<Rightarrow> logged # failures ts el1)"

fun close_together :: "seconds \<Rightarrow> seconds \<Rightarrow> seconds list \<Rightarrow> bool" where
  "close_together gap t [] = True"
| "close_together gap t (u # us) = (t < u \<and> u - t \<le> gap \<and> close_together gap u us)"

lemma on_failure_logged:
  "fst (on_failure t el) = (case error_logged_at el of None \<Rightarrow> True | Some x \<Rightarrow> x = 0 \<or> t - x > error_interval (el_config el))"
  "error_logged_at (snd (on_failure t el)) = Some t"
  by (simp_all add: on_failure_def check_error_interval_def update_state_def Let_def)

lemma failures_silent:
  "error_logged_at el = Some t \<Longrightarrow> 0 < t \<Longrightarrow> close_together (error_interval (el_config el)) t ts \<Longrightarrow>
   failures ts el = replicate (length ts) False"
proof (induction ts arbitrary: el t)
  case (Cons u us)
  then have "\<not> fst (on_failure u el)" by (simp add: on_failure_logged)
  moreover have "failures us (snd (on_failure u el)) = replicate (length us) False"
    using Cons.prems Cons.IH [of "snd (on_failure u el)" u] by (simp add: on_failure_logged)
  ultimately show ?case by (simp add: case_prod_beta)
qed simp

text \<open>
  A lasting outage is logged once: of a row of failed attempts that are at most \<open>error_interval\<close>
  apart, only the first is logged, however long the outage lasts, because every failure restarts the
  interval, logged or not.
\<close>

theorem election_outage_logged_once:
  assumes "error_logged_at el = None" "0 < t" "close_together (error_interval (el_config el)) t ts"
  shows "failures (t # ts) el = True # replicate (length ts) False"
  using failures_silent [of "snd (on_failure t el)" t ts] assms by (simp add: on_failure_logged case_prod_beta)

theorem election_outage_logged_once_witness:
  "failures [1, 3, 5, 7] (election_setup ''jobs'' ''a'' election_config_example [] 0) = [True, False, False, False]"
  using election_outage_logged_once [of "election_setup ''jobs'' ''a'' election_config_example [] 0" 1 "[3, 5, 7]"]
  by (simp add: election_setup_def election_config_example_def)

end
