(* ===== verification/Store_Adapters.thy ===== *)
theory Store_Adapters
  imports Redis_Store Cron_Task Leader
begin

text \<open>
  The schedule adapters on SQLite, Postgres and Redis and the leader election adapters on Postgres and
  Redis (\<open>coordination/sqlite.py\<close>, \<open>postgres.py\<close>, \<open>redis.py\<close>). Each call is one statement, function or script
  on the server, so it is one step; a server reads its clock once per call. The schedule adapters
  satisfy the contract of \<open>Cron_Task\<close>; the leader election adapters are shown to do on their rows and
  hashes what the in-memory adapter does on its records.
\<close>

section \<open>Schedules\<close>

text \<open>
  SQL: the upsert writes when there is no row or the stored fire is older. SQLite tells by the row
  count, Postgres by \<open>RETURNING\<close>, whether it wrote.
\<close>

type_synonym schedule_table = "(string, real) pydict"

definition sql_claim :: "string \<Rightarrow> real \<Rightarrow> schedule_table \<Rightarrow> bool \<times> schedule_table" where
  "sql_claim name due tbl =
     (case dget tbl name of
        None \<Rightarrow> (True, dput name due tbl)
      | Some stored \<Rightarrow> if stored < due then (True, dput name due tbl) else (False, tbl))"

definition sql_last_fired :: "string \<Rightarrow> schedule_table \<Rightarrow> real option" where
  "sql_last_fired name tbl = dget tbl name"

definition sql_schedule :: "schedule_table schedule_backend" where
  "sql_schedule = \<lparr>sb_claim = sql_claim, sb_last_fired = sql_last_fired\<rparr>"

text \<open>
  Redis: the fire is a number written as text under the prefixed name. A key of another type makes the
  script fail; the adapter keeps its keys apart by the prefix, and the model's store holds only its keys.
\<close>

type_synonym redis_numbers = "(string, real) pydict"

definition lua_claim :: "string \<Rightarrow> real \<Rightarrow> redis_numbers \<Rightarrow> bool \<times> redis_numbers" where
  "lua_claim key due db =
     (let stored = dget db key
      in if (case stored of None \<Rightarrow> False | Some x \<Rightarrow> x \<ge> due) then (False, db) else (True, dput key due db))"

definition redis_claim :: "string \<Rightarrow> string \<Rightarrow> real \<Rightarrow> redis_numbers \<Rightarrow> bool \<times> redis_numbers" where
  "redis_claim prefix name due db = lua_claim (prefix @ name) due db"

definition redis_last_fired :: "string \<Rightarrow> string \<Rightarrow> redis_numbers \<Rightarrow> real option" where
  "redis_last_fired prefix name db = dget db (prefix @ name)"

definition redis_schedule :: "string \<Rightarrow> redis_numbers schedule_backend" where
  "redis_schedule prefix = \<lparr>sb_claim = redis_claim prefix, sb_last_fired = redis_last_fired prefix\<rparr>"

interpretation sqs: schedule_laws sql_schedule
  by unfold_locales (auto simp: sql_schedule_def sql_claim_def sql_last_fired_def split: option.splits)

interpretation rds: schedule_laws "redis_schedule prefix" for prefix
  by unfold_locales
    (auto simp: redis_schedule_def redis_claim_def lua_claim_def redis_last_fired_def Let_def split: option.splits)

text \<open>
  Each fire runs at most once on every backend: with the schedule on SQLite, Postgres or Redis, as
  with the one in memory, the claims of a schedule are won in strictly increasing order and no body starts twice for one due time, however the
  steps of the workers interleave and whatever fails.
\<close>

theorem cron_fires_once_on_servers:
  assumes "cron_fresh w" "cron_fresh w'"
  shows "sorted_wrt (<) (fires_of n (claims (cron_run sql_schedule ts es w))) \<and> distinct (fires_of n (fired (cron_run sql_schedule ts es w))) \<and>
    sorted_wrt (<) (fires_of n (claims (cron_run (redis_schedule prefix) ts es w'))) \<and> distinct (fires_of n (fired (cron_run (redis_schedule prefix) ts es w')))"
  using sqs.cron_runs_once [OF assms(1)] rds.cron_runs_once [OF assms(2)] by blast

theorem cron_fires_once_on_servers_witness:
  "distinct (fires_of ''job'' (fired (cron_run sql_schedule (\<lambda>d. 60) cron_events_example cron_world_example)))"
  using cron_fires_once_on_servers [OF cron_example_facts(1) cron_example_facts(1)] by blast

section \<open>Leader election on Postgres\<close>

text \<open>The columns of the table; \<open>metadata\<close> may be \<open>NULL\<close> in a row written by other means.\<close>

record election_row =
  er_holder :: token
  er_lease_duration :: seconds
  er_acquired_at :: seconds
  er_renewed_at :: seconds
  er_transitions :: int
  er_metadata :: "(string, string) pydict option"

type_synonym election_table = "(string, election_row) pydict"

definition decode_metadata :: "(string, string) pydict option \<Rightarrow> (string, string) pydict" where
  "decode_metadata m = (case m of None \<Rightarrow> [] | Some d \<Rightarrow> d)"

definition row_record :: "election_row \<Rightarrow> leader_record" where
  "row_record r = \<lparr>holder = er_holder r, lease_duration = er_lease_duration r, acquired_at = er_acquired_at r,
     renewed_at = er_renewed_at r, transitions = er_transitions r, lr_metadata = decode_metadata (er_metadata r)\<rparr>"

text \<open>The PL/pgSQL function, with its answer unpacked to a record.\<close>

definition le_acquire_or_renew ::
  "string \<Rightarrow> token \<Rightarrow> seconds \<Rightarrow> (string, string) pydict \<Rightarrow> seconds \<Rightarrow> election_table \<Rightarrow> leader_record \<times> election_table"
where
  "le_acquire_or_renew p_name p_token p_duration p_metadata v_now tbl =
     (let row = dget tbl p_name;
          v_expired = (case row of None \<Rightarrow> True | Some r \<Rightarrow> v_now \<ge> er_renewed_at r + er_lease_duration r)
      in case row of
           Some r \<Rightarrow>
             if \<not> v_expired \<and> er_holder r \<noteq> p_token then (row_record r, tbl)
             else if \<not> v_expired then
               let r' = r\<lparr>er_renewed_at := v_now, er_lease_duration := p_duration, er_metadata := Some p_metadata\<rparr>
               in (\<lparr>holder = p_token, lease_duration = p_duration, acquired_at = er_acquired_at r, renewed_at = v_now,
                    transitions = er_transitions r, lr_metadata = p_metadata\<rparr>, dput p_name r' tbl)
             else
               let tr = (if er_holder r = p_token then er_transitions r else er_transitions r + 1);
                   r' = \<lparr>er_holder = p_token, er_lease_duration = p_duration, er_acquired_at = v_now,
                         er_renewed_at = v_now, er_transitions = tr, er_metadata = Some p_metadata\<rparr>
               in (row_record r', dput p_name r' tbl)
         | None \<Rightarrow>
             let r' = \<lparr>er_holder = p_token, er_lease_duration = p_duration, er_acquired_at = v_now,
                       er_renewed_at = v_now, er_transitions = 0, er_metadata = Some p_metadata\<rparr>
             in (row_record r', dput p_name r' tbl))"

definition pg_leader_release :: "string \<Rightarrow> token \<Rightarrow> seconds \<Rightarrow> election_table \<Rightarrow> bool \<times> election_table" where
  "pg_leader_release name token now tbl =
     (case dget tbl name of
        None \<Rightarrow> (False, tbl)
      | Some r \<Rightarrow>
          if er_holder r = token \<and> now < er_renewed_at r + er_lease_duration r then (True, ddel name tbl)
          else (False, tbl))"

definition pg_leader_get :: "string \<Rightarrow> seconds \<Rightarrow> election_table \<Rightarrow> leader_record option" where
  "pg_leader_get name now tbl =
     (case dget tbl name of
        None \<Rightarrow> None
      | Some r \<Rightarrow> if now < er_renewed_at r + er_lease_duration r then Some (row_record r) else None)"

section \<open>Leader election on Redis\<close>

type_synonym redis_hashes = "(string, (string, rfield) pydict) pydict"

text \<open>\<open>_to_record\<close> on the answer of \<open>HMGET\<close>: a missing field or one of another kind raises.\<close>

fun to_record :: "rfield option list \<Rightarrow> py_exc + leader_record" where
  "to_record [Some (FText h), Some (FNum d), Some (FNum a), Some (FNum r), Some (FInt n), Some (FMeta m)] =
     Inr \<lparr>holder = h, lease_duration = d, acquired_at = a, renewed_at = r, transitions = n, lr_metadata = m\<rparr>"
| "to_record _ = Inl ValueError"

definition record_fields :: "string list" where
  "record_fields = [''holder'', ''lease_duration'', ''acquired_at'', ''renewed_at'', ''transitions'', ''metadata'']"

definition hmget :: "string list \<Rightarrow> (string, rfield) pydict \<Rightarrow> rfield option list" where
  "hmget fs h = map (dget h) fs"

text \<open>\<open>HSET\<close> with the given fields, the key being made when it is missing.\<close>

definition hset :: "string \<Rightarrow> (string \<times> rfield) list \<Rightarrow> redis_hashes \<Rightarrow> redis_hashes" where
  "hset key fvs db = dput key (fold (\<lambda>(f, v) h. dput f v h) fvs (dget_or db key [])) db"

text \<open>
  \<open>tonumber\<close> of a field: none of a missing field or of text, with which the scripts then fail. The adapter
  writes all fields of a hash at once, so its own hashes have them.
\<close>

fun num_field :: "rfield option \<Rightarrow> real option" where
  "num_field (Some (FNum x)) = Some x"
| "num_field f = None"

fun int_field :: "rfield option \<Rightarrow> int option" where
  "int_field (Some (FInt x)) = Some x"
| "int_field f = None"

text \<open>Whether the lease of a hash is live: \<open>renewed_at + lease_duration\<close> lies ahead.\<close>

definition hash_live :: "seconds \<Rightarrow> (string, rfield) pydict \<Rightarrow> bool option" where
  "hash_live now h =
     (case (num_field (dget h ''renewed_at''), num_field (dget h ''lease_duration'')) of
        (Some r, Some d) \<Rightarrow> Some (now < r + d)
      | _ \<Rightarrow> None)"

definition lua_acquire_or_renew ::
  "string \<Rightarrow> token \<Rightarrow> seconds \<Rightarrow> (string, string) pydict \<Rightarrow> seconds \<Rightarrow> redis_hashes \<Rightarrow>
   (py_exc + rfield option list) \<times> redis_hashes"
where
  "lua_acquire_or_renew key token duration metadata now db =
     (let h = dget_or db key [];
          take_over = (\<lambda>tr. let db' = hset key [(''holder'', FText token), (''lease_duration'', FNum duration),
               (''acquired_at'', FNum now), (''renewed_at'', FNum now), (''transitions'', FInt tr),
               (''metadata'', FMeta metadata)] db in (Inr (hmget record_fields (dget_or db' key [])), db'))
      in case dget h ''holder'' of
           None \<Rightarrow> take_over 0
         | Some who \<Rightarrow>
             (case (hash_live now h, int_field (dget h ''transitions'')) of
                (Some live, Some prev) \<Rightarrow>
                  if live \<and> who \<noteq> FText token then (Inr (hmget record_fields h), db)
                  else if live then
                    let db' = hset key [(''lease_duration'', FNum duration), (''renewed_at'', FNum now),
                         (''metadata'', FMeta metadata)] db
                    in (Inr (hmget record_fields (dget_or db' key [])), db')
                  else take_over (if who \<noteq> FText token then prev + 1 else prev)
              | _ \<Rightarrow> (Inl ResponseError, db)))"

definition redis_leader_acquire ::
  "string \<Rightarrow> string \<Rightarrow> token \<Rightarrow> seconds \<Rightarrow> (string, string) pydict \<Rightarrow> seconds \<Rightarrow> redis_hashes \<Rightarrow>
   (py_exc + leader_record) \<times> redis_hashes"
where
  "redis_leader_acquire prefix name token duration metadata now db =
     (case lua_acquire_or_renew (prefix @ name) token duration metadata now db of
        (Inl e, db') \<Rightarrow> (Inl e, db')
      | (Inr raw, db') \<Rightarrow> (to_record raw, db'))"

definition redis_leader_release ::
  "string \<Rightarrow> string \<Rightarrow> token \<Rightarrow> seconds \<Rightarrow> redis_hashes \<Rightarrow> (py_exc + bool) \<times> redis_hashes"
where
  "redis_leader_release prefix name token now db =
     (let key = prefix @ name; h = dget_or db key []
      in case dget h ''holder'' of
           None \<Rightarrow> (Inr False, db)
         | Some who \<Rightarrow>
             (case hash_live now h of
                None \<Rightarrow> (Inl ResponseError, db)
              | Some live \<Rightarrow> if live \<and> who = FText token then (Inr True, ddel key db) else (Inr False, db)))"

definition redis_leader_get :: "string \<Rightarrow> string \<Rightarrow> seconds \<Rightarrow> redis_hashes \<Rightarrow> py_exc + leader_record option" where
  "redis_leader_get prefix name now db =
     (let h = dget_or db (prefix @ name) []
      in case dget h ''holder'' of
           None \<Rightarrow> Inr None
         | Some who \<Rightarrow>
             (case hash_live now h of
                None \<Rightarrow> Inl ResponseError
              | Some live \<Rightarrow> if \<not> live then Inr None else map_sum id Some (to_record (hmget record_fields h))))"

section \<open>Refinement of the in-memory election\<close>

text \<open>The records a table, or the hashes under a prefix, stand for.\<close>

definition table_records :: "election_table \<Rightarrow> leader_store" where
  "table_records tbl = map (\<lambda>(n, r). (n, row_record r)) tbl"

definition record_hash :: "leader_record \<Rightarrow> (string, rfield) pydict" where
  "record_hash r = [(''holder'', FText (holder r)), (''lease_duration'', FNum (lease_duration r)),
     (''acquired_at'', FNum (acquired_at r)), (''renewed_at'', FNum (renewed_at r)),
     (''transitions'', FInt (transitions r)), (''metadata'', FMeta (lr_metadata r))]"

definition record_hashes :: "string \<Rightarrow> leader_store \<Rightarrow> redis_hashes" where
  "record_hashes prefix st = map (\<lambda>(n, r). (prefix @ n, record_hash r)) st"

lemma table_records_get [simp]: "dget (table_records tbl) n = map_option row_record (dget tbl n)"
  unfolding table_records_def by (induction tbl) auto

lemma table_records_put [simp]: "table_records (dput n r tbl) = dput n (row_record r) (table_records tbl)"
  unfolding table_records_def by (induction tbl) auto

lemma table_records_del [simp]: "table_records (ddel n tbl) = ddel n (table_records tbl)"
  unfolding table_records_def by (induction tbl) (auto simp: AList.delete_eq)

lemma record_hashes_get [simp]: "dget (record_hashes prefix st) (prefix @ n) = map_option record_hash (dget st n)"
  unfolding record_hashes_def by (induction st) auto

lemma record_hashes_put: "record_hashes prefix (dput n r st) = dput (prefix @ n) (record_hash r) (record_hashes prefix st)"
  unfolding record_hashes_def by (induction st) auto

lemma record_hashes_del: "record_hashes prefix (ddel n st) = ddel (prefix @ n) (record_hashes prefix st)"
  unfolding record_hashes_def by (induction st) (auto simp: AList.delete_eq)

text \<open>
  The election on Postgres is the election in memory: for every table, acquiring, releasing and
  reading through the Postgres adapter answer what the in-memory adapter answers on the records of the table,
  and leave the table with the records the in-memory adapter leaves.
\<close>

theorem postgres_leader_refines_memory:
  "map_prod id table_records (le_acquire_or_renew name token d meta now tbl) =
     acquire_or_renew name token d meta now now (table_records tbl) \<and>
   map_prod id table_records (pg_leader_release name token now tbl) = leader_release name token now (table_records tbl) \<and>
   pg_leader_get name now tbl = leader_get name now (table_records tbl)"
proof (cases "dget tbl name")
  case None
  then show ?thesis
    by (simp add: le_acquire_or_renew_def pg_leader_release_def pg_leader_get_def acquire_or_renew_def leader_release_def
        leader_get_def leader_live_def row_record_def decode_metadata_def Let_def)
next
  case (Some r)
  then show ?thesis
    by (auto simp: le_acquire_or_renew_def pg_leader_release_def pg_leader_get_def acquire_or_renew_def leader_release_def
        leader_get_def leader_live_def row_record_def decode_metadata_def Let_def)
qed

text \<open>
  The election on Redis is the election in memory: on the hashes that stand for a store of
  records, the scripts answer the record the in-memory adapter answers and leave the hashes of the store it
  leaves.
\<close>

theorem redis_leader_refines_memory:
  "redis_leader_acquire prefix name token d meta now (record_hashes prefix st) =
     map_prod Inr (record_hashes prefix) (acquire_or_renew name token d meta now now st) \<and>
   redis_leader_release prefix name token now (record_hashes prefix st) =
     map_prod Inr (record_hashes prefix) (leader_release name token now st) \<and>
   redis_leader_get prefix name now (record_hashes prefix st) = Inr (leader_get name now st)"
proof (cases "dget st name")
  case None
  then show ?thesis
    by (simp add: redis_leader_acquire_def redis_leader_release_def redis_leader_get_def lua_acquire_or_renew_def
        acquire_or_renew_def leader_release_def leader_get_def leader_live_def hset_def hmget_def record_fields_def
        dget_or_def record_hashes_put record_hash_def hash_live_def Let_def)
next
  case (Some r)
  then show ?thesis
    by (auto simp: redis_leader_acquire_def redis_leader_release_def redis_leader_get_def lua_acquire_or_renew_def
        acquire_or_renew_def leader_release_def leader_get_def leader_live_def hset_def hmget_def record_fields_def
        dget_or_def record_hashes_put record_hashes_del record_hash_def hash_live_def Let_def)
qed

end
