(* ===== verification/Rate_Contract.thy ===== *)
theory Rate_Contract
  imports Prelude
begin

text \<open>
  The rate-limiter strategy protocol (\<open>resilience/_protocol.py\<close>): the result of a check and the
  contract of a strategy, the locale \<open>rate_strategy\<close>. A strategy's calls take one clock reading.
  The locale's lemmas are what \<open>RateLimiter\<close> relies on: waiting \<open>retry_after\<close> seconds is enough,
  a denied call costs nothing, and the quotas of two keys are independent.
\<close>

record rate_limit_result =
  allowed :: bool
  rl_limit :: int
  remaining :: int
  retry_after :: seconds
  reset_after :: seconds

locale rate_strategy =
  fixes acquire :: "seconds \<Rightarrow> key \<Rightarrow> int \<Rightarrow> 's \<Rightarrow> rate_limit_result \<times> 's"
    and peek :: "seconds \<Rightarrow> key \<Rightarrow> 's \<Rightarrow> rate_limit_result"
    and reset :: "key \<Rightarrow> 's \<Rightarrow> 's"
    and quota :: "'s \<Rightarrow> int"
    and valid :: "seconds \<Rightarrow> 's \<Rightarrow> bool"
  assumes valid_later: "valid t s \<Longrightarrow> t \<le> t' \<Longrightarrow> valid t' s"
    and valid_acquire: "valid t s \<Longrightarrow> 1 \<le> c \<Longrightarrow> c \<le> quota s \<Longrightarrow> acquire t k c s = (r, s') \<Longrightarrow>
      valid t s' \<and> quota s' = quota s"
    and valid_reset: "valid t s \<Longrightarrow> valid t (reset k s) \<and> quota (reset k s) = quota s"
    and peek_predicts: "valid t s \<Longrightarrow> acquire t k 1 s = (r, s') \<Longrightarrow> allowed (peek t k s) = allowed r"
    and denied_retry: "valid t s \<Longrightarrow> 1 \<le> c \<Longrightarrow> c \<le> quota s \<Longrightarrow> acquire t k c s = (r, s') \<Longrightarrow>
      \<not> allowed r \<Longrightarrow> 0 < retry_after r \<and>
        (\<forall>t' \<ge> t + retry_after r. allowed (fst (acquire t' k c s')))"
    and denied_free: "valid t s \<Longrightarrow> acquire t k c s = (r, s') \<Longrightarrow> \<not> allowed r \<Longrightarrow> t \<le> t' \<Longrightarrow>
      peek t' j s' = peek t' j s"
    and reset_restores: "valid t s \<Longrightarrow> 1 \<le> c \<Longrightarrow> c \<le> quota s \<Longrightarrow>
      allowed (fst (acquire t k c (reset k s)))"
    and keys_independent: "valid t s \<Longrightarrow> 1 \<le> c \<Longrightarrow> acquire t k c s = (r, s') \<Longrightarrow> j \<noteq> k \<Longrightarrow> t \<le> t' \<Longrightarrow>
      peek t' j s' = peek t' j s"
    and remaining_bounds: "valid t s \<Longrightarrow> 1 \<le> c \<Longrightarrow> c \<le> quota s \<Longrightarrow> acquire t k c s = (r, s') \<Longrightarrow>
      0 \<le> remaining r \<and> remaining r \<le> quota s \<and> 0 \<le> retry_after r \<and> 0 \<le> reset_after r"
begin

text \<open>Two attempts are enough for a caller that sleeps what it is told and is alone on its key.\<close>

lemma second_attempt_allowed:
  assumes "valid t s" "1 \<le> c" "c \<le> quota s" "acquire t k c s = (r, s')" "\<not> allowed r"
    and "t + max (retry_after r) d \<le> t'"
  shows "allowed (fst (acquire t' k c s'))"
  using denied_retry [OF assms(1-5)] assms(6) by auto

lemma denied_then_peek:
  assumes "valid t s" "acquire t k 1 s = (r, s')" "\<not> allowed r" "1 \<le> quota s"
  shows "\<not> allowed (peek t k s')"
  using peek_predicts [OF assms(1,2)] denied_free [OF assms(1,2,3) order_refl, of k] assms(3) by simp

end

end
