(* ===== verification/Token_Bucket.thy ===== *)
theory Token_Bucket
  imports Rate_Contract Text
begin

text \<open>
  The in-memory token buckets (\<open>resilience/ratelimiter/memory.py\<close>): the synchronous
  \<open>MemoryTokenBucket\<close> and the strategy \<open>_MemoryTokenBucket\<close> of the rate limiter adapter. Both hold
  a capacity, a refill rate and, per key, the tokens and the time of the last refill; both drop
  entries that have refilled once more than \<open>_EVICTION_THRESHOLD\<close> keys are stored.

  The abstract view is \<open>tb_level s k t\<close>, the tokens of a key at a time. Eviction does not change it
  while all entries belong to buckets of this configuration; the interpretation \<open>tbs\<close> discharges the
  strategy contract.
\<close>

record token_bucket =
  tb_capacity :: int
  tb_refill_rate :: real
  tb_state :: "(key, real \<times> seconds) pydict"

definition EVICTION_THRESHOLD :: nat where
  "EVICTION_THRESHOLD = 1000"

section \<open>Operations\<close>

definition memory_token_bucket_init :: "int \<Rightarrow> real \<Rightarrow> py_exc + token_bucket" where
  "memory_token_bucket_init capacity refill_rate =
     (if capacity \<le> 0 then Inl ValueError
      else if refill_rate \<le> 0 then Inl ValueError
      else Inr \<lparr>tb_capacity = capacity, tb_refill_rate = refill_rate, tb_state = []\<rparr>)"

definition tb_refill :: "token_bucket \<Rightarrow> real \<Rightarrow> seconds \<Rightarrow> seconds \<Rightarrow> real" where
  "tb_refill s tokens last_at now =
     min (real_of_int (tb_capacity s)) (tokens + (now - last_at) * tb_refill_rate s)"

definition tb_full_keys :: "token_bucket \<Rightarrow> seconds \<Rightarrow> key list" where
  "tb_full_keys s now = [k. (k, tokens, last_at) \<leftarrow> tb_state s,
     tb_refill s tokens last_at now \<ge> real_of_int (tb_capacity s)]"

definition tb_maybe_evict :: "seconds \<Rightarrow> token_bucket \<Rightarrow> token_bucket" where
  "tb_maybe_evict now s =
     (if length (tb_state s) \<le> EVICTION_THRESHOLD then s
      else s\<lparr>tb_state := fold AList.delete (tb_full_keys s now) (tb_state s)\<rparr>)"

text \<open>\<open>tokens, last_at = self._state.get(key, (self._capacity, now))\<close>, then the refill.\<close>

definition tb_current :: "token_bucket \<Rightarrow> key \<Rightarrow> seconds \<Rightarrow> real" where
  "tb_current s key now =
     (let (tokens, last_at) = dget_or (tb_state s) key (real_of_int (tb_capacity s), now)
      in tb_refill s tokens last_at now)"

definition tb_store :: "seconds \<Rightarrow> key \<Rightarrow> real \<Rightarrow> token_bucket \<Rightarrow> token_bucket" where
  "tb_store now key tokens s =
     tb_maybe_evict now (s\<lparr>tb_state := dput key (tokens, now) (tb_state s)\<rparr>)"

definition try_acquire :: "seconds \<Rightarrow> key \<Rightarrow> real \<Rightarrow> token_bucket \<Rightarrow> (py_exc + bool) \<times> token_bucket" where
  "try_acquire now key cost s =
     (if cost \<le> 0 \<or> cost > real_of_int (tb_capacity s) then (Inl ValueError, s)
      else let tokens = tb_current s key now in
        if tokens \<ge> cost then (Inr True, tb_store now key (tokens - cost) s)
        else (Inr False, tb_store now key tokens s))"

definition bucket_peek :: "seconds \<Rightarrow> key \<Rightarrow> token_bucket \<Rightarrow> real" where
  "bucket_peek now key s = tb_current s key now"

definition bucket_reset :: "key \<Rightarrow> token_bucket \<Rightarrow> token_bucket" where
  "bucket_reset key s = s\<lparr>tb_state := ddel key (tb_state s)\<rparr>"

definition token_bucket_acquire ::
  "seconds \<Rightarrow> key \<Rightarrow> int \<Rightarrow> token_bucket \<Rightarrow> rate_limit_result \<times> token_bucket"
where
  "token_bucket_acquire now key cost s =
     (let capacity = real_of_int (tb_capacity s); rate = tb_refill_rate s;
          tokens = tb_current s key now
      in if tokens \<ge> real_of_int cost then
           let left = tokens - real_of_int cost
           in (\<lparr>allowed = True, rl_limit = py_int capacity, remaining = py_int left,
                retry_after = 0, reset_after = (capacity - left) / rate\<rparr>,
               tb_store now key left s)
         else (\<lparr>allowed = False, rl_limit = py_int capacity, remaining = py_int tokens,
                retry_after = (real_of_int cost - tokens) / rate,
                reset_after = (capacity - tokens) / rate\<rparr>,
               tb_store now key tokens s))"

definition token_bucket_peek :: "seconds \<Rightarrow> key \<Rightarrow> token_bucket \<Rightarrow> rate_limit_result" where
  "token_bucket_peek now key s =
     (let capacity = real_of_int (tb_capacity s); rate = tb_refill_rate s;
          tokens = tb_current s key now
      in if tokens \<ge> 1 then
           \<lparr>allowed = True, rl_limit = py_int capacity, remaining = py_int tokens,
            retry_after = 0, reset_after = (capacity - tokens) / rate\<rparr>
         else \<lparr>allowed = False, rl_limit = py_int capacity, remaining = py_int tokens,
            retry_after = (1 - tokens) / rate, reset_after = (capacity - tokens) / rate\<rparr>)"

definition token_bucket_reset :: "key \<Rightarrow> token_bucket \<Rightarrow> token_bucket" where
  "token_bucket_reset key s = s\<lparr>tb_state := ddel key (tb_state s)\<rparr>"

text \<open>Requests of any clients: time, key and cost; the tokens granted to one key along them.\<close>

type_synonym rate_request = "seconds \<times> key \<times> int"

fun tb_granted :: "key \<Rightarrow> rate_request list \<Rightarrow> token_bucket \<Rightarrow> int" where
  "tb_granted k [] s = 0"
| "tb_granted k ((t, j, c) # rs) s =
     (case token_bucket_acquire t j c s of (r, s') \<Rightarrow>
        (if j = k \<and> allowed r then c else 0) + tb_granted k rs s')"

fun requests_ok :: "seconds \<Rightarrow> int \<Rightarrow> rate_request list \<Rightarrow> bool" where
  "requests_ok t q [] = True"
| "requests_ok t q ((t', k, c) # rs) = (t \<le> t' \<and> 1 \<le> c \<and> c \<le> q \<and> requests_ok t' q rs)"

fun requests_end :: "seconds \<Rightarrow> rate_request list \<Rightarrow> seconds" where
  "requests_end t [] = t"
| "requests_end t ((t', k, c) # rs) = requests_end t' rs"

section \<open>The level of a key\<close>

text \<open>The configuration is positive and every entry was written by this bucket, not in the future.\<close>

definition tb_ok :: "seconds \<Rightarrow> token_bucket \<Rightarrow> bool" where
  "tb_ok t s \<longleftrightarrow> 0 < tb_capacity s \<and> 0 < tb_refill_rate s \<and> dwf (tb_state s) \<and>
     (\<forall>k tokens last_at. dget (tb_state s) k = Some (tokens, last_at) \<longrightarrow>
        0 \<le> tokens \<and> tokens \<le> real_of_int (tb_capacity s) \<and> last_at \<le> t)"

abbreviation tb_level :: "token_bucket \<Rightarrow> key \<Rightarrow> seconds \<Rightarrow> real" where
  "tb_level s k t \<equiv> tb_current s k t"

lemma tb_level_eq:
  "tb_level s k t = (case dget (tb_state s) k of
     None \<Rightarrow> real_of_int (tb_capacity s) | Some (tokens, last_at) \<Rightarrow> tb_refill s tokens last_at t)"
  by (auto simp: tb_current_def tb_refill_def dget_or_def split: option.splits prod.splits)

lemma tb_okD:
  assumes "tb_ok t s"
  shows "0 < tb_capacity s" "0 < tb_refill_rate s" "dwf (tb_state s)"
    and "dget (tb_state s) k = Some (tokens, last_at) \<Longrightarrow>
      0 \<le> tokens \<and> tokens \<le> real_of_int (tb_capacity s) \<and> last_at \<le> t"
  using assms by (auto simp: tb_ok_def)

lemma tb_ok_later: "tb_ok t s \<Longrightarrow> t \<le> t' \<Longrightarrow> tb_ok t' s"
  by (force simp: tb_ok_def)

lemma tb_level_bounds:
  assumes "tb_ok t s"
  shows "0 \<le> tb_level s k t" "tb_level s k t \<le> real_of_int (tb_capacity s)"
proof -
  show "tb_level s k t \<le> real_of_int (tb_capacity s)"
    by (auto simp: tb_level_eq tb_refill_def split: option.splits)
  have "0 \<le> (t - last_at) * tb_refill_rate s" if "last_at \<le> t" for last_at
    using that tb_okD(2) [OF assms] by simp
  then show "0 \<le> tb_level s k t"
    using tb_okD(1) [OF assms] tb_okD(4) [OF assms]
    by (force simp: tb_level_eq tb_refill_def split: option.splits)
qed

text \<open>Left alone, the level grows at the refill rate up to the capacity.\<close>

lemma tb_level_later:
  assumes "tb_ok t s" "t \<le> t'"
  shows "tb_level s k t' = min (real_of_int (tb_capacity s)) (tb_level s k t + (t' - t) * tb_refill_rate s)"
proof (cases "dget (tb_state s) k")
  case None
  then show ?thesis using assms tb_okD(2) [OF assms(1)] by (simp add: tb_level_eq)
next
  case (Some p)
  obtain tokens last_at where p: "p = (tokens, last_at)" by (cases p)
  have "0 \<le> (t' - t) * tb_refill_rate s" using assms(2) tb_okD(2) [OF assms(1)] by simp
  moreover have "(t' - last_at) * tb_refill_rate s = (t - last_at) * tb_refill_rate s + (t' - t) * tb_refill_rate s"
    by (simp add: algebra_simps)
  ultimately show ?thesis using Some p by (simp add: tb_level_eq tb_refill_def)
qed

lemma tb_full_keys_iff:
  assumes "tb_ok t s" "now \<le> t'"
  shows "k \<in> set (tb_full_keys s now) \<longleftrightarrow>
    dget (tb_state s) k \<noteq> None \<and> tb_level s k now \<ge> real_of_int (tb_capacity s)"
proof -
  have "k \<in> set (tb_full_keys s now) \<longleftrightarrow> (\<exists>tokens last_at. (k, tokens, last_at) \<in> set (tb_state s) \<and>
      tb_refill s tokens last_at now \<ge> real_of_int (tb_capacity s))"
    by (force simp: tb_full_keys_def)
  also have "\<dots> \<longleftrightarrow> (\<exists>tokens last_at. dget (tb_state s) k = Some (tokens, last_at) \<and>
      tb_refill s tokens last_at now \<ge> real_of_int (tb_capacity s))"
    using dget_iff [OF tb_okD(3) [OF assms(1)]] by blast
  finally show ?thesis by (auto simp: tb_level_eq split: option.splits)
qed

lemma tb_evict_fields [simp]:
  "tb_capacity (tb_maybe_evict now s) = tb_capacity s" "tb_refill_rate (tb_maybe_evict now s) = tb_refill_rate s"
  by (simp_all add: tb_maybe_evict_def)

text \<open>Dropping the refilled keys is invisible: their level is the capacity, as for a fresh key.\<close>

lemma tb_evict_level:
  assumes "tb_ok now s" "now \<le> t"
  shows "tb_level (tb_maybe_evict now s) k t = tb_level s k t"
proof (cases "length (tb_state s) \<le> EVICTION_THRESHOLD \<or> k \<notin> set (tb_full_keys s now)")
  case True
  then show ?thesis by (auto simp: tb_maybe_evict_def tb_level_eq tb_refill_def split: option.splits)
next
  case False
  then have "dget (tb_state (tb_maybe_evict now s)) k = None" by (simp add: tb_maybe_evict_def)
  then have "tb_level (tb_maybe_evict now s) k t = real_of_int (tb_capacity s)"
    by (simp add: tb_level_eq)
  moreover have "tb_level s k now = real_of_int (tb_capacity s)"
    using False tb_full_keys_iff [OF assms(1) order_refl] tb_level_bounds(2) [OF assms(1), of k] by force
  moreover have "0 \<le> (t - now) * tb_refill_rate s" using assms tb_okD(2) [OF assms(1)] by simp
  ultimately show ?thesis using tb_level_later [OF assms, of k] by simp
qed

lemma tb_ok_evict: "tb_ok now s \<Longrightarrow> tb_ok now (tb_maybe_evict now s)"
  unfolding tb_ok_def tb_maybe_evict_def by (auto simp: dwf_fold_ddel split: if_splits)

lemma tb_ok_put:
  assumes "tb_ok now s" "0 \<le> x" "x \<le> real_of_int (tb_capacity s)"
  shows "tb_ok now (s\<lparr>tb_state := dput k (x, now) (tb_state s)\<rparr>)"
  using assms unfolding tb_ok_def by (auto simp: pd.wf_put split: if_splits)

lemma tb_store_fields [simp]:
  "tb_capacity (tb_store now k x s) = tb_capacity s" "tb_refill_rate (tb_store now k x s) = tb_refill_rate s"
  by (simp_all add: tb_store_def)

lemma tb_ok_store:
  "tb_ok now s \<Longrightarrow> 0 \<le> x \<Longrightarrow> x \<le> real_of_int (tb_capacity s) \<Longrightarrow> tb_ok now (tb_store now k x s)"
  unfolding tb_store_def by (intro tb_ok_evict tb_ok_put)

lemma tb_store_level:
  assumes "tb_ok now s" "0 \<le> x" "x \<le> real_of_int (tb_capacity s)" "now \<le> t"
  shows "tb_level (tb_store now k x s) j t =
    (if j = k then min (real_of_int (tb_capacity s)) (x + (t - now) * tb_refill_rate s) else tb_level s j t)"
  unfolding tb_store_def tb_evict_level [OF tb_ok_put [OF assms(1-3)] assms(4)]
  by (simp add: tb_level_eq tb_refill_def split: option.splits)

lemma tb_ok_reset: "tb_ok t s \<Longrightarrow> tb_ok t (token_bucket_reset k s)"
  unfolding tb_ok_def token_bucket_reset_def by (auto simp: pd.wf_del split: if_splits)

lemma tb_reset_level:
  "tb_level (token_bucket_reset k s) j t = (if j = k then real_of_int (tb_capacity s) else tb_level s j t)"
  by (simp add: token_bucket_reset_def tb_level_eq tb_refill_def split: option.splits)

section \<open>Decisions\<close>

text \<open>An acquire in terms of the level: what it answers and what it stores.\<close>

lemma token_bucket_acquire_result:
  "allowed (fst (token_bucket_acquire t k c s)) \<longleftrightarrow> real_of_int c \<le> tb_level s k t"
  "\<not> allowed (fst (token_bucket_acquire t k c s)) \<Longrightarrow>
     retry_after (fst (token_bucket_acquire t k c s)) = (real_of_int c - tb_level s k t) / tb_refill_rate s"
  "allowed (fst (token_bucket_acquire t k c s)) \<Longrightarrow> retry_after (fst (token_bucket_acquire t k c s)) = 0"
  by (auto simp: token_bucket_acquire_def Let_def)

lemma token_bucket_acquire_state:
  "snd (token_bucket_acquire t k c s) =
     tb_store t k (if real_of_int c \<le> tb_level s k t then tb_level s k t - real_of_int c else tb_level s k t) s"
  by (simp add: token_bucket_acquire_def Let_def)

lemma token_bucket_acquire_ok:
  assumes "tb_ok t s" "0 \<le> c"
  shows "tb_ok t (snd (token_bucket_acquire t k c s))"
  using tb_level_bounds [OF assms(1), of k] assms by (simp add: token_bucket_acquire_state tb_ok_store)

lemma token_bucket_acquire_level:
  assumes "tb_ok t s" "0 \<le> c" "t \<le> u"
  shows "tb_level (snd (token_bucket_acquire t k c s)) j u =
      (if j = k \<and> real_of_int c \<le> tb_level s k t
       then min (real_of_int (tb_capacity s)) (tb_level s k t - real_of_int c + (u - t) * tb_refill_rate s)
       else tb_level s j u)"
proof (cases "real_of_int c \<le> tb_level s k t")
  case True
  have "0 \<le> tb_level s k t - real_of_int c" "tb_level s k t - real_of_int c \<le> real_of_int (tb_capacity s)"
    using tb_level_bounds [OF assms(1), of k] True assms(2) by auto
  from tb_store_level [OF assms(1) this assms(3)] True show ?thesis
    by (simp add: token_bucket_acquire_state)
next
  case False
  from tb_store_level [OF assms(1) tb_level_bounds [OF assms(1)] assms(3)] False show ?thesis
    using tb_level_later [OF assms(1,3)] by (simp add: token_bucket_acquire_state)
qed

lemma token_bucket_acquire_fields [simp]:
  "tb_capacity (snd (token_bucket_acquire t k c s)) = tb_capacity s"
  "tb_refill_rate (snd (token_bucket_acquire t k c s)) = tb_refill_rate s"
  by (simp_all add: token_bucket_acquire_state)

lemma token_bucket_peek_level:
  "tb_level s k t = tb_level s' k t \<Longrightarrow> tb_capacity s = tb_capacity s' \<Longrightarrow>
   tb_refill_rate s = tb_refill_rate s' \<Longrightarrow> token_bucket_peek t k s = token_bucket_peek t k s'"
  by (simp add: token_bucket_peek_def)

lemma token_bucket_retry_enough:
  assumes ok: "tb_ok t s" and c: "1 \<le> c" "c \<le> tb_capacity s"
    and denied: "real_of_int c > tb_level s k t"
    and t': "t + (real_of_int c - tb_level s k t) / tb_refill_rate s \<le> t'"
  shows "t \<le> t'" "real_of_int c \<le> tb_level s k t'"
proof -
  have r: "0 < tb_refill_rate s" by (rule tb_okD(2) [OF ok])
  have "0 < (real_of_int c - tb_level s k t) / tb_refill_rate s" using denied r by simp
  with t' show le: "t \<le> t'" by simp
  from t' r have "real_of_int c - tb_level s k t \<le> (t' - t) * tb_refill_rate s"
    by (simp add: field_simps)
  then show "real_of_int c \<le> tb_level s k t'"
    using tb_level_later [OF ok le, of k] c by simp
qed

interpretation tbs: rate_strategy token_bucket_acquire token_bucket_peek token_bucket_reset tb_capacity tb_ok
proof (unfold_locales, goal_cases)
  case (1 t s t')
  then show ?case by (rule tb_ok_later)
next
  case (2 t s c k r s')
  then show ?case using token_bucket_acquire_ok [OF 2(1), of c k] token_bucket_acquire_fields(1) [of t k c s]
    by simp
next
  case (3 t s k)
  then show ?case using tb_ok_reset [OF 3] by (simp add: token_bucket_reset_def)
next
  case (4 t s k r s')
  then show ?case using token_bucket_acquire_result(1) [of t k 1 s]
    by (auto simp: token_bucket_peek_def Let_def)
next
  case (5 t s c k r s')
  let ?s' = "snd (token_bucket_acquire t k c s)"
  have d: "\<not> real_of_int c \<le> tb_level s k t"
    and ra: "retry_after r = (real_of_int c - tb_level s k t) / tb_refill_rate s"
    using 5(4,5) token_bucket_acquire_result(1,2) [of t k c s] by auto
  have "allowed (fst (token_bucket_acquire t' k c s'))" if "t + retry_after r \<le> t'" for t'
    using token_bucket_retry_enough [OF 5(1-3), of k t'] that d ra 5(2,4)
      token_bucket_acquire_level [OF 5(1), of c t' k k]
    by (simp add: token_bucket_acquire_result(1))
  moreover have "0 < retry_after r" using d ra tb_okD(2) [OF 5(1)] by simp
  ultimately show ?case by blast
next
  case (6 t s k c r s' t' j)
  have d: "\<not> real_of_int c \<le> tb_level s k t" using 6(2,3) token_bucket_acquire_result(1) [of t k c s] by auto
  then have "tb_level s' j t' = tb_level s j t'"
    using tb_store_level [OF 6(1) tb_level_bounds [OF 6(1)] 6(4), of k k j] 6(1,2,4)
      token_bucket_acquire_state [of t k c s] tb_level_later [OF 6(1,4), of k] by simp
  then show ?case using 6(2) token_bucket_acquire_fields [of t k c s]
    by (intro token_bucket_peek_level) auto
next
  case (7 t s c k)
  then show ?case by (simp add: token_bucket_acquire_result(1) tb_reset_level)
next
  case (8 t s c k r s' j t')
  then have "tb_level s' j t' = tb_level s j t'"
    using token_bucket_acquire_level [OF 8(1) _ 8(5), of c k j] by simp
  then show ?case using 8(3) token_bucket_acquire_fields [of t k c s]
    by (intro token_bucket_peek_level) auto
next
  case (9 t s c k r s')
  let ?l = "tb_level s k t"
  note b = tb_level_bounds [OF 9(1), of k] and rate = tb_okD(2) [OF 9(1)]
  have r: "r = fst (token_bucket_acquire t k c s)" using 9(4) by simp
  show ?case
  proof (cases "real_of_int c \<le> ?l")
    case True
    with b 9(2) have "0 \<le> py_int (?l - real_of_int c) \<and> py_int (?l - real_of_int c) \<le> tb_capacity s"
      by (intro py_int_bounds) auto
    with True b 9(2) rate show ?thesis unfolding r by (simp add: token_bucket_acquire_def Let_def)
  next
    case False
    have "0 \<le> py_int ?l \<and> py_int ?l \<le> tb_capacity s" using b by (intro py_int_bounds)
    with False b rate show ?thesis unfolding r by (simp add: token_bucket_acquire_def Let_def)
  qed
qed

section \<open>Guarantees\<close>

lemma tb_granted_level:
  assumes "tb_ok t s" "requests_ok t (tb_capacity s) rs"
  shows "real_of_int (tb_granted k rs s) \<le> tb_level s k t + (requests_end t rs - t) * tb_refill_rate s"
  using assms
proof (induction rs arbitrary: t s)
  case Nil
  then show ?case using tb_level_bounds(1) [OF Nil(1), of k] by simp
next
  case (Cons x rs)
  obtain u j c where x: "x = (u, j, c)" by (cases x)
  obtain r s' where acq: "token_bucket_acquire u j c s = (r, s')" by (cases "token_bucket_acquire u j c s")
  from Cons.prems(2) x have u: "t \<le> u" "1 \<le> c" and rs: "requests_ok u (tb_capacity s') rs"
    using token_bucket_acquire_fields(1) [of u j c s] acq by auto
  have ok: "tb_ok u s" by (rule tb_ok_later [OF Cons.prems(1) u(1)])
  have ok': "tb_ok u s'" using token_bucket_acquire_ok [OF ok, of c j] acq u by simp
  have rate: "tb_refill_rate s' = tb_refill_rate s" using token_bucket_acquire_fields(2) [of u j c s] acq by simp
  have lev: "tb_level s' k u = (if k = j \<and> real_of_int c \<le> tb_level s j u then tb_level s k u - real_of_int c
      else tb_level s k u)"
    using token_bucket_acquire_level [OF ok _ order_refl, of c j k] acq u tb_level_bounds [OF ok, of k] by auto
  have al: "allowed r \<longleftrightarrow> real_of_int c \<le> tb_level s j u"
    using token_bucket_acquire_result(1) [of u j c s] acq by simp
  have "tb_level s k u \<le> tb_level s k t + (u - t) * tb_refill_rate s"
    using tb_level_later [OF Cons.prems(1) u(1), of k] by simp
  with Cons.IH [OF ok' rs] x acq lev al rate show ?case by (auto simp: algebra_simps split: if_splits)
qed

text \<open>
  C7. The token bucket enforces its rate: over any sequence of requests of any clients on any keys,
  the tokens granted to one key are at most the capacity plus the refill over the elapsed time,
  although idle entries are evicted along the way.
\<close>

theorem token_bucket_rate_bound:
  assumes "tb_ok t s" "requests_ok t (tb_capacity s) rs"
  shows "real_of_int (tb_granted k rs s)
    \<le> real_of_int (tb_capacity s) + (requests_end t rs - t) * tb_refill_rate s"
  using tb_granted_level [OF assms, of k] tb_level_bounds(2) [OF assms(1), of k] by simp

definition bucket_example :: token_bucket where
  "bucket_example = \<lparr>tb_capacity = 2, tb_refill_rate = 1 / 2, tb_state = []\<rparr>"

theorem token_bucket_rate_bound_witness:
  "tb_granted ''u'' [(0, ''u'', 1), (0, ''u'', 1), (0, ''u'', 1), (2, ''u'', 1)] bucket_example = 3 \<and>
   real_of_int (tb_granted ''u'' [(0, ''u'', 1), (0, ''u'', 1), (0, ''u'', 1), (2, ''u'', 1)] bucket_example)
     \<le> 2 + 2 * (1 / 2)"
proof -
  have "tb_granted ''u'' [(0, ''u'', 1), (0, ''u'', 1), (0, ''u'', 1), (2, ''u'', 1)] bucket_example = 3"
    by (simp add: bucket_example_def token_bucket_acquire_def tb_current_def tb_refill_def tb_store_def
        tb_maybe_evict_def EVICTION_THRESHOLD_def Let_def)
  moreover have "tb_ok 0 bucket_example" by (simp add: tb_ok_def bucket_example_def)
  ultimately show ?thesis
    using token_bucket_rate_bound [of 0 bucket_example
        "[(0, ''u'', 1), (0, ''u'', 1), (0, ''u'', 1), (2, ''u'', 1)]" "''u''"]
    by (simp add: bucket_example_def)
qed

text \<open>
  \<open>retry_after\<close> of a denied request is exact: if the key is left alone, the same request is
  denied at every time before \<open>now + retry_after\<close> and allowed at every time from then on.
\<close>

theorem token_bucket_retry_exact:
  assumes "tb_ok t s" "1 \<le> c" "c \<le> tb_capacity s"
    and "token_bucket_acquire t k c s = (r, s')" "\<not> allowed r" "t \<le> t'"
  shows "allowed (fst (token_bucket_acquire t' k c s')) \<longleftrightarrow> t + retry_after r \<le> t'"
proof -
  have d: "\<not> real_of_int c \<le> tb_level s k t"
    and ra: "retry_after r = (real_of_int c - tb_level s k t) / tb_refill_rate s"
    using assms(4,5) token_bucket_acquire_result(1,2) [of t k c s] by auto
  have r: "0 < tb_refill_rate s" by (rule tb_okD(2) [OF assms(1)])
  have "tb_level s' k t' = min (real_of_int (tb_capacity s)) (tb_level s k t + (t' - t) * tb_refill_rate s)"
    using token_bucket_acquire_level [OF assms(1) _ assms(6), of c k k] d assms(2,4)
      tb_level_later [OF assms(1,6), of k] by simp
  then have "allowed (fst (token_bucket_acquire t' k c s')) \<longleftrightarrow>
      real_of_int c \<le> tb_level s k t + (t' - t) * tb_refill_rate s"
    using assms(3) by (simp add: token_bucket_acquire_result(1))
  also have "\<dots> \<longleftrightarrow> t + retry_after r \<le> t'" using r by (auto simp: ra field_simps)
  finally show ?thesis .
qed

theorem token_bucket_retry_exact_witness:
  "allowed (fst (token_bucket_acquire 5 ''u'' 2 (snd (token_bucket_acquire 1 ''u'' 2
     (snd (token_bucket_acquire 1 ''u'' 2 bucket_example)))))) \<longleftrightarrow> (1::real) + 4 \<le> 5"
proof -
  let ?s = "snd (token_bucket_acquire 1 ''u'' 2 bucket_example)"
  have ok: "tb_ok 1 ?s" by (rule token_bucket_acquire_ok) (simp_all add: tb_ok_def bucket_example_def)
  have "\<not> allowed (fst (token_bucket_acquire 1 ''u'' 2 ?s))"
    and "retry_after (fst (token_bucket_acquire 1 ''u'' 2 ?s)) = 4"
    by (simp_all add: bucket_example_def token_bucket_acquire_def tb_current_def tb_refill_def tb_store_def
        tb_maybe_evict_def EVICTION_THRESHOLD_def Let_def)
  then show ?thesis
    using token_bucket_retry_exact [OF ok _ _ prod.collapse [symmetric], of 2 "''u''" 5]
    by (simp add: bucket_example_def)
qed

text \<open>
  On one adapter, the sweep of one limiter can refill the buckets of another: the adapter hands
  the same dictionary to every strategy, and a strategy evicts whatever is full under its own
  capacity. A drained bucket of a larger limiter that holds at least the smaller limiter's capacity
  is deleted, and its next check finds it full.
\<close>

theorem token_bucket_cross_eviction:
  assumes "tb_state small = tb_state large" "length (tb_state small) > EVICTION_THRESHOLD"
    and "dwf (tb_state small)" "dget (tb_state small) k = Some (tokens, last_at)" "last_at \<le> now"
    and "real_of_int (tb_capacity small) \<le> tokens" "0 < tb_refill_rate small" "j \<noteq> k"
  shows "bucket_peek now k (large\<lparr>tb_state := tb_state (snd (token_bucket_acquire now j c small))\<rparr>)
    = real_of_int (tb_capacity large)"
proof -
  let ?x = "if real_of_int c \<le> tb_level small j now then tb_level small j now - real_of_int c
    else tb_level small j now"
  let ?s = "small\<lparr>tb_state := dput j (?x, now) (tb_state small)\<rparr>"
  have "length (tb_state ?s) > EVICTION_THRESHOLD" using assms(2) by (simp add: length_dput)
  moreover have "k \<in> set (tb_full_keys ?s now)"
  proof -
    have "(k, tokens, last_at) \<in> set (tb_state ?s)"
      using assms(3,4,8) dget_iff [OF pd.wf_put [OF assms(3)]] by fastforce
    moreover have "0 \<le> (now - last_at) * tb_refill_rate small" using assms(5,7) by simp
    with assms(6) have "tb_refill ?s tokens last_at now \<ge> real_of_int (tb_capacity ?s)"
      by (simp add: tb_refill_def)
    ultimately show ?thesis by (force simp: tb_full_keys_def)
  qed
  ultimately have "dget (tb_state (snd (token_bucket_acquire now j c small))) k = None"
    by (simp add: token_bucket_acquire_state tb_store_def tb_maybe_evict_def)
  then show ?thesis by (simp add: bucket_peek_def tb_level_eq)
qed

definition crowded_state :: "(key, real \<times> seconds) pydict" where
  "crowded_state = (''big'', 5, 0) # map (\<lambda>i. (CHR ''k'' # show_nat i, 0, 0)) [0..<1001]"

lemma crowded_state_ok:
  "dwf crowded_state" "length crowded_state > EVICTION_THRESHOLD" "dget crowded_state ''big'' = Some (5, 0)"
proof -
  show "dwf crowded_state"
    by (auto simp: dwf_def crowded_state_def distinct_map inj_on_def comp_def)
  show "length crowded_state > EVICTION_THRESHOLD"
    by (simp add: crowded_state_def EVICTION_THRESHOLD_def del: upt_Suc upt_conv_Cons)
  show "dget crowded_state ''big'' = Some (5, 0)"
    by (simp add: crowded_state_def)
qed

theorem token_bucket_cross_eviction_witness:
  "bucket_peek 0 ''big'' \<lparr>tb_capacity = 1000, tb_refill_rate = 1, tb_state = crowded_state\<rparr> = 5 \<and>
   bucket_peek 0 ''big'' \<lparr>tb_capacity = 1000, tb_refill_rate = 1, tb_state = tb_state (snd
     (token_bucket_acquire 0 ''j'' 1 \<lparr>tb_capacity = 1, tb_refill_rate = 1, tb_state = crowded_state\<rparr>))\<rparr> = 1000"
proof -
  let ?small = "\<lparr>tb_capacity = 1, tb_refill_rate = 1, tb_state = crowded_state\<rparr>"
    and ?large = "\<lparr>tb_capacity = 1000, tb_refill_rate = 1, tb_state = crowded_state\<rparr>"
  have "bucket_peek 0 ''big'' ?large = 5"
    by (simp add: bucket_peek_def tb_current_def dget_or_def crowded_state_ok tb_refill_def)
  moreover have "bucket_peek 0 ''big''
      (?large\<lparr>tb_state := tb_state (snd (token_bucket_acquire 0 ''j'' 1 ?small))\<rparr>) = 1000"
    using token_bucket_cross_eviction [of ?small ?large "''big''" 5 0 0 "''j''" 1]
    by (simp add: crowded_state_ok)
  ultimately show ?thesis by simp
qed

end
