(* ===== verification/Gcra.thy ===== *)
theory Gcra
  imports Token_Bucket
begin

text \<open>
  The in-memory sliding window (\<open>resilience/ratelimiter/memory.py\<close>, \<open>_MemoryGCRA\<close>): one
  theoretical arrival time per key. The decision rounds the free room to the nearest whole
  request, \<open>floor(diff / emission_interval + 0.5)\<close>, and refuses when that is negative, so the
  enforced threshold lies half an emission interval above the nominal one. The interpretation
  \<open>gcs\<close> discharges the strategy contract.
\<close>

record gcra =
  g_limit :: int
  g_window :: seconds
  g_state :: "(key, seconds) pydict"

definition emission_interval :: "gcra \<Rightarrow> real" where
  "emission_interval s = g_window s / real_of_int (g_limit s)"

definition gcra_maybe_evict :: "seconds \<Rightarrow> gcra \<Rightarrow> gcra" where
  "gcra_maybe_evict now s =
     (if length (g_state s) \<le> EVICTION_THRESHOLD then s
      else s\<lparr>g_state := fold AList.delete [k. (k, tat) \<leftarrow> g_state s, tat < now] (g_state s)\<rparr>)"

definition gcra_acquire :: "seconds \<Rightarrow> key \<Rightarrow> int \<Rightarrow> gcra \<Rightarrow> rate_limit_result \<times> gcra" where
  "gcra_acquire now key cost s0 =
     (let interval = emission_interval s0;
          increment = interval * real_of_int cost;
          s = gcra_maybe_evict now s0;
          tat = dget_or (g_state s) key now;
          new_tat = max tat now + increment;
          allow_at = new_tat - g_window s;
          diff = now - allow_at;
          left = \<lfloor>diff / interval + 1 / 2\<rfloor>
      in if left < 0 then
           (\<lparr>allowed = False, rl_limit = g_limit s, remaining = 0,
             retry_after = max 0 (- diff), reset_after = max 0 (tat - now)\<rparr>, s)
         else
           (\<lparr>allowed = True, rl_limit = g_limit s, remaining = left,
             retry_after = 0, reset_after = new_tat - now\<rparr>,
            s\<lparr>g_state := dput key new_tat (g_state s)\<rparr>))"

definition gcra_peek :: "seconds \<Rightarrow> key \<Rightarrow> gcra \<Rightarrow> rate_limit_result" where
  "gcra_peek now key s =
     (let interval = emission_interval s;
          tat = dget_or (g_state s) key now;
          new_tat = max tat now;
          allow_at = new_tat - g_window s;
          diff = now - allow_at;
          left = \<lfloor>diff / interval + 1 / 2\<rfloor>
      in if left \<le> 0 then
           \<lparr>allowed = False, rl_limit = g_limit s, remaining = 0,
            retry_after = max 0 (if left < 0 then - diff else interval - diff),
            reset_after = max 0 (tat - now)\<rparr>
         else
           \<lparr>allowed = True, rl_limit = g_limit s, remaining = left,
            retry_after = 0, reset_after = max 0 (new_tat - now)\<rparr>)"

definition gcra_reset :: "key \<Rightarrow> gcra \<Rightarrow> gcra" where
  "gcra_reset key s = s\<lparr>g_state := ddel key (g_state s)\<rparr>"

fun gcra_granted :: "key \<Rightarrow> rate_request list \<Rightarrow> gcra \<Rightarrow> int" where
  "gcra_granted k [] s = 0"
| "gcra_granted k ((t, j, c) # rs) s =
     (case gcra_acquire t j c s of (r, s') \<Rightarrow>
        (if j = k \<and> allowed r then c else 0) + gcra_granted k rs s')"

text \<open>The arrival time that matters at \<open>t\<close>: never in the past.\<close>

definition gcra_due :: "gcra \<Rightarrow> key \<Rightarrow> seconds \<Rightarrow> seconds" where
  "gcra_due s k t = max (dget_or (g_state s) k t) t"

text \<open>The room left at \<open>t\<close> after a request of cost \<open>c\<close>; negative when the request comes early.\<close>

definition gcra_room :: "gcra \<Rightarrow> key \<Rightarrow> int \<Rightarrow> seconds \<Rightarrow> seconds" where
  "gcra_room s k c t = t + g_window s - (gcra_due s k t + emission_interval s * real_of_int c)"

definition gcra_ok :: "seconds \<Rightarrow> gcra \<Rightarrow> bool" where
  "gcra_ok t s \<longleftrightarrow> 0 < g_limit s \<and> 0 < g_window s \<and> dwf (g_state s) \<and>
     (\<forall>k tat. dget (g_state s) k = Some tat \<longrightarrow> tat \<le> t + g_window s + emission_interval s / 2)"

section \<open>Arrival times\<close>

lemma gcra_ok_later: "gcra_ok t s \<Longrightarrow> t \<le> t' \<Longrightarrow> gcra_ok t' s"
  by (force simp: gcra_ok_def)

lemma gcra_okD:
  assumes "gcra_ok t s"
  shows "0 < g_limit s" "0 < g_window s" "0 < emission_interval s"
    and "real_of_int (g_limit s) * emission_interval s = g_window s"
  using assms by (auto simp: gcra_ok_def emission_interval_def)

lemma gcra_due_eq: "gcra_due s k t = (case dget (g_state s) k of None \<Rightarrow> t | Some tat \<Rightarrow> max tat t)"
  by (auto simp: gcra_due_def dget_or_def split: option.splits)

lemma gcra_due_ge: "t \<le> gcra_due s k t"
  by (simp add: gcra_due_def)

lemma gcra_due_le: "gcra_ok t s \<Longrightarrow> gcra_due s k t \<le> t + g_window s + emission_interval s / 2"
  using gcra_okD(2,3) [of t s] by (cases "dget (g_state s) k") (auto simp: gcra_due_eq gcra_ok_def)

lemma gcra_due_later: "t \<le> t' \<Longrightarrow> gcra_due s k t' = max (gcra_due s k t) t'"
  by (auto simp: gcra_due_eq split: option.splits)

lemma emission_interval_state [simp]: "emission_interval (s\<lparr>g_state := x\<rparr>) = emission_interval s"
  by (simp add: emission_interval_def)

lemma gcra_evict_fields [simp]:
  "g_limit (gcra_maybe_evict now s) = g_limit s" "g_window (gcra_maybe_evict now s) = g_window s"
  "emission_interval (gcra_maybe_evict now s) = emission_interval s"
  by (simp_all add: gcra_maybe_evict_def emission_interval_def)

text \<open>Eviction drops arrival times in the past, which count as now.\<close>

lemma gcra_evict_get:
  assumes "dwf (g_state s)"
  shows "dget (g_state (gcra_maybe_evict now s)) k = dget (g_state s) k \<or>
    (dget (g_state (gcra_maybe_evict now s)) k = None \<and> (\<exists>tat < now. dget (g_state s) k = Some tat))"
proof -
  let ?ks = "[k. (k, tat) \<leftarrow> g_state s, tat < now]"
  have "k \<in> set ?ks \<longleftrightarrow> (\<exists>tat. (k, tat) \<in> set (g_state s) \<and> tat < now)" by force
  then have "k \<in> set ?ks \<longleftrightarrow> (\<exists>tat < now. dget (g_state s) k = Some tat)"
    using dget_iff [OF assms] by blast
  then show ?thesis by (auto simp: gcra_maybe_evict_def)
qed

lemma gcra_evict_due:
  "dwf (g_state s) \<Longrightarrow> now \<le> t \<Longrightarrow> gcra_due (gcra_maybe_evict now s) k t = gcra_due s k t"
  using gcra_evict_get [of s now k] by (auto simp: gcra_due_eq)

lemma gcra_evict_wf: "dwf (g_state s) \<Longrightarrow> dwf (g_state (gcra_maybe_evict now s))"
  by (simp add: gcra_maybe_evict_def dwf_fold_ddel)

lemma gcra_ok_evict:
  assumes "gcra_ok t s"
  shows "gcra_ok t (gcra_maybe_evict now s)"
proof -
  have wf: "dwf (g_state s)" using assms by (simp add: gcra_ok_def)
  have "dget (g_state (gcra_maybe_evict now s)) k = Some tat \<Longrightarrow> dget (g_state s) k = Some tat" for k tat
    using gcra_evict_get [OF wf, of now k] by auto
  then show ?thesis using assms gcra_evict_wf [OF wf, of now] by (auto simp: gcra_ok_def)
qed

section \<open>Decisions\<close>

lemma half_neg:
  fixes x :: real
  assumes "0 < i"
  shows "x / i + 1 / 2 < 0 \<longleftrightarrow> x < - (i / 2)"
  using assms by (auto simp: field_simps)

lemma gcra_acquire_eq:
  assumes "gcra_ok t s"
  shows "gcra_acquire t k c s = (if gcra_room s k c t < - (emission_interval s / 2)
    then (\<lparr>allowed = False, rl_limit = g_limit s, remaining = 0, retry_after = max 0 (- gcra_room s k c t),
           reset_after = gcra_due s k t - t\<rparr>, gcra_maybe_evict t s)
    else (\<lparr>allowed = True, rl_limit = g_limit s,
           remaining = \<lfloor>gcra_room s k c t / emission_interval s + 1 / 2\<rfloor>, retry_after = 0,
           reset_after = gcra_due s k t + emission_interval s * real_of_int c - t\<rparr>,
          (gcra_maybe_evict t s)\<lparr>g_state := dput k (gcra_due s k t + emission_interval s * real_of_int c)
             (g_state (gcra_maybe_evict t s))\<rparr>))"
proof -
  let ?tat = "dget_or (g_state (gcra_maybe_evict t s)) k t"
  have d: "max ?tat t = gcra_due s k t"
    using gcra_evict_due [of s t t k] assms by (simp add: gcra_ok_def gcra_due_def)
  have room: "t - (gcra_due s k t + emission_interval s * real_of_int c - g_window s) = gcra_room s k c t"
    by (simp add: gcra_room_def)
  have m: "max 0 (?tat - t) = gcra_due s k t - t" using d by linarith
  show ?thesis
    by (simp add: gcra_acquire_def Let_def d room m half_neg [OF gcra_okD(3) [OF assms]])
qed

lemma gcra_allowed_iff:
  "gcra_ok t s \<Longrightarrow> allowed (fst (gcra_acquire t k c s)) \<longleftrightarrow> - (emission_interval s / 2) \<le> gcra_room s k c t"
  by (auto simp: gcra_acquire_eq)

lemma gcra_acquire_fields [simp]:
  assumes "gcra_ok t s"
  shows "g_limit (snd (gcra_acquire t k c s)) = g_limit s" "g_window (snd (gcra_acquire t k c s)) = g_window s"
    "emission_interval (snd (gcra_acquire t k c s)) = emission_interval s"
  by (simp_all add: gcra_acquire_eq [OF assms])

lemma gcra_acquire_ok:
  assumes "gcra_ok t s"
  shows "gcra_ok t (snd (gcra_acquire t k c s))"
proof (cases "gcra_room s k c t < - (emission_interval s / 2)")
  case True
  then show ?thesis by (simp add: gcra_acquire_eq [OF assms] gcra_ok_evict [OF assms])
next
  case False
  then have "gcra_due s k t + emission_interval s * real_of_int c \<le> t + g_window s + emission_interval s / 2"
    by (simp add: gcra_room_def)
  with gcra_ok_evict [OF assms, of t] False show ?thesis
    by (auto simp: gcra_acquire_eq [OF assms] gcra_ok_def pd.wf_put split: if_splits)
qed

lemma gcra_acquire_due:
  assumes "gcra_ok t s" "1 \<le> c" "t \<le> u"
  shows "gcra_due (snd (gcra_acquire t k c s)) j u =
    (if j = k \<and> - (emission_interval s / 2) \<le> gcra_room s k c t
     then max (gcra_due s k t + emission_interval s * real_of_int c) u else gcra_due s j u)"
proof -
  have wf: "dwf (g_state s)" using assms(1) by (simp add: gcra_ok_def)
  have e: "gcra_due (gcra_maybe_evict t s) j u = gcra_due s j u" by (rule gcra_evict_due [OF wf assms(3)])
  then show ?thesis
    by (auto simp: gcra_acquire_eq [OF assms(1)]) (auto simp: gcra_due_def)
qed

lemma gcra_peek_cong:
  assumes "gcra_due s k t = gcra_due s' k t" "g_limit s = g_limit s'" "g_window s = g_window s'"
  shows "gcra_peek t k s = gcra_peek t k s'"
proof -
  have i: "emission_interval s = emission_interval s'" using assms(2,3) by (simp add: emission_interval_def)
  have m: "max 0 (dget_or (g_state x) k t - t) = gcra_due x k t - t" for x by (simp add: gcra_due_def)
  have n: "max (dget_or (g_state x) k t) t = gcra_due x k t" for x by (simp add: gcra_due_def)
  show ?thesis using assms i by (simp add: gcra_peek_def Let_def m n)
qed

lemma gcra_peek_allowed: "allowed (gcra_peek t k s) \<longleftrightarrow> 0 < \<lfloor>gcra_room s k 0 t / emission_interval s + 1 / 2\<rfloor>"
  by (auto simp: gcra_peek_def Let_def gcra_room_def gcra_due_def algebra_simps)

lemma gcra_retry_enough:
  assumes ok: "gcra_ok t s" and c: "1 \<le> c" "c \<le> g_limit s" and t': "t \<le> t'" "t - gcra_room s k c t \<le> t'"
  shows "0 \<le> gcra_room s k c t'"
proof -
  have "emission_interval s * real_of_int c \<le> g_window s"
    using c gcra_okD(3,4) [OF ok] by (metis mult.commute mult_right_mono of_int_le_iff order_less_imp_le)
  then show ?thesis using t' gcra_due_later [OF t'(1), of s k] by (simp add: gcra_room_def max_def)
qed

interpretation gcs: rate_strategy gcra_acquire gcra_peek gcra_reset g_limit gcra_ok
proof (unfold_locales, goal_cases)
  case (1 t s t')
  then show ?case by (rule gcra_ok_later)
next
  case (2 t s c k r s')
  then show ?case using gcra_acquire_ok [OF 2(1), of k c] gcra_acquire_fields [OF 2(1), of k c] by simp
next
  case (3 t s k)
  then show ?case by (auto simp: gcra_ok_def gcra_reset_def pd.wf_del split: if_splits)
next
  case (4 t s k r s')
  have i: "0 < emission_interval s" by (rule gcra_okD(3) [OF 4(1)])
  have "gcra_room s k 0 t / emission_interval s = gcra_room s k 1 t / emission_interval s + 1"
    using i by (simp add: gcra_room_def field_simps)
  then have "allowed (gcra_peek t k s) \<longleftrightarrow> \<not> gcra_room s k 1 t / emission_interval s + 1 / 2 < 0"
    by (simp add: gcra_peek_allowed) linarith
  also have "\<dots> \<longleftrightarrow> allowed r"
    using gcra_allowed_iff [OF 4(1), of k 1] 4(2) by (auto simp: half_neg [OF i])
  finally show ?case .
next
  case (5 t s c k r s')
  have d: "gcra_room s k c t < - (emission_interval s / 2)"
    using 5(4,5) gcra_allowed_iff [OF 5(1), of k c] by auto
  have r: "retry_after r = - gcra_room s k c t" and s': "s' = gcra_maybe_evict t s"
    using 5(4) d gcra_okD(3) [OF 5(1)] by (auto simp: gcra_acquire_eq [OF 5(1)])
  have "allowed (fst (gcra_acquire t' k c s'))" if t': "t + retry_after r \<le> t'" for t'
  proof -
    have le: "t \<le> t'" using t' r d gcra_okD(3) [OF 5(1)] by simp
    have ok': "gcra_ok t' s'" using gcra_ok_evict [OF 5(1)] gcra_ok_later le s' by blast
    have "gcra_due s' k t' = gcra_due s k t'" using gcra_evict_due [OF _ le] 5(1) s' by (simp add: gcra_ok_def)
    then have "gcra_room s' k c t' = gcra_room s k c t'" using s' by (simp add: gcra_room_def)
    with gcra_retry_enough [OF 5(1,2,3) le, of k] t' r gcra_okD(3) [OF 5(1)] s'
    show ?thesis using gcra_allowed_iff [OF ok', of k c] by simp
  qed
  with r d gcra_okD(3) [OF 5(1)] show ?case by simp
next
  case (6 t s k c r s' t' j)
  then have s': "s' = gcra_maybe_evict t s"
    using gcra_allowed_iff [OF 6(1), of k c] by (auto simp: gcra_acquire_eq [OF 6(1)] split: if_splits)
  have "gcra_due s' j t' = gcra_due s j t'"
    using gcra_evict_due [OF _ 6(4)] 6(1) s' by (simp add: gcra_ok_def)
  with s' show ?case by (intro gcra_peek_cong) auto
next
  case (7 t s c k)
  have ok: "gcra_ok t (gcra_reset k s)"
    using 7(1) by (auto simp: gcra_ok_def gcra_reset_def pd.wf_del split: if_splits)
  have "gcra_due (gcra_reset k s) k t = t" by (simp add: gcra_reset_def gcra_due_def)
  moreover have "emission_interval s * real_of_int c \<le> g_window s"
    using 7 gcra_okD(3,4) [OF 7(1)] by (metis mult.commute mult_right_mono of_int_le_iff order_less_imp_le)
  ultimately show ?case using gcra_okD(3) [OF 7(1)]
    by (simp add: gcra_allowed_iff [OF ok] gcra_room_def) (simp add: gcra_reset_def)
next
  case (8 t s c k r s' j t')
  have "gcra_due s' j t' = gcra_due s j t'"
    using gcra_acquire_due [OF 8(1,2,5), of k j] 8(3,4) by simp
  with gcra_acquire_fields [OF 8(1), of k c] 8(3) show ?case by (intro gcra_peek_cong) auto
next
  case (9 t s c k r s')
  note i = gcra_okD(3) [OF 9(1)]
  have "gcra_room s k c t \<le> g_window s - emission_interval s * real_of_int c"
    using gcra_due_ge [of t s k] by (simp add: gcra_room_def)
  also have "\<dots> = (real_of_int (g_limit s) - real_of_int c) * emission_interval s"
    using gcra_okD(4) [OF 9(1)] by (simp add: algebra_simps)
  finally have "gcra_room s k c t / emission_interval s \<le> real_of_int (g_limit s) - real_of_int c"
    using i by (simp add: pos_divide_le_eq)
  then have "\<lfloor>gcra_room s k c t / emission_interval s + 1 / 2\<rfloor> \<le> g_limit s"
    using 9(2) by linarith
  moreover have "\<not> gcra_room s k c t < - (emission_interval s / 2) \<Longrightarrow>
      0 \<le> gcra_room s k c t / emission_interval s + 1 / 2" using half_neg [OF i] by (meson not_less)
  moreover have "0 \<le> emission_interval s * real_of_int c" using i 9(2) by simp
  ultimately show ?case using 9 gcra_due_ge [of t s k]
    by (auto simp: gcra_acquire_eq [OF 9(1)] split: if_splits)
qed

section \<open>Guarantees\<close>

lemma gcra_granted_due:
  assumes "gcra_ok t s" "requests_ok t (g_limit s) rs"
  shows "gcra_due s k t + real_of_int (gcra_granted k rs s) * emission_interval s
    \<le> requests_end t rs + g_window s + emission_interval s / 2"
  using assms
proof (induction rs arbitrary: t s)
  case Nil
  then show ?case using gcra_due_le [OF Nil(1), of k] by simp
next
  case (Cons x rs)
  obtain u j c where x: "x = (u, j, c)" by (cases x)
  obtain r s' where acq: "gcra_acquire u j c s = (r, s')" by (cases "gcra_acquire u j c s")
  from Cons.prems(2) x have u: "t \<le> u" "1 \<le> c" by auto
  have ok: "gcra_ok u s" by (rule gcra_ok_later [OF Cons.prems(1) u(1)])
  have f: "emission_interval s' = emission_interval s" "g_window s' = g_window s" "g_limit s' = g_limit s"
    using gcra_acquire_fields [OF ok, of j c] acq by auto
  have ok': "gcra_ok u s'" using gcra_acquire_ok [OF ok, of j c] acq by simp
  have rs: "requests_ok u (g_limit s') rs" using Cons.prems(2) x f by simp
  have al: "allowed r \<longleftrightarrow> - (emission_interval s / 2) \<le> gcra_room s j c u"
    using gcra_allowed_iff [OF ok, of j c] acq by simp
  have due: "gcra_due s' k u = (if k = j \<and> allowed r
      then max (gcra_due s k u + emission_interval s * real_of_int c) u else gcra_due s k u)"
    using gcra_acquire_due [OF ok u(2) order_refl, of j k] acq al by auto
  have later: "gcra_due s k t \<le> gcra_due s k u" using gcra_due_later [OF u(1), of s k] by simp
  note IH = Cons.IH [OF ok' rs, unfolded f]
  show ?case
  proof (cases "k = j \<and> allowed r")
    case True
    with due have "gcra_due s k t + emission_interval s * real_of_int c \<le> gcra_due s' k u" using later by simp
    with True IH x acq show ?thesis by (simp add: algebra_simps)
  next
    case False
    with due later have "gcra_due s k t \<le> gcra_due s' k u" by simp
    moreover have "gcra_granted k (x # rs) s = gcra_granted k rs s'" using False x acq by auto
    ultimately show ?thesis using IH x by simp
  qed
qed

text \<open>
  C11. The sliding window bounds what a key is granted: over any sequence of requests the grants are
  at most the limit, plus half a request, plus the limit per window over the elapsed time; at a
  single instant no more than the limit is granted.
\<close>

theorem gcra_rate_bound:
  assumes "gcra_ok t s" "requests_ok t (g_limit s) rs"
  shows "real_of_int (gcra_granted k rs s)
      \<le> real_of_int (g_limit s) + 1 / 2 + (requests_end t rs - t) * real_of_int (g_limit s) / g_window s
    \<and> (requests_end t rs = t \<longrightarrow> gcra_granted k rs s \<le> g_limit s)"
proof -
  note d = gcra_okD [OF assms(1)]
  have "real_of_int (gcra_granted k rs s) * emission_interval s
      \<le> (requests_end t rs - t) + g_window s + emission_interval s / 2"
    using gcra_granted_due [OF assms, of k] gcra_due_ge [of t s k] by simp
  then have "real_of_int (gcra_granted k rs s)
      \<le> ((requests_end t rs - t) + g_window s + emission_interval s / 2) / emission_interval s"
    using d(3) by (simp add: pos_le_divide_eq)
  also have "\<dots> = real_of_int (g_limit s) + 1 / 2 + (requests_end t rs - t) * real_of_int (g_limit s) / g_window s"
    using d(1,2) by (simp add: emission_interval_def field_simps)
  finally have b: "real_of_int (gcra_granted k rs s)
      \<le> real_of_int (g_limit s) + 1 / 2 + (requests_end t rs - t) * real_of_int (g_limit s) / g_window s" .
  moreover have "requests_end t rs = t \<longrightarrow> gcra_granted k rs s \<le> g_limit s"
  proof
    assume "requests_end t rs = t"
    with b have "real_of_int (gcra_granted k rs s) \<le> real_of_int (g_limit s) + 1 / 2" by simp
    then show "gcra_granted k rs s \<le> g_limit s" by linarith
  qed
  ultimately show ?thesis by blast
qed

definition window_example :: gcra where
  "window_example = \<lparr>g_limit = 1, g_window = 10, g_state = []\<rparr>"

lemma window_example_granted: "gcra_granted ''u'' [(0, ''u'', 1), (5, ''u'', 1), (10, ''u'', 1)] window_example = 2"
  by (simp add: window_example_def gcra_acquire_def gcra_maybe_evict_def emission_interval_def
      EVICTION_THRESHOLD_def Let_def)

theorem gcra_rate_bound_witness:
  "real_of_int (gcra_granted ''u'' [(0, ''u'', 1), (5, ''u'', 1), (10, ''u'', 1)] window_example)
     \<le> 1 + 1 / 2 + 10 * 1 / 10"
  using gcra_rate_bound [of 0 window_example "[(0, ''u'', 1), (5, ''u'', 1), (10, ''u'', 1)]" "''u''"]
  by (simp add: window_example_def gcra_ok_def)

text \<open>
  The enforced threshold is not the exact one: a request is granted exactly when it comes no
  more than half an emission interval early, so a limit of one request per window grants a second
  request after half a window.
\<close>

theorem gcra_grants_half_interval_early:
  assumes "gcra_ok t s"
  shows "allowed (fst (gcra_acquire t k c s)) \<longleftrightarrow>
    gcra_due s k t + emission_interval s * real_of_int c - g_window s - t \<le> emission_interval s / 2"
  using gcra_allowed_iff [OF assms, of k c] by (auto simp: gcra_room_def)

theorem gcra_grants_half_interval_early_witness:
  "allowed (fst (gcra_acquire 5 ''u'' 1 (snd (gcra_acquire 0 ''u'' 1 window_example)))) \<longleftrightarrow>
   (10::real) + 10 * 1 - 10 - 5 \<le> 10 / 2"
proof -
  have ok: "gcra_ok 0 window_example" by (simp add: gcra_ok_def window_example_def)
  let ?s = "snd (gcra_acquire 0 ''u'' 1 window_example)"
  have ok': "gcra_ok 5 ?s" using gcra_ok_later [OF gcra_acquire_ok [OF ok]] by simp
  have s: "?s = \<lparr>g_limit = 1, g_window = 10, g_state = [(''u'', 10)]\<rparr>"
    by (simp add: window_example_def gcra_acquire_def gcra_maybe_evict_def emission_interval_def
        EVICTION_THRESHOLD_def Let_def)
  show ?thesis using gcra_grants_half_interval_early [OF ok', of "''u''" 1]
    by (simp add: s gcra_due_def emission_interval_def)
qed

end
