(* ===== verification/Rate_Limiter.thy ===== *)
theory Rate_Limiter
  imports Gcra
begin

text \<open>
  The rate limiter a program uses (\<open>resilience/ratelimiter/__init__.py\<close>, \<open>RateLimiter\<close>) and the
  in-memory adapter that hands it a strategy (\<open>ratelimiter/memory.py\<close>, \<open>MemoryRateLimiterAdapter\<close>).

  A strategy is a record of its three calls, which may raise. \<open>bind_acquire\<close>, \<open>bind_peek\<close> and
  \<open>bind_reset\<close> are the calls of the strategy that \<open>bind\<close> builds for a configuration, on the adapter's
  shared state; the interpretation \<open>rla\<close> shows that every bound strategy keeps the contract, from
  the interpretations of the two algorithms. The loop of \<open>wait\<close> takes one tick per attempt: the
  strategy's clock reading, the reading of the deadline test, and what others do during the sleep.
\<close>

section \<open>Adapter\<close>

datatype rate_limiter_config =
    TokenBucketConfig int real bool
  | SlidingWindowConfig int seconds bool

record memory_rate_limiter =
  token_bucket_state :: "(key, real \<times> seconds) pydict"
  gcra_state :: "(key, seconds) pydict"

fun bind_acquire ::
  "rate_limiter_config \<Rightarrow> seconds \<Rightarrow> key \<Rightarrow> int \<Rightarrow> memory_rate_limiter \<Rightarrow> rate_limit_result \<times> memory_rate_limiter"
where
  "bind_acquire (TokenBucketConfig cap rate fo) t k c A =
     (case token_bucket_acquire t k c \<lparr>tb_capacity = cap, tb_refill_rate = rate, tb_state = token_bucket_state A\<rparr>
      of (r, s) \<Rightarrow> (r, A\<lparr>token_bucket_state := tb_state s\<rparr>))"
| "bind_acquire (SlidingWindowConfig lm win fo) t k c A =
     (case gcra_acquire t k c \<lparr>g_limit = lm, g_window = win, g_state = gcra_state A\<rparr>
      of (r, s) \<Rightarrow> (r, A\<lparr>gcra_state := g_state s\<rparr>))"

fun bind_peek :: "rate_limiter_config \<Rightarrow> seconds \<Rightarrow> key \<Rightarrow> memory_rate_limiter \<Rightarrow> rate_limit_result" where
  "bind_peek (TokenBucketConfig cap rate fo) t k A =
     token_bucket_peek t k \<lparr>tb_capacity = cap, tb_refill_rate = rate, tb_state = token_bucket_state A\<rparr>"
| "bind_peek (SlidingWindowConfig lm win fo) t k A =
     gcra_peek t k \<lparr>g_limit = lm, g_window = win, g_state = gcra_state A\<rparr>"

fun bind_reset :: "rate_limiter_config \<Rightarrow> key \<Rightarrow> memory_rate_limiter \<Rightarrow> memory_rate_limiter" where
  "bind_reset (TokenBucketConfig cap rate fo) k A =
     A\<lparr>token_bucket_state := tb_state (token_bucket_reset k
        \<lparr>tb_capacity = cap, tb_refill_rate = rate, tb_state = token_bucket_state A\<rparr>)\<rparr>"
| "bind_reset (SlidingWindowConfig lm win fo) k A =
     A\<lparr>gcra_state := g_state (gcra_reset k \<lparr>g_limit = lm, g_window = win, g_state = gcra_state A\<rparr>)\<rparr>"

definition rate_adapter_close :: "memory_rate_limiter \<Rightarrow> memory_rate_limiter" where
  "rate_adapter_close A = A\<lparr>token_bucket_state := [], gcra_state := []\<rparr>"

fun config_limit :: "rate_limiter_config \<Rightarrow> int" where
  "config_limit (TokenBucketConfig cap rate fo) = cap"
| "config_limit (SlidingWindowConfig lm win fo) = lm"

fun fail_open :: "rate_limiter_config \<Rightarrow> bool" where
  "fail_open (TokenBucketConfig cap rate fo) = fo"
| "fail_open (SlidingWindowConfig lm win fo) = fo"

fun rate_adapter_ok :: "rate_limiter_config \<Rightarrow> seconds \<Rightarrow> memory_rate_limiter \<Rightarrow> bool" where
  "rate_adapter_ok (TokenBucketConfig cap rate fo) t A =
     tb_ok t \<lparr>tb_capacity = cap, tb_refill_rate = rate, tb_state = token_bucket_state A\<rparr>"
| "rate_adapter_ok (SlidingWindowConfig lm win fo) t A =
     gcra_ok t \<lparr>g_limit = lm, g_window = win, g_state = gcra_state A\<rparr>"

section \<open>Limiter\<close>

record 's rate_ops =
  rs_acquire :: "seconds \<Rightarrow> key \<Rightarrow> int \<Rightarrow> 's \<Rightarrow> (py_exc + rate_limit_result) \<times> 's"
  rs_peek :: "seconds \<Rightarrow> key \<Rightarrow> 's \<Rightarrow> py_exc + rate_limit_result"
  rs_reset :: "key \<Rightarrow> 's \<Rightarrow> (py_exc + unit) \<times> 's"

text \<open>The calls of a strategy that never raises.\<close>

definition lift_ops where
  "lift_ops acq pk rst = \<lparr>rs_acquire = (\<lambda>t k c s. case acq t k c s of (r, s') \<Rightarrow> (Inr r, s')),
     rs_peek = (\<lambda>t k s. Inr (pk t k s)), rs_reset = (\<lambda>k s. (Inr (), rst k s))\<rparr>"

definition memory_bind :: "rate_limiter_config \<Rightarrow> memory_rate_limiter rate_ops" where
  "memory_bind config = lift_ops (bind_acquire config) (bind_peek config) (bind_reset config)"

datatype rate_error = CostError | RateLimitExceeded key seconds | BackendRaised py_exc

record rate_limiter =
  limiter_name :: string
  limiter_config :: rate_limiter_config

definition build_fallback :: "rate_limiter_config \<Rightarrow> rate_limit_result" where
  "build_fallback config = \<lparr>allowed = True, rl_limit = config_limit config,
     remaining = config_limit config, retry_after = 0, reset_after = 0\<rparr>"

definition validate_cost :: "int \<Rightarrow> int \<Rightarrow> rate_error + unit" where
  "validate_cost cost limit = (if cost < 1 \<or> cost > limit then Inl CostError else Inr ())"

definition full_key :: "rate_limiter \<Rightarrow> key \<Rightarrow> key" where
  "full_key R key = limiter_name R @ '':'' @ key"

definition limiter_acquire ::
  "'s rate_ops \<Rightarrow> rate_limiter \<Rightarrow> seconds \<Rightarrow> key \<Rightarrow> int \<Rightarrow> 's \<Rightarrow> (rate_error + rate_limit_result) \<times> 's"
where
  "limiter_acquire S R t key cost s =
     (let config = limiter_config R in
      case validate_cost cost (config_limit config) of
        Inl e \<Rightarrow> (Inl e, s)
      | Inr _ \<Rightarrow>
         (case rs_acquire S t (full_key R key) cost s of
            (Inr r, s') \<Rightarrow> (Inr r, s')
          | (Inl exc, s') \<Rightarrow>
              (if fail_open config then (Inr (build_fallback config), s') else (Inl (BackendRaised exc), s'))))"

definition limiter_acquire_or_raise ::
  "'s rate_ops \<Rightarrow> rate_limiter \<Rightarrow> seconds \<Rightarrow> key \<Rightarrow> int \<Rightarrow> 's \<Rightarrow> (rate_error + rate_limit_result) \<times> 's"
where
  "limiter_acquire_or_raise S R t key cost s =
     (case limiter_acquire S R t key cost s of
        (Inl e, s') \<Rightarrow> (Inl e, s')
      | (Inr r, s') \<Rightarrow>
          (if \<not> allowed r then (Inl (RateLimitExceeded key (retry_after r)), s') else (Inr r, s')))"

definition limiter_allow ::
  "'s rate_ops \<Rightarrow> rate_limiter \<Rightarrow> seconds \<Rightarrow> key \<Rightarrow> int \<Rightarrow> 's \<Rightarrow> (rate_error + bool) \<times> 's"
where
  "limiter_allow S R t key cost s =
     (case limiter_acquire S R t key cost s of
        (Inl e, s') \<Rightarrow> (Inl e, s') | (Inr r, s') \<Rightarrow> (Inr (allowed r), s'))"

definition limiter_peek :: "'s rate_ops \<Rightarrow> rate_limiter \<Rightarrow> seconds \<Rightarrow> key \<Rightarrow> 's \<Rightarrow> rate_error + rate_limit_result" where
  "limiter_peek S R t key s =
     (case rs_peek S t (full_key R key) s of
        Inr r \<Rightarrow> Inr r
      | Inl exc \<Rightarrow> (if fail_open (limiter_config R) then Inr (build_fallback (limiter_config R))
                   else Inl (BackendRaised exc)))"

definition limiter_reset :: "'s rate_ops \<Rightarrow> rate_limiter \<Rightarrow> key \<Rightarrow> 's \<Rightarrow> (rate_error + unit) \<times> 's" where
  "limiter_reset S R key s =
     (case rs_reset S (full_key R key) s of
        (Inr _, s') \<Rightarrow> (Inr (), s')
      | (Inl exc, s') \<Rightarrow>
          (if fail_open (limiter_config R) then (Inr (), s') else (Inl (BackendRaised exc), s')))"

definition MIN_POLL_INTERVAL :: seconds where
  "MIN_POLL_INTERVAL = 5 / 1000"

record 's rate_tick =
  rt_acquire :: seconds
  rt_check :: seconds
  rt_env :: "'s \<Rightarrow> 's"

text \<open>The loop also reports its sleeps; \<open>None\<close> is a wait that is still going on.\<close>

fun wait_loop ::
  "'s rate_ops \<Rightarrow> rate_limiter \<Rightarrow> key \<Rightarrow> int \<Rightarrow> seconds option \<Rightarrow> 's rate_tick list \<Rightarrow> 's \<Rightarrow>
   (rate_error + rate_limit_result) option \<times> seconds list \<times> 's"
where
  "wait_loop S R key cost deadline [] s = (None, [], s)"
| "wait_loop S R key cost deadline (k # ks) s =
     (case limiter_acquire S R (rt_acquire k) key cost s of
        (Inl e, s') \<Rightarrow> (Some (Inl e), [], s')
      | (Inr r, s') \<Rightarrow>
          if allowed r then (Some (Inr r), [], s')
          else if (case deadline of None \<Rightarrow> False
                   | Some d \<Rightarrow> d - rt_check k \<le> 0 \<or> retry_after r > d - rt_check k)
          then (Some (Inl (RateLimitExceeded key (retry_after r))), [], s')
          else (case wait_loop S R key cost deadline ks (rt_env k s') of
                  (q, sleeps, s'') \<Rightarrow> (q, max (retry_after r) MIN_POLL_INTERVAL # sleeps, s'')))"

definition limiter_wait ::
  "'s rate_ops \<Rightarrow> rate_limiter \<Rightarrow> seconds \<Rightarrow> seconds option \<Rightarrow> key \<Rightarrow> int \<Rightarrow> 's rate_tick list \<Rightarrow> 's \<Rightarrow>
   (rate_error + rate_limit_result) option \<times> seconds list \<times> 's"
where
  "limiter_wait S R now max_wait key cost ks s =
     (case validate_cost cost (config_limit (limiter_config R)) of
        Inl e \<Rightarrow> (Some (Inl e), [], s)
      | Inr _ \<Rightarrow> wait_loop S R key cost (case max_wait of None \<Rightarrow> None | Some w \<Rightarrow> Some (now + w)) ks s)"

section \<open>Every bound strategy keeps the contract\<close>

lemma lift_ops_sel [simp]:
  "rs_acquire (lift_ops acq pk rst) t k c s = (case acq t k c s of (r, s') \<Rightarrow> (Inr r, s'))"
  "rs_peek (lift_ops acq pk rst) t k s = Inr (pk t k s)" "rs_reset (lift_ops acq pk rst) k s = (Inr (), rst k s)"
  by (simp_all add: lift_ops_def)

abbreviation tb_view where
  "tb_view cap rate A \<equiv> \<lparr>tb_capacity = cap, tb_refill_rate = rate, tb_state = token_bucket_state A\<rparr>"

abbreviation gcra_view where
  "gcra_view lm win A \<equiv> \<lparr>g_limit = lm, g_window = win, g_state = gcra_state A\<rparr>"

lemma tb_view_acquire:
  assumes "bind_acquire (TokenBucketConfig cap rate fo) t k c A = (r, A')"
  shows "token_bucket_acquire t k c (tb_view cap rate A) = (r, tb_view cap rate A')"
proof -
  obtain s where s: "token_bucket_acquire t k c (tb_view cap rate A) = (r, s)"
      "A' = A\<lparr>token_bucket_state := tb_state s\<rparr>" using assms by (auto split: prod.splits)
  have "tb_capacity s = cap" "tb_refill_rate s = rate"
    using token_bucket_acquire_fields [of t k c "tb_view cap rate A", unfolded s(1)] by simp_all
  with s show ?thesis by (auto intro!: token_bucket.equality)
qed

lemma gcra_view_acquire:
  assumes "bind_acquire (SlidingWindowConfig lm win fo) t k c A = (r, A')"
  shows "gcra_acquire t k c (gcra_view lm win A) = (r, gcra_view lm win A')"
proof -
  have "g_limit (snd (gcra_acquire t k c s)) = g_limit s" "g_window (snd (gcra_acquire t k c s)) = g_window s"
    for s by (simp_all add: gcra_acquire_def Let_def)
  note f = this [of "gcra_view lm win A"]
  obtain s where s: "gcra_acquire t k c (gcra_view lm win A) = (r, s)" "A' = A\<lparr>gcra_state := g_state s\<rparr>"
    using assms by (auto split: prod.splits)
  from f [unfolded s(1)] s show ?thesis by (auto intro!: gcra.equality)
qed

interpretation rla: rate_strategy "bind_acquire config" "bind_peek config" "bind_reset config"
  "\<lambda>_. config_limit config" "rate_adapter_ok config" for config
proof (unfold_locales, goal_cases)
  case (1 t s t')
  then show ?case by (cases config) (auto intro: tb_ok_later gcra_ok_later)
next
  case (2 t s c k r s')
  show ?case
  proof (cases config)
    case (TokenBucketConfig cap rate fo)
    with 2 tbs.valid_acquire [OF _ _ _ tb_view_acquire, of t cap rate s c fo k r s'] show ?thesis by simp
  next
    case (SlidingWindowConfig lm win fo)
    with 2 gcs.valid_acquire [OF _ _ _ gcra_view_acquire, of t lm win s c fo k r s'] show ?thesis by simp
  qed
next
  case (3 t s k)
  then show ?case using tbs.valid_reset gcs.valid_reset
    by (cases config) (force simp: token_bucket_reset_def gcra_reset_def)+
next
  case (4 t s k r s')
  show ?case
  proof (cases config)
    case (TokenBucketConfig cap rate fo)
    with 4 tbs.peek_predicts [OF _ tb_view_acquire, of t cap rate s fo k r s'] show ?thesis by simp
  next
    case (SlidingWindowConfig lm win fo)
    with 4 gcs.peek_predicts [OF _ gcra_view_acquire, of t lm win s fo k r s'] show ?thesis by simp
  qed
next
  case (5 t s c k r s')
  show ?case
  proof (cases config)
    case (TokenBucketConfig cap rate fo)
    with 5 tbs.denied_retry [OF _ _ _ tb_view_acquire, of t cap rate s c fo k r s'] show ?thesis
      by (simp add: case_prod_beta)
  next
    case (SlidingWindowConfig lm win fo)
    with 5 gcs.denied_retry [OF _ _ _ gcra_view_acquire, of t lm win s c fo k r s'] show ?thesis
      by (simp add: case_prod_beta)
  qed
next
  case (6 t s k c r s' t' j)
  show ?case
  proof (cases config)
    case (TokenBucketConfig cap rate fo)
    with 6 tbs.denied_free [OF _ tb_view_acquire, of t cap rate s fo k c r s' t' j] show ?thesis by simp
  next
    case (SlidingWindowConfig lm win fo)
    with 6 gcs.denied_free [OF _ gcra_view_acquire, of t lm win s fo k c r s' t' j] show ?thesis by simp
  qed
next
  case (7 t s c k)
  show ?case
  proof (cases config)
    case (TokenBucketConfig cap rate fo)
    with 7 tbs.reset_restores [of t "tb_view cap rate s" c k] show ?thesis
      by (simp add: case_prod_beta token_bucket_reset_def)
  next
    case (SlidingWindowConfig lm win fo)
    with 7 gcs.reset_restores [of t "gcra_view lm win s" c k] show ?thesis
      by (simp add: case_prod_beta gcra_reset_def)
  qed
next
  case (8 t s c k r s' j t')
  show ?case
  proof (cases config)
    case (TokenBucketConfig cap rate fo)
    with 8 tbs.keys_independent [OF _ _ tb_view_acquire, of t cap rate s c fo k r s' j t'] show ?thesis by simp
  next
    case (SlidingWindowConfig lm win fo)
    with 8 gcs.keys_independent [OF _ _ gcra_view_acquire, of t lm win s c fo k r s' j t'] show ?thesis by simp
  qed
next
  case (9 t s c k r s')
  show ?case
  proof (cases config)
    case (TokenBucketConfig cap rate fo)
    with 9 tbs.remaining_bounds [OF _ _ _ tb_view_acquire, of t cap rate s c fo k r s'] show ?thesis by simp
  next
    case (SlidingWindowConfig lm win fo)
    with 9 gcs.remaining_bounds [OF _ _ _ gcra_view_acquire, of t lm win s c fo k r s'] show ?thesis by simp
  qed
qed

section \<open>Waiting\<close>

lemma validate_cost_Inr: "validate_cost c q = Inr u \<longleftrightarrow> 1 \<le> c \<and> c \<le> q"
  by (auto simp: validate_cost_def)

text \<open>With a deadline, a wait ends at the first attempt whose check is at or past the deadline.\<close>

lemma wait_loop_returns:
  "k \<in> set ks \<Longrightarrow> d \<le> rt_check k \<Longrightarrow> fst (wait_loop S R key c (Some d) ks s) \<noteq> None"
  by (induction S R key c "Some d" ks s rule: wait_loop.induct) (auto split: prod.splits sum.splits)

text \<open>Every sleep fits in what is left until the deadline, up to the minimal polling interval.\<close>

lemma wait_loop_sleeps:
  assumes "x \<in> set (fst (snd (wait_loop S R key c (Some d) ks s)))"
  shows "\<exists>k \<in> set ks. x \<le> max (d - rt_check k) MIN_POLL_INTERVAL \<and> MIN_POLL_INTERVAL \<le> x"
  using assms
  by (induction S R key c "Some d" ks s rule: wait_loop.induct)
    (auto split: prod.splits sum.splits if_splits)

context rate_strategy
begin

text \<open>A waiter alone on its key gets through at the second attempt at the latest.\<close>

lemma wait_loop_two:
  assumes "valid (rt_acquire k1) s" "1 \<le> c" "c \<le> quota s" "c \<le> config_limit (limiter_config R)"
    and "rt_env k1 = id"
    and "\<And>r. \<not> allowed r \<Longrightarrow> fst (acquire (rt_acquire k1) (full_key R key) c s) = r \<Longrightarrow>
      rt_acquire k1 + max (retry_after r) MIN_POLL_INTERVAL \<le> rt_acquire k2"
  shows "\<exists>r sleeps s'. wait_loop (lift_ops acquire peek reset) R key c None [k1, k2] s = (Some (Inr r), sleeps, s') \<and>
    allowed r \<and> length sleeps \<le> 1"
proof -
  obtain r s' where acq: "acquire (rt_acquire k1) (full_key R key) c s = (r, s')"
    by (cases "acquire (rt_acquire k1) (full_key R key) c s")
  have v: "validate_cost c (config_limit (limiter_config R)) = Inr ()"
    using assms(2,4) by (simp add: validate_cost_Inr)
  show ?thesis
  proof (cases "allowed r")
    case True
    with acq v show ?thesis by (simp add: limiter_acquire_def)
  next
    case False
    have "allowed (fst (acquire (rt_acquire k2) (full_key R key) c s'))"
      using second_attempt_allowed [OF assms(1-3) acq False] assms(6) [OF False] acq by simp
    with False acq v assms(5) show ?thesis
      by (auto simp: limiter_acquire_def Let_def split: prod.splits)
  qed
qed

end

section \<open>Guarantees\<close>

text \<open>
  \<open>wait\<close> on the in-memory adapter, with either algorithm: a waiter that is alone on its key is
  served at its first attempt or after one sleep of \<open>retry_after\<close> (or the minimal polling interval)
  and never raises.
\<close>

theorem limiter_wait_two_attempts:
  assumes "rate_adapter_ok (limiter_config R) (rt_acquire k1) A"
    and "1 \<le> c" "c \<le> config_limit (limiter_config R)" "rt_env k1 = id"
    and "rt_acquire k1 + max (retry_after (fst (bind_acquire (limiter_config R) (rt_acquire k1)
      (full_key R key) c A))) MIN_POLL_INTERVAL \<le> rt_acquire k2"
  shows "\<exists>r sleeps A'. limiter_wait (memory_bind (limiter_config R)) R now None key c [k1, k2] A =
      (Some (Inr r), sleeps, A') \<and> allowed r \<and> length sleeps \<le> 1"
proof -
  have "\<exists>r sleeps A'. wait_loop (memory_bind (limiter_config R)) R key c None [k1, k2] A =
      (Some (Inr r), sleeps, A') \<and> allowed r \<and> length sleeps \<le> 1"
    unfolding memory_bind_def
    by (rule rla.wait_loop_two [OF assms(1,2,3,3,4)]) (use assms(5) in simp)
  then show ?thesis using assms(2,3) by (simp add: limiter_wait_def validate_cost_def)
qed

theorem limiter_wait_two_attempts_witness:
  "\<exists>r sleeps A'. limiter_wait (memory_bind (SlidingWindowConfig 1 10 False))
      \<lparr>limiter_name = ''api'', limiter_config = SlidingWindowConfig 1 10 False\<rparr> 0 None ''u'' 1
      [\<lparr>rt_acquire = 1, rt_check = 1, rt_env = id\<rparr>, \<lparr>rt_acquire = 12, rt_check = 12, rt_env = id\<rparr>]
      \<lparr>token_bucket_state = [], gcra_state = [(''api:u'', 10)]\<rparr> = (Some (Inr r), sleeps, A') \<and>
    allowed r \<and> length sleeps \<le> 1"
proof -
  let ?R = "\<lparr>limiter_name = ''api'', limiter_config = SlidingWindowConfig 1 10 False\<rparr>"
  have "\<exists>r sleeps A'. limiter_wait (memory_bind (limiter_config ?R)) ?R 0 None ''u'' 1
      [\<lparr>rt_acquire = 1, rt_check = 1, rt_env = id\<rparr>, \<lparr>rt_acquire = 12, rt_check = 12, rt_env = id\<rparr>]
      \<lparr>token_bucket_state = [], gcra_state = [(''api:u'', 10)]\<rparr> = (Some (Inr r), sleeps, A') \<and>
    allowed r \<and> length sleeps \<le> 1"
    by (rule limiter_wait_two_attempts)
      (simp_all add: gcra_ok_def dwf_def emission_interval_def gcra_acquire_def gcra_maybe_evict_def
        EVICTION_THRESHOLD_def full_key_def MIN_POLL_INTERVAL_def Let_def)
  then show ?thesis by simp
qed

text \<open>
  The failure policy: with \<open>fail_open\<close> a valid request never raises, and it is refused only when
  the backend itself answered a refusal; without it the backend's exception reaches the caller.
\<close>

theorem limiter_fail_open_policy:
  assumes "1 \<le> c" "c \<le> config_limit (limiter_config R)"
  shows "(fail_open (limiter_config R) \<longrightarrow>
      (\<exists>r. fst (limiter_acquire S R t key c s) = Inr r \<and>
        (\<not> allowed r \<longrightarrow> fst (rs_acquire S t (full_key R key) c s) = Inr r))) \<and>
    (\<not> fail_open (limiter_config R) \<longrightarrow>
      (\<forall>exc. fst (rs_acquire S t (full_key R key) c s) = Inl exc \<longrightarrow>
        fst (limiter_acquire S R t key c s) = Inl (BackendRaised exc)))"
  using assms
  by (auto simp: limiter_acquire_def validate_cost_def build_fallback_def Let_def split: prod.splits sum.splits)

theorem limiter_fail_open_policy_witness:
  "\<exists>r. fst (limiter_acquire \<lparr>rs_acquire = (\<lambda>t k c s. (Inl OSError, s)), rs_peek = (\<lambda>t k s. Inl OSError),
      rs_reset = (\<lambda>k s. (Inl OSError, s))\<rparr>
      \<lparr>limiter_name = ''api'', limiter_config = TokenBucketConfig 5 1 True\<rparr> 0 ''u'' 1 ()) = Inr r"
  using limiter_fail_open_policy [of 1 "\<lparr>limiter_name = ''api'', limiter_config = TokenBucketConfig 5 1 True\<rparr>"
      "\<lparr>rs_acquire = (\<lambda>t k c s. (Inl OSError, s)), rs_peek = (\<lambda>t k s. Inl OSError),
        rs_reset = (\<lambda>k s. (Inl OSError, s))\<rparr>" 0 "''u''" "()"]
  by auto

end
