(* ===== verification/Breaker_Store.thy ===== *)
theory Breaker_Store
  imports Prelude
begin

text \<open>
  The circuit breaker's state machine (\<open>resilience/circuitbreaker/memory.py\<close>): the entries of the
  in-memory adapter and the consecutive-count strategy bound to one breaker name. A strategy is its
  name and configuration; its calls act on the adapter's dictionary, shared by all breakers, and
  take the reading of \<open>monotonic()\<close>.

  The lemmas show the state machine branch by branch, that the calls of one breaker leave every other
  breaker's snapshot alone although they reclaim expired entries, and the invariant of the counters.
\<close>

section \<open>Data\<close>

datatype cb_state = CLOSED | OPEN | HALF_OPEN | FORCED_OPEN | FORCED_CLOSED

text \<open>Deadlines: \<open>_NEVER\<close> is positive infinity.\<close>

datatype deadline = At seconds | Never

fun passed :: "seconds \<Rightarrow> deadline \<Rightarrow> bool" where
  "passed now (At e) = (now \<ge> e)"
| "passed now Never = False"

record breaker_entry =
  be_state :: cb_state
  opened_at :: seconds
  cool_down :: seconds
  error_count :: int
  success_count :: int
  half_open_admit :: int
  expires_at :: deadline

record breaker_config =
  error_threshold :: int
  success_threshold :: int
  reset_timeout :: seconds
  half_open_capacity :: int

record breaker_snapshot =
  sn_state :: cb_state
  sn_opened_at :: seconds
  sn_errors :: int
  sn_successes :: int

record breaker_strategy =
  bs_name :: string
  bs_config :: breaker_config

type_synonym breaker_store = "(string, breaker_entry) pydict"

definition STATE_TTL :: seconds where
  "STATE_TTL = 86400"

definition CULL_LIMIT :: nat where
  "CULL_LIMIT = 32"

definition resolve_state_ttl :: "seconds \<Rightarrow> seconds" where
  "resolve_state_ttl timeout = max STATE_TTL (10 * timeout)"

definition fresh_entry :: "seconds \<Rightarrow> breaker_entry" where
  "fresh_entry now = \<lparr>be_state = CLOSED, opened_at = 0, cool_down = 0, error_count = 0,
     success_count = 0, half_open_admit = 0, expires_at = At (now + STATE_TTL)\<rparr>"

definition snapshot_of :: "breaker_entry \<Rightarrow> breaker_snapshot" where
  "snapshot_of e = \<lparr>sn_state = be_state e, sn_opened_at = opened_at e, sn_errors = error_count e,
     sn_successes = success_count e\<rparr>"

definition DEFAULT_SNAPSHOT :: breaker_snapshot where
  "DEFAULT_SNAPSHOT = \<lparr>sn_state = CLOSED, sn_opened_at = 0, sn_errors = 0, sn_successes = 0\<rparr>"

section \<open>Operations\<close>

text \<open>\<open>_cull\<close>: at most \<open>_CULL_LIMIT\<close> expired entries of other breakers, in insertion order.\<close>

fun cull_loop :: "string \<Rightarrow> seconds \<Rightarrow> nat \<Rightarrow> (string \<times> breaker_entry) list \<Rightarrow> breaker_store \<Rightarrow> breaker_store" where
  "cull_loop me now reclaimed [] d = d"
| "cull_loop me now reclaimed ((n, e) # items) d =
     (if reclaimed \<ge> CULL_LIMIT then d
      else if n \<noteq> me \<and> passed now (expires_at e) then cull_loop me now (Suc reclaimed) items (ddel n d)
      else cull_loop me now reclaimed items d)"

definition breaker_cull :: "string \<Rightarrow> seconds \<Rightarrow> breaker_store \<Rightarrow> breaker_store" where
  "breaker_cull me now d = cull_loop me now 0 d d"

definition breaker_live :: "breaker_strategy \<Rightarrow> seconds \<Rightarrow> breaker_store \<Rightarrow> breaker_entry \<times> breaker_store" where
  "breaker_live S now d =
     (case dget d (bs_name S) of
        Some e \<Rightarrow> if passed now (expires_at e)
                 then (fresh_entry now, breaker_cull (bs_name S) now (dput (bs_name S) (fresh_entry now) d))
                 else (e, d)
      | None \<Rightarrow> (fresh_entry now, breaker_cull (bs_name S) now (dput (bs_name S) (fresh_entry now) d)))"

definition breaker_close :: "breaker_strategy \<Rightarrow> breaker_store \<Rightarrow> breaker_snapshot \<times> breaker_store" where
  "breaker_close S d = (DEFAULT_SNAPSHOT, ddel (bs_name S) d)"

text \<open>\<open>_admit_recovering\<close>; \<open>e\<close> is the entry that \<open>try_acquire\<close> read.\<close>

definition admit_recovering :: "breaker_strategy \<Rightarrow> seconds \<Rightarrow> breaker_entry \<Rightarrow> breaker_store \<Rightarrow> bool \<times> breaker_store" where
  "admit_recovering S now e d =
     (if passed now (expires_at e) then (True, snd (breaker_live S now d))
      else if be_state e = OPEN \<and> now < opened_at e + cool_down e then (False, d)
      else
        let e1 = (if be_state e = OPEN
                  then e\<lparr>be_state := HALF_OPEN, error_count := 0, success_count := 0, half_open_admit := 0,
                         opened_at := 0, cool_down := 0, expires_at := At (now + STATE_TTL)\<rparr>
                  else e)
        in if half_open_admit e1 < half_open_capacity (bs_config S)
           then (True, dput (bs_name S) (e1\<lparr>half_open_admit := half_open_admit e1 + 1,
                         expires_at := At (now + STATE_TTL)\<rparr>) d)
           else (False, dput (bs_name S) e1 d))"

definition breaker_try_acquire :: "breaker_strategy \<Rightarrow> seconds \<Rightarrow> breaker_store \<Rightarrow> bool \<times> breaker_store" where
  "breaker_try_acquire S now d =
     (case dget d (bs_name S) of
        None \<Rightarrow> (True, d)
      | Some e \<Rightarrow>
          if be_state e = CLOSED \<or> be_state e = FORCED_CLOSED then (True, d)
          else if be_state e = FORCED_OPEN then (False, d)
          else admit_recovering S now e d)"

text \<open>\<open>record_outcome\<close> on the live entry, after the test of the states that ignore outcomes.\<close>

definition record_success :: "breaker_strategy \<Rightarrow> breaker_entry \<Rightarrow> breaker_store \<Rightarrow> breaker_snapshot \<times> breaker_store" where
  "record_success S e d =
     (let e1 = e\<lparr>success_count := success_count e + 1, error_count := 0\<rparr> in
      if be_state e1 = HALF_OPEN then
        let e2 = (if half_open_admit e1 > 0 then e1\<lparr>half_open_admit := half_open_admit e1 - 1\<rparr> else e1)
        in if success_count e2 \<ge> success_threshold (bs_config S) then breaker_close S d
           else (snapshot_of e2, dput (bs_name S) e2 d)
      else (snapshot_of e1, dput (bs_name S) e1 d))"

definition record_error :: "breaker_strategy \<Rightarrow> seconds \<Rightarrow> breaker_entry \<Rightarrow> breaker_store \<Rightarrow> breaker_snapshot \<times> breaker_store" where
  "record_error S now e d =
     (let e1 = e\<lparr>error_count := error_count e + 1, success_count := 0\<rparr>;
          e2 = (if be_state e1 = HALF_OPEN \<and> half_open_admit e1 > 0
                then e1\<lparr>half_open_admit := half_open_admit e1 - 1\<rparr> else e1);
          e3 = (if error_count e2 \<ge> error_threshold (bs_config S)
                then e2\<lparr>be_state := OPEN, opened_at := now, cool_down := reset_timeout (bs_config S),
                        expires_at := At (now + resolve_state_ttl (reset_timeout (bs_config S))),
                        error_count := 0, success_count := 0, half_open_admit := 0\<rparr>
                else e2)
      in (snapshot_of e3, dput (bs_name S) e3 d))"

definition breaker_record_outcome ::
  "breaker_strategy \<Rightarrow> seconds \<Rightarrow> bool \<Rightarrow> breaker_store \<Rightarrow> breaker_snapshot \<times> breaker_store"
where
  "breaker_record_outcome S now success d0 =
     (let (e, d) = breaker_live S now d0 in
      if be_state e \<in> {FORCED_OPEN, FORCED_CLOSED, OPEN} then (snapshot_of e, d)
      else let e1 = e\<lparr>expires_at := At (now + STATE_TTL)\<rparr>
           in if success then record_success S e1 d else record_error S now e1 d)"

definition breaker_transition ::
  "breaker_strategy \<Rightarrow> seconds \<Rightarrow> cb_state \<Rightarrow> seconds option \<Rightarrow> breaker_store \<Rightarrow> breaker_store"
where
  "breaker_transition S now desired cool d0 =
     (if desired = CLOSED then snd (breaker_close S d0)
      else let (e, d) = breaker_live S now d0;
               e1 = (if desired = OPEN then
                       e\<lparr>be_state := OPEN, opened_at := now,
                         cool_down := (case cool of Some c \<Rightarrow> c | None \<Rightarrow> reset_timeout (bs_config S)),
                         expires_at := At (now + resolve_state_ttl
                           (case cool of Some c \<Rightarrow> c | None \<Rightarrow> reset_timeout (bs_config S)))\<rparr>
                     else
                       e\<lparr>be_state := desired, opened_at := 0, cool_down := 0,
                         expires_at := (if desired \<in> {FORCED_OPEN, FORCED_CLOSED} then Never
                                        else At (now + STATE_TTL))\<rparr>)
           in dput (bs_name S) (e1\<lparr>error_count := 0, success_count := 0, half_open_admit := 0\<rparr>) d)"

definition breaker_get_snapshot :: "breaker_strategy \<Rightarrow> seconds \<Rightarrow> breaker_store \<Rightarrow> breaker_snapshot" where
  "breaker_get_snapshot S now d =
     (case dget d (bs_name S) of
        None \<Rightarrow> DEFAULT_SNAPSHOT
      | Some e \<Rightarrow> if passed now (expires_at e) then DEFAULT_SNAPSHOT else snapshot_of e)"

definition breaker_adapter_close :: "breaker_store \<Rightarrow> breaker_store" where
  "breaker_adapter_close d = []"

text \<open>Runs: the calls of any breakers on the shared store, in order of time.\<close>

datatype breaker_call =
    TryAcquire
  | Outcome bool
  | Transition cb_state "seconds option"

fun breaker_step :: "breaker_strategy \<Rightarrow> seconds \<Rightarrow> breaker_call \<Rightarrow> breaker_store \<Rightarrow> breaker_store" where
  "breaker_step S t TryAcquire d = snd (breaker_try_acquire S t d)"
| "breaker_step S t (Outcome b) d = snd (breaker_record_outcome S t b d)"
| "breaker_step S t (Transition st c) d = breaker_transition S t st c d"

fun breaker_run :: "(breaker_strategy \<times> seconds \<times> breaker_call) list \<Rightarrow> breaker_store \<Rightarrow> breaker_store" where
  "breaker_run [] d = d"
| "breaker_run ((S, t, c) # xs) d = breaker_run xs (breaker_step S t c d)"

fun calls_ok :: "seconds \<Rightarrow> (breaker_strategy \<times> seconds \<times> breaker_call) list \<Rightarrow> bool" where
  "calls_ok t [] = True"
| "calls_ok t ((S, u, c) # xs) = (t \<le> u \<and> calls_ok u xs)"

text \<open>
  The counters stay below the thresholds that would have changed the state, and no more probes are
  admitted than the half-open capacity.
\<close>

definition entry_ok :: "breaker_config \<Rightarrow> breaker_entry \<Rightarrow> bool" where
  "entry_ok c e \<longleftrightarrow> 0 \<le> error_count e \<and> 0 \<le> success_count e \<and> 0 \<le> half_open_admit e \<and>
     half_open_admit e \<le> half_open_capacity c \<and>
     (be_state e \<in> {CLOSED, HALF_OPEN} \<longrightarrow> error_count e < error_threshold c) \<and>
     (be_state e = HALF_OPEN \<longrightarrow> success_count e < success_threshold c) \<and>
     (be_state e \<notin> {CLOSED, HALF_OPEN} \<longrightarrow> error_count e = 0 \<and> success_count e = 0) \<and>
     (be_state e \<noteq> HALF_OPEN \<longrightarrow> half_open_admit e = 0) \<and>
     (be_state e \<in> {FORCED_OPEN, FORCED_CLOSED} \<longleftrightarrow> expires_at e = Never)"

definition config_ok :: "breaker_config \<Rightarrow> bool" where
  "config_ok c \<longleftrightarrow> 1 \<le> error_threshold c \<and> 1 \<le> success_threshold c \<and> 0 < reset_timeout c \<and>
     1 \<le> half_open_capacity c"

lemmas breaker_defs = breaker_try_acquire_def admit_recovering_def breaker_record_outcome_def
  record_success_def record_error_def breaker_transition_def breaker_close_def Let_def

section \<open>The live entry\<close>

lemma passed_later: "passed t e \<Longrightarrow> t \<le> u \<Longrightarrow> passed u e"
  by (cases e) auto

lemma cull_loop_get:
  "dget (cull_loop me now r items d) n = dget d n \<or>
   (dget (cull_loop me now r items d) n = None \<and> n \<noteq> me \<and> (\<exists>e. (n, e) \<in> set items \<and> passed now (expires_at e)))"
  by (induction me now r items d rule: cull_loop.induct) (auto split: if_splits)

lemma cull_loop_wf: "dwf d \<Longrightarrow> dwf (cull_loop me now r items d)"
  by (induction me now r items d rule: cull_loop.induct) (auto simp: pd.wf_del)

lemma breaker_cull_get:
  assumes "dwf d"
  shows "dget (breaker_cull me now d) n = dget d n \<or>
    (dget (breaker_cull me now d) n = None \<and> n \<noteq> me \<and> (\<exists>e. dget d n = Some e \<and> passed now (expires_at e)))"
  using cull_loop_get [of me now 0 d d n] dget_iff [OF assms] by (auto simp: breaker_cull_def)

lemma breaker_cull_me [simp]: "dget (breaker_cull me now d) me = dget d me"
  using cull_loop_get [of me now 0 d d me] by (simp add: breaker_cull_def)

text \<open>What a breaker reads of its own entry: an expired one counts as absent.\<close>

definition view :: "string \<Rightarrow> seconds \<Rightarrow> breaker_store \<Rightarrow> breaker_entry option" where
  "view n t d = (case dget d n of None \<Rightarrow> None | Some e \<Rightarrow> if passed t (expires_at e) then None else Some e)"

lemma snapshot_view:
  "breaker_get_snapshot S t d = (case view (bs_name S) t d of None \<Rightarrow> DEFAULT_SNAPSHOT | Some e \<Rightarrow> snapshot_of e)"
  by (simp add: breaker_get_snapshot_def view_def split: option.splits)

lemma view_put [simp]:
  "view n t (dput m e d) = (if n = m then if passed t (expires_at e) then None else Some e else view n t d)"
  by (simp add: view_def)

lemma view_del [simp]: "view n t (ddel m d) = (if n = m then None else view n t d)"
  by (simp add: view_def)

lemma view_cull: "dwf d \<Longrightarrow> t \<le> u \<Longrightarrow> view n u (breaker_cull me t d) = view n u d"
  using breaker_cull_get [of d me t n] passed_later by (fastforce simp: view_def split: option.splits)

lemma breaker_live_view:
  "fst (breaker_live S t d) = (case view (bs_name S) t d of None \<Rightarrow> fresh_entry t | Some e \<Rightarrow> e)"
  by (auto simp: breaker_live_def view_def split: option.splits)

lemma breaker_live_store:
  assumes "dwf d"
  shows "dwf (snd (breaker_live S t d))"
    and "dget (snd (breaker_live S t d)) (bs_name S) = Some (fst (breaker_live S t d))"
    and "n \<noteq> bs_name S \<Longrightarrow> t \<le> u \<Longrightarrow> view n u (snd (breaker_live S t d)) = view n u d"
proof -
  have "dwf (breaker_cull m t (dput n e d))" for m n e
    unfolding breaker_cull_def by (intro cull_loop_wf pd.wf_put assms)
  then show "dwf (snd (breaker_live S t d))"
    using assms by (auto simp: breaker_live_def split: option.splits)
  show "dget (snd (breaker_live S t d)) (bs_name S) = Some (fst (breaker_live S t d))"
    by (auto simp: breaker_live_def split: option.splits)
  show "n \<noteq> bs_name S \<Longrightarrow> t \<le> u \<Longrightarrow> view n u (snd (breaker_live S t d)) = view n u d"
    using view_cull [OF pd.wf_put [OF assms]] by (auto simp: breaker_live_def split: option.splits)
qed

section \<open>One call\<close>

lemma breaker_step_wf: "dwf d \<Longrightarrow> dwf (breaker_step S t c d)"
  using breaker_live_store(1) [of d S t]
  by (cases c) (auto simp: breaker_defs pd.wf_put pd.wf_del split: option.splits prod.splits)

text \<open>A call of one breaker changes nothing that another breaker reads, now or later.\<close>

lemma breaker_step_frame:
  assumes "dwf d" "n \<noteq> bs_name S" "t \<le> u"
  shows "view n u (breaker_step S t c d) = view n u d"
proof -
  note live = breaker_live_store(3) [OF assms]
  show ?thesis
  proof (cases c)
    case TryAcquire
    with live assms show ?thesis
      by (auto simp: breaker_try_acquire_def admit_recovering_def Let_def split: option.splits)
  next
    case (Outcome b)
    with live assms show ?thesis
      by (auto simp: breaker_record_outcome_def record_success_def record_error_def breaker_close_def Let_def
          split: prod.splits)
  next
    case (Transition st w)
    with live assms show ?thesis
      by (auto simp: breaker_transition_def breaker_close_def Let_def split: prod.splits)
  qed
qed

text \<open>Forced states answer no call but a transition.\<close>

lemma forced_step:
  assumes "view (bs_name S) t d = Some e" "be_state e \<in> {FORCED_OPEN, FORCED_CLOSED}"
    and "\<And>st w. c \<noteq> Transition st w"
  shows "breaker_step S t c d = d"
proof -
  from assms(1) have "dget d (bs_name S) = Some e" "\<not> passed t (expires_at e)"
    by (auto simp: view_def split: option.splits if_splits)
  then show ?thesis using assms
    by (cases c) (auto simp: breaker_try_acquire_def breaker_record_outcome_def breaker_live_def)
qed

text \<open>An open circuit that is still cooling down answers no call but a transition.\<close>

lemma open_step:
  assumes "view (bs_name S) t d = Some e" "be_state e = OPEN" "t < opened_at e + cool_down e"
    and "\<And>st w. c \<noteq> Transition st w"
  shows "breaker_step S t c d = d" "fst (breaker_try_acquire S t d) = False"
proof -
  from assms(1) have e: "dget d (bs_name S) = Some e" "\<not> passed t (expires_at e)"
    by (auto simp: view_def split: option.splits if_splits)
  then show "breaker_step S t c d = d" using assms
    by (cases c) (auto simp: breaker_try_acquire_def admit_recovering_def breaker_record_outcome_def breaker_live_def)
  from e assms show "fst (breaker_try_acquire S t d) = False"
    by (simp add: breaker_try_acquire_def admit_recovering_def)
qed

lemma try_acquire_step: "breaker_step S t TryAcquire d = snd (breaker_try_acquire S t d)"
  by simp

section \<open>The invariant of the counters\<close>

definition breaker_inv :: "string \<Rightarrow> breaker_config \<Rightarrow> breaker_store \<Rightarrow> bool" where
  "breaker_inv n c d \<longleftrightarrow> dwf d \<and> (\<forall>e. dget d n = Some e \<longrightarrow> entry_ok c e)"

lemma fresh_entry_ok: "config_ok c \<Longrightarrow> entry_ok c (fresh_entry t)"
  by (simp add: entry_ok_def fresh_entry_def config_ok_def)

lemma live_ok:
  assumes "breaker_inv (bs_name S) (bs_config S) d" "config_ok (bs_config S)"
  shows "entry_ok (bs_config S) (fst (breaker_live S t d))"
  using assms fresh_entry_ok [OF assms(2)]
  by (auto simp: breaker_live_def breaker_inv_def split: option.splits)

lemma record_success_ok:
  assumes "entry_ok (bs_config S) e" "be_state e \<in> {CLOSED, HALF_OPEN}" "dwf d" "config_ok (bs_config S)"
  shows "breaker_inv (bs_name S) (bs_config S) (snd (record_success S e d))"
  using assms
  by (auto simp: record_success_def breaker_close_def breaker_inv_def entry_ok_def config_ok_def Let_def
      pd.wf_put pd.wf_del)

lemma record_error_ok:
  assumes "entry_ok (bs_config S) e" "be_state e \<in> {CLOSED, HALF_OPEN}" "dwf d" "config_ok (bs_config S)"
  shows "breaker_inv (bs_name S) (bs_config S) (snd (record_error S t e d))"
  using assms
  by (auto simp: record_error_def breaker_inv_def entry_ok_def config_ok_def Let_def pd.wf_put)

lemma entry_ok_expires:
  "entry_ok c e \<Longrightarrow> be_state e \<in> {CLOSED, HALF_OPEN} \<Longrightarrow> entry_ok c (e\<lparr>expires_at := At x\<rparr>)"
  by (auto simp: entry_ok_def)

lemma breaker_inv_put: "dwf d \<Longrightarrow> entry_ok c e \<Longrightarrow> breaker_inv n c (dput n e d)"
  by (simp add: breaker_inv_def pd.wf_put)

lemma live_inv:
  assumes "breaker_inv (bs_name S) (bs_config S) d" "config_ok (bs_config S)"
  shows "breaker_inv (bs_name S) (bs_config S) (snd (breaker_live S t d))"
  using breaker_live_store(1,2) [of d S t] live_ok [OF assms, of t] assms by (simp add: breaker_inv_def)

lemma admit_recovering_ok:
  assumes "breaker_inv (bs_name S) (bs_config S) d" "config_ok (bs_config S)"
    and "dget d (bs_name S) = Some e" "be_state e = OPEN \<or> be_state e = HALF_OPEN"
  shows "breaker_inv (bs_name S) (bs_config S) (snd (admit_recovering S t e d))"
proof -
  have wf: "dwf d" and e: "entry_ok (bs_config S) e" using assms by (auto simp: breaker_inv_def)
  show ?thesis
  proof (cases "be_state e = OPEN")
    case True
    then show ?thesis using live_inv [OF assms(1,2), of t] assms(1,2) e
      by (auto simp: admit_recovering_def Let_def entry_ok_def config_ok_def intro!: breaker_inv_put [OF wf])
  next
    case False
    then show ?thesis using live_inv [OF assms(1,2), of t] assms e
      by (auto simp: admit_recovering_def Let_def entry_ok_def intro!: breaker_inv_put [OF wf])
  qed
qed

lemma try_acquire_ok:
  assumes "breaker_inv (bs_name S) (bs_config S) d" "config_ok (bs_config S)"
  shows "breaker_inv (bs_name S) (bs_config S) (snd (breaker_try_acquire S t d))"
proof (cases "dget d (bs_name S)")
  case None
  then show ?thesis using assms by (simp add: breaker_try_acquire_def)
next
  case (Some e)
  then show ?thesis using assms admit_recovering_ok [OF assms Some]
    by (cases "be_state e") (simp_all add: breaker_try_acquire_def)
qed

lemma breaker_inv_step:
  assumes "breaker_inv (bs_name S) (bs_config S) d" "config_ok (bs_config S)"
  shows "breaker_inv (bs_name S) (bs_config S) (breaker_step S t c d)"
proof -
  have wf: "dwf d" using assms(1) by (simp add: breaker_inv_def)
  obtain e d' where live: "breaker_live S t d = (e, d')" by (cases "breaker_live S t d")
  have e: "entry_ok (bs_config S) e" using live_ok [OF assms, of t] live by simp
  have d': "dwf d'" "dget d' (bs_name S) = Some e"
    using breaker_live_store(1,2) [OF wf, of S t] live by auto
  show ?thesis
  proof (cases c)
    case TryAcquire
    then show ?thesis using try_acquire_ok [OF assms] by simp
  next
    case (Outcome b)
    let ?e = "e\<lparr>expires_at := At (t + STATE_TTL)\<rparr>"
    show ?thesis
    proof (cases "be_state e \<in> {FORCED_OPEN, FORCED_CLOSED, OPEN}")
      case True
      then show ?thesis using Outcome live d' e by (simp add: breaker_record_outcome_def breaker_inv_def)
    next
      case False
      then have st: "be_state e \<in> {CLOSED, HALF_OPEN}" by (cases "be_state e") auto
      have ok: "entry_ok (bs_config S) ?e" by (rule entry_ok_expires [OF e st])
      show ?thesis
        using record_success_ok [OF ok _ d'(1) assms(2)] record_error_ok [OF ok _ d'(1) assms(2), of t] st False
          Outcome live by (simp add: breaker_record_outcome_def Let_def)
    qed
  next
    case (Transition st w)
    show ?thesis
    proof (cases "st = CLOSED")
      case True
      then show ?thesis using Transition wf
        by (simp add: breaker_transition_def breaker_close_def breaker_inv_def pd.wf_del)
    next
      case False
      then show ?thesis using Transition live assms(2)
        by (cases st) (auto simp: breaker_transition_def Let_def entry_ok_def config_ok_def
            intro!: breaker_inv_put [OF d'(1)])
    qed
  qed
qed

lemma breaker_inv_frame:
  assumes "breaker_inv n c d" "n \<noteq> bs_name S"
  shows "breaker_inv n c (breaker_step S t call d)"
proof -
  have wf: "dwf d" using assms(1) by (simp add: breaker_inv_def)
  have cull: "dget (breaker_cull m t (dput m x d)) n = Some y \<Longrightarrow> m \<noteq> n \<Longrightarrow> dget d n = Some y" for m x y
    using breaker_cull_get [OF pd.wf_put [OF wf], of m t m x n] by auto
  have live: "dget (snd (breaker_live S t d)) n = Some y \<Longrightarrow> dget d n = Some y" for y
    using cull [of "bs_name S"] assms(2) by (auto simp: breaker_live_def split: option.splits if_splits)
  have "dget (breaker_step S t call d) n = Some y \<Longrightarrow> dget d n = Some y" for y
    using live assms(2)
    by (cases call)
      (auto simp: breaker_try_acquire_def admit_recovering_def breaker_record_outcome_def record_success_def
        record_error_def breaker_close_def breaker_transition_def Let_def split: option.splits prod.splits if_splits)
  with assms breaker_step_wf [OF wf] show ?thesis by (auto simp: breaker_inv_def)
qed

section \<open>Runs\<close>

text \<open>What a decision depends on.\<close>

lemma try_acquire_view:
  "fst (breaker_try_acquire S t d) = (case view (bs_name S) t d of
     None \<Rightarrow> (case dget d (bs_name S) of None \<Rightarrow> True | Some e \<Rightarrow> be_state e \<noteq> FORCED_OPEN)
   | Some e \<Rightarrow> (case be_state e of
       CLOSED \<Rightarrow> True | FORCED_CLOSED \<Rightarrow> True | FORCED_OPEN \<Rightarrow> False
     | OPEN \<Rightarrow> opened_at e + cool_down e \<le> t \<and> 0 < half_open_capacity (bs_config S)
     | HALF_OPEN \<Rightarrow> half_open_admit e < half_open_capacity (bs_config S)))"
  by (auto simp: view_def breaker_try_acquire_def admit_recovering_def Let_def
      split: option.splits cb_state.splits)

lemma breaker_run_wf: "dwf d \<Longrightarrow> dwf (breaker_run xs d)"
  by (induction xs d rule: breaker_run.induct) (auto simp: breaker_step_wf)

text \<open>A hold: an entry that every call but a transition leaves as it is until \<open>u\<close>.\<close>

lemma breaker_run_hold:
  assumes "dwf d" "calls_ok t xs" "view n t d = Some e"
    and "\<And>v. v \<le> u \<Longrightarrow> \<not> passed v (expires_at e)"
    and "\<And>S v c d. bs_name S = n \<Longrightarrow> v \<le> u \<Longrightarrow> view n v d = Some e \<Longrightarrow> (\<And>st w. c \<noteq> Transition st w) \<Longrightarrow>
      breaker_step S v c d = d"
    and "\<And>S v c. (S, v, c) \<in> set xs \<Longrightarrow> v \<le> u"
    and "\<And>S v st w. (S, v, Transition st w) \<in> set xs \<Longrightarrow> bs_name S \<noteq> n"
    and "t \<le> u"
  shows "view n u (breaker_run xs d) = Some e"
  using assms
proof (induction xs arbitrary: d t)
  case Nil
  have "dget d n = Some e" using Nil.prems(3) by (auto simp: view_def split: option.splits if_splits)
  with Nil.prems(4) [of u] show ?case by (simp add: view_def)
next
  case (Cons x xs)
  obtain S v c where x: "x = (S, v, c)" by (cases x)
  with Cons.prems(2) Cons.prems(6) [of S v c] have v: "t \<le> v" "v \<le> u" "calls_ok v xs" by auto
  have get: "dget d n = Some e" using Cons.prems(3) by (auto simp: view_def split: option.splits if_splits)
  have vv: "view n v d = Some e" using get Cons.prems(4) [OF v(2)] by (simp add: view_def)
  have "view n v (breaker_step S v c d) = Some e"
  proof (cases "bs_name S = n")
    case True
    have "c \<noteq> Transition st w" for st w using Cons.prems(7) [of S v st w] x True by auto
    from Cons.prems(5) [OF True v(2) vv this] vv show ?thesis by simp
  next
    case False
    then show ?thesis using breaker_step_frame [OF Cons.prems(1), of n S v v c] vv by simp
  qed
  moreover have "(S', v', c') \<in> set xs \<Longrightarrow> v' \<le> u" for S' v' c'
    by (rule Cons.prems(6) [of S' v' c']) simp
  moreover have "(S', v', Transition st w) \<in> set xs \<Longrightarrow> bs_name S' \<noteq> n" for S' v' st w
    by (rule Cons.prems(7) [of S' v' st w]) simp
  ultimately have "view n u (breaker_run xs (breaker_step S v c d)) = Some e"
    by (intro Cons.IH [OF breaker_step_wf [OF Cons.prems(1)] v(3)]) (use Cons.prems(4,5) v(2) in \<open>simp_all\<close>)
  with x show ?case by simp
qed

lemma breaker_inv_run:
  assumes "breaker_inv n c d" "config_ok c"
    and "\<And>S t call. (S, t, call) \<in> set xs \<Longrightarrow> bs_name S = n \<Longrightarrow> bs_config S = c"
  shows "breaker_inv n c (breaker_run xs d)"
  using assms
proof (induction xs d rule: breaker_run.induct)
  case (2 S t call xs d)
  have "breaker_inv n c (breaker_step S t call d)"
    using breaker_inv_step [of S d t call] breaker_inv_frame [OF 2(2), of S t call] 2(2,3) 2(4) [of S t call]
    by (cases "bs_name S = n") auto
  with 2 show ?case by auto
qed simp

section \<open>Guarantees\<close>

text \<open>
  An operator's hold is absolute: after \<open>transition(FORCED_OPEN)\<close> every later admission of the
  breaker is refused, after any calls of any breakers of the adapter at any later times, however
  long ago the hold was set, until another transition of this breaker.
\<close>

theorem breaker_isolated_until_transition:
  assumes "dwf d" "calls_ok t xs" "\<forall>(S', v, c) \<in> set xs. v \<le> u" "t \<le> u"
    and "\<forall>(S', v, c) \<in> set xs. bs_name S' = bs_name S \<longrightarrow> (\<forall>st w. c \<noteq> Transition st w)"
  shows "fst (breaker_try_acquire S u (breaker_run xs (breaker_transition S t FORCED_OPEN None d))) = False"
proof -
  let ?d = "breaker_transition S t FORCED_OPEN None d"
  have "\<exists>e. view (bs_name S) t ?d = Some e \<and> be_state e = FORCED_OPEN \<and> expires_at e = Never"
    by (simp add: breaker_transition_def Let_def case_prod_beta)
  then obtain e where e: "view (bs_name S) t ?d = Some e" "be_state e = FORCED_OPEN" "expires_at e = Never" by blast
  have wf: "dwf ?d" using breaker_step_wf [OF assms(1), of S t "Transition FORCED_OPEN None"] by simp
  have "view (bs_name S) u (breaker_run xs ?d) = Some e"
  proof (rule breaker_run_hold [OF wf assms(2) e(1) _ _ _ _ assms(4)])
    fix S' :: breaker_strategy and v c d assume "bs_name S' = bs_name S" "view (bs_name S) v d = Some e" "\<And>st w. c \<noteq> Transition st w"
    then show "breaker_step S' v c d = d" using forced_step [of S' v d e c] e(2) by simp
  qed (use assms(3,5) e(3) in auto)
  then show ?thesis using e(2) by (simp add: try_acquire_view)
qed

definition config_example :: breaker_config where
  "config_example = \<lparr>error_threshold = 2, success_threshold = 1, reset_timeout = 30, half_open_capacity = 1\<rparr>"

definition strategy_example :: "string \<Rightarrow> breaker_strategy" where
  "strategy_example n = \<lparr>bs_name = n, bs_config = config_example\<rparr>"

theorem breaker_isolated_until_transition_witness:
  "fst (breaker_try_acquire (strategy_example ''db'') 1000000 (breaker_run
     [(strategy_example ''db'', 5, TryAcquire), (strategy_example ''db'', 200000, Outcome True),
      (strategy_example ''mq'', 300000, Outcome False)]
     (breaker_transition (strategy_example ''db'') 0 FORCED_OPEN None []))) = False"
  by (rule breaker_isolated_until_transition) (auto simp: strategy_example_def)

text \<open>
  An open circuit refuses every call until its cool-down ends: whatever is called on the adapter
  in the meantime (outcomes of calls that were in flight included), as long as nobody makes a manual
  transition of this breaker.
\<close>

theorem breaker_open_refuses:
  assumes "dwf d" "calls_ok t xs" "view (bs_name S) t d = Some e" "be_state e = OPEN"
    and "\<forall>v < opened_at e + cool_down e. \<not> passed v (expires_at e)"
    and "\<forall>(S', v, c) \<in> set xs. v \<le> u" "t \<le> u" "u < opened_at e + cool_down e"
    and "\<forall>(S', v, c) \<in> set xs. bs_name S' = bs_name S \<longrightarrow> (\<forall>st w. c \<noteq> Transition st w)"
  shows "fst (breaker_try_acquire S u (breaker_run xs d)) = False \<and>
    breaker_get_snapshot S u (breaker_run xs d) = snapshot_of e"
proof -
  have "view (bs_name S) u (breaker_run xs d) = Some e"
  proof (rule breaker_run_hold [OF assms(1-3) _ _ _ _ assms(7)])
    fix S' :: breaker_strategy and v c d assume "bs_name S' = bs_name S" "v \<le> u" "view (bs_name S) v d = Some e"
      "\<And>st w. c \<noteq> Transition st w"
    then show "breaker_step S' v c d = d" using open_step(1) [of S' v d e c] assms(4,8) by simp
  qed (use assms in auto)
  then show ?thesis using assms(4,8) by (simp add: try_acquire_view snapshot_view)
qed

theorem breaker_open_refuses_witness:
  "fst (breaker_try_acquire (strategy_example ''db'') 29 (breaker_run
     [(strategy_example ''db'', 5, Outcome True), (strategy_example ''db'', 9, TryAcquire)]
     (breaker_run [(strategy_example ''db'', 0, Outcome False), (strategy_example ''db'', 0, Outcome False)] [])))
   = False"
proof -
  let ?S = "strategy_example ''db''"
  let ?d = "breaker_run [(?S, 0, Outcome False), (?S, 0, Outcome False)] []"
  let ?e = "\<lparr>be_state = OPEN, opened_at = 0, cool_down = 30, error_count = 0, success_count = 0,
    half_open_admit = 0, expires_at = At 86400\<rparr>"
  have d: "?d = [(''db'', ?e)]"
    by (simp add: strategy_example_def config_example_def breaker_record_outcome_def record_error_def
        breaker_live_def breaker_cull_def fresh_entry_def resolve_state_ttl_def STATE_TTL_def CULL_LIMIT_def Let_def)
  show ?thesis
    using breaker_open_refuses [of ?d 0 "[(?S, 5, Outcome True), (?S, 9, TryAcquire)]" ?S ?e 29]
    unfolding d by (simp add: dwf_def view_def strategy_example_def)
qed

text \<open>A closed circuit that has seen \<open>k\<close> errors in a row; an absent entry has seen none.\<close>

definition closed_with :: "breaker_strategy \<Rightarrow> seconds \<Rightarrow> breaker_store \<Rightarrow> int \<Rightarrow> bool" where
  "closed_with S t d k \<longleftrightarrow> (case view (bs_name S) t d of
     None \<Rightarrow> k = 0 | Some e \<Rightarrow> be_state e = CLOSED \<and> error_count e = k)"

fun gaps_ok :: "seconds \<Rightarrow> seconds list \<Rightarrow> bool" where
  "gaps_ok t [] = True"
| "gaps_ok t (u # us) = (t \<le> u \<and> u < t + STATE_TTL \<and> gaps_ok u us)"

abbreviation errors_at :: "breaker_strategy \<Rightarrow> seconds list \<Rightarrow> (breaker_strategy \<times> seconds \<times> breaker_call) list" where
  "errors_at S ts \<equiv> map (\<lambda>t. (S, t, Outcome False)) ts"

lemma closed_with_live: "closed_with S t d k \<Longrightarrow> breaker_live S t d = (e, d') \<Longrightarrow> be_state e = CLOSED \<and> error_count e = k"
  using breaker_live_view [of S t d] by (auto simp: closed_with_def fresh_entry_def split: option.splits)

lemma breaker_error_counts:
  assumes "closed_with S t d k" "k + 1 < error_threshold (bs_config S)" "v < t + STATE_TTL"
  shows "closed_with S v (breaker_step S t (Outcome False) d) (k + 1) \<and>
    sn_state (breaker_get_snapshot S v (breaker_step S t (Outcome False) d)) = CLOSED \<and>
    sn_errors (breaker_get_snapshot S v (breaker_step S t (Outcome False) d)) = k + 1"
proof -
  obtain e d' where live: "breaker_live S t d = (e, d')" by (cases "breaker_live S t d")
  with closed_with_live [OF assms(1) live] assms(2,3) show ?thesis
    by (simp add: breaker_record_outcome_def record_error_def Let_def closed_with_def
        breaker_get_snapshot_def snapshot_of_def)
qed

lemma breaker_error_trips:
  assumes "closed_with S t d k" "error_threshold (bs_config S) \<le> k + 1"
  shows "breaker_get_snapshot S t (breaker_step S t (Outcome False) d) =
    \<lparr>sn_state = OPEN, sn_opened_at = t, sn_errors = 0, sn_successes = 0\<rparr>"
proof -
  obtain e d' where live: "breaker_live S t d = (e, d')" by (cases "breaker_live S t d")
  have "\<not> t + resolve_state_ttl x \<le> t" for x by (simp add: resolve_state_ttl_def STATE_TTL_def)
  with closed_with_live [OF assms(1) live] assms(2) live show ?thesis
    by (simp add: breaker_record_outcome_def record_error_def breaker_get_snapshot_def snapshot_of_def Let_def)
qed

text \<open>The snapshot at the end of a row of errors at the given times.\<close>

abbreviation after_errors :: "breaker_strategy \<Rightarrow> seconds \<Rightarrow> seconds list \<Rightarrow> breaker_store \<Rightarrow> breaker_snapshot" where
  "after_errors S u us d \<equiv> breaker_get_snapshot S (last (u # us)) (breaker_run (errors_at S (u # us)) d)"

lemma breaker_trip_from:
  assumes "closed_with S u d k" "gaps_ok u us"
  shows "(k + 1 + int (length us) = error_threshold (bs_config S) \<longrightarrow>
      sn_state (after_errors S u us d) = OPEN \<and> sn_opened_at (after_errors S u us d) = last (u # us)) \<and>
    (k + 1 + int (length us) < error_threshold (bs_config S) \<longrightarrow>
      sn_state (after_errors S u us d) = CLOSED \<and> sn_errors (after_errors S u us d) = k + 1 + int (length us))"
  using assms
proof (induction us arbitrary: u d k)
  case Nil
  then show ?case using breaker_error_trips [OF Nil(1)] breaker_error_counts [OF Nil(1), of u]
    by (simp add: STATE_TTL_def)
next
  case (Cons v vs)
  have "closed_with S v (breaker_step S u (Outcome False) d) (k + 1)"
    if "k + 1 + int (length (v # vs)) \<le> error_threshold (bs_config S)"
    using breaker_error_counts [OF Cons.prems(1), of v] Cons.prems(2) that by simp
  from Cons.IH [OF this] Cons.prems(2) show ?case by (simp add: add.commute add.left_commute)
qed

text \<open>
  C10. The circuit trips at the threshold and not before: from a circuit with no entry, consecutive
  errors (each within the lifetime of the entry) leave it closed and counting while they are fewer
  than \<open>error_threshold\<close>, and the error that reaches the threshold opens it at that moment.
\<close>

theorem breaker_trips_at_threshold:
  assumes "dget d (bs_name S) = None" "gaps_ok u us"
  shows "(1 + int (length us) = error_threshold (bs_config S) \<longrightarrow>
      sn_state (after_errors S u us d) = OPEN \<and> sn_opened_at (after_errors S u us d) = last (u # us)) \<and>
    (1 + int (length us) < error_threshold (bs_config S) \<longrightarrow>
      sn_state (after_errors S u us d) = CLOSED \<and> sn_errors (after_errors S u us d) = 1 + int (length us))"
  using breaker_trip_from [of S u d 0 us] assms by (simp add: closed_with_def view_def)

theorem breaker_trips_at_threshold_witness:
  "sn_state (breaker_get_snapshot (strategy_example ''db'') 1 (breaker_run
     (errors_at (strategy_example ''db'') [0, 1]) [])) = OPEN"
  using breaker_trips_at_threshold [of "[]" "strategy_example ''db''" 0 "[1]"]
  by (simp add: strategy_example_def config_example_def STATE_TTL_def)

section \<open>Recovery\<close>

text \<open>
  A circuit ready for a probe with \<open>k\<close> successes counted: half-open with no probe in flight, or open
  (then none are counted) with its cool-down over.
\<close>

definition recovering_with :: "breaker_strategy \<Rightarrow> seconds \<Rightarrow> breaker_store \<Rightarrow> int \<Rightarrow> bool" where
  "recovering_with S t d k \<longleftrightarrow> (case view (bs_name S) t d of None \<Rightarrow> False | Some e \<Rightarrow>
     (be_state e = HALF_OPEN \<and> success_count e = k \<and> half_open_admit e = 0) \<or>
     (be_state e = OPEN \<and> opened_at e + cool_down e \<le> t \<and> k = 0))"

text \<open>A row of probes, each admitted at \<open>t\<close> and reported as a success at \<open>u\<close>; and what the admissions said.\<close>

fun probe_run :: "breaker_strategy \<Rightarrow> (seconds \<times> seconds) list \<Rightarrow> breaker_store \<Rightarrow> bool list \<times> breaker_store" where
  "probe_run S [] d = ([], d)"
| "probe_run S ((t, u) # ps) d =
     (let (ok, d1) = breaker_try_acquire S t d;
          (oks, d2) = probe_run S ps (snd (breaker_record_outcome S u True d1))
      in (ok # oks, d2))"

fun probes_ok :: "seconds \<Rightarrow> (seconds \<times> seconds) list \<Rightarrow> bool" where
  "probes_ok w [] = True"
| "probes_ok w ((t, u) # ps) = (t < w + STATE_TTL \<and> t \<le> u \<and> u < t + STATE_TTL \<and> probes_ok u ps)"

lemma probe_admitted:
  assumes "recovering_with S t d k" "config_ok (bs_config S)"
  obtains e where "breaker_try_acquire S t d =
      (True, dput (bs_name S) (e\<lparr>half_open_admit := 1, expires_at := At (t + STATE_TTL)\<rparr>) d)"
    "be_state e = HALF_OPEN" "success_count e = k"
proof -
  from assms(1) obtain e where e: "dget d (bs_name S) = Some e" "\<not> passed t (expires_at e)"
    and st: "be_state e = HALF_OPEN \<and> success_count e = k \<and> half_open_admit e = 0 \<or>
      be_state e = OPEN \<and> opened_at e + cool_down e \<le> t \<and> k = 0"
    by (auto simp: recovering_with_def view_def split: option.splits if_splits)
  have cap: "0 < half_open_capacity (bs_config S)" using assms(2) by (simp add: config_ok_def)
  from st show ?thesis
  proof
    assume h: "be_state e = HALF_OPEN \<and> success_count e = k \<and> half_open_admit e = 0"
    with e cap that [of e] show ?thesis by (simp add: breaker_try_acquire_def admit_recovering_def)
  next
    assume o: "be_state e = OPEN \<and> opened_at e + cool_down e \<le> t \<and> k = 0"
    let ?e = "e\<lparr>be_state := HALF_OPEN, error_count := 0, success_count := 0, half_open_admit := 0,
                opened_at := 0, cool_down := 0, expires_at := At (t + STATE_TTL)\<rparr>"
    from o e cap that [of ?e] show ?thesis by (simp add: breaker_try_acquire_def admit_recovering_def Let_def)
  qed
qed

lemma probe_succeeds:
  assumes "dget d (bs_name S) = Some e" "\<not> passed u (expires_at e)" "be_state e = HALF_OPEN" "half_open_admit e = 1"
  shows "success_count e + 1 < success_threshold (bs_config S) \<Longrightarrow> v < u + STATE_TTL \<Longrightarrow>
      recovering_with S v (snd (breaker_record_outcome S u True d)) (success_count e + 1)"
    and "success_threshold (bs_config S) \<le> success_count e + 1 \<Longrightarrow>
      dget (snd (breaker_record_outcome S u True d)) (bs_name S) = None"
  using assms by (auto simp: breaker_record_outcome_def breaker_live_def record_success_def breaker_close_def
      recovering_with_def Let_def)

lemma probe_run_closes:
  assumes "recovering_with S t d k" "config_ok (bs_config S)" "probes_ok w ((t, u) # ps)"
    and "k + 1 + int (length ps) = success_threshold (bs_config S)"
  shows "fst (probe_run S ((t, u) # ps) d) = replicate (Suc (length ps)) True \<and>
    dget (snd (probe_run S ((t, u) # ps) d)) (bs_name S) = None"
  using assms
proof (induction ps arbitrary: t u d k w)
  case Nil
  from probe_admitted [OF Nil(1,2)] obtain e where acq:
      "breaker_try_acquire S t d = (True, dput (bs_name S) (e\<lparr>half_open_admit := 1, expires_at := At (t + STATE_TTL)\<rparr>) d)"
    and e: "be_state e = HALF_OPEN" "success_count e = k" by metis
  show ?case using acq e probe_succeeds(2) [of "snd (breaker_try_acquire S t d)" S _ u] Nil(3,4) by simp
next
  case (Cons p ps)
  obtain t' u' where p: "p = (t', u')" by (cases p)
  from probe_admitted [OF Cons.prems(1,2)] obtain e where acq:
      "breaker_try_acquire S t d = (True, dput (bs_name S) (e\<lparr>half_open_admit := 1, expires_at := At (t + STATE_TTL)\<rparr>) d)"
    and e: "be_state e = HALF_OPEN" "success_count e = k" by metis
  have "recovering_with S t' (snd (breaker_record_outcome S u True (snd (breaker_try_acquire S t d)))) (k + 1)"
    using acq e probe_succeeds(1) [of "snd (breaker_try_acquire S t d)" S _ u t'] Cons.prems(3,4) p by simp
  from Cons.IH [OF this assms(2), of u u'] Cons.prems(3,4) acq show ?case
    by (simp add: p case_prod_beta Let_def)
qed

text \<open>
  C15. Recovery: once the cool-down of an open circuit is over, \<open>success_threshold\<close> probes one after
  the other are all admitted, and when they all succeed the circuit closes and its entry is removed.
\<close>

theorem breaker_recovers:
  assumes "view (bs_name S) t d = Some e" "be_state e = OPEN" "opened_at e + cool_down e \<le> t"
    and "config_ok (bs_config S)" "probes_ok t ((t, u) # ps)"
    and "1 + int (length ps) = success_threshold (bs_config S)"
  shows "fst (probe_run S ((t, u) # ps) d) = replicate (Suc (length ps)) True \<and>
    dget (snd (probe_run S ((t, u) # ps) d)) (bs_name S) = None"
  using probe_run_closes [OF _ assms(4,5), of d 0] assms by (simp add: recovering_with_def)

theorem breaker_recovers_witness:
  "fst (probe_run (strategy_example ''db'') [(31, 32)]
     (breaker_transition (strategy_example ''db'') 0 OPEN None [])) = [True]"
proof -
  let ?S = "strategy_example ''db''"
  let ?e = "\<lparr>be_state = OPEN, opened_at = 0, cool_down = 30, error_count = 0, success_count = 0,
    half_open_admit = 0, expires_at = At 86400\<rparr>"
  have d: "breaker_transition ?S 0 OPEN None [] = [(''db'', ?e)]"
    by (simp add: strategy_example_def config_example_def breaker_transition_def breaker_live_def breaker_cull_def
        fresh_entry_def resolve_state_ttl_def STATE_TTL_def CULL_LIMIT_def Let_def)
  show ?thesis unfolding d
    using breaker_recovers [of ?S 31 "[(''db'', ?e)]" ?e 32 "[]"]
    by (simp add: view_def strategy_example_def config_example_def config_ok_def STATE_TTL_def)
qed

text \<open>
  C16. The counters are bounded whatever the breakers of the adapter do: after any run from an empty
  adapter, the circuit never shows more consecutive errors than would have opened it nor more
  half-open successes than would have closed it, and never has more than \<open>half_open_capacity\<close> probes
  counted in flight.
\<close>

theorem breaker_counters_bounded:
  assumes "config_ok (bs_config S)"
    and "\<forall>(S', t, call) \<in> set xs. bs_name S' = bs_name S \<longrightarrow> bs_config S' = bs_config S"
  shows "sn_errors (breaker_get_snapshot S u (breaker_run xs [])) < error_threshold (bs_config S) \<and>
    (sn_state (breaker_get_snapshot S u (breaker_run xs [])) = HALF_OPEN \<longrightarrow>
       sn_successes (breaker_get_snapshot S u (breaker_run xs [])) < success_threshold (bs_config S)) \<and>
    (\<forall>e. dget (breaker_run xs []) (bs_name S) = Some e \<longrightarrow>
       0 \<le> half_open_admit e \<and> half_open_admit e \<le> half_open_capacity (bs_config S))"
proof -
  have "breaker_inv (bs_name S) (bs_config S) (breaker_run xs [])"
    using assms by (intro breaker_inv_run) (auto simp: breaker_inv_def dwf_def)
  moreover have "0 < error_threshold (bs_config S)" using assms(1) by (simp add: config_ok_def)
  ultimately show ?thesis
    by (cases "dget (breaker_run xs []) (bs_name S)")
      (auto simp: breaker_inv_def entry_ok_def breaker_get_snapshot_def snapshot_of_def DEFAULT_SNAPSHOT_def)
qed

theorem breaker_counters_bounded_witness:
  "sn_errors (breaker_get_snapshot (strategy_example ''db'') 9 (breaker_run
     [(strategy_example ''db'', 1, Outcome False), (strategy_example ''mq'', 2, Outcome False),
      (strategy_example ''db'', 3, Outcome True)] [])) < 2"
  using breaker_counters_bounded [of "strategy_example ''db''"
      "[(strategy_example ''db'', 1, Outcome False), (strategy_example ''mq'', 2, Outcome False),
        (strategy_example ''db'', 3, Outcome True)]" 9]
  by (simp add: strategy_example_def config_example_def config_ok_def)

section \<open>Breakers of one adapter do not interfere\<close>

text \<open>
  Two views are the same circuit when they are equal or both neutral: an absent entry and a fresh one
  behave alike, and which of the two a breaker has depends on what the others reclaimed.
\<close>

fun neutral :: "breaker_entry option \<Rightarrow> bool" where
  "neutral None = True"
| "neutral (Some e) = (be_state e = CLOSED \<and> opened_at e = 0 \<and> cool_down e = 0 \<and> error_count e = 0 \<and>
     success_count e = 0 \<and> half_open_admit e = 0)"

definition same_circuit :: "breaker_entry option \<Rightarrow> breaker_entry option \<Rightarrow> bool" where
  "same_circuit x y \<longleftrightarrow> x = y \<or> neutral x \<and> neutral y"

lemma neutral_live:
  assumes "neutral (view (bs_name S) t d)"
  shows "(fst (breaker_live S t d))\<lparr>expires_at := x\<rparr> = (fresh_entry t)\<lparr>expires_at := x\<rparr>"
  using assms
  by (cases "view (bs_name S) t d") (auto simp: breaker_live_view fresh_entry_def intro: breaker_entry.equality)

lemma view_later: "view n t d = None \<Longrightarrow> t \<le> u \<Longrightarrow> view n u d = None"
  using passed_later by (auto simp: view_def split: option.splits if_splits)

lemma neutral_later: "neutral (view n t d) \<Longrightarrow> t \<le> u \<Longrightarrow> neutral (view n u d)"
  using view_later by (cases "view n t d") (auto simp: view_def split: option.splits if_splits)

lemma view_SomeD: "view n t d = Some e \<Longrightarrow> dget d n = Some e \<and> \<not> passed t (expires_at e)"
  by (auto simp: view_def split: option.splits if_splits)

lemma view_later_eq:
  assumes "view n t d = view n t d'" "t \<le> u"
  shows "view n u d = view n u d'"
proof (cases "view n t d")
  case None
  then show ?thesis using assms by (simp add: view_later)
next
  case (Some e)
  then have "dget d n = Some e" "dget d' n = Some e" using view_SomeD assms(1) by metis+
  then show ?thesis by (simp add: view_def)
qed

lemma same_circuit_later: "same_circuit (view n t d) (view n t d') \<Longrightarrow> t \<le> u \<Longrightarrow> same_circuit (view n u d) (view n u d')"
  unfolding same_circuit_def using view_later_eq neutral_later by blast

text \<open>A call of the breaker itself takes a neutral circuit to the same circuit as from an empty store.\<close>

lemma neutral_try:
  assumes "breaker_inv (bs_name S) c d" "neutral (view (bs_name S) t d)" "t \<le> u"
  shows "neutral (view (bs_name S) u (snd (breaker_try_acquire S t d))) \<and> fst (breaker_try_acquire S t d)"
proof (cases "view (bs_name S) t d")
  case (Some e)
  then show ?thesis using assms view_SomeD [OF Some] neutral_later [OF assms(2,3)]
    by (simp add: breaker_try_acquire_def)
next
  case None
  show ?thesis
  proof (cases "dget d (bs_name S)")
    case (Some e)
    with None have p: "passed t (expires_at e)" by (auto simp: view_def split: if_splits)
    have "be_state e \<noteq> FORCED_OPEN" "be_state e \<noteq> FORCED_CLOSED"
      using p Some assms(1) by (auto simp: breaker_inv_def entry_ok_def)
    then show ?thesis
      using p Some neutral_later [OF assms(2,3)]
      by (auto simp: breaker_try_acquire_def admit_recovering_def breaker_live_def view_def fresh_entry_def)
  qed (simp add: breaker_try_acquire_def view_def)
qed

lemma neutral_step:
  assumes "dwf d" "neutral (view (bs_name S) t d)" "c \<noteq> TryAcquire"
  shows "view (bs_name S) u (breaker_step S t c d) = view (bs_name S) u (breaker_step S t c [])"
proof -
  note l = neutral_live [OF assms(2)]
  have n0: "neutral (view (bs_name S) t [])" by (simp add: view_def)
  note l0 = neutral_live [OF n0]
  obtain e d' where e: "breaker_live S t d = (e, d')" by (cases "breaker_live S t d")
  obtain e0 d0 where e0: "breaker_live S t [] = (e0, d0)" by (cases "breaker_live S t []")
  have eq: "e\<lparr>expires_at := x\<rparr> = e0\<lparr>expires_at := x\<rparr>" for x using l [of x] l0 [of x] e e0 by simp
  have st: "be_state e = CLOSED" "be_state e0 = CLOSED"
    using l [of Never] l0 [of Never] e e0
    by (auto dest: arg_cong [where f = be_state] simp: fresh_entry_def)
  show ?thesis
  proof (cases c)
    case (Outcome b)
    then show ?thesis using e e0 st eq
      by (cases b) (simp_all add: breaker_record_outcome_def record_success_def record_error_def Let_def)
  next
    case (Transition s w)
    then show ?thesis using e e0
      by (cases s) (simp_all add: breaker_transition_def breaker_close_def Let_def view_def)
  qed (use assms(3) in simp)
qed

lemma view_step:
  assumes "view (bs_name S) t d = Some e" "view (bs_name S) t d' = Some e"
  shows "view (bs_name S) u (breaker_step S t c d) = view (bs_name S) u (breaker_step S t c d')"
    and "fst (breaker_try_acquire S t d) = fst (breaker_try_acquire S t d')"
proof -
  have e: "dget d (bs_name S) = Some e" "dget d' (bs_name S) = Some e" "\<not> passed t (expires_at e)"
    using view_SomeD assms by metis+
  then have live: "breaker_live S t d = (e, d)" "breaker_live S t d' = (e, d')" by (simp_all add: breaker_live_def)
  have v: "view (bs_name S) u d = view (bs_name S) u d'" using e by (simp add: view_def)
  show "view (bs_name S) u (breaker_step S t c d) = view (bs_name S) u (breaker_step S t c d')"
  proof (cases c)
    case TryAcquire
    then show ?thesis using e v by (simp add: breaker_try_acquire_def admit_recovering_def Let_def)
  next
    case (Outcome b)
    then show ?thesis using live v
      by (simp add: breaker_record_outcome_def record_success_def record_error_def breaker_close_def Let_def)
  next
    case (Transition s w)
    then show ?thesis using live by (simp add: breaker_transition_def breaker_close_def Let_def)
  qed
  show "fst (breaker_try_acquire S t d) = fst (breaker_try_acquire S t d')"
    using e by (simp add: breaker_try_acquire_def admit_recovering_def Let_def)
qed

lemma same_circuit_cases [consumes 1, case_names neutral entry]:
  assumes "same_circuit x y"
  obtains "neutral x" "neutral y" | e where "x = Some e" "y = Some e"
  using assms by (cases x) (auto simp: same_circuit_def)

lemma same_circuit_step:
  assumes "breaker_inv (bs_name S) c1 d" "breaker_inv (bs_name S) c2 d'" "t \<le> u"
    and "same_circuit (view (bs_name S) t d) (view (bs_name S) t d')"
  shows "same_circuit (view (bs_name S) u (breaker_step S t c d)) (view (bs_name S) u (breaker_step S t c d'))"
  using assms(4)
proof (cases rule: same_circuit_cases)
  case neutral
  have "dwf d" "dwf d'" using assms(1,2) by (simp_all add: breaker_inv_def)
  with neutral neutral_try [OF assms(1) neutral(1) assms(3)] neutral_try [OF assms(2) neutral(2) assms(3)]
  show ?thesis by (cases "c = TryAcquire") (simp_all add: neutral_step same_circuit_def)
next
  case (entry e)
  then show ?thesis using view_step(1) [of S t d e d' u c] by (simp add: same_circuit_def)
qed

lemma same_circuit_decides:
  assumes "breaker_inv (bs_name S) c1 d" "breaker_inv (bs_name S) c2 d'"
    and "same_circuit (view (bs_name S) t d) (view (bs_name S) t d')"
  shows "fst (breaker_try_acquire S t d) = fst (breaker_try_acquire S t d')"
    and "breaker_get_snapshot S t d = breaker_get_snapshot S t d'"
proof -
  have default: "neutral (Some e) \<Longrightarrow> snapshot_of e = DEFAULT_SNAPSHOT" for e
    by (simp add: snapshot_of_def DEFAULT_SNAPSHOT_def)
  have neutral_snapshot: "neutral (view (bs_name S) t d) \<Longrightarrow> breaker_get_snapshot S t d = DEFAULT_SNAPSHOT" for d
    using default by (cases "view (bs_name S) t d") (simp_all add: snapshot_view)
  show "fst (breaker_try_acquire S t d) = fst (breaker_try_acquire S t d')"
    using assms(3)
  proof (cases rule: same_circuit_cases)
    case neutral
    then show ?thesis
      using neutral_try [OF assms(1) neutral(1) order_refl] neutral_try [OF assms(2) neutral(2) order_refl] by simp
  next
    case (entry e)
    then show ?thesis by (rule view_step(2))
  qed
  show "breaker_get_snapshot S t d = breaker_get_snapshot S t d'"
    using assms(3)
  proof (cases rule: same_circuit_cases)
    case neutral
    then show ?thesis using neutral_snapshot by simp
  next
    case (entry e)
    then show ?thesis by (simp add: snapshot_view)
  qed
qed

abbreviation calls_of :: "string \<Rightarrow> (breaker_strategy \<times> seconds \<times> breaker_call) list \<Rightarrow> (breaker_strategy \<times> seconds \<times> breaker_call) list" where
  "calls_of n xs \<equiv> filter (\<lambda>x. bs_name (fst x) = n) xs"

lemma same_circuit_run:
  assumes "breaker_inv n c d" "breaker_inv n c d'" "config_ok c" "calls_ok t xs" "t \<le> u"
    and "\<And>x. x \<in> set xs \<Longrightarrow> fst (snd x) \<le> u"
    and "\<And>x. x \<in> set xs \<Longrightarrow> bs_name (fst x) = n \<Longrightarrow> bs_config (fst x) = c"
    and "same_circuit (view n t d) (view n t d')"
  shows "same_circuit (view n u (breaker_run xs d)) (view n u (breaker_run (calls_of n xs) d'))"
  using assms
proof (induction xs arbitrary: t d d')
  case Nil
  then show ?case using same_circuit_later by simp
next
  case (Cons x xs)
  obtain S v call where x: "x = (S, v, call)" by (cases x)
  have v: "t \<le> v" "calls_ok v xs" "v \<le> u" using Cons.prems(4) Cons.prems(6) [of x] x by auto
  have same: "same_circuit (view n v d) (view n v d')" by (rule same_circuit_later [OF Cons.prems(8) v(1)])
  note IH = Cons.IH [OF _ _ Cons.prems(3) v(2,3)]
  show ?case
  proof (cases "bs_name S = n")
    case True
    then have c: "bs_config S = c" using Cons.prems(7) [of x] x by simp
    have "breaker_inv n c (breaker_step S v call d)" "breaker_inv n c (breaker_step S v call d')"
      using breaker_inv_step [of S] Cons.prems(1-3) True c by auto
    moreover have "same_circuit (view n v (breaker_step S v call d)) (view n v (breaker_step S v call d'))"
      using same_circuit_step [of S c d c d' v v call] Cons.prems(1,2) True same by simp
    ultimately show ?thesis using IH Cons.prems(6,7) True x by simp
  next
    case False
    have "dwf d" using Cons.prems(1) by (simp add: breaker_inv_def)
    then have "same_circuit (view n v (breaker_step S v call d)) (view n v d')"
      using breaker_step_frame [of d n S v v call] False same by simp
    moreover have "breaker_inv n c (breaker_step S v call d)"
      using breaker_inv_frame [OF Cons.prems(1), of S] False by auto
    ultimately show ?thesis using IH Cons.prems(2,6,7) False x by simp
  qed
qed

text \<open>
  C6. Breakers of one adapter do not interfere: after any run of calls of any breakers on a shared
  adapter, what a breaker's admission decides and what its snapshot shows are what they would be if
  only its own calls had been made, although every breaker's writes reclaim the expired entries of
  the others.
\<close>

theorem breakers_do_not_interfere:
  assumes "config_ok (bs_config S)" "calls_ok t xs" "t \<le> u" "\<forall>x \<in> set xs. fst (snd x) \<le> u"
    and "\<forall>x \<in> set xs. bs_name (fst x) = bs_name S \<longrightarrow> bs_config (fst x) = bs_config S"
  shows "fst (breaker_try_acquire S u (breaker_run xs [])) =
      fst (breaker_try_acquire S u (breaker_run (calls_of (bs_name S) xs) [])) \<and>
    breaker_get_snapshot S u (breaker_run xs []) =
      breaker_get_snapshot S u (breaker_run (calls_of (bs_name S) xs) [])"
proof -
  have inv0: "breaker_inv (bs_name S) (bs_config S) []" by (simp add: breaker_inv_def dwf_def)
  have "same_circuit (view (bs_name S) u (breaker_run xs [])) (view (bs_name S) u (breaker_run (calls_of (bs_name S) xs) []))"
    using assms by (intro same_circuit_run [OF inv0 inv0 assms(1-3)]) (auto simp: same_circuit_def)
  moreover have "breaker_inv (bs_name S) (bs_config S) (breaker_run xs [])"
    "breaker_inv (bs_name S) (bs_config S) (breaker_run (calls_of (bs_name S) xs) [])"
    using assms(5) by (intro breaker_inv_run [OF inv0 assms(1)]; force)+
  ultimately show ?thesis using same_circuit_decides by blast
qed

theorem breakers_do_not_interfere_witness:
  "fst (breaker_try_acquire (strategy_example ''db'') 90000 (breaker_run
     [(strategy_example ''db'', 0, Outcome False), (strategy_example ''mq'', 1, Outcome False),
      (strategy_example ''db'', 1, Outcome False), (strategy_example ''mq'', 90000, Outcome True)] [])) =
   fst (breaker_try_acquire (strategy_example ''db'') 90000 (breaker_run
     [(strategy_example ''db'', 0, Outcome False), (strategy_example ''db'', 1, Outcome False)] []))"
  using breakers_do_not_interfere [of "strategy_example ''db''" 0
      "[(strategy_example ''db'', 0, Outcome False), (strategy_example ''mq'', 1, Outcome False),
        (strategy_example ''db'', 1, Outcome False), (strategy_example ''mq'', 90000, Outcome True)]" 90000]
  by (simp add: strategy_example_def config_example_def config_ok_def)

end
