(* ===== verification/Breaker_Client.thy ===== *)
theory Breaker_Client
  imports Breaker_Store "HOL-Library.Sublist"
begin

text \<open>
  The circuit breaker as its callers see it (\<open>resilience/circuitbreaker/__init__.py\<close>): the per-replica
  object with its cached state, its counters and its call context manager, the worker-thread variants,
  manual control, live reconfiguration and the per-key circuits of a breaker with their eviction.

  The strategy behind a breaker is reached through a backend, a record of the calls the breaker makes;
  its contract is the locale \<open>breaker_backend_laws\<close>, interpreted on the in-memory adapter. The context
  variable that holds the admission configurations of a task is an argument, the stack of that task;
  the log is a list in the object; counters sent to a metrics system are left out.
\<close>

section \<open>The backend\<close>

record 'b breaker_backend =
  bk_try :: "breaker_strategy \<Rightarrow> seconds \<Rightarrow> 'b \<Rightarrow> bool \<times> 'b"
  bk_outcome :: "breaker_strategy \<Rightarrow> seconds \<Rightarrow> bool \<Rightarrow> 'b \<Rightarrow> breaker_snapshot \<times> 'b"
  bk_transition :: "breaker_strategy \<Rightarrow> seconds \<Rightarrow> cb_state \<Rightarrow> seconds option \<Rightarrow> 'b \<Rightarrow> 'b"
  bk_snapshot :: "breaker_strategy \<Rightarrow> seconds \<Rightarrow> 'b \<Rightarrow> breaker_snapshot"

definition memory_breaker_backend :: "breaker_store breaker_backend" where
  "memory_breaker_backend = \<lparr>bk_try = breaker_try_acquire, bk_outcome = breaker_record_outcome,
     bk_transition = breaker_transition, bk_snapshot = breaker_get_snapshot\<rparr>"

section \<open>The breaker object\<close>

record cb_config =
  cc_config :: breaker_config
  ignore_exceptions :: "string list"

datatype transition_cause = ERROR_THRESHOLD | SUCCESS_THRESHOLD | RESET_TIMEOUT | MANUAL | RESTART

record circuit_breaker =
  cb_name :: string
  cb_key :: "string option"
  st_config :: cb_config
  st_strategy :: "breaker_strategy option"
  cached_state :: cb_state
  cached_errors :: int
  cached_successes :: int
  total_errors :: int
  total_successes :: int
  cb_last_error :: "py_raised option"
  last_error_time :: "seconds option"
  active_calls :: int
  touched :: seconds
  transition_log :: "(cb_state \<times> transition_cause) list"

record circuit_breaker_error =
  cbe_name :: string
  cbe_last_error_time :: "seconds option"
  cbe_last_error :: "py_raised option"

definition cb_setup :: "string \<Rightarrow> cb_config \<Rightarrow> circuit_breaker" where
  "cb_setup name config = \<lparr>cb_name = name, cb_key = None, st_config = config, st_strategy = None,
     cached_state = CLOSED, cached_errors = 0, cached_successes = 0, total_errors = 0,
     total_successes = 0, cb_last_error = None, last_error_time = None, active_calls = 0,
     touched = 0, transition_log = []\<rparr>"

text \<open>\<open>state.strategy or self._resolve_strategy(state)\<close>: bind the published configuration once.\<close>

definition resolve_strategy :: "circuit_breaker \<Rightarrow> breaker_strategy \<times> circuit_breaker" where
  "resolve_strategy cb =
     (case st_strategy cb of
        Some s \<Rightarrow> (s, cb)
      | None \<Rightarrow> let s = \<lparr>bs_name = cb_name cb, bs_config = cc_config (st_config cb)\<rparr>
                in (s, cb\<lparr>st_strategy := Some s\<rparr>))"

definition derive_cause :: "cb_state \<Rightarrow> cb_state \<Rightarrow> transition_cause" where
  "derive_cause previous new =
     (if new = OPEN then ERROR_THRESHOLD
      else if new = HALF_OPEN \<and> previous = OPEN then RESET_TIMEOUT
      else if new = CLOSED then SUCCESS_THRESHOLD
      else MANUAL)"

definition log_transition :: "cb_state \<Rightarrow> transition_cause \<Rightarrow> circuit_breaker \<Rightarrow> circuit_breaker" where
  "log_transition st cause cb = cb\<lparr>transition_log := transition_log cb @ [(st, cause)]\<rparr>"

definition apply_snapshot :: "breaker_snapshot \<Rightarrow> circuit_breaker \<Rightarrow> circuit_breaker" where
  "apply_snapshot s cb =
     (let previous = cached_state cb;
          cb1 = cb\<lparr>cached_state := sn_state s, cached_errors := sn_errors s, cached_successes := sn_successes s\<rparr>
      in if previous \<noteq> sn_state s then log_transition (sn_state s) (derive_cause previous (sn_state s)) cb1
         else cb1)"

definition release_call :: "seconds \<Rightarrow> circuit_breaker \<Rightarrow> circuit_breaker" where
  "release_call t cb =
     (if active_calls cb > 0 then cb\<lparr>active_calls := active_calls cb - 1, touched := t\<rparr> else cb\<lparr>touched := t\<rparr>)"

text \<open>
  \<open>__aenter__\<close>: \<open>t\<close> is the clock of the admission, \<open>v\<close> the next reading (of the snapshot after a
  refusal, of \<open>_touched\<close> after an admission). The left result is the error it raises.
\<close>

definition cb_enter ::
  "'b breaker_backend \<Rightarrow> seconds \<Rightarrow> seconds \<Rightarrow> cb_config list \<Rightarrow> circuit_breaker \<Rightarrow> 'b \<Rightarrow>
   (circuit_breaker_error + cb_config list) \<times> circuit_breaker \<times> 'b"
where
  "cb_enter bk t v stack cb0 b =
     (let config = st_config cb0;
          (s, cb) = resolve_strategy cb0;
          (ok, b1) = bk_try bk s t b
      in if \<not> ok then
           let cb1 = apply_snapshot (bk_snapshot bk s v b1) cb
           in (Inl \<lparr>cbe_name = cb_name cb1, cbe_last_error_time = last_error_time cb1,
                    cbe_last_error = cb_last_error cb1\<rparr>, cb1, b1)
         else (Inr (stack @ [config]), cb\<lparr>active_calls := active_calls cb + 1, touched := v\<rparr>, b1))"

text \<open>How the body of the call ended.\<close>

datatype body_exit = Returned | Raised py_raised

text \<open>
  \<open>__aexit__\<close>: \<open>t\<close> is the clock when the call is released, \<open>v\<close> the one of the strategy, \<open>wall\<close> the
  current date. It returns None, so what the body raised goes on to the caller.
\<close>

definition cb_handle_exit ::
  "'b breaker_backend \<Rightarrow> seconds \<Rightarrow> seconds \<Rightarrow> seconds \<Rightarrow> cb_config \<Rightarrow> body_exit \<Rightarrow> circuit_breaker \<Rightarrow> 'b \<Rightarrow>
   circuit_breaker \<times> 'b"
where
  "cb_handle_exit bk t v wall config ex cb0 b =
     (let (s, cb) = resolve_strategy (release_call t cb0)
      in case ex of
           Returned \<Rightarrow>
             (let (snap, b1) = bk_outcome bk s v True b
              in (apply_snapshot snap (cb\<lparr>total_successes := total_successes cb + 1\<rparr>), b1))
         | Raised x \<Rightarrow>
             if is_instance x (ignore_exceptions config) then
               let (snap, b1) = bk_outcome bk s v True b
               in (apply_snapshot snap (cb\<lparr>total_successes := total_successes cb + 1\<rparr>), b1)
             else if is_instance x [''Exception''] then
               let (snap, b1) = bk_outcome bk s v False b
               in (apply_snapshot snap (cb\<lparr>total_errors := total_errors cb + 1, cb_last_error := Some x,
                     last_error_time := Some wall\<rparr>), b1)
             else (cb, b))"

definition cb_exit ::
  "'b breaker_backend \<Rightarrow> seconds \<Rightarrow> seconds \<Rightarrow> seconds \<Rightarrow> body_exit \<Rightarrow> cb_config list \<Rightarrow> circuit_breaker \<Rightarrow> 'b \<Rightarrow>
   py_exc + cb_config list \<times> circuit_breaker \<times> 'b"
where
  "cb_exit bk t v wall ex stack cb b =
     (if stack = [] then Inl IndexError
      else Inr (butlast stack, cb_handle_exit bk t v wall (last stack) ex cb b))"

text \<open>The worker-thread variants run on the backend's loop and keep their stack in the thread.\<close>

definition async_admit ::
  "'b breaker_backend \<Rightarrow> seconds \<Rightarrow> seconds \<Rightarrow> circuit_breaker \<Rightarrow> 'b \<Rightarrow> bool \<times> circuit_breaker \<times> 'b"
where
  "async_admit bk t v cb0 b =
     (let (s, cb) = resolve_strategy cb0;
          (ok, b1) = bk_try bk s t b
      in if ok then (True, cb\<lparr>active_calls := active_calls cb + 1, touched := v\<rparr>, b1)
         else (False, apply_snapshot (bk_snapshot bk s v b1) cb, b1))"

definition thread_enter ::
  "'b breaker_backend \<Rightarrow> seconds \<Rightarrow> seconds \<Rightarrow> cb_config list \<Rightarrow> circuit_breaker \<Rightarrow> 'b \<Rightarrow>
   (circuit_breaker_error + cb_config list) \<times> circuit_breaker \<times> 'b"
where
  "thread_enter bk t v stack cb b =
     (let config = st_config cb;
          (ok, cb1, b1) = async_admit bk t v cb b
      in if \<not> ok then (Inl \<lparr>cbe_name = cb_name cb1, cbe_last_error_time = last_error_time cb1,
                            cbe_last_error = cb_last_error cb1\<rparr>, cb1, b1)
         else (Inr (stack @ [config]), cb1, b1))"

definition thread_exit ::
  "'b breaker_backend \<Rightarrow> seconds \<Rightarrow> seconds \<Rightarrow> seconds \<Rightarrow> body_exit \<Rightarrow> cb_config list \<Rightarrow> circuit_breaker \<Rightarrow> 'b \<Rightarrow>
   py_exc + cb_config list \<times> circuit_breaker \<times> 'b"
where
  "thread_exit bk t v wall ex stack cb b =
     (if stack = [] then Inl IndexError
      else Inr (butlast stack, cb_handle_exit bk t v wall (last stack) ex cb b))"

definition cb_transition ::
  "'b breaker_backend \<Rightarrow> seconds \<Rightarrow> cb_state \<Rightarrow> transition_cause \<Rightarrow> seconds option \<Rightarrow> circuit_breaker \<Rightarrow> 'b \<Rightarrow>
   circuit_breaker \<times> 'b"
where
  "cb_transition bk t desired cause cool cb0 b =
     (let (s, cb) = resolve_strategy cb0;
          b1 = bk_transition bk s t desired cool b
      in (log_transition desired cause
            (cb\<lparr>cached_state := desired, cached_errors := 0, cached_successes := 0\<rparr>), b1))"

definition cb_isolate :: "'b breaker_backend \<Rightarrow> seconds \<Rightarrow> circuit_breaker \<Rightarrow> 'b \<Rightarrow> circuit_breaker \<times> 'b" where
  "cb_isolate bk t cb b = cb_transition bk t FORCED_OPEN MANUAL None cb b"

definition cb_reset :: "'b breaker_backend \<Rightarrow> seconds \<Rightarrow> circuit_breaker \<Rightarrow> 'b \<Rightarrow> circuit_breaker \<times> 'b" where
  "cb_reset bk t cb b = cb_transition bk t CLOSED RESTART None
     (cb\<lparr>total_errors := 0, total_successes := 0, cb_last_error := None, last_error_time := None\<rparr>) b"

record cb_metrics =
  mt_name :: string
  mt_state :: cb_state
  mt_active_calls :: int
  mt_total_errors :: int
  mt_total_successes :: int
  mt_errors :: int
  mt_successes :: int
  mt_last_error :: "(seconds \<times> string \<times> string) option"

text \<open>\<open>type(e).__name__\<close> is the first of the classes.\<close>

definition map_last_error :: "circuit_breaker \<Rightarrow> (seconds \<times> string \<times> string) option" where
  "map_last_error cb =
     (case (cb_last_error cb, last_error_time cb) of
        (Some x, Some t) \<Rightarrow> Some (t, (case ex_classes x of [] \<Rightarrow> '''' | c # cs \<Rightarrow> c), ex_message x)
      | _ \<Rightarrow> None)"

definition breaker_metrics :: "circuit_breaker \<Rightarrow> cb_metrics" where
  "breaker_metrics cb = \<lparr>mt_name = cb_name cb, mt_state = cached_state cb, mt_active_calls = active_calls cb,
     mt_total_errors = total_errors cb, mt_total_successes = total_successes cb,
     mt_errors = cached_errors cb, mt_successes = cached_successes cb, mt_last_error = map_last_error cb\<rparr>"

section \<open>Keyed circuits\<close>

text \<open>The breaker with the ordered dictionary of its per-key circuits, most recently used last.\<close>

record keyed_breaker =
  kb_self :: circuit_breaker
  kb_keyed :: "(string, circuit_breaker) pydict"
  kb_maxsize :: int

definition KEYED_RESIDENCY :: seconds where
  "KEYED_RESIDENCY = 300"

definition new_keyed :: "circuit_breaker \<Rightarrow> string \<Rightarrow> seconds \<Rightarrow> circuit_breaker" where
  "new_keyed cb key t = \<lparr>cb_name = cb_name cb @ '':'' @ key, cb_key = Some key, st_config = st_config cb,
     st_strategy = None, cached_state = CLOSED, cached_errors = 0, cached_successes = 0,
     total_errors = 0, total_successes = 0, cb_last_error = None, last_error_time = None,
     active_calls = 0, touched = t, transition_log = []\<rparr>"

definition evictable :: "seconds \<Rightarrow> circuit_breaker \<Rightarrow> bool" where
  "evictable now cb \<longleftrightarrow> active_calls cb = 0 \<and> now - touched cb \<ge> KEYED_RESIDENCY"

text \<open>The inner loop of \<open>_evict_keyed\<close>: the first circuit that can go, and the rest of the map.\<close>

fun drop_first_evictable :: "seconds \<Rightarrow> (string, circuit_breaker) pydict \<Rightarrow> (string, circuit_breaker) pydict option" where
  "drop_first_evictable now [] = None"
| "drop_first_evictable now ((k, c) # d) =
     (if evictable now c then Some d else map_option (Cons (k, c)) (drop_first_evictable now d))"

lemma drop_first_length: "drop_first_evictable now d = Some d' \<Longrightarrow> length d = Suc (length d')"
  by (induction now d arbitrary: d' rule: drop_first_evictable.induct) (auto split: if_splits)

function evict_loop :: "int \<Rightarrow> seconds \<Rightarrow> (string, circuit_breaker) pydict \<Rightarrow> (string, circuit_breaker) pydict" where
  "evict_loop maxsize now d =
     (if int (length d) > maxsize then
        case drop_first_evictable now d of None \<Rightarrow> d | Some d' \<Rightarrow> evict_loop maxsize now d'
      else d)"
  by pat_completeness auto
termination
  by (relation "measure (\<lambda>(m, now, d). length d)") (auto dest: drop_first_length)

declare evict_loop.simps [simp del]

definition evict_keyed :: "seconds \<Rightarrow> keyed_breaker \<Rightarrow> keyed_breaker" where
  "evict_keyed now kb =
     (if kb_maxsize kb = 0 then kb
      else kb\<lparr>kb_keyed := evict_loop (kb_maxsize kb) now (kb_keyed kb)\<rparr>)"

definition move_to_end :: "string \<Rightarrow> circuit_breaker \<Rightarrow> (string, circuit_breaker) pydict \<Rightarrow> (string, circuit_breaker) pydict" where
  "move_to_end k c d = ddel k d @ [(k, c)]"

text \<open>\<open>keyed\<close>: \<open>t\<close> is the clock when a circuit is touched or made, \<open>v\<close> the clock of the eviction.\<close>

definition cb_keyed :: "string \<Rightarrow> seconds \<Rightarrow> seconds \<Rightarrow> keyed_breaker \<Rightarrow> circuit_breaker \<times> keyed_breaker" where
  "cb_keyed key t v kb =
     (case dget (kb_keyed kb) key of
        Some c \<Rightarrow> (let c1 = c\<lparr>touched := t\<rparr> in (c1, kb\<lparr>kb_keyed := move_to_end key c1 (kb_keyed kb)\<rparr>))
      | None \<Rightarrow> (let c = new_keyed (kb_self kb) key t
                 in (c, evict_keyed v (kb\<lparr>kb_keyed := dput key c (kb_keyed kb)\<rparr>))))"

text \<open>\<open>_apply_reconfigure\<close>: publish the configuration and drop every bound strategy.\<close>

definition apply_reconfigure :: "cb_config \<Rightarrow> keyed_breaker \<Rightarrow> keyed_breaker" where
  "apply_reconfigure config kb = kb\<lparr>kb_self := (kb_self kb)\<lparr>st_config := config, st_strategy := None\<rparr>,
     kb_keyed := map (\<lambda>(k, c). (k, c\<lparr>st_config := config, st_strategy := None\<rparr>)) (kb_keyed kb)\<rparr>"

section \<open>Worlds of callers\<close>

text \<open>
  Several breaker objects on one backend, used by several tasks. A stack belongs to a task and a
  breaker; the per-key circuits of a breaker share its stack.
\<close>

record 'b cb_world =
  objs :: "nat \<Rightarrow> circuit_breaker"
  stacks :: "nat \<Rightarrow> cb_config list"
  shared :: 'b

datatype cb_event =
    Enter nat nat seconds seconds
  | Exit nat nat seconds seconds seconds body_exit
  | Isolate nat seconds
  | Reset nat seconds

fun world_step :: "'b breaker_backend \<Rightarrow> cb_event \<Rightarrow> 'b cb_world \<Rightarrow> 'b cb_world" where
  "world_step bk (Enter k i t v) w =
     (case cb_enter bk t v (stacks w k) (objs w i) (shared w) of
        (Inl err, cb, b) \<Rightarrow> w\<lparr>objs := (objs w)(i := cb), shared := b\<rparr>
      | (Inr st, cb, b) \<Rightarrow> w\<lparr>objs := (objs w)(i := cb), stacks := (stacks w)(k := st), shared := b\<rparr>)"
| "world_step bk (Exit k i t v wall ex) w =
     (case cb_exit bk t v wall ex (stacks w k) (objs w i) (shared w) of
        Inl err \<Rightarrow> w
      | Inr (st, cb, b) \<Rightarrow> w\<lparr>objs := (objs w)(i := cb), stacks := (stacks w)(k := st), shared := b\<rparr>)"
| "world_step bk (Isolate i t) w =
     (case cb_isolate bk t (objs w i) (shared w) of (cb, b) \<Rightarrow> w\<lparr>objs := (objs w)(i := cb), shared := b\<rparr>)"
| "world_step bk (Reset i t) w =
     (case cb_reset bk t (objs w i) (shared w) of (cb, b) \<Rightarrow> w\<lparr>objs := (objs w)(i := cb), shared := b\<rparr>)"

definition world_run :: "'b breaker_backend \<Rightarrow> cb_event list \<Rightarrow> 'b cb_world \<Rightarrow> 'b cb_world" where
  "world_run bk es w = fold (world_step bk) es w"

text \<open>A bound strategy carries the name of its breaker.\<close>

definition cb_ok :: "circuit_breaker \<Rightarrow> bool" where
  "cb_ok cb \<longleftrightarrow> (\<forall>s. st_strategy cb = Some s \<longrightarrow> bs_name s = cb_name cb)"

definition world_ok :: "'b cb_world \<Rightarrow> bool" where
  "world_ok w \<longleftrightarrow> (\<forall>i. cb_ok (objs w i))"

lemma resolve_name:
  assumes "cb_ok cb"
  shows "bs_name (fst (resolve_strategy cb)) = cb_name cb" "cb_ok (snd (resolve_strategy cb))"
    "cb_name (snd (resolve_strategy cb)) = cb_name cb"
  using assms by (auto simp: resolve_strategy_def cb_ok_def Let_def split: option.splits)

lemma apply_snapshot_fields [simp]:
  "cb_name (apply_snapshot s cb) = cb_name cb" "st_strategy (apply_snapshot s cb) = st_strategy cb"
  "active_calls (apply_snapshot s cb) = active_calls cb" "cached_state (apply_snapshot s cb) = sn_state s"
  "cached_errors (apply_snapshot s cb) = sn_errors s" "cached_successes (apply_snapshot s cb) = sn_successes s"
  "total_errors (apply_snapshot s cb) = total_errors cb" "total_successes (apply_snapshot s cb) = total_successes cb"
  by (simp_all add: apply_snapshot_def log_transition_def Let_def)

lemma release_call_fields [simp]:
  "cb_name (release_call t cb) = cb_name cb" "st_strategy (release_call t cb) = st_strategy cb"
  "st_config (release_call t cb) = st_config cb"
  by (simp_all add: release_call_def)

lemma resolve_release: "fst (resolve_strategy (release_call t cb)) = fst (resolve_strategy cb)"
  by (simp add: resolve_strategy_def Let_def split: option.splits)

lemma enter_object:
  assumes "cb_ok cb" "cb_enter bk t v st cb b = (r, cb', b')"
  shows "cb_ok cb' \<and> cb_name cb' = cb_name cb \<and> b' = snd (bk_try bk (fst (resolve_strategy cb)) t b) \<and>
    (isl r \<longleftrightarrow> \<not> fst (bk_try bk (fst (resolve_strategy cb)) t b))"
  using assms resolve_name [OF assms(1)]
  by (auto simp: cb_enter_def cb_ok_def Let_def case_prod_beta split: if_splits)

lemma exit_object:
  assumes "cb_ok cb" "cb_handle_exit bk t v wall config ex cb b = (cb', b')"
  shows "cb_ok cb' \<and> cb_name cb' = cb_name cb \<and>
    (b' = b \<or> (\<exists>r. b' = snd (bk_outcome bk (fst (resolve_strategy cb)) v r b)))"
proof -
  have "cb_ok (release_call t cb)" using assms(1) by (simp add: cb_ok_def)
  note r = resolve_name [OF this]
  show ?thesis using assms(2) r resolve_release [of t cb]
    by (auto simp: cb_handle_exit_def cb_ok_def Let_def case_prod_beta split: body_exit.splits if_splits)
qed

section \<open>The contract of a backend\<close>

locale breaker_backend_laws =
  fixes bk :: "'b breaker_backend" and wf :: "'b \<Rightarrow> bool" and held :: "string \<Rightarrow> 'b \<Rightarrow> bool"
  assumes wf_try: "wf b \<Longrightarrow> wf (snd (bk_try bk S t b))"
    and wf_outcome: "wf b \<Longrightarrow> wf (snd (bk_outcome bk S t r b))"
    and wf_transition: "wf b \<Longrightarrow> wf (bk_transition bk S t st c b)"
    and isolate_holds: "wf b \<Longrightarrow> held (bs_name S) (bk_transition bk S t FORCED_OPEN c b)"
    and held_refuses: "held (bs_name S) b \<Longrightarrow> \<not> fst (bk_try bk S t b)"
    and held_try: "wf b \<Longrightarrow> held n b \<Longrightarrow> held n (snd (bk_try bk S t b))"
    and held_outcome: "wf b \<Longrightarrow> held n b \<Longrightarrow> held n (snd (bk_outcome bk S t r b))"
    and held_other: "wf b \<Longrightarrow> held n b \<Longrightarrow> bs_name S \<noteq> n \<Longrightarrow> held n (bk_transition bk S t st c b)"
    and closed_admits: "fst (bk_try bk S u (bk_transition bk S t CLOSED c b))"
    and outcome_snapshot: "fst (bk_outcome bk S t r b) = bk_snapshot bk S t (snd (bk_outcome bk S t r b))"
begin

lemma step_ok:
  assumes "world_ok w" "wf (shared w)"
  shows "world_ok (world_step bk e w)" "wf (shared (world_step bk e w))"
    "cb_name (objs (world_step bk e w) j) = cb_name (objs w j)"
proof -
  have ok: "cb_ok (objs w i)" for i using assms(1) by (simp add: world_ok_def)
  have "world_ok (world_step bk e w) \<and> wf (shared (world_step bk e w)) \<and>
    cb_name (objs (world_step bk e w) j) = cb_name (objs w j)"
  proof (cases e)
    case (Enter k i t v)
    obtain r cb b where e: "cb_enter bk t v (stacks w k) (objs w i) (shared w) = (r, cb, b)"
      by (cases "cb_enter bk t v (stacks w k) (objs w i) (shared w)") auto
    from enter_object [OF ok e] assms wf_try show ?thesis
      by (cases r) (auto simp: Enter e world_ok_def)
  next
    case (Exit k i t v wall ex)
    obtain cb b where e: "cb_handle_exit bk t v wall (last (stacks w k)) ex (objs w i) (shared w) = (cb, b)"
      by (cases "cb_handle_exit bk t v wall (last (stacks w k)) ex (objs w i) (shared w)") auto
    from exit_object [OF ok e] assms wf_outcome show ?thesis
      by (auto simp: Exit cb_exit_def e world_ok_def)
  next
    case (Isolate i t)
    then show ?thesis using assms ok [of i] wf_transition resolve_name [OF ok, of i]
      by (auto simp: cb_isolate_def cb_transition_def log_transition_def world_ok_def cb_ok_def case_prod_beta Let_def)
  next
    case (Reset i t)
    let ?cb = "objs w i\<lparr>total_errors := 0, total_successes := 0, cb_last_error := None, last_error_time := None\<rparr>"
    have "cb_ok ?cb" using ok [of i] by (simp add: cb_ok_def)
    from Reset assms ok wf_transition resolve_name [OF this] show ?thesis
      by (auto simp: cb_reset_def cb_transition_def log_transition_def world_ok_def cb_ok_def case_prod_beta Let_def)
  qed
  then show "world_ok (world_step bk e w)" "wf (shared (world_step bk e w))"
    "cb_name (objs (world_step bk e w) j) = cb_name (objs w j)" by auto
qed

lemma step_held:
  assumes "world_ok w" "wf (shared w)" "held n (shared w)"
    and "\<And>i t. e = Reset i t \<Longrightarrow> cb_name (objs w i) \<noteq> n"
  shows "held n (shared (world_step bk e w))"
proof -
  have ok: "cb_ok (objs w i)" for i using assms(1) by (simp add: world_ok_def)
  show ?thesis
  proof (cases e)
    case (Enter k i t v)
    obtain r cb b where e: "cb_enter bk t v (stacks w k) (objs w i) (shared w) = (r, cb, b)"
      by (cases "cb_enter bk t v (stacks w k) (objs w i) (shared w)") auto
    from enter_object [OF ok e] assms(2,3) held_try show ?thesis by (cases r) (auto simp: Enter e)
  next
    case (Exit k i t v wall ex)
    obtain cb b where e: "cb_handle_exit bk t v wall (last (stacks w k)) ex (objs w i) (shared w) = (cb, b)"
      by (cases "cb_handle_exit bk t v wall (last (stacks w k)) ex (objs w i) (shared w)") auto
    from exit_object [OF ok e] assms(2,3) held_outcome show ?thesis by (auto simp: Exit cb_exit_def e)
  next
    case (Isolate i t)
    have "held n (bk_transition bk (fst (resolve_strategy (objs w i))) t FORCED_OPEN None (shared w))"
      using isolate_holds [OF assms(2), of "fst (resolve_strategy (objs w i))"] held_other [OF assms(2,3)] by metis
    then show ?thesis by (simp add: Isolate cb_isolate_def cb_transition_def case_prod_beta Let_def)
  next
    case (Reset i t)
    let ?cb = "objs w i\<lparr>total_errors := 0, total_successes := 0, cb_last_error := None, last_error_time := None\<rparr>"
    have "cb_ok ?cb" using ok [of i] by (simp add: cb_ok_def)
    with resolve_name(1) [OF this] assms(4) [OF Reset]
    have "held n (bk_transition bk (fst (resolve_strategy ?cb)) t CLOSED None (shared w))"
      using held_other [OF assms(2,3)] by simp
    then show ?thesis by (simp add: Reset cb_reset_def cb_transition_def case_prod_beta Let_def)
  qed
qed

lemma run_held:
  assumes "world_ok w" "wf (shared w)" "held n (shared w)"
    and "\<And>i t. Reset i t \<in> set es \<Longrightarrow> cb_name (objs w i) \<noteq> n"
  shows "world_ok (world_run bk es w) \<and> wf (shared (world_run bk es w)) \<and> held n (shared (world_run bk es w)) \<and>
    (\<forall>i. cb_name (objs (world_run bk es w) i) = cb_name (objs w i))"
  using assms
proof (induction es arbitrary: w)
  case Nil
  then show ?case by (simp add: world_run_def)
next
  case (Cons e es)
  have "held n (shared (world_step bk e w))"
    using step_held [OF Cons.prems(1-3), of e] Cons.prems(4) by auto
  moreover have "Reset i t \<in> set es \<Longrightarrow> cb_name (objs (world_step bk e w) i) \<noteq> n" for i t
    using Cons.prems(4) [of i t] step_ok(3) [OF Cons.prems(1,2), of e] by simp
  ultimately show ?case
    using Cons.IH [OF step_ok(1,2) [OF Cons.prems(1,2), of e]] step_ok(3) [OF Cons.prems(1,2), of e]
    by (simp add: world_run_def)
qed

lemma run_ok:
  assumes "world_ok w" "wf (shared w)"
  shows "world_ok (world_run bk es w)"
  using assms by (induction es arbitrary: w) (simp_all add: world_run_def step_ok)

lemma isolated_refuses:
  assumes "world_ok w" "wf (shared w)"
    and "\<And>j u. Reset j u \<in> set es \<Longrightarrow> cb_name (objs w j) \<noteq> cb_name (objs w i)"
    and "cb_name (objs w j) = cb_name (objs w i)"
    and w': "w' = world_run bk es (world_step bk (Isolate i t) w)"
  shows "isl (fst (cb_enter bk u v st (objs w' j) (shared w')))"
proof -
  have ok: "cb_ok (objs w i)" for i using assms(1) by (simp add: world_ok_def)
  let ?w = "world_step bk (Isolate i t) w"
  have "held (cb_name (objs w i)) (shared ?w)"
    using isolate_holds [OF assms(2), of "fst (resolve_strategy (objs w i))"] resolve_name(1) [OF ok]
    by (simp add: cb_isolate_def cb_transition_def case_prod_beta Let_def)
  moreover have names: "cb_name (objs ?w k) = cb_name (objs w k)" for k
    using step_ok(3) [OF assms(1,2)] by blast
  ultimately have "world_ok w'" "held (cb_name (objs w i)) (shared w')" "cb_name (objs w' j) = cb_name (objs w i)"
    using run_held [OF step_ok(1,2) [OF assms(1,2)], of "cb_name (objs w i)" "Isolate i t" es] assms(3,4) w' by auto
  then have ok': "cb_ok (objs w' j)" "held (bs_name (fst (resolve_strategy (objs w' j)))) (shared w')"
    by (auto simp: world_ok_def resolve_name(1))
  obtain r cb b where e: "cb_enter bk u v st (objs w' j) (shared w') = (r, cb, b)"
    by (cases "cb_enter bk u v st (objs w' j) (shared w')") auto
  with enter_object [OF ok'(1) e] held_refuses [OF ok'(2)] show ?thesis by simp
qed

lemma reset_admits:
  assumes "cb_ok cb"
  shows "\<not> isl (fst (cb_enter bk u v st (fst (cb_reset bk t cb b)) (snd (cb_reset bk t cb b))))"
proof -
  let ?cb = "cb\<lparr>total_errors := 0, total_successes := 0, cb_last_error := None, last_error_time := None\<rparr>"
  let ?c = "fst (cb_reset bk t cb b)"
  have "cb_ok ?cb" using assms by (simp add: cb_ok_def)
  have s: "fst (resolve_strategy ?c) = fst (resolve_strategy ?cb)"
    by (auto simp: cb_reset_def cb_transition_def log_transition_def resolve_strategy_def Let_def split: option.splits)
  have "cb_ok ?c" using resolve_name [OF \<open>cb_ok ?cb\<close>]
    by (auto simp: cb_reset_def cb_transition_def log_transition_def cb_ok_def case_prod_beta Let_def)
  obtain r cb' b' where e: "cb_enter bk u v st ?c (snd (cb_reset bk t cb b)) = (r, cb', b')"
    by (cases "cb_enter bk u v st ?c (snd (cb_reset bk t cb b))") auto
  have "snd (cb_reset bk t cb b) = bk_transition bk (fst (resolve_strategy ?cb)) t CLOSED None b"
    by (simp add: cb_reset_def cb_transition_def case_prod_beta Let_def)
  with enter_object [OF \<open>cb_ok ?c\<close> e] closed_admits s e show ?thesis by simp
qed

text \<open>After an outcome the cached state and counters are what the backend holds at that moment.\<close>

lemma outcome_cached:
  assumes "cb_handle_exit bk t v wall config ex cb b = (cb', b')"
    and "\<And>x. ex = Raised x \<Longrightarrow> is_instance x (ignore_exceptions config) \<or> is_instance x [''Exception'']"
    and "s = bk_snapshot bk (fst (resolve_strategy cb)) v b'"
  shows "cached_state cb' = sn_state s \<and> cached_errors cb' = sn_errors s \<and> cached_successes cb' = sn_successes s"
  using assms outcome_snapshot [symmetric, of "fst (resolve_strategy cb)" v] resolve_release [of t cb]
  by (cases ex) (auto simp: cb_handle_exit_def Let_def case_prod_beta split: if_splits)

end

section \<open>The in-memory adapter keeps the contract\<close>

definition held_open :: "string \<Rightarrow> breaker_store \<Rightarrow> bool" where
  "held_open n d \<longleftrightarrow> (\<exists>e. dget d n = Some e \<and> be_state e = FORCED_OPEN \<and> expires_at e = Never)"

lemma held_open_view: "held_open n d \<longleftrightarrow> (\<exists>e. view n t d = Some e \<and> be_state e = FORCED_OPEN \<and> expires_at e = Never)"
  by (auto simp: held_open_def view_def split: option.splits if_splits)

lemma held_open_step:
  assumes "dwf d" "held_open n d" "bs_name S \<noteq> n \<or> (\<forall>st w. c \<noteq> Transition st w)"
  shows "held_open n (breaker_step S t c d)"
proof (cases "bs_name S = n")
  case True
  from assms(2) obtain e where "view (bs_name S) t d = Some e" "be_state e = FORCED_OPEN"
    using True by (auto simp: held_open_view [where t = t])
  with forced_step [of S t d e c] assms True show ?thesis by auto
next
  case False
  with breaker_step_frame [OF assms(1), of n S t t c] assms(2) show ?thesis
    by (auto simp: held_open_view [where t = t])
qed

lemma outcome_snapshot_memory: "fst (breaker_record_outcome S t r d) = breaker_get_snapshot S t (snd (breaker_record_outcome S t r d))"
proof -
  obtain e d' where live: "breaker_live S t d = (e, d')" by (cases "breaker_live S t d")
  have get: "dget d' (bs_name S) = Some e" using live
    by (auto simp: breaker_live_def split: option.splits if_splits)
  have fresh: "\<not> passed t (expires_at e)" using live
    by (auto simp: breaker_live_def fresh_entry_def STATE_TTL_def split: option.splits if_splits)
  have ttl: "\<not> t + resolve_state_ttl x \<le> t" "\<not> t + STATE_TTL \<le> t" for x
    by (simp_all add: resolve_state_ttl_def STATE_TTL_def)
  show ?thesis
    using live get fresh ttl
    by (cases r) (auto simp: breaker_record_outcome_def record_success_def record_error_def breaker_close_def
        breaker_get_snapshot_def snapshot_of_def Let_def)
qed

interpretation mbb: breaker_backend_laws memory_breaker_backend dwf held_open
proof (unfold_locales, goal_cases)
  case (1 b S t)
  then show ?case using breaker_step_wf [of b S t TryAcquire] by (simp add: memory_breaker_backend_def)
next
  case (2 b S t r)
  then show ?case using breaker_step_wf [of b S t "Outcome r"] by (simp add: memory_breaker_backend_def)
next
  case (3 b S t st c)
  then show ?case using breaker_step_wf [of b S t "Transition st c"] by (simp add: memory_breaker_backend_def)
next
  case (4 b S t c)
  then show ?case
    by (simp add: memory_breaker_backend_def breaker_transition_def Let_def case_prod_beta held_open_def)
next
  case (5 S b t)
  then show ?case by (auto simp: memory_breaker_backend_def held_open_def breaker_try_acquire_def)
next
  case (6 b n S t)
  then show ?case using held_open_step [of b n S TryAcquire t] by (simp add: memory_breaker_backend_def)
next
  case (7 b n S t r)
  then show ?case using held_open_step [of b n S "Outcome r" t] by (simp add: memory_breaker_backend_def)
next
  case (8 b n S t st c)
  then show ?case using held_open_step [of b n S "Transition st c" t] by (simp add: memory_breaker_backend_def)
next
  case (9 S u t c b)
  then show ?case
    by (simp add: memory_breaker_backend_def breaker_transition_def breaker_close_def breaker_try_acquire_def)
next
  case (10 S t r b)
  then show ?case by (simp add: memory_breaker_backend_def outcome_snapshot_memory)
qed

section \<open>Guarantees\<close>

text \<open>
  \<open>isolate\<close> blocks every caller: whatever the breaker objects of an adapter did before, and
  whatever calls enter, end or are isolated afterwards, every later call through any object of the
  isolated name is refused, until one of them is reset.
\<close>

theorem isolate_blocks_every_caller:
  assumes "world_ok w" "dwf (shared w)" "cb_name (objs w j) = cb_name (objs w i)"
    and "\<forall>e \<in> set es. \<forall>k x. e = Reset k x \<longrightarrow> cb_name (objs w k) \<noteq> cb_name (objs w i)"
  shows "let w' = world_run memory_breaker_backend es (world_step memory_breaker_backend (Isolate i t) w);
      (cb, d) = cb_reset memory_breaker_backend x (objs w' j) (shared w')
    in isl (fst (cb_enter memory_breaker_backend u v st (objs w' j) (shared w'))) \<and>
       \<not> isl (fst (cb_enter memory_breaker_backend y z st cb d))"
proof -
  let ?w = "world_run memory_breaker_backend es (world_step memory_breaker_backend (Isolate i t) w)"
  have "isl (fst (cb_enter memory_breaker_backend u v st (objs ?w j) (shared ?w)))"
    using assms by (intro mbb.isolated_refuses [OF assms(1,2) _ assms(3) refl]) auto
  moreover have "cb_ok (objs ?w j)"
    using mbb.run_ok [OF mbb.step_ok(1,2) [OF assms(1,2), of "Isolate i t"], of es] unfolding world_ok_def by blast
  ultimately show ?thesis using mbb.reset_admits by (simp add: Let_def case_prod_beta)
qed

definition cb_example :: circuit_breaker where
  "cb_example = cb_setup ''db'' \<lparr>cc_config = config_example, ignore_exceptions = [''NotFound'']\<rparr>"

definition world_example :: "breaker_store cb_world" where
  "world_example = \<lparr>objs = \<lambda>i. cb_example, stacks = \<lambda>k. [], shared = []\<rparr>"

lemma world_example_ok: "world_ok world_example" "dwf (shared world_example)"
  by (simp_all add: world_example_def world_ok_def cb_ok_def cb_example_def cb_setup_def dwf_def)

theorem isolate_blocks_every_caller_witness:
  "let w' = world_run memory_breaker_backend [Enter 0 1 2 2, Isolate 1 3, Enter 1 0 4 4]
       (world_step memory_breaker_backend (Isolate 0 1) world_example)
   in isl (fst (cb_enter memory_breaker_backend 90000 90000 [] (objs w' 2) (shared w')))"
  using isolate_blocks_every_caller [OF world_example_ok, of 2 0 "[Enter 0 1 2 2, Isolate 1 3, Enter 1 0 4 4]"
      1 90001 90000 90000 "[]" 90002 90002]
  by (simp add: world_example_def Let_def case_prod_beta)

text \<open>
  The caller's view is the backend's: when an admitted call ends with a value, an ignored
  exception or an \<open>Exception\<close>, the breaker's cached state and counters are exactly what the adapter
  stores at that moment.
\<close>

theorem breaker_cache_follows_store:
  assumes "cb_handle_exit memory_breaker_backend t v wall config ex cb d = (cb', d')"
    and "\<forall>x. ex = Raised x \<longrightarrow> is_instance x (ignore_exceptions config) \<or> is_instance x [''Exception'']"
  shows "let s = breaker_get_snapshot (fst (resolve_strategy cb)) v d' in
      cached_state cb' = sn_state s \<and> cached_errors cb' = sn_errors s \<and> cached_successes cb' = sn_successes s"
  using mbb.outcome_cached [OF assms(1) _ refl] assms(2) by (simp add: memory_breaker_backend_def Let_def)

theorem breaker_cache_follows_store_witness:
  "let (cb', d') = cb_handle_exit memory_breaker_backend 1 1 0 (st_config cb_example) Returned cb_example [];
       s = breaker_get_snapshot (fst (resolve_strategy cb_example)) 1 d'
   in cached_state cb' = sn_state s"
  using breaker_cache_follows_store [of 1 1 0 "st_config cb_example" Returned cb_example "[]"]
  by (simp add: Let_def case_prod_beta)

section \<open>Eviction of per-key circuits\<close>

lemma drop_first_none: "drop_first_evictable now d = None \<longleftrightarrow> list_all (\<lambda>x. \<not> evictable now (snd x)) d"
  by (induction now d rule: drop_first_evictable.induct) auto

lemma drop_first_spec:
  "drop_first_evictable now d = Some d' \<Longrightarrow>
   filter (\<lambda>x. \<not> evictable now (snd x)) d' = filter (\<lambda>x. \<not> evictable now (snd x)) d \<and> subseq d' d"
  by (induction now d arbitrary: d' rule: drop_first_evictable.induct) (auto split: if_splits)

lemma evict_loop_spec:
  "filter (\<lambda>x. \<not> evictable now (snd x)) (evict_loop m now d) = filter (\<lambda>x. \<not> evictable now (snd x)) d \<and>
   (int (length (evict_loop m now d)) \<le> m \<or> list_all (\<lambda>x. \<not> evictable now (snd x)) (evict_loop m now d)) \<and>
   subseq (evict_loop m now d) d"
proof (induction m now d rule: evict_loop.induct)
  case (1 m now d)
  show ?case
  proof (cases "int (length d) > m")
    case False
    then show ?thesis by (simp add: evict_loop.simps [of m now d])
  next
    case True
    show ?thesis
    proof (cases "drop_first_evictable now d")
      case None
      then have "evict_loop m now d = d" by (simp add: evict_loop.simps [of m now d])
      then show ?thesis using None drop_first_none by simp
    next
      case (Some d')
      with True have "evict_loop m now d = evict_loop m now d'" by (simp add: evict_loop.simps [of m now d])
      then show ?thesis using 1 [OF True Some] drop_first_spec [OF Some] subseq_order.trans by auto
    qed
  qed
qed

lemma evict_loop_wf: "dwf d \<Longrightarrow> dwf (evict_loop m now d)"
  using evict_loop_spec [of now m d] subseq_map [of "evict_loop m now d" d fst]
  by (auto simp: dwf_def subseq_conv_nths distinct_nthsI)

text \<open>
  Asking for a key never drops a busy circuit: every circuit with calls in flight or used within
  the residency window is still in the map afterwards, in the same order; the map is within
  \<open>maxsize\<close> or holds only such circuits; and the circuit returned is the one in the map.
\<close>

theorem keyed_spares_busy_circuits:
  assumes "cb_keyed key t v kb = (c, kb')" "dwf (kb_keyed kb)" "dget (kb_keyed kb) key = None"
    and "v - t < KEYED_RESIDENCY" "kb_maxsize kb \<noteq> 0"
  shows "filter (\<lambda>x. \<not> evictable v (snd x)) (kb_keyed kb') =
      filter (\<lambda>x. \<not> evictable v (snd x)) (kb_keyed kb) @ [(key, c)] \<and>
    (int (length (kb_keyed kb')) \<le> kb_maxsize kb \<or> list_all (\<lambda>x. \<not> evictable v (snd x)) (kb_keyed kb')) \<and>
    dget (kb_keyed kb') key = Some c"
proof -
  have c: "c = new_keyed (kb_self kb) key t"
    and kb': "kb_keyed kb' = evict_loop (kb_maxsize kb) v (dput key c (kb_keyed kb))"
    using assms by (auto simp: cb_keyed_def evict_keyed_def Let_def)
  have put: "dput key c (kb_keyed kb) = kb_keyed kb @ [(key, c)]"
    by (rule dput_new [OF assms(3)])
  have busy: "\<not> evictable v c" using assms(4) by (simp add: c evictable_def new_keyed_def)
  note spec = evict_loop_spec [of v "kb_maxsize kb" "dput key c (kb_keyed kb)"]
  have f: "filter (\<lambda>x. \<not> evictable v (snd x)) (kb_keyed kb') =
      filter (\<lambda>x. \<not> evictable v (snd x)) (kb_keyed kb) @ [(key, c)]"
    using spec kb' busy by (simp add: put)
  have "(key, c) \<in> set (filter (\<lambda>x. \<not> evictable v (snd x)) (kb_keyed kb'))" unfolding f by simp
  then have "(key, c) \<in> set (kb_keyed kb')" by simp
  moreover have "dwf (kb_keyed kb')" unfolding kb' by (intro evict_loop_wf pd.wf_put assms(2))
  ultimately have "dget (kb_keyed kb') key = Some c" by (simp add: dget_iff)
  with f spec kb' show ?thesis by simp
qed

theorem keyed_spares_busy_circuits_witness:
  "dget (kb_keyed (snd (cb_keyed ''b'' 400 400 \<lparr>kb_self = cb_example,
     kb_keyed = [(''a'', new_keyed cb_example ''a'' 0)], kb_maxsize = 1\<rparr>))) ''b'' = Some (new_keyed cb_example ''b'' 400)"
proof -
  let ?kb = "\<lparr>kb_self = cb_example, kb_keyed = [(''a'', new_keyed cb_example ''a'' 0)], kb_maxsize = 1\<rparr>"
  have "fst (cb_keyed ''b'' 400 400 ?kb) = new_keyed cb_example ''b'' 400" by (simp add: cb_keyed_def Let_def)
  then show ?thesis
    using keyed_spares_busy_circuits [of "''b''" 400 400 ?kb, OF surjective_pairing]
    by (simp add: dwf_def KEYED_RESIDENCY_def)
qed

text \<open>
  Evicting a circuit loses nothing of its admission: the circuit made anew for the key decides as the
  evicted one did, since the state is in the backend.
\<close>

lemma evicted_circuit_decides:
  assumes "cb_name c = cb_name (new_keyed cb key t)" "st_config c = st_config cb"
    and "st_strategy c = Some \<lparr>bs_name = cb_name c, bs_config = cc_config (st_config c)\<rparr> \<or> st_strategy c = None"
  shows "isl (fst (cb_enter bk u v st (new_keyed cb key t) b)) = isl (fst (cb_enter bk u v st c b))"
    and "snd (snd (cb_enter bk u v st (new_keyed cb key t) b)) = snd (snd (cb_enter bk u v st c b))"
  using assms by (auto simp: cb_enter_def resolve_strategy_def new_keyed_def Let_def case_prod_beta)

section \<open>A probe that is cancelled\<close>

lemma full_half_open_refuses:
  assumes "dget d (bs_name S) = Some e" "be_state e = HALF_OPEN" "half_open_capacity (bs_config S) \<le> half_open_admit e"
    and "\<not> passed u (expires_at e)"
  shows "breaker_try_acquire S u d = (False, dput (bs_name S) e d)"
  using assms by (simp add: breaker_try_acquire_def admit_recovering_def)

text \<open>
  A cancelled probe leaves its half-open slot taken: when the call that is admitted as the only
  probe of a recovering circuit ends with a \<open>BaseException\<close> that is neither ignored nor an
  \<open>Exception\<close>, such as a task's cancellation, no outcome is recorded, and for a day every admission of
  that circuit is refused and leaves the store as it is.
\<close>

theorem cancelled_probe_blocks_recovery:
  assumes "fst (resolve_strategy cb) = S" "recovering_with S t d k" "config_ok (bs_config S)"
    and "half_open_capacity (bs_config S) = 1"
    and "\<not> is_instance x (ignore_exceptions (st_config cb))" "\<not> is_instance x [''Exception'']"
    and "cb_enter memory_breaker_backend t v [] cb d = (Inr st, cb1, d1)"
    and "cb_exit memory_breaker_backend t2 t3 wall (Raised x) st cb1 d1 = Inr (st2, cb2, d2)"
    and "u < t + STATE_TTL"
  shows "breaker_get_snapshot S u d2 = breaker_get_snapshot S t d2 \<and>
    sn_state (breaker_get_snapshot S u d2) = HALF_OPEN \<and> fst (breaker_try_acquire S u d2) = False \<and>
    dget (snd (breaker_try_acquire S u d2)) = dget d2"
proof -
  from probe_admitted [OF assms(2,3)] obtain e where acq: "breaker_try_acquire S t d =
      (True, dput (bs_name S) (e\<lparr>half_open_admit := 1, expires_at := At (t + STATE_TTL)\<rparr>) d)"
    and e: "be_state e = HALF_OPEN" by metis
  let ?e = "e\<lparr>half_open_admit := 1, expires_at := At (t + STATE_TTL)\<rparr>"
  have d1: "d1 = dput (bs_name S) ?e d" "st = [st_config cb]"
    using assms(1,7) acq by (auto simp: cb_enter_def memory_breaker_backend_def Let_def case_prod_beta)
  have "d2 = d1" using assms(5,6,8) d1(2) by (auto simp: cb_exit_def cb_handle_exit_def Let_def case_prod_beta)
  with d1 have get: "dget d2 (bs_name S) = Some ?e" by simp
  have t: "t < t + STATE_TTL" by (simp add: STATE_TTL_def)
  have "breaker_try_acquire S u d2 = (False, dput (bs_name S) ?e d2)"
    by (rule full_half_open_refuses [OF get]) (use e assms(4,9) in simp_all)
  moreover have "(dget d2)(bs_name S \<mapsto> ?e) = dget d2" using get by (simp add: fun_upd_idem_iff)
  ultimately show ?thesis using get e t assms(9)
    by (simp add: breaker_get_snapshot_def snapshot_of_def update_conv')
qed

theorem cancelled_probe_blocks_recovery_witness:
  "let cb = cb_example; S = strategy_example ''db'';
       d = breaker_transition S 0 OPEN None [];
       (r, cb1, d1) = cb_enter memory_breaker_backend 31 31 [] cb d;
       (st2, cb2, d2) = projr (cb_exit memory_breaker_backend 32 32 0
          (Raised (Exc [''CancelledError'', ''BaseException''] ''stop'' None)) (projr r) cb1 d1)
   in fst (breaker_try_acquire S 86000 d2) = False"
proof -
  let ?S = "strategy_example ''db''"
  let ?e = "\<lparr>be_state = OPEN, opened_at = 0, cool_down = 30, error_count = 0, success_count = 0,
    half_open_admit = 0, expires_at = At 86400\<rparr>"
  let ?x = "Exc [''CancelledError'', ''BaseException''] ''stop'' None"
  have d: "breaker_transition ?S 0 OPEN None [] = [(''db'', ?e)]"
    by (simp add: strategy_example_def config_example_def breaker_transition_def breaker_live_def breaker_cull_def
        fresh_entry_def resolve_state_ttl_def STATE_TTL_def CULL_LIMIT_def Let_def)
  have S: "fst (resolve_strategy cb_example) = ?S"
    by (simp add: resolve_strategy_def cb_example_def cb_setup_def strategy_example_def Let_def)
  obtain r cb1 d1 where enter: "cb_enter memory_breaker_backend 31 31 [] cb_example [(''db'', ?e)] = (r, cb1, d1)"
    by (cases "cb_enter memory_breaker_backend 31 31 [] cb_example [(''db'', ?e)]") auto
  have r: "r = Inr [st_config cb_example]"
    using enter by (auto simp: cb_enter_def memory_breaker_backend_def S case_prod_beta Let_def breaker_try_acquire_def
        admit_recovering_def strategy_example_def config_example_def split: if_splits)
  obtain st2 cb2 d2 where ex: "cb_exit memory_breaker_backend 32 32 0 (Raised ?x) [st_config cb_example] cb1 d1 = Inr (st2, cb2, d2)"
    by (cases "cb_handle_exit memory_breaker_backend 32 32 0 (st_config cb_example) (Raised ?x) cb1 d1")
      (auto simp: cb_exit_def)
  have "fst (breaker_try_acquire ?S 86000 d2) = False"
    using cancelled_probe_blocks_recovery [OF S _ _ _ _ _ enter [unfolded r] ex, of 0 86000]
    by (simp add: recovering_with_def view_def strategy_example_def config_example_def config_ok_def
        is_instance_def cb_example_def cb_setup_def STATE_TTL_def)
  then show ?thesis by (simp add: d enter r ex)
qed

end
