(* ===== verification/Retry.thy ===== *)
theory Retry
  imports Prelude
begin

text \<open>
  Retries (\<open>resilience/retry.py\<close>), their backoff strategies (\<open>resilience/backoffs/\<close>) and the outcome
  filters (\<open>resilience/_match.py\<close>, \<open>_outcome.py\<close>). The protected call is environment: the list of what its
  attempts give, each with the clock when it ends and the random number drawn for the next delay.
  The asynchronous and the synchronous loops of the code are the same but for the way of sleeping;
  one definition stands for both. The block form (\<open>async for attempt in policy\<close>) is a second definition.
\<close>

section \<open>Outcomes and filters\<close>

datatype 'r call_outcome = Failed py_raised | Gave 'r

type_synonym 'r matcher = "'r call_outcome \<Rightarrow> bool"

definition match_or :: "'r matcher \<Rightarrow> 'r matcher \<Rightarrow> 'r matcher" where
  "match_or m n = (\<lambda>x. m x \<or> n x)"

definition match_and :: "'r matcher \<Rightarrow> 'r matcher \<Rightarrow> 'r matcher" where
  "match_and m n = (\<lambda>x. m x \<and> n x)"

definition match_always :: "'r matcher" where
  "match_always = (\<lambda>x. True)"

definition match_never :: "'r matcher" where
  "match_never = (\<lambda>x. False)"

fun match_exception :: "string list \<Rightarrow> 'r matcher" where
  "match_exception types (Failed e) = is_instance e types"
| "match_exception types (Gave r) = False"

fun match_exception_if :: "(py_raised \<Rightarrow> bool) \<Rightarrow> 'r matcher" where
  "match_exception_if p (Failed e) = p e"
| "match_exception_if p (Gave r) = False"

fun match_result :: "'r \<Rightarrow> 'r matcher" where
  "match_result v (Failed e) = False"
| "match_result v (Gave r) = (r = v)"

fun match_result_if :: "('r \<Rightarrow> bool) \<Rightarrow> 'r matcher" where
  "match_result_if p (Failed e) = False"
| "match_result_if p (Gave r) = p r"

text \<open>\<open>needle in text\<close>.\<close>

fun contains :: "string \<Rightarrow> string \<Rightarrow> bool" where
  "contains needle [] = (needle = [])"
| "contains needle (c # cs) = (take (length needle) (c # cs) = needle \<or> contains needle cs)"

fun match_message :: "string \<Rightarrow> 'r matcher" where
  "match_message needle (Failed e) = contains needle (ex_message e)"
| "match_message needle (Gave r) = False"

fun match_cause :: "string list \<Rightarrow> 'r matcher" where
  "match_cause types (Failed e) = (case ex_cause e of None \<Rightarrow> False | Some c \<Rightarrow> is_instance c types)"
| "match_cause types (Gave r) = False"

text \<open>The negated forms keep to the kind of outcome of the positive form.\<close>

definition not_exception :: "'r matcher \<Rightarrow> 'r matcher" where
  "not_exception m = (\<lambda>x. (case x of Failed e \<Rightarrow> True | Gave r \<Rightarrow> False) \<and> \<not> m x)"

definition not_result :: "'r matcher \<Rightarrow> 'r matcher" where
  "not_result m = (\<lambda>x. (case x of Failed e \<Rightarrow> False | Gave r \<Rightarrow> True) \<and> \<not> m x)"

section \<open>Backoff strategies\<close>

datatype jitter = NoJitter | FullJitter | EqualJitter | Decorrelated

datatype backoff =
    Exponential real real jitter
  | Constant real
  | Linear real real
  | Fibonacci real real
  | RandomBetween real real

definition check_range :: "backoff \<Rightarrow> py_exc + backoff" where
  "check_range b = (case b of
     RandomBetween lo hi \<Rightarrow> if lo > hi then Inl ValueError else Inr b
   | _ \<Rightarrow> Inr b)"

text \<open>The strategies with their state: the previous delay, or two Fibonacci terms and their position.\<close>

datatype strategy =
    ExpS real real jitter real
  | ConstS real
  | LinS real real
  | FibS real real nat nat nat
  | RandS real real

fun build_retry_strategy :: "backoff \<Rightarrow> strategy" where
  "build_retry_strategy (Exponential base cap j) = ExpS base cap j base"
| "build_retry_strategy (Constant d) = ConstS d"
| "build_retry_strategy (Linear base cap) = LinS base cap"
| "build_retry_strategy (Fibonacci base cap) = FibS base cap 0 1 0"
| "build_retry_strategy (RandomBetween lo hi) = RandS lo hi"

text \<open>\<open>random.uniform(a, b)\<close> for the random number \<open>u\<close>.\<close>

definition uniform :: "real \<Rightarrow> real \<Rightarrow> real \<Rightarrow> real" where
  "uniform a b u = a + (b - a) * u"

text \<open>
  An integer times a float converts the integer first, which raises from the half-way point between the
  largest float and \<open>2 ** 1024\<close> on.
\<close>

definition FLOAT_OVERFLOW :: nat where
  "FLOAT_OVERFLOW = 2 ^ 1024 - 2 ^ 970"

definition float_of :: "nat \<Rightarrow> py_exc + real" where
  "float_of n = (if n \<ge> FLOAT_OVERFLOW then Inl OverflowError else Inr (real n))"

definition exponential_delay :: "real \<Rightarrow> real \<Rightarrow> jitter \<Rightarrow> real \<Rightarrow> nat \<Rightarrow> real \<Rightarrow> py_exc + real \<times> strategy" where
  "exponential_delay base cap j previous attempt u =
     (case float_of (2 ^ (attempt - 1)) of
        Inl e \<Rightarrow> Inl e
      | Inr factor \<Rightarrow>
          let raw = min (base * factor) cap;
              jittered = (case j of
                  NoJitter \<Rightarrow> raw
                | FullJitter \<Rightarrow> uniform 0 raw u
                | EqualJitter \<Rightarrow> raw / 2 + uniform 0 (raw / 2) u
                | Decorrelated \<Rightarrow> min cap (uniform base (previous * 3) u))
          in Inr (jittered, ExpS base cap j (max jittered base)))"

text \<open>The loop of the Fibonacci strategy: advance to the attempt.\<close>

function fib_advance :: "nat \<Rightarrow> nat \<Rightarrow> nat \<Rightarrow> nat \<Rightarrow> nat \<times> nat \<times> nat" where
  "fib_advance attempt prev_prev prev pos =
     (if pos < attempt then fib_advance attempt prev (prev_prev + prev) (pos + 1) else (prev_prev, prev, pos))"
  by pat_completeness auto
termination
  by (relation "measure (\<lambda>(attempt, a, b, pos). attempt - pos)") auto

declare fib_advance.simps [simp del]

fun strategy_delay :: "strategy \<Rightarrow> nat \<Rightarrow> real \<Rightarrow> py_exc + real \<times> strategy" where
  "strategy_delay (ExpS base cap j previous) attempt u = exponential_delay base cap j previous attempt u"
| "strategy_delay (ConstS d) attempt u = Inr (d, ConstS d)"
| "strategy_delay (LinS base cap) attempt u =
     (case float_of attempt of
        Inl e \<Rightarrow> Inl e
      | Inr factor \<Rightarrow> Inr (min (base * factor) cap, LinS base cap))"
| "strategy_delay (FibS base cap a b pos) attempt u =
     (case fib_advance attempt a b pos of (a', b', pos') \<Rightarrow>
        (case float_of a' of
           Inl e \<Rightarrow> Inl e
         | Inr factor \<Rightarrow> Inr (min (base * factor) cap, FibS base cap a' b' pos')))"
| "strategy_delay (RandS lo hi) attempt u = Inr (uniform lo hi u, RandS lo hi)"

section \<open>The loops\<close>

record 'r retry_config =
  attempts :: nat
  max_seconds :: "real option"
  rc_when :: "'r matcher"
  rc_backoff :: backoff

text \<open>What one attempt gives: the outcome, the clock at its end, a random number.\<close>

type_synonym 'r attempt = "'r call_outcome \<times> seconds \<times> real"

datatype retry_note = AttemptsExhausted | BudgetElapsed

text \<open>
  How a run ends: the result or the exception with its note, or an exception of the backoff; the
  attempts made; the delays asked for, in order (a delay of zero sleeps not at all).
\<close>

datatype 'r verdict = Return 'r | Raise py_raised "retry_note option" | Crash py_exc

record 'r retry_run =
  verdict :: "'r verdict"
  made :: nat
  delays :: "real list"

definition time_done :: "'r retry_config \<Rightarrow> seconds \<Rightarrow> seconds \<Rightarrow> bool" where
  "time_done c started t = (case max_seconds c of None \<Rightarrow> False | Some m \<Rightarrow> t - started \<ge> m)"

text \<open>The decorator form, \<open>_run_async\<close> and \<open>_run_sync\<close>, from attempt \<open>number\<close> on.\<close>

fun run_loop ::
  "'r retry_config \<Rightarrow> seconds \<Rightarrow> nat \<Rightarrow> strategy \<Rightarrow> real list \<Rightarrow> 'r attempt list \<Rightarrow> 'r retry_run option"
where
  "run_loop c started number strat ds [] = None"
| "run_loop c started number strat ds ((out, t, u) # rest) =
     (let settle = (\<lambda>v. Some \<lparr>verdict = v, made = number, delays = ds\<rparr>);
          again = (case strategy_delay strat number u of
                     Inl e \<Rightarrow> settle (Crash e)
                   | Inr (d, strat') \<Rightarrow> run_loop c started (Suc number) strat' (ds @ [d]) rest)
      in case out of
           Failed e \<Rightarrow>
             if \<not> is_instance e [''Exception''] then settle (Raise e None)
             else if \<not> rc_when c (Failed e) then settle (Raise e None)
             else if number \<ge> attempts c then settle (Raise e (Some AttemptsExhausted))
             else if time_done c started t then settle (Raise e (Some BudgetElapsed))
             else again
         | Gave r \<Rightarrow>
             if \<not> rc_when c (Gave r) then settle (Return r)
             else if number \<ge> attempts c \<or> time_done c started t then settle (Return r)
             else again)"

definition retry_call :: "'r retry_config \<Rightarrow> seconds \<Rightarrow> 'r attempt list \<Rightarrow> 'r retry_run option" where
  "retry_call c started ats = run_loop c started 1 (build_retry_strategy (rc_backoff c)) [] ats"

text \<open>
  The block form: \<open>_handle_exit\<close> says whether the exception of the body is suppressed and marks the
  loop as done when there is none; the iterator goes on while it is not done.
\<close>

definition handle_exit ::
  "'r retry_config \<Rightarrow> seconds \<Rightarrow> nat \<Rightarrow> seconds \<Rightarrow> py_raised option \<Rightarrow> bool \<times> retry_note option \<times> bool"
where
  "handle_exit c started number t exc =
     (case exc of
        None \<Rightarrow> (False, None, True)
      | Some e \<Rightarrow>
          if \<not> is_instance e [''Exception''] then (False, None, False)
          else if \<not> rc_when c (Failed e) then (False, None, False)
          else if number \<ge> attempts c \<or> time_done c started t then
            (False, Some (if number \<ge> attempts c then AttemptsExhausted else BudgetElapsed), False)
          else (True, None, False))"

fun block_loop ::
  "'r retry_config \<Rightarrow> seconds \<Rightarrow> nat \<Rightarrow> strategy \<Rightarrow> real list \<Rightarrow> 'r attempt list \<Rightarrow> 'r retry_run option"
where
  "block_loop c started number strat ds [] = None"
| "block_loop c started number strat ds ((out, t, u) # rest) =
     (case handle_exit c started number t (case out of Failed e \<Rightarrow> Some e | Gave r \<Rightarrow> None) of
        (suppressed, n, stopped) \<Rightarrow>
          (case out of
             Failed e \<Rightarrow>
               if \<not> suppressed then Some \<lparr>verdict = Raise e n, made = number, delays = ds\<rparr>
               else (case strategy_delay strat number u of
                       Inl x \<Rightarrow> Some \<lparr>verdict = Crash x, made = number, delays = ds\<rparr>
                     | Inr (d, strat') \<Rightarrow> block_loop c started (Suc number) strat' (ds @ [d]) rest)
           | Gave r \<Rightarrow> Some \<lparr>verdict = Return r, made = number, delays = ds\<rparr>))"

definition retry_block :: "'r retry_config \<Rightarrow> seconds \<Rightarrow> 'r attempt list \<Rightarrow> 'r retry_run option" where
  "retry_block c started ats = block_loop c started 1 (build_retry_strategy (rc_backoff c)) [] ats"

section \<open>Delays\<close>


fun fib :: "nat \<Rightarrow> nat" where
  "fib 0 = 0"
| "fib (Suc 0) = 1"
| "fib (Suc (Suc n)) = fib n + fib (Suc n)"


text \<open>The strategies a backoff goes through.\<close>

fun strategy_of :: "backoff \<Rightarrow> strategy \<Rightarrow> bool" where
  "strategy_of (Exponential base cap j) (ExpS base' cap' j' previous) =
     (base' = base \<and> cap' = cap \<and> j' = j \<and> base \<le> previous)"
| "strategy_of (Constant d) (ConstS d') = (d' = d)"
| "strategy_of (Linear base cap) (LinS base' cap') = (base' = base \<and> cap' = cap)"
| "strategy_of (Fibonacci base cap) (FibS base' cap' a b pos) =
     (base' = base \<and> cap' = cap \<and> a = fib pos \<and> b = fib (Suc pos))"
| "strategy_of (RandomBetween lo hi) (RandS lo' hi') = (lo' = lo \<and> hi' = hi)"
| "strategy_of _ _ = False"

lemma strategy_of_build: "strategy_of b (build_retry_strategy b)"
  by (cases b) auto

lemma fib_advance_fib:
  "fib_advance n (fib pos) (fib (Suc pos)) pos = (fib (max n pos), fib (Suc (max n pos)), max n pos)"
proof (induction "n - pos" arbitrary: pos)
  case 0
  then show ?case by (subst fib_advance.simps) (auto simp: max_def)
next
  case (Suc k)
  then have "pos < n" by linarith
  then have "fib_advance n (fib pos) (fib (Suc pos)) pos = fib_advance n (fib (Suc pos)) (fib (Suc (Suc pos))) (Suc pos)"
    by (subst fib_advance.simps) simp
  also have "\<dots> = (fib (max n (Suc pos)), fib (Suc (max n (Suc pos))), max n (Suc pos))"
    using Suc(2) by (intro Suc(1)) simp
  also have "max n (Suc pos) = max n pos" using \<open>pos < n\<close> by simp
  finally show ?case .
qed


lemma power_below_overflow: "m < 1024 \<Longrightarrow> 2 ^ m < FLOAT_OVERFLOW"
proof -
  assume "m < 1024"
  then have "(2::nat) ^ m \<le> 2 ^ 1023" by (intro power_increasing) simp_all
  moreover have "(2::nat) ^ Suc 1023 = 2 * 2 ^ 1023" "(2::nat) ^ 970 < 2 ^ 1023"
    by (simp_all only: power_Suc) (intro power_strict_increasing, simp_all)
  ultimately show ?thesis unfolding FLOAT_OVERFLOW_def by simp
qed

lemma float_of_power: "float_of (2 ^ m) = (if m \<ge> 1024 then Inl OverflowError else Inr (2 ^ m))"
proof (cases "m < 1024")
  case True
  with power_below_overflow [OF True] show ?thesis by (simp add: float_of_def)
next
  case False
  then have "(2::nat) ^ 1024 \<le> 2 ^ m" by (intro power_increasing) simp_all
  then have "FLOAT_OVERFLOW \<le> 2 ^ m" unfolding FLOAT_OVERFLOW_def by (meson diff_le_self order_trans)
  with False show ?thesis by (simp add: float_of_def)
qed

lemma float_of_below: "n \<le> 2 ^ 1023 \<Longrightarrow> float_of n = Inr (real n)"
  using power_below_overflow [of 1023] by (simp add: float_of_def del: power_numeral)

lemma float_of_nonneg: "float_of n = Inr x \<Longrightarrow> 0 \<le> x"
  by (auto simp: float_of_def split: if_splits)

lemma fib_bound: "fib (Suc n) \<le> 2 ^ n"
proof -
  have "fib (Suc n) \<le> 2 ^ n \<and> fib (Suc (Suc n)) \<le> 2 ^ Suc n" by (induction n) auto
  then show ?thesis ..
qed

lemma fib_convertible:
  assumes "n \<le> 1024"
  shows "float_of (fib n) = Inr (real (fib n))"
proof (rule float_of_below)
  have "fib n \<le> 2 ^ (n - 1)" using fib_bound [of "n - 1"] by (cases n) simp_all
  also have "\<dots> \<le> (2::nat) ^ 1023" using assms by (intro power_increasing) simp_all
  finally show "fib n \<le> 2 ^ 1023" .
qed




section \<open>The loop stops at the first attempt that settles\<close>

definition settles :: "'r retry_config \<Rightarrow> seconds \<Rightarrow> nat \<Rightarrow> 'r attempt \<Rightarrow> bool" where
  "settles c started number a \<longleftrightarrow>
     (case fst a of Failed e \<Rightarrow> \<not> is_instance e [''Exception''] | Gave r \<Rightarrow> False) \<or>
     \<not> rc_when c (fst a) \<or> number \<ge> attempts c \<or> time_done c started (fst (snd a))"



lemma run_loop_again:
  assumes "\<not> settles c started n a" "strategy_delay s n (snd (snd a)) = Inr (d, s')"
  shows "run_loop c started n s ds (a # rest) = run_loop c started (Suc n) s' (ds @ [d]) rest"
  using assms by (cases a) (auto simp: settles_def Let_def split: call_outcome.splits)

lemma run_loop_crashed:
  assumes "\<not> settles c started n a" "strategy_delay s n (snd (snd a)) = Inl x"
  shows "run_loop c started n s ds (a # rest) = Some \<lparr>verdict = Crash x, made = n, delays = ds\<rparr>"
  using assms by (cases a) (auto simp: settles_def Let_def split: call_outcome.splits)






definition flaky_example :: "nat attempt list" where
  "flaky_example = [(Failed (Exc [''IOError'', ''Exception''] ''down'' None), 1, 0),
     (Failed (Exc [''IOError'', ''Exception''] ''down'' None), 2, 0), (Gave 7, 3, 0)]"

definition retry_example :: "nat retry_config" where
  "retry_example = \<lparr>attempts = 3, max_seconds = None, rc_when = match_exception [''IOError''],
     rc_backoff = Fibonacci 1 10\<rparr>"


text \<open>
  The block form agrees with the decorator form: for a filter that retries no results, iterating
  over the attempts makes the same calls with the same delays and ends the same way, notes
  included.
\<close>

theorem retry_block_agrees:
  assumes "\<forall>r. \<not> rc_when c (Gave r)"
  shows "retry_block c started ats = retry_call c started ats"
proof -
  have "block_loop c started n s ds ats = run_loop c started n s ds ats" for n s ds
    using assms
    by (induction ats arbitrary: n s ds) (auto simp: handle_exit_def Let_def split: call_outcome.splits sum.splits)
  then show ?thesis by (simp add: retry_block_def retry_call_def)
qed

theorem retry_block_agrees_witness:
  "retry_block retry_example 0 flaky_example = retry_call retry_example 0 flaky_example"
  by (rule retry_block_agrees) (simp add: retry_example_def)

text \<open>The Fibonacci strategy gives the delays its documentation lists.\<close>

lemma fibonacci_delay:
  "pos < 1024 \<Longrightarrow> strategy_delay (FibS base cap (fib pos) (fib (Suc pos)) pos) (Suc pos) u =
     Inr (min (base * real (fib (Suc pos))) cap, FibS base cap (fib (Suc pos)) (fib (Suc (Suc pos))) (Suc pos))"
  using fib_convertible [of "Suc pos"] by (simp add: fib_advance_fib)

section \<open>Many attempts\<close>

lemma run_loop_overflow:
  assumes "1 \<le> n" "n \<le> 1025" "1026 \<le> n + length ats" "rc_backoff c = Exponential base cap j"
    and "strategy_of (rc_backoff c) s"
    and "\<And>k a. k \<le> 1025 \<Longrightarrow> a \<in> set ats \<Longrightarrow> \<not> settles c started k a"
  shows "\<exists>r. run_loop c started n s ds ats = Some r \<and> verdict r = Crash OverflowError \<and> made r = 1025"
  using assms
proof (induction ats arbitrary: n s ds)
  case (Cons a rest)
  obtain p where s: "s = ExpS base cap j p" using Cons.prems(4,5) by (cases s) auto
  have ns: "\<not> settles c started n a" using Cons.prems(2,6) by simp
  show ?case
  proof (cases "n = 1025")
    case True
    then have "strategy_delay s n (snd (snd a)) = Inl OverflowError"
      using float_of_power [of "n - 1"] by (simp add: s exponential_delay_def del: power_numeral)
    with run_loop_crashed [OF ns this] True show ?thesis by simp
  next
    case False
    with Cons.prems(2) obtain d s' where d: "strategy_delay s n (snd (snd a)) = Inr (d, s')"
      by (cases "1024 \<le> n - 1") (simp_all add: s exponential_delay_def float_of_power Let_def)
    have p': "s' = ExpS base cap j (max d base)"
      using d by (auto simp: s exponential_delay_def Let_def split: sum.splits)
    then have "strategy_of (rc_backoff c) s'" using Cons.prems(4) by simp
    from Cons.IH [OF _ _ _ Cons.prems(4) this, of "Suc n" "ds @ [d]"] Cons.prems(1-3,6) False
    show ?thesis by (simp add: run_loop_again [OF ns d])
  qed
qed simp

text \<open>
  An exponential backoff breaks a long retry: when a call keeps failing with an exception that is
  to be retried and the policy allows more than 1025 attempts, the 1025th failure raises \<open>OverflowError\<close>
  from the computation of the delay in place of retrying, although \<open>max_delay\<close> caps the delay.
\<close>

theorem retry_exponential_overflow:
  assumes "rc_backoff c = Exponential base cap j" "1025 < attempts c" "max_seconds c = None" "1025 \<le> length ats"
    and "\<forall>a \<in> set ats. \<exists>e. fst a = Failed e \<and> is_instance e [''Exception''] \<and> rc_when c (Failed e)"
  shows "\<exists>r. retry_call c started ats = Some r \<and> verdict r = Crash OverflowError \<and> made r = 1025"
proof -
  have "\<not> settles c started k a" if "k \<le> 1025" "a \<in> set ats" for k a
    using assms(2,3,5) that by (fastforce simp: settles_def time_done_def)
  with run_loop_overflow [of 1 ats c base cap j "build_retry_strategy (rc_backoff c)" started "[]"]
    assms(1,4) strategy_of_build [of "rc_backoff c"]
  show ?thesis by (simp add: retry_call_def)
qed

theorem retry_exponential_overflow_witness:
  "\<exists>r. retry_call \<lparr>attempts = 2000, max_seconds = None, rc_when = match_exception [''Exception''],
       rc_backoff = Exponential (1 / 10) 30 NoJitter\<rparr> 0
     (replicate 2000 (Failed (Exc [''IOError'', ''Exception''] ''down'' None), 0, 0)) = Some r \<and>
     verdict r = Crash OverflowError \<and> made r = 1025"
  by (rule retry_exponential_overflow [where base = "1 / 10" and cap = 30 and j = NoJitter]) (auto simp: is_instance_def)

end
