(* ===== verification/Bulkhead.thy ===== *)
theory Bulkhead
  imports Prelude
begin

text \<open>
  The bulkhead (\<open>resilience/bulkhead.py\<close>): permits of an \<open>asyncio.Semaphore\<close>, a stack of scopes per task,
  the opening of the components it uses, reconfiguration. The semaphore is modelled as the standard
  library has it: a number of free permits and the futures of the tasks that wait, in order of arrival; a
  released permit is handed to the first that waits. A reconfiguration makes a new semaphore while
  scopes that were entered before keep the old, so semaphores are numbered and a scope holds the number of
  its own. An entry that has to wait is continued by a later step, in which the task resumes with its
  permit or \<open>max_wait\<close> has run out. The overrides of the active bulkhead (a context variable) and the
  metrics are not part of the model.
\<close>

record bulkhead_config =
  max_concurrent :: "nat option"
  max_wait :: "real option"
  max_workers :: "nat option"

text \<open>
  A task suspended in \<open>semaphore.acquire()\<close>: its semaphore, the \<open>max_concurrent\<close> of the state it read on
  entry, and whether its future has been given a permit.
\<close>

record waiter =
  w_task :: nat
  w_sem :: nat
  w_limit :: nat
  w_granted :: bool

record bulkhead =
  bh_config :: bulkhead_config
  bh_semaphore :: "nat option"
  permits :: "nat \<Rightarrow> nat"
  waiters :: "waiter list"
  next_semaphore :: nat
  scopes :: "(nat, nat option list) pydict"
  uses_given :: bool
  uses_opened :: bool
  executor :: "nat option"

datatype bulkhead_error = BulkheadFullError nat | OpenFailed | NoScope
datatype enter_progress = Entered | Waits

section \<open>The semaphore\<close>

text \<open>\<open>Semaphore.locked\<close>: no permit is free, or others are still on their way in.\<close>

definition semaphore_locked :: "nat \<Rightarrow> bulkhead \<Rightarrow> bool" where
  "semaphore_locked k b \<longleftrightarrow> permits b k = 0 \<or> list_ex (\<lambda>w. w_sem w = k) (waiters b)"

fun grant_first :: "nat \<Rightarrow> waiter list \<Rightarrow> waiter list option" where
  "grant_first k [] = None"
| "grant_first k (w # ws) =
     (if w_sem w = k \<and> \<not> w_granted w then Some (w\<lparr>w_granted := True\<rparr> # ws)
      else map_option ((#) w) (grant_first k ws))"

text \<open>\<open>Semaphore._wake_up_next\<close> in the loop in which \<open>acquire\<close> ends, and once after a \<open>release\<close>.\<close>

definition wake_up_next :: "nat \<Rightarrow> bulkhead \<Rightarrow> bulkhead option" where
  "wake_up_next k b =
     map_option (\<lambda>ws. b\<lparr>waiters := ws, permits := (permits b)(k := permits b k - 1)\<rparr>) (grant_first k (waiters b))"

function wake_up_all :: "nat \<Rightarrow> bulkhead \<Rightarrow> bulkhead" where
  "wake_up_all k b =
     (if permits b k = 0 then b else case wake_up_next k b of None \<Rightarrow> b | Some b1 \<Rightarrow> wake_up_all k b1)"
  by auto

termination
  by (relation "measure (\<lambda>(k, b). permits b k)") (auto simp: wake_up_next_def)

declare wake_up_all.simps [simp del]

definition semaphore_release :: "nat \<Rightarrow> bulkhead \<Rightarrow> bulkhead" where
  "semaphore_release k b =
     (let b1 = b\<lparr>permits := (permits b)(k := permits b k + 1)\<rparr>
      in case wake_up_next k b1 of None \<Rightarrow> b1 | Some b2 \<Rightarrow> b2)"

section \<open>Operations\<close>

text \<open>\<open>_build_semaphore\<close>: a new semaphore with all its permits, or none.\<close>

definition build_semaphore :: "bulkhead_config \<Rightarrow> bulkhead \<Rightarrow> bulkhead" where
  "build_semaphore c b =
     (case max_concurrent c of
        None \<Rightarrow> b\<lparr>bh_config := c, bh_semaphore := None\<rparr>
      | Some n \<Rightarrow> b\<lparr>bh_config := c, bh_semaphore := Some (next_semaphore b),
                    permits := (permits b)(next_semaphore b := n), next_semaphore := next_semaphore b + 1\<rparr>)"

definition bulkhead_init :: "bulkhead_config \<Rightarrow> bool \<Rightarrow> bulkhead" where
  "bulkhead_init c uses = build_semaphore c
     \<lparr>bh_config = c, bh_semaphore = None, permits = \<lambda>k. 0, waiters = [], next_semaphore = 0, scopes = [],
      uses_given = uses, uses_opened = False, executor = None\<rparr>"

definition push_scope :: "nat \<Rightarrow> nat option \<Rightarrow> bulkhead \<Rightarrow> bulkhead" where
  "push_scope task sem b =
     b\<lparr>scopes := dput task (dget_or (scopes b) task [] @ [sem]) (scopes b)\<rparr>"

text \<open>
  The part of \<open>__aenter__\<close> after the permit. \<open>opens\<close> says whether opening the used components succeeds,
  when they have to be opened; when it raises, the exception leaves \<open>__aenter__\<close> with the permit taken.
\<close>

definition after_permit :: "bool \<Rightarrow> nat \<Rightarrow> nat option \<Rightarrow> bulkhead \<Rightarrow> (bulkhead_error + enter_progress) \<times> bulkhead" where
  "after_permit opens task sem b =
     (if uses_given b \<and> \<not> uses_opened b then
        if opens then (Inr Entered, push_scope task sem (b\<lparr>uses_opened := True\<rparr>)) else (Inl OpenFailed, b)
      else (Inr Entered, push_scope task sem b))"

text \<open>\<open>__aenter__\<close> up to its end or its suspension in \<open>semaphore.acquire()\<close>.\<close>

definition bulkhead_enter :: "bool \<Rightarrow> nat \<Rightarrow> bulkhead \<Rightarrow> (bulkhead_error + enter_progress) \<times> bulkhead" where
  "bulkhead_enter opens task b =
     (case bh_semaphore b of
        None \<Rightarrow> after_permit opens task None b
      | Some k \<Rightarrow>
          if semaphore_locked k b then
            (Inr Waits, b\<lparr>waiters := waiters b @
               [\<lparr>w_task = task, w_sem = k,
                 w_limit = (case max_concurrent (bh_config b) of None \<Rightarrow> 0 | Some n \<Rightarrow> n), w_granted = False\<rparr>]\<rparr>)
          else after_permit opens task (Some k) (b\<lparr>permits := (permits b)(k := permits b k - 1)\<rparr>))"

text \<open>The rest of \<open>__aenter__\<close> for a task whose future was given a permit; others stay suspended.\<close>

definition bulkhead_resume :: "bool \<Rightarrow> nat \<Rightarrow> bulkhead \<Rightarrow> (bulkhead_error + enter_progress) \<times> bulkhead" where
  "bulkhead_resume opens task b =
     (case find (\<lambda>w. w_task w = task) (waiters b) of
        None \<Rightarrow> (Inr Waits, b)
      | Some w \<Rightarrow>
          if w_granted w then
            after_permit opens task (Some (w_sem w)) (wake_up_all (w_sem w) (b\<lparr>waiters := remove1 w (waiters b)\<rparr>))
          else (Inr Waits, b))"

text \<open>
  The rest of \<open>__aenter__\<close> when \<open>asyncio.timeout\<close> has cancelled the \<open>acquire()\<close> of a task that waits: a
  permit that had been granted goes back and the entry is refused.
\<close>

definition bulkhead_timeout :: "nat \<Rightarrow> bulkhead \<Rightarrow> (bulkhead_error + enter_progress) \<times> bulkhead" where
  "bulkhead_timeout task b =
     (case find (\<lambda>w. w_task w = task) (waiters b) of
        None \<Rightarrow> (Inr Waits, b)
      | Some w \<Rightarrow>
          let k = w_sem w;
              b1 = b\<lparr>waiters := remove1 w (waiters b),
                     permits := (permits b)(k := permits b k + (if w_granted w then 1 else 0))\<rparr>
          in (Inl (BulkheadFullError (w_limit w)), wake_up_all k b1))"

definition bulkhead_exit :: "nat \<Rightarrow> bulkhead \<Rightarrow> (bulkhead_error + unit) \<times> bulkhead" where
  "bulkhead_exit task b =
     (case dget (scopes b) task of
        None \<Rightarrow> (Inl NoScope, b)
      | Some stack \<Rightarrow>
          if stack = [] then (Inl NoScope, b)
          else
            let sem = last stack;
                b1 = b\<lparr>scopes := (if butlast stack = [] then ddel task (scopes b)
                                  else dput task (butlast stack) (scopes b))\<rparr>
            in (Inr (), case sem of None \<Rightarrow> b1 | Some k \<Rightarrow> semaphore_release k b1))"

text \<open>The private executor of \<open>to_thread\<close>, made on first use; its number stands for the object.\<close>

definition bulkhead_to_thread :: "nat \<Rightarrow> bulkhead \<Rightarrow> nat option \<times> bulkhead" where
  "bulkhead_to_thread fresh b =
     (case max_workers (bh_config b) of
        None \<Rightarrow> (None, b)
      | Some n \<Rightarrow> (case executor b of
                    Some x \<Rightarrow> (Some x, b)
                  | None \<Rightarrow> (Some fresh, b\<lparr>executor := Some fresh\<rparr>)))"

definition bulkhead_reconfigure :: "bulkhead_config \<Rightarrow> bulkhead \<Rightarrow> bulkhead" where
  "bulkhead_reconfigure c b =
     build_semaphore c
       (if executor b \<noteq> None \<and> max_workers c \<noteq> max_workers (bh_config b) then b\<lparr>executor := None\<rparr> else b)"

section \<open>Permits\<close>

datatype bulkhead_event =
  EnterTask nat bool | ResumeTask nat bool | TimeoutTask nat | ExitTask nat | ToThread nat | Reconfigure bulkhead_config

fun bulkhead_step :: "bulkhead_event \<Rightarrow> bulkhead \<Rightarrow> bulkhead" where
  "bulkhead_step (EnterTask task opens) b = snd (bulkhead_enter opens task b)"
| "bulkhead_step (ResumeTask task opens) b = snd (bulkhead_resume opens task b)"
| "bulkhead_step (TimeoutTask task) b = snd (bulkhead_timeout task b)"
| "bulkhead_step (ExitTask task) b = snd (bulkhead_exit task b)"
| "bulkhead_step (ToThread fresh) b = snd (bulkhead_to_thread fresh b)"
| "bulkhead_step (Reconfigure c) b = bulkhead_reconfigure c b"

definition bulkhead_run :: "bulkhead_event list \<Rightarrow> bulkhead \<Rightarrow> bulkhead" where
  "bulkhead_run es b = fold bulkhead_step es b"

text \<open>The scopes entered through semaphore \<open>k\<close> and still open; the tasks with and without a permit of it that are suspended.\<close>

definition in_flight :: "nat \<Rightarrow> bulkhead \<Rightarrow> nat" where
  "in_flight k b = (\<Sum>(t, st) \<leftarrow> scopes b. count_list st (Some k))"

definition granted :: "nat \<Rightarrow> bulkhead \<Rightarrow> nat" where
  "granted k b = length (filter (\<lambda>w. w_sem w = k \<and> w_granted w) (waiters b))"

definition queued :: "nat \<Rightarrow> bulkhead \<Rightarrow> nat" where
  "queued k b = length (filter (\<lambda>w. w_sem w = k \<and> \<not> w_granted w) (waiters b))"

definition accounted :: "nat \<Rightarrow> bulkhead \<Rightarrow> nat" where
  "accounted k b = permits b k + granted k b + in_flight k b"

text \<open>No wake-up is lost: a task that waits while a permit is free has one before it that is about to resume.\<close>

definition settled :: "nat \<Rightarrow> bulkhead \<Rightarrow> bool" where
  "settled k b \<longleftrightarrow> permits b k = 0 \<or> queued k b = 0 \<or> 0 < granted k b"

text \<open>
  The permits of a semaphore, where the current step holds \<open>d\<close> of them. A permit may get lost only when
  there are components to open.
\<close>

definition balanced :: "nat \<Rightarrow> nat \<Rightarrow> nat \<Rightarrow> bulkhead \<Rightarrow> bool" where
  "balanced d k n b \<longleftrightarrow> dwf (scopes b) \<and> accounted k b + d \<le> n \<and>
     (\<not> uses_given b \<longrightarrow> accounted k b + d = n)"

lemmas count_defs = accounted_def settled_def granted_def queued_def in_flight_def

subsection \<open>The semaphore keeps its permits\<close>

lemma grant_first_None: "grant_first k ws = None \<Longrightarrow> filter (\<lambda>w. w_sem w = k \<and> \<not> w_granted w) ws = []"
  by (induction ws) (auto split: if_splits)

lemma grant_first_Some:
  "grant_first k ws = Some ws' \<Longrightarrow>
   length (filter (\<lambda>w. w_sem w = j \<and> w_granted w) ws') =
     length (filter (\<lambda>w. w_sem w = j \<and> w_granted w) ws) + (if j = k then 1 else 0) \<and>
   length (filter (\<lambda>w. w_sem w = j \<and> \<not> w_granted w) ws) =
     length (filter (\<lambda>w. w_sem w = j \<and> \<not> w_granted w) ws') + (if j = k then 1 else 0)"
proof (induction ws arbitrary: ws')
  case (Cons w ws)
  then show ?case
  proof (cases "w_sem w = k \<and> \<not> w_granted w")
    case False
    with Cons.prems obtain vs where "grant_first k ws = Some vs" "ws' = w # vs" by auto
    with Cons.IH [of vs] show ?thesis by (cases "j = k") auto
  qed auto
qed simp

lemma wake_up_next_frame:
  "wake_up_next k b = Some b1 \<Longrightarrow> b1 = b\<lparr>waiters := waiters b1, permits := permits b1\<rparr>"
  by (auto simp: wake_up_next_def)

lemma wake_up_next_counts:
  assumes "wake_up_next k b = Some b1" "0 < permits b k"
  shows "accounted j b1 = accounted j b \<and> 0 < granted k b1 \<and>
    (j \<noteq> k \<longrightarrow> permits b1 j = permits b j \<and> granted j b1 = granted j b \<and> queued j b1 = queued j b)"
proof -
  obtain ws where ws: "grant_first k (waiters b) = Some ws"
    "b1 = b\<lparr>waiters := ws, permits := (permits b)(k := permits b k - 1)\<rparr>"
    using assms(1) by (auto simp: wake_up_next_def)
  then show ?thesis
    using grant_first_Some [OF ws(1), of j] grant_first_Some [OF ws(1), of k] assms(2)
    by (simp add: count_defs)
qed

lemma wake_up_all_frame:
  "\<exists>ws ps. wake_up_all k b = b\<lparr>waiters := ws, permits := ps\<rparr>"
proof (induction k b rule: wake_up_all.induct)
  case (1 k b)
  show ?case
  proof (cases "permits b k = 0 \<or> wake_up_next k b = None")
    case True
    then have "wake_up_all k b = b" by (subst wake_up_all.simps) auto
    then show ?thesis by (intro exI [of _ "waiters b"] exI [of _ "permits b"]) simp
  next
    case False
    then obtain b1 where b1: "wake_up_next k b = Some b1" "permits b k \<noteq> 0" by auto
    with 1 obtain ws ps where "wake_up_all k b1 = b1\<lparr>waiters := ws, permits := ps\<rparr>" by blast
    then have "wake_up_all k b = b\<lparr>waiters := ws, permits := ps\<rparr>"
      using b1 wake_up_next_frame [OF b1(1)] by (subst wake_up_all.simps) (cases b1, cases b, auto)
    then show ?thesis by blast
  qed
qed

lemma wake_up_all_counts:
  "accounted j (wake_up_all k b) = accounted j b \<and> settled k (wake_up_all k b) \<and>
   (j \<noteq> k \<longrightarrow> settled j (wake_up_all k b) = settled j b)"
proof (induction k b rule: wake_up_all.induct)
  case (1 k b)
  show ?case
  proof (cases "permits b k = 0")
    case True
    then show ?thesis by (subst (1 2 3) wake_up_all.simps) (simp add: settled_def)
  next
    case pos: False
    show ?thesis
    proof (cases "wake_up_next k b")
      case None
      then have "queued k b = 0" using grant_first_None by (auto simp: wake_up_next_def queued_def)
      then show ?thesis using pos None by (subst (1 2 3) wake_up_all.simps) (simp add: settled_def)
    next
      case (Some b1)
      then have eq: "wake_up_all k b = wake_up_all k b1" using pos by (subst wake_up_all.simps) simp
      show ?thesis unfolding eq
        using 1 [OF pos Some] wake_up_next_counts [OF Some, of j] pos by (simp add: settled_def)
    qed
  qed
qed

lemma wake_up_all_ok:
  assumes "balanced d j n b" "j \<noteq> k \<Longrightarrow> settled j b"
  shows "balanced d j n (wake_up_all k b)" "settled j (wake_up_all k b)"
proof -
  obtain ws ps where "wake_up_all k b = b\<lparr>waiters := ws, permits := ps\<rparr>" using wake_up_all_frame by blast
  then have "scopes (wake_up_all k b) = scopes b" "uses_given (wake_up_all k b) = uses_given b" by simp_all
  then show "balanced d j n (wake_up_all k b)" "settled j (wake_up_all k b)"
    using assms wake_up_all_counts [of j k b] by (auto simp: balanced_def)
qed

lemma release_ok:
  assumes "balanced (if j = k then 1 else 0) j n b" "settled j b"
  shows "balanced 0 j n (semaphore_release k b)" "settled j (semaphore_release k b)"
proof -
  let ?b = "b\<lparr>permits := (permits b)(k := permits b k + 1)\<rparr>"
  have b: "balanced 0 j n ?b" "j \<noteq> k \<Longrightarrow> settled j ?b"
    using assms by (auto simp: balanced_def count_defs split: if_splits)
  show "balanced 0 j n (semaphore_release k b)"
  proof (cases "wake_up_next k ?b")
    case (Some b2)
    then have "scopes b2 = scopes b" "uses_given b2 = uses_given b"
      by (auto simp: wake_up_next_def)
    with b(1) wake_up_next_counts [OF Some, of j] Some show ?thesis
      by (simp add: semaphore_release_def balanced_def)
  qed (use b(1) in \<open>simp add: semaphore_release_def\<close>)
  show "settled j (semaphore_release k b)"
  proof (cases "wake_up_next k ?b")
    case None
    then have "filter (\<lambda>w. w_sem w = k \<and> \<not> w_granted w) (waiters b) = []"
      using grant_first_None by (auto simp: wake_up_next_def)
    with None b(2) show ?thesis
      by (cases "j = k") (simp_all add: semaphore_release_def settled_def queued_def Let_def)
  next
    case (Some b2)
    with b(2) wake_up_next_counts [OF Some, of j] show ?thesis
      by (cases "j = k") (simp_all add: semaphore_release_def settled_def Let_def)
  qed
qed

subsection \<open>The scopes\<close>

lemma in_flight_put:
  "dwf d \<Longrightarrow> (\<Sum>(t, st) \<leftarrow> dput task s d. count_list st k) + (case dget d task of None \<Rightarrow> 0 | Some x \<Rightarrow> count_list x k) =
     (\<Sum>(t, st) \<leftarrow> d. count_list st k) + count_list s k"
proof (induction d)
  case (Cons p d)
  then have "dwf d" "fst p \<notin> fst ` set d" by (auto simp: dwf_def)
  with Cons show ?case by (cases p) (auto simp: map_of_eq_None_iff split: option.splits)
qed simp

lemma in_flight_del:
  "dwf d \<Longrightarrow> (\<Sum>(t, st) \<leftarrow> ddel task d. count_list st k) + (case dget d task of None \<Rightarrow> 0 | Some x \<Rightarrow> count_list x k) =
     (\<Sum>(t, st) \<leftarrow> d. count_list st k)"
proof (induction d)
  case (Cons p d)
  then have "dwf d" "fst p \<notin> fst ` set d" by (auto simp: dwf_def)
  moreover from this have "fst p = task \<Longrightarrow> ddel task d = d" by (auto simp: delete_idem)
  ultimately show ?case using Cons by (cases p) (auto split: option.splits)
qed simp

lemma push_scope_in_flight:
  assumes "dwf (scopes b)"
  shows "in_flight k (push_scope task sem b) = in_flight k b + (if sem = Some k then 1 else 0)"
    and "dwf (scopes (push_scope task sem b))"
proof -
  let ?old = "dget_or (scopes b) task []"
  have "count_list ?old (Some k) = (case dget (scopes b) task of None \<Rightarrow> 0 | Some x \<Rightarrow> count_list x (Some k))"
    by (simp add: dget_or_def split: option.splits)
  with in_flight_put [OF assms, where task = task and s = "?old @ [sem]" and k = "Some k"]
  show "in_flight k (push_scope task sem b) = in_flight k b + (if sem = Some k then 1 else 0)"
    by (auto simp: in_flight_def push_scope_def)
  show "dwf (scopes (push_scope task sem b))" by (simp add: push_scope_def pd.wf_put assms)
qed

lemma after_permit_ok:
  assumes "balanced (if sem = Some k then 1 else 0) k n b" "settled k b"
  shows "balanced 0 k n (snd (after_permit opens task sem b))" "settled k (snd (after_permit opens task sem b))"
proof -
  have wf: "dwf (scopes b)" "dwf (scopes (b\<lparr>uses_opened := True\<rparr>))" using assms(1) by (auto simp: balanced_def)
  have same: "accounted k (push_scope task sem b1) = accounted k b1 + (if sem = Some k then 1 else 0)"
    "settled k (push_scope task sem b1) = settled k b1" if "dwf (scopes b1)" for b1
    using push_scope_in_flight(1) [OF that, of k task sem]
    by (simp_all add: accounted_def settled_def granted_def queued_def push_scope_def)
  have opened: "accounted k (b\<lparr>uses_opened := True\<rparr>) = accounted k b" "settled k (b\<lparr>uses_opened := True\<rparr>) = settled k b"
    by (simp_all add: count_defs)
  note facts = same [OF wf(1)] same [OF wf(2)] opened push_scope_in_flight(2) [OF wf(1)] push_scope_in_flight(2) [OF wf(2)]
  have frame: "uses_given (push_scope task sem b1) = uses_given b1" for b1 by (simp add: push_scope_def)
  show "balanced 0 k n (snd (after_permit opens task sem b))"
    using assms(1) facts frame by (auto simp: after_permit_def balanced_def)
  show "settled k (snd (after_permit opens task sem b))"
    using assms(2) facts by (auto simp: after_permit_def)
qed

text \<open>Closing the innermost scope of a task takes its permit out of the books, until it is released.\<close>

lemma pop_scope_in_flight:
  assumes "dwf d" "dget d task = Some st" "st \<noteq> []"
  shows "(\<Sum>(t, s) \<leftarrow> (if butlast st = [] then ddel task d else dput task (butlast st) d). count_list s (Some k)) +
     (if last st = Some k then 1 else 0) = (\<Sum>(t, s) \<leftarrow> d. count_list s (Some k))"
proof -
  have "count_list st (Some k) = count_list (butlast st) (Some k) + (if last st = Some k then 1 else 0)"
    using append_butlast_last_id [OF assms(3)] count_list_append [of "butlast st" "[last st]" "Some k"] by simp
  then show ?thesis
    using in_flight_put [OF assms(1), where task = task and s = "butlast st" and k = "Some k"]
      in_flight_del [OF assms(1), where task = task and k = "Some k"] assms(2) by auto
qed

lemma exit_ok:
  assumes "balanced 0 k n b" "settled k b"
  shows "balanced 0 k n (snd (bulkhead_exit task b)) \<and> settled k (snd (bulkhead_exit task b))"
proof (cases "\<exists>st. dget (scopes b) task = Some st \<and> st \<noteq> []")
  case True
  then obtain st where st: "dget (scopes b) task = Some st" "st \<noteq> []" by blast
  let ?d = "if butlast st = [] then ddel task (scopes b) else dput task (butlast st) (scopes b)"
  let ?b = "b\<lparr>scopes := ?d\<rparr>"
  have wf: "dwf (scopes b)" using assms(1) by (simp add: balanced_def)
  have "accounted k ?b + (if last st = Some k then 1 else 0) = accounted k b"
    using pop_scope_in_flight [OF wf st, of k] by (simp add: accounted_def granted_def in_flight_def)
  moreover have "dwf ?d" using wf by (simp add: pd.wf_put pd.wf_del)
  ultimately have b: "balanced (if last st = Some k then 1 else 0) k n ?b" "settled k ?b"
    using assms by (auto simp: balanced_def settled_def granted_def queued_def)
  show ?thesis
  proof (cases "last st")
    case None
    then show ?thesis using st b by (simp add: bulkhead_exit_def Let_def)
  next
    case (Some j)
    with b have "balanced (if k = j then 1 else 0) k n ?b" by (auto split: if_splits)
    from release_ok [OF this b(2)] show ?thesis using st Some by (simp add: bulkhead_exit_def Let_def)
  qed
next
  case False
  then show ?thesis using assms by (auto simp: bulkhead_exit_def split: option.splits)
qed

subsection \<open>Every step keeps the permits\<close>

lemma enter_ok:
  assumes "balanced 0 k n b" "settled k b"
  shows "balanced 0 k n (snd (bulkhead_enter opens task b)) \<and> settled k (snd (bulkhead_enter opens task b))"
proof (cases "bh_semaphore b")
  case None
  then show ?thesis using after_permit_ok [of None k n b] assms by (simp add: bulkhead_enter_def)
next
  case (Some j)
  show ?thesis
  proof (cases "semaphore_locked j b")
    case True
    have "\<not> settled k b \<or> permits b k = 0 \<or> 0 < granted k b \<or> \<not> semaphore_locked k b"
      by (auto simp: semaphore_locked_def settled_def queued_def granted_def list_ex_iff filter_empty_conv)
    with True Some assms show ?thesis
      by (cases "k = j") (auto simp: bulkhead_enter_def balanced_def count_defs)
  next
    case False
    let ?b = "b\<lparr>permits := (permits b)(j := permits b j - 1)\<rparr>"
    have "0 < permits b j" using False by (simp add: semaphore_locked_def)
    with assms have "balanced (if Some j = Some k then 1 else 0) k n ?b" "settled k ?b"
      by (auto simp: balanced_def count_defs)
    from after_permit_ok [OF this] show ?thesis using False Some by (simp add: bulkhead_enter_def)
  qed
qed

text \<open>A suspended task leaves the queue of its semaphore.\<close>

lemma filter_remove1_length:
  "w \<in> set ws \<Longrightarrow> length (filter P (remove1 w ws)) + (if P w then 1 else 0) = length (filter P ws)"
  by (induction ws) auto

lemma leave_queue:
  assumes "balanced 0 k n b" "settled k b" "w \<in> set (waiters b)"
  shows "balanced (if w_sem w = k \<and> w_granted w then 1 else 0) k n (b\<lparr>waiters := remove1 w (waiters b)\<rparr>)"
    and "k \<noteq> w_sem w \<Longrightarrow> settled k (b\<lparr>waiters := remove1 w (waiters b)\<rparr>)"
  using assms filter_remove1_length [OF assms(3), of "\<lambda>w. w_sem w = k \<and> w_granted w"]
    filter_remove1_length [OF assms(3), of "\<lambda>w. w_sem w = k \<and> \<not> w_granted w"]
  by (auto simp: balanced_def count_defs)

lemma find_mem: "find P xs = Some x \<Longrightarrow> x \<in> set xs \<and> P x"
  by (auto simp: find_Some_iff)

lemma resume_ok:
  assumes "balanced 0 k n b" "settled k b"
  shows "balanced 0 k n (snd (bulkhead_resume opens task b)) \<and> settled k (snd (bulkhead_resume opens task b))"
proof (cases "find (\<lambda>w. w_task w = task) (waiters b)")
  case (Some w)
  show ?thesis
  proof (cases "w_granted w")
    case True
    note q = leave_queue [OF assms conjunct1 [OF find_mem [OF Some]]]
    from True q(1) have "balanced (if Some (w_sem w) = Some k then 1 else 0) k n (b\<lparr>waiters := remove1 w (waiters b)\<rparr>)"
      by simp
    from after_permit_ok [OF wake_up_all_ok [OF this q(2)]] Some True show ?thesis by (simp add: bulkhead_resume_def)
  qed (use assms Some in \<open>simp add: bulkhead_resume_def\<close>)
qed (use assms in \<open>simp add: bulkhead_resume_def\<close>)

lemma timeout_ok:
  assumes "balanced 0 k n b" "settled k b"
  shows "balanced 0 k n (snd (bulkhead_timeout task b)) \<and> settled k (snd (bulkhead_timeout task b))"
proof (cases "find (\<lambda>w. w_task w = task) (waiters b)")
  case (Some w)
  let ?b = "b\<lparr>waiters := remove1 w (waiters b),
              permits := (permits b)(w_sem w := permits b (w_sem w) + (if w_granted w then 1 else 0))\<rparr>"
  note q = leave_queue [OF assms conjunct1 [OF find_mem [OF Some]]]
  have bal: "balanced 0 k n ?b" using q(1) by (auto simp: balanced_def count_defs split: if_splits)
  have set: "settled k ?b" if "k \<noteq> w_sem w" using q(2) [OF that] that by (auto simp: count_defs)
  show ?thesis using wake_up_all_ok [OF bal set] Some by (simp add: bulkhead_timeout_def Let_def)
qed (use assms in \<open>simp add: bulkhead_timeout_def\<close>)

lemma to_thread_ok:
  "balanced 0 k n b \<Longrightarrow> settled k b \<Longrightarrow>
   balanced 0 k n (snd (bulkhead_to_thread x b)) \<and> settled k (snd (bulkhead_to_thread x b))"
  by (auto simp: bulkhead_to_thread_def balanced_def count_defs split: option.splits)

lemmas step_ok = enter_ok resume_ok timeout_ok exit_ok to_thread_ok

fun is_reconfigure :: "bulkhead_event \<Rightarrow> bool" where
  "is_reconfigure (Reconfigure c) = True"
| "is_reconfigure e = False"

lemma bulkhead_step_ok:
  assumes "\<not> is_reconfigure e" "balanced 0 k n b" "settled k b"
  shows "balanced 0 k n (bulkhead_step e b) \<and> settled k (bulkhead_step e b)"
proof (cases e)
  case (Reconfigure c)
  with assms(1) show ?thesis by simp
qed (simp_all only: bulkhead_step.simps, (rule step_ok [OF assms(2,3)])+)

subsection \<open>Semaphores are used only after they are made\<close>

definition semaphores_made :: "bulkhead \<Rightarrow> bool" where
  "semaphores_made b \<longleftrightarrow> (\<forall>k. bh_semaphore b = Some k \<longrightarrow> k < next_semaphore b) \<and>
     (\<forall>w \<in> set (waiters b). w_sem w < next_semaphore b)"

lemma grant_first_sems: "grant_first k ws = Some ws' \<Longrightarrow> map w_sem ws' = map w_sem ws"
  by (induction ws arbitrary: ws') (auto split: if_splits)

lemma wake_up_next_sems: "wake_up_next k b = Some b1 \<Longrightarrow> map w_sem (waiters b1) = map w_sem (waiters b)"
  using grant_first_sems by (auto simp: wake_up_next_def)

lemma wake_up_all_sems: "map w_sem (waiters (wake_up_all k b)) = map w_sem (waiters b)"
proof (induction k b rule: wake_up_all.induct)
  case (1 k b)
  then show ?case
    by (subst wake_up_all.simps) (auto simp: wake_up_next_sems split: option.splits)
qed

lemma sems_below: "map w_sem ws = map w_sem vs \<Longrightarrow> (\<forall>w \<in> set ws. w_sem w < n) = (\<forall>w \<in> set vs. w_sem w < n)"
  by (metis in_set_conv_nth length_map nth_map)

lemma wake_up_all_made:
  assumes "semaphores_made b"
  shows "semaphores_made (wake_up_all k b) \<and> next_semaphore (wake_up_all k b) = next_semaphore b \<and>
     uses_given (wake_up_all k b) = uses_given b"
proof -
  obtain ws ps where "wake_up_all k b = b\<lparr>waiters := ws, permits := ps\<rparr>" using wake_up_all_frame by blast
  with assms sems_below [OF wake_up_all_sems [of k b]] show ?thesis by (simp add: semaphores_made_def)
qed

lemma release_made:
  assumes "semaphores_made b"
  shows "semaphores_made (semaphore_release k b) \<and> next_semaphore (semaphore_release k b) = next_semaphore b \<and>
     uses_given (semaphore_release k b) = uses_given b"
proof (cases "wake_up_next k (b\<lparr>permits := (permits b)(k := permits b k + 1)\<rparr>)")
  case (Some b2)
  have "next_semaphore b2 = next_semaphore b" "bh_semaphore b2 = bh_semaphore b"
    "uses_given b2 = uses_given b" using Some by (auto simp: wake_up_next_def)
  with sems_below [OF wake_up_next_sems [OF Some], of "next_semaphore b"] assms Some show ?thesis
    by (simp add: semaphore_release_def semaphores_made_def)
qed (use assms in \<open>simp add: semaphore_release_def semaphores_made_def\<close>)

lemma after_permit_made:
  "semaphores_made b \<Longrightarrow>
   semaphores_made (snd (after_permit opens task sem b)) \<and>
   next_semaphore (snd (after_permit opens task sem b)) = next_semaphore b \<and>
   uses_given (snd (after_permit opens task sem b)) = uses_given b"
  by (auto simp: after_permit_def push_scope_def semaphores_made_def)

lemma made_update:
  "semaphores_made b \<Longrightarrow> set ws \<subseteq> set (waiters b) \<Longrightarrow>
   semaphores_made (b\<lparr>waiters := ws\<rparr>) \<and> semaphores_made (b\<lparr>waiters := ws, permits := ps\<rparr>)"
  by (auto simp: semaphores_made_def)

lemma bulkhead_step_made:
  assumes "semaphores_made b" "\<not> is_reconfigure e"
  shows "semaphores_made (bulkhead_step e b) \<and> next_semaphore (bulkhead_step e b) = next_semaphore b \<and>
     uses_given (bulkhead_step e b) = uses_given b"
proof (cases e)
  case (EnterTask task opens)
  have "semaphores_made (b\<lparr>permits := ps\<rparr>)" for ps using assms(1) by (simp add: semaphores_made_def)
  with EnterTask assms(1) after_permit_made [of b opens task] show ?thesis
    using after_permit_made [of "b\<lparr>permits := ps\<rparr>" opens task for ps]
    by (auto simp: bulkhead_enter_def split: option.splits) (auto simp: semaphores_made_def)
next
  case (ResumeTask task opens)
  note wake = wake_up_all_made [OF conjunct1 [OF made_update [OF assms(1) set_remove1_subset]]]
  show ?thesis using ResumeTask assms(1) after_permit_made [OF conjunct1 [OF wake]] wake
    by (simp add: bulkhead_resume_def split: option.split)
next
  case (TimeoutTask task)
  note wake = wake_up_all_made [OF conjunct2 [OF made_update [OF assms(1) set_remove1_subset]]]
  show ?thesis using TimeoutTask assms(1) wake by (simp add: bulkhead_timeout_def Let_def split: option.split)
next
  case (ExitTask task)
  have "semaphores_made (b\<lparr>scopes := d\<rparr>)" for d using assms(1) by (simp add: semaphores_made_def)
  from release_made [OF this] this ExitTask assms(1) show ?thesis
    by (simp add: bulkhead_exit_def Let_def split: option.split)
next
  case (ToThread x)
  with assms(1) show ?thesis by (auto simp: bulkhead_to_thread_def semaphores_made_def split: option.splits)
next
  case (Reconfigure c)
  with assms(2) show ?thesis by simp
qed

subsection \<open>Runs\<close>

text \<open>The limits of the semaphores that a run makes, in order.\<close>

fun reconfigured :: "bulkhead_event \<Rightarrow> nat list" where
  "reconfigured (Reconfigure c) = (case max_concurrent c of None \<Rightarrow> [] | Some n \<Rightarrow> [n])"
| "reconfigured e = []"

definition limits :: "bulkhead_config \<Rightarrow> bulkhead_event list \<Rightarrow> nat list" where
  "limits c es = reconfigured (Reconfigure c) @ concat (map reconfigured es)"

definition bulkhead_ok :: "nat list \<Rightarrow> bulkhead \<Rightarrow> bool" where
  "bulkhead_ok ls b \<longleftrightarrow> semaphores_made b \<and> next_semaphore b = length ls \<and>
     (\<forall>k. balanced 0 k (if k < length ls then ls ! k else 0) b \<and> settled k b)"

lemma build_ok:
  assumes "bulkhead_ok ls b"
  shows "bulkhead_ok (ls @ reconfigured (Reconfigure c)) (build_semaphore c b)"
proof (cases "max_concurrent c")
  case None
  with assms show ?thesis
    by (auto simp: build_semaphore_def bulkhead_ok_def semaphores_made_def balanced_def count_defs)
next
  case (Some n)
  have len: "next_semaphore b = length ls" using assms by (simp add: bulkhead_ok_def)
  have "balanced 0 (length ls) 0 b" using assms by (auto simp: bulkhead_ok_def dest: spec [of _ "length ls"])
  then have new: "accounted (length ls) b = 0" "queued (length ls) b = 0"
    using assms by (auto simp: bulkhead_ok_def balanced_def semaphores_made_def queued_def filter_empty_conv)
  let ?b = "b\<lparr>bh_config := c, bh_semaphore := Some (length ls), permits := (permits b)(length ls := n),
              next_semaphore := length ls + 1\<rparr>"
  have "balanced 0 k (if k < length (ls @ [n]) then (ls @ [n]) ! k else 0) ?b \<and> settled k ?b" for k
  proof (cases "k = length ls")
    case True
    with new assms show ?thesis by (auto simp: bulkhead_ok_def balanced_def count_defs)
  next
    case False
    then have "(if k < length (ls @ [n]) then (ls @ [n]) ! k else 0) = (if k < length ls then ls ! k else 0)"
      by (simp add: nth_append)
    moreover have "balanced 0 k (if k < length ls then ls ! k else 0) b \<and> settled k b"
      using assms by (simp add: bulkhead_ok_def)
    ultimately show ?thesis using False by (simp add: balanced_def count_defs)
  qed
  then show ?thesis using Some assms len
    by (auto simp: build_semaphore_def bulkhead_ok_def semaphores_made_def less_Suc_eq)
qed

lemma init_ok: "bulkhead_ok (reconfigured (Reconfigure c)) (bulkhead_init c uses)"
proof -
  have "bulkhead_ok [] \<lparr>bh_config = c, bh_semaphore = None, permits = \<lambda>k. 0, waiters = [], next_semaphore = 0,
      scopes = [], uses_given = uses, uses_opened = False, executor = None\<rparr>"
    by (simp add: bulkhead_ok_def semaphores_made_def balanced_def count_defs dwf_def)
  from build_ok [OF this, of c] show ?thesis by (simp add: bulkhead_init_def)
qed

lemma bulkhead_step_keeps:
  assumes "bulkhead_ok ls b"
  shows "bulkhead_ok (ls @ reconfigured e) (bulkhead_step e b) \<and> uses_given (bulkhead_step e b) = uses_given b"
proof (cases "is_reconfigure e")
  case True
  then obtain c where e: "e = Reconfigure c" by (cases e) auto
  let ?b = "if executor b \<noteq> None \<and> max_workers c \<noteq> max_workers (bh_config b) then b\<lparr>executor := None\<rparr> else b"
  have "bulkhead_ok ls ?b" using assms by (auto simp: bulkhead_ok_def semaphores_made_def balanced_def count_defs)
  from build_ok [OF this, of c] show ?thesis
    by (simp add: e bulkhead_reconfigure_def build_semaphore_def split: option.split)
next
  case False
  then have "reconfigured e = []" by (cases e) auto
  moreover have "\<forall>k. balanced 0 k (if k < length ls then ls ! k else 0) (bulkhead_step e b) \<and> settled k (bulkhead_step e b)"
    using bulkhead_step_ok [OF False] assms unfolding bulkhead_ok_def by blast
  ultimately show ?thesis using assms bulkhead_step_made [OF _ False, of b] by (simp add: bulkhead_ok_def)
qed

lemma bulkhead_run_keeps:
  "bulkhead_ok (limits c es) (bulkhead_run es (bulkhead_init c uses)) \<and>
   uses_given (bulkhead_run es (bulkhead_init c uses)) = uses"
proof (induction es rule: rev_induct)
  case Nil
  have "uses_given (bulkhead_init c uses) = uses"
    by (simp add: bulkhead_init_def build_semaphore_def split: option.split)
  with init_ok [of c uses] show ?case by (simp add: limits_def bulkhead_run_def)
next
  case (snoc e es)
  then show ?case using bulkhead_step_keeps [of "limits c es" "bulkhead_run es (bulkhead_init c uses)" e]
    by (simp add: limits_def bulkhead_run_def)
qed

subsection \<open>Components that open\<close>















section \<open>Guarantees\<close>


definition bulkhead_config_example :: bulkhead_config where
  "bulkhead_config_example = \<lparr>max_concurrent = Some 2, max_wait = None, max_workers = None\<rparr>"

text \<open>Two calls are in, the third waits and is let in by the exit of the first.\<close>

definition bulkhead_events_example :: "bulkhead_event list" where
  "bulkhead_events_example =
     [EnterTask 1 True, EnterTask 2 True, EnterTask 3 True, ExitTask 1, ResumeTask 3 True]"

lemmas bulkhead_example_defs =
  bulkhead_config_example_def bulkhead_events_example_def limits_def bulkhead_run_def bulkhead_init_def
  build_semaphore_def bulkhead_enter_def bulkhead_resume_def bulkhead_timeout_def bulkhead_exit_def
  after_permit_def push_scope_def semaphore_locked_def semaphore_release_def wake_up_next_def
  granted_def queued_def in_flight_def


text \<open>
  No wake-up is lost: as long as a call waits for a permit, either no permit is free or one of
  the calls before it has been given a permit and is about to resume.
\<close>

theorem bulkhead_no_lost_wakeup:
  assumes "b = bulkhead_run es (bulkhead_init c uses)" "0 < queued k b"
  shows "permits b k = 0 \<or> 0 < granted k b"
  using bulkhead_run_keeps [of c es uses] assms by (auto simp: bulkhead_ok_def settled_def)

theorem bulkhead_no_lost_wakeup_witness:
  "let b = bulkhead_run [EnterTask 1 True, EnterTask 2 True, EnterTask 3 True, EnterTask 4 True, ExitTask 1]
       (bulkhead_init bulkhead_config_example False)
   in permits b 0 = 0 \<or> 0 < granted 0 b"
proof -
  have "0 < queued 0 (bulkhead_run [EnterTask 1 True, EnterTask 2 True, EnterTask 3 True, EnterTask 4 True, ExitTask 1]
       (bulkhead_init bulkhead_config_example False))" by (simp add: bulkhead_example_defs)
  from bulkhead_no_lost_wakeup [OF refl this] show ?thesis by (simp only: Let_def)
qed

text \<open>
  A failed opening loses its permit: when the components of a bulkhead cannot be opened, each
  failed entry keeps a permit, and after \<open>max_concurrent\<close> of them a call has to wait and is refused as full
  although no call is in flight.
\<close>

theorem bulkhead_failed_open_leaks:
  assumes "max_concurrent c = Some n" "length ts = n"
  shows "let b = bulkhead_run (map (\<lambda>t. EnterTask t False) ts) (bulkhead_init c True) in
    in_flight 0 b = 0 \<and> fst (bulkhead_enter opens task b) = Inr Waits \<and>
    fst (bulkhead_timeout task (snd (bulkhead_enter opens task b))) = Inl (BulkheadFullError n)"
proof -
  have "\<exists>p. bulkhead_run (map (\<lambda>t. EnterTask t False) us) b = b\<lparr>permits := p\<rparr> \<and> p 0 = permits b 0 - length us"
    if "bh_semaphore b = Some 0" "waiters b = []" "uses_given b" "\<not> uses_opened b" "length us \<le> permits b 0" for us b
    using that
  proof (induction us arbitrary: b)
    case Nil
    then show ?case by (intro exI [of _ "permits b"]) (simp add: bulkhead_run_def)
  next
    case (Cons u us)
    let ?b = "b\<lparr>permits := (permits b)(0 := permits b 0 - 1)\<rparr>"
    have "bulkhead_step (EnterTask u False) b = ?b"
      using Cons.prems by (auto simp: bulkhead_enter_def semaphore_locked_def after_permit_def)
    with Cons.IH [of ?b] Cons.prems show ?case by (auto simp: bulkhead_run_def)
  qed
  from this [of "bulkhead_init c True" ts] assms obtain p
    where b: "bulkhead_run (map (\<lambda>t. EnterTask t False) ts) (bulkhead_init c True) = (bulkhead_init c True)\<lparr>permits := p\<rparr>"
      "p 0 = 0" by (auto simp: bulkhead_init_def build_semaphore_def)
  show ?thesis unfolding b Let_def using b(2) assms(1)
    by (simp add: bulkhead_init_def build_semaphore_def bulkhead_enter_def bulkhead_timeout_def semaphore_locked_def
        in_flight_def Let_def)
qed

theorem bulkhead_failed_open_leaks_witness:
  "fst (bulkhead_enter True 9 (bulkhead_run (map (\<lambda>t. EnterTask t False) [1, 2])
     (bulkhead_init bulkhead_config_example True))) = Inr Waits"
  using bulkhead_failed_open_leaks [of bulkhead_config_example 2 "[1, 2]" True 9]
  by (simp add: bulkhead_config_example_def Let_def)

text \<open>Whether each of a row of arrivals is let in at once.\<close>

fun admissions :: "nat list \<Rightarrow> bulkhead \<Rightarrow> bool list" where
  "admissions [] b = []"
| "admissions (t # ts) b = (case bulkhead_enter True t b of (r, b1) \<Rightarrow> (r = Inr Entered) # admissions ts b1)"

text \<open>
  A reconfiguration forgets the calls in flight: whatever is in flight, after a reconfiguration
  to the same \<open>max_concurrent\<close> that many further calls are admitted at once, so up to twice the limit run at
  the same time.
\<close>

theorem bulkhead_reconfigure_doubles:
  assumes "max_concurrent c = Some n" "length ts = n"
  shows "admissions ts (bulkhead_reconfigure c (bulkhead_run es (bulkhead_init c0 False))) = replicate n True"
proof -
  let ?b = "bulkhead_run es (bulkhead_init c0 False)"
  have "admissions us b1 = replicate (length us) True"
    if "bh_semaphore b1 = Some k" "\<not> uses_given b1" "\<forall>w \<in> set (waiters b1). w_sem w \<noteq> k" "length us \<le> permits b1 k"
    for us b1 k
    using that
  proof (induction us arbitrary: b1)
    case (Cons u us)
    let ?c = "push_scope u (Some k) (b1\<lparr>permits := (permits b1)(k := permits b1 k - 1)\<rparr>)"
    have "bulkhead_enter True u b1 = (Inr Entered, ?c)"
      using Cons.prems by (auto simp: bulkhead_enter_def semaphore_locked_def after_permit_def list_ex_iff)
    moreover have "admissions us ?c = replicate (length us) True"
      using Cons.prems by (intro Cons.IH) (auto simp: push_scope_def)
    ultimately show ?case by simp
  qed simp
  moreover have "bh_semaphore (bulkhead_reconfigure c ?b) = Some (next_semaphore ?b)"
    "permits (bulkhead_reconfigure c ?b) (next_semaphore ?b) = n"
    "uses_given (bulkhead_reconfigure c ?b) = uses_given ?b" "waiters (bulkhead_reconfigure c ?b) = waiters ?b"
    using assms(1) by (simp_all add: bulkhead_reconfigure_def build_semaphore_def)
  moreover have "\<not> uses_given ?b" "\<forall>w \<in> set (waiters ?b). w_sem w \<noteq> next_semaphore ?b"
    using bulkhead_run_keeps [of c0 es False] by (auto simp: bulkhead_ok_def semaphores_made_def)
  ultimately show ?thesis using assms(2) by (metis order_refl)
qed

theorem bulkhead_reconfigure_doubles_witness:
  "admissions [3, 4] (bulkhead_reconfigure bulkhead_config_example
     (bulkhead_run [EnterTask 1 True, EnterTask 2 True] (bulkhead_init bulkhead_config_example False))) = [True, True]"
  using bulkhead_reconfigure_doubles [of bulkhead_config_example 2 "[3, 4]"
      "[EnterTask 1 True, EnterTask 2 True]" bulkhead_config_example]
  by (simp add: bulkhead_config_example_def numeral_2_eq_2)

end
