(* ===== verification/Cache_Contract.thy ===== *)
theory Cache_Contract
  imports Prelude
begin

text \<open>
  The contract of a cache store. \<open>CacheBackend\<close> (\<open>cache/_protocol.py\<close>) is a record of functions over the
  state of the store; each call takes the reading of the store's clock. What a store promises is stated
  against a map from keys to a value, the time its entry ends, and the tags of its last write: the locale
  \<open>cache_laws\<close>. A read may drop entries that have ended, so the laws of reads speak of the entries alive at
  the time of the call. The locale proves once that a run of calls, in the order of their clock readings,
  answers what the same run on the map answers.
\<close>

type_synonym bytes = string

type_synonym cache_spec = "key \<Rightarrow> (bytes \<times> seconds \<times> string set) option"

record 's cache_backend =
  cb_get :: "seconds \<Rightarrow> key \<Rightarrow> 's \<Rightarrow> bytes option \<times> 's"
  cb_set :: "seconds \<Rightarrow> key \<Rightarrow> bytes \<Rightarrow> seconds \<Rightarrow> string list \<Rightarrow> 's \<Rightarrow> 's"
  cb_get_many :: "seconds \<Rightarrow> key list \<Rightarrow> 's \<Rightarrow> (key, bytes) pydict \<times> 's"
  cb_set_many :: "seconds \<Rightarrow> (key, bytes) pydict \<Rightarrow> seconds \<Rightarrow> string list \<Rightarrow> 's \<Rightarrow> 's"
  cb_delete :: "key \<Rightarrow> 's \<Rightarrow> 's"
  cb_delete_many :: "key list \<Rightarrow> 's \<Rightarrow> 's"
  cb_delete_tags :: "string list \<Rightarrow> 's \<Rightarrow> 's"
  cb_clear :: "'s \<Rightarrow> 's"

section \<open>The map a store implements\<close>

definition alive :: "seconds \<Rightarrow> cache_spec \<Rightarrow> cache_spec" where
  "alive t m = (\<lambda>k. case m k of None \<Rightarrow> None | Some (v, e, tags) \<Rightarrow> if t < e then Some (v, e, tags) else None)"

definition value_at :: "seconds \<Rightarrow> cache_spec \<Rightarrow> key \<Rightarrow> bytes option" where
  "value_at t m k = (case m k of None \<Rightarrow> None | Some (v, e, tags) \<Rightarrow> if t < e then Some v else None)"

definition spec_put :: "seconds \<Rightarrow> string list \<Rightarrow> (key, bytes) pydict \<Rightarrow> cache_spec \<Rightarrow> cache_spec" where
  "spec_put e tags items m = fold (\<lambda>(k, v) m. m(k \<mapsto> (v, e, set tags))) items m"

text \<open>The keys whose last write carried one of the tags are gone.\<close>

definition untagged_view :: "string set \<Rightarrow> cache_spec \<Rightarrow> cache_spec" where
  "untagged_view tags m = (\<lambda>k. case m k of None \<Rightarrow> None | Some (v, e, ts) \<Rightarrow> if ts \<inter> tags = {} then Some (v, e, ts) else None)"

datatype cache_op =
    CGet key
  | CSet key bytes seconds "string list"
  | CGetMany "key list"
  | CSetMany "(key, bytes) pydict" seconds "string list"
  | CDelete key
  | CDeleteMany "key list"
  | CDeleteTags "string list"
  | CClear

datatype cache_out = Value "bytes option" | Values "key \<Rightarrow> bytes option" | Done

fun spec_step :: "seconds \<Rightarrow> cache_op \<Rightarrow> cache_spec \<Rightarrow> cache_out \<times> cache_spec" where
  "spec_step t (CGet k) m = (Value (value_at t m k), m)"
| "spec_step t (CSet k v ttl tags) m = (Done, m(k \<mapsto> (v, t + ttl, set tags)))"
| "spec_step t (CGetMany ks) m = (Values (\<lambda>k. if k \<in> set ks then value_at t m k else None), m)"
| "spec_step t (CSetMany items ttl tags) m = (Done, spec_put (t + ttl) tags items m)"
| "spec_step t (CDelete k) m = (Done, m(k := None))"
| "spec_step t (CDeleteMany ks) m = (Done, (\<lambda>k. if k \<in> set ks then None else m k))"
| "spec_step t (CDeleteTags tags) m = (Done, untagged_view (set tags) m)"
| "spec_step t CClear m = (Done, (\<lambda>k. None))"

fun backend_step :: "'s cache_backend \<Rightarrow> seconds \<Rightarrow> cache_op \<Rightarrow> 's \<Rightarrow> cache_out \<times> 's" where
  "backend_step B t (CGet k) s = (case cb_get B t k s of (v, s') \<Rightarrow> (Value v, s'))"
| "backend_step B t (CSet k v ttl tags) s = (Done, cb_set B t k v ttl tags s)"
| "backend_step B t (CGetMany ks) s = (case cb_get_many B t ks s of (d, s') \<Rightarrow> (Values (dget d), s'))"
| "backend_step B t (CSetMany items ttl tags) s = (Done, cb_set_many B t items ttl tags s)"
| "backend_step B t (CDelete k) s = (Done, cb_delete B k s)"
| "backend_step B t (CDeleteMany ks) s = (Done, cb_delete_many B ks s)"
| "backend_step B t (CDeleteTags tags) s = (Done, cb_delete_tags B tags s)"
| "backend_step B t CClear s = (Done, cb_clear B s)"

fun answers :: "(seconds \<Rightarrow> cache_op \<Rightarrow> 's \<Rightarrow> cache_out \<times> 's) \<Rightarrow> (seconds \<times> cache_op) list \<Rightarrow> 's \<Rightarrow> cache_out list" where
  "answers f [] s = []"
| "answers f ((t, c) # cs) s = (case f t c s of (out, s') \<Rightarrow> out # answers f cs s')"

lemma value_at_alive: "value_at t m k = map_option fst (alive t m k)"
  by (simp add: value_at_def alive_def split: option.split prod.split)

lemma alive_alive: "t \<le> t' \<Longrightarrow> alive t' (alive t m) = alive t' m"
  by (auto simp: alive_def fun_eq_iff split: option.splits)

lemma alive_upd: "alive t (m(k := x)) = (alive t m)(k := alive t (\<lambda>_. x) k)"
  by (auto simp: alive_def fun_eq_iff)

lemma alive_later: "alive t m = alive t m' \<Longrightarrow> t \<le> t' \<Longrightarrow> alive t' m = alive t' m'"
  by (metis alive_alive)

lemma spec_put_Nil [simp]: "spec_put e tags [] m = m"
  by (simp add: spec_put_def)

lemma spec_put_Cons [simp]: "spec_put e tags ((k, v) # items) m = spec_put e tags items (m(k \<mapsto> (v, e, set tags)))"
  unfolding spec_put_def fold.simps comp_def prod.case ..

lemma spec_put_get: "spec_put e tags items m k = (case map_of (rev items) k of None \<Rightarrow> m k | Some v \<Rightarrow> Some (v, e, set tags))"
  by (induction items arbitrary: m) (auto simp: spec_put_def map_add_def split: option.splits)

text \<open>A step of the map depends only on the entries alive at its time.\<close>

lemma spec_step_alive:
  assumes "alive t m = alive t m'"
  shows "fst (spec_step t c m) = fst (spec_step t c m')"
    and "alive t (snd (spec_step t c m)) = alive t (snd (spec_step t c m'))"
proof -
  have v: "value_at t m k = value_at t m' k" for k using assms by (simp add: value_at_alive)
  show "fst (spec_step t c m) = fst (spec_step t c m')" by (cases c) (simp_all add: v cong: if_cong)
  have a: "alive t m k = alive t m' k" for k using assms by simp
  have put: "alive t (spec_put e tags items m) = alive t (spec_put e tags items m')" for e tags items
  proof
    fix k show "alive t (spec_put e tags items m) k = alive t (spec_put e tags items m') k"
      using a [of k] by (cases "map_of (rev items) k") (simp_all add: alive_def spec_put_get)
  qed
  have tags: "alive t (untagged_view ts m) k = untagged_view ts (alive t m) k" for ts m k
    by (auto simp: alive_def untagged_view_def split: option.splits)
  have tags': "alive t (untagged_view ts m) = alive t (untagged_view ts m')" for ts
  proof
    fix k
    have "untagged_view ts (alive t m) k = untagged_view ts (alive t m') k" by (simp add: untagged_view_def assms)
    then show "alive t (untagged_view ts m) k = alive t (untagged_view ts m') k" by (simp only: tags)
  qed
  have del: "alive t (\<lambda>k. if k \<in> A then None else m k) = alive t (\<lambda>k. if k \<in> A then None else m' k)" for A
    using a by (auto simp: alive_def fun_eq_iff)
  show "alive t (snd (spec_step t c m)) = alive t (snd (spec_step t c m'))"
    by (cases c) (simp_all add: assms alive_upd put tags' del)
qed

section \<open>The laws\<close>

locale cache_laws =
  fixes B :: "'s cache_backend"
    and inv :: "'s \<Rightarrow> bool"
    and view :: "'s \<Rightarrow> cache_spec"
  assumes get_value: "inv s \<Longrightarrow> fst (cb_get B t k s) = value_at t (view s) k"
    and get_keeps: "inv s \<Longrightarrow> inv (snd (cb_get B t k s)) \<and> alive t (view (snd (cb_get B t k s))) = alive t (view s)"
    and get_many_value: "inv s \<Longrightarrow>
      dget (fst (cb_get_many B t ks s)) k = (if k \<in> set ks then value_at t (view s) k else None)"
    and get_many_keeps: "inv s \<Longrightarrow>
      inv (snd (cb_get_many B t ks s)) \<and> alive t (view (snd (cb_get_many B t ks s))) = alive t (view s)"
    and reads_drop: "inv s \<Longrightarrow> view (snd (cb_get B t k s)) \<subseteq>\<^sub>m view s"
    and reads_many_drop: "inv s \<Longrightarrow> view (snd (cb_get_many B t ks s)) \<subseteq>\<^sub>m view s"
    and set_law: "inv s \<Longrightarrow> inv (cb_set B t k v ttl tags s) \<and>
      view (cb_set B t k v ttl tags s) = (view s)(k \<mapsto> (v, t + ttl, set tags))"
    and set_many_law: "inv s \<Longrightarrow> inv (cb_set_many B t items ttl tags s) \<and>
      view (cb_set_many B t items ttl tags s) = spec_put (t + ttl) tags items (view s)"
    and delete_law: "inv s \<Longrightarrow> inv (cb_delete B k s) \<and> view (cb_delete B k s) = (view s)(k := None)"
    and delete_many_law: "inv s \<Longrightarrow> inv (cb_delete_many B ks s) \<and>
      view (cb_delete_many B ks s) = (\<lambda>k. if k \<in> set ks then None else view s k)"
    and delete_tags_law: "inv s \<Longrightarrow> inv (cb_delete_tags B tags s) \<and>
      view (cb_delete_tags B tags s) = untagged_view (set tags) (view s)"
    and clear_law: "inv s \<Longrightarrow> inv (cb_clear B s) \<and> view (cb_clear B s) = (\<lambda>k. None)"
begin

lemma step_simulates:
  assumes "inv s"
  shows "fst (backend_step B t c s) = fst (spec_step t c (view s))"
    and "inv (snd (backend_step B t c s))"
    and "alive t (view (snd (backend_step B t c s))) = alive t (snd (spec_step t c (view s)))"
proof -
  have many: "dget (fst (cb_get_many B t ks s)) = (\<lambda>k. if k \<in> set ks then value_at t (view s) k else None)" for ks
    by (rule ext) (simp add: get_many_value assms)
  show "fst (backend_step B t c s) = fst (spec_step t c (view s))"
    by (cases c) (simp_all add: split_beta get_value many assms)
  show "inv (snd (backend_step B t c s))"
    by (cases c) (simp_all add: split_beta assms get_keeps get_many_keeps set_law set_many_law delete_law
        delete_many_law delete_tags_law clear_law)
  show "alive t (view (snd (backend_step B t c s))) = alive t (snd (spec_step t c (view s)))"
    by (cases c) (simp_all add: split_beta assms get_keeps get_many_keeps set_law set_many_law delete_law
        delete_many_law delete_tags_law clear_law)
qed

lemma answers_simulate:
  assumes "inv s" "alive t0 (view s) = alive t0 m" "sorted (t0 # map fst cs)"
  shows "answers (backend_step B) cs s = answers spec_step cs m"
  using assms
proof (induction cs arbitrary: s m t0)
  case (Cons tc cs)
  obtain t c where tc: "tc = (t, c)" by fastforce
  have eq: "alive t (view s) = alive t m" using Cons.prems(2,3) tc by (auto intro: alive_later)
  note st = step_simulates [OF Cons.prems(1), of t c]
  note sp = spec_step_alive [OF eq, of c]
  have "answers (backend_step B) cs (snd (backend_step B t c s)) = answers spec_step cs (snd (spec_step t c m))"
    using Cons.IH [OF st(2), of t "snd (spec_step t c m)"] st(3) sp(2) Cons.prems(3) tc by simp
  then show ?case using st(1) sp(1) by (simp add: tc split_beta)
qed simp

lemma answers_refine:
  assumes "inv s" "view s = m" "sorted (map fst cs)"
  shows "answers (backend_step B) cs s = answers spec_step cs m"
proof (cases cs)
  case (Cons c cs')
  have "sorted (fst c # map fst cs)" using assms(3) Cons by simp
  then show ?thesis using answers_simulate [OF assms(1)] assms(2) by metis
qed simp

end

end
