(* ===== verification/Cache_Memory.thy ===== *)
theory Cache_Memory
  imports Cache_Contract
begin

text \<open>
  The in-memory cache adapter (\<open>cache/memory.py\<close>) with its expiry on access and its two tag indexes. The
  sets of the code are lists without duplicates here. Its invariant says that the indexes agree; under it
  the adapter obeys the laws of \<open>cache_laws\<close>, so it answers what the map of entries answers.
\<close>

record memory_cache =
  mc_data :: "(key, bytes \<times> seconds) pydict"
  mc_tag_keys :: "(string, key list) pydict"
  mc_key_tags :: "(key, string list) pydict"

definition memory_cache_init :: memory_cache where
  "memory_cache_init = \<lparr>mc_data = [], mc_tag_keys = [], mc_key_tags = []\<rparr>"

section \<open>Operations\<close>

definition remove_from_tags :: "key \<Rightarrow> string list \<Rightarrow> (string, key list) pydict \<Rightarrow> (string, key list) pydict" where
  "remove_from_tags key tags tk =
     fold (\<lambda>tag tk. case dget tk tag of
             None \<Rightarrow> tk
           | Some members \<Rightarrow>
               let members' = removeAll key members
               in if members' = [] then ddel tag tk else dput tag members' tk) tags tk"

definition cache_drop :: "key \<Rightarrow> memory_cache \<Rightarrow> memory_cache" where
  "cache_drop key s =
     (let s1 = s\<lparr>mc_data := ddel key (mc_data s), mc_key_tags := ddel key (mc_key_tags s)\<rparr>
      in case dget (mc_key_tags s) key of
           None \<Rightarrow> s1
         | Some tags \<Rightarrow> s1\<lparr>mc_tag_keys := remove_from_tags key tags (mc_tag_keys s1)\<rparr>)"

definition cache_associate :: "key \<Rightarrow> string list \<Rightarrow> memory_cache \<Rightarrow> memory_cache" where
  "cache_associate key tags s =
     (let s1 = (case dget (mc_key_tags s) key of
                  None \<Rightarrow> s
                | Some old \<Rightarrow> s\<lparr>mc_key_tags := ddel key (mc_key_tags s),
                               mc_tag_keys := remove_from_tags key old (mc_tag_keys s)\<rparr>)
      in if tags = [] then s1
         else let new = remdups tags
              in s1\<lparr>mc_key_tags := dput key new (mc_key_tags s1),
                    mc_tag_keys := fold (\<lambda>tag tk. dput tag (List.insert key (dget_or tk tag [])) tk) new (mc_tag_keys s1)\<rparr>)"

definition cache_get :: "seconds \<Rightarrow> key \<Rightarrow> memory_cache \<Rightarrow> bytes option \<times> memory_cache" where
  "cache_get t key s =
     (case dget (mc_data s) key of
        None \<Rightarrow> (None, s)
      | Some (v, expiry) \<Rightarrow> if t \<ge> expiry then (None, cache_drop key s) else (Some v, s))"

definition cache_set :: "seconds \<Rightarrow> key \<Rightarrow> bytes \<Rightarrow> seconds \<Rightarrow> string list \<Rightarrow> memory_cache \<Rightarrow> memory_cache" where
  "cache_set t key v ttl tags s = cache_associate key tags (s\<lparr>mc_data := dput key (v, t + ttl) (mc_data s)\<rparr>)"

text \<open>\<open>get_many\<close> reads the clock once; a repeated key keeps its first place in the answer.\<close>

definition cache_get_many :: "seconds \<Rightarrow> key list \<Rightarrow> memory_cache \<Rightarrow> (key, bytes) pydict \<times> memory_cache" where
  "cache_get_many t ks s =
     fold (\<lambda>k (found, s). case dget (mc_data s) k of
             None \<Rightarrow> (found, s)
           | Some (v, expiry) \<Rightarrow> if t \<ge> expiry then (found, cache_drop k s) else (dput k v found, s)) ks ([], s)"

definition cache_set_many ::
  "seconds \<Rightarrow> (key \<times> bytes) list \<Rightarrow> seconds \<Rightarrow> string list \<Rightarrow> memory_cache \<Rightarrow> memory_cache"
where
  "cache_set_many t items ttl tags s = fold (\<lambda>(k, v). cache_set t k v ttl tags) items s"

definition cache_delete_many :: "key list \<Rightarrow> memory_cache \<Rightarrow> memory_cache" where
  "cache_delete_many keys s = fold cache_drop keys s"

definition cache_delete_tag :: "string \<Rightarrow> memory_cache \<Rightarrow> memory_cache" where
  "cache_delete_tag tag s =
     (case dget (mc_tag_keys s) tag of
        None \<Rightarrow> s
      | Some members \<Rightarrow>
          let s1 = cache_delete_many members s in s1\<lparr>mc_tag_keys := ddel tag (mc_tag_keys s1)\<rparr>)"

definition cache_delete_tags :: "string list \<Rightarrow> memory_cache \<Rightarrow> memory_cache" where
  "cache_delete_tags tags s = fold cache_delete_tag tags s"

definition cache_delete :: "key \<Rightarrow> memory_cache \<Rightarrow> memory_cache" where
  "cache_delete key s = cache_drop key s"

definition cache_clear :: "memory_cache \<Rightarrow> memory_cache" where
  "cache_clear s = s\<lparr>mc_data := [], mc_tag_keys := [], mc_key_tags := []\<rparr>"

section \<open>Invariant and abstraction\<close>

definition tags_of :: "memory_cache \<Rightarrow> key \<Rightarrow> string set" where
  "tags_of s k = set (dget_or (mc_key_tags s) k [])"

definition members_of :: "(string, key list) pydict \<Rightarrow> string \<Rightarrow> key set" where
  "members_of tk tag = set (dget_or tk tag [])"

text \<open>The two indexes agree, hold no empty entry, and only keys that are stored have tags.\<close>

definition cache_inv :: "memory_cache \<Rightarrow> bool" where
  "cache_inv s \<longleftrightarrow> dwf (mc_data s) \<and> dwf (mc_tag_keys s) \<and> dwf (mc_key_tags s) \<and>
     (\<forall>k ts. dget (mc_key_tags s) k = Some ts \<longrightarrow> ts \<noteq> [] \<and> dget (mc_data s) k \<noteq> None) \<and>
     (\<forall>tag ms. dget (mc_tag_keys s) tag = Some ms \<longrightarrow> ms \<noteq> []) \<and>
     (\<forall>k tag. k \<in> members_of (mc_tag_keys s) tag \<longleftrightarrow> tag \<in> tags_of s k)"

definition cache_abs :: "memory_cache \<Rightarrow> cache_spec" where
  "cache_abs s k = map_option (\<lambda>(v, e). (v, e, tags_of s k)) (dget (mc_data s) k)"

lemma members_remove:
  "members_of (remove_from_tags key tags tk) tag =
     (if tag \<in> set tags then members_of tk tag - {key} else members_of tk tag)"
proof (induction tags arbitrary: tk)
  case (Cons x tags)
  then show ?case
    by (auto simp: remove_from_tags_def members_of_def dget_or_def Let_def removeAll_filter_not_eq filter_empty_conv
        split: option.splits if_splits)
qed (simp add: remove_from_tags_def)

lemma remove_wf:
  "dwf tk \<and> (\<forall>tag ms. dget tk tag = Some ms \<longrightarrow> ms \<noteq> []) \<Longrightarrow>
   dwf (remove_from_tags key tags tk) \<and> (\<forall>tag ms. dget (remove_from_tags key tags tk) tag = Some ms \<longrightarrow> ms \<noteq> [])"
proof (induction tags arbitrary: tk)
  case (Cons x tags)
  let ?tk = "case dget tk x of None \<Rightarrow> tk | Some members \<Rightarrow>
      let members' = removeAll key members in if members' = [] then ddel x tk else dput x members' tk"
  have "dwf ?tk \<and> (\<forall>tag ms. dget ?tk tag = Some ms \<longrightarrow> ms \<noteq> [])"
    using Cons.prems by (auto simp: Let_def pd.wf_put pd.wf_del split: option.splits)
  from Cons.IH [OF this] show ?case by (simp add: remove_from_tags_def)
qed (simp add: remove_from_tags_def)

lemma members_add:
  "members_of (fold (\<lambda>tag tk. dput tag (List.insert key (dget_or tk tag [])) tk) new tk) tag =
     (if tag \<in> set new then insert key (members_of tk tag) else members_of tk tag)"
proof (induction new arbitrary: tk)
  case (Cons x new)
  then show ?case by (auto simp: members_of_def)
qed simp

lemma add_wf:
  "dwf tk \<and> (\<forall>tag ms. dget tk tag = Some ms \<longrightarrow> ms \<noteq> []) \<Longrightarrow>
   (let tk' = fold (\<lambda>tag tk. dput tag (List.insert key (dget_or tk tag [])) tk) new tk
    in dwf tk' \<and> (\<forall>tag ms. dget tk' tag = Some ms \<longrightarrow> ms \<noteq> []))"
proof (induction new arbitrary: tk)
  case (Cons x new)
  have "List.insert key xs \<noteq> []" for xs by (auto simp: List.insert_def)
  then have "dwf (dput x (List.insert key (dget_or tk x [])) tk) \<and>
      (\<forall>tag ms. dget (dput x (List.insert key (dget_or tk x [])) tk) tag = Some ms \<longrightarrow> ms \<noteq> [])"
    using Cons.prems by (auto simp: pd.wf_put)
  from Cons.IH [OF this] show ?case by simp
qed simp

text \<open>Untagging a key: what \<open>_drop\<close> and \<open>_associate\<close> begin with.\<close>

definition untag :: "key \<Rightarrow> memory_cache \<Rightarrow> memory_cache" where
  "untag key s = s\<lparr>mc_key_tags := ddel key (mc_key_tags s),
     mc_tag_keys := remove_from_tags key (dget_or (mc_key_tags s) key []) (mc_tag_keys s)\<rparr>"

lemma untag_none: "dget (mc_key_tags s) key = None \<Longrightarrow> untag key s = s"
  by (simp add: untag_def remove_from_tags_def dget_or_None ddel_none)

lemma cache_drop_untag: "cache_drop key s = (untag key s)\<lparr>mc_data := ddel key (mc_data s)\<rparr>"
proof (cases "dget (mc_key_tags s) key")
  case None
  with untag_none [OF None] show ?thesis
    by (simp add: cache_drop_def ddel_none)
qed (simp add: cache_drop_def untag_def dget_or_def)

lemma cache_associate_untag:
  "cache_associate key tags s =
     (let s1 = untag key s
      in if tags = [] then s1
         else s1\<lparr>mc_key_tags := dput key (remdups tags) (mc_key_tags s1),
                 mc_tag_keys := fold (\<lambda>tag tk. dput tag (List.insert key (dget_or tk tag [])) tk) (remdups tags) (mc_tag_keys s1)\<rparr>)"
proof (cases "dget (mc_key_tags s) key")
  case None
  with untag_none [OF None] show ?thesis by (simp add: cache_associate_def Let_def)
qed (simp add: cache_associate_def untag_def dget_or_def Let_def)

lemma untag_inv:
  assumes "cache_inv s"
  shows "cache_inv (untag key s)" "tags_of (untag key s) k = (if k = key then {} else tags_of s k)"
    "mc_data (untag key s) = mc_data s"
proof -
  have wf: "dwf (mc_tag_keys s) \<and> (\<forall>tag ms. dget (mc_tag_keys s) tag = Some ms \<longrightarrow> ms \<noteq> [])"
    using assms by (simp add: cache_inv_def)
  show tags: "tags_of (untag key s) k = (if k = key then {} else tags_of s k)" for k
    by (simp add: tags_of_def untag_def)
  show "mc_data (untag key s) = mc_data s" by (simp add: untag_def)
  have "k \<in> members_of (mc_tag_keys (untag key s)) tag \<longleftrightarrow> tag \<in> tags_of (untag key s) k" for k tag
    using assms unfolding tags by (auto simp: untag_def members_remove cache_inv_def tags_of_def)
  then show "cache_inv (untag key s)"
    using assms remove_wf [OF wf, of key "dget_or (mc_key_tags s) key []"]
    by (auto simp: cache_inv_def untag_def pd.wf_del split: if_splits)
qed

lemma drop_refines:
  assumes "cache_inv s"
  shows "cache_inv (cache_drop key s)" "cache_abs (cache_drop key s) = (cache_abs s)(key := None)"
proof -
  note u = untag_inv [OF assms, of key]
  have "tags_of (cache_drop key s) k = (if k = key then {} else tags_of s k)" for k
    using u(2) by (simp add: cache_drop_untag tags_of_def)
  then show "cache_abs (cache_drop key s) = (cache_abs s)(key := None)"
    by (auto simp: cache_abs_def cache_drop_untag fun_eq_iff map_option_case split: option.splits)
  have "dget (mc_key_tags (untag key s)) key = None" by (simp add: untag_def)
  then show "cache_inv (cache_drop key s)"
    using u(1,3) by (auto simp: cache_inv_def cache_drop_untag tags_of_def pd.wf_del split: if_splits)
qed

lemma associate_refines:
  assumes "cache_inv s" "dget (mc_data s) key \<noteq> None"
  shows "cache_inv (cache_associate key tags s)" "mc_data (cache_associate key tags s) = mc_data s"
    "tags_of (cache_associate key tags s) k = (if k = key then set tags else tags_of s k)"
proof -
  let ?u = "untag key s"
  note u = untag_inv [OF assms(1), of key]
  show d: "mc_data (cache_associate key tags s) = mc_data s" using u(3) by (simp add: cache_associate_untag Let_def)
  show tg: "tags_of (cache_associate key tags s) k = (if k = key then set tags else tags_of s k)" for k
    using u(2) [of k] by (auto simp: cache_associate_untag Let_def tags_of_def)
  have wf: "dwf (mc_tag_keys ?u) \<and> (\<forall>tag ms. dget (mc_tag_keys ?u) tag = Some ms \<longrightarrow> ms \<noteq> [])"
    using u(1) by (simp add: cache_inv_def)
  have mem: "k \<in> members_of (mc_tag_keys (cache_associate key tags s)) tag \<longleftrightarrow> tag \<in> tags_of (cache_associate key tags s) k"
    for k tag
  proof -
    have "k \<in> members_of (mc_tag_keys ?u) tag \<longleftrightarrow> tag \<in> tags_of ?u k" using u(1) by (simp add: cache_inv_def)
    then show ?thesis unfolding tg using u(2) [of k] by (auto simp: cache_associate_untag Let_def members_add)
  qed
  show "cache_inv (cache_associate key tags s)"
  proof (cases "tags = []")
    case True
    then show ?thesis using u(1) by (simp add: cache_associate_untag Let_def)
  next
    case False
    then have "remdups tags \<noteq> []" by simp
    with False u(1,3) assms(2) mem add_wf [OF wf, of key "remdups tags"] show ?thesis
      unfolding cache_inv_def by (auto simp: cache_associate_untag Let_def pd.wf_put split: if_splits)
  qed
qed

lemma set_refines:
  assumes "cache_inv s"
  shows "cache_inv (cache_set t key v ttl tags s)"
    "cache_abs (cache_set t key v ttl tags s) = (cache_abs s)(key \<mapsto> (v, t + ttl, set tags))"
proof -
  let ?s = "s\<lparr>mc_data := dput key (v, t + ttl) (mc_data s)\<rparr>"
  have inv: "cache_inv ?s" using assms by (auto simp: cache_inv_def pd.wf_put tags_of_def)
  have d: "dget (mc_data ?s) key \<noteq> None" by simp
  note a = associate_refines [OF inv d, of tags]
  show "cache_inv (cache_set t key v ttl tags s)" using a(1) by (simp add: cache_set_def)
  have "tags_of ?s k = tags_of s k" for k by (simp add: tags_of_def)
  then show "cache_abs (cache_set t key v ttl tags s) = (cache_abs s)(key \<mapsto> (v, t + ttl, set tags))"
    using a(2,3) by (auto simp: cache_abs_def cache_set_def fun_eq_iff)
qed

lemma delete_many_refines:
  "cache_inv s \<Longrightarrow> cache_inv (cache_delete_many keys s) \<and>
     cache_abs (cache_delete_many keys s) = (\<lambda>k. if k \<in> set keys then None else cache_abs s k)"
proof (induction keys arbitrary: s)
  case (Cons k ks)
  from Cons.IH [OF drop_refines(1) [OF Cons.prems, of k]] drop_refines(2) [OF Cons.prems, of k]
  show ?case by (auto simp: cache_delete_many_def)
qed (simp add: cache_delete_many_def)

lemma abs_tags: "cache_inv s \<Longrightarrow> cache_abs s k = None \<Longrightarrow> tags_of s k = {}"
proof (cases "dget (mc_key_tags s) k")
  case None
  then show ?thesis by (simp add: tags_of_def dget_or_None)
next
  case (Some ts)
  then have "dget (mc_data s) k \<noteq> None" if "cache_inv s" using that unfolding cache_inv_def by blast
  then show "tags_of s k = {}" if "cache_inv s" "cache_abs s k = None" using that by (simp add: cache_abs_def)
qed

text \<open>The members of a tag are the keys whose last write carried it.\<close>

lemma delete_tag_refines:
  assumes "cache_inv s"
  shows "cache_inv (cache_delete_tag tag s) \<and> cache_abs (cache_delete_tag tag s) = untagged_view {tag} (cache_abs s)"
proof (cases "dget (mc_tag_keys s) tag")
  case None
  then have "members_of (mc_tag_keys s) tag = {}" by (simp add: members_of_def dget_or_None)
  then have "tag \<notin> tags_of s k" for k using assms by (auto simp: cache_inv_def)
  with None assms show ?thesis
    by (auto simp: cache_delete_tag_def untagged_view_def cache_abs_def fun_eq_iff split: option.splits)
next
  case (Some ms)
  let ?s = "cache_delete_many ms s"
  have mem: "k \<in> set ms \<longleftrightarrow> tag \<in> tags_of s k" for k
  proof -
    have "members_of (mc_tag_keys s) tag = set ms" using Some by (simp add: members_of_def dget_or_Some)
    then show ?thesis using assms by (auto simp: cache_inv_def)
  qed
  have d: "cache_inv ?s" "cache_abs ?s = (\<lambda>k. if k \<in> set ms then None else cache_abs s k)"
    using delete_many_refines [OF assms] by simp_all
  have "tag \<notin> tags_of ?s k" for k
  proof (cases "k \<in> set ms")
    case True
    then show ?thesis using abs_tags [OF d(1), of k] d(2) by simp
  next
    case False
    have "tags_of ?s k = tags_of s k \<or> tags_of ?s k = {}"
      using fun_cong [OF d(2), of k] False abs_tags [OF d(1), of k]
      by (cases "cache_abs s k") (auto simp: cache_abs_def)
    with False mem show ?thesis by blast
  qed
  then have "members_of (mc_tag_keys ?s) tag = {}" using d(1) by (auto simp: cache_inv_def)
  then have "dget (mc_tag_keys ?s) tag = None"
    using d(1) by (cases "dget (mc_tag_keys ?s) tag") (auto simp: members_of_def dget_or_Some cache_inv_def)
  then have same: "cache_delete_tag tag s = ?s"
    using Some by (simp add: cache_delete_tag_def Let_def ddel_none)
  show ?thesis unfolding same using d mem
    by (auto simp: untagged_view_def cache_abs_def fun_eq_iff split: option.splits)
qed

lemma delete_tags_refines:
  "cache_inv s \<Longrightarrow> cache_inv (cache_delete_tags tags s) \<and>
     cache_abs (cache_delete_tags tags s) = untagged_view (set tags) (cache_abs s)"
proof (induction tags arbitrary: s)
  case Nil
  then show ?case by (auto simp: cache_delete_tags_def untagged_view_def fun_eq_iff split: option.splits)
next
  case (Cons tag tags)
  from Cons.IH [OF conjunct1 [OF delete_tag_refines [OF Cons.prems, of tag]]]
    conjunct2 [OF delete_tag_refines [OF Cons.prems, of tag]]
  show ?case by (auto simp: cache_delete_tags_def untagged_view_def fun_eq_iff split: option.splits)
qed

lemma clear_refines: "cache_inv (cache_clear s) \<and> cache_abs (cache_clear s) = Map.empty"
  by (simp add: cache_clear_def cache_inv_def cache_abs_def fun_eq_iff members_of_def tags_of_def)

lemma memory_cache_init_inv: "cache_inv memory_cache_init" "cache_abs memory_cache_init = Map.empty"
  by (simp_all add: memory_cache_init_def cache_inv_def cache_abs_def fun_eq_iff members_of_def tags_of_def)

section \<open>The contract\<close>

definition MemoryCacheAdapter :: "memory_cache cache_backend" where
  "MemoryCacheAdapter =
     \<lparr>cb_get = cache_get, cb_set = cache_set, cb_get_many = cache_get_many, cb_set_many = cache_set_many,
      cb_delete = cache_delete, cb_delete_many = cache_delete_many, cb_delete_tags = cache_delete_tags,
      cb_clear = cache_clear\<rparr>"

lemma alive_forget: "(\<And>v e ts. m k = Some (v, e, ts) \<Longrightarrow> e \<le> t) \<Longrightarrow> alive t (m(k := None)) = alive t m"
  by (fastforce simp: alive_def fun_eq_iff split: option.split)

lemma cache_get_refines:
  assumes "cache_inv s"
  shows "fst (cache_get t k s) = value_at t (cache_abs s) k"
    and "cache_inv (snd (cache_get t k s)) \<and> alive t (cache_abs (snd (cache_get t k s))) = alive t (cache_abs s)"
proof -
  show "fst (cache_get t k s) = value_at t (cache_abs s) k"
    by (auto simp: cache_get_def value_at_def cache_abs_def split: option.split)
  have "alive t ((cache_abs s)(k := None)) = alive t (cache_abs s)" if "dget (mc_data s) k = Some (v, e)" "e \<le> t" for v e
    using that by (intro alive_forget) (auto simp: cache_abs_def)
  then show "cache_inv (snd (cache_get t k s)) \<and> alive t (cache_abs (snd (cache_get t k s))) = alive t (cache_abs s)"
    using assms drop_refines [OF assms, of k] by (auto simp: cache_get_def split: option.split)
qed

lemma cache_get_many_step:
  "cache_get_many t ks s =
     fold (\<lambda>k (found, s). case cache_get t k s of (None, s') \<Rightarrow> (found, s') | (Some v, s') \<Rightarrow> (dput k v found, s')) ks ([], s)"
  unfolding cache_get_many_def
  by (intro arg_cong [where f = "\<lambda>f. fold f ks ([], s)"] ext) (auto simp: cache_get_def split: option.split)

lemma cache_get_drops: "cache_inv s \<Longrightarrow> cache_abs (snd (cache_get t k s)) \<subseteq>\<^sub>m cache_abs s"
  by (auto simp: cache_get_def drop_refines map_le_def split: option.split)

lemma get_many_fold:
  fixes t :: seconds
  assumes "cache_inv s"
  defines "f \<equiv> \<lambda>k (found, s). case cache_get t k s of (None, s') \<Rightarrow> (found, s') | (Some v, s') \<Rightarrow> (dput k v found, s')"
  shows "cache_inv (snd (fold f ks (d, s))) \<and> cache_abs (snd (fold f ks (d, s))) \<subseteq>\<^sub>m cache_abs s \<and> alive t (cache_abs (snd (fold f ks (d, s)))) = alive t (cache_abs s) \<and>
    dget (fst (fold f ks (d, s))) = (\<lambda>k. if k \<in> set ks \<and> value_at t (cache_abs s) k \<noteq> None
                                        then value_at t (cache_abs s) k else dget d k)"
  using assms(1)
proof (induction ks arbitrary: d s)
  case (Cons k ks)
  define s' where "s' = snd (cache_get t k s)"
  define d' where "d' = (case value_at t (cache_abs s) k of None \<Rightarrow> d | Some v \<Rightarrow> dput k v d)"
  note g = cache_get_refines [OF Cons.prems, of t k]
  have st: "f k (d, s) = (d', s')"
    using g(1) unfolding f_def d'_def s'_def by (auto simp: split_beta split: option.split prod.split)
  have inv: "cache_inv s'" "alive t (cache_abs s') = alive t (cache_abs s)" using g(2) by (simp_all add: s'_def)
  have v: "value_at t (cache_abs s') j = value_at t (cache_abs s) j" for j using inv(2) by (simp add: value_at_alive)
  have "cache_abs s' \<subseteq>\<^sub>m cache_abs s" using cache_get_drops [OF Cons.prems] by (simp add: s'_def)
  then show ?case using Cons.IH [OF inv(1), of d'] inv(2)
    by (auto simp: st v d'_def fun_eq_iff split: option.split intro: map_le_trans)
qed simp

lemma cache_get_many_refines:
  assumes "cache_inv s"
  shows "dget (fst (cache_get_many t ks s)) k = (if k \<in> set ks then value_at t (cache_abs s) k else None)"
    and "cache_inv (snd (cache_get_many t ks s)) \<and>
      alive t (cache_abs (snd (cache_get_many t ks s))) = alive t (cache_abs s)"
    and "cache_abs (snd (cache_get_many t ks s)) \<subseteq>\<^sub>m cache_abs s"
  using get_many_fold [OF assms, of t ks "[]"] by (auto simp: cache_get_many_step)

lemma cache_set_many_refines:
  assumes "cache_inv s"
  shows "cache_inv (cache_set_many t items ttl tags s) \<and>
    cache_abs (cache_set_many t items ttl tags s) = spec_put (t + ttl) tags items (cache_abs s)"
  using assms
proof (induction items arbitrary: s)
  case (Cons kv items)
  obtain k v where kv: "kv = (k, v)" by fastforce
  show ?case using Cons.IH [OF set_refines(1) [OF Cons.prems, of t k v ttl tags]]
      set_refines(2) [OF Cons.prems, of t k v ttl tags]
    by (simp add: cache_set_many_def kv del: fun_upd_apply)
qed (simp add: cache_set_many_def)

interpretation mc: cache_laws MemoryCacheAdapter cache_inv cache_abs
  by unfold_locales
    (simp_all add: MemoryCacheAdapter_def cache_get_drops cache_get_refines cache_get_many_refines set_refines cache_set_many_refines
      cache_delete_def drop_refines delete_many_refines delete_tags_refines clear_refines)

text \<open>
  C1. The in-memory cache refines a map from keys to a value with the end of its life and the tags of its
  last write: calls made in the order of their clock readings on a fresh adapter answer exactly what the map
  answers, although the adapter drops entries only when a read finds them over and keeps its tags in two
  indexes. An entry is found up to, not at, the end of its time to live; an overwrite replaces the tags.
\<close>

theorem memory_cache_refines_map:
  assumes "sorted (map fst calls)"
  shows "answers (backend_step MemoryCacheAdapter) calls memory_cache_init = answers spec_step calls Map.empty"
  using assms by (intro mc.answers_refine) (simp_all add: memory_cache_init_inv)

theorem memory_cache_refines_map_witness:
  "answers (backend_step MemoryCacheAdapter)
     [(0, CSet ''a'' ''1'' 10 [''t'']), (1, CSet ''b'' ''2'' 10 [''t'']), (2, CSet ''b'' ''3'' 10 []),
      (3, CDeleteTags [''t'']), (4, CGet ''a''), (5, CGet ''b''), (12, CGet ''b'')] memory_cache_init =
   [Done, Done, Done, Done, Value None, Value (Some ''3''), Value None]"
proof -
  let ?calls = "[(0, CSet ''a'' ''1'' 10 [''t'']), (1, CSet ''b'' ''2'' 10 [''t'']), (2, CSet ''b'' ''3'' 10 []),
      (3, CDeleteTags [''t'']), (4, CGet ''a''), (5, CGet ''b''), (12, CGet ''b'')] :: (seconds \<times> cache_op) list"
  have "sorted (map fst ?calls)" by simp
  from memory_cache_refines_map [OF this] show ?thesis
    by (simp add: value_at_def untagged_view_def)
qed

end
