(* ===== verification/Sql_Cache.thy ===== *)
theory Sql_Cache
  imports Cache_Contract "HOL-Library.Sublist"
begin

text \<open>
  The cache adapters on SQLite (\<open>cache/sqlite.py\<close>) and Postgres (\<open>cache/postgres.py\<close>): a table of entries, a
  table of tags whose rows go with the entry they refer to (\<open>ON DELETE CASCADE\<close>), one transaction per call.
  Keys carry the prefix of the adapter. \<open>LIKE\<close> is modelled with its wildcards and its escape, because
  \<open>clear\<close> deletes what matches the escaped prefix followed by a wildcard: case matters to Postgres and does
  not to SQLite. Both adapters obey the laws of the contract under every prefix; what they do to the
  entries of another prefix in the same table is shown by two further lemmas.
\<close>

record cache_tables =
  ct_rows :: "(key, bytes \<times> real) pydict"
  ct_tags :: "(key \<times> string) list"

definition cache_tables_init :: cache_tables where
  "cache_tables_init = \<lparr>ct_rows = [], ct_tags = []\<rparr>"

section \<open>Statements\<close>

definition sql_cache_get :: "real \<Rightarrow> key \<Rightarrow> cache_tables \<Rightarrow> bytes option" where
  "sql_cache_get now k tb =
     (case dget (ct_rows tb) k of None \<Rightarrow> None | Some (v, e) \<Rightarrow> if now < e then Some v else None)"

definition sql_cache_upsert :: "key \<Rightarrow> bytes \<Rightarrow> real \<Rightarrow> cache_tables \<Rightarrow> cache_tables" where
  "sql_cache_upsert k v e tb = tb\<lparr>ct_rows := dput k (v, e) (ct_rows tb)\<rparr>"

definition sql_delete_tags_of_key :: "key \<Rightarrow> cache_tables \<Rightarrow> cache_tables" where
  "sql_delete_tags_of_key k tb = tb\<lparr>ct_tags := filter (\<lambda>r. fst r \<noteq> k) (ct_tags tb)\<rparr>"

text \<open>\<open>ON CONFLICT (key, tag) DO NOTHING\<close>.\<close>

definition sql_insert_tag :: "key \<Rightarrow> string \<Rightarrow> cache_tables \<Rightarrow> cache_tables" where
  "sql_insert_tag k tag tb = tb\<lparr>ct_tags := List.insert (k, tag) (ct_tags tb)\<rparr>"

text \<open>A delete of entries takes the tag rows that refer to them along.\<close>

definition sql_delete_where :: "(key \<Rightarrow> bool) \<Rightarrow> cache_tables \<Rightarrow> cache_tables" where
  "sql_delete_where P tb =
     tb\<lparr>ct_rows := filter (\<lambda>r. \<not> P (fst r)) (ct_rows tb),
        ct_tags := filter (\<lambda>r. \<not> (P (fst r) \<and> fst r \<in> fst ` set (ct_rows tb))) (ct_tags tb)\<rparr>"

text \<open>
  \<open>LIKE\<close> with \<open>%\<close>, \<open>_\<close> and the escape character \<open>\\<close>; \<open>same\<close> compares two characters.
\<close>

function like :: "(char \<Rightarrow> char \<Rightarrow> bool) \<Rightarrow> string \<Rightarrow> string \<Rightarrow> bool" where
  "like same [] s = (s = [])"
| "like same (c # p) s =
     (if c = CHR ''%'' then
        like same p s \<or> (case s of [] \<Rightarrow> False | x # s' \<Rightarrow> like same (c # p) s')
      else if c = CHR ''_'' then (case s of [] \<Rightarrow> False | x # s' \<Rightarrow> like same p s')
      else if c = CHR 0x5C then
        (case p of [] \<Rightarrow> False
         | d # p' \<Rightarrow> (case s of [] \<Rightarrow> False | x # s' \<Rightarrow> same d x \<and> like same p' s'))
      else (case s of [] \<Rightarrow> False | x # s' \<Rightarrow> same c x \<and> like same p s'))"
  by pat_completeness auto
termination by (relation "measure (\<lambda>(same, p, s). length p + length s)") auto

definition lower :: "char \<Rightarrow> char" where
  "lower c = (let n = of_char c :: nat in if 65 \<le> n \<and> n \<le> 90 then char_of (n + 32) else c)"

text \<open>\<open>LIKE\<close> of SQLite takes upper and lower case of the ASCII letters as the same; Postgres does not.\<close>

definition same_letter :: "char \<Rightarrow> char \<Rightarrow> bool" where
  "same_letter c d \<longleftrightarrow> lower c = lower d"

text \<open>\<open>str.replace\<close> of one character by a text.\<close>

definition replace_char :: "char \<Rightarrow> string \<Rightarrow> string \<Rightarrow> string" where
  "replace_char c w s = concat (map (\<lambda>x. if x = c then w else [x]) s)"

definition escape_like :: "string \<Rightarrow> string" where
  "escape_like v =
     replace_char CHR ''_'' [CHR 0x5C, CHR ''_'']
       (replace_char CHR ''%'' [CHR 0x5C, CHR ''%''] (replace_char CHR 0x5C [CHR 0x5C, CHR 0x5C] v))"

section \<open>Adapters\<close>

definition sql_cache_put :: "string \<Rightarrow> key \<Rightarrow> bytes \<Rightarrow> real \<Rightarrow> string list \<Rightarrow> cache_tables \<Rightarrow> cache_tables" where
  "sql_cache_put pre key v e tags tb =
     (let full_key = pre @ key;
          tb1 = sql_delete_tags_of_key full_key (sql_cache_upsert full_key v e tb)
      in fold (sql_insert_tag full_key) tags tb1)"

definition sql_cache_set :: "string \<Rightarrow> seconds \<Rightarrow> key \<Rightarrow> bytes \<Rightarrow> seconds \<Rightarrow> string list \<Rightarrow> cache_tables \<Rightarrow> cache_tables" where
  "sql_cache_set pre t key v ttl tags tb = sql_cache_put pre key v (t + ttl) tags tb"

definition sql_cache_set_many ::
  "string \<Rightarrow> seconds \<Rightarrow> (key, bytes) pydict \<Rightarrow> seconds \<Rightarrow> string list \<Rightarrow> cache_tables \<Rightarrow> cache_tables"
where
  "sql_cache_set_many pre t items ttl tags tb =
     (if items = [] then tb else fold (\<lambda>(key, v). sql_cache_put pre key v (t + ttl) tags) items tb)"

text \<open>\<open>SELECT key, value ... WHERE key IN (...)\<close>; the prefix is cut off the keys of the answer.\<close>

definition sql_cache_get_many :: "string \<Rightarrow> seconds \<Rightarrow> key list \<Rightarrow> cache_tables \<Rightarrow> (key, bytes) pydict" where
  "sql_cache_get_many pre t keys tb =
     (if keys = [] then []
      else let full_keys = map ((@) pre) keys;
               rows = filter (\<lambda>(k, v, e). k \<in> set full_keys \<and> t < e) (ct_rows tb)
           in fold (\<lambda>(k, v, e) d. dput (drop (length pre) k) v d) rows [])"

definition sql_cache_delete :: "string \<Rightarrow> key \<Rightarrow> cache_tables \<Rightarrow> cache_tables" where
  "sql_cache_delete pre key tb = sql_delete_where (\<lambda>k. k = pre @ key) tb"

definition sql_cache_delete_many :: "string \<Rightarrow> key list \<Rightarrow> cache_tables \<Rightarrow> cache_tables" where
  "sql_cache_delete_many pre keys tb =
     (if keys = [] then tb else sql_delete_where (\<lambda>k. k \<in> set (map ((@) pre) keys)) tb)"

text \<open>One statement per tag in a transaction on SQLite, one statement with \<open>ANY\<close> on Postgres.\<close>

definition sqlite_cache_delete_tags :: "string list \<Rightarrow> cache_tables \<Rightarrow> cache_tables" where
  "sqlite_cache_delete_tags tags tb =
     fold (\<lambda>tag tb. sql_delete_where (\<lambda>k. (k, tag) \<in> set (ct_tags tb)) tb) tags tb"

definition postgres_cache_delete_tags :: "string list \<Rightarrow> cache_tables \<Rightarrow> cache_tables" where
  "postgres_cache_delete_tags tags tb =
     (if tags = [] then tb else sql_delete_where (\<lambda>k. \<exists>r\<in>set (ct_tags tb). fst r = k \<and> snd r \<in> set tags) tb)"

definition sql_cache_clear :: "(char \<Rightarrow> char \<Rightarrow> bool) \<Rightarrow> string \<Rightarrow> cache_tables \<Rightarrow> cache_tables" where
  "sql_cache_clear same pre tb =
     (if pre \<noteq> [] then sql_delete_where (like same (escape_like pre @ ''%'')) tb
      else sql_delete_where (\<lambda>k. True) tb)"

text \<open>
  One pass of the janitor: at most \<open>_JANITOR_LIMIT\<close> of the entries that ended more than an hour ago, here
  in the order of the table.
\<close>

definition JANITOR_LIMIT :: nat where
  "JANITOR_LIMIT = 1000"

definition sql_cache_janitor :: "seconds \<Rightarrow> cache_tables \<Rightarrow> cache_tables" where
  "sql_cache_janitor t tb =
     (let old = take JANITOR_LIMIT (map fst (filter (\<lambda>(k, v, e). e < t - 3600) (ct_rows tb)))
      in sql_delete_where (\<lambda>k. k \<in> set old) tb)"

definition SQLiteCacheAdapter :: "string \<Rightarrow> cache_tables cache_backend" where
  "SQLiteCacheAdapter pre =
     \<lparr>cb_get = \<lambda>t k tb. (sql_cache_get t (pre @ k) tb, tb), cb_set = sql_cache_set pre,
      cb_get_many = \<lambda>t ks tb. (sql_cache_get_many pre t ks tb, tb), cb_set_many = sql_cache_set_many pre,
      cb_delete = sql_cache_delete pre, cb_delete_many = sql_cache_delete_many pre,
      cb_delete_tags = sqlite_cache_delete_tags, cb_clear = sql_cache_clear same_letter pre\<rparr>"

definition PostgresCacheAdapter :: "string \<Rightarrow> cache_tables cache_backend" where
  "PostgresCacheAdapter pre =
     \<lparr>cb_get = \<lambda>t k tb. (sql_cache_get t (pre @ k) tb, tb), cb_set = sql_cache_set pre,
      cb_get_many = \<lambda>t ks tb. (sql_cache_get_many pre t ks tb, tb), cb_set_many = sql_cache_set_many pre,
      cb_delete = sql_cache_delete pre, cb_delete_many = sql_cache_delete_many pre,
      cb_delete_tags = postgres_cache_delete_tags, cb_clear = sql_cache_clear (=) pre\<rparr>"

section \<open>The pattern of a prefix\<close>

definition escape1 :: "char \<Rightarrow> string" where
  "escape1 c = (if c \<in> {CHR 0x5C, CHR ''%'', CHR ''_''} then [CHR 0x5C, c] else [c])"

lemma escape_like_map: "escape_like v = concat (map escape1 v)"
  by (induction v) (auto simp: escape_like_def replace_char_def escape1_def)

lemma like_escape1: "like same (escape1 c @ p) s = (case s of [] \<Rightarrow> False | x # s' \<Rightarrow> same c x \<and> like same p s')"
  by (simp add: escape1_def split: list.split)

lemma like_any: "like same ''%'' s"
  by (induction s) simp_all

lemma like_prefix:
  "like same (escape_like p @ ''%'') k \<longleftrightarrow> length p \<le> length k \<and> list_all2 same p (take (length p) k)"
  unfolding escape_like_map
proof (induction p arbitrary: k)
  case (Cons c p)
  show ?case
    using Cons.IH by (cases k) (auto simp: like_escape1 simp del: like.simps)
qed (simp add: like_any del: like.simps)

lemma like_escaped_prefix: "like (=) (escape_like p @ ''%'') k \<longleftrightarrow> prefix p k"
  unfolding like_prefix list.rel_eq
  by (metis append_eq_conv_conj append_take_drop_id length_take min.absorb2 prefix_def prefix_length_le)

lemma like_own_prefix: "(\<And>c. same c c) \<Longrightarrow> like same (escape_like p @ ''%'') (p @ k)"
  by (simp add: like_prefix list_all2_refl)

section \<open>Laws\<close>

definition cache_tables_inv :: "cache_tables \<Rightarrow> bool" where
  "cache_tables_inv tb \<longleftrightarrow> dwf (ct_rows tb) \<and> fst ` set (ct_tags tb) \<subseteq> fst ` set (ct_rows tb)"

definition row_tags :: "cache_tables \<Rightarrow> key \<Rightarrow> string set" where
  "row_tags tb k = {tag. (k, tag) \<in> set (ct_tags tb)}"

definition cache_view :: "string \<Rightarrow> cache_tables \<Rightarrow> cache_spec" where
  "cache_view p tb k = map_option (\<lambda>(v, e). (v, e, row_tags tb (p @ k))) (dget (ct_rows tb) (p @ k))"

lemma dget_keys: "fst ` set d = {k. dget d k \<noteq> None}"
  by (auto simp: map_of_eq_None_iff)

lemma delete_where_law:
  assumes "cache_tables_inv tb"
  shows "cache_tables_inv (sql_delete_where P tb) \<and>
    cache_view p (sql_delete_where P tb) = (\<lambda>k. if P (p @ k) then None else cache_view p tb k)"
proof
  have keys: "fst ` set (ct_tags tb) \<subseteq> fst ` set (ct_rows tb)" using assms by (simp add: cache_tables_inv_def)
  show "cache_tables_inv (sql_delete_where P tb)"
  proof -
    have "x \<in> fst ` set (ct_rows (sql_delete_where P tb))" if "x \<in> fst ` set (ct_tags (sql_delete_where P tb))" for x
    proof -
      from that obtain tag where r: "(x, tag) \<in> set (ct_tags tb)" "\<not> (P x \<and> x \<in> fst ` set (ct_rows tb))"
        by (auto simp: sql_delete_where_def)
      with keys have "x \<in> fst ` set (ct_rows tb)" by force
      with r(2) show ?thesis by (auto simp: sql_delete_where_def)
    qed
    moreover have "dwf (ct_rows (sql_delete_where P tb))"
      using assms by (simp add: cache_tables_inv_def sql_delete_where_def dwf_def distinct_map_filter)
    ultimately show ?thesis by (auto simp: cache_tables_inv_def)
  qed
  show "cache_view p (sql_delete_where P tb) = (\<lambda>k. if P (p @ k) then None else cache_view p tb k)"
    by (auto simp: cache_view_def sql_delete_where_def dget_filter_fst [of "\<lambda>k. \<not> P k"] row_tags_def fun_eq_iff split: option.splits)
qed

lemma insert_tags:
  "ct_rows (fold (sql_insert_tag k) tags tb) = ct_rows tb \<and>
   set (ct_tags (fold (sql_insert_tag k) tags tb)) = set (ct_tags tb) \<union> {k} \<times> set tags"
  by (induction tags arbitrary: tb) (auto simp: sql_insert_tag_def)

lemma put_law:
  assumes "cache_tables_inv tb"
  shows "cache_tables_inv (sql_cache_put p k v e tags tb) \<and>
    cache_view p (sql_cache_put p k v e tags tb) = (cache_view p tb)(k \<mapsto> (v, e, set tags))"
proof -
  let ?tb = "sql_cache_put p k v e tags tb"
  have rows: "ct_rows ?tb = dput (p @ k) (v, e) (ct_rows tb)"
    and tags: "set (ct_tags ?tb) = {r \<in> set (ct_tags tb). fst r \<noteq> p @ k} \<union> {p @ k} \<times> set tags"
    using insert_tags by (auto simp: sql_cache_put_def Let_def sql_delete_tags_of_key_def sql_cache_upsert_def)
  have "fst ` set (ct_tags ?tb) \<subseteq> fst ` set (ct_rows ?tb)"
    using assms unfolding rows tags dget_keys [of "dput _ _ _"] cache_tables_inv_def dget_keys [of "ct_rows tb"] by auto
  then have "cache_tables_inv ?tb" using assms by (simp add: cache_tables_inv_def rows pd.wf_put)
  moreover have "cache_view p ?tb j = ((cache_view p tb)(k \<mapsto> (v, e, set tags))) j" for j
    by (auto simp: cache_view_def rows row_tags_def tags)
  ultimately show ?thesis by blast
qed

lemma put_many_law:
  "cache_tables_inv tb \<Longrightarrow> cache_tables_inv (sql_cache_set_many p t items ttl tags tb) \<and>
   cache_view p (sql_cache_set_many p t items ttl tags tb) = spec_put (t + ttl) tags items (cache_view p tb)"
proof -
  let ?f = "\<lambda>(key, v). sql_cache_put p key v (t + ttl) tags"
  assume "cache_tables_inv tb"
  then have "cache_tables_inv (fold ?f items tb) \<and>
      cache_view p (fold ?f items tb) = spec_put (t + ttl) tags items (cache_view p tb)"
  proof (induction items arbitrary: tb)
    case (Cons kv items)
    obtain k v where kv: "kv = (k, v)" by fastforce
    note put = put_law [OF Cons.prems, of p k v "t + ttl" tags]
    show ?case using Cons.IH [OF conjunct1 [OF put]] conjunct2 [OF put] by (simp add: kv del: fun_upd_apply)
  qed simp
  then show ?thesis by (cases "items = []") (simp_all add: sql_cache_set_many_def)
qed

lemma get_many_rows:
  assumes "dwf rows"
  shows "dget (fold (\<lambda>(k, v, e) d. dput (drop (length p) k) v d) (filter (\<lambda>(k, v, e). k \<in> (@) p ` K \<and> (t::real) < e) rows) d) k =
    (if k \<in> K then case dget rows (p @ k) of Some (v, e) \<Rightarrow> if t < e then Some v else dget d k | None \<Rightarrow> dget d k
     else dget d k)"
  using assms
proof (induction rows arbitrary: d)
  case (Cons r rows)
  obtain j v e where r: "r = (j, v, e)" by (cases r)
  have wf: "dwf rows" and new: "dget rows j = None"
    using Cons.prems r by (auto simp: dwf_def map_of_eq_None_iff)
  show ?case
  proof (cases "j \<in> (@) p ` K \<and> t < e")
    case False
    then show ?thesis using Cons.IH [OF wf, of d] new by (auto simp: r)
  next
    case True
    then obtain i where i: "i \<in> K" "j = p @ i" by auto
    show ?thesis using Cons.IH [OF wf, of "dput i v d"] True new i by (auto simp: r split: option.split)
  qed
qed simp

lemma sql_get_many_value:
  assumes "cache_tables_inv tb"
  shows "dget (sql_cache_get_many p t ks tb) k = (if k \<in> set ks then value_at t (cache_view p tb) k else None)"
  using get_many_rows [of "ct_rows tb" p "set ks" t "[]" k] assms
  by (auto simp: sql_cache_get_many_def value_at_def cache_view_def cache_tables_inv_def Let_def split: option.splits)

lemma sqlite_tags_law:
  "cache_tables_inv tb \<Longrightarrow> cache_tables_inv (sqlite_cache_delete_tags tags tb) \<and>
   cache_view p (sqlite_cache_delete_tags tags tb) = untagged_view (set tags) (cache_view p tb)"
proof (induction tags arbitrary: tb)
  case Nil
  then show ?case by (auto simp: sqlite_cache_delete_tags_def untagged_view_def fun_eq_iff split: option.splits)
next
  case (Cons tag tags)
  let ?tb = "sql_delete_where (\<lambda>k. (k, tag) \<in> set (ct_tags tb)) tb"
  note del = delete_where_law [OF Cons.prems, of "\<lambda>k. (k, tag) \<in> set (ct_tags tb)" p]
  have one: "cache_view p ?tb = untagged_view {tag} (cache_view p tb)"
    unfolding conjunct2 [OF del]
    by (auto simp: untagged_view_def cache_view_def row_tags_def fun_eq_iff split: option.splits)
  show ?case using Cons.IH [OF conjunct1 [OF del]]
    by (auto simp: sqlite_cache_delete_tags_def one untagged_view_def fun_eq_iff split: option.splits)
qed

lemma postgres_tags_law:
  assumes "cache_tables_inv tb"
  shows "cache_tables_inv (postgres_cache_delete_tags tags tb) \<and>
    cache_view p (postgres_cache_delete_tags tags tb) = untagged_view (set tags) (cache_view p tb)"
proof (cases "tags = []")
  case True
  then show ?thesis
    using assms by (auto simp: postgres_cache_delete_tags_def untagged_view_def fun_eq_iff split: option.splits)
next
  case False
  have hit: "(\<exists>r\<in>set (ct_tags tb). fst r = k \<and> snd r \<in> set tags) \<longleftrightarrow> row_tags tb k \<inter> set tags \<noteq> {}" for k
    by (force simp: row_tags_def)
  note del = delete_where_law [OF assms, of "\<lambda>k. row_tags tb k \<inter> set tags \<noteq> {}" p]
  have "cache_view p (postgres_cache_delete_tags tags tb) = untagged_view (set tags) (cache_view p tb)"
    using False conjunct2 [OF del]
    by (auto simp: postgres_cache_delete_tags_def hit untagged_view_def cache_view_def [of p tb] fun_eq_iff split: option.split)
  then show ?thesis using False conjunct1 [OF del] by (simp add: postgres_cache_delete_tags_def hit)
qed

lemma clear_law':
  assumes "cache_tables_inv tb" "\<And>c. same c c"
  shows "cache_tables_inv (sql_cache_clear same p tb) \<and> cache_view p (sql_cache_clear same p tb) = (\<lambda>k. None)"
proof (cases "p = []")
  case True
  then show ?thesis using delete_where_law [OF assms(1), of "\<lambda>k. True" p] by (simp add: sql_cache_clear_def)
next
  case False
  then show ?thesis
    using delete_where_law [OF assms(1), of "like same (escape_like p @ ''%'')" p] like_own_prefix [of same, OF assms(2)]
    by (simp add: sql_cache_clear_def)
qed

lemma delete_many_law':
  assumes "cache_tables_inv tb"
  shows "cache_tables_inv (sql_cache_delete_many p ks tb) \<and>
    cache_view p (sql_cache_delete_many p ks tb) = (\<lambda>k. if k \<in> set ks then None else cache_view p tb k)"
  using assms delete_where_law [OF assms, of "\<lambda>k. k \<in> (@) p ` set ks" p]
  by (simp add: sql_cache_delete_many_def image_iff)

lemma delete_law':
  assumes "cache_tables_inv tb"
  shows "cache_tables_inv (sql_cache_delete p k tb) \<and>
    cache_view p (sql_cache_delete p k tb) = (cache_view p tb)(k := None)"
  using delete_where_law [OF assms, of "\<lambda>j. j = p @ k" p] by (auto simp: sql_cache_delete_def fun_eq_iff)

lemma get_value': "sql_cache_get t (p @ k) tb = value_at t (cache_view p tb) k"
  by (auto simp: sql_cache_get_def value_at_def cache_view_def split: option.split)

lemmas sql_cache_laws = put_law put_many_law get_value' sql_get_many_value delete_law' delete_many_law' clear_law'

interpretation sqlite_cache: cache_laws "SQLiteCacheAdapter p" cache_tables_inv "cache_view p" for p
  by unfold_locales
    (simp_all add: SQLiteCacheAdapter_def sql_cache_laws sql_cache_set_def sqlite_tags_law same_letter_def del: fun_upd_apply)

interpretation postgres_cache: cache_laws "PostgresCacheAdapter p" cache_tables_inv "cache_view p" for p
  by unfold_locales
    (simp_all add: PostgresCacheAdapter_def sql_cache_laws sql_cache_set_def postgres_tags_law del: fun_upd_apply)

lemma cache_tables_init_inv: "cache_tables_inv cache_tables_init" "cache_view p cache_tables_init = Map.empty"
  by (simp_all add: cache_tables_init_def cache_tables_inv_def cache_view_def fun_eq_iff)

text \<open>A pass of the janitor takes nothing that a read at its time or later could find.\<close>

lemma janitor_keeps_alive:
  assumes "cache_tables_inv tb" "t \<le> t'"
  shows "cache_tables_inv (sql_cache_janitor t tb) \<and> alive t' (cache_view p (sql_cache_janitor t tb)) = alive t' (cache_view p tb)"
proof -
  define old where "old = take JANITOR_LIMIT (map fst (filter (\<lambda>(k, v, e). e < t - 3600) (ct_rows tb)))"
  have j: "sql_cache_janitor t tb = sql_delete_where (\<lambda>k. k \<in> set old) tb" by (simp add: sql_cache_janitor_def old_def Let_def)
  have over: "e \<le> t'" if "k \<in> set old" "dget (ct_rows tb) k = Some (v, e)" for k v e
  proof -
    have "k \<in> set (map fst (filter (\<lambda>(k, v, e). e < t - 3600) (ct_rows tb)))"
      using that(1) unfolding old_def by (rule in_set_takeD)
    then obtain v' e' where r: "(k, v', e') \<in> set (ct_rows tb)" "e' < t - 3600" by auto
    moreover from r(1) assms(1) have "dget (ct_rows tb) k = Some (v', e')"
      by (simp add: cache_tables_inv_def dget_iff)
    ultimately show ?thesis using that(2) assms(2) by simp
  qed
  show ?thesis
    using delete_where_law [OF assms(1), of "\<lambda>k. k \<in> set old" p] over
    by (auto simp: j alive_def cache_view_def [of p tb] fun_eq_iff split: option.split) fastforce+
qed

text \<open>
  C21. The caches on SQLite and Postgres refine the same map as the in-memory one: under any key prefix,
  calls made in the order of the database's clock on empty tables answer exactly what the map answers. The
  tag rows follow the entries they refer to through every overwrite and delete.
\<close>

theorem sql_caches_refine_map:
  assumes "sorted (map fst calls)"
  shows "answers (backend_step (SQLiteCacheAdapter pre)) calls cache_tables_init = answers spec_step calls Map.empty \<and>
    answers (backend_step (PostgresCacheAdapter pre)) calls cache_tables_init = answers spec_step calls Map.empty"
  using assms cache_tables_init_inv
  by (intro conjI sqlite_cache.answers_refine postgres_cache.answers_refine) simp_all

theorem sql_caches_refine_map_witness:
  "answers (backend_step (SQLiteCacheAdapter ''app:''))
     [(0, CSet ''a'' ''1'' 10 [''t'']), (1, CSetMany [(''b'', ''2''), (''c'', ''3'')] 10 [''u'']), (3, CDeleteTags [''t'']),
      (4, CGet ''a''), (5, CGet ''b''), (6, CClear), (7, CGet ''c'')] cache_tables_init =
   [Done, Done, Done, Value None, Value (Some ''2''), Done, Value None]"
proof -
  let ?calls = "[(0, CSet ''a'' ''1'' 10 [''t'']), (1, CSetMany [(''b'', ''2''), (''c'', ''3'')] 10 [''u'']), (3, CDeleteTags [''t'']),
      (4, CGet ''a''), (5, CGet ''b''), (6, CClear), (7, CGet ''c'')] :: (seconds \<times> cache_op) list"
  have "sorted (map fst ?calls)" by simp
  from sql_caches_refine_map [OF this] show ?thesis
    by (simp add: value_at_def untagged_view_def)
qed

section \<open>Other prefixes in the same table\<close>

text \<open>
  On Postgres \<open>clear\<close> deletes exactly the entries whose key starts with the adapter's prefix, whatever
  characters the prefix has: the escaped prefix followed by the wildcard matches as \<open>LIKE\<close> pattern nothing
  but the texts with that prefix, so the entries of every other namespace stay.
\<close>

theorem postgres_clear_exact:
  "dget (ct_rows (cb_clear (PostgresCacheAdapter pre) tb)) k = (if prefix pre k then None else dget (ct_rows tb) k)"
  by (simp add: PostgresCacheAdapter_def sql_cache_clear_def sql_delete_where_def like_escaped_prefix
      dget_filter_fst [of "\<lambda>k. \<not> prefix pre k"])

lemma lower_A [simp]: "lower CHR ''A'' = CHR ''a''" "lower CHR ''a'' = CHR ''a''"
  by (code_simp, simp add: lower_def)

text \<open>On SQLite \<open>clear\<close> also empties a namespace whose prefix differs in the case of its letters.\<close>

theorem sqlite_clear_ignores_case:
  "sql_cache_get 1 ''app:k'' (cb_clear (SQLiteCacheAdapter ''App:'') (cb_set (SQLiteCacheAdapter ''app:'') 0 ''k'' ''v'' 60 [] cache_tables_init)) = None"
  "sql_cache_get 1 ''app:k'' (cb_set (SQLiteCacheAdapter ''app:'') 0 ''k'' ''v'' 60 [] cache_tables_init) = Some ''v''"
  by (simp_all add: SQLiteCacheAdapter_def sql_cache_clear_def sql_delete_where_def like_prefix same_letter_def Let_def
      sql_cache_set_def sql_cache_put_def sql_cache_upsert_def sql_delete_tags_of_key_def cache_tables_init_def sql_cache_get_def)

text \<open>Deleting by tag reaches the entries of every prefix: the tag rows carry the prefix in the key only.\<close>

theorem sql_delete_tags_crosses_prefixes:
  assumes "adapter \<in> {SQLiteCacheAdapter, PostgresCacheAdapter}"
  shows "sql_cache_get 1 ''b:k'' (cb_delete_tags (adapter ''a:'') [''t''] (cb_set (adapter ''b:'') 0 ''k'' ''v'' 60 [''t''] cache_tables_init)) = None"
  using assms
  by (auto simp: SQLiteCacheAdapter_def PostgresCacheAdapter_def sql_delete_where_def sql_cache_set_def sql_cache_put_def
      sql_cache_upsert_def sql_delete_tags_of_key_def sql_insert_tag_def cache_tables_init_def sql_cache_get_def
      sqlite_cache_delete_tags_def postgres_cache_delete_tags_def Let_def)

end
