(* ===== verification/Redis_Cache.thy ===== *)
theory Redis_Cache
  imports Redis_Lock Cache_Contract "HOL-Library.Sublist"
begin

text \<open>
  The cache adapter on Redis (\<open>cache/redis.py\<close>): three Lua scripts over values, the set of members of each
  tag and the set of tags of each value (the reverse record). \<open>r_each\<close> is a loop of a script. The matching of
  \<open>SCAN\<close> is the parameter \<open>glob\<close> of \<open>clear\<close>. The invariant says which keys hold sets; under it no call is
  refused. Three lemmas at the end show where the adapter leaves the contract of \<open>cache_laws\<close>: a tag
  still lists a key whose entry has ended, a value may use the key of a tag's set, and \<open>clear\<close> without a
  prefix empties the database.
\<close>

section \<open>Scripts\<close>

definition lua_set_with_tags :: "int \<Rightarrow> string \<Rightarrow> string \<Rightarrow> bytes \<Rightarrow> int \<Rightarrow> string list \<Rightarrow> redis \<Rightarrow> (py_exc + unit) \<times> redis" where
  "lua_set_with_tags now key1 key2 v px tag_keys db =
     (case r_set_px now key1 v px db of
        (Inl e, db1) \<Rightarrow> (Inl e, db1)
      | (Inr _, db1) \<Rightarrow>
          (case r_smembers now key2 db1 of
             Inl e \<Rightarrow> (Inl e, db1)
           | Inr old \<Rightarrow>
               (case r_each (\<lambda>tag. r_srem now tag key1) old db1 of
                  (Inl e, db2) \<Rightarrow> (Inl e, db2)
                | (Inr _, db2) \<Rightarrow>
                    (case r_each (\<lambda>tag db. case r_sadd now tag key1 db of
                                     (Inl e, db') \<Rightarrow> (Inl e, db')
                                   | (Inr _, db') \<Rightarrow> r_sadd now key2 tag db') tag_keys (r_del key2 db2) of
                       (Inl e, db3) \<Rightarrow> (Inl e, db3)
                     | (Inr _, db3) \<Rightarrow> (Inr (), r_pexpire now key2 px db3)))))"

definition lua_delete_with_tags :: "int \<Rightarrow> string \<Rightarrow> string \<Rightarrow> redis \<Rightarrow> (py_exc + unit) \<times> redis" where
  "lua_delete_with_tags now key1 key2 db =
     (case r_smembers now key2 db of
        Inl e \<Rightarrow> (Inl e, db)
      | Inr tags \<Rightarrow>
          (case r_each (\<lambda>tag. r_srem now tag key1) tags db of
             (Inl e, db1) \<Rightarrow> (Inl e, db1)
           | (Inr _, db1) \<Rightarrow> (Inr (), r_del key2 (r_del key1 db1))))"

text \<open>The scan of the set sees each member; nothing else runs during the script.\<close>

definition lua_delete_tag :: "int \<Rightarrow> string \<Rightarrow> redis \<Rightarrow> (py_exc + unit) \<times> redis" where
  "lua_delete_tag now key1 db =
     (case r_smembers now key1 db of
        Inl e \<Rightarrow> (Inl e, db)
      | Inr members \<Rightarrow> (Inr (), r_del key1 (fold r_del members db)))"

section \<open>Adapter\<close>

definition cache_tag_key :: "string \<Rightarrow> string \<Rightarrow> string" where
  "cache_tag_key pre tag = pre @ ''cache:tag:'' @ tag"

definition cache_rtag_key :: "string \<Rightarrow> key \<Rightarrow> string" where
  "cache_rtag_key pre key = pre @ ''cache:rtag:'' @ key"

definition redis_cache_get :: "string \<Rightarrow> seconds \<Rightarrow> key \<Rightarrow> redis \<Rightarrow> py_exc + bytes option" where
  "redis_cache_get pre t key db = r_get (ms t) (pre @ key) db"

definition redis_cache_set ::
  "string \<Rightarrow> seconds \<Rightarrow> key \<Rightarrow> bytes \<Rightarrow> seconds \<Rightarrow> string list \<Rightarrow> redis \<Rightarrow> (py_exc + unit) \<times> redis"
where
  "redis_cache_set pre t key v ttl tags db =
     lua_set_with_tags (ms t) (pre @ key) (cache_rtag_key pre key) v (py_int (ttl * 1000)) (map (cache_tag_key pre) tags) db"

text \<open>\<open>MGET\<close> answers a missing value for a key that is not a text.\<close>

definition redis_cache_get_many :: "string \<Rightarrow> seconds \<Rightarrow> key list \<Rightarrow> redis \<Rightarrow> (key, bytes) pydict" where
  "redis_cache_get_many pre t keys db =
     fold (\<lambda>k d. case r_get (ms t) (pre @ k) db of Inr (Some v) \<Rightarrow> dput k v d | _ \<Rightarrow> d) keys []"

definition redis_cache_set_many ::
  "string \<Rightarrow> seconds \<Rightarrow> (key, bytes) pydict \<Rightarrow> seconds \<Rightarrow> string list \<Rightarrow> redis \<Rightarrow> (py_exc + unit) \<times> redis"
where
  "redis_cache_set_many pre t items ttl tags db =
     r_each (\<lambda>(key, v). redis_cache_set pre t key v ttl tags) items db"

definition redis_cache_delete :: "string \<Rightarrow> seconds \<Rightarrow> key \<Rightarrow> redis \<Rightarrow> (py_exc + unit) \<times> redis" where
  "redis_cache_delete pre t key db = lua_delete_with_tags (ms t) (pre @ key) (cache_rtag_key pre key) db"

definition redis_cache_delete_many :: "string \<Rightarrow> seconds \<Rightarrow> key list \<Rightarrow> redis \<Rightarrow> (py_exc + unit) \<times> redis" where
  "redis_cache_delete_many pre t keys db = r_each (redis_cache_delete pre t) keys db"

definition redis_cache_delete_tags :: "string \<Rightarrow> seconds \<Rightarrow> string list \<Rightarrow> redis \<Rightarrow> (py_exc + unit) \<times> redis" where
  "redis_cache_delete_tags pre t tags db = r_each (\<lambda>tag. lua_delete_tag (ms t) (cache_tag_key pre tag)) tags db"

definition redis_cache_clear :: "(string \<Rightarrow> string \<Rightarrow> bool) \<Rightarrow> string \<Rightarrow> redis \<Rightarrow> redis" where
  "redis_cache_clear glob pre db = filter (\<lambda>r. \<not> glob (pre @ ''*'') (fst r)) db"

section \<open>Which keys hold what\<close>

definition tag_place :: "string \<Rightarrow> string \<Rightarrow> bool" where
  "tag_place pre k \<longleftrightarrow> prefix (pre @ ''cache:tag:'') k"

definition rtag_place :: "string \<Rightarrow> string \<Rightarrow> bool" where
  "rtag_place pre k \<longleftrightarrow> prefix (pre @ ''cache:rtag:'') k"

definition value_place :: "string \<Rightarrow> string \<Rightarrow> bool" where
  "value_place pre k \<longleftrightarrow> prefix (pre @ ''cache:'') k \<and> \<not> tag_place pre k \<and> \<not> rtag_place pre k"

definition redis_cache_typed :: "string \<Rightarrow> redis \<Rightarrow> bool" where
  "redis_cache_typed pre db \<longleftrightarrow> (\<forall>k v x. dget db k = Some (v, x) \<longrightarrow>
     (value_place pre k \<longrightarrow> (\<exists>s. v = RText s)) \<and>
     (tag_place pre k \<longrightarrow> (\<exists>xs. v = RSet xs \<and> list_all (value_place pre) xs)) \<and>
     (rtag_place pre k \<longrightarrow> (\<exists>xs. v = RSet xs \<and> list_all (tag_place pre) xs)))"

lemma places_apart:
  "tag_place pre (cache_tag_key pre tag)" "rtag_place pre (cache_rtag_key pre key)"
  "\<not> (tag_place pre k \<and> rtag_place pre k)"
proof -
  show "tag_place pre (cache_tag_key pre tag)" "rtag_place pre (cache_rtag_key pre key)"
    by (simp_all add: tag_place_def rtag_place_def cache_tag_key_def cache_rtag_key_def)
  show "\<not> (tag_place pre k \<and> rtag_place pre k)"
  proof
    assume "tag_place pre k \<and> rtag_place pre k"
    then obtain x y where "k = pre @ ''cache:tag:'' @ x" "k = pre @ ''cache:rtag:'' @ y"
      by (auto simp: tag_place_def rtag_place_def prefix_def)
    then show False by simp
  qed
qed

lemma typed_put:
  assumes "redis_cache_typed pre db"
    and "value_place pre k \<Longrightarrow> \<exists>s. v = RText s"
    and "tag_place pre k \<Longrightarrow> \<exists>xs. v = RSet xs \<and> list_all (value_place pre) xs"
    and "rtag_place pre k \<Longrightarrow> \<exists>xs. v = RSet xs \<and> list_all (tag_place pre) xs"
  shows "redis_cache_typed pre (dput k (v, x) db)"
  using assms unfolding redis_cache_typed_def by simp

lemma typed_del: "redis_cache_typed pre db \<Longrightarrow> redis_cache_typed pre (ddel k db)"
  unfolding redis_cache_typed_def by simp

lemma typed_fold_del: "redis_cache_typed pre db \<Longrightarrow> redis_cache_typed pre (fold r_del ks db)"
  by (induction ks arbitrary: db) (simp_all add: r_del_def typed_del)

lemma typed_tag:
  assumes "redis_cache_typed pre db" "tag_place pre k"
  shows "r_lookup now k db = None \<or> (\<exists>xs x. r_lookup now k db = Some (RSet xs, x) \<and> list_all (value_place pre) xs)"
  using assms unfolding redis_cache_typed_def r_lookup_def by (fastforce split: option.split)

lemma typed_rtag:
  assumes "redis_cache_typed pre db" "rtag_place pre k"
  shows "r_lookup now k db = None \<or> (\<exists>xs x. r_lookup now k db = Some (RSet xs, x) \<and> list_all (tag_place pre) xs)"
  using assms unfolding redis_cache_typed_def r_lookup_def by (fastforce split: option.split)

lemma typed_value:
  assumes "redis_cache_typed pre db" "value_place pre k"
  shows "r_lookup now k db = None \<or> (\<exists>s x. r_lookup now k db = Some (RText s, x))"
  using assms unfolding redis_cache_typed_def r_lookup_def by (fastforce split: option.split)

text \<open>\<open>goes f db\<close>: the step is not refused and keeps the invariant.\<close>

definition goes :: "string \<Rightarrow> (py_exc + unit) \<times> redis \<Rightarrow> bool" where
  "goes pre r \<longleftrightarrow> fst r = Inr () \<and> redis_cache_typed pre (snd r)"

lemma each_goes:
  assumes "redis_cache_typed pre db" "\<And>k db. k \<in> set ks \<Longrightarrow> redis_cache_typed pre db \<Longrightarrow> goes pre (f k db)"
  shows "goes pre (r_each f ks db)"
  using assms
proof (induction ks arbitrary: db)
  case (Cons k ks)
  have "goes pre (f k db)" using Cons.prems by simp
  then obtain db1 where db1: "f k db = (Inr (), db1)" "redis_cache_typed pre db1" by (cases "f k db") (auto simp: goes_def)
  then show ?case using Cons.IH [OF db1(2)] Cons.prems(2) by simp
qed (simp add: goes_def)

lemma srem_goes:
  assumes "redis_cache_typed pre db" "tag_place pre k"
  shows "goes pre (r_srem now k m db)"
proof (cases "r_lookup now k db")
  case None
  then show ?thesis using assms by (simp add: goes_def r_srem_def)
next
  case (Some e)
  with typed_tag [OF assms, of now] obtain xs x where e: "r_lookup now k db = Some (RSet xs, x)" "list_all (value_place pre) xs"
    by auto
  have "\<not> value_place pre k" "\<not> rtag_place pre k" using assms(2) places_apart(3) by (auto simp: value_place_def)
  moreover have "list_all (value_place pre) (removeAll m xs)" using e(2) by (auto simp: list_all_iff)
  ultimately show ?thesis using assms(1) e(1)
    by (auto simp: goes_def r_srem_def Let_def intro!: typed_put typed_del)
qed

lemma sadd_tag_goes:
  assumes "redis_cache_typed pre db" "tag_place pre k" "value_place pre m"
  shows "goes pre (r_sadd now k m db)"
proof -
  have "\<not> value_place pre k" "\<not> rtag_place pre k" using assms(2) places_apart(3) by (auto simp: value_place_def)
  then show ?thesis using assms typed_tag [OF assms(1,2), of now]
    by (auto simp: goes_def r_sadd_def list_all_iff intro!: typed_put)
qed

lemma sadd_rtag_goes:
  assumes "redis_cache_typed pre db" "rtag_place pre k" "tag_place pre m"
  shows "goes pre (r_sadd now k m db)"
proof -
  have "\<not> value_place pre k" "\<not> tag_place pre k" using assms(2) places_apart(3) by (auto simp: value_place_def)
  then show ?thesis using assms typed_rtag [OF assms(1,2), of now]
    by (auto simp: goes_def r_sadd_def list_all_iff intro!: typed_put)
qed

lemma pexpire_typed:
  assumes "redis_cache_typed pre db"
  shows "redis_cache_typed pre (r_pexpire now k px db)"
proof (cases "r_lookup now k db")
  case (Some e)
  obtain v x where e: "e = (v, x)" by fastforce
  have "dget db k = Some (v, x)" using r_lookup_get [OF Some] e by simp
  then show ?thesis using assms Some e
    by (auto simp: r_pexpire_def intro!: typed_del typed_put) (auto simp: redis_cache_typed_def)
qed (simp add: r_pexpire_def assms)

lemma set_goes:
  assumes "redis_cache_typed pre db" "value_place pre (pre @ key)" "1 \<le> py_int (ttl * 1000)"
  shows "goes pre (redis_cache_set pre t key v ttl tags db)"
proof -
  let ?now = "ms t" let ?px = "py_int (ttl * 1000)" let ?r = "cache_rtag_key pre key"
  define db1 where "db1 = dput (pre @ key) (RText v, Some (?now + ?px)) db"
  have set: "r_set_px ?now (pre @ key) v ?px db = (Inr (), db1)" using assms(3) by (simp add: r_set_px_def db1_def)
  have t1: "redis_cache_typed pre db1"
    using assms(1,2) unfolding db1_def by (intro typed_put) (auto simp: value_place_def)
  obtain old where old: "r_smembers ?now ?r db1 = Inr old" "list_all (tag_place pre) old"
    using typed_rtag [OF t1 places_apart(2), of ?now key] by (auto simp: r_smembers_def)
  have "goes pre (r_each (\<lambda>tag. r_srem ?now tag (pre @ key)) old db1)"
    using t1 old(2) by (intro each_goes srem_goes) (auto simp: list_all_iff)
  then obtain db2 where db2: "r_each (\<lambda>tag. r_srem ?now tag (pre @ key)) old db1 = (Inr (), db2)" "redis_cache_typed pre db2"
    by (cases "r_each (\<lambda>tag. r_srem ?now tag (pre @ key)) old db1") (auto simp: goes_def)
  let ?add = "\<lambda>tag db. case r_sadd ?now tag (pre @ key) db of (Inl e, db') \<Rightarrow> (Inl e, db') | (Inr _, db') \<Rightarrow> r_sadd ?now ?r tag db'"
  have "goes pre (?add tag db)" if tag: "tag \<in> set (map (cache_tag_key pre) tags)" and ty: "redis_cache_typed pre db" for tag db
  proof -
    have place: "tag_place pre tag" using tag places_apart(1) by auto
    obtain db' where db': "r_sadd ?now tag (pre @ key) db = (Inr (), db')" "redis_cache_typed pre db'"
      using sadd_tag_goes [OF ty place assms(2), of ?now]
      by (cases "r_sadd ?now tag (pre @ key) db") (auto simp: goes_def)
    show ?thesis using sadd_rtag_goes [OF db'(2) places_apart(2) place] db'(1) by simp
  qed
  then have "goes pre (r_each ?add (map (cache_tag_key pre) tags) (r_del ?r db2))"
    using db2(2) by (intro each_goes) (auto simp: r_del_def typed_del)
  then obtain db3 where db3: "r_each ?add (map (cache_tag_key pre) tags) (r_del ?r db2) = (Inr (), db3)" "redis_cache_typed pre db3"
    by (cases "r_each ?add (map (cache_tag_key pre) tags) (r_del ?r db2)") (auto simp: goes_def)
  show ?thesis
    using pexpire_typed [OF db3(2)]
    by (simp add: redis_cache_set_def lua_set_with_tags_def set old(1) db2(1) db3(1) goes_def)
qed

lemma delete_goes:
  assumes "redis_cache_typed pre db"
  shows "goes pre (redis_cache_delete pre t key db)"
proof -
  let ?r = "cache_rtag_key pre key"
  obtain old where old: "r_smembers (ms t) ?r db = Inr old" "list_all (tag_place pre) old"
    using typed_rtag [OF assms places_apart(2), of "ms t" key] by (auto simp: r_smembers_def)
  have "goes pre (r_each (\<lambda>tag. r_srem (ms t) tag (pre @ key)) old db)"
    using assms old(2) by (intro each_goes srem_goes) (auto simp: list_all_iff)
  then show ?thesis
    by (auto simp: redis_cache_delete_def lua_delete_with_tags_def old(1) goes_def r_del_def typed_del split: prod.split sum.split)
qed

lemma delete_tag_goes:
  assumes "redis_cache_typed pre db"
  shows "goes pre (lua_delete_tag now (cache_tag_key pre tag) db)"
  using typed_tag [OF assms places_apart(1), of now tag] assms
  by (auto simp: lua_delete_tag_def r_smembers_def goes_def r_del_def typed_del typed_fold_del)

section \<open>No call is refused\<close>

fun redis_cache_step :: "(string \<Rightarrow> string \<Rightarrow> bool) \<Rightarrow> string \<Rightarrow> seconds \<Rightarrow> cache_op \<Rightarrow> redis \<Rightarrow> (py_exc + cache_out) \<times> redis" where
  "redis_cache_step glob pre t (CGet k) db = (map_sum id Value (redis_cache_get pre t k db), db)"
| "redis_cache_step glob pre t (CSet k v ttl tags) db = map_prod (map_sum id (\<lambda>_. Done)) id (redis_cache_set pre t k v ttl tags db)"
| "redis_cache_step glob pre t (CGetMany ks) db = (Inr (Values (dget (redis_cache_get_many pre t ks db))), db)"
| "redis_cache_step glob pre t (CSetMany items ttl tags) db =
     map_prod (map_sum id (\<lambda>_. Done)) id (redis_cache_set_many pre t items ttl tags db)"
| "redis_cache_step glob pre t (CDelete k) db = map_prod (map_sum id (\<lambda>_. Done)) id (redis_cache_delete pre t k db)"
| "redis_cache_step glob pre t (CDeleteMany ks) db = map_prod (map_sum id (\<lambda>_. Done)) id (redis_cache_delete_many pre t ks db)"
| "redis_cache_step glob pre t (CDeleteTags tags) db = map_prod (map_sum id (\<lambda>_. Done)) id (redis_cache_delete_tags pre t tags db)"
| "redis_cache_step glob pre t CClear db = (Inr Done, redis_cache_clear glob pre db)"

fun redis_answers :: "(string \<Rightarrow> string \<Rightarrow> bool) \<Rightarrow> string \<Rightarrow> (seconds \<times> cache_op) list \<Rightarrow> redis \<Rightarrow> (py_exc + cache_out) list" where
  "redis_answers glob pre [] db = []"
| "redis_answers glob pre ((t, c) # cs) db = (case redis_cache_step glob pre t c db of (out, db') \<Rightarrow> out # redis_answers glob pre cs db')"

text \<open>
  The keys a cache of the library uses, \<open>cache:\<close> and the caller's key, unless that key starts like one of
  the adapter's own; times to live of a millisecond or more.
\<close>

fun call_fits :: "string \<Rightarrow> cache_op \<Rightarrow> bool" where
  "call_fits pre (CGet k) \<longleftrightarrow> value_place pre (pre @ k)"
| "call_fits pre (CSet k v ttl tags) \<longleftrightarrow> value_place pre (pre @ k) \<and> 1 \<le> ttl * 1000"
| "call_fits pre (CSetMany items ttl tags) \<longleftrightarrow> list_all (\<lambda>(k, v). value_place pre (pre @ k)) items \<and> 1 \<le> ttl * 1000"
| "call_fits pre c \<longleftrightarrow> True"

lemma py_int_px: "1 \<le> x \<Longrightarrow> 1 \<le> py_int x"
  by (simp add: py_int_def)

lemma step_goes:
  assumes "redis_cache_typed pre db" "call_fits pre c"
  shows "(\<exists>out. fst (redis_cache_step glob pre t c db) = Inr out) \<and> redis_cache_typed pre (snd (redis_cache_step glob pre t c db))"
proof -
  have lift: "(\<exists>out. fst (map_prod (map_sum id (\<lambda>_. Done)) id r) = Inr out) \<and>
      redis_cache_typed pre (snd (map_prod (map_sum id (\<lambda>_. Done)) id r))" if "goes pre r" for r
    using that by (cases r) (auto simp: goes_def)
  show ?thesis
  proof (cases c)
    case (CGet k)
    with assms typed_value [of pre db "pre @ k" "ms t"] show ?thesis by (auto simp: redis_cache_get_def r_get_def)
  next
    case (CSet k v ttl tags)
    show ?thesis unfolding CSet redis_cache_step.simps
      using assms CSet by (intro lift set_goes py_int_px) simp_all
  next
    case (CSetMany items ttl tags)
    then have "goes pre (redis_cache_set_many pre t items ttl tags db)"
      using assms unfolding redis_cache_set_many_def
      by (intro each_goes) (auto simp: list_all_iff intro!: set_goes py_int_px)
    then show ?thesis unfolding CSetMany redis_cache_step.simps by (rule lift)
  next
    case (CDelete k)
    show ?thesis unfolding CDelete redis_cache_step.simps by (intro lift delete_goes assms(1))
  next
    case (CDeleteMany ks)
    show ?thesis unfolding CDeleteMany redis_cache_step.simps redis_cache_delete_many_def
      by (intro lift each_goes delete_goes assms(1))
  next
    case (CDeleteTags tags)
    show ?thesis unfolding CDeleteTags redis_cache_step.simps redis_cache_delete_tags_def
      by (intro lift each_goes delete_tag_goes assms(1))
  next
    case CClear
    then show ?thesis using assms(1)
      by (auto simp: redis_cache_clear_def redis_cache_typed_def dget_filter_fst [of "\<lambda>k. \<not> glob (pre @ ''*'') k"])
  qed (simp add: assms(1))
qed

text \<open>
  C22. Values, tags and reverse records never get in each other's way on Redis: when the callers' keys do not
  start with \<open>tag:\<close> or \<open>rtag:\<close> and times to live are at least a millisecond, no sequence of reads, writes and
  deletes on a fresh keyspace is answered by an error, under any prefix and however \<open>SCAN\<close> matches.
\<close>

theorem redis_cache_never_refused:
  assumes "\<And>t c. (t, c) \<in> set calls \<Longrightarrow> call_fits pre c" "answer \<in> set (redis_answers glob pre calls [])"
  shows "\<not> isl answer"
proof -
  have "redis_cache_typed pre db \<Longrightarrow> answer \<in> set (redis_answers glob pre calls db) \<Longrightarrow> \<not> isl answer" for db
    using assms(1)
  proof (induction calls arbitrary: db)
    case (Cons tc calls)
    obtain t c where tc: "tc = (t, c)" by fastforce
    have "call_fits pre c" by (rule Cons.prems(3) [of t]) (simp add: tc)
    note st = step_goes [OF Cons.prems(1) this, of glob t]
    have "\<not> isl (fst (redis_cache_step glob pre t c db))" using st by auto
    moreover have "\<not> isl answer" if "answer \<in> set (redis_answers glob pre calls (snd (redis_cache_step glob pre t c db)))"
      by (rule Cons.IH [OF conjunct2 [OF st] that]) (auto intro: Cons.prems(3))
    ultimately show ?case using Cons.prems(2) tc by (auto simp: split_beta)
  qed simp
  moreover have "redis_cache_typed pre []" by (simp add: redis_cache_typed_def)
  ultimately show ?thesis using assms(2) by blast
qed

theorem redis_cache_never_refused_witness:
  "\<not> isl (hd (redis_answers prefix ''p:'' [(0, CSet ''cache:k'' ''v'' 60 [''t''])] []))"
proof -
  let ?calls = "[(0, CSet ''cache:k'' ''v'' 60 [''t''])] :: (seconds \<times> cache_op) list"
  have "call_fits ''p:'' c" if "(t, c) \<in> set ?calls" for t c
    using that by (auto simp: value_place_def tag_place_def rtag_place_def)
  then have "\<not> isl a" if "a \<in> set (redis_answers prefix ''p:'' ?calls [])" for a
    using redis_cache_never_refused that by blast
  moreover have "redis_answers prefix ''p:'' ?calls [] \<noteq> []" by (simp split: prod.split)
  ultimately show ?thesis by (metis hd_in_set)
qed

section \<open>Reading what was written\<close>

lemma r_each_dget:
  assumes "\<And>j db. j \<in> set ks \<Longrightarrow> dget (snd (f j db)) k = dget db k"
  shows "dget (snd (r_each f ks db)) k = dget db k"
  using assms
proof (induction ks arbitrary: db)
  case (Cons j ks)
  have "dget (snd (f j db)) k = dget db k" using Cons.prems [of j db] by simp
  moreover have "dget (snd (r_each f ks (snd (f j db)))) k = dget (snd (f j db)) k" using Cons by simp
  ultimately show ?case by (auto split: sum.split prod.split)
qed simp

lemma srem_dget: "j \<noteq> k \<Longrightarrow> dget (snd (r_srem now j m db)) k = dget db k"
  by (auto simp: r_srem_def Let_def split: option.split prod.split rvalue.split)

lemma sadd_dget: "j \<noteq> k \<Longrightarrow> dget (snd (r_sadd now j m db)) k = dget db k"
  by (auto simp: r_sadd_def split: option.split prod.split rvalue.split)

lemma pexpire_dget: "j \<noteq> k \<Longrightarrow> dget (r_pexpire now j px db) k = dget db k"
  by (auto simp: r_pexpire_def split: option.split prod.split)

lemma script_keeps_value:
  assumes "\<And>tag. tag \<in> set old \<Longrightarrow> tag \<noteq> k" "\<And>tag. tag \<in> set tags \<Longrightarrow> tag \<noteq> k" "r \<noteq> k"
  shows "dget (snd (r_each (\<lambda>tag. r_srem now tag m) old db)) k = dget db k"
    and "dget (snd (r_each (\<lambda>tag db. case r_sadd now tag m db of (Inl e, db') \<Rightarrow> (Inl e, db')
                                  | (Inr _, db') \<Rightarrow> r_sadd now r tag db') tags db)) k = dget db k"
proof -
  show "dget (snd (r_each (\<lambda>tag. r_srem now tag m) old db)) k = dget db k"
    using assms by (intro r_each_dget srem_dget) auto
  have "dget (snd (case r_sadd now tag m db of (Inl e, db') \<Rightarrow> (Inl e, db') | (Inr _, db') \<Rightarrow> r_sadd now r tag db')) k = dget db k"
    if "tag \<in> set tags" for tag db
    using sadd_dget [of tag k now m db] sadd_dget [OF assms(3)] assms(2) [OF that]
    by (auto split: prod.split sum.split)
  then show "dget (snd (r_each (\<lambda>tag db. case r_sadd now tag m db of (Inl e, db') \<Rightarrow> (Inl e, db')
                                  | (Inr _, db') \<Rightarrow> r_sadd now r tag db') tags db)) k = dget db k"
    by (intro r_each_dget) auto
qed

lemma set_writes:
  assumes "redis_cache_typed pre db" "value_place pre (pre @ key)" "1 \<le> py_int (ttl * 1000)"
  shows "dget (snd (redis_cache_set pre t key v ttl tags db)) (pre @ key) = Some (RText v, Some (ms t + py_int (ttl * 1000)))"
proof -
  let ?now = "ms t" let ?px = "py_int (ttl * 1000)" let ?r = "cache_rtag_key pre key" let ?k = "pre @ key"
  define db1 where "db1 = dput ?k (RText v, Some (?now + ?px)) db"
  have set: "r_set_px ?now ?k v ?px db = (Inr (), db1)" using assms(3) by (simp add: r_set_px_def db1_def)
  have t1: "redis_cache_typed pre db1"
    using assms(1,2) unfolding db1_def by (intro typed_put) (auto simp: value_place_def)
  obtain old where old: "r_smembers ?now ?r db1 = Inr old" "list_all (tag_place pre) old"
    using typed_rtag [OF t1 places_apart(2), of ?now key] by (auto simp: r_smembers_def)
  have apart: "\<And>tag. tag \<in> set old \<Longrightarrow> tag \<noteq> ?k" "\<And>tag. tag \<in> set (map (cache_tag_key pre) tags) \<Longrightarrow> tag \<noteq> ?k" "?r \<noteq> ?k"
    using assms(2) old(2) places_apart(1,2) unfolding value_place_def list_all_iff by auto metis+
  let ?srem = "r_each (\<lambda>tag. r_srem ?now tag ?k) old db1"
  let ?add = "\<lambda>db. r_each (\<lambda>tag db. case r_sadd ?now tag ?k db of (Inl e, db') \<Rightarrow> (Inl e, db')
                                  | (Inr _, db') \<Rightarrow> r_sadd ?now ?r tag db') (map (cache_tag_key pre) tags) db"
  have new: "dget db1 ?k = Some (RText v, Some (?now + ?px))" by (simp add: db1_def)
  have s: "dget (snd ?srem) ?k = dget db1 ?k" by (rule script_keeps_value(1) [OF apart])
  have a: "dget (snd (?add db)) ?k = dget db ?k" for db by (rule script_keeps_value(2) [OF apart])
  show ?thesis
    using new s a [of "r_del ?r (snd ?srem)"] apart(3) pexpire_dget [OF apart(3)]
    by (auto simp: redis_cache_set_def lua_set_with_tags_def set old(1) r_del_def split: prod.split sum.split)
qed

text \<open>
  A value written to Redis is read back unchanged until its time to live has passed, counted in whole
  milliseconds of the server's clock and rounded down, and is missing from then on.
\<close>

theorem redis_cache_set_get:
  assumes "redis_cache_typed pre db" "value_place pre (pre @ key)" "1 \<le> ttl * 1000"
  shows "redis_cache_get pre t' key (snd (redis_cache_set pre t key v ttl tags db)) =
    Inr (if ms t' \<le> ms t + \<lfloor>ttl * 1000\<rfloor> then Some v else None)"
  using set_writes [OF assms(1,2) py_int_px [OF assms(3)], of t v tags] assms(3)
  by (simp add: redis_cache_get_def r_get_def r_lookup_def r_alive_def py_int_def)

theorem redis_cache_set_get_witness:
  "redis_cache_get ''p:'' 61 ''cache:k'' (snd (redis_cache_set ''p:'' 0 ''cache:k'' ''v'' 60 [''t''] [])) = Inr None"
proof -
  have "redis_cache_typed ''p:'' []" "value_place ''p:'' (''p:'' @ ''cache:k'')"
    by (simp_all add: redis_cache_typed_def value_place_def tag_place_def rtag_place_def)
  from redis_cache_set_get [OF this, of 60 61 0 "''v''" "[''t'']"] show ?thesis by (simp add: ms_def)
qed

section \<open>Where the adapter leaves the contract\<close>

lemmas redis_cache_defs = redis_cache_set_def redis_cache_get_def redis_cache_delete_tags_def lua_set_with_tags_def
  lua_delete_tag_def r_set_px_def r_smembers_def r_sadd_def r_srem_def r_get_def r_lookup_def r_alive_def r_del_def
  r_pexpire_def cache_tag_key_def cache_rtag_key_def py_int_def ms_def Let_def

text \<open>
  An entry written with a tag ends; its reverse record ends with it, so the next write of the key, without
  the tag, does not take the key out of the tag's set. Deleting the tag then deletes the new value.
\<close>

theorem redis_tag_outlives_entry:
  "redis_answers glob [] [(0, CSet ''cache:k'' ''old'' 1 [''t'']), (5, CSet ''cache:k'' ''new'' 60 []), (6, CDeleteTags [''t'']), (7, CGet ''cache:k'')] [] =
     [Inr Done, Inr Done, Inr Done, Inr (Value None)]"
  "answers spec_step [(0, CSet ''cache:k'' ''old'' 1 [''t'']), (5, CSet ''cache:k'' ''new'' 60 []), (6, CDeleteTags [''t'']), (7, CGet ''cache:k'')] Map.empty =
     [Done, Done, Done, Value (Some ''new'')]"
  by (simp_all add: redis_cache_defs value_at_def untagged_view_def)

text \<open>The key \<open>tag:u\<close> of a cache is the key of the set of the tag \<open>u\<close>: a write with the tag is refused halfway.\<close>

theorem redis_value_takes_tag_key:
  "redis_answers glob [] [(0, CSet ''cache:tag:u'' ''v'' 60 []), (1, CSet ''cache:k'' ''w'' 60 [''u'']), (2, CGet ''cache:k'')] [] =
     [Inr Done, Inl ResponseError, Inr (Value (Some ''w''))]"
  by (simp add: redis_cache_defs)

text \<open>
  Without a prefix \<open>clear\<close> deletes every key of the database, the fence counters of the locks too: the next
  grant of a lock has fence 1 again.
\<close>

theorem redis_clear_resets_fences:
  assumes "\<And>k. glob ''*'' k" "1 \<le> d * 1000"
  shows "fst (redis_lock_acquire pre t name token d (redis_cache_clear glob [] db)) = Inr (Some 1)"
proof -
  have cl: "redis_cache_clear glob [] db = []" by (simp add: redis_cache_clear_def assms(1))
  show ?thesis
    using py_int_px [OF assms(2)]
    by (simp add: cl redis_lock_acquire_def lua_acquire_or_extend_def r_get_def r_lookup_def r_incr_def r_set_px_def)
qed

end
