(* ===== verification/Cache_Client.thy ===== *)
theory Cache_Client
  imports Cache_Memory
begin

text \<open>
  \<open>TTLCache\<close> (\<open>cache/ttl.py\<close>) over any store that obeys the contract: serialization, statistics, the
  bookkeeping of the least recently used keys with eviction, the stale reserve, \<open>get_or_set\<close> without
  other callers (the theory \<open>Stampede\<close> has the concurrent ones). Each clock reading of the store is an
  argument. The serializer is a parameter; \<open>None\<close> stores bytes only. Errors are values: \<open>ValueError\<close> and
  \<open>TypeError\<close> of \<open>set\<close>, what the serializer raises, and what the caller's factory raises (\<open>py_raised\<close>).
\<close>

section \<open>State\<close>

datatype 'v pyval = Bytes bytes | Obj 'v

record 'v serializer =
  dumps :: "'v pyval \<Rightarrow> py_exc + bytes"
  loads :: "bytes \<Rightarrow> py_exc + 'v pyval"

record ttl_config =
  cfg_maxsize :: nat
  cfg_ttl :: seconds

record 's ttl_cache =
  tc_store :: 's
  tc_hits :: nat
  tc_misses :: nat
  tc_evictions :: nat
  tc_keys :: "key list"

definition ttl_cache_init :: "'s \<Rightarrow> 's ttl_cache" where
  "ttl_cache_init s = \<lparr>tc_store = s, tc_hits = 0, tc_misses = 0, tc_evictions = 0, tc_keys = []\<rparr>"

text \<open>\<open>TTLCacheConfig\<close>: \<open>PositiveFloat\<close> and \<open>NonNegativeInt\<close>.\<close>

definition ttl_config_ok :: "ttl_config \<Rightarrow> bool" where
  "ttl_config_ok cfg \<longleftrightarrow> 0 < cfg_ttl cfg"

definition value_key :: "key \<Rightarrow> key" where
  "value_key k = ''cache:'' @ k"

definition stale_key :: "key \<Rightarrow> key" where
  "stale_key k = ''cache:'' @ k @ [CHR 0x1F, CHR ''s'', CHR ''t'']"

definition xfetch_key :: "key \<Rightarrow> key" where
  "xfetch_key k = ''cache:'' @ k @ [CHR 0x1F, CHR ''x'', CHR ''f'']"

definition serialize :: "'v serializer option \<Rightarrow> 'v pyval \<Rightarrow> py_exc + bytes" where
  "serialize S v = (case S of
     Some ser \<Rightarrow> dumps ser v
   | None \<Rightarrow> (case v of Bytes b \<Rightarrow> Inr b | Obj _ \<Rightarrow> Inl TypeError))"

definition deserialize :: "'v serializer option \<Rightarrow> bytes \<Rightarrow> py_exc + 'v pyval" where
  "deserialize S raw = (case S of Some ser \<Rightarrow> loads ser raw | None \<Rightarrow> Inr (Bytes raw))"

section \<open>Reads\<close>

definition promote :: "key \<Rightarrow> key list \<Rightarrow> key list" where
  "promote k ks = removeAll k ks @ [k]"

definition promote_if :: "ttl_config \<Rightarrow> key \<Rightarrow> 's ttl_cache \<Rightarrow> 's ttl_cache" where
  "promote_if cfg k c = (if 0 < cfg_maxsize cfg then c\<lparr>tc_keys := promote k (tc_keys c)\<rparr> else c)"

text \<open>\<open>None\<close> stands for the default of the caller.\<close>

definition ttl_get ::
  "'s cache_backend \<Rightarrow> ttl_config \<Rightarrow> 'v serializer option \<Rightarrow> seconds \<Rightarrow> key \<Rightarrow> 's ttl_cache \<Rightarrow>
   (py_exc + 'v pyval option) \<times> 's ttl_cache"
where
  "ttl_get B cfg S t k c =
     (case cb_get B t (value_key k) (tc_store c) of
        (None, s) \<Rightarrow> (Inr None, c\<lparr>tc_store := s, tc_misses := tc_misses c + 1\<rparr>)
      | (Some raw, s) \<Rightarrow>
          (map_sum id Some (deserialize S raw), promote_if cfg k (c\<lparr>tc_store := s, tc_hits := tc_hits c + 1\<rparr>)))"

definition ttl_peek ::
  "'s cache_backend \<Rightarrow> 'v serializer option \<Rightarrow> seconds \<Rightarrow> key \<Rightarrow> 's ttl_cache \<Rightarrow>
   (py_exc + 'v pyval option) \<times> 's ttl_cache"
where
  "ttl_peek B S t k c =
     (case cb_get B t (value_key k) (tc_store c) of
        (None, s) \<Rightarrow> (Inr None, c\<lparr>tc_store := s\<rparr>)
      | (Some raw, s) \<Rightarrow> (map_sum id Some (deserialize S raw), c\<lparr>tc_store := s\<rparr>))"

definition ttl_read_stale ::
  "'s cache_backend \<Rightarrow> 'v serializer option \<Rightarrow> seconds \<Rightarrow> key \<Rightarrow> 's ttl_cache \<Rightarrow>
   (py_exc + 'v pyval option) \<times> 's ttl_cache"
where
  "ttl_read_stale B S t k c =
     (case cb_get B t (stale_key k) (tc_store c) of
        (None, s) \<Rightarrow> (Inr None, c\<lparr>tc_store := s\<rparr>)
      | (Some raw, s) \<Rightarrow> (map_sum id Some (deserialize S raw), c\<lparr>tc_store := s\<rparr>))"

fun collect_found ::
  "ttl_config \<Rightarrow> 'v serializer option \<Rightarrow> (key, bytes) pydict \<Rightarrow> key list \<Rightarrow> (key, 'v pyval) pydict \<Rightarrow> 's ttl_cache \<Rightarrow>
   (py_exc + (key, 'v pyval) pydict) \<times> 's ttl_cache"
where
  "collect_found cfg S found [] result c = (Inr result, c)"
| "collect_found cfg S found (k # ks) result c =
     (case dget found k of
        None \<Rightarrow> collect_found cfg S found ks result (c\<lparr>tc_misses := tc_misses c + 1\<rparr>)
      | Some raw \<Rightarrow>
          let c1 = promote_if cfg k (c\<lparr>tc_hits := tc_hits c + 1\<rparr>)
          in (case deserialize S raw of
                Inl e \<Rightarrow> (Inl e, c1)
              | Inr v \<Rightarrow> collect_found cfg S found ks (dput k v result) c1))"

definition ttl_get_many ::
  "'s cache_backend \<Rightarrow> ttl_config \<Rightarrow> 'v serializer option \<Rightarrow> seconds \<Rightarrow> key list \<Rightarrow> 's ttl_cache \<Rightarrow>
   (py_exc + (key, 'v pyval) pydict) \<times> 's ttl_cache"
where
  "ttl_get_many B cfg S t keys c =
     (if keys = [] then (Inr [], c)
      else case cb_get_many B t (map value_key keys) (tc_store c) of
        (raw, s) \<Rightarrow>
          let found = map (\<lambda>(full, v). (drop 6 full, v)) raw
          in collect_found cfg S found keys [] (c\<lparr>tc_store := s\<rparr>))"

section \<open>Writes\<close>

definition not_positive :: "seconds option \<Rightarrow> bool" where
  "not_positive x = (case x of None \<Rightarrow> False | Some d \<Rightarrow> d \<le> 0)"

definition entry_ttl :: "ttl_config \<Rightarrow> seconds option \<Rightarrow> seconds" where
  "entry_ttl cfg ttl = (case ttl of Some x \<Rightarrow> x | None \<Rightarrow> cfg_ttl cfg)"

definition ttl_evict :: "'s cache_backend \<Rightarrow> 's ttl_cache \<Rightarrow> 's ttl_cache" where
  "ttl_evict B c =
     (case tc_keys c of
        [] \<Rightarrow> c
      | lru # rest \<Rightarrow>
          c\<lparr>tc_keys := rest, tc_store := cb_delete_many B [value_key lru, stale_key lru, xfetch_key lru] (tc_store c),
            tc_evictions := tc_evictions c + 1\<rparr>)"

text \<open>
  \<open>while len(keys) >= maxsize\<close>. The loop is entered for a positive \<open>maxsize\<close> only, for which its condition
  already says that there is a key to evict.
\<close>

function ttl_evict_loop :: "'s cache_backend \<Rightarrow> nat \<Rightarrow> 's ttl_cache \<Rightarrow> 's ttl_cache" where
  "ttl_evict_loop B m c =
     (if m \<le> length (tc_keys c) \<and> tc_keys c \<noteq> [] then ttl_evict_loop B m (ttl_evict B c) else c)"
  by auto
termination by (relation "measure (\<lambda>(B, m, c). length (tc_keys c))") (auto simp: ttl_evict_def neq_Nil_conv)

declare ttl_evict_loop.simps [simp del]

definition make_room :: "'s cache_backend \<Rightarrow> ttl_config \<Rightarrow> key \<Rightarrow> 's ttl_cache \<Rightarrow> 's ttl_cache" where
  "make_room B cfg k c =
     (if 0 < cfg_maxsize cfg \<and> k \<notin> set (tc_keys c) then ttl_evict_loop B (cfg_maxsize cfg) c else c)"

definition ttl_set ::
  "'s cache_backend \<Rightarrow> ttl_config \<Rightarrow> 'v serializer option \<Rightarrow> seconds \<Rightarrow> seconds \<Rightarrow> key \<Rightarrow> 'v pyval \<Rightarrow>
   seconds option \<Rightarrow> string list \<Rightarrow> seconds option \<Rightarrow> 's ttl_cache \<Rightarrow> (py_exc + unit) \<times> 's ttl_cache"
where
  "ttl_set B cfg S t1 t2 k v ttl tags stale_ttl c =
     (if not_positive ttl then (Inl ValueError, c)
      else if not_positive stale_ttl then (Inl ValueError, c)
      else case serialize S v of
                Inl e \<Rightarrow> (Inl e, c)
              | Inr raw \<Rightarrow>
                  let c1 = make_room B cfg k c;
                      s1 = cb_set B t1 (value_key k) raw (entry_ttl cfg ttl) tags (tc_store c1);
                      s2 = (case stale_ttl of
                              None \<Rightarrow> s1
                            | Some extra \<Rightarrow> cb_set B t2 (stale_key k) raw (entry_ttl cfg ttl + extra) tags s1)
                  in (Inr (), promote_if cfg k (c1\<lparr>tc_store := s2\<rparr>)))"

fun serialize_all :: "'v serializer option \<Rightarrow> (key, 'v pyval) pydict \<Rightarrow> py_exc + (key, bytes) pydict" where
  "serialize_all S [] = Inr []"
| "serialize_all S ((k, v) # kvs) =
     (case serialize S v of
        Inl e \<Rightarrow> Inl e
      | Inr raw \<Rightarrow> (case serialize_all S kvs of Inl e \<Rightarrow> Inl e | Inr items \<Rightarrow> Inr ((value_key k, raw) # items)))"

definition ttl_set_many ::
  "'s cache_backend \<Rightarrow> ttl_config \<Rightarrow> 'v serializer option \<Rightarrow> seconds \<Rightarrow> (key, 'v pyval) pydict \<Rightarrow>
   seconds option \<Rightarrow> string list \<Rightarrow> 's ttl_cache \<Rightarrow> (py_exc + unit) \<times> 's ttl_cache"
where
  "ttl_set_many B cfg S t mapping ttl tags c =
     (if not_positive ttl then (Inl ValueError, c)
      else if mapping = [] then (Inr (), c)
      else case serialize_all S mapping of
                Inl e \<Rightarrow> (Inl e, c)
              | Inr items \<Rightarrow>
                  let c1 = (if 0 < cfg_maxsize cfg
                            then fold (\<lambda>k c. promote_if cfg k (make_room B cfg k c)) (map fst mapping) c else c)
                  in (Inr (), c1\<lparr>tc_store := cb_set_many B t items (entry_ttl cfg ttl) tags (tc_store c1)\<rparr>))"

definition ttl_delete :: "'s cache_backend \<Rightarrow> key \<Rightarrow> 's ttl_cache \<Rightarrow> 's ttl_cache" where
  "ttl_delete B k c =
     c\<lparr>tc_store := cb_delete_many B [value_key k, stale_key k] (tc_store c), tc_keys := removeAll k (tc_keys c)\<rparr>"

definition ttl_delete_many :: "'s cache_backend \<Rightarrow> key list \<Rightarrow> 's ttl_cache \<Rightarrow> 's ttl_cache" where
  "ttl_delete_many B keys c =
     (if keys = [] then c
      else c\<lparr>tc_store := cb_delete_many B (map value_key keys @ map stale_key keys) (tc_store c),
             tc_keys := fold removeAll keys (tc_keys c)\<rparr>)"

definition ttl_delete_tags :: "'s cache_backend \<Rightarrow> string list \<Rightarrow> 's ttl_cache \<Rightarrow> 's ttl_cache" where
  "ttl_delete_tags B tags c =
     (if tags = [] then c else c\<lparr>tc_store := cb_delete_tags B tags (tc_store c), tc_keys := []\<rparr>)"

definition ttl_clear :: "'s cache_backend \<Rightarrow> 's ttl_cache \<Rightarrow> 's ttl_cache" where
  "ttl_clear B c = c\<lparr>tc_store := cb_clear B (tc_store c), tc_keys := []\<rparr>"

record cache_info =
  ci_hits :: nat
  ci_misses :: nat
  ci_maxsize :: nat
  ci_currsize :: nat
  ci_evictions :: nat

definition ttl_cache_info :: "ttl_config \<Rightarrow> 's ttl_cache \<Rightarrow> cache_info" where
  "ttl_cache_info cfg c =
     \<lparr>ci_hits = tc_hits c, ci_misses = tc_misses c, ci_maxsize = cfg_maxsize cfg, ci_currsize = length (tc_keys c),
      ci_evictions = tc_evictions c\<rparr>"

section \<open>Get or set\<close>

text \<open>
  What a call of \<open>get_or_set\<close> may end with: an exception of the factory or one of the cache's own. Without
  other callers \<open>compute_with_stampede\<close> looks a second time and then computes. The readings are those of
  the first read, the second, the two writes and the read of the reserve; \<open>outcome\<close> is what the factory
  does, if it is called.
\<close>

datatype cache_exc = FactoryRaised py_raised | CacheRaised py_exc

definition ttl_compute ::
  "'s cache_backend \<Rightarrow> ttl_config \<Rightarrow> 'v serializer option \<Rightarrow> seconds \<Rightarrow> seconds \<Rightarrow> key \<Rightarrow> (py_raised + 'v pyval) \<Rightarrow>
   seconds option \<Rightarrow> string list \<Rightarrow> seconds option \<Rightarrow> 's ttl_cache \<Rightarrow> (cache_exc + 'v pyval) \<times> 's ttl_cache"
where
  "ttl_compute B cfg S t1 t2 k outcome ttl tags stale_ttl c =
     (case outcome of
        Inl x \<Rightarrow> (Inl (FactoryRaised x), c)
      | Inr v \<Rightarrow>
          (case ttl_set B cfg S t1 t2 k v ttl tags stale_ttl c of
             (Inl e, c1) \<Rightarrow> (Inl (CacheRaised e), c1)
           | (Inr _, c1) \<Rightarrow> (Inr v, c1)))"

definition ttl_get_or_set ::
  "'s cache_backend \<Rightarrow> ttl_config \<Rightarrow> 'v serializer option \<Rightarrow> seconds \<Rightarrow> seconds \<Rightarrow> seconds \<Rightarrow> seconds \<Rightarrow> seconds \<Rightarrow> key \<Rightarrow>
   (py_raised + 'v pyval) \<Rightarrow> seconds option \<Rightarrow> string list \<Rightarrow> seconds option \<Rightarrow> 's ttl_cache \<Rightarrow>
   (cache_exc + 'v pyval) \<times> 's ttl_cache"
where
  "ttl_get_or_set B cfg S t1 t2 t3 t4 t5 k outcome ttl tags stale_ttl c =
     (case ttl_get B cfg S t1 k c of
        (Inl e, c1) \<Rightarrow> (Inl (CacheRaised e), c1)
      | (Inr (Some v), c1) \<Rightarrow> (Inr v, c1)
      | (Inr None, c1) \<Rightarrow>
          (case (case ttl_peek B S t2 k c1 of
                   (Inl e, c2) \<Rightarrow> (Inl (CacheRaised e), c2)
                 | (Inr (Some v), c2) \<Rightarrow> (Inr v, c2)
                 | (Inr None, c2) \<Rightarrow> ttl_compute B cfg S t3 t4 k outcome ttl tags stale_ttl c2) of
             (Inr v, c3) \<Rightarrow> (Inr v, c3)
           | (Inl x, c3) \<Rightarrow>
               if stale_ttl = None then (Inl x, c3)
               else (case ttl_read_stale B S t5 k c3 of
                       (Inl e, c4) \<Rightarrow> (Inl (CacheRaised e), c4)
                     | (Inr (Some v), c4) \<Rightarrow> (Inr v, c4)
                     | (Inr None, c4) \<Rightarrow> (Inl x, c4))))"

section \<open>Keys\<close>

text \<open>The separator stays out of the callers' keys.\<close>

definition plain_key :: "key \<Rightarrow> bool" where
  "plain_key k \<longleftrightarrow> CHR 0x1F \<notin> set k"

lemma entry_keys [simp]:
  "value_key j = value_key k \<longleftrightarrow> j = k" "stale_key j = stale_key k \<longleftrightarrow> j = k" "xfetch_key j = xfetch_key k \<longleftrightarrow> j = k"
  "stale_key j \<noteq> xfetch_key k" "xfetch_key k \<noteq> stale_key j"
  by (auto simp: value_key_def stale_key_def xfetch_key_def)

lemma plain_value_key:
  assumes "plain_key j"
  shows "value_key j \<noteq> stale_key k" "value_key j \<noteq> xfetch_key k" "stale_key k \<noteq> value_key j" "xfetch_key k \<noteq> value_key j"
proof -
  have "CHR 0x1F \<in> set (stale_key k)" "CHR 0x1F \<in> set (xfetch_key k)" "CHR 0x1F \<notin> set (value_key j)"
    using assms by (auto simp: value_key_def stale_key_def xfetch_key_def plain_key_def)
  then show "value_key j \<noteq> stale_key k" "value_key j \<noteq> xfetch_key k" "stale_key k \<noteq> value_key j" "xfetch_key k \<noteq> value_key j"
    by metis+
qed

definition entries :: "key \<Rightarrow> key set" where
  "entries k = {value_key k, stale_key k, xfetch_key k}"

definition serializer_ok :: "'v serializer option \<Rightarrow> bool" where
  "serializer_ok S \<longleftrightarrow> (\<forall>ser v raw. S = Some ser \<and> dumps ser v = Inr raw \<longrightarrow> loads ser raw = Inr v)"

lemma deserialize_serialize: "serializer_ok S \<Longrightarrow> serialize S v = Inr raw \<Longrightarrow> deserialize S raw = Inr v"
  by (auto simp: serializer_ok_def serialize_def deserialize_def split: option.splits pyval.splits)

lemma promote_set [simp]: "set (promote k ks) = insert k (set ks)"
  by (auto simp: promote_def)

lemma promote_distinct: "distinct ks \<Longrightarrow> distinct (promote k ks)"
  by (simp add: promote_def distinct_removeAll)

lemma promote_length: "distinct ks \<Longrightarrow> length (promote k ks) = (if k \<in> set ks then length ks else length ks + 1)"
  by (auto simp: promote_def distinct_remove1_removeAll [symmetric] length_remove1) (metis Suc_pred length_pos_if_in_set)

section \<open>Eviction\<close>

text \<open>\<open>dropped\<close> are the keys taken off the front; every copy of their entries is gone, nothing else changes.\<close>

definition evicted :: "('s \<Rightarrow> bool) \<Rightarrow> ('s \<Rightarrow> cache_spec) \<Rightarrow> key list \<Rightarrow> 's ttl_cache \<Rightarrow> 's ttl_cache \<Rightarrow> bool" where
  "evicted I view dropped c c' \<longleftrightarrow> tc_keys c = dropped @ tc_keys c' \<and> I (tc_store c') \<and>
     view (tc_store c') = (\<lambda>x. if x \<in> (\<Union>k\<in>set dropped. entries k) then None else view (tc_store c) x) \<and>
     tc_evictions c' = tc_evictions c + length dropped"

context cache_laws
begin

lemma evict_one:
  assumes "inv (tc_store c)" "tc_keys c = k # rest"
  shows "evicted inv view [k] c (ttl_evict B c)"
  using delete_many_law [OF assms(1), of "[value_key k, stale_key k, xfetch_key k]"]
  by (simp add: evicted_def ttl_evict_def assms(2) entries_def)

lemma evicted_trans:
  assumes "evicted inv view d1 c c1" "evicted inv view d2 c1 c2"
  shows "evicted inv view (d1 @ d2) c c2"
  using assms by (auto simp: evicted_def fun_eq_iff)

lemma ttl_evict_loop_effect:
  assumes "inv (tc_store c)" "0 < m"
  shows "\<exists>dropped. evicted inv view dropped c (ttl_evict_loop B m c) \<and> (m \<le> length (tc_keys c) \<longrightarrow> length (tc_keys (ttl_evict_loop B m c)) = m - 1)
    \<and> (length (tc_keys c) < m \<longrightarrow> dropped = [])"
  using assms(1)
proof (induction "tc_keys c" arbitrary: c)
  case Nil
  then show ?case using assms(2) by (simp add: ttl_evict_loop.simps evicted_def)
next
  case (Cons k rest)
  let ?c = "ttl_evict B c"
  note ks = Cons.hyps(2) [symmetric]
  have one: "evicted inv view [k] c ?c" by (rule evict_one [OF Cons.prems ks])
  then have e: "rest = tc_keys ?c" "inv (tc_store ?c)" using ks by (simp_all add: evicted_def)
  show ?case
  proof (cases "m \<le> length (tc_keys c)")
    case False
    then show ?thesis using Cons.prems by (simp add: ttl_evict_loop.simps evicted_def)
  next
    case True
    then have step: "ttl_evict_loop B m c = ttl_evict_loop B m ?c" using ks by (subst ttl_evict_loop.simps) simp
    from Cons.hyps(1) [OF e] obtain dropped where d: "evicted inv view dropped ?c (ttl_evict_loop B m ?c)"
      "m \<le> length (tc_keys ?c) \<longrightarrow> length (tc_keys (ttl_evict_loop B m ?c)) = m - 1"
      "length (tc_keys ?c) < m \<longrightarrow> dropped = []" by blast
    have "length (tc_keys (ttl_evict_loop B m ?c)) = m - 1"
      using d True ks e(1) by (cases "m \<le> length (tc_keys ?c)") (auto simp: evicted_def)
    then show ?thesis unfolding step using evicted_trans [OF one d(1)] True by (intro exI [of _ "[k] @ dropped"]) simp
  qed
qed

lemma make_room_effect:
  assumes "inv (tc_store c)"
  shows "\<exists>dropped. evicted inv view dropped c (make_room B cfg k c) \<and> k \<notin> set dropped \<and>
    (0 < cfg_maxsize cfg \<and> k \<notin> set (tc_keys c) \<longrightarrow> length (tc_keys (make_room B cfg k c)) < cfg_maxsize cfg)"
proof (cases "0 < cfg_maxsize cfg \<and> k \<notin> set (tc_keys c)")
  case True
  then obtain dropped where d: "evicted inv view dropped c (ttl_evict_loop B (cfg_maxsize cfg) c)"
    "cfg_maxsize cfg \<le> length (tc_keys c) \<longrightarrow> length (tc_keys (ttl_evict_loop B (cfg_maxsize cfg) c)) = cfg_maxsize cfg - 1"
    "length (tc_keys c) < cfg_maxsize cfg \<longrightarrow> dropped = []"
    using ttl_evict_loop_effect [OF assms] by blast
  then have "length (tc_keys (ttl_evict_loop B (cfg_maxsize cfg) c)) < cfg_maxsize cfg"
    using True by (cases "cfg_maxsize cfg \<le> length (tc_keys c)") (auto simp: evicted_def)
  moreover have "k \<notin> set dropped" using True d(1) by (auto simp: evicted_def)
  ultimately show ?thesis using True d(1) unfolding make_room_def by auto
qed (auto simp: make_room_def assms evicted_def)

text \<open>The state of a store that holds a successful write of \<open>k\<close>, next to what the eviction left.\<close>

lemma set_effect:
  assumes "inv (tc_store c)" "serialize S v = Inr raw" "\<not> not_positive ttl" "\<not> not_positive stale_ttl"
  shows "\<exists>dropped c1 c'. ttl_set B cfg S t1 t2 k v ttl tags stale_ttl c = (Inr (), c') \<and> inv (tc_store c') \<and>
    c1 = make_room B cfg k c \<and> evicted inv view dropped c c1 \<and> k \<notin> set dropped \<and>
    tc_keys c' = (if 0 < cfg_maxsize cfg then promote k (tc_keys c1) else tc_keys c1) \<and>
    view (tc_store c') = (let stored = (view (tc_store c1))(value_key k \<mapsto> (raw, t1 + entry_ttl cfg ttl, set tags))
                          in case stale_ttl of None \<Rightarrow> stored
                             | Some extra \<Rightarrow> stored(stale_key k \<mapsto> (raw, t2 + (entry_ttl cfg ttl + extra), set tags)))"
proof -
  let ?c = "make_room B cfg k c"
  obtain dropped where d: "evicted inv view dropped c ?c" "k \<notin> set dropped"
    using make_room_effect [OF assms(1), of cfg k] by blast
  then have inv: "inv (tc_store ?c)" by (simp add: evicted_def)
  note s1 = set_law [OF inv, of t1 "value_key k" raw "entry_ttl cfg ttl" tags]
  note s2 = set_law [OF conjunct1 [OF s1], of t2 "stale_key k" raw _ tags]
  show ?thesis
    using assms(2-4) d s1 s2
    by (intro exI [of _ dropped]) (auto simp: ttl_set_def Let_def promote_if_def split: option.split)
qed

lemma set_error:
  "ttl_set B cfg S t1 t2 k v ttl tags stale_ttl c = (Inl e, c') \<Longrightarrow> c' = c"
  by (auto simp: ttl_set_def Let_def split: if_splits sum.splits)

end

section \<open>Steps\<close>

text \<open>
  A cache in use: \<open>lru_step\<close> has the operations that keep the local bookkeeping in line with the store,
  \<open>set_many\<close> and \<open>delete_tags\<close> are not among them. Failed calls are steps too.
\<close>

inductive lru_step :: "'s cache_backend \<Rightarrow> ttl_config \<Rightarrow> 'v serializer option \<Rightarrow> 's ttl_cache \<Rightarrow> 's ttl_cache \<Rightarrow> bool"
  for B cfg S
where
  step_get: "plain_key k \<Longrightarrow> lru_step B cfg S c (snd (ttl_get B cfg S t k c))"
| step_get_many: "list_all plain_key ks \<Longrightarrow> lru_step B cfg S c (snd (ttl_get_many B cfg S t ks c))"
| step_set: "plain_key k \<Longrightarrow> lru_step B cfg S c (snd (ttl_set B cfg S t1 t2 k v ttl tags stale_ttl c))"
| step_get_or_set: "plain_key k \<Longrightarrow>
    lru_step B cfg S c (snd (ttl_get_or_set B cfg S t1 t2 t3 t4 t5 k outcome ttl tags stale_ttl c))"
| step_delete: "plain_key k \<Longrightarrow> lru_step B cfg S c (ttl_delete B k c)"
| step_delete_many: "list_all plain_key ks \<Longrightarrow> lru_step B cfg S c (ttl_delete_many B ks c)"
| step_clear: "lru_step B cfg S c (ttl_clear B c)"

definition lru_inv :: "('s \<Rightarrow> bool) \<Rightarrow> ('s \<Rightarrow> cache_spec) \<Rightarrow> ttl_config \<Rightarrow> 's ttl_cache \<Rightarrow> bool" where
  "lru_inv I view cfg c \<longleftrightarrow> I (tc_store c) \<and> distinct (tc_keys c) \<and> length (tc_keys c) \<le> cfg_maxsize cfg \<and>
     (\<forall>k. plain_key k \<and> view (tc_store c) (value_key k) \<noteq> None \<longrightarrow> k \<in> set (tc_keys c))"

lemma dget_drop_prefix:
  "(\<And>f. f \<in> fst ` set raw \<Longrightarrow> \<exists>j. f = value_key j) \<Longrightarrow>
   dget (map (\<lambda>(full, v). (drop 6 full, v)) raw) k = dget raw (value_key k)"
proof (induction raw)
  case (Cons r raw)
  obtain j where j: "fst r = value_key j" using Cons.prems [of "fst r"] by auto
  have "drop 6 (value_key j) = j" by (simp add: value_key_def)
  then show ?case using Cons j by (cases r) auto
qed simp

context cache_laws
begin

lemma lru_weaken:
  assumes "lru_inv inv view cfg c" "inv s" "view s \<subseteq>\<^sub>m view (tc_store c)" "tc_store c' = s"
    "tc_keys c' = tc_keys c \<or> (\<exists>k \<in> set (tc_keys c). tc_keys c' = promote k (tc_keys c))"
  shows "lru_inv inv view cfg c'"
proof -
  have "distinct (tc_keys c')" "length (tc_keys c') \<le> cfg_maxsize cfg" "set (tc_keys c') = set (tc_keys c)"
    using assms(1,5) by (auto simp: lru_inv_def promote_distinct promote_length)
  moreover have "view (tc_store c) x \<noteq> None" if "view s x \<noteq> None" for x
    using assms(3) that by (auto simp: map_le_def dom_def)
  ultimately show ?thesis using assms(1,2,4) unfolding lru_inv_def by auto
qed

lemma get_effect:
  assumes "inv (tc_store c)"
  shows "fst (ttl_get B cfg S t k c) = (case value_at t (view (tc_store c)) (value_key k) of
             None \<Rightarrow> Inr None | Some raw \<Rightarrow> map_sum id Some (deserialize S raw))"
    and "tc_store (snd (ttl_get B cfg S t k c)) = snd (cb_get B t (value_key k) (tc_store c))"
    and "tc_keys (snd (ttl_get B cfg S t k c)) =
      (if value_at t (view (tc_store c)) (value_key k) \<noteq> None \<and> 0 < cfg_maxsize cfg then promote k (tc_keys c) else tc_keys c)"
  using get_value [OF assms, of t "value_key k"]
  by (auto simp: ttl_get_def promote_if_def split: prod.split option.split)

lemma peek_effect:
  assumes "inv (tc_store c)"
  shows "fst (ttl_peek B S t k c) = (case value_at t (view (tc_store c)) (value_key k) of
             None \<Rightarrow> Inr None | Some raw \<Rightarrow> map_sum id Some (deserialize S raw))"
    and "snd (ttl_peek B S t k c) = c\<lparr>tc_store := snd (cb_get B t (value_key k) (tc_store c))\<rparr>"
  using get_value [OF assms, of t "value_key k"]
  by (auto simp: ttl_peek_def split: prod.split option.split)

lemma stale_effect:
  assumes "inv (tc_store c)"
  shows "fst (ttl_read_stale B S t k c) = (case value_at t (view (tc_store c)) (stale_key k) of
             None \<Rightarrow> Inr None | Some raw \<Rightarrow> map_sum id Some (deserialize S raw))"
    and "snd (ttl_read_stale B S t k c) = c\<lparr>tc_store := snd (cb_get B t (stale_key k) (tc_store c))\<rparr>"
  using get_value [OF assms, of t "stale_key k"]
  by (auto simp: ttl_read_stale_def split: prod.split option.split)

lemma lru_get:
  assumes "lru_inv inv view cfg c" "plain_key k"
  shows "lru_inv inv view cfg (snd (ttl_get B cfg S t k c))"
proof -
  have i: "inv (tc_store c)" using assms(1) by (simp add: lru_inv_def)
  have "value_at t (view (tc_store c)) (value_key k) \<noteq> None \<Longrightarrow> k \<in> set (tc_keys c)"
    using assms by (auto simp: value_at_def lru_inv_def split: option.splits)
  then show ?thesis
    using get_effect(2,3) [OF i, of cfg S t k]
    by (intro lru_weaken [OF assms(1) conjunct1 [OF get_keeps [OF i]] reads_drop [OF i]]) (auto split: if_splits)
qed

lemma lru_read:
  assumes "lru_inv inv view cfg c" "c' = c\<lparr>tc_store := snd (cb_get B t x (tc_store c))\<rparr>"
  shows "lru_inv inv view cfg c'"
proof -
  have i: "inv (tc_store c)" using assms(1) by (simp add: lru_inv_def)
  show ?thesis
    unfolding assms(2) by (rule lru_weaken [OF assms(1) conjunct1 [OF get_keeps [OF i]] reads_drop [OF i]]) simp_all
qed

lemma lru_collect:
  assumes "lru_inv inv view cfg c" "\<And>k. k \<in> set ks \<Longrightarrow> dget found k \<noteq> None \<Longrightarrow> k \<in> set (tc_keys c)"
  shows "lru_inv inv view cfg (snd (collect_found cfg S found ks result c))"
  using assms
proof (induction ks arbitrary: result c)
  case (Cons k ks)
  let ?miss = "c\<lparr>tc_misses := tc_misses c + 1\<rparr>" let ?hit = "promote_if cfg k (c\<lparr>tc_hits := tc_hits c + 1\<rparr>)"
  have i: "inv (tc_store c)" using Cons.prems(1) by (simp add: lru_inv_def)
  have miss: "lru_inv inv view cfg ?miss" using Cons.prems(1) by (simp add: lru_inv_def)
  have hit: "lru_inv inv view cfg ?hit" if "dget found k \<noteq> None"
    using that Cons.prems(2) [of k]
    by (intro lru_weaken [OF Cons.prems(1) i map_le_refl]) (auto simp: promote_if_def)
  have same: "set (tc_keys ?hit) = set (tc_keys c)" if "dget found k \<noteq> None"
    using that Cons.prems(2) [of k] by (auto simp: promote_if_def)
  show ?case
  proof (cases "dget found k")
    case None
    then show ?thesis using Cons.IH [OF miss] Cons.prems(2) by simp
  next
    case (Some raw)
    then show ?thesis using Cons.IH [OF hit] hit same Cons.prems(2) by (auto simp: Let_def split: sum.split)
  qed
qed simp

lemma lru_get_many:
  assumes "lru_inv inv view cfg c" "list_all plain_key ks"
  shows "lru_inv inv view cfg (snd (ttl_get_many B cfg S t ks c))"
proof -
  let ?raw = "fst (cb_get_many B t (map value_key ks) (tc_store c))"
  let ?c = "c\<lparr>tc_store := snd (cb_get_many B t (map value_key ks) (tc_store c))\<rparr>"
  have i: "inv (tc_store c)" using assms(1) by (simp add: lru_inv_def)
  have c: "lru_inv inv view cfg ?c"
    by (rule lru_weaken [OF assms(1) conjunct1 [OF get_many_keeps [OF i]] reads_many_drop [OF i]]) simp_all
  have raw: "dget ?raw f = (if f \<in> value_key ` set ks then value_at t (view (tc_store c)) f else None)" for f
    using get_many_value [OF i, of t "map value_key ks" f] by simp
  have "\<exists>j. f = value_key j" if "f \<in> fst ` set ?raw" for f
  proof -
    have "dget ?raw f \<noteq> None" using that by (auto simp: map_of_eq_None_iff)
    then show ?thesis unfolding raw by (auto split: if_splits)
  qed
  then have found: "dget (map (\<lambda>(full, v). (drop 6 full, v)) ?raw) k = dget ?raw (value_key k)" for k
    by (rule dget_drop_prefix)
  have "k \<in> set (tc_keys ?c)" if "k \<in> set ks" "dget (map (\<lambda>(full, v). (drop 6 full, v)) ?raw) k \<noteq> None" for k
    using that assms found [of k] unfolding raw
    by (auto simp: value_at_def lru_inv_def list_all_iff split: option.splits if_splits)
  then have "lru_inv inv view cfg (snd (collect_found cfg S (map (\<lambda>(full, v). (drop 6 full, v)) ?raw) ks [] ?c))"
    by (intro lru_collect [OF c]) auto
  then show ?thesis using assms(1) by (simp add: ttl_get_many_def split_beta Let_def)
qed

end

context cache_laws
begin

lemma lru_set:
  assumes "lru_inv inv view cfg c" "plain_key k" "0 < cfg_maxsize cfg"
  shows "lru_inv inv view cfg (snd (ttl_set B cfg S t1 t2 k v ttl tags stale_ttl c))"
proof (cases "ttl_set B cfg S t1 t2 k v ttl tags stale_ttl c")
  case (Pair r c')
  show ?thesis
  proof (cases r)
    case (Inl e)
    then show ?thesis using Pair set_error [of cfg S t1 t2 k v ttl tags stale_ttl c e c'] assms(1) by simp
  next
    case (Inr u)
    have i: "inv (tc_store c)" using assms(1) by (simp add: lru_inv_def)
    obtain raw where ok: "serialize S v = Inr raw" "\<not> not_positive ttl" "\<not> not_positive stale_ttl"
      using Pair Inr by (auto simp: ttl_set_def split: if_splits sum.splits)
    let ?c = "make_room B cfg k c"
    obtain dropped where d: "evicted inv view dropped c ?c" "k \<notin> set dropped" "inv (tc_store c')"
      "tc_keys c' = promote k (tc_keys ?c)"
      "view (tc_store c') = (let stored = (view (tc_store ?c))(value_key k \<mapsto> (raw, t1 + entry_ttl cfg ttl, set tags))
                          in case stale_ttl of None \<Rightarrow> stored
                             | Some extra \<Rightarrow> stored(stale_key k \<mapsto> (raw, t2 + (entry_ttl cfg ttl + extra), set tags)))"
      using set_effect [OF i ok, of cfg t1 t2 k tags] Pair assms(3) by auto
    have room: "k \<notin> set (tc_keys c) \<longrightarrow> length (tc_keys ?c) < cfg_maxsize cfg"
      using make_room_effect [OF i, of cfg k] assms(3) by blast
    have keys: "tc_keys c = dropped @ tc_keys ?c" using d(1) by (simp add: evicted_def)
    have same: "k \<in> set (tc_keys c) \<longleftrightarrow> k \<in> set (tc_keys ?c)" using d(2) keys by auto
    have "length (tc_keys c') \<le> cfg_maxsize cfg" "distinct (tc_keys c')"
      using assms(1) room same keys unfolding d(4) lru_inv_def by (auto simp: promote_length promote_distinct)
    moreover have "j \<in> set (tc_keys c')" if j: "plain_key j" "view (tc_store c') (value_key j) \<noteq> None" for j
    proof (cases "j = k")
      case False
      then have "view (tc_store ?c) (value_key j) \<noteq> None"
        using j(2) plain_value_key [OF j(1)] unfolding d(5) by (auto simp: Let_def split: option.splits if_splits)
      then have "view (tc_store c) (value_key j) \<noteq> None" "j \<notin> set dropped"
        using d(1) by (auto simp: evicted_def entries_def split: if_splits)
      then show ?thesis using assms(1) j(1) keys unfolding d(4) lru_inv_def by auto
    qed (simp add: d(4))
    ultimately show ?thesis using Pair d(3) by (simp add: lru_inv_def)
  qed
qed

lemma lru_get_or_set:
  assumes "lru_inv inv view cfg c" "plain_key k" "0 < cfg_maxsize cfg"
  shows "lru_inv inv view cfg (snd (ttl_get_or_set B cfg S t1 t2 t3 t4 t5 k outcome ttl tags stale_ttl c))"
proof -
  define c1 where "c1 = snd (ttl_get B cfg S t1 k c)"
  define c2 where "c2 = snd (ttl_peek B S t2 k c1)"
  define r where "r = (case ttl_peek B S t2 k c1 of
                   (Inl e, c2) \<Rightarrow> (Inl (CacheRaised e), c2)
                 | (Inr (Some v), c2) \<Rightarrow> (Inr v, c2)
                 | (Inr None, c2) \<Rightarrow> ttl_compute B cfg S t3 t4 k outcome ttl tags stale_ttl c2)"
  have i1: "lru_inv inv view cfg c1" unfolding c1_def by (rule lru_get [OF assms(1,2)])
  then have i2: "lru_inv inv view cfg c2"
    unfolding c2_def by (rule lru_read [OF _ peek_effect(2)]) (use i1 in \<open>simp_all add: lru_inv_def\<close>)
  have comp: "lru_inv inv view cfg (snd (ttl_compute B cfg S t3 t4 k outcome ttl tags stale_ttl c2))"
    using i2 lru_set [OF i2 assms(2,3), of S t3 t4 _ ttl tags stale_ttl]
    by (auto simp: ttl_compute_def split: sum.split prod.split) (metis snd_conv)+
  have i3: "lru_inv inv view cfg (snd r)"
    using i2 comp unfolding r_def c2_def by (auto split: prod.splits sum.splits option.splits)
  have i4: "lru_inv inv view cfg (snd (ttl_read_stale B S t5 k (snd r)))"
    by (rule lru_read [OF i3 stale_effect(2)]) (use i3 in \<open>simp add: lru_inv_def\<close>)
  show ?thesis using i1 i3 i4 unfolding ttl_get_or_set_def r_def c1_def
    by (auto split: prod.splits sum.splits option.splits)
qed

lemma lru_delete_many:
  assumes "lru_inv inv view cfg c" "list_all plain_key ks"
  shows "lru_inv inv view cfg (ttl_delete_many B ks c)"
proof (cases "ks = []")
  case False
  have i: "inv (tc_store c)" using assms(1) by (simp add: lru_inv_def)
  have keys: "fold removeAll ks xs = filter (\<lambda>k. k \<notin> set ks) xs" for xs :: "key list"
    by (induction ks arbitrary: xs) (auto simp: removeAll_filter_not_eq intro: filter_cong)
  have d: "length (filter P (tc_keys c)) \<le> cfg_maxsize cfg" for P
    using assms(1) unfolding lru_inv_def by (meson le_trans length_filter_le)
  show ?thesis
    using assms False d delete_many_law [OF i, of "map value_key ks @ map stale_key ks"]
    by (auto simp: lru_inv_def ttl_delete_many_def keys split: if_splits)
qed (simp add: ttl_delete_many_def assms)

lemma ttl_delete_one: "ttl_delete B k c = ttl_delete_many B [k] c"
  by (simp add: ttl_delete_def ttl_delete_many_def)

lemma lru_step_inv:
  assumes "lru_step B cfg S c c'" "0 < cfg_maxsize cfg" "lru_inv inv view cfg c"
  shows "lru_inv inv view cfg c'"
  using assms(1)
proof cases
  case step_clear
  then show ?thesis using assms(3) clear_law by (simp add: lru_inv_def ttl_clear_def)
qed (use assms in \<open>simp_all add: lru_get lru_get_many lru_set lru_get_or_set lru_delete_many ttl_delete_one\<close>)

lemma lru_bound:
  assumes "(lru_step B cfg S)\<^sup>*\<^sup>* (ttl_cache_init s) c" "0 < cfg_maxsize cfg" "inv s" "view s = Map.empty"
  shows "lru_inv inv view cfg c"
  using assms(1)
proof (induction rule: rtranclp_induct)
  case base
  then show ?case using assms by (simp add: lru_inv_def ttl_cache_init_def)
next
  case (step c c')
  then show ?case using lru_step_inv assms(2) by blast
qed

lemma lru_card:
  assumes "lru_inv inv view cfg c"
  shows "card {k. plain_key k \<and> view (tc_store c) (value_key k) \<noteq> None} \<le> cfg_maxsize cfg"
proof -
  have "{k. plain_key k \<and> view (tc_store c) (value_key k) \<noteq> None} \<subseteq> set (tc_keys c)"
    using assms by (auto simp: lru_inv_def)
  from card_mono [OF _ this] show ?thesis using assms by (simp add: lru_inv_def distinct_card)
qed

end

section \<open>Behaviour\<close>

context cache_laws
begin

lemma value_later: "alive t m = alive t m' \<Longrightarrow> t \<le> t' \<Longrightarrow> value_at t' m x = value_at t' m' x"
  by (simp add: value_at_alive alive_later [of t m m' t'])

text \<open>A failing factory: the reserve decides. The reads before it are in the order of their times.\<close>

lemma get_or_set_fails:
  assumes i: "inv (tc_store c)" and t: "t1 \<le> t2" "t2 \<le> t5"
    and miss: "value_at t1 (view (tc_store c)) (value_key k) = None"
  shows "fst (ttl_get_or_set B cfg S t1 t2 t3 t4 t5 k (Inl x) ttl tags stale_ttl c) =
    (case stale_ttl of None \<Rightarrow> Inl (FactoryRaised x)
     | Some _ \<Rightarrow> (case value_at t5 (view (tc_store c)) (stale_key k) of
                   None \<Rightarrow> Inl (FactoryRaised x)
                 | Some raw \<Rightarrow> map_sum CacheRaised id (deserialize S raw)))"
proof -
  define c1 where "c1 = snd (ttl_get B cfg S t1 k c)"
  define c2 where "c2 = snd (ttl_peek B S t2 k c1)"
  have g: "ttl_get B cfg S t1 k c = (Inr None, c1)"
    using get_effect(1) [OF i, of cfg S t1 k] miss by (simp add: c1_def prod_eq_iff)
  have i1: "inv (tc_store c1)" "alive t1 (view (tc_store c1)) = alive t1 (view (tc_store c))"
    using get_effect(2) [OF i, of cfg S t1 k] get_keeps [OF i, of t1 "value_key k"] by (simp_all add: c1_def)
  have "value_at t2 (view (tc_store c)) (value_key k) = None"
    using miss t(1) by (auto simp: value_at_def split: option.splits if_splits)
  then have "value_at t2 (view (tc_store c1)) (value_key k) = None" using value_later [OF i1(2) t(1)] by simp
  then have p: "ttl_peek B S t2 k c1 = (Inr None, c2)"
    using peek_effect(1) [OF i1(1), of S t2 k] by (simp add: c2_def prod_eq_iff)
  have i2: "inv (tc_store c2)" "alive t2 (view (tc_store c2)) = alive t2 (view (tc_store c1))"
    using peek_effect(2) [OF i1(1), of S t2 k] get_keeps [OF i1(1), of t2 "value_key k"] by (simp_all add: c2_def)
  have v: "value_at t5 (view (tc_store c2)) (stale_key k) = value_at t5 (view (tc_store c)) (stale_key k)"
    using value_later [OF i2(2) t(2)] value_later [OF i1(2)] t by simp
  let ?s = "value_at t5 (view (tc_store c)) (stale_key k)"
  define c3 where "c3 = snd (ttl_read_stale B S t5 k c2)"
  have st: "ttl_read_stale B S t5 k c2 = (case ?s of None \<Rightarrow> Inr None | Some raw \<Rightarrow> map_sum id Some (deserialize S raw), c3)"
    using stale_effect(1) [OF i2(1), of S t5 k, unfolded v] by (simp add: c3_def prod_eq_iff)
  show ?thesis
    by (cases stale_ttl; cases ?s; cases "deserialize S (the ?s)")
      (simp_all add: ttl_get_or_set_def g p ttl_compute_def st)
qed

lemma set_view:
  assumes "inv (tc_store c)" "ttl_set B cfg S t1 t2 k v ttl tags stale_ttl c = (Inr (), c')"
  shows "\<exists>raw. serialize S v = Inr raw \<and> inv (tc_store c') \<and>
    view (tc_store c') (value_key k) = Some (raw, t1 + entry_ttl cfg ttl, set tags) \<and>
    (\<forall>extra. stale_ttl = Some extra \<longrightarrow>
       view (tc_store c') (stale_key k) = Some (raw, t2 + (entry_ttl cfg ttl + extra), set tags))"
proof -
  obtain raw where ok: "serialize S v = Inr raw" "\<not> not_positive ttl" "\<not> not_positive stale_ttl"
    using assms(2) by (auto simp: ttl_set_def split: if_splits sum.splits)
  have "stale_key k \<noteq> value_key k" by (simp add: stale_key_def value_key_def)
  then show ?thesis
    using set_effect [OF assms(1) ok, of cfg t1 t2 k tags] assms(2) ok(1) by (auto simp: Let_def split: option.split)
qed

lemma collect_found_result:
  "collect_found cfg S found ks result c0 = (Inr d, c') \<Longrightarrow>
   dget d k = (if k \<in> set ks \<and> dget found k \<noteq> None then dget d k else dget result k) \<and>
   (k \<in> set ks \<longrightarrow> dget found k = Some raw \<longrightarrow> (\<exists>v. deserialize S raw = Inr v \<and> dget d k = Some v))"
proof (induction ks arbitrary: result c0)
  case (Cons j ks)
  show ?case
  proof (cases "dget found j")
    case None
    then show ?thesis using Cons.IH [of result "c0\<lparr>tc_misses := tc_misses c0 + 1\<rparr>"] Cons.prems by auto
  next
    case (Some raw')
    then obtain v where v: "deserialize S raw' = Inr v" using Cons.prems by (auto simp: Let_def split: sum.splits)
    let ?c = "promote_if cfg j (c0\<lparr>tc_hits := tc_hits c0 + 1\<rparr>)"
    have "collect_found cfg S found ks (dput j v result) ?c = (Inr d, c')" using Cons.prems Some v by simp
    from Cons.IH [OF this] show ?thesis using Some v by (cases "j = k"; cases "k \<in> set ks") auto
  qed
qed simp

lemma get_many_result:
  assumes "inv (tc_store c)" "ttl_get_many B cfg S t keys c = (Inr d, c')"
  shows "if k \<in> set keys then fst (ttl_get B cfg S t k c) = Inr (dget d k) else dget d k = None"
proof (cases "keys = []")
  case False
  let ?raw = "fst (cb_get_many B t (map value_key keys) (tc_store c))"
  let ?found = "map (\<lambda>(full, v). (drop 6 full, v)) ?raw"
  have raw: "dget ?raw f = (if f \<in> value_key ` set keys then value_at t (view (tc_store c)) f else None)" for f
    using get_many_value [OF assms(1), of t "map value_key keys" f] by simp
  have "\<exists>j. f = value_key j" if "f \<in> fst ` set ?raw" for f
  proof -
    have "dget ?raw f \<noteq> None" using that by (auto simp: map_of_eq_None_iff)
    then show ?thesis unfolding raw by (auto split: if_splits)
  qed
  then have found: "dget ?found k = (if k \<in> set keys then value_at t (view (tc_store c)) (value_key k) else None)"
    using dget_drop_prefix [of ?raw k] raw [of "value_key k"] by (auto simp: image_iff)
  have "collect_found cfg S ?found keys [] (c\<lparr>tc_store := snd (cb_get_many B t (map value_key keys) (tc_store c))\<rparr>) = (Inr d, c')"
    using assms(2) False by (simp add: ttl_get_many_def split_beta Let_def)
  note res = collect_found_result [OF this, of k, unfolded found]
  show ?thesis
  proof (cases "k \<in> set keys")
    case True
    then show ?thesis using res [of "the (value_at t (view (tc_store c)) (value_key k))"]
      unfolding get_effect(1) [OF assms(1)]
      by (cases "value_at t (view (tc_store c)) (value_key k)") auto
  qed (use res in auto)
qed (use assms(2) in \<open>simp add: ttl_get_many_def\<close>)

end

section \<open>Properties\<close>

text \<open>
  A cache with \<open>maxsize\<close> over an empty in-memory store never holds more values than \<open>maxsize\<close>, neither in
  its bookkeeping nor in the store, through any sequence of reads, writes, \<open>get_or_set\<close> calls with succeeding
  or failing factories, deletes and clears: a write of a new key first evicts the least recently used ones.
\<close>

theorem cache_holds_maxsize:
  assumes "(lru_step MemoryCacheAdapter cfg S)\<^sup>*\<^sup>* (ttl_cache_init memory_cache_init) c" "0 < cfg_maxsize cfg"
  shows "length (tc_keys c) \<le> cfg_maxsize cfg \<and>
    card {k. plain_key k \<and> dget (mc_data (tc_store c)) (value_key k) \<noteq> None} \<le> cfg_maxsize cfg"
proof -
  have i: "lru_inv cache_inv cache_abs cfg c"
    by (rule mc.lru_bound [OF assms memory_cache_init_inv])
  have "dget (mc_data s) x \<noteq> None \<longleftrightarrow> cache_abs s x \<noteq> None" for s x by (simp add: cache_abs_def)
  then show ?thesis using mc.lru_card [OF i] i by (simp add: lru_inv_def)
qed

theorem cache_holds_maxsize_witness:
  "card {k. plain_key k \<and> dget (mc_data (tc_store (snd (ttl_set MemoryCacheAdapter \<lparr>cfg_maxsize = 1, cfg_ttl = 60\<rparr>
     (None :: unit serializer option) 0 0 ''a'' (Bytes ''1'') None [] None (ttl_cache_init memory_cache_init))))) (value_key k) \<noteq> None} \<le> 1"
proof -
  let ?cfg = "\<lparr>cfg_maxsize = 1, cfg_ttl = 60\<rparr>"
  have "(lru_step MemoryCacheAdapter ?cfg (None :: unit serializer option))\<^sup>*\<^sup>* (ttl_cache_init memory_cache_init)
     (snd (ttl_set MemoryCacheAdapter ?cfg (None :: unit serializer option) 0 0 ''a'' (Bytes ''1'') None [] None
        (ttl_cache_init memory_cache_init)))"
    by (rule r_into_rtranclp, rule step_set) (simp add: plain_key_def)
  from cache_holds_maxsize [OF this] show ?thesis by simp
qed

text \<open>
  What a cache stores it gives back: over any store that obeys the contract, and with a serializer whose
  \<open>loads\<close> undoes its \<open>dumps\<close>, a value written by \<open>set\<close> is what \<open>get\<close> returns until the entry's time to live is
  over, and the default from then on, whatever the write had to evict to make room.
\<close>

theorem cache_set_get:
  assumes "cache_laws B I view" "I (tc_store c)" "serializer_ok S"
    "ttl_set B cfg S t1 t2 k v ttl tags stale_ttl c = (Inr (), c')"
  shows "fst (ttl_get B cfg S t k c') = Inr (if t < t1 + entry_ttl cfg ttl then Some v else None)"
proof -
  obtain raw where raw: "serialize S v = Inr raw" "I (tc_store c')"
    "view (tc_store c') (value_key k) = Some (raw, t1 + entry_ttl cfg ttl, set tags)"
    using cache_laws.set_view [OF assms(1,2,4)] by blast
  show ?thesis
    using deserialize_serialize [OF assms(3) raw(1)]
    by (simp add: cache_laws.get_effect(1) [OF assms(1) raw(2)] value_at_def raw(3))
qed

theorem cache_set_get_witness:
  "fst (ttl_get MemoryCacheAdapter \<lparr>cfg_maxsize = 1, cfg_ttl = 60\<rparr> (None :: unit serializer option) 59 ''k''
     (snd (ttl_set MemoryCacheAdapter \<lparr>cfg_maxsize = 1, cfg_ttl = 60\<rparr> None 0 0 ''k'' (Bytes ''v'') None [] None
        (ttl_cache_init memory_cache_init)))) = Inr (Some (Bytes ''v''))"
proof -
  let ?cfg = "\<lparr>cfg_maxsize = 1, cfg_ttl = 60\<rparr>" let ?c = "ttl_cache_init memory_cache_init"
  have "cache_inv (tc_store ?c)" "serializer_ok (None :: unit serializer option)"
    "ttl_set MemoryCacheAdapter ?cfg (None :: unit serializer option) 0 0 ''k'' (Bytes ''v'') None [] None ?c =
       (Inr (), snd (ttl_set MemoryCacheAdapter ?cfg None 0 0 ''k'' (Bytes ''v'') None [] None ?c))"
    by (simp_all add: ttl_cache_init_def memory_cache_init_inv serializer_ok_def ttl_set_def not_positive_def serialize_def Let_def)
  from cache_set_get [OF mc.cache_laws_axioms this, of 59] show ?thesis by (simp add: entry_ttl_def)
qed

text \<open>
  When the value is over and its recompute fails, \<open>get_or_set\<close> with a stale budget serves the copy that the
  last write with a budget kept, until that write's time to live and budget have passed; then the factory's
  error propagates.
\<close>

theorem cache_serves_stale:
  assumes "cache_laws B I view" "I (tc_store c)" "serializer_ok S"
    "ttl_set B cfg S t1 t2 k v ttl tags (Some extra) c = (Inr (), c')"
    "t1 + entry_ttl cfg ttl \<le> u1" "u1 \<le> u2" "u2 \<le> u5"
  shows "fst (ttl_get_or_set B cfg S u1 u2 u3 u4 u5 k (Inl x) ttl' tags' (Some extra') c') =
    (if u5 < t2 + (entry_ttl cfg ttl + extra) then Inr v else Inl (FactoryRaised x))"
proof -
  obtain raw where raw: "serialize S v = Inr raw" "I (tc_store c')"
    "view (tc_store c') (value_key k) = Some (raw, t1 + entry_ttl cfg ttl, set tags)"
    "view (tc_store c') (stale_key k) = Some (raw, t2 + (entry_ttl cfg ttl + extra), set tags)"
    using cache_laws.set_view [OF assms(1,2,4)] by blast
  have "value_at u1 (view (tc_store c')) (value_key k) = None" using assms(5) by (simp add: value_at_def raw(3))
  note fails = cache_laws.get_or_set_fails [OF assms(1) raw(2) assms(6,7) this]
  show ?thesis using deserialize_serialize [OF assms(3) raw(1)] by (simp add: fails value_at_def raw(4))
qed

theorem cache_serves_stale_witness:
  "fst (ttl_get_or_set MemoryCacheAdapter \<lparr>cfg_maxsize = 0, cfg_ttl = 60\<rparr> (None :: unit serializer option) 70 71 72 72 73 ''k''
     (Inl (Exc [''Exception''] [] None)) None [] (Some 30)
     (snd (ttl_set MemoryCacheAdapter \<lparr>cfg_maxsize = 0, cfg_ttl = 60\<rparr> None 0 0 ''k'' (Bytes ''v'') None [] (Some 30)
        (ttl_cache_init memory_cache_init)))) = Inr (Bytes ''v'')"
proof -
  let ?cfg = "\<lparr>cfg_maxsize = 0, cfg_ttl = 60\<rparr>" let ?c = "ttl_cache_init memory_cache_init"
  have "cache_inv (tc_store ?c)" "serializer_ok (None :: unit serializer option)"
    "ttl_set MemoryCacheAdapter ?cfg (None :: unit serializer option) 0 0 ''k'' (Bytes ''v'') None [] (Some 30) ?c =
       (Inr (), snd (ttl_set MemoryCacheAdapter ?cfg None 0 0 ''k'' (Bytes ''v'') None [] (Some 30) ?c))"
    "(0::real) + entry_ttl ?cfg None \<le> 70" "(70::real) \<le> 71" "(71::real) \<le> 73"
    by (simp_all add: ttl_cache_init_def memory_cache_init_inv serializer_ok_def ttl_set_def not_positive_def serialize_def
        Let_def entry_ttl_def)
  from cache_serves_stale [OF mc.cache_laws_axioms this] show ?thesis by (simp add: entry_ttl_def)
qed

text \<open>
  An explicit delete is final: after \<open>delete\<close> no \<open>get_or_set\<close> of the key returns anything but what its own
  factory produces, so a failing factory's error propagates even with a stale budget.
\<close>

theorem cache_delete_final:
  assumes "cache_laws B I view" "I (tc_store c)" "t1 \<le> t2" "t2 \<le> t5"
  shows "fst (ttl_get_or_set B cfg S t1 t2 t3 t4 t5 k (Inl x) ttl tags stale_ttl (ttl_delete B k c)) = Inl (FactoryRaised x)"
proof -
  let ?c = "ttl_delete B k c"
  have i: "I (tc_store ?c)" and gone: "view (tc_store ?c) (value_key k) = None" "view (tc_store ?c) (stale_key k) = None"
    using cache_laws.delete_many_law [OF assms(1,2), of "[value_key k, stale_key k]"] by (simp_all add: ttl_delete_def)
  have "value_at t1 (view (tc_store ?c)) (value_key k) = None" by (simp add: value_at_def gone)
  note fails = cache_laws.get_or_set_fails [OF assms(1) i assms(3,4) this]
  show ?thesis by (simp add: fails value_at_def gone split: option.split)
qed

theorem cache_delete_final_witness:
  "fst (ttl_get_or_set MemoryCacheAdapter \<lparr>cfg_maxsize = 0, cfg_ttl = 60\<rparr> (None :: unit serializer option) 1 2 3 3 4 ''k''
     (Inl (Exc [''Exception''] [] None)) None [] (Some 30) (ttl_delete MemoryCacheAdapter ''k'' (ttl_cache_init memory_cache_init))) =
   Inl (FactoryRaised (Exc [''Exception''] [] None))"
proof -
  have "cache_inv (tc_store (ttl_cache_init memory_cache_init))" by (simp add: ttl_cache_init_def memory_cache_init_inv)
  from cache_delete_final [OF mc.cache_laws_axioms this, of 1 2 4] show ?thesis by simp
qed

text \<open>
  \<open>get_many\<close> is the same as one \<open>get\<close> per key at the same time: when it returns, its answer has for each
  asked key the value \<open>get\<close> finds and nothing for a key that is missing or was not asked for.
\<close>

theorem cache_get_many_agrees:
  assumes "cache_laws B I view" "I (tc_store c)" "ttl_get_many B cfg S t keys c = (Inr d, c')"
  shows "if k \<in> set keys then fst (ttl_get B cfg S t k c) = Inr (dget d k) else dget d k = None"
  by (rule cache_laws.get_many_result [OF assms])

theorem cache_get_many_agrees_witness:
  "fst (ttl_get MemoryCacheAdapter \<lparr>cfg_maxsize = 0, cfg_ttl = 60\<rparr> (None :: unit serializer option) 1 ''k''
     (ttl_cache_init memory_cache_init)) = Inr (dget [] ''k'')"
proof -
  let ?cfg = "\<lparr>cfg_maxsize = 0, cfg_ttl = 60\<rparr>" let ?c = "ttl_cache_init memory_cache_init"
  have "cache_inv (tc_store ?c)" by (simp add: ttl_cache_init_def memory_cache_init_inv)
  moreover have "ttl_get_many MemoryCacheAdapter ?cfg (None :: unit serializer option) 1 [''k''] ?c =
      (Inr [], snd (ttl_get_many MemoryCacheAdapter ?cfg (None :: unit serializer option) 1 [''k''] ?c))"
    by (simp add: ttl_get_many_def MemoryCacheAdapter_def cache_get_many_def ttl_cache_init_def memory_cache_init_def)
  ultimately show ?thesis using cache_get_many_agrees [OF mc.cache_laws_axioms, of ?c ?cfg "None :: unit serializer option" 1 "[''k'']"]
    by fastforce
qed

section \<open>Where the bookkeeping and the reserve fall short\<close>

lemma ttl_evict_loop_stop: "length (tc_keys c) < m \<Longrightarrow> ttl_evict_loop B m c = c"
  by (simp add: ttl_evict_loop.simps)

lemma ttl_evict_loop_go: "m \<le> length (tc_keys c) \<Longrightarrow> 0 < m \<Longrightarrow> ttl_evict_loop B m c = ttl_evict_loop B m (ttl_evict B c)"
  by (subst ttl_evict_loop.simps) auto

lemmas ttl_cache_eval = ttl_set_def ttl_set_many_def ttl_get_def ttl_get_or_set_def ttl_peek_def ttl_compute_def
  ttl_read_stale_def ttl_delete_tags_def make_room_def ttl_evict_loop_stop ttl_evict_loop_go ttl_evict_def promote_if_def promote_def
  entry_ttl_def not_positive_def serialize_def deserialize_def value_key_def stale_key_def xfetch_key_def
  ttl_cache_init_def MemoryCacheAdapter_def memory_cache_init_def cache_set_def cache_set_many_def cache_get_def
  cache_associate_def cache_delete_many_def cache_delete_tags_def cache_delete_tag_def cache_drop_def
  remove_from_tags_def Let_def

text \<open>
  A write without a budget leaves the copy of an earlier write: a later failing recompute serves a value
  older than the most recent one.
\<close>

theorem stale_copy_outlives_newer_value:
  fixes S :: "unit serializer option" and cfg :: ttl_config
  defines "S \<equiv> None" and "cfg \<equiv> \<lparr>cfg_maxsize = 0, cfg_ttl = 10\<rparr>"
  defines "c1 \<equiv> snd (ttl_set MemoryCacheAdapter cfg S 0 0 ''k'' (Bytes ''old'') None [] (Some 100) (ttl_cache_init memory_cache_init))"
  defines "c2 \<equiv> snd (ttl_set MemoryCacheAdapter cfg S 5 5 ''k'' (Bytes ''new'') None [] None c1)"
  shows "fst (ttl_get MemoryCacheAdapter cfg S 6 ''k'' c2) = Inr (Some (Bytes ''new''))"
    and "fst (ttl_get_or_set MemoryCacheAdapter cfg S 20 20 20 20 20 ''k'' (Inl x) None [] (Some 100) c2) = Inr (Bytes ''old'')"
proof -
  have c1: "c1 = \<lparr>tc_store = \<lparr>mc_data = [(''cache:k'', ''old'', 10), (stale_key ''k'', ''old'', 110)], mc_tag_keys = [], mc_key_tags = []\<rparr>,
      tc_hits = 0, tc_misses = 0, tc_evictions = 0, tc_keys = []\<rparr>"
    by (simp add: c1_def S_def cfg_def ttl_cache_eval)
  have c2: "c2 = \<lparr>tc_store = \<lparr>mc_data = [(''cache:k'', ''new'', 15), (stale_key ''k'', ''old'', 110)], mc_tag_keys = [], mc_key_tags = []\<rparr>,
      tc_hits = 0, tc_misses = 0, tc_evictions = 0, tc_keys = []\<rparr>"
    by (simp add: c2_def c1 S_def cfg_def ttl_cache_eval)
  show "fst (ttl_get MemoryCacheAdapter cfg S 6 ''k'' c2) = Inr (Some (Bytes ''new''))"
    by (simp add: c2 S_def cfg_def ttl_cache_eval)
  let ?c3 = "\<lparr>tc_store = \<lparr>mc_data = [(stale_key ''k'', ''old'', 110)], mc_tag_keys = [], mc_key_tags = []\<rparr>,
      tc_hits = 0, tc_misses = 1, tc_evictions = 0, tc_keys = []\<rparr>"
  have "ttl_get MemoryCacheAdapter cfg S 20 ''k'' c2 = (Inr None, ?c3)" "ttl_peek MemoryCacheAdapter S 20 ''k'' ?c3 = (Inr None, ?c3)"
    "ttl_read_stale MemoryCacheAdapter S 20 ''k'' ?c3 = (Inr (Some (Bytes ''old'')), ?c3)"
    by (simp_all add: c2 S_def cfg_def ttl_cache_eval)
  then show "fst (ttl_get_or_set MemoryCacheAdapter cfg S 20 20 20 20 20 ''k'' (Inl x) None [] (Some 100) c2) = Inr (Bytes ''old'')"
    by (simp add: ttl_get_or_set_def ttl_compute_def)
qed

text \<open>
  \<open>set_many\<close> evicts before it writes and then writes every pair: with more pairs than \<open>maxsize\<close> the store
  holds all of them, one that the bookkeeping no longer knows among them.
\<close>

theorem set_many_exceeds_maxsize:
  "let cfg = \<lparr>cfg_maxsize = 2, cfg_ttl = 10\<rparr>; S = (None :: unit serializer option);
       c = snd (ttl_set_many MemoryCacheAdapter cfg S 0 [(''a'', Bytes ''1''), (''b'', Bytes ''2''), (''c'', Bytes ''3'')] None []
             (ttl_cache_init memory_cache_init))
   in tc_keys c = [''b'', ''c''] \<and> length (mc_data (tc_store c)) = 3 \<and> fst (ttl_get MemoryCacheAdapter cfg S 1 ''a'' c) = Inr (Some (Bytes ''1''))"
  by (simp add: ttl_cache_eval)

text \<open>After \<open>delete_tags\<close> the bookkeeping is empty although entries remain; a hit then takes it past \<open>maxsize\<close>.\<close>

theorem delete_tags_exceeds_maxsize:
  "let cfg = \<lparr>cfg_maxsize = 1, cfg_ttl = 10\<rparr>; S = (None :: unit serializer option);
       c1 = snd (ttl_set MemoryCacheAdapter cfg S 0 0 ''a'' (Bytes ''1'') None [] None (ttl_cache_init memory_cache_init));
       c2 = ttl_delete_tags MemoryCacheAdapter [''t''] c1;
       c3 = snd (ttl_set MemoryCacheAdapter cfg S 1 1 ''b'' (Bytes ''2'') None [] None c2);
       c4 = snd (ttl_get MemoryCacheAdapter cfg S 2 ''a'' c3)
   in tc_keys c4 = [''b'', ''a'']"
  by (simp add: ttl_cache_eval)

end
