(* ===== verification/Stampede.thy ===== *)
theory Stampede
  imports Prelude
begin

text \<open>
  Stampede protection (\<open>cache/_stampede.py\<close>): the registry of per-key locks with its budget, and the callers
  of \<open>compute_with_stampede\<close> in one process as a step relation. A step is what a task does between two
  points where it may be suspended. \<open>asyncio.Lock\<close> is a holder and a queue: a caller takes a free lock with an
  empty queue at once and queues up otherwise, a release lets the head of the queue go on. Whether the
  key's entry is in the cache is a flag that a store sets and that an expiry, a delete or an eviction clears.
\<close>

section \<open>The registry\<close>

definition PER_KEY_LOCK_BUDGET :: nat where
  "PER_KEY_LOCK_BUDGET = 1024"

type_synonym lock_id = nat
type_synonym task_id = nat

record guard_state =
  gd_locks :: "(key, lock_id) pydict"
  gd_next :: lock_id

definition guard_init :: guard_state where
  "guard_init = \<lparr>gd_locks = [], gd_next = 0\<rparr>"

text \<open>The \<open>for\<close> loop: the oldest entry whose lock is not held, deleted.\<close>

fun drop_first_idle :: "(lock_id \<Rightarrow> bool) \<Rightarrow> (key, lock_id) pydict \<Rightarrow> (key, lock_id) pydict option" where
  "drop_first_idle locked [] = None"
| "drop_first_idle locked ((k, l) # ls) =
     (if \<not> locked l then Some ls else map_option ((#) (k, l)) (drop_first_idle locked ls))"

lemma drop_first_idle_length: "drop_first_idle locked ls = Some ls' \<Longrightarrow> length ls = Suc (length ls')"
  by (induction ls arbitrary: ls') (auto split: if_splits)

function evict_idle_locks :: "(lock_id \<Rightarrow> bool) \<Rightarrow> (key, lock_id) pydict \<Rightarrow> (key, lock_id) pydict" where
  "evict_idle_locks locked ls =
     (if PER_KEY_LOCK_BUDGET < length ls
      then case drop_first_idle locked ls of None \<Rightarrow> ls | Some ls' \<Rightarrow> evict_idle_locks locked ls'
      else ls)"
  by auto
termination by (relation "measure (\<lambda>(locked, ls). length ls)") (auto dest: drop_first_idle_length)

declare evict_idle_locks.simps [simp del]

definition get_lock :: "(lock_id \<Rightarrow> bool) \<Rightarrow> key \<Rightarrow> guard_state \<Rightarrow> lock_id \<times> guard_state" where
  "get_lock locked k g =
     (case dget (gd_locks g) k of
        None \<Rightarrow>
          (gd_next g, g\<lparr>gd_locks := evict_idle_locks locked (dput k (gd_next g) (gd_locks g)), gd_next := Suc (gd_next g)\<rparr>)
      | Some l \<Rightarrow> (l, g\<lparr>gd_locks := ddel k (gd_locks g) @ [(k, l)]\<rparr>))"

section \<open>Callers\<close>

datatype caller = Idle | Waiting key lock_id | Checking key lock_id | Computing key lock_id | Finished

record stampede =
  st_guard :: guard_state
  st_holder :: "lock_id \<Rightarrow> task_id option"
  st_queue :: "lock_id \<Rightarrow> task_id list"
  st_task :: "task_id \<Rightarrow> caller"
  st_present :: "key \<Rightarrow> bool"
  st_started :: "key \<Rightarrow> nat"
  st_stored :: "key \<Rightarrow> nat"
  st_failed :: "key \<Rightarrow> nat"
  st_lost :: "key \<Rightarrow> nat"

definition stampede_init :: stampede where
  "stampede_init = \<lparr>st_guard = guard_init, st_holder = \<lambda>_. None, st_queue = \<lambda>_. [], st_task = \<lambda>_. Idle,
     st_present = \<lambda>_. False, st_started = \<lambda>_. 0, st_stored = \<lambda>_. 0, st_failed = \<lambda>_. 0, st_lost = \<lambda>_. 0\<rparr>"

text \<open>\<open>the_lock = await guard.get_lock(key)\<close> and the entry into \<open>async with the_lock\<close>, without suspension between.\<close>

definition enter :: "task_id \<Rightarrow> key \<Rightarrow> stampede \<Rightarrow> stampede" where
  "enter t k s =
     (case get_lock (\<lambda>l. st_holder s l \<noteq> None) k (st_guard s) of
        (l, g) \<Rightarrow>
          if st_holder s l = None \<and> st_queue s l = [] then
            s\<lparr>st_guard := g, st_holder := (st_holder s)(l \<mapsto> t), st_task := (st_task s)(t := Checking k l)\<rparr>
          else s\<lparr>st_guard := g, st_queue := (st_queue s)(l := st_queue s l @ [t]), st_task := (st_task s)(t := Waiting k l)\<rparr>)"

text \<open>Leaving \<open>async with the_lock\<close>.\<close>

definition leave :: "task_id \<Rightarrow> lock_id \<Rightarrow> stampede \<Rightarrow> stampede" where
  "leave t l s = s\<lparr>st_holder := (st_holder s)(l := None), st_task := (st_task s)(t := Finished)\<rparr>"

text \<open>
  \<open>resume\<close> is the head of the queue going on, \<open>give_up\<close> the cancellation of a caller that waits. \<open>hit\<close> and
  \<open>miss\<close> are the second look under the lock, \<open>store\<close> and \<open>fail\<close> the end of the computation: a result that
  is stored, or an exception, a cancellation or a result that is not cached. \<open>lose\<close> is not a step of a caller.
\<close>

inductive stampede_step :: "key set \<Rightarrow> stampede \<Rightarrow> stampede \<Rightarrow> bool" for K where
  enter: "st_task s t = Idle \<Longrightarrow> k \<in> K \<Longrightarrow> stampede_step K s (enter t k s)"
| resume: "st_task s t = Waiting k l \<Longrightarrow> st_holder s l = None \<Longrightarrow> st_queue s l = t # q \<Longrightarrow>
    stampede_step K s (s\<lparr>st_holder := (st_holder s)(l \<mapsto> t), st_queue := (st_queue s)(l := q), st_task := (st_task s)(t := Checking k l)\<rparr>)"
| give_up: "st_task s t = Waiting k l \<Longrightarrow>
    stampede_step K s (s\<lparr>st_queue := (st_queue s)(l := removeAll t (st_queue s l)), st_task := (st_task s)(t := Finished)\<rparr>)"
| hit: "st_task s t = Checking k l \<Longrightarrow> st_present s k \<Longrightarrow> stampede_step K s (leave t l s)"
| miss: "st_task s t = Checking k l \<Longrightarrow> \<not> st_present s k \<Longrightarrow>
    stampede_step K s (s\<lparr>st_task := (st_task s)(t := Computing k l), st_started := (st_started s)(k := Suc (st_started s k))\<rparr>)"
| store: "st_task s t = Computing k l \<Longrightarrow>
    stampede_step K s (leave t l (s\<lparr>st_present := (st_present s)(k := True), st_stored := (st_stored s)(k := Suc (st_stored s k))\<rparr>))"
| fail: "st_task s t = Computing k l \<Longrightarrow>
    stampede_step K s (leave t l (s\<lparr>st_failed := (st_failed s)(k := Suc (st_failed s k))\<rparr>))"
| lose: "st_present s k \<Longrightarrow>
    stampede_step K s (s\<lparr>st_present := (st_present s)(k := False), st_lost := (st_lost s)(k := Suc (st_lost s k))\<rparr>)"

section \<open>The registry within its budget\<close>

lemma evict_within: "length ls \<le> PER_KEY_LOCK_BUDGET \<Longrightarrow> evict_idle_locks locked ls = ls"
  by (simp add: evict_idle_locks.simps)

definition guard_ok :: "key set \<Rightarrow> guard_state \<Rightarrow> bool" where
  "guard_ok K g \<longleftrightarrow> dwf (gd_locks g) \<and> fst ` set (gd_locks g) \<subseteq> K \<and> (\<forall>k l. dget (gd_locks g) k = Some l \<longrightarrow> l < gd_next g) \<and>
     (\<forall>k k' l. dget (gd_locks g) k = Some l \<longrightarrow> dget (gd_locks g) k' = Some l \<longrightarrow> k = k')"

lemma dget_move_end:
  "dget (gd_locks g) k = Some l \<Longrightarrow> dget (ddel k (gd_locks g) @ [(k, l)]) = dget (gd_locks g)"
  by (rule ext) (auto simp: map_add_def split: option.split)

lemma get_lock_ok:
  assumes "guard_ok K g" "finite K" "card K \<le> PER_KEY_LOCK_BUDGET" "k \<in> K" "get_lock locked k g = (l, g')"
  shows "guard_ok K g' \<and> dget (gd_locks g') = (dget (gd_locks g))(k \<mapsto> l) \<and>
    (dget (gd_locks g) k = Some l \<or> dget (gd_locks g) k = None \<and> l = gd_next g) \<and> gd_next g \<le> gd_next g'"
proof (cases "dget (gd_locks g) k")
  case None
  let ?ls = "dput k (gd_next g) (gd_locks g)"
  have wf: "dwf ?ls" using assms(1) by (simp add: guard_ok_def pd.wf_put)
  have keys: "fst ` set ?ls \<subseteq> K" using assms(1,4) unfolding guard_ok_def dom_map_of_conv_image_fst [symmetric] AList.update_conv' by auto
  have "length ?ls = card (fst ` set ?ls)" using wf by (metis dwf_def distinct_card length_map list.set_map)
  also have "\<dots> \<le> PER_KEY_LOCK_BUDGET" using keys assms(2,3) by (meson card_mono le_trans)
  finally have "g' = g\<lparr>gd_locks := ?ls, gd_next := Suc (gd_next g)\<rparr>" "l = gd_next g"
    using assms(5) None by (auto simp: get_lock_def evict_within)
  then show ?thesis using assms(1) None wf keys
    by (auto simp: guard_ok_def fun_eq_iff less_SucI)
next
  case (Some l')
  then have g': "g' = g\<lparr>gd_locks := ddel k (gd_locks g) @ [(k, l)]\<rparr>" "l' = l" using assms(5) by (auto simp: get_lock_def)
  have "dwf (ddel k (gd_locks g))" "k \<notin> fst ` set (ddel k (gd_locks g))"
    using assms(1) pd.wf_del [of "gd_locks g" k] map_of_eq_None_iff [of "ddel k (gd_locks g)" k] by (simp_all add: guard_ok_def)
  then have "dwf (ddel k (gd_locks g) @ [(k, l)])" by (simp add: dwf_def)
  moreover have "fst ` set (ddel k (gd_locks g) @ [(k, l)]) \<subseteq> K"
    using assms(1,4) by (auto simp: guard_ok_def AList.delete_eq)
  ultimately have "dwf (ddel k (gd_locks g) @ [(k, l)])" "fst ` set (ddel k (gd_locks g) @ [(k, l)]) \<subseteq> K" by blast+
  then show ?thesis using assms(1) Some dget_move_end [OF Some [unfolded g'(2)]] by (auto simp: guard_ok_def g' fun_eq_iff)
qed

section \<open>Invariant\<close>

fun uses :: "caller \<Rightarrow> (key \<times> lock_id) option" where
  "uses (Waiting k l) = Some (k, l)"
| "uses (Checking k l) = Some (k, l)"
| "uses (Computing k l) = Some (k, l)"
| "uses _ = None"

fun holds :: "caller \<Rightarrow> lock_id option" where
  "holds (Checking k l) = Some l"
| "holds (Computing k l) = Some l"
| "holds _ = None"

fun waits :: "caller \<Rightarrow> lock_id option" where
  "waits (Waiting k l) = Some l"
| "waits _ = None"

fun computes :: "caller \<Rightarrow> key option" where
  "computes (Computing k l) = Some k"
| "computes _ = None"

text \<open>
  Every caller that waits, looks or computes does so on the lock the registry has for its key, a caller
  past the queue holds it, the queue of a lock has exactly its waiting callers, and the counts add up.
\<close>

definition wiring :: "key set \<Rightarrow> stampede \<Rightarrow> bool" where
  "wiring K s \<longleftrightarrow> guard_ok K (st_guard s) \<and>
     (\<forall>t k l. uses (st_task s t) = Some (k, l) \<longrightarrow> dget (gd_locks (st_guard s)) k = Some l) \<and>
     (\<forall>t l. st_holder s l = Some t \<longleftrightarrow> holds (st_task s t) = Some l) \<and>
     (\<forall>t l. t \<in> set (st_queue s l) \<longleftrightarrow> waits (st_task s t) = Some l) \<and> (\<forall>l. distinct (st_queue s l))"

definition busy :: "stampede \<Rightarrow> key \<Rightarrow> bool" where
  "busy s k \<longleftrightarrow> (\<exists>t. computes (st_task s t) = Some k)"

definition counts :: "stampede \<Rightarrow> bool" where
  "counts s \<longleftrightarrow> (\<forall>k. st_stored s k = st_lost s k + of_bool (st_present s k) \<and>
     st_started s k = st_stored s k + st_failed s k + of_bool (busy s k) \<and> (busy s k \<longrightarrow> \<not> st_present s k))"

lemma computes_uses: "computes c = Some k \<Longrightarrow> \<exists>l. uses c = Some (k, l) \<and> holds c = Some l"
  by (cases c) auto

lemma holds_uses: "holds c = Some l \<Longrightarrow> \<exists>k. uses c = Some (k, l)"
  by (cases c) auto

lemma waits_uses: "waits c = Some l \<Longrightarrow> \<exists>k. uses c = Some (k, l)"
  by (cases c) auto

lemma one_computes:
  assumes "wiring K s" "computes (st_task s t) = Some k" "computes (st_task s t') = Some k"
  shows "t = t'"
proof -
  obtain l l' where l: "uses (st_task s t) = Some (k, l)" "holds (st_task s t) = Some l"
    "uses (st_task s t') = Some (k, l')" "holds (st_task s t') = Some l'"
    using computes_uses assms(2,3) by metis
  then have "l = l'" using assms(1) unfolding wiring_def by (metis option.inject)
  then show ?thesis using l assms(1) unfolding wiring_def by (metis option.inject)
qed

lemma busy_upd: "busy (s\<lparr>st_task := (st_task s)(t := c)\<rparr>) k \<longleftrightarrow> computes c = Some k \<or> (\<exists>t'. t' \<noteq> t \<and> computes (st_task s t') = Some k)"
  by (auto simp: busy_def)

lemma busy_ends:
  assumes "wiring K s" "st_task s t = Computing k l"
  shows "busy s k'  \<longleftrightarrow> k' = k \<or> busy (s\<lparr>st_task := (st_task s)(t := Finished)\<rparr>) k'"
    "\<not> busy (s\<lparr>st_task := (st_task s)(t := Finished)\<rparr>) k"
  using assms one_computes [OF assms(1)] unfolding busy_upd by (auto simp: busy_def) (metis computes.simps(1) option.inject)+

lemma busy_cong: "(\<And>t. computes (st_task s' t) = computes (st_task s t)) \<Longrightarrow> busy s' = busy s"
  by (simp add: busy_def fun_eq_iff)

lemma init_inv: "wiring K stampede_init \<and> counts stampede_init"
  by (simp add: wiring_def counts_def busy_def stampede_init_def guard_ok_def guard_init_def)

lemma free_lock:
  assumes "wiring K s" "gd_next (st_guard s) \<le> l"
  shows "st_holder s l = None" "st_queue s l = []"
proof -
  have n: "uses (st_task s t) \<noteq> Some (k, l)" for t k
    using assms unfolding wiring_def guard_ok_def by (metis not_le)
  show "st_holder s l = None" using n holds_uses assms(1) unfolding wiring_def by (metis not_None_eq)
  show "st_queue s l = []" using n waits_uses assms(1) unfolding wiring_def by (metis list.set_intros(1) neq_Nil_conv)
qed

lemma enter_wiring:
  assumes i: "wiring K s" and K: "finite K" "card K \<le> PER_KEY_LOCK_BUDGET" "k \<in> K" and t: "st_task s t = Idle"
  shows "wiring K (enter t k s) \<and> busy (enter t k s) = busy s"
proof -
  obtain l g where gl: "get_lock (\<lambda>l. st_holder s l \<noteq> None) k (st_guard s) = (l, g)" by fastforce
  have g: "guard_ok K g" "dget (gd_locks g) = (dget (gd_locks (st_guard s)))(k \<mapsto> l)"
    "dget (gd_locks (st_guard s)) k = Some l \<or> dget (gd_locks (st_guard s)) k = None \<and> l = gd_next (st_guard s)"
    using get_lock_ok [OF _ K gl] i by (auto simp: wiring_def)
  have keep: "dget (gd_locks g) k' = Some l'" if "dget (gd_locks (st_guard s)) k' = Some l'" for k' l'
    using that g(2,3) by auto
  have new: "dget (gd_locks g) k = Some l" using g(2) by simp
  have idle: "st_holder s l' \<noteq> Some t" "t \<notin> set (st_queue s l')" for l'
    using i t unfolding wiring_def by simp_all
  show ?thesis
  proof (cases "st_holder s l = None \<and> st_queue s l = []")
    case True
    then have e: "enter t k s = s\<lparr>st_guard := g, st_holder := (st_holder s)(l \<mapsto> t), st_task := (st_task s)(t := Checking k l)\<rparr>"
      unfolding enter_def gl by simp
    have "busy (enter t k s) = busy s" unfolding e by (rule busy_cong) (simp add: t)
    moreover have "holds (st_task s t') \<noteq> Some l" for t' using i True unfolding wiring_def by (metis option.distinct(1))
    then have "wiring K (enter t k s)" using i g(1) keep new True idle t unfolding e wiring_def by auto
    ultimately show ?thesis by blast
  next
    case False
    then have e: "enter t k s = s\<lparr>st_guard := g, st_queue := (st_queue s)(l := st_queue s l @ [t]), st_task := (st_task s)(t := Waiting k l)\<rparr>"
      unfolding enter_def gl by auto
    have "busy (enter t k s) = busy s" unfolding e by (rule busy_cong) (simp add: t)
    moreover have "wiring K (enter t k s)" using i g(1) keep new idle t unfolding e wiring_def by auto
    ultimately show ?thesis by blast
  qed
qed

lemma leave_wiring:
  assumes "wiring K s" "holds (st_task s t) = Some l"
  shows "wiring K (leave t l s)"
proof -
  have h: "st_holder s l = Some t" using assms unfolding wiring_def by blast
  have w: "waits (st_task s t) = None" using assms(2) by (cases "st_task s t") auto
  have "holds (st_task s t') = Some l \<longleftrightarrow> t' = t" for t' using assms(1) h unfolding wiring_def by (metis option.inject)
  moreover have "holds (st_task s t) = Some l' \<Longrightarrow> l' = l" for l' using assms(2) by simp
  ultimately show ?thesis using assms(1) w h unfolding wiring_def leave_def by (auto split: if_splits)
qed

lemma step_inv:
  assumes "stampede_step K s s'" "finite K" "card K \<le> PER_KEY_LOCK_BUDGET" "wiring K s" "counts s"
  shows "wiring K s' \<and> counts s'"
  using assms(1)
proof cases
  case (enter t k)
  have "st_started s' = st_started s" "st_stored s' = st_stored s" "st_failed s' = st_failed s" "st_lost s' = st_lost s"
    "st_present s' = st_present s" unfolding enter(1) Stampede.enter_def by (auto split: prod.split)
  then show ?thesis using enter enter_wiring [OF assms(4,2,3) enter(3,2)] assms(5) by (simp add: counts_def)
next
  case (resume t k l q)
  have "holds (st_task s t') \<noteq> Some l" for t' using assms(4) resume(3) unfolding wiring_def by (metis option.distinct(1))
  moreover have "set (st_queue s l) = insert t (set q)" "t \<notin> set q" "distinct q"
    using assms(4) resume(4) unfolding wiring_def by (metis list.set(2), metis distinct.simps(2), metis distinct.simps(2))
  moreover have "dget (gd_locks (st_guard s)) k = Some l"
    using assms(4) resume(2) unfolding wiring_def by (metis uses.simps(1))
  ultimately have "wiring K s'" using assms(4) resume(2,3) unfolding resume(1) wiring_def by auto
  moreover have "busy s' = busy s" unfolding resume(1) by (rule busy_cong) (simp add: resume(2))
  ultimately show ?thesis using assms(5) unfolding resume(1) by (simp add: counts_def)
next
  case (give_up t k l)
  have "wiring K s'" using assms(4) give_up(2) unfolding give_up(1) wiring_def by (auto simp: distinct_removeAll)
  moreover have "busy s' = busy s" unfolding give_up(1) by (rule busy_cong) (simp add: give_up(2))
  ultimately show ?thesis using assms(5) unfolding give_up(1) by (simp add: counts_def)
next
  case (hit t k l)
  have "busy s' = busy s" unfolding hit(1) leave_def by (rule busy_cong) (simp add: hit(2))
  then show ?thesis using leave_wiring [OF assms(4), of t l] hit assms(5) by (simp add: counts_def leave_def)
next
  case (miss t k l)
  have "dget (gd_locks (st_guard s)) k = Some l" using assms(4) miss(2) unfolding wiring_def by (metis uses.simps(2))
  then have "wiring K s'" using assms(4) miss(2) unfolding miss(1) wiring_def by auto
  moreover have free: "\<not> busy s k"
  proof
    assume "busy s k"
    then obtain t' where t': "computes (st_task s t') = Some k" by (auto simp: busy_def)
    then obtain l' where "uses (st_task s t') = Some (k, l')" "holds (st_task s t') = Some l'" using computes_uses by blast
    then have "t' = t" using assms(4) miss(2) unfolding wiring_def by (metis holds.simps(1) option.inject uses.simps(2))
    then show False using t' miss(2) by simp
  qed
  moreover have "busy s' k' \<longleftrightarrow> k' = k \<or> busy s k'" for k'
  proof -
    have "busy s' k' \<longleftrightarrow> busy (s\<lparr>st_task := (st_task s)(t := Computing k l)\<rparr>) k'" by (simp add: miss(1) busy_def)
    also have "\<dots> \<longleftrightarrow> k' = k \<or> (\<exists>t'. t' \<noteq> t \<and> computes (st_task s t') = Some k')" unfolding busy_upd by auto
    also have "\<dots> \<longleftrightarrow> k' = k \<or> busy s k'" using miss(2) unfolding busy_def by (metis computes.simps(4) option.distinct(1))
    finally show ?thesis .
  qed
  ultimately show ?thesis using assms(5) miss(3) unfolding miss(1) by (auto simp: counts_def)
next
  case (store t k l)
  let ?s = "s\<lparr>st_present := (st_present s)(k := True), st_stored := (st_stored s)(k := Suc (st_stored s k))\<rparr>"
  have "wiring K ?s" using assms(4) by (simp add: wiring_def)
  then have "wiring K s'" unfolding store(1) by (rule leave_wiring) (simp add: store(2))
  moreover have "busy s' k' = busy (s\<lparr>st_task := (st_task s)(t := Finished)\<rparr>) k'" for k'
    unfolding store(1) leave_def busy_def by simp
  ultimately show ?thesis using assms(5) busy_ends [OF assms(4) store(2)] unfolding store(1) by (auto simp: counts_def leave_def)
next
  case (fail t k l)
  have "wiring K (s\<lparr>st_failed := (st_failed s)(k := Suc (st_failed s k))\<rparr>)" using assms(4) by (simp add: wiring_def)
  then have "wiring K s'" unfolding fail(1) by (rule leave_wiring) (simp add: fail(2))
  moreover have "busy s' k' = busy (s\<lparr>st_task := (st_task s)(t := Finished)\<rparr>) k'" for k'
    unfolding fail(1) leave_def busy_def by simp
  ultimately show ?thesis using assms(5) busy_ends [OF assms(4) fail(2)] unfolding fail(1) by (auto simp: counts_def leave_def)
next
  case (lose k)
  then show ?thesis using assms(4,5) by (auto simp: wiring_def counts_def busy_def)
qed

lemma reachable_inv:
  assumes "(stampede_step K)\<^sup>*\<^sup>* stampede_init s" "finite K" "card K \<le> PER_KEY_LOCK_BUDGET"
  shows "wiring K s \<and> counts s"
  using assms(1)
proof (induction rule: rtranclp_induct)
  case (step s s')
  then show ?case using step_inv assms(2,3) by blast
qed (rule init_inv)

section \<open>Properties\<close>

text \<open>
  C19. Concurrent misses fold into one computation: whatever number of callers arrive and however their
  steps interleave, a key is computed at most once more often than its entry was lost (expired, deleted,
  evicted) or its computation ended without storing, as long as no more keys are in use than the budget of
  the registry.
\<close>

theorem stampede_computes_once:
  assumes "(stampede_step K)\<^sup>*\<^sup>* stampede_init s" "finite K" "card K \<le> PER_KEY_LOCK_BUDGET"
  shows "st_started s k \<le> 1 + st_lost s k + st_failed s k"
proof -
  have c: "counts s" using reachable_inv [OF assms] by blast
  have "st_stored s k = st_lost s k + of_bool (st_present s k)"
    "st_started s k = st_stored s k + st_failed s k + of_bool (busy s k)" "busy s k \<longrightarrow> \<not> st_present s k"
    using c unfolding counts_def by blast+
  then show ?thesis by (cases "busy s k"; cases "st_present s k") simp_all
qed

theorem stampede_computes_once_witness:
  "st_started (enter 0 ''k'' stampede_init) ''k'' \<le> 1"
proof -
  have "(stampede_step {''k''})\<^sup>*\<^sup>* stampede_init (enter 0 ''k'' stampede_init)"
    by (rule r_into_rtranclp, rule stampede_step.enter) (simp_all add: stampede_init_def)
  from stampede_computes_once [OF this, of "''k''"] show ?thesis
    by (simp add: PER_KEY_LOCK_BUDGET_def enter_def stampede_init_def split: prod.splits)
qed

text \<open>
  No caller is left behind: in every reachable state a caller that waits, looks or computes means that
  some caller of the same lock can take a step, the head of the queue when the lock is free and its holder
  otherwise.
\<close>

theorem stampede_progress:
  assumes "(stampede_step K)\<^sup>*\<^sup>* stampede_init s" "finite K" "card K \<le> PER_KEY_LOCK_BUDGET"
    "uses (st_task s t) = Some (k, l)"
  shows "\<exists>t' s'. stampede_step K s s' \<and> (holds (st_task s t') = Some l \<or> waits (st_task s t') = Some l) \<and>
    st_task s' t' \<noteq> st_task s t' \<and> (st_holder s l = None \<longrightarrow> t' = hd (st_queue s l) \<and> st_holder s' l = Some t')"
proof -
  have w: "wiring K s" using reachable_inv [OF assms(1-3)] by blast
  show ?thesis
  proof (cases "st_holder s l")
    case (Some t')
    then have h: "holds (st_task s t') = Some l" using w unfolding wiring_def by blast
    then consider (look) k' where "st_task s t' = Checking k' l" | (work) k' where "st_task s t' = Computing k' l"
      by (cases "st_task s t'") auto
    then show ?thesis
    proof cases
      case look
      show ?thesis
      proof (cases "st_present s k'")
        case True
        from stampede_step.hit [OF look True, of K] show ?thesis
          using h Some look by (intro exI [of _ t'] exI [of _ "leave t' l s"]) (simp add: leave_def)
      next
        case False
        from stampede_step.miss [OF look False, of K] show ?thesis
          using h Some look by (intro exI [of _ t'] exI conjI) auto
      qed
    next
      case work
      from stampede_step.fail [OF work, of K] show ?thesis
        using h Some work by (intro exI [of _ t'] exI conjI) (auto simp: leave_def)
    qed
  next
    case None
    then have "holds (st_task s t) \<noteq> Some l" using w unfolding wiring_def by (metis option.distinct(1))
    then have "waits (st_task s t) = Some l" using assms(4) by (cases "st_task s t") auto
    then have "t \<in> set (st_queue s l)" using w unfolding wiring_def by blast
    then obtain t' q where q: "st_queue s l = t' # q" by (cases "st_queue s l") auto
    then have "waits (st_task s t') = Some l" using w unfolding wiring_def by (metis list.set_intros(1))
    then obtain k' where k': "st_task s t' = Waiting k' l" by (cases "st_task s t'") auto
    from stampede_step.resume [OF k' None q, of K] show ?thesis
      using k' q by (intro exI [of _ t'] exI conjI) auto
  qed
qed

theorem stampede_progress_witness:
  "\<exists>t' s'. stampede_step {''k''} (enter 0 ''k'' stampede_init) s' \<and> st_task s' t' \<noteq> st_task (enter 0 ''k'' stampede_init) t'"
proof -
  have "(stampede_step {''k''})\<^sup>*\<^sup>* stampede_init (enter 0 ''k'' stampede_init)"
    by (rule r_into_rtranclp, rule stampede_step.enter) (simp_all add: stampede_init_def)
  moreover have "uses (st_task (enter 0 ''k'' stampede_init) 0) = Some (''k'', 0)"
    by (simp add: enter_def get_lock_def stampede_init_def guard_init_def)
  ultimately show ?thesis using stampede_progress [of "{''k''}" _ 0 "''k''" 0] by (fastforce simp: PER_KEY_LOCK_BUDGET_def)
qed

section \<open>The registry beyond its budget\<close>

text \<open>
  When as many locks as the budget are held, the lock made for a further key is the only idle one, so it is
  dropped at once: the next caller of that key gets another lock, and both compute.
\<close>

lemma drop_first_idle_last:
  "list_all (\<lambda>(k, l). locked l) ls \<Longrightarrow> \<not> locked l \<Longrightarrow> drop_first_idle locked (ls @ [(k, l)]) = Some ls"
  by (induction ls) auto

theorem guard_drops_fresh_lock:
  assumes "length (gd_locks g) = PER_KEY_LOCK_BUDGET" "list_all (\<lambda>(k, l). locked l) (gd_locks g)"
    "dget (gd_locks g) k = None" "\<not> locked (gd_next g)"
  shows "get_lock locked k g = (gd_next g, g\<lparr>gd_next := Suc (gd_next g)\<rparr>)"
proof -
  have "evict_idle_locks locked (gd_locks g @ [(k, gd_next g)]) = gd_locks g"
    using assms(1) by (subst evict_idle_locks.simps) (simp add: drop_first_idle_last [OF assms(2,4)] evict_within)
  then show ?thesis using assms(3) by (simp add: get_lock_def dput_new)
qed

end
