(* ===== verification/Outbox.thy ===== *)
theory Outbox
  imports Text
begin

text \<open>
  The outbox (\<open>outbox/\<close>): the records and rows of staged messages, the in-memory adapter
  (\<open>outbox/memory.py\<close>) and the relay (\<open>outbox/_relay.py\<close>) that claims due messages with a visibility lease, runs
  their handlers and settles them. \<open>OutboxBackend\<close> (\<open>outbox/_protocol.py\<close>) is a record of functions; the locale
  \<open>outbox_laws\<close> has what it promises, row by row. Message ids are natural numbers with their order. In a
  run the claims, deliveries, failures and crashes of any number of relays interleave; what was handled
  is recorded beside the store.
\<close>

section \<open>Messages\<close>

record outbox_record =
  or_id :: nat
  or_topic :: string
  or_payload :: string
  or_key :: "string option"
  or_headers :: "(string, string) pydict"
  or_dedup :: "string option"
  or_attempts :: nat
  or_available :: "seconds option"

datatype row_state = Pending | Processing | Delivered | Dead

record outbox_row =
  ow_record :: outbox_record
  ow_state :: row_state
  ow_attempts :: nat
  ow_available :: seconds
  ow_created :: seconds
  ow_error :: "string option"
  ow_delivered :: "seconds option"

definition new_row :: "seconds \<Rightarrow> outbox_record \<Rightarrow> outbox_row" where
  "new_row now r =
     \<lparr>ow_record = r, ow_state = Pending, ow_attempts = 0,
      ow_available = (case or_available r of None \<Rightarrow> now | Some t \<Rightarrow> t),
      ow_created = now, ow_error = None, ow_delivered = None\<rparr>"

definition due :: "seconds \<Rightarrow> string list \<Rightarrow> outbox_row \<Rightarrow> bool" where
  "due now topics row \<longleftrightarrow> or_topic (ow_record row) \<in> set topics \<and> ow_state row \<in> {Pending, Processing} \<and> ow_available row \<le> now"

definition claimed_row :: "seconds \<Rightarrow> seconds \<Rightarrow> outbox_row \<Rightarrow> outbox_row" where
  "claimed_row now lease row = row\<lparr>ow_state := Processing, ow_attempts := ow_attempts row + 1, ow_available := now + lease\<rparr>"

text \<open>\<open>replace(row.record, attempts=row.attempts)\<close> after the increment.\<close>

definition claimed_record :: "outbox_row \<Rightarrow> outbox_record" where
  "claimed_record row = (ow_record row)\<lparr>or_attempts := ow_attempts row + 1\<rparr>"

definition delivered_row :: "seconds \<Rightarrow> outbox_row \<Rightarrow> outbox_row" where
  "delivered_row now row = row\<lparr>ow_state := Delivered, ow_error := None, ow_delivered := Some now\<rparr>"

definition rescheduled_row :: "seconds \<Rightarrow> seconds \<Rightarrow> string \<Rightarrow> bool \<Rightarrow> outbox_row \<Rightarrow> outbox_row" where
  "rescheduled_row now delay error dead row =
     (let row1 = row\<lparr>ow_error := Some error\<rparr>
      in if dead then row1\<lparr>ow_state := Dead\<rparr> else row1\<lparr>ow_state := Pending, ow_available := now + delay\<rparr>)"

definition redriven :: "string option \<Rightarrow> outbox_row \<Rightarrow> bool" where
  "redriven topic row \<longleftrightarrow> ow_state row = Dead \<and> (topic = None \<or> topic = Some (or_topic (ow_record row)))"

definition redriven_row :: "seconds \<Rightarrow> outbox_row \<Rightarrow> outbox_row" where
  "redriven_row now row = row\<lparr>ow_state := Pending, ow_attempts := 0, ow_available := now, ow_error := None\<rparr>"

definition doomed :: "seconds \<Rightarrow> seconds option \<Rightarrow> row_state list \<Rightarrow> outbox_row \<Rightarrow> bool" where
  "doomed now before states row \<longleftrightarrow> ow_state row \<in> set states \<and>
     (case before of None \<Rightarrow> True
      | Some b \<Rightarrow> (case ow_delivered row of None \<Rightarrow> ow_created row | Some t \<Rightarrow> t) < now - b)"

section \<open>Registry and publishing\<close>

text \<open>A handler entry has its topic, the handler (a number names it) and the model its payloads must validate against.\<close>

record handler_entry =
  he_topic :: string
  he_fn :: nat
  he_model :: "string option"

type_synonym outbox_registry = "(string, handler_entry) pydict"

datatype publish_target = TopicString string | PayloadModel string "string option" string

datatype outbox_error = HandlerAlreadyRegistered | HandlerNotFound | PayloadTypeError | PayloadInvalid string
  | OutboxHandleError | OutboxTransactionError | DuplicateId

text \<open>A model class has a name and may set \<open>__outbox_topic__\<close>; the third part of a model target is its encoded payload.\<close>

fun derive_topic :: "publish_target \<Rightarrow> string" where
  "derive_topic (TopicString topic) = topic"
| "derive_topic (PayloadModel name topic body) = (case topic of Some t \<Rightarrow> t | None \<Rightarrow> name)"

fun target_model :: "publish_target \<Rightarrow> string option" where
  "target_model (TopicString topic) = None"
| "target_model (PayloadModel name topic body) = Some name"

text \<open>\<open>topic or derive_topic(target)\<close>: an empty override counts as none.\<close>

definition registry_register :: "publish_target \<Rightarrow> nat \<Rightarrow> string option \<Rightarrow> outbox_registry \<Rightarrow> outbox_error + outbox_registry" where
  "registry_register target fn topic reg =
     (let resolved = (case topic of Some t \<Rightarrow> if t = [] then derive_topic target else t | None \<Rightarrow> derive_topic target)
      in if dget reg resolved \<noteq> None then Inl HandlerAlreadyRegistered
         else Inr (dput resolved \<lparr>he_topic = resolved, he_fn = fn, he_model = target_model target\<rparr> reg))"

definition registry_topics :: "outbox_registry \<Rightarrow> string list" where
  "registry_topics reg = map fst reg"

definition registry_get :: "outbox_registry \<Rightarrow> string \<Rightarrow> outbox_error + handler_entry" where
  "registry_get reg topic = (case dget reg topic of None \<Rightarrow> Inl HandlerNotFound | Some e \<Rightarrow> Inr e)"

text \<open>
  The message a handler gets. \<open>decode\<close> stands for the validation of a payload against a model: its data or
  why it does not validate.
\<close>

record 'd outbox_message =
  om_id :: nat
  om_topic :: string
  om_key :: "string option"
  om_data :: "'d option"
  om_payload :: string
  om_headers :: "(string, string) pydict"
  om_attempts :: nat

definition build_message :: "(string \<Rightarrow> string \<Rightarrow> string + 'd) \<Rightarrow> outbox_registry \<Rightarrow> outbox_record \<Rightarrow> outbox_error + 'd outbox_message" where
  "build_message decode reg r =
     (case registry_get reg (or_topic r) of
        Inl e \<Rightarrow> Inl e
      | Inr entry \<Rightarrow>
          (let msg = (\<lambda>data. \<lparr>om_id = or_id r, om_topic = or_topic r, om_key = or_key r, om_data = data,
                             om_payload = or_payload r, om_headers = or_headers r, om_attempts = or_attempts r\<rparr>)
           in case he_model entry of
                None \<Rightarrow> Inr (msg None)
              | Some m \<Rightarrow> (case decode m (or_payload r) of Inl why \<Rightarrow> Inl (PayloadInvalid why) | Inr d \<Rightarrow> Inr (msg (Some d)))))"

fun resolve_payload :: "publish_target \<Rightarrow> string option \<Rightarrow> outbox_error + (string \<times> string)" where
  "resolve_payload (TopicString topic) None = Inl PayloadTypeError"
| "resolve_payload (TopicString topic) (Some payload) = Inr (topic, payload)"
| "resolve_payload (PayloadModel name topic body) (Some payload) = Inl PayloadTypeError"
| "resolve_payload (PayloadModel name topic body) None = Inr (derive_topic (PayloadModel name topic body), body)"

definition resolve_available_at :: "seconds \<Rightarrow> seconds option \<Rightarrow> seconds option" where
  "resolve_available_at now delay = map_option ((+) now) delay"

text \<open>\<open>inject\<close> stands for the trace context OpenTelemetry adds to the headers, \<open>uuid\<close> for the fresh id.\<close>

definition published_record ::
  "((string, string) pydict \<Rightarrow> (string, string) pydict) \<Rightarrow> nat \<Rightarrow> seconds \<Rightarrow> publish_target \<Rightarrow> string option \<Rightarrow> string option \<Rightarrow>
   (string, string) pydict option \<Rightarrow> string option \<Rightarrow> seconds option \<Rightarrow> outbox_error + outbox_record"
where
  "published_record inject uuid now target payload k headers dedup delay =
     (case resolve_payload target payload of
        Inl e \<Rightarrow> Inl e
      | Inr (topic, body) \<Rightarrow>
          Inr \<lparr>or_id = uuid, or_topic = topic, or_payload = body, or_key = k,
               or_headers = inject (case headers of None \<Rightarrow> [] | Some h \<Rightarrow> h), or_dedup = dedup, or_attempts = 0,
               or_available = resolve_available_at now delay\<rparr>)"

section \<open>In-memory adapter\<close>

record memory_outbox =
  mo_rows :: "(nat, outbox_row) pydict"
  mo_wake :: bool

definition memory_outbox_init :: memory_outbox where
  "memory_outbox_init = \<lparr>mo_rows = [], mo_wake = False\<rparr>"

definition outbox_enqueue :: "seconds \<Rightarrow> outbox_record \<Rightarrow> memory_outbox \<Rightarrow> bool \<times> memory_outbox" where
  "outbox_enqueue now r s =
     (if or_dedup r \<noteq> None \<and> list_ex (\<lambda>(i, row). or_dedup (ow_record row) = or_dedup r) (mo_rows s) then (False, s)
      else (True, s\<lparr>mo_rows := dput (or_id r) (new_row now r) (mo_rows s), mo_wake := True\<rparr>))"

text \<open>
  \<open>sorted(..., key=(available_at, id))[:limit]\<close>: a stable sort by the second part and then by the first.
\<close>

definition due_rows :: "seconds \<Rightarrow> string list \<Rightarrow> nat \<Rightarrow> (nat, outbox_row) pydict \<Rightarrow> (nat \<times> outbox_row) list" where
  "due_rows now topics limit rows =
     take limit (sort_key (\<lambda>(i, row). ow_available row) (sort_key (\<lambda>(i, row). or_id (ow_record row))
       (filter (\<lambda>(i, row). due now topics row) rows)))"

definition outbox_claim ::
  "seconds \<Rightarrow> string list \<Rightarrow> nat \<Rightarrow> seconds \<Rightarrow> memory_outbox \<Rightarrow> outbox_record list \<times> memory_outbox"
where
  "outbox_claim now topics limit lease s =
     (let chosen = due_rows now topics limit (mo_rows s)
      in (map (\<lambda>(i, row). claimed_record row) chosen,
          s\<lparr>mo_rows := fold (\<lambda>(i, row) rows. dput i (claimed_row now lease row) rows) chosen (mo_rows s)\<rparr>))"

definition outbox_complete :: "seconds \<Rightarrow> nat \<Rightarrow> nat \<Rightarrow> bool \<Rightarrow> memory_outbox \<Rightarrow> memory_outbox" where
  "outbox_complete now i attempts keep s =
     (case dget (mo_rows s) i of
        None \<Rightarrow> s
      | Some row \<Rightarrow>
          if ow_attempts row \<noteq> attempts then s
          else if keep then s\<lparr>mo_rows := dput i (delivered_row now row) (mo_rows s)\<rparr>
          else s\<lparr>mo_rows := ddel i (mo_rows s)\<rparr>)"

definition outbox_reschedule ::
  "seconds \<Rightarrow> nat \<Rightarrow> nat \<Rightarrow> seconds \<Rightarrow> string \<Rightarrow> bool \<Rightarrow> memory_outbox \<Rightarrow> memory_outbox"
where
  "outbox_reschedule now i attempts delay error dead s =
     (case dget (mo_rows s) i of
        None \<Rightarrow> s
      | Some row \<Rightarrow>
          if ow_attempts row \<noteq> attempts then s
          else s\<lparr>mo_rows := dput i (rescheduled_row now delay error dead row) (mo_rows s)\<rparr>)"

definition outbox_redrive :: "seconds \<Rightarrow> string option \<Rightarrow> memory_outbox \<Rightarrow> nat \<times> memory_outbox" where
  "outbox_redrive now topic s =
     (let moved = length (filter (\<lambda>(i, row). redriven topic row) (mo_rows s));
          s1 = s\<lparr>mo_rows := map (\<lambda>(i, row). (i, if redriven topic row then redriven_row now row else row)) (mo_rows s)\<rparr>
      in (moved, if 0 < moved then s1\<lparr>mo_wake := True\<rparr> else s1))"

definition outbox_purge :: "seconds \<Rightarrow> seconds option \<Rightarrow> row_state list \<Rightarrow> memory_outbox \<Rightarrow> nat \<times> memory_outbox" where
  "outbox_purge now before states s =
     (let gone = map fst (filter (\<lambda>(i, row). doomed now before states row) (mo_rows s))
      in (length gone, s\<lparr>mo_rows := fold ddel gone (mo_rows s)\<rparr>))"

section \<open>The contract\<close>

record 's outbox_backend =
  ob_enqueue :: "seconds \<Rightarrow> outbox_record \<Rightarrow> 's \<Rightarrow> bool \<times> 's"
  ob_claim :: "seconds \<Rightarrow> string list \<Rightarrow> nat \<Rightarrow> seconds \<Rightarrow> 's \<Rightarrow> outbox_record list \<times> 's"
  ob_complete :: "seconds \<Rightarrow> nat \<Rightarrow> nat \<Rightarrow> bool \<Rightarrow> 's \<Rightarrow> 's"
  ob_reschedule :: "seconds \<Rightarrow> nat \<Rightarrow> nat \<Rightarrow> seconds \<Rightarrow> string \<Rightarrow> bool \<Rightarrow> 's \<Rightarrow> 's"
  ob_redrive :: "seconds \<Rightarrow> string option \<Rightarrow> 's \<Rightarrow> nat \<times> 's"
  ob_purge :: "seconds \<Rightarrow> seconds option \<Rightarrow> row_state list \<Rightarrow> 's \<Rightarrow> nat \<times> 's"

definition MemoryOutboxAdapter :: "memory_outbox outbox_backend" where
  "MemoryOutboxAdapter =
     \<lparr>ob_enqueue = outbox_enqueue, ob_claim = outbox_claim, ob_complete = outbox_complete,
      ob_reschedule = outbox_reschedule, ob_redrive = outbox_redrive, ob_purge = outbox_purge\<rparr>"

text \<open>A write that is fenced by the attempt count of the claim.\<close>

definition fenced :: "nat \<Rightarrow> nat \<Rightarrow> (outbox_row \<Rightarrow> outbox_row option) \<Rightarrow> (nat \<Rightarrow> outbox_row option) \<Rightarrow> nat \<Rightarrow> outbox_row option" where
  "fenced i attempts f m = (\<lambda>j. case m j of
     None \<Rightarrow> None | Some row \<Rightarrow> if j = i \<and> ow_attempts row = attempts then f row else Some row)"

text \<open>The parts of a message that its handler sees; what an insert stores and what a claim hands out.\<close>

definition same_message :: "outbox_record \<Rightarrow> outbox_record \<Rightarrow> bool" where
  "same_message r r' \<longleftrightarrow> or_id r' = or_id r \<and> or_topic r' = or_topic r \<and> or_payload r' = or_payload r \<and> or_key r' = or_key r \<and> or_headers r' = or_headers r"

definition stores :: "seconds \<Rightarrow> outbox_record \<Rightarrow> outbox_row \<Rightarrow> bool" where
  "stores now r row \<longleftrightarrow> same_message r (ow_record row) \<and> or_dedup (ow_record row) = or_dedup r \<and>
     ow_state row = Pending \<and> ow_attempts row = 0 \<and> ow_created row = now"

definition hands_out :: "outbox_row \<Rightarrow> outbox_record \<Rightarrow> bool" where
  "hands_out row r \<longleftrightarrow> same_message (ow_record row) r \<and> or_attempts r = Suc (ow_attempts row)"

lemma same_message_refl [simp]: "same_message r r"
  by (simp add: same_message_def)

lemma same_message_trans: "same_message r r' \<Longrightarrow> same_message r' r'' \<Longrightarrow> same_message r r''"
  by (simp add: same_message_def)

locale outbox_laws =
  fixes B :: "'s outbox_backend"
    and inv :: "'s \<Rightarrow> bool"
    and view :: "'s \<Rightarrow> nat \<Rightarrow> outbox_row option"
  assumes ids: "inv s \<Longrightarrow> view s i = Some row \<Longrightarrow> or_id (ow_record row) = i"
    and enqueue_law: "inv s \<Longrightarrow> view s (or_id r) = None \<Longrightarrow> ob_enqueue B now r s = (ok, s') \<Longrightarrow>
      inv s' \<and> (ok \<longleftrightarrow> or_dedup r = None \<or> (\<forall>i row. view s i = Some row \<longrightarrow> or_dedup (ow_record row) \<noteq> or_dedup r)) \<and>
      (if ok then \<exists>row. stores now r row \<and> view s' = (view s)(or_id r \<mapsto> row) else view s' = view s)"
    and claim_law: "inv s \<Longrightarrow> ob_claim B now topics n lease s = (rs, s') \<Longrightarrow>
      inv s' \<and> length rs \<le> n \<and> distinct (map or_id rs) \<and>
      (\<forall>r\<in>set rs. \<exists>row. view s (or_id r) = Some row \<and> due now topics row \<and> hands_out row r) \<and>
      view s' = (\<lambda>i. if i \<in> or_id ` set rs then map_option (claimed_row now lease) (view s i) else view s i)"
    and complete_law: "inv s \<Longrightarrow> inv (ob_complete B now i a keep s) \<and>
      view (ob_complete B now i a keep s) = fenced i a (\<lambda>row. if keep then Some (delivered_row now row) else None) (view s)"
    and reschedule_law: "inv s \<Longrightarrow> inv (ob_reschedule B now i a delay error dead s) \<and>
      view (ob_reschedule B now i a delay error dead s) = fenced i a (\<lambda>row. Some (rescheduled_row now delay error dead row)) (view s)"
    and redrive_law: "inv s \<Longrightarrow> ob_redrive B now topic s = (n, s') \<Longrightarrow> inv s' \<and>
      view s' = (\<lambda>i. map_option (\<lambda>row. if redriven topic row then redriven_row now row else row) (view s i))"
    and purge_law: "inv s \<Longrightarrow> ob_purge B now before states s = (n, s') \<Longrightarrow> inv s' \<and>
      view s' = (\<lambda>i. case view s i of None \<Rightarrow> None | Some row \<Rightarrow> if doomed now before states row then None else Some row)"

section \<open>The in-memory adapter satisfies the contract\<close>

definition memory_outbox_inv :: "memory_outbox \<Rightarrow> bool" where
  "memory_outbox_inv s \<longleftrightarrow> dwf (mo_rows s) \<and> (\<forall>i row. dget (mo_rows s) i = Some row \<longrightarrow> or_id (ow_record row) = i)"

lemma row_ids [simp]:
  "ow_record (claimed_row now lease row) = ow_record row" "ow_record (delivered_row now row) = ow_record row"
  "ow_record (rescheduled_row now delay error dead row) = ow_record row" "ow_record (redriven_row now row) = ow_record row"
  "ow_record (new_row now r) = r" "or_id (claimed_record row) = or_id (ow_record row)"
  by (simp_all add: claimed_row_def delivered_row_def rescheduled_row_def redriven_row_def new_row_def claimed_record_def Let_def)

lemma fold_put_rows:
  "distinct (map fst ch) \<Longrightarrow>
   dget (fold (\<lambda>(i, row) rows. dput i (f row) rows) ch d) i = (case dget ch i of None \<Rightarrow> dget d i | Some row \<Rightarrow> Some (f row))"
proof (induction ch arbitrary: d)
  case (Cons c ch)
  obtain j row where c: "c = (j, row)" by fastforce
  have "dget ch j = None" using Cons.prems by (simp add: c map_of_eq_None_iff)
  then show ?case using Cons.IH [of "dput j (f row) d"] Cons.prems by (auto simp: c split: option.split)
qed simp

lemma fold_put_wf: "dwf d \<Longrightarrow> dwf (fold (\<lambda>(i, row) rows. dput i (f row) rows) ch d)"
  by (induction ch arbitrary: d) (auto simp: pd.wf_put)

lemma due_rows_chosen:
  assumes "dwf rows"
  shows "distinct (map fst (due_rows now topics limit rows))"
    and "(i, row) \<in> set (due_rows now topics limit rows) \<Longrightarrow> dget rows i = Some row \<and> due now topics row"
    and "length (due_rows now topics limit rows) \<le> limit"
proof -
  let ?d = "filter (\<lambda>(i, row). due now topics row) rows"
  let ?s = "sort_key (\<lambda>(i, row). ow_available row) (sort_key (\<lambda>(i, row). or_id (ow_record row)) ?d)"
  have "distinct (map fst ?d)" using assms by (simp add: dwf_def distinct_map_filter)
  then have "distinct (map fst ?s)" by (simp add: distinct_map)
  then show "distinct (map fst (due_rows now topics limit rows))" by (simp add: due_rows_def take_map [symmetric] distinct_take)
  assume "(i, row) \<in> set (due_rows now topics limit rows)"
  then have "(i, row) \<in> set ?d" unfolding due_rows_def by (auto dest: in_set_takeD)
  then show "dget rows i = Some row \<and> due now topics row" using assms by (auto simp: dget_iff)
next
  show "length (due_rows now topics limit rows) \<le> limit" by (simp add: due_rows_def)
qed

lemma claim_view:
  assumes "memory_outbox_inv s" "outbox_claim now topics n lease s = (rs, s')"
  shows "memory_outbox_inv s' \<and> length rs \<le> n \<and> distinct (map or_id rs) \<and>
      (\<forall>r\<in>set rs. \<exists>row. dget (mo_rows s) (or_id r) = Some row \<and> due now topics row \<and> r = claimed_record row) \<and>
      dget (mo_rows s') = (\<lambda>i. if i \<in> or_id ` set rs then map_option (claimed_row now lease) (dget (mo_rows s) i) else dget (mo_rows s) i)"
proof -
  let ?ch = "due_rows now topics n (mo_rows s)"
  have wf: "dwf (mo_rows s)" using assms(1) by (simp add: memory_outbox_inv_def)
  note ch = due_rows_chosen [OF wf, where now = now and topics = topics and limit = n]
  have rs: "rs = map (\<lambda>(i, row). claimed_record row) ?ch"
    and s': "s' = s\<lparr>mo_rows := fold (\<lambda>(i, row) rows. dput i (claimed_row now lease row) rows) ?ch (mo_rows s)\<rparr>"
    using assms(2) by (auto simp: outbox_claim_def Let_def)
  have id: "or_id (claimed_record row) = i" if "(i, row) \<in> set ?ch" for i row
    using ch(2) [OF that] assms(1) by (simp add: memory_outbox_inv_def)
  then have ids: "map or_id rs = map fst ?ch" unfolding rs by (auto simp: o_def)
  have chosen: "dget ?ch i = (if i \<in> or_id ` set rs then dget (mo_rows s) i else None)" for i
  proof (cases "dget ?ch i")
    case None
    then have "i \<notin> set (map or_id rs)" unfolding ids by (simp add: map_of_eq_None_iff)
    then show ?thesis using None by (simp add: image_iff)
  next
    case (Some row)
    then have "i \<in> set (map or_id rs)" unfolding ids by (force dest: map_of_SomeD)
    then show ?thesis using Some ch(2) [OF map_of_SomeD [OF Some]] by simp
  qed
  have view: "dget (mo_rows s') i = (if i \<in> or_id ` set rs then map_option (claimed_row now lease) (dget (mo_rows s) i) else dget (mo_rows s) i)" for i
    unfolding s' using chosen [of i] by (auto simp: fold_put_rows [OF ch(1)] split: option.split)
  have "memory_outbox_inv s'"
    using assms(1) view fold_put_wf [of "mo_rows s" "claimed_row now lease" ?ch]
    by (auto simp: memory_outbox_inv_def s' split: if_splits)
  moreover have "distinct (map or_id rs)" unfolding ids by (rule ch(1))
  moreover have "\<exists>row. dget (mo_rows s) (or_id r) = Some row \<and> due now topics row \<and> r = claimed_record row" if "r \<in> set rs" for r
  proof -
    from that obtain i row where "(i, row) \<in> set ?ch" "r = claimed_record row" unfolding rs by auto
    then show ?thesis using ch(2) id by metis
  qed
  ultimately show ?thesis using view ch(3) by (auto simp: rs)
qed

lemma new_row_stores: "stores now r (new_row now r)"
  by (simp add: stores_def new_row_def)

lemma claimed_record_hands_out: "hands_out row (claimed_record row)"
  by (simp add: hands_out_def claimed_record_def same_message_def)

interpretation mo: outbox_laws MemoryOutboxAdapter memory_outbox_inv "\<lambda>s. dget (mo_rows s)"
proof unfold_locales
  fix s :: memory_outbox and r now ok s'
  assume i: "memory_outbox_inv s" and fresh: "dget (mo_rows s) (or_id r) = None" and e: "ob_enqueue MemoryOutboxAdapter now r s = (ok, s')"
  have ex: "list_ex (\<lambda>(i, row). or_dedup (ow_record row) = or_dedup r) (mo_rows s) \<longleftrightarrow>
      (\<exists>i row. dget (mo_rows s) i = Some row \<and> or_dedup (ow_record row) = or_dedup r)"
    using i by (auto simp: list_ex_iff memory_outbox_inv_def dget_iff [symmetric])
  show "memory_outbox_inv s' \<and> (ok \<longleftrightarrow> or_dedup r = None \<or> (\<forall>i row. dget (mo_rows s) i = Some row \<longrightarrow> or_dedup (ow_record row) \<noteq> or_dedup r)) \<and>
      (if ok then \<exists>row. stores now r row \<and> dget (mo_rows s') = (dget (mo_rows s))(or_id r \<mapsto> row) else dget (mo_rows s') = dget (mo_rows s))"
    using e i ex by (auto simp: MemoryOutboxAdapter_def outbox_enqueue_def memory_outbox_inv_def pd.wf_put fun_eq_iff
        intro!: exI [of _ "new_row now r"] new_row_stores split: if_splits)
next
  fix s s' :: memory_outbox and now topics n lease rs
  assume "memory_outbox_inv s" "ob_claim MemoryOutboxAdapter now topics n lease s = (rs, s')"
  then show "memory_outbox_inv s' \<and> length rs \<le> n \<and> distinct (map or_id rs) \<and>
      (\<forall>r\<in>set rs. \<exists>row. dget (mo_rows s) (or_id r) = Some row \<and> due now topics row \<and> hands_out row r) \<and>
      dget (mo_rows s') = (\<lambda>i. if i \<in> or_id ` set rs then map_option (claimed_row now lease) (dget (mo_rows s) i) else dget (mo_rows s) i)"
    using claim_view [of s now topics n lease rs s'] by (simp add: MemoryOutboxAdapter_def) (metis claimed_record_hands_out)
next
  fix s :: memory_outbox and i row
  assume "memory_outbox_inv s" "dget (mo_rows s) i = Some row"
  then show "or_id (ow_record row) = i" by (simp add: memory_outbox_inv_def)
next
  fix s :: memory_outbox and now i a keep
  assume "memory_outbox_inv s"
  then show "memory_outbox_inv (ob_complete MemoryOutboxAdapter now i a keep s) \<and>
      dget (mo_rows (ob_complete MemoryOutboxAdapter now i a keep s)) =
        fenced i a (\<lambda>row. if keep then Some (delivered_row now row) else None) (dget (mo_rows s))"
    by (auto simp: MemoryOutboxAdapter_def outbox_complete_def fenced_def memory_outbox_inv_def fun_eq_iff pd.wf_put pd.wf_del
        split: option.split if_splits)
next
  fix s :: memory_outbox and now i a delay error dead
  assume "memory_outbox_inv s"
  then show "memory_outbox_inv (ob_reschedule MemoryOutboxAdapter now i a delay error dead s) \<and>
      dget (mo_rows (ob_reschedule MemoryOutboxAdapter now i a delay error dead s)) =
        fenced i a (\<lambda>row. Some (rescheduled_row now delay error dead row)) (dget (mo_rows s))"
    by (auto simp: MemoryOutboxAdapter_def outbox_reschedule_def fenced_def memory_outbox_inv_def fun_eq_iff pd.wf_put
        split: option.split if_splits)
next
  fix s s' :: memory_outbox and now topic n
  assume i: "memory_outbox_inv s" and e: "ob_redrive MemoryOutboxAdapter now topic s = (n, s')"
  have m: "dget (map (\<lambda>(i, row). (i, f row)) d) j = map_option f (dget d j)" for f and d :: "(nat, outbox_row) pydict" and j
    by (induction d) auto
  have r: "mo_rows s' = map (\<lambda>(i, row). (i, if redriven topic row then redriven_row now row else row)) (mo_rows s)"
    using e by (auto simp: MemoryOutboxAdapter_def outbox_redrive_def Let_def)
  have "map fst (mo_rows s') = map fst (mo_rows s)" unfolding r by auto
  then have "dwf (mo_rows s')" using i by (simp add: dwf_def memory_outbox_inv_def)
  then show "memory_outbox_inv s' \<and> dget (mo_rows s') = (\<lambda>i. map_option (\<lambda>row. if redriven topic row then redriven_row now row else row) (dget (mo_rows s) i))"
    using i by (auto simp: memory_outbox_inv_def r m fun_eq_iff split: if_splits)
next
  fix s s' :: memory_outbox and now before states n
  assume i: "memory_outbox_inv s" and e: "ob_purge MemoryOutboxAdapter now before states s = (n, s')"
  let ?gone = "map fst (filter (\<lambda>(i, row). doomed now before states row) (mo_rows s))"
  have r: "mo_rows s' = fold ddel ?gone (mo_rows s)" using e by (auto simp: MemoryOutboxAdapter_def outbox_purge_def Let_def)
  have gone: "j \<in> set ?gone \<longleftrightarrow> (\<exists>row. dget (mo_rows s) j = Some row \<and> doomed now before states row)" for j
    using i by (force simp: memory_outbox_inv_def dget_iff [symmetric])
  have v: "dget (mo_rows s') j = (if j \<in> set ?gone then None else dget (mo_rows s) j)" for j unfolding r by (rule pd.get_fold_del)
  have "dget (mo_rows s') = (\<lambda>j. case dget (mo_rows s) j of None \<Rightarrow> None | Some row \<Rightarrow> if doomed now before states row then None else Some row)"
    unfolding v gone by (auto simp: v gone fun_eq_iff split: option.split)
  moreover have "memory_outbox_inv s'"
    using i v dwf_fold_ddel [of "mo_rows s" ?gone] by (auto simp: memory_outbox_inv_def r split: if_splits)
  ultimately show "memory_outbox_inv s' \<and>
      dget (mo_rows s') = (\<lambda>j. case dget (mo_rows s) j of None \<Rightarrow> None | Some row \<Rightarrow> if doomed now before states row then None else Some row)"
    by blast
qed

section \<open>Relay\<close>

record outbox_config =
  oc_batch_size :: nat
  oc_lease :: seconds
  oc_max_attempts :: nat
  oc_retry_base :: seconds
  oc_retry_max :: seconds
  oc_retry_jitter :: real
  oc_concurrency :: nat
  oc_dead_letter :: bool
  oc_keep :: bool

text \<open>The \<open>Field\<close> bounds of \<open>OutboxConfig\<close>; \<open>oc_keep\<close> says whether \<open>keep_delivered\<close> is not \<open>False\<close>.\<close>

definition outbox_config_ok :: "outbox_config \<Rightarrow> bool" where
  "outbox_config_ok cfg \<longleftrightarrow> 0 < oc_batch_size cfg \<and> 0 < oc_lease cfg \<and> 0 < oc_max_attempts cfg \<and> 0 < oc_retry_base cfg \<and>
     0 < oc_retry_max cfg \<and> 0 \<le> oc_retry_jitter cfg \<and> oc_retry_jitter cfg \<le> 1 \<and> 0 < oc_concurrency cfg"

definition MAX_BACKOFF_EXPONENT :: nat where
  "MAX_BACKOFF_EXPONENT = 63"

text \<open>\<open>rnd\<close> is what \<open>random()\<close> returns, from 0 up to but not including 1.\<close>

definition outbox_backoff :: "outbox_config \<Rightarrow> real \<Rightarrow> nat \<Rightarrow> seconds" where
  "outbox_backoff cfg rnd attempts =
     (let exponent = min (attempts - 1) MAX_BACKOFF_EXPONENT;
          raw = min (oc_retry_max cfg) (oc_retry_base cfg * 2 ^ exponent);
          least = raw * (1 - oc_retry_jitter cfg)
      in least + rnd * (raw - least))"

text \<open>
  How the handler of a message ends: its return, the cancellation of its task, the two control signals, a
  payload that does not validate, any other exception.
\<close>

datatype handler_end = Returned | TaskCancelled | CancelSignal string | InvalidPayload string
  | RetrySignal "seconds option" | HandlerRaised string

datatype settle_action = Nothing | Complete nat nat bool | Reschedule nat nat seconds string bool

definition settle_dead :: "outbox_record \<Rightarrow> string \<Rightarrow> settle_action" where
  "settle_dead r error = Reschedule (or_id r) (or_attempts r) 0 error True"

definition settle_retry :: "outbox_config \<Rightarrow> real \<Rightarrow> outbox_record \<Rightarrow> string \<Rightarrow> seconds option \<Rightarrow> settle_action" where
  "settle_retry cfg rnd r error delay =
     (if oc_dead_letter cfg \<and> oc_max_attempts cfg \<le> or_attempts r then settle_dead r error
      else Reschedule (or_id r) (or_attempts r)
             (case delay of Some d \<Rightarrow> d | None \<Rightarrow> outbox_backoff cfg rnd (or_attempts r)) error False)"

text \<open>Whether the handler is run at all.\<close>

definition runs_handler :: "outbox_config \<Rightarrow> outbox_record \<Rightarrow> bool" where
  "runs_handler cfg r \<longleftrightarrow> \<not> (oc_dead_letter cfg \<and> oc_max_attempts cfg < or_attempts r)"

definition deliver :: "outbox_config \<Rightarrow> real \<Rightarrow> outbox_record \<Rightarrow> handler_end \<Rightarrow> settle_action" where
  "deliver cfg rnd r outcome =
     (if \<not> runs_handler cfg r then settle_dead r (''exceeded max_attempts ('' @ show_nat (oc_max_attempts cfg) @ '')'')
      else case outcome of
             Returned \<Rightarrow> Complete (or_id r) (or_attempts r) (oc_keep cfg)
           | TaskCancelled \<Rightarrow> Nothing
           | CancelSignal reason \<Rightarrow> settle_dead r reason
           | InvalidPayload error \<Rightarrow> settle_dead r (''invalid payload: '' @ error)
           | RetrySignal delay \<Rightarrow> settle_retry cfg rnd r ''retry requested'' delay
           | HandlerRaised error \<Rightarrow> settle_retry cfg rnd r error None)"

fun settle :: "'s outbox_backend \<Rightarrow> seconds \<Rightarrow> settle_action \<Rightarrow> 's \<Rightarrow> 's" where
  "settle B now Nothing s = s"
| "settle B now (Complete i a keep) s = ob_complete B now i a keep s"
| "settle B now (Reschedule i a delay error dead) s = ob_reschedule B now i a delay error dead s"

text \<open>How many messages a relay with \<open>inflight\<close> handlers asks for; it waits for a slot when there is none.\<close>

definition claim_limit :: "outbox_config \<Rightarrow> nat \<Rightarrow> nat" where
  "claim_limit cfg inflight = min (oc_batch_size cfg) (oc_concurrency cfg - inflight)"

text \<open>
  One turn of \<open>_run\<close>: with no topic the relay waits for the poll interval, with no free slot for a slot;
  a claim that failed (\<open>None\<close>) or found nothing makes it wait too.
\<close>

datatype relay_action = Idle | WaitSlot | Dispatch "outbox_record list"

definition relay_turn :: "outbox_config \<Rightarrow> string list \<Rightarrow> nat \<Rightarrow> (nat \<Rightarrow> outbox_record list option) \<Rightarrow> relay_action" where
  "relay_turn cfg topics inflight claim =
     (if topics = [] then Idle
      else if oc_concurrency cfg - inflight = 0 then WaitSlot
      else case claim (claim_limit cfg inflight) of
             None \<Rightarrow> Idle
           | Some [] \<Rightarrow> Idle
           | Some rs \<Rightarrow> Dispatch rs)"

text \<open>The handlers of one relay: turns start them, \<open>_on_done\<close> ends one. The claims of a backend keep to the limit.\<close>

inductive relay_slots :: "outbox_config \<Rightarrow> nat \<Rightarrow> nat \<Rightarrow> bool" for cfg where
  dispatch: "relay_turn cfg topics n claim = Dispatch rs \<Longrightarrow> (\<And>l xs. claim l = Some xs \<Longrightarrow> length xs \<le> l) \<Longrightarrow> relay_slots cfg n (n + length rs)"
| slot_freed: "relay_slots cfg (Suc n) n"

definition purge_interval :: "seconds \<Rightarrow> seconds" where
  "purge_interval retention = max 60 (min (retention / 10) 3600)"

section \<open>Runs\<close>

text \<open>
  \<open>ox_flight\<close> are the claims being handled, by any relay, with the time of the claim; \<open>ox_ran\<close> the handler
  runs by message and attempt, \<open>ox_done\<close> the messages a handler returned for, \<open>ox_purged\<close> the dead messages
  deleted on request. A settle may fail (the database is away), a process may end with claims in flight.
  Message ids are never reused.
\<close>

record 's outbox_run =
  ox_store :: 's
  ox_now :: seconds
  ox_flight :: "(outbox_record \<times> seconds) list"
  ox_ran :: "(nat \<times> nat) list"
  ox_staged :: "nat \<Rightarrow> outbox_record option"
  ox_done :: "nat set"
  ox_purged :: "nat set"

definition outbox_run_init :: "'s \<Rightarrow> 's outbox_run" where
  "outbox_run_init s =
     \<lparr>ox_store = s, ox_now = 0, ox_flight = [], ox_ran = [], ox_staged = (\<lambda>_. None), ox_done = {}, ox_purged = {}\<rparr>"

inductive outbox_step :: "bool \<Rightarrow> 's outbox_backend \<Rightarrow> ('s \<Rightarrow> nat \<Rightarrow> outbox_row option) \<Rightarrow> outbox_config \<Rightarrow> 's outbox_run \<Rightarrow> 's outbox_run \<Rightarrow> bool"
  for with_redrive B view cfg
where
  publish: "ox_staged x (or_id r) = None \<Longrightarrow> ob_enqueue B t r (ox_store x) = (ok, s) \<Longrightarrow>
    outbox_step with_redrive B view cfg x
      (x\<lparr>ox_store := s, ox_staged := (if ok then (ox_staged x)(or_id r \<mapsto> r) else ox_staged x)\<rparr>)"
| claim: "ox_now x \<le> t \<Longrightarrow> ob_claim B t topics (claim_limit cfg inflight) (oc_lease cfg) (ox_store x) = (rs, s) \<Longrightarrow>
    outbox_step with_redrive B view cfg x (x\<lparr>ox_now := t, ox_store := s, ox_flight := ox_flight x @ map (\<lambda>r. (r, t)) rs\<rparr>)"
| handle: "ox_now x \<le> t \<Longrightarrow> (r, t0) \<in> set (ox_flight x) \<Longrightarrow>
    outbox_step with_redrive B view cfg x
      (x\<lparr>ox_now := t, ox_store := (if settled then settle B t (deliver cfg rnd r outcome) (ox_store x) else ox_store x),
         ox_flight := removeAll (r, t0) (ox_flight x),
         ox_ran := (if runs_handler cfg r then (or_id r, or_attempts r) # ox_ran x else ox_ran x),
         ox_done := (if runs_handler cfg r \<and> outcome = Returned then insert (or_id r) (ox_done x) else ox_done x)\<rparr>)"
| crash: "(r, t0) \<in> set (ox_flight x) \<Longrightarrow>
    outbox_step with_redrive B view cfg x
      (x\<lparr>ox_flight := removeAll (r, t0) (ox_flight x),
         ox_ran := (if runs_handler cfg r then (or_id r, or_attempts r) # ox_ran x else ox_ran x)\<rparr>)"
| redrive: "with_redrive \<Longrightarrow> ox_now x \<le> t \<Longrightarrow> ob_redrive B t topic (ox_store x) = (n, s) \<Longrightarrow>
    outbox_step with_redrive B view cfg x (x\<lparr>ox_now := t, ox_store := s\<rparr>)"
| purge: "ox_now x \<le> t \<Longrightarrow> set states \<subseteq> {Delivered, Dead} \<Longrightarrow> ob_purge B t before states (ox_store x) = (n, s) \<Longrightarrow>
    outbox_step with_redrive B view cfg x
      (x\<lparr>ox_now := t, ox_store := s,
         ox_purged := ox_purged x \<union> {i. \<exists>row. view (ox_store x) i = Some row \<and> ow_state row = Dead \<and> view s i = None}\<rparr>)"

text \<open>Nothing is lost: a staged message that no handler returned for is in the store, unless it was purged when dead.\<close>

definition kept :: "('s \<Rightarrow> bool) \<Rightarrow> ('s \<Rightarrow> nat \<Rightarrow> outbox_row option) \<Rightarrow> 's outbox_run \<Rightarrow> bool" where
  "kept I view x \<longleftrightarrow> I (ox_store x) \<and>
     (\<forall>i r. ox_staged x i = Some r \<longrightarrow> i \<notin> ox_done x \<longrightarrow> i \<notin> ox_purged x \<longrightarrow>
        (\<exists>row. view (ox_store x) i = Some row \<and> ow_state row \<noteq> Delivered)) \<and>
     (\<forall>i row. view (ox_store x) i = Some row \<longrightarrow>
        (\<exists>r. ox_staged x i = Some r \<and> same_message r (ow_record row)) \<and> (ow_state row = Delivered \<longrightarrow> i \<in> ox_done x)) \<and>
     (\<forall>r t. (r, t) \<in> set (ox_flight x) \<longrightarrow> (\<exists>r0. ox_staged x (or_id r) = Some r0 \<and> same_message r0 r))"

definition claims :: "'s outbox_run \<Rightarrow> (nat \<times> nat) list" where
  "claims x = map (\<lambda>(r, t). (or_id r, or_attempts r)) (ox_flight x)"

text \<open>Each attempt of a message is claimed once and handled at most once, up to the limit.\<close>

definition counted :: "('s \<Rightarrow> nat \<Rightarrow> outbox_row option) \<Rightarrow> outbox_config \<Rightarrow> 's outbox_run \<Rightarrow> bool" where
  "counted view cfg x \<longleftrightarrow> distinct (claims x @ ox_ran x) \<and>
     (\<forall>i a. (i, a) \<in> set (claims x @ ox_ran x) \<longrightarrow>
        1 \<le> a \<and> ox_staged x i \<noteq> None \<and> (\<forall>row. view (ox_store x) i = Some row \<longrightarrow> a \<le> ow_attempts row)) \<and>
     (\<forall>i a. (i, a) \<in> set (ox_ran x) \<longrightarrow> oc_dead_letter cfg \<longrightarrow> a \<le> oc_max_attempts cfg)"

text \<open>A claim in flight is the current one and its lease runs, or its lease has run out.\<close>

definition leased :: "('s \<Rightarrow> nat \<Rightarrow> outbox_row option) \<Rightarrow> outbox_config \<Rightarrow> 's outbox_run \<Rightarrow> bool" where
  "leased view cfg x \<longleftrightarrow>
     (\<forall>r t row. (r, t) \<in> set (ox_flight x) \<longrightarrow> view (ox_store x) (or_id r) = Some row \<longrightarrow>
        or_attempts r = ow_attempts row \<and> ow_state row = Processing \<and> ow_available row = t + oc_lease cfg \<or>
        or_attempts r < ow_attempts row \<and> t + oc_lease cfg \<le> ox_now x) \<and>
     (\<forall>r1 t1 r2 t2. (r1, t1) \<in> set (ox_flight x) \<longrightarrow> (r2, t2) \<in> set (ox_flight x) \<longrightarrow>
        or_id r1 = or_id r2 \<longrightarrow> or_attempts r1 < or_attempts r2 \<longrightarrow> t1 + oc_lease cfg \<le> t2)"

lemma row_fields [simp]:
  "ow_attempts (claimed_row now lease row) = Suc (ow_attempts row)" "ow_state (claimed_row now lease row) = Processing"
  "ow_available (claimed_row now lease row) = now + lease" "ow_state (delivered_row now row) = Delivered"
  "ow_attempts (delivered_row now row) = ow_attempts row" "ow_attempts (rescheduled_row now delay error dead row) = ow_attempts row"
  "ow_state (rescheduled_row now delay error dead row) = (if dead then Dead else Pending)"
  "ow_state (new_row now r) = Pending" "ow_state (redriven_row now row) = Pending" "or_attempts (claimed_record row) = Suc (ow_attempts row)"
  by (simp_all add: claimed_row_def delivered_row_def rescheduled_row_def redriven_row_def new_row_def claimed_record_def Let_def)

lemma deliver_completes: "(\<exists>j a k. deliver cfg rnd r outcome = Complete j a k) \<longleftrightarrow> runs_handler cfg r \<and> outcome = Returned"
  by (auto simp: deliver_def settle_dead_def settle_retry_def split: handler_end.split)

context outbox_laws
begin

text \<open>What a settle does to the rows.\<close>

lemma settle_row:
  assumes "inv s" "act = deliver cfg rnd r outcome"
  shows "inv (settle B now act s)"
    and "view (settle B now act s) i = (case view s i of None \<Rightarrow> None | Some row \<Rightarrow>
      if i = or_id r \<and> ow_attempts row = or_attempts r
      then case act of Nothing \<Rightarrow> Some row
           | Complete _ _ keep \<Rightarrow> if keep then Some (delivered_row now row) else None
           | Reschedule _ _ delay error dead \<Rightarrow> Some (rescheduled_row now delay error dead row)
      else Some row)"
proof -
  have act: "act = Nothing \<or> (\<exists>k. act = Complete (or_id r) (or_attempts r) k) \<or> (\<exists>d e b. act = Reschedule (or_id r) (or_attempts r) d e b)"
    by (auto simp: assms(2) deliver_def settle_dead_def settle_retry_def split: handler_end.split)
  then show "inv (settle B now act s)" using assms(1) complete_law reschedule_law by auto
  show "view (settle B now act s) i = (case view s i of None \<Rightarrow> None | Some row \<Rightarrow>
      if i = or_id r \<and> ow_attempts row = or_attempts r
      then case act of Nothing \<Rightarrow> Some row
           | Complete _ _ keep \<Rightarrow> if keep then Some (delivered_row now row) else None
           | Reschedule _ _ delay error dead \<Rightarrow> Some (rescheduled_row now delay error dead row)
      else Some row)"
    using act assms(1) complete_law reschedule_law by (auto simp: fenced_def split: option.split)
qed

lemma keptD:
  assumes "kept inv view x"
  shows "inv (ox_store x)"
    and "ox_staged x i = Some r \<Longrightarrow> i \<notin> ox_done x \<Longrightarrow> i \<notin> ox_purged x \<Longrightarrow> \<exists>row. view (ox_store x) i = Some row \<and> ow_state row \<noteq> Delivered"
    and "view (ox_store x) i = Some row \<Longrightarrow> \<exists>r. ox_staged x i = Some r \<and> same_message r (ow_record row)"
    and "view (ox_store x) i = Some row \<Longrightarrow> ow_state row = Delivered \<Longrightarrow> i \<in> ox_done x"
    and "(q, t) \<in> set (ox_flight x) \<Longrightarrow> \<exists>r0. ox_staged x (or_id q) = Some r0 \<and> same_message r0 q"
  using assms unfolding kept_def by blast+

lemma kept_unseen: "kept inv view x \<Longrightarrow> ox_staged x i = None \<Longrightarrow> view (ox_store x) i = None"
  using keptD(3) by (metis not_None_eq option.distinct(1))

text \<open>A step that changes rows one by one, and keeps the claims, keeps the messages.\<close>

lemma kept_rows:
  assumes k: "kept inv view x" and i: "inv (ox_store x')" and st: "ox_staged x' = ox_staged x" "ox_done x \<subseteq> ox_done x'" "ox_purged x \<subseteq> ox_purged x'"
    and fl: "set (ox_flight x') \<subseteq> set (ox_flight x)"
    and back_row: "\<And>j row'. view (ox_store x') j = Some row' \<Longrightarrow>
      \<exists>row. view (ox_store x) j = Some row \<and> ow_record row' = ow_record row \<and> (ow_state row' = Delivered \<longrightarrow> ow_state row = Delivered \<or> j \<in> ox_done x')"
    and forth: "\<And>j row. view (ox_store x) j = Some row \<Longrightarrow> ow_state row \<noteq> Delivered \<Longrightarrow> j \<notin> ox_done x' \<Longrightarrow> j \<notin> ox_purged x' \<Longrightarrow>
      \<exists>row'. view (ox_store x') j = Some row' \<and> ow_state row' \<noteq> Delivered"
  shows "kept inv view x'"
  unfolding kept_def
proof (intro conjI allI impI)
  show "\<exists>row. view (ox_store x') j = Some row \<and> ow_state row \<noteq> Delivered"
    if "ox_staged x' j = Some q" "j \<notin> ox_done x'" "j \<notin> ox_purged x'" for j q
  proof -
    have "j \<notin> ox_done x" "j \<notin> ox_purged x" "ox_staged x j = Some q" using that st by auto
    then show ?thesis using keptD(2) [OF k, of j q] forth [of j] that(2,3) by blast
  qed
next
  fix j row' assume v: "view (ox_store x') j = Some row'"
  from back_row [OF v] obtain row where row: "view (ox_store x) j = Some row" "ow_record row' = ow_record row"
    "ow_state row' = Delivered \<longrightarrow> ow_state row = Delivered \<or> j \<in> ox_done x'" by blast
  show "\<exists>r. ox_staged x' j = Some r \<and> same_message r (ow_record row')" using keptD(3) [OF k row(1)] row(2) by (simp add: st(1))
  show "j \<in> ox_done x'" if "ow_state row' = Delivered" using that row keptD(4) [OF k row(1)] st(2) by blast
next
  show "\<exists>r0. ox_staged x' (or_id r) = Some r0 \<and> same_message r0 r" if "(r, t) \<in> set (ox_flight x')" for r t
    using keptD(5) [OF k] that fl st(1) by (metis subsetD)
qed (rule i)

lemma kept_step:
  assumes "outbox_step rd B view cfg x x'" "kept inv view x"
  shows "kept inv view x'"
  using assms(1)
proof cases
  case (publish r t ok s)
  note i = keptD(1) [OF assms(2)]
  have new: "view (ox_store x) (or_id r) = None" by (rule kept_unseen [OF assms(2) publish(2)])
  note e = enqueue_law [OF i new publish(3)]
  show ?thesis
  proof (cases ok)
    case True
    then obtain row where row: "stores t r row" "view s = (view (ox_store x))(or_id r \<mapsto> row)" "inv s" using e by auto
    show ?thesis unfolding kept_def publish(1)
      using True row assms(2) keptD [OF assms(2)] publish(2) by (auto simp: stores_def) (metis option.distinct(1))+
  next
    case False
    then show ?thesis using e assms(2) unfolding publish(1) kept_def by auto
  qed
next
  case (claim t topics inflight rs s)
  note c = claim_law [OF keptD(1) [OF assms(2)] claim(3)]
  have "kept inv view (x\<lparr>ox_now := t, ox_store := s\<rparr>)" by (rule kept_rows [OF assms(2)]) (use c in \<open>auto split: if_splits\<close>)
  moreover have "\<exists>r0. ox_staged x (or_id r) = Some r0 \<and> same_message r0 r" if "r \<in> set rs" for r
  proof -
    from c that obtain row where "view (ox_store x) (or_id r) = Some row" "hands_out row r" by blast
    then show ?thesis using keptD(3) [OF assms(2)] by (metis hands_out_def same_message_trans)
  qed
  ultimately show ?thesis unfolding claim(1) kept_def by auto
next
  case (handle t r t0 outcome settled rnd)
  note st = settle_row [OF keptD(1) [OF assms(2)] refl [of "deliver cfg rnd r outcome"], of t]
  show ?thesis unfolding handle(1)
    by (rule kept_rows [OF assms(2)])
      (use st(1) keptD(1) [OF assms(2)] deliver_completes [of cfg rnd r outcome] in \<open>auto simp: st(2) split: option.splits if_splits settle_action.splits\<close>)
next
  case (crash r t0)
  show ?thesis unfolding crash(1) by (rule kept_rows [OF assms(2)]) (use keptD(1) [OF assms(2)] in auto)
next
  case (redrive t topic n s)
  show ?thesis unfolding redrive(1)
    by (rule kept_rows [OF assms(2)]) (use redrive_law [OF keptD(1) [OF assms(2)] redrive(4)] in \<open>auto split: if_splits\<close>)
next
  case (purge t states before n s)
  show ?thesis unfolding purge(1)
    by (rule kept_rows [OF assms(2)])
      (use purge_law [OF keptD(1) [OF assms(2)] purge(4)] purge(3) in \<open>auto simp: doomed_def split: if_splits option.splits\<close>)
qed

text \<open>The end of a claim, by its handler or by a crash, moves it from the claims to the runs.\<close>

lemma counted_end:
  assumes c: "counted view cfg x" and r: "(r, t0) \<in> set (ox_flight x)"
    and fl: "ox_flight x' = removeAll (r, t0) (ox_flight x)" "ox_staged x' = ox_staged x"
      "ox_ran x' = (if runs_handler cfg r then (or_id r, or_attempts r) # ox_ran x else ox_ran x)"
    and att: "\<And>j row'. view (ox_store x') j = Some row' \<Longrightarrow> \<exists>w. view (ox_store x) j = Some w \<and> ow_attempts row' = ow_attempts w"
  shows "counted view cfg x'"
proof -
  have d: "distinct (claims x @ ox_ran x)" using c by (simp add: counted_def)
  have dc: "distinct (claims x)" using d by simp
  have mem: "(or_id r, or_attempts r) \<in> set (claims x)" using r by (force simp: claims_def)
  have sc: "set (claims x') \<subseteq> set (claims x)" unfolding claims_def fl by auto
  have sub: "set (claims x' @ ox_ran x') \<subseteq> set (claims x @ ox_ran x)" using mem sc by (auto simp: fl)
  have d': "distinct (claims x')" using dc unfolding claims_def fl by (auto simp: distinct_map distinct_removeAll inj_on_def)
  have "(or_id r, or_attempts r) \<notin> set (claims x')"
  proof
    assume "(or_id r, or_attempts r) \<in> set (claims x')"
    then obtain q where q: "q \<in> set (ox_flight x)" "q \<noteq> (r, t0)" "(\<lambda>(r, t). (or_id r, or_attempts r)) q = (or_id r, or_attempts r)"
      unfolding claims_def fl by force
    have "inj_on (\<lambda>(r, t). (or_id r, or_attempts r)) (set (ox_flight x))" using dc by (simp add: claims_def distinct_map)
    from inj_onD [OF this, of q "(r, t0)"] q r show False by simp
  qed
  then have "distinct (claims x' @ ox_ran x')" using d d' sc mem by (auto simp: fl(3))
  moreover have "\<forall>j a. (j, a) \<in> set (ox_ran x') \<longrightarrow> oc_dead_letter cfg \<longrightarrow> a \<le> oc_max_attempts cfg"
    using c by (auto simp: counted_def fl(3) runs_handler_def)
  moreover have "\<forall>j a. (j, a) \<in> set (claims x' @ ox_ran x') \<longrightarrow>
      1 \<le> a \<and> ox_staged x' j \<noteq> None \<and> (\<forall>row. view (ox_store x') j = Some row \<longrightarrow> a \<le> ow_attempts row)"
    using c sub att unfolding counted_def fl(2) by (metis subsetD)
  ultimately show ?thesis by (simp add: counted_def)
qed

lemma counted_step:
  assumes "outbox_step False B view cfg x x'" "kept inv view x" "counted view cfg x"
  shows "counted view cfg x'"
proof -
  note i = keptD(1) [OF assms(2)]
  have d: "distinct (claims x @ ox_ran x)" and lim: "\<And>i a. (i, a) \<in> set (ox_ran x) \<Longrightarrow> oc_dead_letter cfg \<Longrightarrow> a \<le> oc_max_attempts cfg"
    and low: "\<And>i a. (i, a) \<in> set (claims x @ ox_ran x) \<Longrightarrow> 1 \<le> a" "\<And>i a. (i, a) \<in> set (claims x @ ox_ran x) \<Longrightarrow> ox_staged x i \<noteq> None"
    and row: "\<And>i a row. (i, a) \<in> set (claims x @ ox_ran x) \<Longrightarrow> view (ox_store x) i = Some row \<Longrightarrow> a \<le> ow_attempts row"
    using assms(3) unfolding counted_def by blast+
  show ?thesis using assms(1)
  proof cases
    case (publish r t ok s)
    have v: "view s j = view (ox_store x) j" if "j \<noteq> or_id r" for j
      using enqueue_law [OF i kept_unseen [OF assms(2) publish(2)] publish(3)] that by (auto split: if_splits)
    have c: "claims x' = claims x" "ox_ran x' = ox_ran x" by (simp_all add: publish(1) claims_def)
    have "1 \<le> a \<and> ox_staged x' j \<noteq> None \<and> (\<forall>row. view (ox_store x') j = Some row \<longrightarrow> a \<le> ow_attempts row)"
      if ja: "(j, a) \<in> set (claims x @ ox_ran x)" for j a
    proof -
      have "j \<noteq> or_id r" using low(2) [OF ja] publish(2) by auto
      then show ?thesis using low [OF ja] row [OF ja] v by (auto simp: publish(1))
    qed
    then show ?thesis using d lim unfolding counted_def c by blast
  next
    case (claim t topics inflight rs s)
    note c = claim_law [OF i claim(3)]
    have cl: "claims x' = claims x @ map (\<lambda>r. (or_id r, or_attempts r)) rs" "ox_ran x' = ox_ran x" by (simp_all add: claim(1) claims_def o_def)
    have new: "\<exists>row. view (ox_store x) (or_id r) = Some row \<and> or_attempts r = Suc (ow_attempts row)" if "r \<in> set rs" for r
      using c that by (auto simp: hands_out_def)
    have fresh: "(or_id r, or_attempts r) \<notin> set (claims x @ ox_ran x)" if "r \<in> set rs" for r
      using new [OF that] row by fastforce
    have inj: "distinct (map (\<lambda>r. (or_id r, or_attempts r)) rs)" using c by (auto simp: distinct_map inj_on_def)
    have dist: "distinct (claims x' @ ox_ran x')" using d fresh inj unfolding cl by auto
    have "1 \<le> a \<and> ox_staged x' j \<noteq> None \<and> (\<forall>row. view (ox_store x') j = Some row \<longrightarrow> a \<le> ow_attempts row)"
      if ja: "(j, a) \<in> set (claims x' @ ox_ran x')" for j a
    proof (cases "(j, a) \<in> set (claims x @ ox_ran x)")
      case True
      have "\<exists>w. view (ox_store x) j = Some w \<and> ow_attempts w \<le> ow_attempts row'" if "view s j = Some row'" for row'
        using that c by (auto split: if_splits)
      then show ?thesis using low [OF True] row [OF True] by (fastforce simp: claim(1))
    next
      case False
      then obtain r where r: "r \<in> set rs" "j = or_id r" "a = or_attempts r" using ja unfolding cl by auto
      from new [OF r(1)] obtain w where w: "view (ox_store x) j = Some w" "a = Suc (ow_attempts w)" using r by auto
      then have "view s j = Some (claimed_row t (oc_lease cfg) w)" using c r by auto
      then show ?thesis using w keptD(3) [OF assms(2) w(1)] by (auto simp: claim(1))
    qed
    then show ?thesis using dist lim unfolding counted_def cl(2) by blast
  next
    case (handle t r t0 outcome settled rnd)
    note st = settle_row [OF i refl [of "deliver cfg rnd r outcome"], of t]
    have "\<exists>w. view (ox_store x) j = Some w \<and> ow_attempts row' = ow_attempts w" if "view (ox_store x') j = Some row'" for j row'
      using that unfolding handle(1) by (auto simp: st(2) split: if_splits option.splits settle_action.splits)
    with handle(3) show ?thesis by (intro counted_end [OF assms(3), where x' = x']) (simp_all add: handle(1))
  next
    case (crash r t0)
    have "counted view cfg (x\<lparr>ox_flight := removeAll (r, t0) (ox_flight x),
         ox_ran := (if runs_handler cfg r then (or_id r, or_attempts r) # ox_ran x else ox_ran x)\<rparr>)"
      by (rule counted_end [OF assms(3) crash(2)]) simp_all
    then show ?thesis by (simp only: crash(1))
  next
    case (purge t states before n s)
    have "view (ox_store x) j = Some row" if "view s j = Some row" for j row
      using that purge_law [OF i purge(4)] by (auto split: option.splits if_splits)
    then show ?thesis using assms(3) unfolding counted_def purge(1) claims_def by simp
  qed simp
qed

lemma leased_step:
  assumes "outbox_step False B view cfg x x'" "kept inv view x" "counted view cfg x" "leased view cfg x"
  shows "leased view cfg x'"
proof -
  note i = keptD(1) [OF assms(2)]
  have flown: "ox_staged x (or_id r) \<noteq> None" if "(r, t) \<in> set (ox_flight x)" for r t
  proof -
    have "(or_id r, or_attempts r) \<in> set (claims x)" using that by (force simp: claims_def)
    then show ?thesis using assms(3) by (simp add: counted_def)
  qed
  have one: "q = (r, t)" if "q \<in> set (ox_flight x)" "(r, t) \<in> set (ox_flight x)" "or_id (fst q) = or_id r" "or_attempts (fst q) = or_attempts r" for q r t
  proof -
    have "inj_on (\<lambda>(r, t). (or_id r, or_attempts r)) (set (ox_flight x))" using assms(3) by (simp add: counted_def claims_def distinct_map)
    from inj_onD [OF this, of q "(r, t)"] that show ?thesis by (simp add: split_beta)
  qed
  have cur: "or_attempts r = ow_attempts row \<and> ow_state row = Processing \<and> ow_available row = t + oc_lease cfg \<or>
        or_attempts r < ow_attempts row \<and> t + oc_lease cfg \<le> ox_now x"
    if "(r, t) \<in> set (ox_flight x)" "view (ox_store x) (or_id r) = Some row" for r t row
    using that assms(4) unfolding leased_def by blast
  have two: "t1 + oc_lease cfg \<le> t2" if "(r1, t1) \<in> set (ox_flight x)" "(r2, t2) \<in> set (ox_flight x)"
      "or_id r1 = or_id r2" "or_attempts r1 < or_attempts r2" for r1 t1 r2 t2
    using that assms(4) unfolding leased_def by blast
  show ?thesis using assms(1)
  proof cases
    case (publish r t ok s)
    have v: "view s j = view (ox_store x) j" if "j \<noteq> or_id r" for j
      using enqueue_law [OF i kept_unseen [OF assms(2) publish(2)] publish(3)] that by (auto split: if_splits)
    have "view s (or_id q) = view (ox_store x) (or_id q)" if "(q, u) \<in> set (ox_flight x)" for q u
      by (rule v) (use flown [OF that] publish(2) in auto)
    then show ?thesis using cur two unfolding leased_def publish(1) by fastforce
  next
    case (claim t topics inflight rs s)
    note c = claim_law [OF i claim(3)]
    have new: "\<exists>row. view (ox_store x) (or_id r) = Some row \<and> ow_available row \<le> t \<and> or_attempts r = Suc (ow_attempts row)" if "r \<in> set rs" for r
      using c that by (auto simp: hands_out_def due_def)
    have old: "u + oc_lease cfg \<le> t \<and> or_attempts q < or_attempts r" if "(q, u) \<in> set (ox_flight x)" "r \<in> set rs" "or_id q = or_id r" for q u r
      using new [OF that(2)] cur [OF that(1)] that(3) claim(2) by fastforce
    have fl: "ox_flight x' = ox_flight x @ map (\<lambda>r. (r, t)) rs" "ox_now x' = t" "ox_store x' = s" by (simp_all add: claim(1))
    have mem: "(q, u) \<in> set (ox_flight x') \<longleftrightarrow> (q, u) \<in> set (ox_flight x) \<or> q \<in> set rs \<and> u = t" for q u unfolding fl(1) by auto
    have ids: "r1 = r2" if "r1 \<in> set rs" "r2 \<in> set rs" "or_id r1 = or_id r2" for r1 r2
      using c that by (auto simp: distinct_map inj_on_def)
    have "or_attempts r = ow_attempts row \<and> ow_state row = Processing \<and> ow_available row = u + oc_lease cfg \<or>
        or_attempts r < ow_attempts row \<and> u + oc_lease cfg \<le> t"
      if "(r, u) \<in> set (ox_flight x) \<or> r \<in> set rs \<and> u = t" "view s (or_id r) = Some row" for r u row
    proof (cases "or_id r \<in> or_id ` set rs")
      case True
      then obtain q where q: "q \<in> set rs" "or_id r = or_id q" by auto
      from new [OF q(1)] obtain w where w: "view (ox_store x) (or_id q) = Some w" "or_attempts q = Suc (ow_attempts w)" by blast
      then have "row = claimed_row t (oc_lease cfg) w" using that(2) c q by auto
      then show ?thesis using that(1) old [of r u q] ids [of r q] q w by auto
    next
      case False
      then have "(r, u) \<in> set (ox_flight x)" "view (ox_store x) (or_id r) = Some row" using that c by auto
      from cur [OF this] show ?thesis using claim(2) by auto
    qed
    moreover have "t1 + oc_lease cfg \<le> t2"
      if "(r1, t1) \<in> set (ox_flight x) \<or> r1 \<in> set rs \<and> t1 = t" "(r2, t2) \<in> set (ox_flight x) \<or> r2 \<in> set rs \<and> t2 = t"
        "or_id r1 = or_id r2" "or_attempts r1 < or_attempts r2" for r1 t1 r2 t2
      using that two [of r1 t1 r2 t2] old [of r1 t1 r2] old [of r2 t2 r1] ids [of r1 r2] by auto
    ultimately show ?thesis unfolding leased_def fl(2,3) mem by blast
  next
    case (handle t r t0 outcome settled rnd)
    note st = settle_row [OF i refl [of "deliver cfg rnd r outcome"], of t]
    have "view (ox_store x) (or_id q) = Some row \<or>
        (\<exists>w. view (ox_store x) (or_id q) = Some w \<and> ow_attempts row = ow_attempts w \<and> or_attempts q < ow_attempts w)"
      if q: "(q, u) \<in> set (ox_flight x)" "(q, u) \<noteq> (r, t0)" "view (ox_store x') (or_id q) = Some row" for q u row
    proof -
      have "or_attempts q < ow_attempts w" if "view (ox_store x) (or_id q) = Some w" "or_id q = or_id r" "ow_attempts w = or_attempts r" for w
        using one [OF q(1) handle(3)] q cur [OF q(1) that(1)] that by auto
      then show ?thesis using q(3) unfolding handle(1) by (auto simp: st(2) split: if_splits option.splits settle_action.splits)
    qed
    then show ?thesis using cur two handle(2) unfolding leased_def handle(1) by fastforce
  next
    case (crash r t0)
    then show ?thesis using cur two unfolding leased_def crash(1) by auto
  next
    case (purge t states before n s)
    have "view (ox_store x) j = Some row" if "view s j = Some row" for j row
      using that purge_law [OF i purge(4)] by (auto split: option.splits if_splits)
    then show ?thesis using cur two purge(2) unfolding leased_def purge(1) by fastforce
  qed simp
qed

text \<open>Every reachable state.\<close>

lemma reach_kept:
  assumes "(outbox_step rd B view cfg)\<^sup>*\<^sup>* (outbox_run_init s) x" "inv s" "view s = (\<lambda>_. None)"
  shows "kept inv view x"
  using assms(1)
proof induction
  case base
  show ?case using assms(2,3) by (simp add: kept_def outbox_run_init_def)
next
  case (step y z)
  then show ?case using kept_step by blast
qed

lemma reach_leased:
  assumes "(outbox_step False B view cfg)\<^sup>*\<^sup>* (outbox_run_init s) x" "inv s" "view s = (\<lambda>_. None)"
  shows "counted view cfg x \<and> leased view cfg x"
  using assms(1)
proof induction
  case base
  show ?case using assms(3) by (simp add: counted_def leased_def claims_def outbox_run_init_def)
next
  case (step y z)
  then show ?case using kept_step counted_step leased_step reach_kept [OF step(1) assms(2,3)] by blast
qed

lemma no_loss:
  assumes "(outbox_step rd B view cfg)\<^sup>*\<^sup>* (outbox_run_init s) x" "inv s" "view s = (\<lambda>_. None)"
    and "ox_staged x i = Some r" "i \<notin> ox_done x" "i \<notin> ox_purged x"
  shows "\<exists>row. view (ox_store x) i = Some row \<and> ow_state row \<noteq> Delivered \<and> same_message r (ow_record row)"
proof -
  note k = reach_kept [OF assms(1-3)]
  from keptD(2) [OF k assms(4-6)] obtain row where row: "view (ox_store x) i = Some row" "ow_state row \<noteq> Delivered" by blast
  with keptD(3) [OF k row(1)] assms(4) show ?thesis by auto
qed

lemma runs_bound:
  assumes "(outbox_step False B view cfg)\<^sup>*\<^sup>* (outbox_run_init s) x" "inv s" "view s = (\<lambda>_. None)" "oc_dead_letter cfg"
  shows "length (filter (\<lambda>(j, a). j = i) (ox_ran x)) \<le> oc_max_attempts cfg"
proof -
  let ?f = "filter (\<lambda>(j, a). j = i) (ox_ran x)"
  have c: "distinct (ox_ran x)" "\<And>j a. (j, a) \<in> set (ox_ran x) \<Longrightarrow> 1 \<le> a \<and> a \<le> oc_max_attempts cfg"
    using reach_leased [OF assms(1-3)] assms(4) by (auto simp: counted_def)
  have "length ?f = card (set ?f)" using c(1) by (metis distinct_card distinct_filter)
  also have "\<dots> \<le> card (Pair i ` {1..oc_max_attempts cfg})" using c(2) by (intro card_mono) force+
  also have "\<dots> \<le> oc_max_attempts cfg" using card_image_le [of "{1..oc_max_attempts cfg}" "Pair i"] by simp
  finally show ?thesis .
qed

lemma exclusive:
  assumes "(outbox_step False B view cfg)\<^sup>*\<^sup>* (outbox_run_init s) x" "inv s" "view s = (\<lambda>_. None)"
    and "(r1, t1) \<in> set (ox_flight x)" "(r2, t2) \<in> set (ox_flight x)" "(r1, t1) \<noteq> (r2, t2)" "or_id r1 = or_id r2"
  shows "t1 + oc_lease cfg \<le> t2 \<or> t2 + oc_lease cfg \<le> t1"
proof -
  note c = reach_leased [OF assms(1-3)]
  have "inj_on (\<lambda>(r, t). (or_id r, or_attempts r)) (set (ox_flight x))" using c by (simp add: counted_def claims_def distinct_map)
  from inj_onD [OF this, of "(r1, t1)" "(r2, t2)"] assms(4-7) have "or_attempts r1 \<noteq> or_attempts r2" by auto
  then show ?thesis using c assms(4-7) unfolding leased_def by (metis nat_neq_iff)
qed

text \<open>A claim that another one has superseded settles nothing.\<close>

lemma stale_settle:
  assumes "(outbox_step False B view cfg)\<^sup>*\<^sup>* (outbox_run_init s) x" "inv s" "view s = (\<lambda>_. None)"
    and "(r1, t1) \<in> set (ox_flight x)" "(r2, t2) \<in> set (ox_flight x)" "or_id r1 = or_id r2" "or_attempts r1 < or_attempts r2"
  shows "view (settle B t (deliver cfg rnd r1 outcome) (ox_store x)) = view (ox_store x)"
proof -
  note k = reach_kept [OF assms(1-3)]
  have "ow_attempts row \<noteq> or_attempts r1" if "view (ox_store x) (or_id r1) = Some row" for row
    using reach_leased [OF assms(1-3)] assms(4-7) that unfolding leased_def by (metis less_irrefl order.strict_trans)
  then show ?thesis by (auto simp: settle_row(2) [OF keptD(1) [OF k] refl] fun_eq_iff split: option.split)
qed

end

lemma outbox_backoff_bounds:
  assumes "outbox_config_ok cfg" "0 \<le> rnd" "rnd < 1"
  shows "0 \<le> outbox_backoff cfg rnd n \<and> outbox_backoff cfg rnd n \<le> oc_retry_max cfg"
proof -
  let ?raw = "min (oc_retry_max cfg) (oc_retry_base cfg * 2 ^ min (n - 1) MAX_BACKOFF_EXPONENT)"
  let ?low = "?raw * (1 - oc_retry_jitter cfg)"
  have raw: "0 \<le> ?raw" "?raw \<le> oc_retry_max cfg" using assms(1) by (auto simp: outbox_config_ok_def)
  have low: "0 \<le> ?low" "?low \<le> ?raw" using raw(1) assms(1) mult_left_le [of "1 - oc_retry_jitter cfg" ?raw] by (auto simp: outbox_config_ok_def)
  have "rnd * (?raw - ?low) \<le> ?raw - ?low" using low assms(2,3) mult_right_mono [of rnd 1 "?raw - ?low"] by auto
  moreover have "0 \<le> rnd * (?raw - ?low)" using low assms(2) by auto
  moreover have "outbox_backoff cfg rnd n = ?low + rnd * (?raw - ?low)" by (simp add: outbox_backoff_def Let_def)
  ultimately show ?thesis using low raw by linarith
qed

end
