(* ===== verification/Sql_Outbox.thy ===== *)
theory Sql_Outbox
  imports Outbox
begin

text \<open>
  The outbox on Postgres (\<open>outbox/postgres.py\<close>): one table, each call one statement. \<open>NOW()\<close> is the time of the
  statement's transaction. The relays of all replicas share the table, and a claim skips the rows that
  other transactions hold locked (\<open>FOR UPDATE SKIP LOCKED\<close>): which ones is a parameter of the claim. The adapter obeys the
  contract of the outbox, so that the properties of the runs hold of it; the properties of both adapters are at the
  end.
\<close>

type_synonym outbox_table = "(nat, outbox_row) pydict"

section \<open>Statements\<close>

text \<open>
  What \<open>publish\<close> gets as a handle: a pool, an asyncpg connection or a SQLAlchemy session, inside a
  transaction or not, or anything else.
\<close>

datatype publish_handle = PoolHandle | AsyncpgHandle bool | SqlAlchemyHandle bool | OtherHandle

text \<open>\<open>_available_in_seconds\<close>; \<open>here\<close> is the clock of the application.\<close>

definition available_in_seconds :: "seconds \<Rightarrow> outbox_record \<Rightarrow> seconds" where
  "available_in_seconds here r = (case or_available r of None \<Rightarrow> 0 | Some t \<Rightarrow> max 0 (t - here))"

text \<open>
  \<open>_SQL_ENQUEUE\<close>: a row with the same deduplication key makes it a no-op, one with the same id an error.
\<close>

definition sql_enqueue :: "seconds \<Rightarrow> seconds \<Rightarrow> outbox_record \<Rightarrow> outbox_table \<Rightarrow> (outbox_error + bool) \<times> outbox_table" where
  "sql_enqueue now delay r tbl =
     (if or_dedup r \<noteq> None \<and> list_ex (\<lambda>(i, row). or_dedup (ow_record row) = or_dedup r) tbl then (Inr False, tbl)
      else if dget tbl (or_id r) \<noteq> None then (Inl DuplicateId, tbl)
      else (Inr True, dput (or_id r)
             \<lparr>ow_record = r\<lparr>or_attempts := 0, or_available := None\<rparr>, ow_state = Pending, ow_attempts = 0,
              ow_available = now + delay, ow_created = now, ow_error = None, ow_delivered = None\<rparr> tbl))"

text \<open>The two paths of \<open>enqueue\<close> run the same statement with the parameters in other positions.\<close>

definition postgres_enqueue ::
  "publish_handle \<Rightarrow> seconds \<Rightarrow> seconds \<Rightarrow> outbox_record \<Rightarrow> outbox_table \<Rightarrow> (outbox_error + bool) \<times> outbox_table"
where
  "postgres_enqueue handle here now r tbl =
     (let delay = available_in_seconds here r
      in case handle of
           PoolHandle \<Rightarrow> (Inl OutboxHandleError, tbl)
         | AsyncpgHandle in_transaction \<Rightarrow>
             if in_transaction then sql_enqueue now delay r tbl else (Inl OutboxTransactionError, tbl)
         | SqlAlchemyHandle in_transaction \<Rightarrow>
             if in_transaction then sql_enqueue now delay r tbl else (Inl OutboxTransactionError, tbl)
         | OtherHandle \<Rightarrow> (Inl OutboxHandleError, tbl))"

text \<open>The record built from the returned columns has neither the deduplication key nor a time.\<close>

definition returned_record :: "outbox_row \<Rightarrow> outbox_record" where
  "returned_record row = (ow_record row)\<lparr>or_dedup := None, or_attempts := ow_attempts row, or_available := None\<rparr>"

definition outbox_sql_claim :: "nat list \<Rightarrow> seconds \<Rightarrow> string list \<Rightarrow> nat \<Rightarrow> seconds \<Rightarrow> outbox_table \<Rightarrow> outbox_row list \<times> outbox_table" where
  "outbox_sql_claim locked now topics n lease tbl =
     (let chosen = map fst (due_rows now topics n (filter (\<lambda>row. fst row \<notin> set locked) tbl))
      in (map (\<lambda>(i, row). claimed_row now lease row) (filter (\<lambda>(i, row). i \<in> set chosen) tbl),
          map (\<lambda>(i, row). (i, if i \<in> set chosen then claimed_row now lease row else row)) tbl))"

definition postgres_claim ::
  "nat list \<Rightarrow> seconds \<Rightarrow> string list \<Rightarrow> nat \<Rightarrow> seconds \<Rightarrow> outbox_table \<Rightarrow> outbox_record list \<times> outbox_table"
where
  "postgres_claim locked now topics n lease tbl =
     (if topics = [] then ([], tbl)
      else let (rows, tbl') = outbox_sql_claim locked now topics n lease tbl in (map returned_record rows, tbl'))"

definition sql_update :: "(outbox_row \<Rightarrow> bool) \<Rightarrow> (outbox_row \<Rightarrow> outbox_row) \<Rightarrow> outbox_table \<Rightarrow> outbox_table" where
  "sql_update P f tbl = map (\<lambda>(i, row). (i, if P row then f row else row)) tbl"

definition sql_delete :: "(outbox_row \<Rightarrow> bool) \<Rightarrow> outbox_table \<Rightarrow> outbox_table" where
  "sql_delete P tbl = filter (\<lambda>(i, row). \<not> P row) tbl"

text \<open>\<open>WHERE id = $1 AND attempts = $2\<close>.\<close>

definition fence_matches :: "nat \<Rightarrow> nat \<Rightarrow> outbox_row \<Rightarrow> bool" where
  "fence_matches i attempts row \<longleftrightarrow> or_id (ow_record row) = i \<and> ow_attempts row = attempts"

definition postgres_complete :: "seconds \<Rightarrow> nat \<Rightarrow> nat \<Rightarrow> bool \<Rightarrow> outbox_table \<Rightarrow> outbox_table" where
  "postgres_complete now i attempts keep tbl =
     (if keep then sql_update (fence_matches i attempts) (delivered_row now) tbl
      else sql_delete (fence_matches i attempts) tbl)"

definition postgres_reschedule :: "seconds \<Rightarrow> nat \<Rightarrow> nat \<Rightarrow> seconds \<Rightarrow> string \<Rightarrow> bool \<Rightarrow> outbox_table \<Rightarrow> outbox_table" where
  "postgres_reschedule now i attempts delay error dead tbl =
     (if dead then sql_update (fence_matches i attempts) (\<lambda>row. row\<lparr>ow_state := Dead, ow_error := Some error\<rparr>) tbl
      else sql_update (fence_matches i attempts)
             (\<lambda>row. row\<lparr>ow_state := Pending, ow_available := now + delay, ow_error := Some error\<rparr>) tbl)"

text \<open>The status line of a command ends with the number of its rows, as in \<open>UPDATE 3\<close>.\<close>

definition rows_affected :: "string \<Rightarrow> nat" where
  "rows_affected status =
     (let parts = filter (\<lambda>w. w \<noteq> []) (split_on CHR '' '' status)
      in if parts \<noteq> [] then (case read_nat (List.last parts) of Some n \<Rightarrow> n | None \<Rightarrow> 0) else 0)"

definition postgres_redrive :: "seconds \<Rightarrow> string option \<Rightarrow> outbox_table \<Rightarrow> nat \<times> outbox_table" where
  "postgres_redrive now topic tbl =
     (rows_affected (''UPDATE '' @ show_nat (length (filter (\<lambda>(i, row). redriven topic row) tbl))),
      sql_update (redriven topic) (redriven_row now) tbl)"

definition postgres_purge :: "seconds \<Rightarrow> seconds option \<Rightarrow> row_state list \<Rightarrow> outbox_table \<Rightarrow> nat \<times> outbox_table" where
  "postgres_purge now before states tbl =
     (rows_affected (''DELETE '' @ show_nat (length (filter (\<lambda>(i, row). doomed now before states row) tbl))),
      sql_delete (doomed now before states) tbl)"

text \<open>
  The adapter as a backend: \<open>here\<close> gives the application's clock and \<open>locked\<close> the rows that other
  transactions hold, by the time of the statement. The handle is a connection in a transaction.
\<close>

definition PostgresOutboxAdapter :: "(seconds \<Rightarrow> seconds) \<Rightarrow> (seconds \<Rightarrow> nat list) \<Rightarrow> outbox_table outbox_backend" where
  "PostgresOutboxAdapter here locked =
     \<lparr>ob_enqueue = (\<lambda>now r tbl. case postgres_enqueue (AsyncpgHandle True) (here now) now r tbl of
                       (Inr staged, tbl') \<Rightarrow> (staged, tbl') | (Inl e, tbl') \<Rightarrow> (False, tbl')),
      ob_claim = (\<lambda>now. postgres_claim (locked now) now), ob_complete = postgres_complete,
      ob_reschedule = postgres_reschedule, ob_redrive = postgres_redrive, ob_purge = postgres_purge\<rparr>"

section \<open>The contract holds\<close>

definition outbox_table_inv :: "outbox_table \<Rightarrow> bool" where
  "outbox_table_inv tbl \<longleftrightarrow> dwf tbl \<and> (\<forall>i row. dget tbl i = Some row \<longrightarrow> or_id (ow_record row) = i)"

lemma dget_map_rows: "dget (map (\<lambda>(i, row). (i, f i row)) d) j = map_option (f j) (dget d j)"
  by (induction d) auto

lemma map_rows_inv:
  assumes "outbox_table_inv tbl" "\<And>i row. ow_record (f i row) = ow_record row"
  shows "outbox_table_inv (map (\<lambda>(i, row). (i, f i row)) tbl)"
proof -
  have "map fst (map (\<lambda>(i, row). (i, f i row)) tbl) = map fst tbl" by auto
  then show ?thesis using assms by (auto simp: outbox_table_inv_def dwf_def dget_map_rows simp del: map_map)
qed

lemma sql_update_view: "dget (sql_update P f tbl) i = map_option (\<lambda>row. if P row then f row else row) (dget tbl i)"
  unfolding sql_update_def by (rule dget_map_rows)

lemma sql_update_inv: "outbox_table_inv tbl \<Longrightarrow> (\<And>row. ow_record (f row) = ow_record row) \<Longrightarrow> outbox_table_inv (sql_update P f tbl)"
  unfolding sql_update_def by (rule map_rows_inv) auto

lemma sql_delete_view:
  assumes "outbox_table_inv tbl"
  shows "dget (sql_delete P tbl) i = (case dget tbl i of None \<Rightarrow> None | Some row \<Rightarrow> if P row then None else Some row)"
proof -
  have wf: "dwf tbl" "dwf (sql_delete P tbl)" using assms by (auto simp: outbox_table_inv_def dwf_def sql_delete_def distinct_map_filter)
  have "(i, row) \<in> set (sql_delete P tbl) \<longleftrightarrow> (i, row) \<in> set tbl \<and> \<not> P row" for row by (simp add: sql_delete_def)
  then have row: "dget (sql_delete P tbl) i = Some row \<longleftrightarrow> dget tbl i = Some row \<and> \<not> P row" for row
    by (simp only: dget_iff [OF wf(1)] dget_iff [OF wf(2)])
  show ?thesis
  proof (cases "dget (sql_delete P tbl) i")
    case None
    then have "dget tbl i = Some r \<Longrightarrow> P r" for r using row [of r] by auto
    then show ?thesis using None by (simp split: option.split)
  next
    case (Some r)
    then show ?thesis using row [of r] by simp
  qed
qed

lemma sql_delete_inv:
  assumes "outbox_table_inv tbl"
  shows "outbox_table_inv (sql_delete P tbl)"
proof -
  have "dwf (sql_delete P tbl)" using assms by (auto simp: outbox_table_inv_def dwf_def sql_delete_def distinct_map_filter)
  then show ?thesis using assms by (auto simp: outbox_table_inv_def sql_delete_view [OF assms] split: option.splits if_splits)
qed

lemma outbox_sql_claim_view:
  assumes i: "outbox_table_inv tbl" and c: "outbox_sql_claim locked now topics n lease tbl = (rows, tbl')"
  shows "outbox_table_inv tbl'"
    and "length rows \<le> n" "distinct (map (or_id \<circ> ow_record) rows)"
    and "w \<in> set rows \<Longrightarrow> \<exists>row. dget tbl (or_id (ow_record w)) = Some row \<and> due now topics row \<and> w = claimed_row now lease row"
    and "dget tbl' j = (if j \<in> (or_id \<circ> ow_record) ` set rows then map_option (claimed_row now lease) (dget tbl j) else dget tbl j)"
proof -
  let ?free = "filter (\<lambda>row. fst row \<notin> set locked) tbl"
  let ?ch = "due_rows now topics n ?free"
  let ?sel = "filter (\<lambda>(i, row). i \<in> set (map fst ?ch)) tbl"
  have wf: "dwf tbl" "dwf ?free" using i by (auto simp: outbox_table_inv_def dwf_def distinct_map_filter)
  note ch = due_rows_chosen [OF wf(2), where now = now and topics = topics and limit = n]
  have rows: "rows = map (\<lambda>(i, row). claimed_row now lease row) ?sel"
    and tbl': "tbl' = map (\<lambda>(i, row). (i, if i \<in> set (map fst ?ch) then claimed_row now lease row else row)) tbl"
    using c by (auto simp: outbox_sql_claim_def Let_def)
  show "outbox_table_inv tbl'" unfolding tbl' by (rule map_rows_inv [OF i]) simp
  have sel: "dget tbl k = Some row \<and> or_id (ow_record row) = k \<and> k \<in> set (map fst ?ch)" if "(k, row) \<in> set ?sel" for k row
    using that i wf(1) by (auto simp: outbox_table_inv_def dget_iff)
  have picked: "due now topics row" if "(k, row) \<in> set ?sel" for k row
  proof -
    from sel [OF that] obtain row' where r': "(k, row') \<in> set ?ch" by auto
    have "dget ?free k = Some row'" "due now topics row'" using ch(2) [OF r'] by auto
    then show ?thesis using sel [OF that] by (auto simp: dget_filter_fst [of "\<lambda>k. k \<notin> set locked"] split: if_splits)
  qed
  have ids: "map (or_id \<circ> ow_record) rows = map fst ?sel" unfolding rows using sel by (auto simp: o_def)
  have dsel: "distinct (map fst ?sel)" using wf(1) by (simp add: dwf_def distinct_map_filter)
  show "distinct (map (or_id \<circ> ow_record) rows)" unfolding ids by (rule dsel)
  have "length rows = card (set (map fst ?sel))" using distinct_card [OF dsel] by (simp add: rows)
  also have "\<dots> \<le> card (set (map fst ?ch))" by (rule card_mono) force+
  also have "\<dots> \<le> n" using card_length [of "map fst ?ch"] ch(3) by simp
  finally show "length rows \<le> n" .
  show "w \<in> set rows \<Longrightarrow> \<exists>row. dget tbl (or_id (ow_record w)) = Some row \<and> due now topics row \<and> w = claimed_row now lease row"
  proof -
    assume "w \<in> set rows"
    then obtain k row where k: "(k, row) \<in> set ?sel" "w = claimed_row now lease row" unfolding rows by auto
    from sel [OF k(1)] picked [OF k(1)] k(2) show ?thesis by auto
  qed
  have "j \<in> set (map fst ?sel) \<longleftrightarrow> j \<in> set (map fst ?ch) \<and> dget tbl j \<noteq> None"
  proof
    show "j \<in> set (map fst ?sel) \<Longrightarrow> j \<in> set (map fst ?ch) \<and> dget tbl j \<noteq> None" using sel by force
    assume "j \<in> set (map fst ?ch) \<and> dget tbl j \<noteq> None"
    then show "j \<in> set (map fst ?sel)" by (force dest: map_of_SomeD)
  qed
  then have "j \<in> (or_id \<circ> ow_record) ` set rows \<longleftrightarrow> j \<in> set (map fst ?ch) \<and> dget tbl j \<noteq> None"
    by (metis ids list.set_map)
  then show "dget tbl' j = (if j \<in> (or_id \<circ> ow_record) ` set rows then map_option (claimed_row now lease) (dget tbl j) else dget tbl j)"
    unfolding tbl' dget_map_rows by (cases "dget tbl j") auto
qed

lemma rows_affected_update: "rows_affected (''UPDATE '' @ show_nat n) = n" "rows_affected (''DELETE '' @ show_nat n) = n"
proof -
  have "CHR '' '' \<notin> set (show_nat n)" using show_nat_digits [of n] by (auto simp: list_all_iff is_digit_def)
  then have "split_on CHR '' '' (show_nat n) = [show_nat n]" by (rule split_on_free)
  then show "rows_affected (''UPDATE '' @ show_nat n) = n" "rows_affected (''DELETE '' @ show_nat n) = n"
    by (simp_all add: rows_affected_def)
qed

interpretation po: outbox_laws "PostgresOutboxAdapter here locked" outbox_table_inv dget for here locked
proof unfold_locales
  fix s :: outbox_table and r now ok s'
  assume i: "outbox_table_inv s" and fresh: "dget s (or_id r) = None" and e: "ob_enqueue (PostgresOutboxAdapter here locked) now r s = (ok, s')"
  have ex: "list_ex (\<lambda>(i, row). or_dedup (ow_record row) = or_dedup r) s \<longleftrightarrow> (\<exists>i row. dget s i = Some row \<and> or_dedup (ow_record row) = or_dedup r)"
    using i by (auto simp: list_ex_iff outbox_table_inv_def dget_iff [symmetric])
  let ?row = "\<lparr>ow_record = r\<lparr>or_attempts := 0, or_available := None\<rparr>, ow_state = Pending, ow_attempts = 0,
              ow_available = now + available_in_seconds (here now) r, ow_created = now, ow_error = None, ow_delivered = None\<rparr>"
  have st: "stores now r ?row" by (simp add: stores_def same_message_def)
  show "outbox_table_inv s' \<and> (ok \<longleftrightarrow> or_dedup r = None \<or> (\<forall>i row. dget s i = Some row \<longrightarrow> or_dedup (ow_record row) \<noteq> or_dedup r)) \<and>
      (if ok then \<exists>row. stores now r row \<and> dget s' = (dget s)(or_id r \<mapsto> row) else dget s' = dget s)"
    using e i ex fresh st by (auto simp: PostgresOutboxAdapter_def postgres_enqueue_def sql_enqueue_def outbox_table_inv_def pd.wf_put fun_eq_iff
        intro!: exI [of _ ?row] split: if_splits)
next
  fix s s' :: outbox_table and now topics n lease rs
  assume i: "outbox_table_inv s" and e: "ob_claim (PostgresOutboxAdapter here locked) now topics n lease s = (rs, s')"
  show "outbox_table_inv s' \<and> length rs \<le> n \<and> distinct (map or_id rs) \<and>
      (\<forall>r\<in>set rs. \<exists>row. dget s (or_id r) = Some row \<and> due now topics row \<and> hands_out row r) \<and>
      dget s' = (\<lambda>i. if i \<in> or_id ` set rs then map_option (claimed_row now lease) (dget s i) else dget s i)"
  proof (cases "topics = []")
    case True
    then show ?thesis using e i by (auto simp: PostgresOutboxAdapter_def postgres_claim_def)
  next
    case False
    then obtain rows where c: "outbox_sql_claim (locked now) now topics n lease s = (rows, s')" and rs: "rs = map returned_record rows"
      using e by (auto simp: PostgresOutboxAdapter_def postgres_claim_def split: prod.splits)
    have ids: "map or_id rs = map (or_id \<circ> ow_record) rows" by (simp add: rs returned_record_def o_def)
    have "\<exists>row. dget s (or_id r) = Some row \<and> due now topics row \<and> hands_out row r" if "r \<in> set rs" for r
    proof -
      from that obtain w where w: "w \<in> set rows" "r = returned_record w" by (auto simp: rs)
      from outbox_sql_claim_view(4) [OF i c w(1)] obtain row where "dget s (or_id (ow_record w)) = Some row" "due now topics row" "w = claimed_row now lease row" by blast
      then show ?thesis by (auto simp: w(2) returned_record_def hands_out_def same_message_def claimed_row_def)
    qed
    moreover have "or_id ` set rs = (or_id \<circ> ow_record) ` set rows" by (metis ids list.set_map)
    moreover have "distinct (map or_id rs)" unfolding ids by (rule outbox_sql_claim_view(3) [OF i c])
    moreover have "length rs \<le> n" using outbox_sql_claim_view(2) [OF i c] by (simp add: rs)
    ultimately show ?thesis using outbox_sql_claim_view(1,5) [OF i c] by auto
  qed
next
  fix s :: outbox_table and i row
  assume "outbox_table_inv s" "dget s i = Some row"
  then show "or_id (ow_record row) = i" by (simp add: outbox_table_inv_def)
next
  fix s :: outbox_table and now i a keep
  assume i: "outbox_table_inv s"
  then have "fence_matches i a row \<longleftrightarrow> j = i \<and> ow_attempts row = a" if "dget s j = Some row" for j row
    using that by (auto simp: outbox_table_inv_def fence_matches_def)
  then show "outbox_table_inv (ob_complete (PostgresOutboxAdapter here locked) now i a keep s) \<and>
      dget (ob_complete (PostgresOutboxAdapter here locked) now i a keep s) =
        fenced i a (\<lambda>row. if keep then Some (delivered_row now row) else None) (dget s)"
    by (auto simp: PostgresOutboxAdapter_def postgres_complete_def fenced_def fun_eq_iff sql_update_view sql_delete_view [OF i]
        sql_update_inv [OF i] sql_delete_inv [OF i] split: option.split)
next
  fix s :: outbox_table and now i a delay error dead
  assume i: "outbox_table_inv s"
  then have "fence_matches i a row \<longleftrightarrow> j = i \<and> ow_attempts row = a" if "dget s j = Some row" for j row
    using that by (auto simp: outbox_table_inv_def fence_matches_def)
  then show "outbox_table_inv (ob_reschedule (PostgresOutboxAdapter here locked) now i a delay error dead s) \<and>
      dget (ob_reschedule (PostgresOutboxAdapter here locked) now i a delay error dead s) =
        fenced i a (\<lambda>row. Some (rescheduled_row now delay error dead row)) (dget s)"
    by (auto simp: PostgresOutboxAdapter_def postgres_reschedule_def rescheduled_row_def fenced_def fun_eq_iff sql_update_view
        sql_update_inv [OF i] split: option.split)
next
  fix s s' :: outbox_table and now topic n
  assume i: "outbox_table_inv s" and "ob_redrive (PostgresOutboxAdapter here locked) now topic s = (n, s')"
  then have "s' = sql_update (redriven topic) (redriven_row now) s" by (simp add: PostgresOutboxAdapter_def postgres_redrive_def)
  then show "outbox_table_inv s' \<and> dget s' = (\<lambda>i. map_option (\<lambda>row. if redriven topic row then redriven_row now row else row) (dget s i))"
    by (simp add: sql_update_inv [OF i] sql_update_view fun_eq_iff)
next
  fix s s' :: outbox_table and now before states n
  assume i: "outbox_table_inv s" and "ob_purge (PostgresOutboxAdapter here locked) now before states s = (n, s')"
  then have "s' = sql_delete (doomed now before states) s" by (simp add: PostgresOutboxAdapter_def postgres_purge_def)
  then show "outbox_table_inv s' \<and>
      dget s' = (\<lambda>i. case dget s i of None \<Rightarrow> None | Some row \<Rightarrow> if doomed now before states row then None else Some row)"
    by (simp add: sql_delete_inv [OF i] sql_delete_view [OF i] fun_eq_iff)
qed
section \<open>Properties of the runs\<close>

abbreviation postgres_outbox_run ::
  "bool \<Rightarrow> (seconds \<Rightarrow> seconds) \<Rightarrow> (seconds \<Rightarrow> nat list) \<Rightarrow> outbox_config \<Rightarrow> outbox_table outbox_run \<Rightarrow> bool"
where
  "postgres_outbox_run with_redrive here locked cfg \<equiv>
     (outbox_step with_redrive (PostgresOutboxAdapter here locked) dget cfg)\<^sup>*\<^sup>* (outbox_run_init [])"

lemma outbox_table_inv_Nil [simp]: "outbox_table_inv []"
  by (simp add: outbox_table_inv_def)

text \<open>A message that is claimed, whose lease runs out and that is claimed again.\<close>

definition sample_message :: outbox_record where
  "sample_message = \<lparr>or_id = 7, or_topic = ''mail'', or_payload = ''{}'', or_key = None, or_headers = [], or_dedup = None, or_attempts = 0, or_available = None\<rparr>"

definition sample_config :: outbox_config where
  "sample_config = \<lparr>oc_batch_size = 10, oc_lease = 10, oc_max_attempts = 2, oc_retry_base = 1, oc_retry_max = 60, oc_retry_jitter = 0,
     oc_concurrency = 5, oc_dead_letter = True, oc_keep = False\<rparr>"

definition sample_row :: "row_state \<Rightarrow> nat \<Rightarrow> seconds \<Rightarrow> string option \<Rightarrow> outbox_row" where
  "sample_row st n t err = \<lparr>ow_record = sample_message, ow_state = st, ow_attempts = n, ow_available = t, ow_created = 0, ow_error = err, ow_delivered = None\<rparr>"

definition sample_run :: "outbox_row \<Rightarrow> seconds \<Rightarrow> (nat \<times> seconds) list \<Rightarrow> nat list \<Rightarrow> outbox_table outbox_run" where
  "sample_run row now flight handled =
     \<lparr>ox_store = [(7, row)], ox_now = now, ox_flight = map (\<lambda>(a, t). (sample_message\<lparr>or_attempts := a\<rparr>, t)) flight,
      ox_ran = map (Pair 7) handled, ox_staged = [7 \<mapsto> sample_message], ox_done = {}, ox_purged = {}\<rparr>"

abbreviation sample_step :: "bool \<Rightarrow> outbox_table outbox_run \<Rightarrow> outbox_table outbox_run \<Rightarrow> bool" where
  "sample_step rd \<equiv> outbox_step rd (PostgresOutboxAdapter id (\<lambda>_. [])) dget sample_config"

lemma sample_publish: "sample_step rd (outbox_run_init []) (sample_run (sample_row Pending 0 0 None) 0 [] [])"
proof -
  let ?B = "PostgresOutboxAdapter id (\<lambda>_. [])"
  have "ob_enqueue ?B 0 sample_message [] = (True, [(7, sample_row Pending 0 0 None)])"
    by (simp add: PostgresOutboxAdapter_def postgres_enqueue_def sql_enqueue_def available_in_seconds_def sample_message_def sample_row_def)
  then have e: "ob_enqueue ?B 0 sample_message (ox_store (outbox_run_init [])) = (True, [(7, sample_row Pending 0 0 None)])"
    by (simp add: outbox_run_init_def)
  have "ox_staged (outbox_run_init []) (or_id sample_message) = None" by (simp add: outbox_run_init_def)
  from outbox_step.publish [OF this e, of rd dget sample_config] show ?thesis by (simp add: outbox_run_init_def sample_run_def sample_message_def)
qed

lemma sample_claim:
  assumes "st \<in> {Pending, Processing}" "u \<le> t" "now \<le> t"
  shows "sample_step rd (sample_run (sample_row st n u err) now fl h) (sample_run (sample_row Processing (Suc n) (t + 10) err) t (fl @ [(Suc n, t)]) h)"
proof -
  let ?B = "PostgresOutboxAdapter id (\<lambda>_. [])"
  have "ob_claim ?B t [''mail''] (claim_limit sample_config 0) (oc_lease sample_config) (ox_store (sample_run (sample_row st n u err) now fl h)) =
      ([sample_message\<lparr>or_attempts := Suc n\<rparr>], [(7, sample_row Processing (Suc n) (t + 10) err)])"
    using assms by (simp add: PostgresOutboxAdapter_def postgres_claim_def outbox_sql_claim_def due_rows_def due_def claimed_row_def
        returned_record_def sample_run_def sample_row_def sample_message_def sample_config_def claim_limit_def)
  from outbox_step.claim [OF _ this, of rd dget] assms(3) show ?thesis by (simp add: sample_run_def)
qed

lemma sample_handle:
  assumes "(a, t0) \<in> set fl" "now \<le> t" "runs_handler sample_config (sample_message\<lparr>or_attempts := a\<rparr>)" "outcome \<noteq> Returned"
    "settle (PostgresOutboxAdapter id (\<lambda>_. [])) t (deliver sample_config rnd (sample_message\<lparr>or_attempts := a\<rparr>) outcome) [(7, row)] = [(7, row')]"
  shows "sample_step rd (sample_run row now fl h) (sample_run row' t (removeAll (a, t0) fl) (a # h))"
proof -
  let ?r = "sample_message\<lparr>or_attempts := a\<rparr>"
  have m: "map (\<lambda>(a, t). (sample_message\<lparr>or_attempts := a\<rparr>, t)) (removeAll (a, t0) fl) =
      removeAll (?r, t0) (map (\<lambda>(a, t). (sample_message\<lparr>or_attempts := a\<rparr>, t)) fl)"
    by (induction fl) (auto simp: sample_message_def)
  have id: "or_id ?r = 7" by (simp add: sample_message_def)
  have "(?r, t0) \<in> set (ox_flight (sample_run row now fl h))" using assms(1) by (force simp: sample_run_def)
  from outbox_step.handle [OF _ this, where t = t and with_redrive = rd and B = "PostgresOutboxAdapter id (\<lambda>_. [])" and view = dget
      and cfg = sample_config and settled = True and rnd = rnd and outcome = outcome] assms(2-5)
  show ?thesis by (simp add: sample_run_def m id)
qed

lemma sample_reaches:
  "postgres_outbox_run rd id (\<lambda>_. []) sample_config
     (sample_run (sample_row Processing 2 22 None) 12 [(1, 1), (2, 12)] [])"
proof -
  have "sample_step rd (sample_run (sample_row Pending 0 0 None) 0 [] []) (sample_run (sample_row Processing 1 11 None) 1 [(1, 1)] [])"
    using sample_claim [of Pending 0 1 0 rd 0 None "[]" "[]"] by simp
  moreover have "sample_step rd (sample_run (sample_row Processing 1 11 None) 1 [(1, 1)] []) (sample_run (sample_row Processing 2 22 None) 12 [(1, 1), (2, 12)] [])"
    using sample_claim [of Processing 11 12 1 rd 1 None "[(1, 1)]" "[]"] by (simp add: numeral_2_eq_2)
  ultimately show ?thesis using sample_publish [of rd] by (meson converse_rtranclp_into_rtranclp rtranclp.rtrancl_refl)
qed

text \<open>
  C23. No staged message is lost, whatever the relays, crashes, failed settles, redrives and purges of the
  janitor do: until a handler has returned for it, or it was deleted by a purge when dead, it is in the table with its
  contents, and not marked delivered.
\<close>

theorem outbox_no_message_lost:
  assumes "postgres_outbox_run with_redrive here locked cfg x" "ox_staged x i = Some r" "i \<notin> ox_done x" "i \<notin> ox_purged x"
  shows "\<exists>row. dget (ox_store x) i = Some row \<and> ow_state row \<noteq> Delivered \<and> same_message r (ow_record row)"
  using po.no_loss [OF assms(1) _ _ assms(2-4)] by simp

theorem outbox_no_message_lost_witness:
  "\<exists>row. dget (ox_store (sample_run (sample_row Processing 2 22 None) 12 [(1, 1), (2, 12)] [])) 7 = Some row \<and>
     ow_state row \<noteq> Delivered \<and> same_message sample_message (ow_record row)"
  using outbox_no_message_lost [OF sample_reaches [of True], of 7 sample_message] by (simp add: sample_run_def)

text \<open>
  C24. With dead letters on, a message that is not redriven has its handler started at most
  \<open>max_attempts\<close> times, also when the process dies in the handler every time.
\<close>

theorem outbox_runs_bounded:
  assumes "postgres_outbox_run False here locked cfg x" "oc_dead_letter cfg"
  shows "length (filter (\<lambda>(j, a). j = i) (ox_ran x)) \<le> oc_max_attempts cfg"
  using po.runs_bound [OF assms(1) _ _ assms(2)] by simp

text \<open>
  C40. Two claims of one message are a lease apart: without redrives, a relay is handed a message that
  another one is still handling only once the lease of the other has run out.
\<close>

theorem outbox_lease_exclusive:
  assumes "postgres_outbox_run False here locked cfg x"
    and "(r1, t1) \<in> set (ox_flight x)" "(r2, t2) \<in> set (ox_flight x)" "(r1, t1) \<noteq> (r2, t2)" "or_id r1 = or_id r2"
  shows "t1 + oc_lease cfg \<le> t2 \<or> t2 + oc_lease cfg \<le> t1"
  using po.exclusive [OF assms(1) _ _ assms(2-5)] by simp

theorem outbox_lease_exclusive_witness:
  "(1::real) + oc_lease sample_config \<le> 12 \<or> (12::real) + oc_lease sample_config \<le> 1"
  by (rule outbox_lease_exclusive [OF sample_reaches, of "sample_message\<lparr>or_attempts := 1\<rparr>" 1 "sample_message\<lparr>or_attempts := 2\<rparr>" 12])
    (simp_all add: sample_run_def)

text \<open>
  Whatever a relay does with a claim that another claim has superseded leaves the table as it is
  (without redrives): the late write of a slow relay does not reach the claim of the other.
\<close>

theorem outbox_stale_settle_ignored:
  assumes "postgres_outbox_run False here locked cfg x"
    and "(r1, t1) \<in> set (ox_flight x)" "(r2, t2) \<in> set (ox_flight x)" "or_id r1 = or_id r2" "or_attempts r1 < or_attempts r2"
  shows "dget (settle (PostgresOutboxAdapter here locked) t (deliver cfg rnd r1 outcome) (ox_store x)) = dget (ox_store x)"
  using po.stale_settle [OF assms(1) _ _ assms(2-5)] by simp

theorem outbox_stale_settle_ignored_witness:
  "dget (settle (PostgresOutboxAdapter id (\<lambda>_. [])) 13 (deliver sample_config 0 (sample_message\<lparr>or_attempts := 1\<rparr>) (HandlerRaised ''late''))
      (ox_store (sample_run (sample_row Processing 2 22 None) 12 [(1, 1), (2, 12)] []))) 7 = Some (sample_row Processing 2 22 None)"
proof -
  have "dget (settle (PostgresOutboxAdapter id (\<lambda>_. [])) 13 (deliver sample_config 0 (sample_message\<lparr>or_attempts := 1\<rparr>) (HandlerRaised ''late''))
      (ox_store (sample_run (sample_row Processing 2 22 None) 12 [(1, 1), (2, 12)] []))) =
    dget (ox_store (sample_run (sample_row Processing 2 22 None) 12 [(1, 1), (2, 12)] []))"
    by (rule outbox_stale_settle_ignored [OF sample_reaches, of "sample_message\<lparr>or_attempts := 1\<rparr>" 1 "sample_message\<lparr>or_attempts := 2\<rparr>" 12])
      (simp_all add: sample_run_def)
  then show ?thesis by (simp add: sample_run_def)
qed

lemma sample_failed: "sample_step rd (sample_run (sample_row Processing 2 22 None) 12 [(1, 1), (2, 12)] []) (sample_run (sample_row Dead 2 22 (Some ''boom'')) 13 [(1, 1)] [2])"
  using sample_handle [of 2 12 "[(1, 1), (2, 12)]" 12 13 "HandlerRaised ''boom''" 0 "sample_row Processing 2 22 None" "sample_row Dead 2 22 (Some ''boom'')" rd "[]"]
  by (simp add: runs_handler_def deliver_def settle_retry_def settle_dead_def PostgresOutboxAdapter_def postgres_reschedule_def sql_update_def fence_matches_def
      sample_row_def sample_message_def sample_config_def)

theorem outbox_runs_bounded_witness:
  "length (filter (\<lambda>(j, a). j = 7) (ox_ran (sample_run (sample_row Dead 2 22 (Some ''boom'')) 13 [(1, 1)] [2]))) \<le> oc_max_attempts sample_config"
proof -
  have "postgres_outbox_run False id (\<lambda>_. []) sample_config (sample_run (sample_row Dead 2 22 (Some ''boom'')) 13 [(1, 1)] [2])"
    using sample_reaches [of False] sample_failed [of False] by (rule rtranclp.rtrancl_into_rtrancl)
  then show ?thesis by (rule outbox_runs_bounded) (simp only: sample_config_def outbox_config.simps)
qed

text \<open>
  C25. A redrive sets the attempts back to 0 and so gives the numbers of old claims out again: a
  relay that was slow before the redrive then passes the fence, its late retry makes the message
  available, and a third relay is handed it while the second one's lease runs.
\<close>

theorem outbox_redrive_defeats_fence:
  "\<exists>x r1 t1 r2 t2. postgres_outbox_run True id (\<lambda>_. []) sample_config x \<and>
     (r1, t1) \<in> set (ox_flight x) \<and> (r2, t2) \<in> set (ox_flight x) \<and> or_id r1 = or_id r2 \<and> t1 < t2 \<and> t2 < t1 + oc_lease sample_config"
proof -
  let ?x = "sample_run (sample_row Processing 2 27 (Some ''retry requested'')) 17 [(1, 15), (2, 17)] [1, 2]"
  have "redriven None (sample_row Dead 2 22 (Some ''boom''))" by (simp add: redriven_def sample_row_def)
  moreover have "redriven_row 14 (sample_row Dead 2 22 (Some ''boom'')) = sample_row Pending 0 14 None" by (simp add: redriven_row_def sample_row_def)
  ultimately have "ob_redrive (PostgresOutboxAdapter id (\<lambda>_. [])) 14 None (ox_store (sample_run (sample_row Dead 2 22 (Some ''boom'')) 13 [(1, 1)] [2])) =
      (1, [(7, sample_row Pending 0 14 None)])"
    using rows_affected_update [of 1] by (simp add: PostgresOutboxAdapter_def postgres_redrive_def sql_update_def sample_run_def)
  from outbox_step.redrive [OF _ _ this, of True dget sample_config]
  have 1: "sample_step True (sample_run (sample_row Dead 2 22 (Some ''boom'')) 13 [(1, 1)] [2]) (sample_run (sample_row Pending 0 14 None) 14 [(1, 1)] [2])"
    by (simp add: sample_run_def)
  have 2: "sample_step True (sample_run (sample_row Pending 0 14 None) 14 [(1, 1)] [2]) (sample_run (sample_row Processing 1 25 None) 15 [(1, 1), (1, 15)] [2])"
    using sample_claim [of Pending 14 15 14 True 0 None "[(1, 1)]" "[2]"] by simp
  have 3: "sample_step True (sample_run (sample_row Processing 1 25 None) 15 [(1, 1), (1, 15)] [2])
      (sample_run (sample_row Pending 1 16 (Some ''retry requested'')) 16 [(1, 15)] [1, 2])"
    using sample_handle [of 1 1 "[(1, 1), (1, 15)]" 15 16 "RetrySignal (Some 0)" 0 "sample_row Processing 1 25 None" "sample_row Pending 1 16 (Some ''retry requested'')" True "[2]"]
    by (simp add: runs_handler_def deliver_def settle_retry_def settle_dead_def PostgresOutboxAdapter_def postgres_reschedule_def sql_update_def fence_matches_def
        sample_row_def sample_message_def sample_config_def)
  have 4: "sample_step True (sample_run (sample_row Pending 1 16 (Some ''retry requested'')) 16 [(1, 15)] [1, 2]) ?x"
    using sample_claim [of Pending 16 17 16 True 1 "Some ''retry requested''" "[(1, 15)]" "[1, 2]"] by (simp add: numeral_2_eq_2)
  have "postgres_outbox_run True id (\<lambda>_. []) sample_config ?x"
    using sample_reaches [of True] sample_failed [of True] 1 2 3 4 by (meson rtranclp.rtrancl_into_rtrancl)
  moreover have "(sample_message\<lparr>or_attempts := 1\<rparr>, 15) \<in> set (ox_flight ?x)" "(sample_message\<lparr>or_attempts := 2\<rparr>, 17) \<in> set (ox_flight ?x)"
    by (simp_all add: sample_run_def)
  moreover have "oc_lease sample_config = 10" "or_id (sample_message\<lparr>or_attempts := 1\<rparr>) = or_id (sample_message\<lparr>or_attempts := 2\<rparr>)"
    by (simp_all add: sample_config_def)
  ultimately show ?thesis by (intro exI [of _ ?x] exI [of _ "sample_message\<lparr>or_attempts := 1\<rparr>"] exI [of _ 15]
      exI [of _ "sample_message\<lparr>or_attempts := 2\<rparr>"] exI [of _ 17]) simp
qed

text \<open>A relay never has more handlers running than \<open>concurrency\<close> allows.\<close>

theorem relay_within_concurrency:
  assumes "(relay_slots cfg)\<^sup>*\<^sup>* 0 n"
  shows "n \<le> oc_concurrency cfg"
  using assms
proof induction
  case (step n m)
  from step(2) show ?case
  proof cases
    case (dispatch topics claim rs)
    then have "length rs \<le> claim_limit cfg n \<and> 0 < oc_concurrency cfg - n" by (fastforce simp: relay_turn_def split: if_splits option.splits list.splits)
    then show ?thesis using dispatch(1) by (auto simp: claim_limit_def)
  next
    case slot_freed
    then show ?thesis using step(3) by simp
  qed
qed simp

theorem relay_within_concurrency_witness:
  "Suc 0 \<le> oc_concurrency sample_config"
proof (rule relay_within_concurrency)
  have "relay_slots sample_config 0 (0 + length [sample_message])"
    by (rule relay_slots.dispatch [of _ "[''mail'']" _ "\<lambda>l. if l = 0 then None else Some [sample_message]"])
      (auto simp: relay_turn_def sample_config_def claim_limit_def split: if_splits)
  then show "(relay_slots sample_config)\<^sup>*\<^sup>* 0 (Suc 0)" by simp
qed

end
