(* ===== verification/Idempotency.thy ===== *)
theory Idempotency
  imports Cache_Client Sql_Cache Sql_Lock Text
begin

text \<open>
  Idempotency keys (\<open>idempotency/_idempotency.py\<close>, \<open>_decorator.py\<close>): a response is stored in the cache under the
  caller's key, a later call with the key replays it, and callers that arrive in the meantime wait. The
  first part has the storage (\<open>_replay\<close>, \<open>_persist\<close>) over any store of the cache contract, the second part the
  block (\<open>_Block\<close>) as a state machine per caller: any number of callers in any number of processes, with the lock
  of each process, the distributed lock with its lease and the store, in every interleaving of the steps between two
  suspensions. The locale \<open>idem_world\<close> joins the contracts of the cache and of the lock.
\<close>

section \<open>Storage\<close>

record idempotency =
  ip_name :: string
  ip_ttl :: seconds
  ip_fingerprint :: "string option"

text \<open>\<open>IdempotencyConfig\<close>: \<open>PositiveFloat\<close>.\<close>

definition idempotency_ok :: "idempotency \<Rightarrow> bool" where
  "idempotency_ok ip \<longleftrightarrow> 0 < ip_ttl ip"

definition scoped :: "idempotency \<Rightarrow> key \<Rightarrow> key" where
  "scoped ip k = ''idempotency:'' @ ip_name ip @ '':'' @ k"

definition fingerprint_key :: "idempotency \<Rightarrow> key \<Rightarrow> key" where
  "fingerprint_key ip k = ''cache:'' @ scoped ip k @ [CHR 0x1F, CHR ''f'', CHR ''p'']"

text \<open>The fingerprint of a call: its own, else the one of the instance.\<close>

definition call_fingerprint :: "idempotency \<Rightarrow> string option \<Rightarrow> string option" where
  "call_fingerprint ip fp = (case fp of None \<Rightarrow> ip_fingerprint ip | Some f \<Rightarrow> Some f)"

datatype idem_error = IdempotencyConflictError | IdempotencyWaitTimeoutError | IdempotencyStateError | LockNotOwned | StoreRaised py_exc | BodyRaised

definition idem_replay ::
  "'s cache_backend \<Rightarrow> ttl_config \<Rightarrow> 'v serializer option \<Rightarrow> idempotency \<Rightarrow> seconds \<Rightarrow> seconds \<Rightarrow> key \<Rightarrow> string option \<Rightarrow> 's ttl_cache \<Rightarrow>
   (idem_error + 'v pyval option) \<times> 's ttl_cache"
where
  "idem_replay B cfg S ip t1 t2 k fp c =
     (case ttl_get B cfg S t1 (scoped ip k) c of
        (Inl e, c1) \<Rightarrow> (Inl (StoreRaised e), c1)
      | (Inr None, c1) \<Rightarrow> (Inr None, c1)
      | (Inr (Some v), c1) \<Rightarrow>
          (case fp of
             None \<Rightarrow> (Inr (Some v), c1)
           | Some f \<Rightarrow>
               (case cb_get B t2 (fingerprint_key ip k) (tc_store c1) of (saved, s) \<Rightarrow>
                  (if saved \<noteq> None \<and> saved \<noteq> Some f then Inl IdempotencyConflictError else Inr (Some v), c1\<lparr>tc_store := s\<rparr>))))"

text \<open>\<open>_persist\<close>, in its two writes.\<close>

definition persist_guard :: "'s cache_backend \<Rightarrow> idempotency \<Rightarrow> seconds \<Rightarrow> key \<Rightarrow> string option \<Rightarrow> 's ttl_cache \<Rightarrow> 's ttl_cache" where
  "persist_guard B ip t k fp c =
     (case fp of
        None \<Rightarrow> c
      | Some f \<Rightarrow> c\<lparr>tc_store := cb_set B t (fingerprint_key ip k) f (ip_ttl ip + 1) [] (tc_store c)\<rparr>)"

definition idem_persist ::
  "'s cache_backend \<Rightarrow> ttl_config \<Rightarrow> 'v serializer option \<Rightarrow> idempotency \<Rightarrow> seconds \<Rightarrow> seconds \<Rightarrow> key \<Rightarrow> 'v pyval \<Rightarrow> string option \<Rightarrow> 's ttl_cache \<Rightarrow>
   (py_exc + unit) \<times> 's ttl_cache"
where
  "idem_persist B cfg S ip t1 t2 k v fp c =
     ttl_set B cfg S t2 t2 (scoped ip k) v (Some (ip_ttl ip)) [] None (persist_guard B ip t1 k fp c)"

text \<open>\<open>run\<close> by a caller with nobody else about: \<open>made\<close> is what the factory returns, \<open>None\<close> if it raises.\<close>

definition idem_run ::
  "'s cache_backend \<Rightarrow> ttl_config \<Rightarrow> 'v serializer option \<Rightarrow> idempotency \<Rightarrow> seconds \<Rightarrow> seconds \<Rightarrow> seconds \<Rightarrow> key \<Rightarrow> string option \<Rightarrow> 'v pyval option \<Rightarrow>
   's ttl_cache \<Rightarrow> (idem_error + 'v pyval) \<times> bool \<times> 's ttl_cache"
where
  "idem_run B cfg S ip t1 t2 t3 k fp0 made c =
     (let fp = call_fingerprint ip fp0
      in case idem_replay B cfg S ip t1 t1 k fp c of
           (Inl e, c1) \<Rightarrow> (Inl e, False, c1)
         | (Inr (Some v), c1) \<Rightarrow> (Inr v, False, c1)
         | (Inr None, c1) \<Rightarrow>
             (case idem_replay B cfg S ip t1 t1 k fp c1 of
                (Inl e, c2) \<Rightarrow> (Inl e, False, c2)
              | (Inr (Some v), c2) \<Rightarrow> (Inr v, False, c2)
              | (Inr None, c2) \<Rightarrow>
                  (case made of
                     None \<Rightarrow> (Inl BodyRaised, True, c2)
                   | Some v \<Rightarrow>
                       (case idem_persist B cfg S ip t2 t3 k v fp c2 of
                          (Inl e, c3) \<Rightarrow> (Inl (StoreRaised e), True, c3)
                        | (Inr _, c3) \<Rightarrow> (Inr v, True, c3)))))"

text \<open>\<open>Operation\<close>: whether it replays, the response to replay, what \<open>store\<close> recorded.\<close>

record 'v operation =
  op_replayed :: bool
  op_response :: "'v option"
  op_stored :: "'v option"

definition operation_result :: "'v operation \<Rightarrow> idem_error + 'v option" where
  "operation_result op = (if op_replayed op then Inr (op_response op) else Inl IdempotencyStateError)"

definition operation_store :: "'v \<Rightarrow> 'v operation \<Rightarrow> 'v operation" where
  "operation_store v op = (if op_replayed op then op else op\<lparr>op_stored := Some v\<rparr>)"

section \<open>Callers\<close>

text \<open>
  Where a caller is: before the call; waiting for the lock of its process; holding it, about to look
  again; waiting for the distributed lock; holding both, about to look again; in the body; between the writes
  of the fingerprint and of the response; about to release; done.
\<close>

datatype 'v phase = Absent | WaitLocal | HasLocal | WaitDist | HasDist | Executing | Persisting "'v pyval" | Releasing "idem_error + 'v pyval"
  | Ended "idem_error + 'v pyval"

fun local_phase :: "'v phase \<Rightarrow> bool" where
  "local_phase HasLocal = True" | "local_phase WaitDist = True" | "local_phase HasDist = True" | "local_phase Executing = True"
| "local_phase (Persisting v) = True" | "local_phase (Releasing r) = True" | "local_phase _ = False"

fun dist_phase :: "'v phase \<Rightarrow> bool" where
  "dist_phase HasDist = True" | "dist_phase Executing = True" | "dist_phase (Persisting v) = True" | "dist_phase (Releasing r) = True"
| "dist_phase _ = False"

fun working :: "'v phase \<Rightarrow> bool" where
  "working Executing = True" | "working (Persisting v) = True" | "working _ = False"

text \<open>
  The call: the instance, the key, the cache and the lock that all callers share. A caller has a process, a token
  and a fingerprint; \<open>ic_lock_name\<close> stands for the name hashed from the scoped key, \<open>ic_lease\<close> is the lease duration of a lock
  made without configuration.
\<close>

record ('s, 'l, 'v) idem_call =
  ic_ip :: idempotency
  ic_key :: key
  ic_cfg :: ttl_config
  ic_ser :: "'v serializer option"
  ic_cache :: "'s cache_backend"
  ic_locks :: "'l lock_backend"
  ic_distributed :: bool
  ic_lock_name :: key
  ic_lease :: seconds
  ic_process :: "nat \<Rightarrow> nat"
  ic_token :: "nat \<Rightarrow> token"
  ic_print :: "nat \<Rightarrow> string option"

record ('s, 'l, 'v) idem_state =
  is_now :: seconds
  is_store :: 's
  is_books :: "nat \<Rightarrow> 's ttl_cache"
  is_locks :: 'l
  is_local :: "nat \<Rightarrow> nat option"
  is_phase :: "nat \<Rightarrow> 'v phase"
  is_stored :: "seconds option"

text \<open>The cache object of a process over the shared store, and the state after a call on it.\<close>

definition cache_of :: "('s, 'l, 'v) idem_call \<Rightarrow> nat \<Rightarrow> ('s, 'l, 'v) idem_state \<Rightarrow> 's ttl_cache" where
  "cache_of ic i x = (is_books x (ic_process ic i))\<lparr>tc_store := is_store x\<rparr>"

definition put_cache :: "('s, 'l, 'v) idem_call \<Rightarrow> nat \<Rightarrow> 's ttl_cache \<Rightarrow> ('s, 'l, 'v) idem_state \<Rightarrow> ('s, 'l, 'v) idem_state" where
  "put_cache ic i c x = x\<lparr>is_store := tc_store c, is_books := (is_books x)(ic_process ic i := c)\<rparr>"

definition go :: "nat \<Rightarrow> 'v phase \<Rightarrow> ('s, 'l, 'v) idem_state \<Rightarrow> ('s, 'l, 'v) idem_state" where
  "go i p x = x\<lparr>is_phase := (is_phase x)(i := p)\<rparr>"

text \<open>\<open>_replay\<close> by caller \<open>i\<close>: on a miss it goes to \<open>miss\<close>, with an answer or an error to \<open>hit\<close> of it.\<close>

definition look ::
  "('s, 'l, 'v) idem_call \<Rightarrow> nat \<Rightarrow> 'v phase \<Rightarrow> (idem_error + 'v pyval \<Rightarrow> 'v phase) \<Rightarrow> ('s, 'l, 'v) idem_state \<Rightarrow> ('s, 'l, 'v) idem_state"
where
  "look ic i miss hit x =
     (case idem_replay (ic_cache ic) (ic_cfg ic) (ic_ser ic) (ic_ip ic) (is_now x) (is_now x) (ic_key ic) (ic_print ic i) (cache_of ic i x) of
        (Inl e, c) \<Rightarrow> go i (hit (Inl e)) (put_cache ic i c x)
      | (Inr (Some v), c) \<Rightarrow> go i (hit (Inr v)) (put_cache ic i c x)
      | (Inr None, c) \<Rightarrow> go i miss (put_cache ic i c x))"

definition free_local :: "('s, 'l, 'v) idem_call \<Rightarrow> nat \<Rightarrow> ('s, 'l, 'v) idem_state \<Rightarrow> ('s, 'l, 'v) idem_state" where
  "free_local ic i x = x\<lparr>is_local := (is_local x)(ic_process ic i := None)\<rparr>"

text \<open>\<open>_release\<close>: the distributed lock if it is held, then the lock of the process; a lease that is gone raises.\<close>

definition release_locks :: "('s, 'l, 'v) idem_call \<Rightarrow> nat \<Rightarrow> idem_error + 'v pyval \<Rightarrow> ('s, 'l, 'v) idem_state \<Rightarrow> ('s, 'l, 'v) idem_state" where
  "release_locks ic i r x =
     (if ic_distributed ic then
        (case lb_release (ic_locks ic) (is_now x) (is_now x) (ic_lock_name ic) (ic_token ic i) (is_locks x) of
           (Inr True, l) \<Rightarrow> go i (Ended r) (free_local ic i (x\<lparr>is_locks := l\<rparr>))
         | (_, l) \<Rightarrow> go i (Ended (Inl LockNotOwned)) (free_local ic i (x\<lparr>is_locks := l\<rparr>)))
      else go i (Ended r) (free_local ic i x))"

inductive idem_step :: "bool \<Rightarrow> ('s, 'l, 'v) idem_call \<Rightarrow> ('s, 'l, 'v) idem_state \<Rightarrow> ('s, 'l, 'v) idem_state \<Rightarrow> bool"
  for prompt ic
where
  tick: "is_now x \<le> t \<Longrightarrow>
    (prompt \<Longrightarrow> ic_distributed ic \<Longrightarrow> \<forall>i. dist_phase (is_phase x i) \<longrightarrow> lb_owned (ic_locks ic) t (ic_lock_name ic) (ic_token ic i) (is_locks x) = Inr True) \<Longrightarrow>
    idem_step prompt ic x (x\<lparr>is_now := t\<rparr>)"
| arrive: "is_phase x i = Absent \<Longrightarrow> idem_step prompt ic x (look ic i WaitLocal Ended x)"
| lock_local: "is_phase x i = WaitLocal \<Longrightarrow> is_local x (ic_process ic i) = None \<Longrightarrow>
    idem_step prompt ic x (go i HasLocal (x\<lparr>is_local := (is_local x)(ic_process ic i \<mapsto> i)\<rparr>))"
| look_again: "is_phase x i = HasLocal \<Longrightarrow> y = look ic i (if ic_distributed ic then WaitDist else Executing) Ended x \<Longrightarrow>
    idem_step prompt ic x (if local_phase (is_phase y i) then y else free_local ic i y)"
| lock_dist: "is_phase x i = WaitDist \<Longrightarrow>
    lb_acquire (ic_locks ic) (is_now x) (is_now x) (ic_lock_name ic) (ic_token ic i) (ic_lease ic) (is_locks x) = (Inr (Some f), l) \<Longrightarrow>
    idem_step prompt ic x (go i HasDist (x\<lparr>is_locks := l\<rparr>))"
| lock_denied: "is_phase x i = WaitDist \<Longrightarrow>
    lb_acquire (ic_locks ic) (is_now x) (is_now x) (ic_lock_name ic) (ic_token ic i) (ic_lease ic) (is_locks x) = (Inr None, l) \<Longrightarrow>
    idem_step prompt ic x (x\<lparr>is_locks := l\<rparr>)"
| look_dist: "is_phase x i = HasDist \<Longrightarrow> idem_step prompt ic x (look ic i Executing Releasing x)"
| returns: "is_phase x i = Executing \<Longrightarrow>
    idem_step prompt ic x (go i (Persisting v) (put_cache ic i (persist_guard (ic_cache ic) (ic_ip ic) (is_now x) (ic_key ic) (ic_print ic i) (cache_of ic i x)) x))"
| persists: "is_phase x i = Persisting v \<Longrightarrow>
    ttl_set (ic_cache ic) (ic_cfg ic) (ic_ser ic) (is_now x) (is_now x) (scoped (ic_ip ic) (ic_key ic)) v (Some (ip_ttl (ic_ip ic))) [] None (cache_of ic i x) = (r, c) \<Longrightarrow>
    idem_step prompt ic x
      (case r of Inr _ \<Rightarrow> go i (Releasing (Inr v)) (put_cache ic i c (x\<lparr>is_stored := Some (is_now x)\<rparr>))
       | Inl e \<Rightarrow> go i (Releasing (Inl (StoreRaised e))) (put_cache ic i c x))"
| raises: "is_phase x i = Executing \<Longrightarrow> idem_step prompt ic x (go i (Releasing (Inl BodyRaised)) x)"
| releases: "is_phase x i = Releasing r \<Longrightarrow> idem_step prompt ic x (release_locks ic i r x)"
| gives_up: "is_phase x i = WaitLocal \<Longrightarrow> idem_step prompt ic x (go i (Ended (Inl IdempotencyWaitTimeoutError)) x)"
| gives_up_local: "is_phase x i = HasLocal \<or> is_phase x i = WaitDist \<Longrightarrow>
    idem_step prompt ic x (go i (Ended (Inl IdempotencyWaitTimeoutError)) (free_local ic i x))"
| gives_up_dist: "is_phase x i = HasDist \<Longrightarrow> idem_step prompt ic x (go i (Releasing (Inl IdempotencyWaitTimeoutError)) x)"
| crash: "idem_step prompt ic x
    (x\<lparr>is_phase := (\<lambda>i. if ic_process ic i = p then Ended (Inl BodyRaised) else is_phase x i), is_local := (is_local x)(p := None)\<rparr>)"

inductive_cases idem_step_elim: "idem_step prompt ic x x'"

definition idem_init :: "'s \<Rightarrow> 'l \<Rightarrow> ('s, 'l, 'v) idem_state" where
  "idem_init s l = \<lparr>is_now = 0, is_store = s, is_books = (\<lambda>_. ttl_cache_init s), is_locks = l, is_local = (\<lambda>_. None), is_phase = (\<lambda>_. Absent), is_stored = None\<rparr>"

section \<open>Invariants\<close>

lemma go_simps [simp]:
  "is_now (go i p x) = is_now x" "is_store (go i p x) = is_store x" "is_locks (go i p x) = is_locks x" "is_local (go i p x) = is_local x"
  "is_stored (go i p x) = is_stored x" "is_phase (go i p x) = (is_phase x)(i := p)" "is_books (go i p x) = is_books x"
  by (simp_all add: go_def)

lemma put_cache_simps [simp]:
  "is_now (put_cache ic i c x) = is_now x" "is_store (put_cache ic i c x) = tc_store c" "is_locks (put_cache ic i c x) = is_locks x"
  "is_local (put_cache ic i c x) = is_local x" "is_stored (put_cache ic i c x) = is_stored x" "is_phase (put_cache ic i c x) = is_phase x"
  by (simp_all add: put_cache_def)

lemma free_local_simps [simp]:
  "is_now (free_local ic i x) = is_now x" "is_store (free_local ic i x) = is_store x" "is_locks (free_local ic i x) = is_locks x"
  "is_local (free_local ic i x) = (is_local x)(ic_process ic i := None)" "is_stored (free_local ic i x) = is_stored x"
  "is_phase (free_local ic i x) = is_phase x"
  by (simp_all add: free_local_def)

lemma dist_local: "dist_phase p \<Longrightarrow> local_phase p"
  by (cases p) auto

lemma working_dist: "working p \<Longrightarrow> dist_phase p"
  by (cases p) auto

text \<open>The lock of a process is held by exactly the caller in it.\<close>

definition local_ok :: "('s, 'l, 'v) idem_call \<Rightarrow> ('s, 'l, 'v) idem_state \<Rightarrow> bool" where
  "local_ok ic x \<longleftrightarrow> (\<forall>i p. is_local x p = Some i \<longleftrightarrow> local_phase (is_phase x i) \<and> ic_process ic i = p)"

text \<open>What a look and a release change besides the store and the locks.\<close>

lemma look_fields:
  "\<exists>p. is_phase (look ic i miss hit x) = (is_phase x)(i := p) \<and> (p = miss \<or> (\<exists>r. p = hit r))"
  "is_now (look ic i miss hit x) = is_now x" "is_locks (look ic i miss hit x) = is_locks x" "is_local (look ic i miss hit x) = is_local x"
  "is_stored (look ic i miss hit x) = is_stored x"
  by (auto simp: look_def split: prod.split sum.split option.split)

lemma release_fields:
  "\<exists>r'. is_phase (release_locks ic i r x) = (is_phase x)(i := Ended r')"
  "is_now (release_locks ic i r x) = is_now x" "is_store (release_locks ic i r x) = is_store x"
  "is_local (release_locks ic i r x) = (is_local x)(ic_process ic i := None)" "is_stored (release_locks ic i r x) = is_stored x"
  by (auto simp: release_locks_def split: prod.split sum.split bool.split)

text \<open>A caller that stays in, goes in with the lock free, or goes out.\<close>

lemma local_ok_move:
  assumes "local_ok ic x" "is_phase x' = (is_phase x)(i := p)"
    and "if local_phase p then local_phase (is_phase x i) \<and> is_local x' = is_local x \<or> is_local x (ic_process ic i) = None \<and> is_local x' = (is_local x)(ic_process ic i \<mapsto> i)
         else is_local x' = (is_local x)(ic_process ic i := None) \<and> local_phase (is_phase x i) \<or> is_local x' = is_local x \<and> \<not> local_phase (is_phase x i)"
  shows "local_ok ic x'"
proof -
  have l: "is_local x q = Some j \<longleftrightarrow> local_phase (is_phase x j) \<and> ic_process ic j = q" for j q using assms(1) by (simp add: local_ok_def)
  show ?thesis unfolding local_ok_def
  proof (intro allI)
    fix j q
    show "is_local x' q = Some j \<longleftrightarrow> local_phase (is_phase x' j) \<and> ic_process ic j = q"
      using assms(2,3) l [of q j] l [of "ic_process ic i" i] l [of "ic_process ic i" j] by (auto split: if_splits)
  qed
qed

lemma local_ok_step:
  assumes "idem_step prompt ic x x'" "local_ok ic x"
  shows "local_ok ic x'"
  using assms(1)
proof cases
  case (look_again i y)
  obtain p where p: "is_phase y = (is_phase x)(i := p)" "p = (if ic_distributed ic then WaitDist else Executing) \<or> (\<exists>r. p = Ended r)"
    using look_fields(1) look_again(3) by blast
  show ?thesis by (rule local_ok_move [OF assms(2), of _ i p]) (use p look_again in \<open>auto simp: look_fields(2-5) split: if_splits\<close>)
next
  case (arrive i)
  obtain p where p: "is_phase x' = (is_phase x)(i := p)" "p = WaitLocal \<or> (\<exists>r. p = Ended r)" using look_fields(1) arrive(1) by metis
  show ?thesis by (rule local_ok_move [OF assms(2) p(1)]) (use p(2) arrive in \<open>auto simp: look_fields(2-5)\<close>)
next
  case (look_dist i)
  obtain p where p: "is_phase x' = (is_phase x)(i := p)" "p = Executing \<or> (\<exists>r. p = Releasing r)" using look_fields(1) look_dist(1) by metis
  show ?thesis by (rule local_ok_move [OF assms(2) p(1)]) (use p(2) look_dist in \<open>auto simp: look_fields(2-5)\<close>)
next
  case (releases i r)
  obtain r' where "is_phase x' = (is_phase x)(i := Ended r')" using release_fields(1) releases(1) by metis
  then show ?thesis by (rule local_ok_move [OF assms(2)]) (use releases in \<open>auto simp: release_fields(2-5)\<close>)
next
  case (persists i v r c)
  show ?thesis by (rule local_ok_move [OF assms(2), of _ i "Releasing (case r of Inr _ \<Rightarrow> Inr v | Inl e \<Rightarrow> Inl (StoreRaised e))"])
      (use persists in \<open>auto split: sum.split\<close>)
next
  case (crash p)
  then show ?thesis using assms(2) by (auto simp: local_ok_def)
next
  case (lock_local i)
  then show ?thesis by (intro local_ok_move [OF assms(2), of x' i HasLocal]) simp_all
next
  case (lock_dist i f l)
  then show ?thesis by (intro local_ok_move [OF assms(2), of x' i HasDist]) simp_all
next
  case (returns i v)
  then show ?thesis by (intro local_ok_move [OF assms(2), of x' i "Persisting v"]) simp_all
next
  case (raises i)
  then show ?thesis by (intro local_ok_move [OF assms(2), of x' i "Releasing (Inl BodyRaised)"]) simp_all
next
  case (gives_up i)
  then show ?thesis by (intro local_ok_move [OF assms(2), of x' i "Ended (Inl IdempotencyWaitTimeoutError)"]) simp_all
next
  case (gives_up_local i)
  then show ?thesis by (intro local_ok_move [OF assms(2), of x' i "Ended (Inl IdempotencyWaitTimeoutError)"]) auto
next
  case (gives_up_dist i)
  then show ?thesis by (intro local_ok_move [OF assms(2), of x' i "Releasing (Inl IdempotencyWaitTimeoutError)"]) simp_all
qed (use assms(2) in \<open>simp_all add: local_ok_def\<close>)

section \<open>Single flight\<close>

definition response_key :: "('s, 'l, 'v) idem_call \<Rightarrow> key" where
  "response_key ic = value_key (scoped (ic_ip ic) (ic_key ic))"

text \<open>The two contracts together. A call uses their backends, with a lock name and a lease that they serve and an unbounded cache.\<close>

locale idem_world =
  cache: cache_laws CB cinv cview + locks: lock_backend_laws LB holder fence linv lease name_ok served
  for CB :: "'s cache_backend" and cinv :: "'s \<Rightarrow> bool" and cview :: "'s \<Rightarrow> cache_spec"
    and LB :: "'l lock_backend" and holder :: "'l \<Rightarrow> seconds \<Rightarrow> key \<Rightarrow> token option" and fence :: "'l \<Rightarrow> key \<Rightarrow> int"
    and linv :: "'l \<Rightarrow> bool" and lease :: "seconds \<Rightarrow> seconds \<Rightarrow> seconds \<Rightarrow> seconds \<Rightarrow> bool" and name_ok :: "key \<Rightarrow> bool" and served :: "seconds \<Rightarrow> bool"
begin

definition ic_ok :: "('s, 'l, 'v) idem_call \<Rightarrow> bool" where
  "ic_ok ic \<longleftrightarrow> ic_cache ic = CB \<and> ic_locks ic = LB \<and> name_ok (ic_lock_name ic) \<and> served (ic_lease ic) \<and> inj (ic_token ic) \<and>
     cfg_maxsize (ic_cfg ic) = 0 \<and> 0 < ip_ttl (ic_ip ic) \<and> (\<forall>t. lease t t (ic_lease ic) t)"

lemma ic_okD:
  assumes "ic_ok ic"
  shows "ic_cache ic = CB" "ic_locks ic = LB" "name_ok (ic_lock_name ic)" "served (ic_lease ic)" "inj (ic_token ic)"
    "cfg_maxsize (ic_cfg ic) = 0" "0 < ip_ttl (ic_ip ic)" "lease t t (ic_lease ic) t"
  using assms by (simp_all add: ic_ok_def)

text \<open>The store has the response exactly for the lifetime of the last one persisted.\<close>

definition store_ok :: "('s, 'l, 'v) idem_call \<Rightarrow> ('s, 'l, 'v) idem_state \<Rightarrow> bool" where
  "store_ok ic x \<longleftrightarrow> cinv (is_store x) \<and>
     (\<forall>t \<ge> is_now x. value_at t (cview (is_store x)) (response_key ic) \<noteq> None \<longleftrightarrow> (\<exists>t0. is_stored x = Some t0 \<and> t < t0 + ip_ttl (ic_ip ic)))"

definition dist_ok :: "('s, 'l, 'v) idem_call \<Rightarrow> bool \<Rightarrow> ('s, 'l, 'v) idem_state \<Rightarrow> bool" where
  "dist_ok ic prompt x \<longleftrightarrow> linv (is_locks x) \<and>
     (prompt \<longrightarrow> ic_distributed ic \<longrightarrow> (\<forall>i. dist_phase (is_phase x i) \<longrightarrow> holder (is_locks x) (is_now x) (ic_lock_name ic) = Some (ic_token ic i)))"

lemma replay_effect:
  fixes k fp c t1 t2
  assumes "cinv (tc_store c)"
  shows "fst (idem_replay CB cfg S ip t t k fp c) = Inr None \<Longrightarrow> value_at t (cview (tc_store c)) (value_key (scoped ip k)) = None"
    and "cinv (tc_store (snd (idem_replay CB cfg S ip t t k fp c)))"
    and "alive t (cview (tc_store (snd (idem_replay CB cfg S ip t t k fp c)))) = alive t (cview (tc_store c))"
proof -
  let ?g = "ttl_get CB cfg S t (scoped ip k) c"
  note g = cache.get_effect [OF assms, of cfg S t "scoped ip k"]
  note k1 = cache.get_keeps [OF assms, of t "value_key (scoped ip k)"]
  have st: "cinv (tc_store (snd ?g))" "alive t (cview (tc_store (snd ?g))) = alive t (cview (tc_store c))" using k1 g(2) by simp_all
  note k2 = cache.get_keeps [OF st(1), of t "fingerprint_key ip k"]
  show "fst (idem_replay CB cfg S ip t t k fp c) = Inr None \<Longrightarrow> value_at t (cview (tc_store c)) (value_key (scoped ip k)) = None"
    using g(1) by (auto simp: idem_replay_def split: prod.splits sum.splits option.splits if_splits) (auto simp: map_sum_def split: sum.splits)
  show "cinv (tc_store (snd (idem_replay CB cfg S ip t t k fp c)))"
    using st k2 by (auto simp: idem_replay_def split: prod.splits sum.splits option.splits)
  show "alive t (cview (tc_store (snd (idem_replay CB cfg S ip t t k fp c)))) = alive t (cview (tc_store c))"
    using st k2 by (auto simp: idem_replay_def split: prod.splits sum.splits option.splits)
qed

lemma look_store:
  assumes "cinv (is_store x)" and ok: "ic_ok ic"
  shows "cinv (is_store (look ic i miss hit x))"
    and "alive (is_now x) (cview (is_store (look ic i miss hit x))) = alive (is_now x) (cview (is_store x))"
    and "(\<And>r. hit r \<noteq> miss) \<Longrightarrow> is_phase (look ic i miss hit x) i = miss \<Longrightarrow> value_at (is_now x) (cview (is_store x)) (response_key ic) = None"
proof -
  note backends = ic_okD(1,2) [OF ok] and call_ok = ic_okD(3-7) [OF ok] and lease_starts = ic_okD(8) [OF ok]
  have c: "tc_store (cache_of ic i x) = is_store x" by (simp add: cache_of_def)
  note r = replay_effect [of "cache_of ic i x", unfolded c, OF assms(1), where cfg = "ic_cfg ic" and S = "ic_ser ic" and ip = "ic_ip ic" and t = "is_now x" and k = "ic_key ic" and fp = "ic_print ic i"]
  show "cinv (is_store (look ic i miss hit x))" "alive (is_now x) (cview (is_store (look ic i miss hit x))) = alive (is_now x) (cview (is_store x))"
    using r(2,3) by (auto simp: look_def backends split: prod.splits sum.splits option.splits)
  show "(\<And>r. hit r \<noteq> miss) \<Longrightarrow> is_phase (look ic i miss hit x) i = miss \<Longrightarrow> value_at (is_now x) (cview (is_store x)) (response_key ic) = None"
    using r(1) by (auto simp: look_def backends response_key_def split: prod.splits sum.splits option.splits)
qed

lemma store_ok_same:
  assumes "store_ok ic x" "cinv (is_store x')" "alive (is_now x) (cview (is_store x')) = alive (is_now x) (cview (is_store x))"
    "is_now x \<le> is_now x'" "is_stored x' = is_stored x"
  shows "store_ok ic x'"
proof -
  have "value_at t (cview (is_store x')) (response_key ic) = value_at t (cview (is_store x)) (response_key ic)" if "is_now x' \<le> t" for t
    using cache.value_later [OF assms(3)] assms(4) that by simp
  then show ?thesis using assms(1,2,4,5) by (auto simp: store_ok_def)
qed

lemma store_ok_step:
  assumes "idem_step prompt ic x x'" "store_ok ic x" and ok: "ic_ok ic"
  shows "store_ok ic x'"
proof -
  note backends = ic_okD(1,2) [OF ok] and call_ok = ic_okD(3-7) [OF ok] and lease_starts = ic_okD(8) [OF ok]
  have i: "cinv (is_store x)" using assms(2) by (simp add: store_ok_def)
  have c: "tc_store (cache_of ic i x) = is_store x" for i by (simp add: cache_of_def)
  show ?thesis using assms(1)
  proof cases
    case (arrive i)
    show ?thesis by (rule store_ok_same [OF assms(2)]) (use look_store [OF i ok] arrive(1) in \<open>simp_all add: look_fields(2-5)\<close>)
  next
    case (look_again i y)
    show ?thesis by (rule store_ok_same [OF assms(2)]) (use look_store [OF i ok] look_again in \<open>auto simp add: look_fields(2-5) split: if_splits\<close>)
  next
    case (look_dist i)
    show ?thesis by (rule store_ok_same [OF assms(2)]) (use look_store [OF i ok] look_dist(1) in \<open>simp_all add: look_fields(2-5)\<close>)
  next
    case (returns i v)
    have "fingerprint_key (ic_ip ic) (ic_key ic) \<noteq> (response_key ic)" by (simp add: fingerprint_key_def response_key_def value_key_def)
    then show ?thesis using assms(2) i unfolding returns(1)
      by (cases "ic_print ic i") (auto simp: store_ok_def persist_guard_def c backends cache.set_law value_at_def)
  next
    case (persists i v r u)
    show ?thesis
    proof (cases r)
      case (Inl e)
      have "u = cache_of ic i x" using cache.set_error persists(3) Inl backends by metis
      then show ?thesis using assms(2) by (simp add: persists(1) Inl store_ok_def c)
    next
      case (Inr z)
      then have "ttl_set CB (ic_cfg ic) (ic_ser ic) (is_now x) (is_now x) (scoped (ic_ip ic) (ic_key ic)) v (Some (ip_ttl (ic_ip ic))) [] None
          (cache_of ic i x) = (Inr (), u)" using persists(3) backends by simp
      from cache.set_view [OF _ this] i c obtain raw where "cinv (tc_store u)"
        "cview (tc_store u) (response_key ic) = Some (raw, is_now x + entry_ttl (ic_cfg ic) (Some (ip_ttl (ic_ip ic))), set [])"
        unfolding response_key_def by fastforce
      then show ?thesis by (auto simp: persists(1) Inr store_ok_def value_at_def entry_ttl_def)
    qed
  next
    case (releases i r)
    then show ?thesis using assms(2) by (simp add: store_ok_def release_fields(2-5))
  qed (use assms(2) in \<open>auto simp: store_ok_def\<close>)
qed

text \<open>A caller that enters the distributed part, or leaves it.\<close>

lemma dist_ok_step:
  assumes "idem_step prompt ic x x'" "dist_ok ic prompt x" and ok: "ic_ok ic"
  shows "dist_ok ic prompt x'"
proof -
  note backends = ic_okD(1,2) [OF ok] and call_ok = ic_okD(3-7) [OF ok] and lease_starts = ic_okD(8) [OF ok]
  have l: "linv (is_locks x)" using assms(2) by (simp add: dist_ok_def)
  have h: "holder (is_locks x) (is_now x) (ic_lock_name ic) = Some (ic_token ic j)" if "prompt" "ic_distributed ic" "dist_phase (is_phase x j)" for j
    using assms(2) that by (simp add: dist_ok_def)
  have moved: "dist_ok ic prompt x'" if "is_locks x' = is_locks x" "is_now x' = is_now x"
    "\<And>j. dist_phase (is_phase x' j) \<Longrightarrow> ic_distributed ic \<Longrightarrow> dist_phase (is_phase x j)"
    using that l h by (simp add: dist_ok_def)
  show ?thesis using assms(1)
  proof cases
    case (tick t)
    then show ?thesis using l locks.owned_iff [OF l call_ok(1)] by (simp add: dist_ok_def backends)
  next
    case (arrive i)
    then show ?thesis using look_fields(1) [of ic i WaitLocal Ended x] by (intro moved) (auto simp: look_fields(2-5) split: if_splits)
  next
    case (look_again i y)
    then show ?thesis using look_fields(1) [of ic i "if ic_distributed ic then WaitDist else Executing" Ended x]
      by (intro moved) (auto simp: look_fields(2-5) split: if_splits)
  next
    case (look_dist i)
    then show ?thesis using look_fields(1) [of ic i Executing Releasing x] by (intro moved) (auto simp: look_fields(2-5) split: if_splits)
  next
    case (lock_dist i f u)
    have acq: "lb_acquire LB (is_now x) (is_now x) (ic_lock_name ic) (ic_token ic i) (ic_lease ic) (is_locks x) = (Inr (Some f), u)"
      using lock_dist(3) by (simp add: backends)
    have li: "linv u" using locks.inv_acquire [OF l call_ok(1,2) acq] .
    have got: "holder u (is_now x) (ic_lock_name ic) = Some (ic_token ic i)" and
      was: "holder (is_locks x) (is_now x) (ic_lock_name ic) = None \<or> holder (is_locks x) (is_now x) (ic_lock_name ic) = Some (ic_token ic i)"
      by (cases rule: locks.acquire_cases [OF l order_refl call_ok(1,2) acq]; use lease_starts in simp)+
    have "\<not> dist_phase (is_phase x j)" if "prompt" "ic_distributed ic" "j \<noteq> i" for j
      using h [OF that(1,2), of j] was that(3) call_ok(3) by (auto dest: injD)
    then show ?thesis using li got by (auto simp: dist_ok_def lock_dist(1))
  next
    case (lock_denied i u)
    have acq: "lb_acquire LB (is_now x) (is_now x) (ic_lock_name ic) (ic_token ic i) (ic_lease ic) (is_locks x) = (Inr None, u)"
      using lock_denied(3) by (simp add: backends)
    have "u = is_locks x" using locks.acquire_cases [OF l order_refl call_ok(1,2) acq] by auto
    then show ?thesis using assms(2) lock_denied(1) by (simp add: dist_ok_def)
  next
    case (persists i v r u)
    then show ?thesis by (intro moved) (auto split: sum.splits if_splits)
  next
    case (releases i r)
    obtain r' where ph: "is_phase x' = (is_phase x)(i := Ended r')" using release_fields(1) releases(1) by metis
    obtain q u where rel: "lb_release LB (is_now x) (is_now x) (ic_lock_name ic) (ic_token ic i) (is_locks x) = (q, u)" by fastforce
    have lk: "is_locks x' = (if ic_distributed ic then u else is_locks x)"
      using rel by (auto simp: releases(1) release_locks_def backends split: sum.split bool.split)
    have li: "linv u" using locks.inv_release [OF l call_ok(1) rel] .
    have "\<not> dist_phase (is_phase x j)" if "prompt" "ic_distributed ic" "j \<noteq> i" for j
      using h [OF that(1,2), of i] h [OF that(1,2), of j] releases(2) that(3) call_ok(3) by (auto dest: injD)
    then show ?thesis using l li lk ph by (auto simp: dist_ok_def releases(1) release_fields(2-5) split: if_splits)
  next
    case (crash p)
    then show ?thesis using l h by (auto simp: dist_ok_def split: if_splits)
  qed ((rule moved; auto split: if_splits)+)
qed

lemma reach_ok:
  assumes "(idem_step prompt ic)\<^sup>*\<^sup>* (idem_init s l) x" "cinv s" "cview s = (\<lambda>_. None)" "linv l" and ok: "ic_ok ic"
  shows "local_ok ic x \<and> store_ok ic x \<and> dist_ok ic prompt x"
  using assms(1)
proof induction
  case base
  show ?case using assms(2-4) by (simp add: local_ok_def store_ok_def dist_ok_def idem_init_def value_at_def)
next
  case (step y z)
  then show ?case using local_ok_step store_ok_step dist_ok_step ok by blast
qed

lemma one_works:
  assumes "local_ok ic x" "dist_ok ic prompt x" "working (is_phase x i)" "working (is_phase x j)"
    and "prompt \<and> ic_distributed ic \<or> ic_process ic i = ic_process ic j" and ok: "ic_ok ic"
  shows "i = j"
proof (cases "ic_process ic i = ic_process ic j")
  case True
  have "is_local x (ic_process ic i) = Some i" "is_local x (ic_process ic j) = Some j"
    using assms(1) dist_local [OF working_dist [OF assms(3)]] dist_local [OF working_dist [OF assms(4)]] unfolding local_ok_def by blast+
  then show ?thesis by (metis True option.inject)
next
  case False
  then have "prompt" "ic_distributed ic" using assms(5) by auto
  then have "Some (ic_token ic i) = Some (ic_token ic j)"
    using assms(2) working_dist [OF assms(3)] working_dist [OF assms(4)] unfolding dist_ok_def by metis
  then show ?thesis using ic_okD(5) [OF ok] by (simp add: inj_eq)
qed

lemma starts:
  assumes "idem_step prompt ic x x'" "store_ok ic x" "\<not> working (is_phase x i)" "working (is_phase x' i)" "is_stored x = Some t0" and ok: "ic_ok ic"
  shows "t0 + ip_ttl (ic_ip ic) \<le> is_now x"
proof -
  note backends = ic_okD(1,2) [OF ok] and call_ok = ic_okD(3-7) [OF ok] and lease_starts = ic_okD(8) [OF ok]
  have "value_at (is_now x) (cview (is_store x)) (response_key ic) = None"
    using assms(1)
  proof cases
    case (look_again j y)
    have c: "cinv (is_store x)" using assms(2) by (simp add: store_ok_def)
    obtain p where p: "is_phase y = (is_phase x)(j := p)" "p = (if ic_distributed ic then WaitDist else Executing) \<or> (\<exists>r. p = Ended r)"
      using look_fields(1) look_again(3) by blast
    then have "j = i \<and> p = Executing" using assms(3,4) look_again(1) by (auto split: if_splits)
    then show ?thesis using look_store(3) [OF c ok, of Ended "if ic_distributed ic then WaitDist else Executing" j] p look_again(3) by (auto split: if_splits)
  next
    case (look_dist j)
    have c: "cinv (is_store x)" using assms(2) by (simp add: store_ok_def)
    obtain p where p: "is_phase x' = (is_phase x)(j := p)" "p = Executing \<or> (\<exists>r. p = Releasing r)" using look_fields(1) look_dist(1) by metis
    then have "j = i \<and> p = Executing" using assms(3,4) by (auto split: if_splits)
    then show ?thesis using look_store(3) [OF c ok, of Releasing Executing j] p look_dist(1) by auto
  next
    case (arrive j)
    then show ?thesis using look_fields(1) [of ic j WaitLocal Ended x] assms(3,4) by (auto split: if_splits)
  next
    case (releases j r)
    then show ?thesis using release_fields(1) [of ic j r x] assms(3,4) by (auto split: if_splits)
  qed (use assms(3,4) in \<open>auto split: if_splits sum.splits\<close>)
  then show ?thesis using assms(2,5) unfolding store_ok_def by (metis linorder_not_less order_refl)
qed

end

interpretation mw: idem_world MemoryCacheAdapter cache_inv cache_abs MemoryLockAdapter lock_holder lock_fence memory_lock_inv
  "\<lambda>t1 t2 d t. t \<le> t2 + d" "\<lambda>n. True" "\<lambda>d. True"
  by unfold_locales

interpretation pw: idem_world "PostgresCacheAdapter p" cache_tables_inv "cache_view p" "sql_lock_adapter (\<lambda>t. t) (\<lambda>t d. t + d)"
  "sql_holder (\<lambda>t. t)" sql_fence sql_lock_inv "\<lambda>t1 t2 d t. t \<le> t1 + d" "\<lambda>n. True" "\<lambda>d. True" for p
  by unfold_locales

text \<open>
  C26. Single flight across replicas, on Postgres: as long as no execution outlives the lease of its lock, a body starts
  only when no other caller of the key, in any process, is executing or storing, and only when no response was stored
  within the last \<open>ttl\<close> seconds; whatever the arrivals, waits, timeouts, failures and crashes.
\<close>

theorem idempotency_single_flight:
  assumes ic: "ic_cache ic = PostgresCacheAdapter p" "ic_locks ic = PostgresLockAdapter" "ic_distributed ic" "inj (ic_token ic)"
      "cfg_maxsize (ic_cfg ic) = 0" "idempotency_ok (ic_ip ic)" "0 \<le> ic_lease ic"
    and run: "(idem_step True ic)\<^sup>*\<^sup>* (idem_init cache_tables_init []) x" "idem_step True ic x x'"
    and starts: "\<not> working (is_phase x i)" "working (is_phase x' i)"
  shows "(\<forall>j. working (is_phase x' j) \<longrightarrow> j = i) \<and> (\<forall>t0. is_stored x = Some t0 \<longrightarrow> t0 + ip_ttl (ic_ip ic) \<le> is_now x)"
proof -
  have ok: "pw.ic_ok p ic" using ic by (simp add: pw.ic_ok_def PostgresLockAdapter_def idempotency_ok_def)
  have init: "cache_tables_inv cache_tables_init" "cache_view p cache_tables_init = (\<lambda>_. None)" "sql_lock_inv []"
    using cache_tables_init_inv sql_lock_inv_Nil by auto
  have y: "(idem_step True ic)\<^sup>*\<^sup>* (idem_init cache_tables_init []) x'" using run by (rule rtranclp.rtrancl_into_rtrancl)
  show ?thesis
    using pw.reach_ok [OF run(1) init ok] pw.reach_ok [OF y init ok] pw.one_works [OF _ _ _ starts(2) _ ok] pw.starts [OF run(2) _ starts _ ok] ic(3)
    by blast
qed

section \<open>A call on Postgres\<close>

definition charge :: "(cache_tables, lock_table, unit) idem_call" where
  "charge = \<lparr>ic_ip = \<lparr>ip_name = ''pay'', ip_ttl = 3600, ip_fingerprint = None\<rparr>, ic_key = ''k'', ic_cfg = \<lparr>cfg_maxsize = 0, cfg_ttl = 3600\<rparr>,
     ic_ser = None, ic_cache = PostgresCacheAdapter [], ic_locks = PostgresLockAdapter, ic_distributed = True, ic_lock_name = ''n'', ic_lease = 60,
     ic_process = (\<lambda>i. i), ic_token = show_nat, ic_print = (\<lambda>i. None)\<rparr>"

lemma charge_sel [simp]:
  "ic_ip charge = \<lparr>ip_name = ''pay'', ip_ttl = 3600, ip_fingerprint = None\<rparr>" "ic_cfg charge = \<lparr>cfg_maxsize = 0, cfg_ttl = 3600\<rparr>"
  "ic_ser charge = None" "ic_cache charge = PostgresCacheAdapter []" "ic_locks charge = PostgresLockAdapter" "ic_distributed charge"
  "ic_lock_name charge = ''n''" "ic_lease charge = 60" "ic_process charge i = i" "ic_token charge = show_nat" "ic_print charge i = None" "ic_key charge = ''k''"
  by (simp_all add: charge_def)

lemma charge_look:
  assumes "is_store x = cache_tables_init"
  shows "is_phase (look charge i m h x) = (is_phase x)(i := m)" "is_store (look charge i m h x) = cache_tables_init"
  using assms by (simp_all add: look_def idem_replay_def ttl_get_def cache_of_def put_cache_def PostgresCacheAdapter_def sql_cache_get_def cache_tables_init_def
      promote_if_def)

text \<open>Caller \<open>i\<close>, alone with a free lock, from its arrival to the body.\<close>

lemma charge_enters:
  assumes x: "is_store x = cache_tables_init" "is_phase x i = Absent" "is_local x i = None"
    and l: "lb_acquire PostgresLockAdapter (is_now x) (is_now x) ''n'' (show_nat i) 60 (is_locks x) = (Inr (Some f), l)"
  shows "\<exists>y y'. (idem_step prompt charge)\<^sup>*\<^sup>* x y \<and> idem_step prompt charge y y' \<and> is_phase y i = HasDist \<and>
    is_now y = is_now x \<and> is_stored y = is_stored x \<and> is_phase y' = (is_phase x)(i := Executing) \<and>
    is_store y' = cache_tables_init \<and> is_now y' = is_now x \<and> is_locks y' = l \<and> is_local y' = (is_local x)(i \<mapsto> i) \<and> is_stored y' = is_stored x"
proof -
  let ?s = "idem_step prompt charge"
  define x1 where "x1 = look charge i WaitLocal Ended x"
  define x2 where "x2 = go i HasLocal (x1\<lparr>is_local := (is_local x1)(i \<mapsto> i)\<rparr>)"
  define x3 where "x3 = look charge i WaitDist Ended x2"
  define x4 where "x4 = go i HasDist (x3\<lparr>is_locks := l\<rparr>)"
  define x5 where "x5 = look charge i Executing Releasing x4"
  note f1 = charge_look [OF x(1), of i WaitLocal Ended, folded x1_def] look_fields(2-5) [of charge i WaitLocal Ended x, folded x1_def]
  have s2: "is_store x2 = cache_tables_init" by (simp add: x2_def f1)
  note f3 = charge_look [OF s2, of i WaitDist Ended, folded x3_def] look_fields(2-5) [of charge i WaitDist Ended x2, folded x3_def]
  have s4: "is_store x4 = cache_tables_init" by (simp add: x4_def f3)
  note f5 = charge_look [OF s4, of i Executing Releasing, folded x5_def] look_fields(2-5) [of charge i Executing Releasing x4, folded x5_def]
  have 1: "?s x x1" unfolding x1_def by (rule idem_step.arrive [OF x(2)])
  have 2: "?s x1 x2" unfolding x2_def using idem_step.lock_local [of x1 i charge prompt] f1 x(3) by simp
  have 3: "?s x2 x3" using idem_step.look_again [of x2 i x3 charge prompt] f3 by (simp add: x2_def x3_def)
  have 4: "?s x3 x4" unfolding x4_def by (rule idem_step.lock_dist [where f = f]) (use l f1 f3 x2_def in simp_all)
  have 5: "?s x4 x5" unfolding x5_def by (rule idem_step.look_dist) (simp add: x4_def)
  have "?s\<^sup>*\<^sup>* x x4" using 1 2 3 4 by (meson converse_rtranclp_into_rtranclp rtranclp.rtrancl_refl)
  with 5 show ?thesis by (intro exI [of _ x4] exI [of _ x5]) (simp add: f1 f3 f5 x2_def x4_def fun_upd_idem_iff)
qed

lemma charge_first:
  "\<exists>y y'. (idem_step prompt charge)\<^sup>*\<^sup>* (idem_init cache_tables_init []) y \<and> idem_step prompt charge y y' \<and> is_phase y 0 = HasDist \<and> is_now y = 0 \<and>
     is_stored y = None \<and> is_phase y' = (\<lambda>_. Absent)(0 := Executing) \<and> is_store y' = cache_tables_init \<and> is_now y' = 0 \<and>
     is_locks y' = [(''n'', \<lparr>row_token = Some (show_nat 0), row_expire = Some 60, row_fence = 1\<rparr>)] \<and> is_local y' = [0 \<mapsto> 0] \<and> is_stored y' = None"
  using charge_enters [of "idem_init cache_tables_init []" 0 1 "[(''n'', \<lparr>row_token = Some (show_nat 0), row_expire = Some 60, row_fence = 1\<rparr>)]" prompt]
  by (simp add: idem_init_def PostgresLockAdapter_def sql_acquire_or_extend_def del: show_nat.simps)

theorem idempotency_single_flight_witness:
  "\<exists>y y'. idem_step True charge y y' \<and> is_phase y' 0 = Executing \<and> (\<forall>j. working (is_phase y' j) \<longrightarrow> j = 0) \<and>
     (\<forall>t0. is_stored y = Some t0 \<longrightarrow> t0 + ip_ttl (ic_ip charge) \<le> is_now y)"
proof -
  obtain y y' where y: "(idem_step True charge)\<^sup>*\<^sup>* (idem_init cache_tables_init []) y" "idem_step True charge y y'" "is_phase y 0 = HasDist"
    "is_phase y' 0 = Executing" using charge_first [of True] by force
  have "inj show_nat" by (simp add: inj_def)
  then have "(\<forall>j. working (is_phase y' j) \<longrightarrow> j = 0) \<and> (\<forall>t0. is_stored y = Some t0 \<longrightarrow> t0 + ip_ttl (ic_ip charge) \<le> is_now y)"
    by (intro idempotency_single_flight [of charge "[]"]) (use y in \<open>simp_all add: idempotency_ok_def del: show_nat.simps\<close>)
  then show ?thesis using y by blast
qed

text \<open>
  The lock of a block is not renewed: a body that takes longer than its lease is executed again by the next caller
  in another process, at the same time.
\<close>

theorem idempotency_outlived_lease:
  "\<exists>x. (idem_step False charge)\<^sup>*\<^sup>* (idem_init cache_tables_init []) x \<and> is_phase x 0 = Executing \<and> is_phase x 1 = Executing"
proof -
  obtain a b where b: "(idem_step False charge)\<^sup>*\<^sup>* (idem_init cache_tables_init []) a" "idem_step False charge a b" "is_phase b = (\<lambda>_. Absent)(0 := Executing)"
    "is_store b = cache_tables_init" "is_now b = 0" "is_locks b = [(''n'', \<lparr>row_token = Some (show_nat 0), row_expire = Some 60, row_fence = 1\<rparr>)]"
    "is_local b = [0 \<mapsto> 0]" using charge_first [of False] by blast
  let ?c = "b\<lparr>is_now := 61\<rparr>"
  have t: "idem_step False charge b ?c" by (rule idem_step.tick) (simp_all add: b)
  have acq: "lb_acquire PostgresLockAdapter (is_now ?c) (is_now ?c) ''n'' (show_nat 1) 60 (is_locks ?c) =
      (Inr (Some 2), [(''n'', \<lparr>row_token = Some (show_nat 1), row_expire = Some 121, row_fence = 2\<rparr>)])"
    by (simp add: b PostgresLockAdapter_def sql_acquire_or_extend_def expired_def unexpired_def Let_def del: show_nat.simps)
  obtain d e where e: "(idem_step False charge)\<^sup>*\<^sup>* ?c d" "idem_step False charge d e" "is_phase e = (is_phase ?c)(1 := Executing)"
    using charge_enters [OF _ _ _ acq, of False] b by auto
  have "(idem_step False charge)\<^sup>*\<^sup>* (idem_init cache_tables_init []) e"
    using b(1,2) t e(1,2) by (meson rtranclp.rtrancl_into_rtrancl rtranclp_trans)
  then show ?thesis using e(3) b(3) by auto
qed

text \<open>
  When the body outlived the lease, the response is stored and the caller gets \<open>LockNotOwnedError\<close> instead of it,
  from the release of the lock.
\<close>

theorem idempotency_stored_but_raises:
  "\<exists>x. (idem_step False charge)\<^sup>*\<^sup>* (idem_init cache_tables_init []) x \<and> is_stored x = Some 61 \<and> is_phase x 0 = Ended (Inl LockNotOwned)"
proof -
  obtain a b where b: "(idem_step False charge)\<^sup>*\<^sup>* (idem_init cache_tables_init []) a" "idem_step False charge a b" "is_phase b = (\<lambda>_. Absent)(0 := Executing)"
    "is_store b = cache_tables_init" "is_now b = 0" "is_locks b = [(''n'', \<lparr>row_token = Some (show_nat 0), row_expire = Some 60, row_fence = 1\<rparr>)]"
    "is_local b = [0 \<mapsto> 0]" using charge_first [of False] by blast
  let ?s = "idem_step False charge" let ?c = "b\<lparr>is_now := 61\<rparr>" let ?v = "Bytes ''paid''"
  have t: "?s b ?c" by (rule idem_step.tick) (simp_all add: b)
  define d where "d = go 0 (Persisting ?v) (put_cache charge 0 (persist_guard (ic_cache charge) (ic_ip charge) (is_now ?c) (ic_key charge) (ic_print charge 0) (cache_of charge 0 ?c)) ?c)"
  have d: "?s ?c d" unfolding d_def by (rule idem_step.returns) (simp add: b)
  obtain r c where rc: "ttl_set (ic_cache charge) (ic_cfg charge) (ic_ser charge) (is_now d) (is_now d) (scoped (ic_ip charge) (ic_key charge)) ?v
      (Some (ip_ttl (ic_ip charge))) [] None (cache_of charge 0 d) = (r, c)" by fastforce
  then have r: "r = Inr ()" by (auto simp: ttl_set_def not_positive_def serialize_def Let_def)
  define e where "e = go 0 (Releasing (Inr ?v)) (put_cache charge 0 c (d\<lparr>is_stored := Some (is_now d)\<rparr>))"
  have e: "?s d e" using idem_step.persists [OF _ rc, of False] by (simp add: d_def e_def r)
  have locks: "is_locks e = [(''n'', \<lparr>row_token = Some (show_nat 0), row_expire = Some 60, row_fence = 1\<rparr>)]" "is_now e = 61" "is_stored e = Some 61"
    by (simp_all add: e_def d_def b del: show_nat.simps)
  have f: "?s e (release_locks charge 0 (Inr ?v) e)" by (rule idem_step.releases) (simp add: e_def)
  have "is_phase (release_locks charge 0 (Inr ?v) e) 0 = Ended (Inl LockNotOwned)"
    by (simp add: release_locks_def locks PostgresLockAdapter_def sql_release_def unexpired_def del: show_nat.simps)
  moreover have "?s\<^sup>*\<^sup>* (idem_init cache_tables_init []) (release_locks charge 0 (Inr ?v) e)"
    using b(1,2) t d e f by (meson rtranclp.rtrancl_into_rtrancl)
  ultimately show ?thesis using locks(3) by (intro exI [of _ "release_locks charge 0 (Inr ?v) e"]) (simp add: release_fields(5))
qed

section \<open>Replays\<close>

context cache_laws
begin

text \<open>A look, answered from the map.\<close>

lemma replay_value:
  assumes "inv (tc_store c)" "value_at t1 (view (tc_store c)) (value_key (scoped ip k)) = Some raw" "deserialize S raw = Inr v" "t1 \<le> t2"
  shows "fst (idem_replay B cfg S ip t1 t2 k fp c) =
    (case fp of None \<Rightarrow> Inr (Some v)
     | Some f \<Rightarrow> (case value_at t2 (view (tc_store c)) (fingerprint_key ip k) of
                   None \<Rightarrow> Inr (Some v) | Some g \<Rightarrow> if g = f then Inr (Some v) else Inl IdempotencyConflictError))"
proof -
  obtain c1 where g: "ttl_get B cfg S t1 (scoped ip k) c = (Inr (Some v), c1)" and s: "tc_store c1 = snd (cb_get B t1 (value_key (scoped ip k)) (tc_store c))"
    using get_effect(1,2) [OF assms(1), of cfg S t1 "scoped ip k"] assms(2,3) by (cases "ttl_get B cfg S t1 (scoped ip k) c") auto
  have i: "inv (tc_store c1)" and a: "alive t1 (view (tc_store c1)) = alive t1 (view (tc_store c))" using get_keeps [OF assms(1)] s by auto
  have "fst (cb_get B t2 (fingerprint_key ip k) (tc_store c1)) = value_at t2 (view (tc_store c)) (fingerprint_key ip k)"
    unfolding get_value [OF i] by (rule value_later [OF a assms(4)])
  then show ?thesis using g by (auto simp: idem_replay_def split: option.split prod.split)
qed

lemma persist_view:
  assumes "inv (tc_store c)" "idem_persist B cfg S ip t1 t2 k v fp c = (Inr (), c')" "cfg_maxsize cfg = 0"
  shows "inv (tc_store c') \<and> (\<exists>raw. serialize S v = Inr raw \<and> view (tc_store c') (value_key (scoped ip k)) = Some (raw, t2 + ip_ttl ip, {})) \<and>
    view (tc_store c') (fingerprint_key ip k) = (case fp of None \<Rightarrow> view (tc_store c) (fingerprint_key ip k) | Some f \<Rightarrow> Some (f, t1 + (ip_ttl ip + 1), {}))"
proof -
  let ?c = "persist_guard B ip t1 k fp c"
  have g: "inv (tc_store ?c) \<and> view (tc_store ?c) (fingerprint_key ip k) =
      (case fp of None \<Rightarrow> view (tc_store c) (fingerprint_key ip k) | Some f \<Rightarrow> Some (f, t1 + (ip_ttl ip + 1), {}))"
    using assms(1) by (cases fp) (simp_all add: persist_guard_def set_law)
  have room: "make_room B cfg (scoped ip k) ?c = ?c" using assms(3) by (simp add: make_room_def)
  have "fingerprint_key ip k \<noteq> value_key (scoped ip k)" by (simp add: fingerprint_key_def value_key_def)
  then show ?thesis using assms(2) g set_law [of "tc_store ?c"] unfolding idem_persist_def
    by (auto simp: ttl_set_def room Let_def entry_ttl_def promote_if_def split: if_splits sum.splits)
qed

end

text \<open>
  What was stored for a key is replayed for \<open>ttl\<close> seconds, without the factory being called, to a caller with the
  same fingerprint or with none.
\<close>

theorem idempotency_replays:
  assumes "cache_laws B I view" "I (tc_store c)" "serializer_ok S" "cfg_maxsize cfg = 0"
    and "idem_persist B cfg S ip t1 t2 k v fp c = (Inr (), c')" "t < t2 + ip_ttl ip" "call_fingerprint ip fp' = None \<or> call_fingerprint ip fp' = fp"
  shows "\<exists>c''. idem_run B cfg S ip t u1 u2 k fp' made c' = (Inr v, False, c'')"
proof -
  from cache_laws.persist_view [OF assms(1,2,5,4)] obtain raw where raw: "I (tc_store c')" "serialize S v = Inr raw"
    "view (tc_store c') (value_key (scoped ip k)) = Some (raw, t2 + ip_ttl ip, {})"
    and fp: "view (tc_store c') (fingerprint_key ip k) = (case fp of None \<Rightarrow> view (tc_store c) (fingerprint_key ip k) | Some f \<Rightarrow> Some (f, t1 + (ip_ttl ip + 1), {}))"
    by blast
  have "value_at t (view (tc_store c')) (value_key (scoped ip k)) = Some raw" using raw(3) assms(6) by (simp add: value_at_def)
  from cache_laws.replay_value [OF assms(1) raw(1) this deserialize_serialize [OF assms(3) raw(2)] order_refl, of cfg "call_fingerprint ip fp'"]
  have "fst (idem_replay B cfg S ip t t k (call_fingerprint ip fp') c') = Inr (Some v)"
    using assms(7) fp by (auto simp: value_at_def split: option.split)
  then show ?thesis by (cases "idem_replay B cfg S ip t t k (call_fingerprint ip fp') c'") (simp add: idem_run_def)
qed

theorem idempotency_replays_witness:
  "\<exists>c''. idem_run MemoryCacheAdapter \<lparr>cfg_maxsize = 0, cfg_ttl = 60\<rparr> (None :: unit serializer option) \<lparr>ip_name = ''pay'', ip_ttl = 60, ip_fingerprint = None\<rparr>
     59 59 59 ''k'' (Some ''f'') (Some (Bytes ''again''))
     (snd (idem_persist MemoryCacheAdapter \<lparr>cfg_maxsize = 0, cfg_ttl = 60\<rparr> (None :: unit serializer option) \<lparr>ip_name = ''pay'', ip_ttl = 60, ip_fingerprint = None\<rparr>
        0 0 ''k'' (Bytes ''paid'') (Some ''f'') (ttl_cache_init memory_cache_init))) = (Inr (Bytes ''paid''), False, c'')"
proof -
  let ?cfg = "\<lparr>cfg_maxsize = 0, cfg_ttl = 60\<rparr>" let ?S = "None :: unit serializer option" let ?ip = "\<lparr>ip_name = ''pay'', ip_ttl = 60, ip_fingerprint = None\<rparr>"
  let ?c = "ttl_cache_init memory_cache_init"
  have "idem_persist MemoryCacheAdapter ?cfg ?S ?ip 0 0 ''k'' (Bytes ''paid'') (Some ''f'') ?c =
      (Inr (), snd (idem_persist MemoryCacheAdapter ?cfg ?S ?ip 0 0 ''k'' (Bytes ''paid'') (Some ''f'') ?c))"
    by (simp add: idem_persist_def ttl_set_def not_positive_def serialize_def Let_def)
  from idempotency_replays [OF mc.cache_laws_axioms _ _ _ this, of 59] show ?thesis
    by (simp add: ttl_cache_init_def memory_cache_init_inv serializer_ok_def call_fingerprint_def)
qed

text \<open>
  A caller with another fingerprint than the stored one gets a conflict until \<open>ttl + 1\<close> seconds after the
  fingerprint was written, and the other payload's response after that: the response outlives its check when its write was
  more than a second later.
\<close>

theorem idempotency_fingerprint_checked:
  assumes "cache_laws B I view" "I (tc_store c)" "serializer_ok S" "cfg_maxsize cfg = 0"
    and "idem_persist B cfg S ip t1 t2 k v (Some f) c = (Inr (), c')" "t < t2 + ip_ttl ip" "f \<noteq> g"
  shows "fst (idem_run B cfg S ip t u1 u2 k (Some g) made c') = (if t < t1 + ip_ttl ip + 1 then Inl IdempotencyConflictError else Inr v)"
proof -
  from cache_laws.persist_view [OF assms(1,2,5,4)] obtain raw where raw: "I (tc_store c')" "serialize S v = Inr raw"
    "view (tc_store c') (value_key (scoped ip k)) = Some (raw, t2 + ip_ttl ip, {})" "view (tc_store c') (fingerprint_key ip k) = Some (f, t1 + (ip_ttl ip + 1), {})"
    by auto
  have "value_at t (view (tc_store c')) (value_key (scoped ip k)) = Some raw" using raw(3) assms(6) by (simp add: value_at_def)
  from cache_laws.replay_value [OF assms(1) raw(1) this deserialize_serialize [OF assms(3) raw(2)] order_refl, of cfg "Some g"]
  have "fst (idem_replay B cfg S ip t t k (Some g) c') = (if t < t1 + ip_ttl ip + 1 then Inl IdempotencyConflictError else Inr (Some v))"
    using raw(4) assms(7) by (simp add: value_at_def algebra_simps)
  then show ?thesis by (cases "idem_replay B cfg S ip t t k (Some g) c'") (auto simp: idem_run_def call_fingerprint_def split: if_splits)
qed

theorem idempotency_fingerprint_checked_witness:
  "fst (idem_run MemoryCacheAdapter \<lparr>cfg_maxsize = 0, cfg_ttl = 60\<rparr> (None :: unit serializer option) \<lparr>ip_name = ''pay'', ip_ttl = 60, ip_fingerprint = None\<rparr>
     61 61 61 ''k'' (Some ''g'') (Some (Bytes ''again''))
     (snd (idem_persist MemoryCacheAdapter \<lparr>cfg_maxsize = 0, cfg_ttl = 60\<rparr> (None :: unit serializer option) \<lparr>ip_name = ''pay'', ip_ttl = 60, ip_fingerprint = None\<rparr>
        0 2 ''k'' (Bytes ''paid'') (Some ''f'') (ttl_cache_init memory_cache_init)))) = Inr (Bytes ''paid'')"
proof -
  let ?cfg = "\<lparr>cfg_maxsize = 0, cfg_ttl = 60\<rparr>" let ?S = "None :: unit serializer option" let ?ip = "\<lparr>ip_name = ''pay'', ip_ttl = 60, ip_fingerprint = None\<rparr>"
  let ?c = "ttl_cache_init memory_cache_init"
  have "idem_persist MemoryCacheAdapter ?cfg ?S ?ip 0 2 ''k'' (Bytes ''paid'') (Some ''f'') ?c =
      (Inr (), snd (idem_persist MemoryCacheAdapter ?cfg ?S ?ip 0 2 ''k'' (Bytes ''paid'') (Some ''f'') ?c))"
    by (simp add: idem_persist_def ttl_set_def not_positive_def serialize_def Let_def)
  from idempotency_fingerprint_checked [OF mc.cache_laws_axioms _ _ _ this, of 61 "''g''"] show ?thesis
    by (simp add: ttl_cache_init_def memory_cache_init_inv serializer_ok_def)
qed

end
