(* ===== verification/Shield_Parts.thy ===== *)
theory Shield_Parts
  imports Complex_Main Prelude "HOL-Library.Multiset"
begin

text \<open>
  The three controllers of the shield (\<open>resilience/shield/\<close>): the retry budget (\<open>_retry_budget.py\<close>), the estimator of
  the timeout per attempt (\<open>_timeout_estimator.py\<close>) and the adaptive gate (\<open>_adaptive_gate.py\<close>), a token bucket whose
  rate follows the CUBIC curve. Shown: the budget stays within its capacity and accounts for every retry, the
  estimate is the clamped 95th percentile of the last latencies, the gate lets no more through than its capacity and its
  ceiling allow, and the rate curve starts and peaks where it should.
\<close>

section \<open>Retry budget\<close>

record retry_budget =
  rb_capacity :: int
  rb_available :: int

definition retry_budget_init :: "int \<Rightarrow> py_exc + retry_budget" where
  "retry_budget_init capacity = (if capacity \<le> 0 then Inl ValueError else Inr \<lparr>rb_capacity = capacity, rb_available = capacity\<rparr>)"

definition budget_try_acquire :: "retry_budget \<Rightarrow> bool \<times> retry_budget" where
  "budget_try_acquire b = (if rb_available b \<le> 0 then (False, b) else (True, b\<lparr>rb_available := rb_available b - 1\<rparr>))"

definition budget_refund :: "int \<Rightarrow> retry_budget \<Rightarrow> retry_budget" where
  "budget_refund amount b =
     (if amount \<le> 0 then b else b\<lparr>rb_available := min (rb_capacity b) (rb_available b + amount)\<rparr>)"

section \<open>Timeout estimator\<close>

definition WINDOW :: nat where
  "WINDOW = 32"

record estimator =
  te_initial :: seconds
  te_min :: seconds
  te_max :: seconds
  te_buffer :: "real list"
  te_index :: nat
  te_count :: nat

definition estimator_init :: "seconds \<Rightarrow> seconds \<Rightarrow> seconds \<Rightarrow> py_exc + estimator" where
  "estimator_init initial lo hi =
     (if lo \<le> 0 \<or> hi \<le> 0 then Inl ValueError
      else if hi < lo then Inl ValueError
      else Inr \<lparr>te_initial = initial, te_min = lo, te_max = hi, te_buffer = replicate WINDOW 0, te_index = 0, te_count = 0\<rparr>)"

text \<open>A latency is finite here; a negative one is dropped.\<close>

definition estimator_record :: "seconds \<Rightarrow> estimator \<Rightarrow> estimator" where
  "estimator_record latency e =
     (if latency < 0 then e
      else e\<lparr>te_buffer := (te_buffer e)[te_index e := latency], te_index := (te_index e + 1) mod WINDOW,
             te_count := (if te_count e < WINDOW then te_count e + 1 else te_count e)\<rparr>)"

definition estimator_clamp :: "estimator \<Rightarrow> seconds \<Rightarrow> seconds" where
  "estimator_clamp e value = (if value < te_min e then te_min e else if te_max e < value then te_max e else value)"

text \<open>\<open>max(0, ceil(0.95 * n) - 1)\<close>, at most the last index.\<close>

definition p95_rank :: "nat \<Rightarrow> nat" where
  "p95_rank n = min (nat (max 0 (\<lceil>0.95 * real n\<rceil> - 1))) (n - 1)"

definition estimate :: "estimator \<Rightarrow> seconds" where
  "estimate e =
     (if te_count e = 0 then estimator_clamp e (te_initial e)
      else let samples = sort (take (te_count e) (te_buffer e))
           in estimator_clamp e (samples ! p95_rank (te_count e) * 2.5))"

section \<open>Adaptive gate\<close>

record adaptive_gate =
  ag_max_rate :: real
  ag_capacity :: real
  ag_floor :: real
  ag_cap :: "real option"
  ag_tokens :: real
  ag_updated :: seconds
  ag_enabled :: bool
  ag_w_max :: real
  ag_k :: real
  ag_last_fail :: seconds
  ag_window :: "seconds list"

definition adaptive_gate_init :: "real \<Rightarrow> real \<Rightarrow> real \<Rightarrow> real option \<Rightarrow> seconds \<Rightarrow> py_exc + adaptive_gate" where
  "adaptive_gate_init initial capacity least cap now =
     (if initial \<le> 0 then Inl ValueError
      else if capacity \<le> 0 then Inl ValueError
      else if least \<le> 0 then Inl ValueError
      else if (case cap of None \<Rightarrow> False | Some c \<Rightarrow> c < least) then Inl ValueError
      else Inr \<lparr>ag_max_rate = initial, ag_capacity = capacity, ag_floor = least, ag_cap = cap, ag_tokens = 0, ag_updated = now,
                ag_enabled = False, ag_w_max = initial, ag_k = 0, ag_last_fail = now, ag_window = []\<rparr>)"

text \<open>A \<open>deque\<close> with \<open>maxlen\<close> 8.\<close>

definition window_push :: "seconds \<Rightarrow> seconds list \<Rightarrow> seconds list" where
  "window_push t w = (let w1 = w @ [t] in drop (length w1 - 8) w1)"

text \<open>\<open>None\<close> is infinity.\<close>

definition measured_rate :: "adaptive_gate \<Rightarrow> real option" where
  "measured_rate g =
     (let w = ag_window g
      in if length w < 2 then None
         else let elapsed = List.last w - List.hd w
              in if elapsed \<le> 0 then None else Some ((real (length w) - 1) / elapsed))"

definition gate_refill :: "seconds \<Rightarrow> adaptive_gate \<Rightarrow> adaptive_gate" where
  "gate_refill now g =
     (let elapsed = now - ag_updated g
      in if 0 < elapsed then g\<lparr>ag_tokens := min (ag_capacity g) (ag_tokens g + elapsed * ag_max_rate g), ag_updated := now\<rparr> else g)"

text \<open>
  One pass of \<open>acquire\<close> at \<open>now\<close>: \<open>None\<close> when it goes through, else how long it sleeps before the next pass.
\<close>

definition gate_acquire :: "seconds \<Rightarrow> adaptive_gate \<Rightarrow> seconds option \<times> adaptive_gate" where
  "gate_acquire now g =
     (if \<not> ag_enabled g then (None, g\<lparr>ag_window := window_push now (ag_window g)\<rparr>)
      else let g1 = gate_refill now g
           in if 1 \<le> ag_tokens g1 then (None, g1\<lparr>ag_tokens := ag_tokens g1 - 1, ag_window := window_push now (ag_window g1)\<rparr>)
              else (Some ((1 - ag_tokens g1) / ag_max_rate g1), g1))"

definition clamped_rate :: "real \<Rightarrow> adaptive_gate \<Rightarrow> real" where
  "clamped_rate candidate g =
     (let c1 = (case measured_rate g of None \<Rightarrow> candidate | Some m \<Rightarrow> min candidate (1.5 * m));
          c2 = (case ag_cap g of None \<Rightarrow> c1 | Some c \<Rightarrow> min c1 c)
      in max (ag_floor g) c2)"

definition apply_rate :: "real \<Rightarrow> seconds \<Rightarrow> adaptive_gate \<Rightarrow> adaptive_gate" where
  "apply_rate candidate now g = (gate_refill now g)\<lparr>ag_max_rate := clamped_rate candidate g\<rparr>"

definition cubic_candidate :: "seconds \<Rightarrow> adaptive_gate \<Rightarrow> real" where
  "cubic_candidate now g = 0.4 * (now - ag_last_fail g - ag_k g) ^ 3 + ag_w_max g"

definition gate_on_success :: "seconds \<Rightarrow> adaptive_gate \<Rightarrow> adaptive_gate" where
  "gate_on_success now g = (if ag_enabled g then apply_rate (cubic_candidate now g) now g else g)"

definition gate_on_slow_down :: "seconds \<Rightarrow> adaptive_gate \<Rightarrow> adaptive_gate" where
  "gate_on_slow_down now g =
     (let g1 = (if ag_enabled g then g else g\<lparr>ag_enabled := True, ag_tokens := 0, ag_updated := now\<rparr>);
          g2 = g1\<lparr>ag_w_max := ag_max_rate g1, ag_k := root 3 (ag_max_rate g1 * (1 - 0.7) / 0.4), ag_last_fail := now\<rparr>
      in apply_rate (ag_max_rate g2 * 0.7) now g2)"

section \<open>Profiles\<close>

record shield_profile =
  sp_name :: string
  sp_failures :: int
  sp_initial_rate :: real
  sp_burst :: real
  sp_floor :: real
  sp_initial_timeout :: seconds
  sp_timeout_min :: seconds
  sp_timeout_max :: seconds
  sp_backoff_scale :: real
  sp_backoff_cap :: seconds

definition InternalShieldConfig :: shield_profile where
  "InternalShieldConfig = \<lparr>sp_name = ''internal'', sp_failures = 10, sp_initial_rate = 100, sp_burst = 200, sp_floor = 1, sp_initial_timeout = 1,
     sp_timeout_min = 0.05, sp_timeout_max = 5, sp_backoff_scale = 0.5, sp_backoff_cap = 5\<rparr>"

definition ApiShieldConfig :: shield_profile where
  "ApiShieldConfig = \<lparr>sp_name = ''api'', sp_failures = 20, sp_initial_rate = 2, sp_burst = 5, sp_floor = 0.25, sp_initial_timeout = 10,
     sp_timeout_min = 0.5, sp_timeout_max = 60, sp_backoff_scale = 1, sp_backoff_cap = 30\<rparr>"

definition SlowShieldConfig :: shield_profile where
  "SlowShieldConfig = \<lparr>sp_name = ''slow'', sp_failures = 5, sp_initial_rate = 0.5, sp_burst = 1, sp_floor = 0.05, sp_initial_timeout = 120,
     sp_timeout_min = 5, sp_timeout_max = 600, sp_backoff_scale = 2, sp_backoff_cap = 60\<rparr>"

section \<open>What the budget accounts for\<close>

datatype budget_event = TryRetry | Refund int

text \<open>The retries granted and the amounts refunded in a run.\<close>

fun budget_run :: "budget_event list \<Rightarrow> retry_budget \<Rightarrow> int \<times> int \<times> retry_budget" where
  "budget_run [] b = (0, 0, b)"
| "budget_run (TryRetry # es) b =
     (let (ok, b1) = budget_try_acquire b; (g, r, b2) = budget_run es b1 in ((if ok then g + 1 else g), r, b2))"
| "budget_run (Refund n # es) b = (let (g, r, b2) = budget_run es (budget_refund n b) in (g, (if 0 < n then r + n else r), b2))"

definition budget_ok :: "retry_budget \<Rightarrow> bool" where
  "budget_ok b \<longleftrightarrow> 0 \<le> rb_available b \<and> rb_available b \<le> rb_capacity b \<and> 0 < rb_capacity b"

lemma budget_init_ok: "retry_budget_init n = Inr b \<Longrightarrow> budget_ok b \<and> rb_available b = n \<and> rb_capacity b = n"
  by (auto simp: retry_budget_init_def budget_ok_def split: if_splits)

lemma budget_step_ok:
  assumes "budget_ok b"
  shows "budget_ok (snd (budget_try_acquire b)) \<and> rb_capacity (snd (budget_try_acquire b)) = rb_capacity b \<and>
      rb_available (snd (budget_try_acquire b)) + (if fst (budget_try_acquire b) then 1 else 0) = rb_available b"
    and "budget_ok (budget_refund n b) \<and> rb_capacity (budget_refund n b) = rb_capacity b \<and>
      rb_available (budget_refund n b) \<le> rb_available b + max 0 n"
  using assms by (auto simp: budget_ok_def budget_try_acquire_def budget_refund_def)

lemma budget_run_account:
  "budget_ok b \<Longrightarrow> budget_run es b = (g, r, b') \<Longrightarrow> budget_ok b' \<and> rb_capacity b' = rb_capacity b \<and> rb_available b' + g \<le> rb_available b + r"
proof (induction es b arbitrary: g r b' rule: budget_run.induct)
  case (2 es b)
  obtain ok b1 where t: "budget_try_acquire b = (ok, b1)" by fastforce
  obtain g1 r1 where u: "budget_run es b1 = (g1, r1, b')" "g = (if ok then g1 + 1 else g1)" "r = r1"
    using "2.prems"(2) by (auto simp: t split: prod.splits)
  show ?case using "2.IH" [OF t [symmetric] refl _ u(1)] budget_step_ok(1) [OF "2.prems"(1)] u t by (auto split: if_splits)
next
  case (3 n es b)
  obtain g1 r1 where u: "budget_run es (budget_refund n b) = (g1, r1, b')" "g = g1" "r = (if 0 < n then r1 + n else r1)"
    using "3.prems"(2) by (auto split: prod.splits)
  show ?case using "3.IH" [OF _ u(1)] budget_step_ok(2) [OF "3.prems"(1), of n] u by (auto split: if_splits)
qed simp

section \<open>What the gate lets through\<close>

datatype gate_event = Pass | Succeeded | SlowedDown

fun gate_step :: "seconds \<times> gate_event \<Rightarrow> adaptive_gate \<Rightarrow> nat \<times> adaptive_gate" where
  "gate_step (t, Pass) g = (case gate_acquire t g of (None, g1) \<Rightarrow> (1, g1) | (Some w, g1) \<Rightarrow> (0, g1))"
| "gate_step (t, Succeeded) g = (0, gate_on_success t g)"
| "gate_step (t, SlowedDown) g = (0, gate_on_slow_down t g)"

fun gate_run :: "(seconds \<times> gate_event) list \<Rightarrow> adaptive_gate \<Rightarrow> nat \<times> adaptive_gate" where
  "gate_run [] g = (0, g)"
| "gate_run (e # es) g = (let (n, g1) = gate_step e g; (m, g2) = gate_run es g1 in (n + m, g2))"

fun gate_times :: "seconds \<Rightarrow> (seconds \<times> gate_event) list \<Rightarrow> seconds \<Rightarrow> bool" where
  "gate_times s [] T = (s \<le> T)"
| "gate_times s ((t, e) # es) T = (s \<le> t \<and> gate_times t es T)"

text \<open>The invariant: tokens within the capacity, a rate above the floor and, once engaged, below the ceiling.\<close>

definition gate_ok :: "seconds \<Rightarrow> adaptive_gate \<Rightarrow> bool" where
  "gate_ok now g \<longleftrightarrow> 0 \<le> ag_tokens g \<and> ag_tokens g \<le> ag_capacity g \<and> ag_updated g \<le> now \<and> 0 < ag_floor g \<and> 0 < ag_capacity g \<and>
     0 < ag_max_rate g \<and> (\<forall>c. ag_cap g = Some c \<longrightarrow> ag_floor g \<le> c \<and> (ag_enabled g \<longrightarrow> ag_max_rate g \<le> c))"

text \<open>The tokens there would be at \<open>now\<close>.\<close>

definition gate_level :: "seconds \<Rightarrow> adaptive_gate \<Rightarrow> real" where
  "gate_level now g = min (ag_capacity g) (ag_tokens g + (now - ag_updated g) * ag_max_rate g)"

lemma refill_fields [simp]:
  "ag_capacity (gate_refill t g) = ag_capacity g" "ag_max_rate (gate_refill t g) = ag_max_rate g" "ag_cap (gate_refill t g) = ag_cap g"
  "ag_floor (gate_refill t g) = ag_floor g" "ag_enabled (gate_refill t g) = ag_enabled g" "ag_window (gate_refill t g) = ag_window g"
  by (simp_all add: gate_refill_def Let_def)

lemma refill_level:
  assumes "gate_ok t g"
  shows "ag_tokens (gate_refill t g) = gate_level t g" "ag_updated (gate_refill t g) = t"
  using assms by (auto simp: gate_refill_def gate_level_def gate_ok_def Let_def min_def)

lemma gate_level_bounds: "gate_ok t g \<Longrightarrow> 0 \<le> gate_level t g \<and> gate_level t g \<le> ag_capacity g"
  by (auto simp: gate_level_def gate_ok_def)

lemma gate_ok_later: "gate_ok s g \<Longrightarrow> s \<le> t \<Longrightarrow> gate_ok t g"
  by (auto simp: gate_ok_def)

lemma gate_level_later:
  assumes "gate_ok s g" "s \<le> t" "ag_max_rate g \<le> R"
  shows "gate_level t g \<le> gate_level s g + R * (t - s)"
proof -
  have "(t - s) * ag_max_rate g \<le> R * (t - s)" using assms by (simp add: mult.commute [of _ "t - s"] mult_left_mono)
  moreover have "0 \<le> R * (t - s)" using assms by (simp add: gate_ok_def)
  ultimately show ?thesis by (simp add: gate_level_def min_def algebra_simps)
qed

lemma gate_ok_refill: "gate_ok t g \<Longrightarrow> gate_ok t (gate_refill t g)"
  using refill_level [of t g] gate_level_bounds [of t g] by (auto simp: gate_ok_def)

lemma clamped_rate_bounds:
  assumes "gate_ok t g"
  shows "ag_floor g \<le> clamped_rate c g" "ag_cap g = Some m \<Longrightarrow> clamped_rate c g \<le> m"
  using assms by (auto simp: clamped_rate_def Let_def gate_ok_def split: option.split)

lemma apply_rate_ok:
  assumes "gate_ok t g"
  shows "gate_ok t (apply_rate c t g)" "gate_level t (apply_rate c t g) = gate_level t g"
proof -
  show "gate_ok t (apply_rate c t g)"
    using gate_ok_refill [OF assms] clamped_rate_bounds(1) [OF assms, of c] clamped_rate_bounds(2) [OF assms, of _ c]
    by (auto simp: gate_ok_def apply_rate_def)
  show "gate_level t (apply_rate c t g) = gate_level t g"
    using refill_level [OF assms] gate_level_bounds [OF assms] unfolding gate_level_def [of t "apply_rate c t g"] by (simp add: apply_rate_def)
qed

lemma slow_down_ok:
  assumes "gate_ok t g"
  shows "gate_ok t (gate_on_slow_down t g)" "ag_enabled g \<Longrightarrow> gate_level t (gate_on_slow_down t g) = gate_level t g"
proof -
  define g1 where "g1 = (if ag_enabled g then g else g\<lparr>ag_enabled := True, ag_tokens := 0, ag_updated := t\<rparr>)"
  define g2 where "g2 = g1\<lparr>ag_w_max := ag_max_rate g1, ag_k := root 3 (ag_max_rate g1 * (1 - 0.7) / 0.4), ag_last_fail := t\<rparr>"
  have e: "gate_on_slow_down t g = apply_rate (ag_max_rate g2 * 0.7) t g2" by (simp add: gate_on_slow_down_def Let_def g1_def g2_def)
  have same: "clamped_rate c g2 = clamped_rate c g1" for c by (simp add: g2_def clamped_rate_def measured_rate_def)
  have r: "gate_refill t g2 = (gate_refill t g1)\<lparr>ag_w_max := ag_max_rate g1, ag_k := root 3 (ag_max_rate g1 * (1 - 0.7) / 0.4), ag_last_fail := t\<rparr>"
    by (simp add: g2_def gate_refill_def Let_def)
  show "gate_level t (gate_on_slow_down t g) = gate_level t g" if "ag_enabled g"
  proof -
    have "gate_ok t g2" using assms that by (simp add: g2_def g1_def gate_ok_def)
    from apply_rate_ok(2) [OF this] show ?thesis by (simp add: e) (simp add: g2_def g1_def that gate_level_def)
  qed
  have cap: "\<forall>c. ag_cap g2 = Some c \<longrightarrow> ag_floor g2 \<le> c" using assms by (simp add: g2_def g1_def gate_ok_def)
  have "0 \<le> ag_tokens (gate_refill t g2) \<and> ag_tokens (gate_refill t g2) \<le> ag_capacity g2 \<and> ag_updated (gate_refill t g2) \<le> t"
    using assms by (auto simp: g2_def g1_def gate_refill_def Let_def gate_ok_def)
  moreover have "ag_floor g2 \<le> clamped_rate (ag_max_rate g2 * 0.7) g2" "\<And>m. ag_cap g2 = Some m \<Longrightarrow> clamped_rate (ag_max_rate g2 * 0.7) g2 \<le> m"
    using cap by (auto simp: clamped_rate_def Let_def split: option.split)
  moreover have "0 < ag_floor g2" "0 < ag_capacity g2" using assms by (simp_all add: g2_def g1_def gate_ok_def)
  ultimately show "gate_ok t (gate_on_slow_down t g)" unfolding e using cap by (auto simp: gate_ok_def apply_rate_def)
qed

text \<open>One event: the account of tokens.\<close>

lemma gate_step_ok:
  assumes ok: "gate_ok s g" and t: "s \<le> t" and step: "gate_step (t, e) g = (n, g')"
  shows "gate_ok t g'" and "ag_enabled g \<Longrightarrow> ag_enabled g' \<and> gate_level t g' + n \<le> gate_level t g"
    and "ag_cap g' = ag_cap g \<and> ag_capacity g' = ag_capacity g"
proof -
  have okt: "gate_ok t g" by (rule gate_ok_later [OF ok t])
  have "gate_ok t g' \<and> (ag_enabled g \<longrightarrow> ag_enabled g' \<and> gate_level t g' + n \<le> gate_level t g) \<and> ag_cap g' = ag_cap g \<and> ag_capacity g' = ag_capacity g"
  proof (cases e)
    case Pass
    note r = refill_level [OF okt] gate_ok_refill [OF okt] gate_level_bounds [OF okt]
    show ?thesis
    proof (cases "ag_enabled g")
      case False
      then have g: "g' = g\<lparr>ag_window := window_push t (ag_window g)\<rparr>" using step Pass by (auto simp: gate_acquire_def)
      then show ?thesis using okt False by (simp add: gate_ok_def)
    next
      case True
      let ?h = "gate_refill t g"
      show ?thesis
      proof (cases "1 \<le> ag_tokens ?h")
        case low: True
        then have g: "g' = ?h\<lparr>ag_tokens := ag_tokens ?h - 1, ag_window := window_push t (ag_window ?h)\<rparr>" "n = 1"
          using step Pass True by (auto simp: gate_acquire_def Let_def)
        have "gate_ok t g'" using r(3) low by (simp add: g(1) gate_ok_def)
        moreover have "gate_level t g' \<le> gate_level t g - 1" unfolding gate_level_def [of t g'] using r by (simp add: g(1))
        ultimately show ?thesis using True g by simp
      next
        case low: False
        then have g: "g' = ?h" "n = 0" using step Pass True by (auto simp: gate_acquire_def Let_def)
        have "gate_level t ?h = gate_level t g" using r unfolding gate_level_def [of t ?h] by simp
        then show ?thesis using True g r(3) by simp
      qed
    qed
  next
    case Succeeded
    then show ?thesis using step okt apply_rate_ok [OF okt] by (auto simp: gate_on_success_def apply_rate_def split: if_splits)
  next
    case SlowedDown
    then show ?thesis using step slow_down_ok [OF okt] by (auto simp: gate_on_slow_down_def apply_rate_def Let_def split: if_splits)
  qed
  then show "gate_ok t g'" "ag_enabled g \<Longrightarrow> ag_enabled g' \<and> gate_level t g' + n \<le> gate_level t g"
    "ag_cap g' = ag_cap g \<and> ag_capacity g' = ag_capacity g" by blast+
qed

lemma gate_run_ok:
  assumes "gate_ok s g" "gate_times s es T" "gate_run es g = (n, g')"
  shows "gate_ok T g' \<and> ag_cap g' = ag_cap g \<and> ag_capacity g' = ag_capacity g"
  using assms
proof (induction es arbitrary: s g n)
  case Nil
  then show ?case using gate_ok_later by auto
next
  case (Cons x es)
  obtain t e where x: "x = (t, e)" by fastforce
  obtain k h where h: "gate_step (t, e) g = (k, h)" by fastforce
  obtain m where "gate_run es h = (m, g')" using Cons.prems(3) by (auto simp: x h split: prod.splits)
  then show ?case using Cons.IH [of t h m] gate_step_ok [OF Cons.prems(1) _ h] Cons.prems(2) by (auto simp: x)
qed

lemma gate_run_bound:
  assumes "gate_ok s g" "gate_times s es T" "gate_run es g = (n, g')" "ag_enabled g" "ag_cap g = Some c"
  shows "real n \<le> gate_level s g + c * (T - s)"
  using assms
proof (induction es arbitrary: s g n)
  case Nil
  then have "0 \<le> c" by (auto simp: gate_ok_def)
  then show ?case using gate_level_bounds [OF Nil(1)] Nil by simp
next
  case (Cons x es)
  obtain t e where x: "x = (t, e)" by fastforce
  obtain k h where h: "gate_step (t, e) g = (k, h)" by fastforce
  obtain m where m: "gate_run es h = (m, g')" "n = k + m" using Cons.prems(3) by (auto simp: x h split: prod.splits)
  have st: "s \<le> t" "gate_times t es T" using Cons.prems(2) x by auto
  note g = gate_step_ok [OF Cons.prems(1) st(1) h]
  have "real m \<le> gate_level t h + c * (T - t)" using Cons.IH [OF g(1) st(2) m(1)] g(2,3) Cons.prems(4,5) by simp
  moreover have "gate_level t h + k \<le> gate_level t g" using g(2) Cons.prems(4) by simp
  moreover have "gate_level t g \<le> gate_level s g + c * (t - s)"
    using gate_level_later [OF Cons.prems(1) st(1), of c] Cons.prems(1,4,5) by (simp add: gate_ok_def)
  ultimately show ?case by (simp add: m(2) algebra_simps)
qed

lemma adaptive_gate_init_ok: "adaptive_gate_init r b f cap now = Inr g \<Longrightarrow> gate_ok now g \<and> ag_cap g = cap \<and> ag_capacity g = b"
  by (auto simp: adaptive_gate_init_def gate_ok_def split: if_splits option.splits)

text \<open>
  A gate with a ceiling \<open>c\<close>: once it is engaged, in every period it lets through at most its capacity and \<open>c\<close> calls per
  second, whatever successes and slow-downs it is told of.
\<close>

theorem gate_rate_bound:
  assumes "adaptive_gate_init r b f (Some c) t0 = Inr g0" "gate_times t0 es s" "gate_run es g0 = (n0, g)" "ag_enabled g"
    and "gate_times s es' T" "gate_run es' g = (n, g')"
  shows "real n \<le> b + c * (T - s)"
proof -
  have g: "gate_ok s g" "ag_cap g = Some c" "ag_capacity g = b"
    using gate_run_ok [OF _ assms(2,3)] adaptive_gate_init_ok [OF assms(1)] by auto
  show ?thesis using gate_run_bound [OF g(1) assms(5,6,4) g(2)] gate_level_bounds [OF g(1)] g(3) by simp
qed

theorem gate_rate_bound_witness:
  "real (fst (gate_run [(1, Pass), (2, Pass)] (snd (gate_run [(0, SlowedDown)]
     \<lparr>ag_max_rate = 2, ag_capacity = 5, ag_floor = 1 / 4, ag_cap = Some 1, ag_tokens = 0, ag_updated = 0, ag_enabled = False, ag_w_max = 2, ag_k = 0,
      ag_last_fail = 0, ag_window = []\<rparr>)))) \<le> 5 + 1 * (2 - 0)"
proof -
  let ?g = "\<lparr>ag_max_rate = 2, ag_capacity = 5, ag_floor = 1 / 4, ag_cap = Some 1, ag_tokens = 0, ag_updated = 0, ag_enabled = False, ag_w_max = 2, ag_k = 0,
      ag_last_fail = 0, ag_window = []\<rparr> :: adaptive_gate"
  have i: "adaptive_gate_init 2 5 (1 / 4) (Some 1) 0 = Inr ?g" by (simp add: adaptive_gate_init_def)
  have e: "ag_enabled (snd (gate_run [(0, SlowedDown)] ?g))" by (simp add: gate_on_slow_down_def apply_rate_def Let_def)
  show ?thesis by (rule gate_rate_bound [OF i _ surjective_pairing e _ surjective_pairing]) simp_all
qed

text \<open>
  A caller that has to wait is told how long: with nobody else about it gets through when it sleeps that long or longer,
  and not before. The bucket must hold a token, as it does in all profiles.
\<close>

theorem gate_wait_exact:
  assumes "gate_ok now g" "gate_acquire now g = (Some w, g1)" "1 \<le> ag_capacity g" "0 \<le> d"
  shows "fst (gate_acquire (now + d) g1) = None \<longleftrightarrow> w \<le> d"
proof -
  have e: "ag_enabled g" and low: "ag_tokens (gate_refill now g) < 1" and g1: "g1 = gate_refill now g" and w: "w = (1 - ag_tokens g1) / ag_max_rate g"
    using assms(2) by (auto simp: gate_acquire_def Let_def split: if_splits)
  have r: "0 < ag_max_rate g" using assms(1) by (simp add: gate_ok_def)
  have ok: "gate_ok (now + d) g1" using gate_ok_later [OF gate_ok_refill [OF assms(1)]] assms(4) g1 by simp
  have "ag_tokens (gate_refill (now + d) g1) = gate_level (now + d) g1" by (rule refill_level [OF ok])
  also have "\<dots> = min (ag_capacity g) (ag_tokens g1 + d * ag_max_rate g)"
    using refill_level(2) [OF assms(1)] by (simp add: gate_level_def g1)
  finally have "fst (gate_acquire (now + d) g1) = None \<longleftrightarrow> 1 \<le> ag_tokens g1 + d * ag_max_rate g"
    using assms(3) e by (auto simp: gate_acquire_def Let_def g1)
  then show ?thesis unfolding w using r by (simp add: field_simps)
qed

theorem gate_wait_exact_witness:
  "fst (gate_acquire (0 + 1) (gate_on_slow_down 0
     \<lparr>ag_max_rate = 2, ag_capacity = 5, ag_floor = 1 / 4, ag_cap = Some 1, ag_tokens = 0, ag_updated = 0, ag_enabled = False, ag_w_max = 2, ag_k = 0,
      ag_last_fail = 0, ag_window = []\<rparr>)) = None \<longleftrightarrow> (1::real) \<le> 1"
proof -
  let ?start = "\<lparr>ag_max_rate = 2, ag_capacity = 5, ag_floor = 1 / 4, ag_cap = Some 1, ag_tokens = 0, ag_updated = 0, ag_enabled = False, ag_w_max = 2, ag_k = 0,
      ag_last_fail = 0, ag_window = []\<rparr> :: adaptive_gate"
  let ?g = "gate_on_slow_down 0 ?start"
  have "gate_ok 0 ?start" by (simp add: gate_ok_def)
  then have ok: "gate_ok 0 ?g" by (rule slow_down_ok)
  have a: "gate_acquire 0 ?g = (Some 1, ?g)"
    by (simp add: gate_acquire_def gate_on_slow_down_def apply_rate_def gate_refill_def clamped_rate_def measured_rate_def Let_def)
  show ?thesis by (rule gate_wait_exact [OF ok a]) (simp_all add: gate_on_slow_down_def apply_rate_def Let_def)
qed

text \<open>
  The curve of a slow-down starts at the reduced rate, is below the rate of the slow-down until \<open>k\<close> seconds after it, meets it
  there and exceeds it later.
\<close>

lemma cubic_curve:
  fixes t :: seconds and g :: adaptive_gate
  assumes "0 < ag_max_rate g"
  defines "h \<equiv> gate_on_slow_down t g"
  shows "cubic_candidate t h = 0.7 * ag_max_rate g" "cubic_candidate (t + ag_k h) h = ag_max_rate g"
    "u < t + ag_k h \<Longrightarrow> cubic_candidate u h < ag_max_rate g" "t + ag_k h < u \<Longrightarrow> ag_max_rate g < cubic_candidate u h"
proof -
  have h: "ag_w_max h = ag_max_rate g" "ag_last_fail h = t" "ag_k h = root 3 (ag_max_rate g * (1 - 0.7) / 0.4)"
    by (simp_all add: h_def gate_on_slow_down_def apply_rate_def gate_refill_def Let_def)
  have k3: "ag_k h ^ 3 = ag_max_rate g * (1 - 0.7) / 0.4" using assms(1) by (simp add: h(3) odd_real_root_pow)
  have c: "cubic_candidate u h = 0.4 * (u - t - ag_k h) ^ 3 + ag_max_rate g" for u by (simp add: cubic_candidate_def h)
  show "cubic_candidate t h = 0.7 * ag_max_rate g" using k3 by (simp add: c field_simps)
  show "cubic_candidate (t + ag_k h) h = ag_max_rate g" by (simp add: c)
  show "cubic_candidate u h < ag_max_rate g" if "u < t + ag_k h"
  proof -
    have "(u - t - ag_k h) ^ 3 < 0" using that by (intro power_less_zero_eq [THEN iffD2]) auto
    then show ?thesis by (simp add: c)
  qed
  show "ag_max_rate g < cubic_candidate u h" if "t + ag_k h < u" using that by (simp add: c)
qed

section \<open>What the estimator estimates\<close>

definition recent :: "'a list \<Rightarrow> 'a list" where
  "recent ls = drop (length ls - WINDOW) ls"

text \<open>After the latencies \<open>ls\<close> the ring holds the last ones, from the oldest at the write position on.\<close>

definition ring :: "real list \<Rightarrow> estimator \<Rightarrow> bool" where
  "ring ls e \<longleftrightarrow> length (te_buffer e) = WINDOW \<and> te_index e = length ls mod WINDOW \<and> te_count e = min WINDOW (length ls) \<and>
     (if length ls < WINDOW then take (length ls) (te_buffer e) = ls else rotate (te_index e) (te_buffer e) = recent ls)"

lemma rotate_update:
  assumes "i < length xs"
  shows "rotate (Suc i) (xs[i := x]) = tl (rotate i xs) @ [x]"
proof -
  have "rotate i (xs[i := x]) = x # tl (rotate i xs)"
  proof (rule nth_equalityI)
    show "length (rotate i (xs[i := x])) = length (x # tl (rotate i xs))" using assms by simp
    fix j assume "j < length (rotate i (xs[i := x]))"
    then have j: "j < length xs" by simp
    show "rotate i (xs[i := x]) ! j = (x # tl (rotate i xs)) ! j"
    proof (cases j)
      case 0
      then show ?thesis using assms j by (simp add: nth_rotate)
    next
      case (Suc k)
      have "(i + j) mod length xs \<noteq> i"
        using assms j Suc by (cases "i + j < length xs") (simp_all add: le_mod_geq)
      then show ?thesis using j Suc assms by (simp add: nth_rotate nth_tl)
    qed
  qed
  then show ?thesis by (simp add: rotate1_hd_tl)
qed

lemma ring_init: "estimator_init i lo hi = Inr e \<Longrightarrow> ring [] e"
  by (auto simp: estimator_init_def ring_def WINDOW_def split: if_splits)

lemma ring_record:
  assumes "ring ls e" "0 \<le> x"
  shows "ring (ls @ [x]) (estimator_record x e)"
proof -
  let ?b = "te_buffer e" let ?n = "length ls"
  have b: "length ?b = 32" and i: "te_index e = ?n mod 32" and c: "te_count e = min 32 ?n" using assms(1) by (auto simp: ring_def WINDOW_def)
  have fields: "length (te_buffer (estimator_record x e)) = WINDOW" "te_index (estimator_record x e) = length (ls @ [x]) mod WINDOW"
    "te_count (estimator_record x e) = min WINDOW (length (ls @ [x]))"
    using assms(2) b i c by (auto simp: estimator_record_def WINDOW_def mod_Suc_eq)
  have buf: "te_buffer (estimator_record x e) = ?b[te_index e := x]" using assms(2) by (simp add: estimator_record_def)
  consider "Suc ?n < 32" | "Suc ?n = 32" | "32 \<le> ?n" by linarith
  then show ?thesis
  proof cases
    case 1
    then have "take ?n ?b = ls" using assms(1) by (simp add: ring_def WINDOW_def)
    then have "take (Suc ?n) (?b[?n := x]) = ls @ [x]" using 1 b by (simp add: take_Suc_conv_app_nth)
    then show ?thesis using fields 1 buf i by (simp add: ring_def WINDOW_def)
  next
    case 2
    then have "take ?n ?b = ls" using assms(1) by (simp add: ring_def WINDOW_def)
    then have "?b[?n := x] = ls @ [x]" using 2 b by (simp add: upd_conv_take_nth_drop)
    then show ?thesis using fields 2 buf i by (simp add: ring_def WINDOW_def recent_def)
  next
    case 3
    have r: "rotate (te_index e) ?b = recent ls" using assms(1) 3 by (auto simp: ring_def WINDOW_def)
    have "rotate (length (ls @ [x]) mod 32) (?b[te_index e := x]) = rotate (Suc (te_index e)) (?b[te_index e := x])"
      using rotate_conv_mod [of "Suc (te_index e)" "?b[te_index e := x]"] b i by (simp add: mod_Suc_eq)
    also have "\<dots> = tl (recent ls) @ [x]" using rotate_update [of "te_index e" ?b x] b i r by simp
    also have "\<dots> = recent (ls @ [x])"
    proof -
      have "length ls - 31 = Suc (length ls - 32)" using 3 by simp
      then show ?thesis using 3 by (simp add: recent_def WINDOW_def tl_drop drop_Suc)
    qed
    finally show ?thesis using fields 3 buf by (simp add: ring_def WINDOW_def)
  qed
qed

lemma mset_rotate: "mset (rotate n xs) = mset xs"
proof (induction n)
  case (Suc n)
  have "mset (rotate1 ys) = mset ys" for ys :: "'a list" by (cases ys) auto
  then show ?case using Suc by simp
qed simp

lemma record_fields [simp]: "te_min (estimator_record x e) = te_min e" "te_max (estimator_record x e) = te_max e"
  by (simp_all add: estimator_record_def)

lemma ring_samples:
  assumes "ring ls e"
  shows "mset (take (te_count e) (te_buffer e)) = mset (recent ls)" "te_count e = length (recent ls)"
proof -
  show "te_count e = length (recent ls)" using assms by (simp add: ring_def recent_def min_def)
  show "mset (take (te_count e) (te_buffer e)) = mset (recent ls)"
  proof (cases "length ls < WINDOW")
    case True
    then show ?thesis using assms by (simp add: ring_def recent_def)
  next
    case False
    then have "recent ls = rotate (te_index e) (te_buffer e)" "te_count e = length (te_buffer e)" using assms by (auto simp: ring_def)
    then show ?thesis by (simp add: mset_rotate)
  qed
qed

lemma sorted_rank:
  fixes s :: "real list"
  assumes "sorted s" "k < length s"
  shows "Suc k \<le> length (filter (\<lambda>x. x \<le> s ! k) s)" "length (filter (\<lambda>x. x < s ! k) s) \<le> k"
proof -
  have "filter (\<lambda>x. x \<le> s ! k) (take (Suc k) s) = take (Suc k) s"
    using assms by (intro filter_True) (auto simp: in_set_conv_nth sorted_iff_nth_mono)
  then have "length (take (Suc k) s) \<le> length (filter (\<lambda>x. x \<le> s ! k) (take (Suc k) s @ drop (Suc k) s))" by (metis filter_append le_add1 length_append)
  then show "Suc k \<le> length (filter (\<lambda>x. x \<le> s ! k) s)" using assms(2) by simp
  have "filter (\<lambda>x. x < s ! k) (drop k s) = []" using assms by (intro filter_False) (auto simp: in_set_conv_nth sorted_iff_nth_mono not_less)
  then have "filter (\<lambda>x. x < s ! k) (take k s @ drop k s) = filter (\<lambda>x. x < s ! k) (take k s)" by (simp only: filter_append append_Nil2)
  then show "length (filter (\<lambda>x. x < s ! k) s) \<le> k" by (metis append_take_drop_id length_filter_le length_take min.bounded_iff)
qed

lemma p95_rank_bounds:
  assumes "0 < n" "n \<le> 32"
  shows "p95_rank n < n" "0.95 * real n \<le> real (Suc (p95_rank n))" "real (p95_rank n) < 0.95 * real n"
proof -
  let ?c = "\<lceil>0.95 * real n\<rceil>"
  have c: "1 \<le> ?c" "?c \<le> int n" using assms(1) by (auto simp: ceiling_le_iff le_ceiling_iff)
  have p: "p95_rank n = nat (?c - 1)" using c by (simp add: p95_rank_def max_def min_def)
  show "p95_rank n < n" using c p by simp
  have "int (Suc (p95_rank n)) = ?c" using c p by simp
  then have "real_of_int ?c = real (Suc (p95_rank n))" by linarith
  then show "0.95 * real n \<le> real (Suc (p95_rank n))" "real (p95_rank n) < 0.95 * real n" by linarith+
qed

lemma estimate_clamped: "te_min e \<le> te_max e \<Longrightarrow> te_min e \<le> estimate e \<and> estimate e \<le> te_max e"
  by (simp add: estimate_def estimator_clamp_def Let_def)

lemma filter_length_mset: "mset xs = mset ys \<Longrightarrow> length (filter P xs) = length (filter P ys)"
  by (metis mset_filter size_mset)

text \<open>
  The timeout of the next attempt is the nearest-rank 95th percentile of the last 32 successful latencies (or of as many as there
  are), two and a half times, within the bounds of the profile: 95 per cent of those latencies are at most the percentile and fewer are below it.
\<close>

theorem estimate_is_p95:
  assumes "estimator_init initial lo hi = Inr e0" "ls \<noteq> []" "\<forall>x \<in> set ls. 0 \<le> x"
  shows "\<exists>p \<in> set (recent ls).
     estimate (fold estimator_record ls e0) = min hi (max lo (p * 2.5)) \<and>
     0.95 * real (length (recent ls)) \<le> real (length (filter (\<lambda>x. x \<le> p) (recent ls))) \<and>
     real (length (filter (\<lambda>x. x < p) (recent ls))) < 0.95 * real (length (recent ls))"
proof -
  let ?e = "fold estimator_record ls e0" let ?r = "recent ls" let ?s = "sort (recent ls)"
  have "ring ls ?e \<and> te_min ?e = lo \<and> te_max ?e = hi" using assms(3)
  proof (induction ls rule: rev_induct)
    case Nil
    then show ?case using ring_init [OF assms(1)] assms(1) by (auto simp: estimator_init_def split: if_splits)
  next
    case (snoc x ls)
    then show ?case using ring_record [of ls "fold estimator_record ls e0" x] by simp
  qed
  then have ring: "ring ls ?e" and lohi: "te_min ?e = lo" "te_max ?e = hi" by auto
  have le: "lo \<le> hi" using assms(1) by (auto simp: estimator_init_def split: if_splits)
  have n: "0 < length ?r" "length ?r \<le> 32" using assms(2) by (auto simp: recent_def WINDOW_def)
  note rank = p95_rank_bounds [OF n]
  let ?p = "?s ! p95_rank (length ?r)"
  have "sort (take (te_count ?e) (te_buffer ?e)) = ?s" using ring_samples(1) [OF ring] by (metis mset_sort properties_for_sort sorted_sort)
  then have est: "estimate ?e = min hi (max lo (?p * 2.5))"
    using n le lohi ring_samples(2) [OF ring] by (auto simp: estimate_def estimator_clamp_def Let_def min_def max_def)
  have k: "p95_rank (length ?r) < length ?s" using rank(1) by simp
  have p: "?p \<in> set ?r" using nth_mem [OF k] by simp
  have same: "length (filter P ?s) = length (filter P ?r)" for P by (rule filter_length_mset) simp
  have "0.95 * real (length ?r) \<le> real (length (filter (\<lambda>x. x \<le> ?p) ?r))"
    using rank(2) sorted_rank(1) [OF sorted_sort k] same by simp
  moreover have "real (length (filter (\<lambda>x. x < ?p) ?r)) < 0.95 * real (length ?r)"
    using rank(3) sorted_rank(2) [OF sorted_sort k] same by simp
  ultimately show ?thesis using p est by blast
qed

theorem estimate_is_p95_witness:
  "\<exists>p \<in> set (recent [2, 1 :: real]).
     estimate (fold estimator_record [2, 1] \<lparr>te_initial = 10, te_min = 1, te_max = 60, te_buffer = replicate WINDOW 0, te_index = 0, te_count = 0\<rparr>) = min 60 (max 1 (p * 2.5)) \<and>
     0.95 * real (length (recent [2, 1 :: real])) \<le> real (length (filter (\<lambda>x. x \<le> p) (recent [2, 1]))) \<and>
     real (length (filter (\<lambda>x. x < p) (recent [2, 1]))) < 0.95 * real (length (recent [2, 1 :: real]))"
  by (rule estimate_is_p95 [of 10]) (simp_all add: estimator_init_def)

text \<open>
  A budget of \<open>n\<close>: in any run the retries granted are at most \<open>n\<close> more than what was refunded, so that without
  successes there are at most \<open>n\<close> retries; and the budget stays between 0 and \<open>n\<close>.
\<close>

theorem retry_budget_accounts:
  assumes "retry_budget_init n = Inr b" "budget_run es b = (granted, refunded, b')"
  shows "granted \<le> n + refunded \<and> 0 \<le> rb_available b' \<and> rb_available b' \<le> n"
  using budget_run_account [OF _ assms(2)] budget_init_ok [OF assms(1)] by (auto simp: budget_ok_def)

theorem retry_budget_accounts_witness:
  "(1::int) \<le> 1 + 0 \<and> 0 \<le> rb_available \<lparr>rb_capacity = 1, rb_available = 0\<rparr> \<and> rb_available \<lparr>rb_capacity = 1, rb_available = 0\<rparr> \<le> 1"
  by (rule retry_budget_accounts [of _ "\<lparr>rb_capacity = 1, rb_available = 1\<rparr>" "[TryRetry, TryRetry]"])
    (simp_all add: retry_budget_init_def budget_try_acquire_def)

end
