(* ===== verification/Shield.thy ===== *)
theory Shield
  imports Shield_Parts
begin

text \<open>
  The call path of the shield (\<open>resilience/shield/_shield.py\<close>) over its three controllers (\<open>Shield_Parts\<close>). One shield is
  shared by any number of calls in flight, and a reconfiguration gives later calls fresh controllers while those in flight
  keep theirs, so the state is the list of all published snapshots, each call holding the position of its own. A
  step is what happens between two suspensions of one call; a run is any interleaving. Shown: retries are bounded by
  the shared budget over all calls, the gate's ceiling bounds the invocations of all calls together, every call ends after
  a bounded number of steps, what is raised and what is recovered.
\<close>

section \<open>Configuration and snapshot\<close>

record 'a shield_config =
  sc_profile :: shield_profile
  sc_timeout_errors :: "string list"
  sc_max_rate :: "real option"
  sc_cache :: bool
  sc_cache_key :: "('a \<Rightarrow> py_raised + key) option"
  sc_fallback :: bool

text \<open>\<open>TimeoutError\<close> and the classes it derives from.\<close>

definition timeout_mro :: "string list" where
  "timeout_mro = [''TimeoutError'', ''OSError'', ''Exception'', ''BaseException'', ''object'']"

definition effective_timeout_errors :: "'a shield_config \<Rightarrow> string list" where
  "effective_timeout_errors c =
     (if list_ex (\<lambda>e. e \<in> set timeout_mro) (sc_timeout_errors c) then sc_timeout_errors c
      else sc_timeout_errors c @ [''TimeoutError''])"

record 'a shield_state =
  ss_config :: "'a shield_config"
  ss_errors :: "string list"
  ss_budget :: retry_budget
  ss_gate :: adaptive_gate
  ss_estimator :: estimator

definition build_state :: "'a shield_config \<Rightarrow> seconds \<Rightarrow> py_exc + 'a shield_state" where
  "build_state c now =
     (let p = sc_profile c
      in case retry_budget_init (sp_failures p) of Inl e \<Rightarrow> Inl e | Inr b \<Rightarrow>
         (case adaptive_gate_init (sp_initial_rate p) (sp_burst p) (sp_floor p) (sc_max_rate c) now of Inl e \<Rightarrow> Inl e | Inr g \<Rightarrow>
         (case estimator_init (sp_initial_timeout p) (sp_timeout_min p) (sp_timeout_max p) of Inl e \<Rightarrow> Inl e | Inr te \<Rightarrow>
            Inr \<lparr>ss_config = c, ss_errors = effective_timeout_errors c, ss_budget = b, ss_gate = g, ss_estimator = te\<rparr>)))"

section \<open>Calls\<close>

definition MAX_ATTEMPTS :: nat where
  "MAX_ATTEMPTS = 4"

datatype give_up_reason = BudgetExhausted | AttemptsUsedUp | NonRetryable

text \<open>What the note on the exception says: the reason, the attempts, the time it took, the profile.\<close>

datatype give_up_note = Note give_up_reason nat seconds string

text \<open>
  Where a call is: in the gate, in the function (since when, with which timeout), in the pause before a retry, reading the
  cache, in the fallback; or how it ended: with the result of the function, with its result but a failing \<open>cache_key\<close>,
  with a recovered value, with an exception.
\<close>

datatype 'v shield_phase =
    AtGate
  | Calling seconds seconds
  | BackingOff seconds
  | ReadingCache key py_raised give_up_note
  | InFallback py_raised
  | Returned 'v
  | KeyFailed py_raised
  | Recovered 'v
  | Raised py_raised "give_up_note option"

record ('a, 'v) shield_call =
  ca_args :: 'a
  ca_state :: nat
  ca_started :: seconds
  ca_attempt :: nat
  ca_retries :: nat
  ca_phase :: "'v shield_phase"

record ('a, 'v) shield =
  sh_name :: string
  sh_states :: "'a shield_state list"
  sh_calls :: "('a, 'v) shield_call list"
  sh_writes :: "(key \<times> 'v) list"
  sh_error_logged_at :: "seconds option"
  sh_warnings :: "seconds list"

definition shield_setup :: "string \<Rightarrow> 'a shield_config \<Rightarrow> seconds \<Rightarrow> py_exc + ('a, 'v) shield" where
  "shield_setup name c now =
     map_sum id (\<lambda>s. \<lparr>sh_name = name, sh_states = [s], sh_calls = [], sh_writes = [], sh_error_logged_at = None, sh_warnings = []\<rparr>)
       (build_state c now)"

definition CACHE_ERROR_LOG_INTERVAL :: seconds where
  "CACHE_ERROR_LOG_INTERVAL = 60"

definition report_cache_error :: "seconds \<Rightarrow> ('a, 'v) shield \<Rightarrow> ('a, 'v) shield" where
  "report_cache_error now s =
     (if (case sh_error_logged_at s of None \<Rightarrow> False | Some logged \<Rightarrow> now - logged < CACHE_ERROR_LOG_INTERVAL) then s
      else s\<lparr>sh_error_logged_at := Some now, sh_warnings := sh_warnings s @ [now]\<rparr>)"

text \<open>\<open>stable_hash\<close> is the digest of the printed arguments.\<close>

definition default_cache_key :: "('a \<Rightarrow> string) \<Rightarrow> string \<Rightarrow> 'a \<Rightarrow> key" where
  "default_cache_key stable_hash name args = name @ '':'' @ stable_hash args"

definition compute_key :: "('a \<Rightarrow> string) \<Rightarrow> string \<Rightarrow> 'a shield_config \<Rightarrow> 'a \<Rightarrow> py_raised + key" where
  "compute_key stable_hash name c args =
     (case sc_cache_key c of Some custom \<Rightarrow> custom args | None \<Rightarrow> Inr (default_cache_key stable_hash name args))"

text \<open>\<open>self._random()\<close> is an argument.\<close>

definition backoff_for :: "'a shield_state \<Rightarrow> nat \<Rightarrow> real \<Rightarrow> seconds" where
  "backoff_for s attempt random =
     (let p = sc_profile (ss_config s) in random * min (sp_backoff_scale p * 2 ^ (attempt - 1)) (sp_backoff_cap p))"

text \<open>The three ways out of a call that gives up: the cache, the fallback, the exception with its note.\<close>

definition without_cache :: "'a shield_config \<Rightarrow> py_raised \<Rightarrow> give_up_note \<Rightarrow> 'v shield_phase" where
  "without_cache c x n = (if sc_fallback c then InFallback x else Raised x (Some n))"

definition handle_give_up :: "('a \<Rightarrow> string) \<Rightarrow> string \<Rightarrow> 'a shield_config \<Rightarrow> 'a \<Rightarrow> py_raised \<Rightarrow> give_up_note \<Rightarrow> 'v shield_phase" where
  "handle_give_up stable_hash name c args x n =
     (if sc_cache c
      then (case compute_key stable_hash name c args of Inl y \<Rightarrow> Raised y None | Inr k \<Rightarrow> ReadingCache k x n)
      else without_cache c x n)"

section \<open>Steps\<close>

text \<open>
  The steps of call \<open>i\<close>: its entry; a pass of the gate (the clock of the gate, the start of the attempt); the function
  returns (the clock for the latency, the clock of the controller) or raises, also by its timeout or by cancellation (the
  clock of the controller, the random number, the clock for the note); the pause is over; the answer of the cache; the end
  of the fallback; cancellation elsewhere. Beside them a pending write of the cache ends, and the configuration changes.
\<close>

datatype ('a, 'v) shield_event =
    Enter 'a seconds
  | PassGate nat seconds seconds
  | FnReturns nat 'v seconds seconds
  | FnRaises nat py_raised seconds real seconds
  | Wake nat
  | CacheAnswers nat "py_raised + 'v option" seconds
  | FallbackEnds nat "py_raised + 'v"
  | Cancelled nat py_raised
  | WriteEnds nat "py_raised option" seconds
  | Reconfigure "'a shield_config" seconds

abbreviation set_phase :: "'v shield_phase \<Rightarrow> ('a, 'v) shield_call \<Rightarrow> ('a, 'v) shield_call" where
  "set_phase p c \<equiv> c\<lparr>ca_phase := p\<rparr>"

definition put_call :: "nat \<Rightarrow> ('a, 'v) shield_call \<Rightarrow> ('a, 'v) shield \<Rightarrow> ('a, 'v) shield" where
  "put_call i c s = s\<lparr>sh_calls := (sh_calls s)[i := c]\<rparr>"

definition put_state :: "nat \<Rightarrow> 'a shield_state \<Rightarrow> ('a, 'v) shield \<Rightarrow> ('a, 'v) shield" where
  "put_state g h s = s\<lparr>sh_states := (sh_states s)[g := h]\<rparr>"

definition enter_call :: "'a \<Rightarrow> seconds \<Rightarrow> ('a, 'v) shield \<Rightarrow> ('a, 'v) shield" where
  "enter_call args now s =
     s\<lparr>sh_calls := sh_calls s @ [\<lparr>ca_args = args, ca_state = length (sh_states s) - 1, ca_started = now, ca_attempt = 1, ca_retries = 0, ca_phase = AtGate\<rparr>]\<rparr>"

text \<open>A call that does not get through sleeps and comes back to the gate.\<close>

definition pass_gate :: "nat \<Rightarrow> seconds \<Rightarrow> seconds \<Rightarrow> ('a, 'v) shield_call \<Rightarrow> ('a, 'v) shield \<Rightarrow> ('a, 'v) shield" where
  "pass_gate i now call_started c s =
     (let h = sh_states s ! ca_state c
      in case gate_acquire now (ss_gate h) of
           (Some w, g) \<Rightarrow> put_state (ca_state c) (h\<lparr>ss_gate := g\<rparr>) s
         | (None, g) \<Rightarrow> put_call i (set_phase (Calling call_started (estimate (ss_estimator h))) c) (put_state (ca_state c) (h\<lparr>ss_gate := g\<rparr>) s))"

definition fn_returns ::
  "('a \<Rightarrow> string) \<Rightarrow> nat \<Rightarrow> 'v \<Rightarrow> seconds \<Rightarrow> seconds \<Rightarrow> seconds \<Rightarrow> ('a, 'v) shield_call \<Rightarrow> ('a, 'v) shield \<Rightarrow> ('a, 'v) shield"
where
  "fn_returns stable_hash i v call_started now gate_now c s =
     (let h = sh_states s ! ca_state c;
          h1 = h\<lparr>ss_estimator := estimator_record (now - call_started) (ss_estimator h), ss_gate := gate_on_success gate_now (ss_gate h),
                 ss_budget := budget_refund (if ca_retries c = 0 then 1 else int (ca_retries c)) (ss_budget h)\<rparr>;
          s1 = put_state (ca_state c) h1 s
      in if \<not> sc_cache (ss_config h) then put_call i (set_phase (Returned v) c) s1
         else case compute_key stable_hash (sh_name s) (ss_config h) (ca_args c) of
             Inl y \<Rightarrow> put_call i (set_phase (KeyFailed y) c) s1
           | Inr k \<Rightarrow> put_call i (set_phase (Returned v) c) (s1\<lparr>sh_writes := sh_writes s1 @ [(k, v)]\<rparr>))"

definition give_up ::
  "('a \<Rightarrow> string) \<Rightarrow> nat \<Rightarrow> give_up_reason \<Rightarrow> py_raised \<Rightarrow> seconds \<Rightarrow> ('a, 'v) shield_call \<Rightarrow> ('a, 'v) shield \<Rightarrow> ('a, 'v) shield"
where
  "give_up stable_hash i reason x now c s =
     (let cfg = ss_config (sh_states s ! ca_state c);
          n = Note reason (ca_attempt c) (now - ca_started c) (sp_name (sc_profile cfg))
      in put_call i (set_phase (handle_give_up stable_hash (sh_name s) cfg (ca_args c) x n) c) s)"

definition fn_raises ::
  "('a \<Rightarrow> string) \<Rightarrow> nat \<Rightarrow> py_raised \<Rightarrow> seconds \<Rightarrow> real \<Rightarrow> seconds \<Rightarrow> ('a, 'v) shield_call \<Rightarrow> ('a, 'v) shield \<Rightarrow> ('a, 'v) shield"
where
  "fn_raises stable_hash i x gate_now random now c s =
     (let h = sh_states s ! ca_state c
      in if is_instance x [''ResilienceError''] then put_call i (set_phase (Raised x None) c) s
         else if \<not> is_instance x [''Exception''] then put_call i (set_phase (Raised x None) c) s
         else if \<not> is_instance x (ss_errors h) then give_up stable_hash i NonRetryable x now c s
         else let h1 = h\<lparr>ss_gate := gate_on_slow_down gate_now (ss_gate h)\<rparr>; s1 = put_state (ca_state c) h1 s
              in if MAX_ATTEMPTS \<le> ca_attempt c then give_up stable_hash i AttemptsUsedUp x now c s1
                 else case budget_try_acquire (ss_budget h1) of
                     (False, b) \<Rightarrow> give_up stable_hash i BudgetExhausted x now c (put_state (ca_state c) (h1\<lparr>ss_budget := b\<rparr>) s1)
                   | (True, b) \<Rightarrow> put_call i (c\<lparr>ca_retries := ca_retries c + 1, ca_phase := BackingOff (backoff_for h (ca_attempt c) random)\<rparr>)
                       (put_state (ca_state c) (h1\<lparr>ss_budget := b\<rparr>) s1))"

text \<open>An empty answer is a miss; an \<open>Exception\<close> is reported and counts as a miss; what is not an \<open>Exception\<close> is raised.\<close>

definition cache_answers :: "nat \<Rightarrow> (py_raised + 'v option) \<Rightarrow> seconds \<Rightarrow> py_raised \<Rightarrow> give_up_note \<Rightarrow> ('a, 'v) shield_call \<Rightarrow> ('a, 'v) shield \<Rightarrow> ('a, 'v) shield" where
  "cache_answers i r now x n c s =
     (let miss = set_phase (without_cache (ss_config (sh_states s ! ca_state c)) x n) c
      in case r of
           Inr (Some v) \<Rightarrow> put_call i (set_phase (Recovered v) c) s
         | Inr None \<Rightarrow> put_call i miss s
         | Inl y \<Rightarrow> if is_instance y [''Exception''] then put_call i miss (report_cache_error now s)
                    else put_call i (set_phase (Raised y None) c) s)"

definition fallback_ends :: "nat \<Rightarrow> (py_raised + 'v) \<Rightarrow> ('a, 'v) shield_call \<Rightarrow> ('a, 'v) shield \<Rightarrow> ('a, 'v) shield" where
  "fallback_ends i r c s = put_call i (set_phase (case r of Inr v \<Rightarrow> Recovered v | Inl y \<Rightarrow> Raised y None) c) s"

text \<open>\<open>_safe_cache_set\<close>, at its end: an \<open>Exception\<close> is reported; the task is no longer pending.\<close>

definition safe_cache_set_ends :: "nat \<Rightarrow> py_raised option \<Rightarrow> seconds \<Rightarrow> ('a, 'v) shield \<Rightarrow> ('a, 'v) shield" where
  "safe_cache_set_ends j r now s =
     (let s1 = s\<lparr>sh_writes := take j (sh_writes s) @ drop (Suc j) (sh_writes s)\<rparr>
      in case r of None \<Rightarrow> s1 | Some y \<Rightarrow> if is_instance y [''Exception''] then report_cache_error now s1 else s1)"

definition shield_apply_reconfigure :: "'a shield_config \<Rightarrow> seconds \<Rightarrow> ('a, 'v) shield \<Rightarrow> ('a, 'v) shield" where
  "shield_apply_reconfigure c now s = (case build_state c now of Inl e \<Rightarrow> s | Inr h \<Rightarrow> s\<lparr>sh_states := sh_states s @ [h]\<rparr>)"

definition call_at :: "('a, 'v) shield \<Rightarrow> nat \<Rightarrow> ('a, 'v) shield_call option" where
  "call_at s i = (if i < length (sh_calls s) then Some (sh_calls s ! i) else None)"

fun suspended :: "'v shield_phase \<Rightarrow> bool" where
  "suspended AtGate = True"
| "suspended (BackingOff d) = True"
| "suspended (ReadingCache k x n) = True"
| "suspended (InFallback x) = True"
| "suspended _ = False"

text \<open>A step; \<open>None\<close> when the event cannot happen in the state.\<close>

fun shield_step :: "('a \<Rightarrow> string) \<Rightarrow> ('a, 'v) shield_event \<Rightarrow> ('a, 'v) shield \<Rightarrow> ('a, 'v) shield option" where
  "shield_step H (Enter args now) s = Some (enter_call args now s)"
| "shield_step H (PassGate i now start) s =
     (case call_at s i of Some c \<Rightarrow> if ca_phase c = AtGate then Some (pass_gate i now start c s) else None | None \<Rightarrow> None)"
| "shield_step H (FnReturns i v now gnow) s =
     (case call_at s i of Some c \<Rightarrow> (case ca_phase c of Calling start t \<Rightarrow> Some (fn_returns H i v start now gnow c s) | _ \<Rightarrow> None) | None \<Rightarrow> None)"
| "shield_step H (FnRaises i x gnow r now) s =
     (case call_at s i of Some c \<Rightarrow> (case ca_phase c of Calling start t \<Rightarrow> Some (fn_raises H i x gnow r now c s) | _ \<Rightarrow> None) | None \<Rightarrow> None)"
| "shield_step H (Wake i) s =
     (case call_at s i of Some c \<Rightarrow> (case ca_phase c of BackingOff d \<Rightarrow> Some (put_call i (c\<lparr>ca_attempt := ca_attempt c + 1, ca_phase := AtGate\<rparr>) s) | _ \<Rightarrow> None) | None \<Rightarrow> None)"
| "shield_step H (CacheAnswers i r now) s =
     (case call_at s i of Some c \<Rightarrow> (case ca_phase c of ReadingCache k x n \<Rightarrow> Some (cache_answers i r now x n c s) | _ \<Rightarrow> None) | None \<Rightarrow> None)"
| "shield_step H (FallbackEnds i r) s =
     (case call_at s i of Some c \<Rightarrow> (case ca_phase c of InFallback x \<Rightarrow> Some (fallback_ends i r c s) | _ \<Rightarrow> None) | None \<Rightarrow> None)"
| "shield_step H (Cancelled i y) s =
     (case call_at s i of Some c \<Rightarrow> if suspended (ca_phase c) then Some (put_call i (set_phase (Raised y None) c) s) else None | None \<Rightarrow> None)"
| "shield_step H (WriteEnds j r now) s = (if j < length (sh_writes s) then Some (safe_cache_set_ends j r now s) else None)"
| "shield_step H (Reconfigure c now) s = Some (shield_apply_reconfigure c now s)"

fun shield_run :: "('a \<Rightarrow> string) \<Rightarrow> ('a, 'v) shield_event list \<Rightarrow> ('a, 'v) shield \<Rightarrow> ('a, 'v) shield option" where
  "shield_run H [] s = Some s"
| "shield_run H (e # es) s = (case shield_step H e s of None \<Rightarrow> None | Some s1 \<Rightarrow> shield_run H es s1)"
section \<open>The account of retries\<close>

text \<open>
  What a call has drawn from the budget of its snapshot: its retries while it has not succeeded; a success gives them back,
  and one more when there were none.
\<close>

fun succeeded :: "'v shield_phase \<Rightarrow> bool" where
  "succeeded (Returned v) = True"
| "succeeded (KeyFailed y) = True"
| "succeeded _ = False"

definition drawn :: "('a, 'v) shield_call \<Rightarrow> int" where
  "drawn c = (if succeeded (ca_phase c) then (if ca_retries c = 0 then - 1 else 0) else int (ca_retries c))"

definition drawn_from :: "nat \<Rightarrow> ('a, 'v) shield_call \<Rightarrow> int" where
  "drawn_from g c = (if ca_state c = g then drawn c else 0)"

definition call_ok :: "nat \<Rightarrow> ('a, 'v) shield_call \<Rightarrow> bool" where
  "call_ok n c \<longleftrightarrow> ca_state c < n \<and> 1 \<le> ca_attempt c \<and> ca_attempt c \<le> MAX_ATTEMPTS \<and> ca_attempt c \<le> ca_retries c + 1 \<and>
     ca_retries c \<le> ca_attempt c \<and> ca_retries c < MAX_ATTEMPTS \<and>
     (case ca_phase c of BackingOff d \<Rightarrow> ca_retries c = ca_attempt c | _ \<Rightarrow> ca_retries c + 1 = ca_attempt c \<or> (\<exists>y. ca_phase c = Raised y None))"

definition accounts :: "'a shield_state list \<Rightarrow> ('a, 'v) shield_call list \<Rightarrow> bool" where
  "accounts hs cs \<longleftrightarrow> hs \<noteq> [] \<and> (\<forall>c \<in> set cs. call_ok (length hs) c) \<and>
     (\<forall>g < length hs. budget_ok (ss_budget (hs ! g)) \<and> rb_capacity (ss_budget (hs ! g)) = sp_failures (sc_profile (ss_config (hs ! g))) \<and>
        rb_available (ss_budget (hs ! g)) + sum_list (map (drawn_from g) cs) \<le> rb_capacity (ss_budget (hs ! g)))"

lemma sum_list_update_int:
  fixes f :: "'b \<Rightarrow> int"
  shows "i < length xs \<Longrightarrow> sum_list (map f (xs[i := x])) = sum_list (map f xs) - f (xs ! i) + f x"
proof (induction xs arbitrary: i)
  case (Cons y ys)
  then show ?case by (cases i) auto
qed simp

text \<open>One call and its snapshot change; what the call draws comes out of the budget.\<close>

lemma accounts_exchange:
  assumes a: "accounts hs cs" and i: "i < length cs" and g: "ca_state (cs ! i) = g"
    and c: "call_ok (length hs) c'" "ca_state c' = g"
    and b: "budget_ok (ss_budget h')" "rb_capacity (ss_budget h') = rb_capacity (ss_budget (hs ! g))" "ss_config h' = ss_config (hs ! g)"
      "rb_available (ss_budget h') + drawn c' \<le> rb_available (ss_budget (hs ! g)) + drawn (cs ! i)"
  shows "accounts (hs[g := h']) (cs[i := c'])"
proof -
  have gl: "g < length hs" using c by (simp add: call_ok_def)
  have "rb_available (ss_budget (hs[g := h'] ! k)) + sum_list (map (drawn_from k) (cs[i := c'])) \<le> rb_capacity (ss_budget (hs[g := h'] ! k))"
    if k: "k < length hs" for k
  proof -
    have o: "rb_available (ss_budget (hs ! k)) + sum_list (map (drawn_from k) cs) \<le> rb_capacity (ss_budget (hs ! k))" using a k unfolding accounts_def by blast
    show ?thesis
    proof (cases "k = g")
      case True
      then show ?thesis using o b gl c(2) g by (simp add: sum_list_update_int [OF i] drawn_from_def)
    next
      case False
      then show ?thesis using o c(2) g by (simp add: sum_list_update_int [OF i] drawn_from_def)
    qed
  qed
  then show ?thesis using a b(1,2,3) c(1) gl set_update_subset_insert [of cs i c'] by (auto simp: accounts_def nth_list_update)
qed

lemma call_at_ok: "call_at s i = Some c \<Longrightarrow> i < length (sh_calls s) \<and> c = sh_calls s ! i"
  by (auto simp: call_at_def split: if_splits)

lemma put_fields [simp]:
  "sh_calls (put_call i c s) = (sh_calls s)[i := c]" "sh_states (put_call i c s) = sh_states s"
  "sh_calls (put_state g h s) = sh_calls s" "sh_states (put_state g h s) = (sh_states s)[g := h]"
  "sh_name (put_state g h s) = sh_name s"
  by (simp_all add: put_call_def put_state_def)

lemma report_fields [simp]:
  "sh_calls (report_cache_error now s) = sh_calls s" "sh_states (report_cache_error now s) = sh_states s"
  by (simp_all add: report_cache_error_def)

lemma write_fields [simp]:
  "sh_calls (safe_cache_set_ends j r now s) = sh_calls s" "sh_states (safe_cache_set_ends j r now s) = sh_states s"
  by (cases r; simp add: safe_cache_set_ends_def Let_def)+

text \<open>A call that only changes where it is, without success.\<close>

lemma accounts_phase:
  assumes "accounts hs cs" "i < length cs" "\<not> succeeded (ca_phase (cs ! i))" "\<not> succeeded p"
    and "ca_retries (cs ! i) + 1 = ca_attempt (cs ! i) \<or> (\<exists>y. p = Raised y None)" "\<forall>d. p \<noteq> BackingOff d"
  shows "accounts hs (cs[i := set_phase p (cs ! i)])"
proof -
  let ?c = "cs ! i"
  have ok: "call_ok (length hs) ?c" using assms(1,2) by (simp add: accounts_def)
  then have g: "ca_state ?c < length hs" by (simp add: call_ok_def)
  have "call_ok (length hs) (set_phase p ?c)" using ok assms(5,6) by (cases p) (auto simp: call_ok_def)
  then have "accounts (hs[ca_state ?c := hs ! ca_state ?c]) (cs[i := set_phase p ?c])"
    using assms(1,3,4) g by (intro accounts_exchange [OF assms(1,2) refl]) (simp_all add: accounts_def drawn_def)
  then show ?thesis by simp
qed

lemma accounts_enter: "accounts (sh_states s) (sh_calls s) \<Longrightarrow> accounts (sh_states (enter_call args now s)) (sh_calls (enter_call args now s))"
  by (auto simp: enter_call_def accounts_def call_ok_def MAX_ATTEMPTS_def drawn_from_def drawn_def)

text \<open>What a call in flight is worth before its step: its well-formedness and the budget of its snapshot.\<close>

lemma accounts_call:
  assumes "accounts (sh_states s) (sh_calls s)" "call_at s i = Some c"
  shows "call_ok (length (sh_states s)) c" "ca_state c < length (sh_states s)" "budget_ok (ss_budget (sh_states s ! ca_state c))"
    "i < length (sh_calls s)" "sh_calls s ! i = c"
  using assms by (auto simp: accounts_def call_ok_def dest: call_at_ok)

lemma accounts_pass_gate:
  assumes a: "accounts (sh_states s) (sh_calls s)" and c: "call_at s i = Some c" and p: "ca_phase c = AtGate"
  shows "accounts (sh_states (pass_gate i now start c s)) (sh_calls (pass_gate i now start c s))"
proof -
  note k = accounts_call [OF a c]
  have "accounts ((sh_states s)[ca_state c := (sh_states s ! ca_state c)\<lparr>ss_gate := g\<rparr>]) ((sh_calls s)[i := c'])"
    if "c' = c \<or> c' = set_phase (Calling start t) c" for g c' t
    using that k p by (intro accounts_exchange [OF a k(4)]) (auto simp: call_ok_def drawn_def)
  note m = this [of c, simplified] this [OF disjI2, OF refl]
  have id: "(sh_calls s)[i := c] = sh_calls s" using k by auto
  show ?thesis using m id by (auto simp: pass_gate_def Let_def split: prod.splits option.split)
qed

lemma accounts_returns:
  assumes a: "accounts (sh_states s) (sh_calls s)" and c: "call_at s i = Some c" and p: "ca_phase c = Calling start t"
  shows "accounts (sh_states (fn_returns H i v start now gnow c s)) (sh_calls (fn_returns H i v start now gnow c s))"
proof -
  note k = accounts_call [OF a c]
  let ?h = "sh_states s ! ca_state c"
  let ?b = "budget_refund (if ca_retries c = 0 then 1 else int (ca_retries c)) (ss_budget ?h)"
  let ?h1 = "?h\<lparr>ss_estimator := estimator_record (now - start) (ss_estimator ?h), ss_gate := gate_on_success gnow (ss_gate ?h), ss_budget := ?b\<rparr>"
  have b: "budget_ok ?b" "rb_capacity ?b = rb_capacity (ss_budget ?h)"
    "rb_available ?b \<le> rb_available (ss_budget ?h) + max 0 (if ca_retries c = 0 then 1 else int (ca_retries c))"
    using budget_step_ok(2) [OF k(3), of "if ca_retries c = 0 then 1 else int (ca_retries c)"] by simp_all
  have "accounts ((sh_states s)[ca_state c := ?h1]) ((sh_calls s)[i := set_phase q c])" if "succeeded q" for q
    using that k p b by (cases q) (auto intro!: accounts_exchange [OF a k(4)] simp: call_ok_def drawn_def)
  note m = this [of "Returned v"] this [of "KeyFailed y" for y]
  show ?thesis using m by (auto simp: fn_returns_def Let_def split: sum.split)
qed

lemma give_up_phase:
  "\<exists>q. \<not> succeeded q \<and> (\<forall>d. q \<noteq> BackingOff d) \<and> sh_states (give_up H i why x now c s) = sh_states s \<and>
     sh_calls (give_up H i why x now c s) = (sh_calls s)[i := set_phase q c]"
proof -
  have "\<not> succeeded (handle_give_up H n cfg args x nt) \<and> (\<forall>d. handle_give_up H n cfg args x nt \<noteq> BackingOff d)" for n cfg args nt
    by (auto simp: handle_give_up_def without_cache_def split: sum.split)
  then show ?thesis unfolding give_up_def Let_def put_fields by blast
qed

lemma accounts_raises:
  assumes a: "accounts (sh_states s) (sh_calls s)" and c: "call_at s i = Some c" and p: "ca_phase c = Calling start t"
  shows "accounts (sh_states (fn_raises H i x gnow r now c s)) (sh_calls (fn_raises H i x gnow r now c s))"
proof -
  note k = accounts_call [OF a c]
  have n: "ca_retries c + 1 = ca_attempt c" using k(1) p by (simp add: call_ok_def)
  let ?h = "sh_states s ! ca_state c"
  let ?h1 = "?h\<lparr>ss_gate := gate_on_slow_down gnow (ss_gate ?h)\<rparr>"
  have quit: "accounts ((sh_states s)[ca_state c := h']) ((sh_calls s)[i := set_phase q c])"
    if "\<not> succeeded q" "\<forall>d. q \<noteq> BackingOff d" "budget_ok (ss_budget h')" "rb_capacity (ss_budget h') = rb_capacity (ss_budget ?h)"
      "rb_available (ss_budget h') = rb_available (ss_budget ?h)" "ss_config h' = ss_config ?h" for q h'
    using that k p n by (intro accounts_exchange [OF a k(4)]) (auto simp: call_ok_def drawn_def split: shield_phase.split)
  have id: "(sh_states s)[ca_state c := ?h] = sh_states s" by simp
  have up: "accounts (sh_states (give_up H i why x now c s1)) (sh_calls (give_up H i why x now c s1))"
    if "sh_states s1 = (sh_states s)[ca_state c := h']" "sh_calls s1 = sh_calls s" "ss_budget h' = ss_budget ?h" "ss_config h' = ss_config ?h" for why s1 h'
    using give_up_phase [of H i why x now c s1] that quit [of _ h'] k(3) by auto
  consider "is_instance x [''ResilienceError''] \<or> \<not> is_instance x [''Exception'']"
    | "\<not> is_instance x [''ResilienceError'']" "is_instance x [''Exception'']" "\<not> is_instance x (ss_errors ?h)"
    | "\<not> is_instance x [''ResilienceError'']" "is_instance x [''Exception'']" "is_instance x (ss_errors ?h)" by blast
  then show ?thesis
  proof cases
    case 1
    then show ?thesis using quit [of "Raised x None" ?h] k(3) id by (auto simp: fn_raises_def Let_def)
  next
    case 2
    then show ?thesis using up [of s ?h] id by (simp add: fn_raises_def)
  next
    case 3
    show ?thesis
    proof (cases "MAX_ATTEMPTS \<le> ca_attempt c")
      case True
      then show ?thesis using 3 up [of "put_state (ca_state c) ?h1 s" ?h1] by (simp add: fn_raises_def Let_def)
    next
      case False
      show ?thesis
      proof (cases "rb_available (ss_budget ?h) \<le> 0")
        case True
        then have "budget_try_acquire (ss_budget ?h1) = (False, ss_budget ?h)" by (simp add: budget_try_acquire_def)
        then show ?thesis using 3 False up [of "put_state (ca_state c) (?h1\<lparr>ss_budget := ss_budget ?h\<rparr>) (put_state (ca_state c) ?h1 s)" "?h1\<lparr>ss_budget := ss_budget ?h\<rparr>"]
          by (simp add: fn_raises_def Let_def)
      next
        case ok: False
        let ?b = "(ss_budget ?h)\<lparr>rb_available := rb_available (ss_budget ?h) - 1\<rparr>"
        let ?c = "c\<lparr>ca_retries := ca_retries c + 1, ca_phase := BackingOff (backoff_for ?h (ca_attempt c) r)\<rparr>"
        have "accounts ((sh_states s)[ca_state c := ?h1\<lparr>ss_budget := ?b\<rparr>]) ((sh_calls s)[i := ?c])"
          using k p n ok False by (intro accounts_exchange [OF a k(4)]) (auto simp: call_ok_def drawn_def budget_ok_def)
        then show ?thesis using 3 False ok by (simp add: fn_raises_def Let_def budget_try_acquire_def)
      qed
    qed
  qed
qed

lemma call_ok_more: "call_ok n c \<Longrightarrow> n \<le> m \<Longrightarrow> call_ok m c"
  by (auto simp: call_ok_def)

lemma build_state_ok:
  assumes "build_state cfg now = Inr h"
  shows "budget_ok (ss_budget h) \<and> rb_available (ss_budget h) = sp_failures (sc_profile cfg) \<and> rb_capacity (ss_budget h) = sp_failures (sc_profile cfg) \<and>
    gate_ok now (ss_gate h) \<and> ag_cap (ss_gate h) = sc_max_rate cfg \<and> ag_capacity (ss_gate h) = sp_burst (sc_profile cfg) \<and> ss_config h = cfg"
  using assms budget_init_ok adaptive_gate_init_ok by (auto simp: build_state_def Let_def split: sum.splits)

lemma accounts_reconfigure:
  assumes a: "accounts (sh_states s) (sh_calls s)"
  shows "accounts (sh_states (shield_apply_reconfigure cfg now s)) (sh_calls (shield_apply_reconfigure cfg now s))"
proof (cases "build_state cfg now")
  case (Inr h)
  let ?n = "length (sh_states s)"
  have "drawn_from ?n c = 0" if "c \<in> set (sh_calls s)" for c using a that by (auto simp: accounts_def call_ok_def drawn_from_def)
  then have "sum_list (map (drawn_from ?n) (sh_calls s)) = 0" by (simp add: sum_list_0 cong: map_cong)
  then have "accounts (sh_states s @ [h]) (sh_calls s)"
    using a build_state_ok [OF Inr] by (auto simp: accounts_def nth_append less_Suc_eq intro: call_ok_more)
  then show ?thesis by (simp add: shield_apply_reconfigure_def Inr)
qed (simp add: shield_apply_reconfigure_def a)

lemma accounts_step:
  assumes a: "accounts (sh_states s) (sh_calls s)" and step: "shield_step H e s = Some s1"
  shows "accounts (sh_states s1) (sh_calls s1)"
proof (cases e)
  case (Enter args now)
  then show ?thesis using step accounts_enter [OF a] by auto
next
  case (PassGate i now start)
  then show ?thesis using step accounts_pass_gate [OF a] by (auto split: option.splits if_splits)
next
  case (FnReturns i v now gnow)
  then show ?thesis using step accounts_returns [OF a] by (auto split: option.splits shield_phase.splits)
next
  case (FnRaises i x gnow r now)
  then show ?thesis using step accounts_raises [OF a] by (auto split: option.splits shield_phase.splits)
next
  case (Wake i)
  then obtain c d where c: "call_at s i = Some c" "ca_phase c = BackingOff d" and
    s1: "s1 = put_call i (c\<lparr>ca_attempt := ca_attempt c + 1, ca_phase := AtGate\<rparr>) s"
    using step by (auto split: option.splits shield_phase.splits)
  note k = accounts_call [OF a c(1)]
  have "accounts ((sh_states s)[ca_state c := sh_states s ! ca_state c]) ((sh_calls s)[i := c\<lparr>ca_attempt := ca_attempt c + 1, ca_phase := AtGate\<rparr>])"
    using k c by (intro accounts_exchange [OF a k(4)]) (auto simp: call_ok_def drawn_def MAX_ATTEMPTS_def)
  then show ?thesis by (simp add: s1)
next
  case (CacheAnswers i r now)
  then obtain c k x n where c: "call_at s i = Some c" "ca_phase c = ReadingCache k x n" and s1: "s1 = cache_answers i r now x n c s"
    using step by (auto split: option.splits shield_phase.splits)
  note k = accounts_call [OF a c(1)]
  have m: "accounts (sh_states s) ((sh_calls s)[i := set_phase p c])" if "\<not> succeeded p" "\<forall>d. p \<noteq> BackingOff d" for p
    using accounts_phase [OF a k(4), of p] that k c by (auto simp: call_ok_def)
  have "\<not> succeeded (without_cache cf x n) \<and> (\<forall>d. without_cache cf x n \<noteq> BackingOff d)" for cf :: "'a shield_config"
    by (simp add: without_cache_def)
  then have "accounts (sh_states s) ((sh_calls s)[i := set_phase (without_cache (ss_config (sh_states s ! ca_state c)) x n) c])"
    by (intro m) blast+
  then show ?thesis using m [of "Recovered v" for v] m [of "Raised y None" for y] unfolding s1
    by (auto simp: cache_answers_def Let_def split: sum.split option.split)
next
  case (FallbackEnds i r)
  then obtain c x where c: "call_at s i = Some c" "ca_phase c = InFallback x" and s1: "s1 = fallback_ends i r c s"
    using step by (auto split: option.splits shield_phase.splits)
  note k = accounts_call [OF a c(1)]
  show ?thesis using accounts_phase [OF a k(4)] k c unfolding s1 by (auto simp: fallback_ends_def call_ok_def split: sum.split)
next
  case (Cancelled i y)
  then obtain c where c: "call_at s i = Some c" "suspended (ca_phase c)" and s1: "s1 = put_call i (set_phase (Raised y None) c) s"
    using step by (auto split: option.splits if_splits)
  note k = accounts_call [OF a c(1)]
  have "\<not> succeeded (ca_phase c)" using c(2) by (cases "ca_phase c") auto
  then show ?thesis using accounts_phase [OF a k(4), of "Raised y None"] k unfolding s1 by simp
next
  case (WriteEnds j r now)
  then show ?thesis using step a by (auto split: if_splits)
next
  case (Reconfigure cfg now)
  then show ?thesis using step accounts_reconfigure [OF a] by auto
qed

lemma accounts_run: "shield_run H es s = Some s1 \<Longrightarrow> accounts (sh_states s) (sh_calls s) \<Longrightarrow> accounts (sh_states s1) (sh_calls s1)"
  by (induction es arbitrary: s) (auto split: option.splits dest: accounts_step)

lemma accounts_setup: "shield_setup name cfg now = Inr s \<Longrightarrow> accounts (sh_states s) (sh_calls s)"
  by (cases "build_state cfg now") (auto simp: shield_setup_def accounts_def dest!: build_state_ok)

lemma drawn_total:
  "sum_list (map (drawn_from g) cs) =
     int (sum_list (map ca_retries (filter (\<lambda>c. ca_state c = g \<and> \<not> succeeded (ca_phase c)) cs))) -
     int (length (filter (\<lambda>c. ca_state c = g \<and> succeeded (ca_phase c) \<and> ca_retries c = 0) cs))"
  by (induction cs) (auto simp: drawn_from_def drawn_def)

text \<open>
  C27. In any run of any number of calls through a shield, with reconfigurations and cancellations: a call invokes the
  function at most 4 times, and the calls of one snapshot that have not succeeded have together made at most as many
  attempts as there are of them, the failure budget of the profile, and the calls that succeeded at once.
\<close>

theorem shield_retries_bounded:
  assumes "shield_setup name cfg t0 = Inr s0" "shield_run H es s0 = Some s" "g < length (sh_states s)"
  shows "(\<forall>c \<in> set (sh_calls s). ca_attempt c \<le> 4) \<and>
    int (sum_list (map ca_attempt (filter (\<lambda>c. ca_state c = g \<and> \<not> succeeded (ca_phase c)) (sh_calls s)))) \<le>
      int (length (filter (\<lambda>c. ca_state c = g \<and> \<not> succeeded (ca_phase c)) (sh_calls s))) +
      sp_failures (sc_profile (ss_config (sh_states s ! g))) +
      int (length (filter (\<lambda>c. ca_state c = g \<and> succeeded (ca_phase c) \<and> ca_retries c = 0) (sh_calls s)))"
proof -
  have a: "accounts (sh_states s) (sh_calls s)" by (rule accounts_run [OF assms(2) accounts_setup [OF assms(1)]])
  have ok: "call_ok (length (sh_states s)) c" if "c \<in> set (sh_calls s)" for c using a that by (simp add: accounts_def)
  let ?f = "filter (\<lambda>c. ca_state c = g \<and> \<not> succeeded (ca_phase c)) (sh_calls s)"
  have "sum_list (map ca_attempt ?f) \<le> sum_list (map (\<lambda>c. ca_retries c + 1) ?f)" using ok by (intro sum_list_mono) (auto simp: call_ok_def)
  moreover have "sum_list (map (\<lambda>c. ca_retries c + 1) xs) = sum_list (map ca_retries xs) + length xs" for xs :: "('a, 'b) shield_call list"
    by (induction xs) auto
  ultimately have "sum_list (map ca_attempt ?f) \<le> sum_list (map ca_retries ?f) + length ?f" by simp
  moreover have "sum_list (map (drawn_from g) (sh_calls s)) \<le> sp_failures (sc_profile (ss_config (sh_states s ! g)))"
    using a assms(3) by (auto simp: accounts_def budget_ok_def)
  ultimately show ?thesis using ok unfolding drawn_total by (auto simp: call_ok_def MAX_ATTEMPTS_def)
qed

definition slow_shield :: "nat shield_config" where
  "slow_shield = \<lparr>sc_profile = SlowShieldConfig, sc_timeout_errors = [''TimeoutError''], sc_max_rate = None, sc_cache = False, sc_cache_key = None, sc_fallback = False\<rparr>"

definition timed_out :: py_raised where
  "timed_out = Exc timeout_mro [] None"

definition slow_start :: "(nat, nat) shield" where
  "slow_start = (case shield_setup ''db'' slow_shield 0 of Inr s \<Rightarrow> s)"

lemmas shield_eval = slow_start_def slow_shield_def shield_setup_def build_state_def SlowShieldConfig_def retry_budget_init_def
  adaptive_gate_init_def estimator_init_def effective_timeout_errors_def timeout_mro_def timed_out_def Let_def

definition shield_example :: "(nat, nat) shield_event list" where
  "shield_example = [Enter 7 0, PassGate 0 0 0, FnRaises 0 timed_out 120 (1 / 2) 120, Wake 0]"

lemma slow_setup: "shield_setup ''db'' slow_shield 0 = Inr slow_start"
  by (simp add: shield_eval)

lemma shield_example_runs: "\<exists>s. shield_run (\<lambda>_. []) shield_example slow_start = Some s \<and> map ca_attempt (sh_calls s) = [2] \<and> length (sh_states s) = 1"
  by (simp add: shield_example_def shield_eval enter_call_def call_at_def pass_gate_def gate_acquire_def put_call_def put_state_def fn_raises_def
    is_instance_def budget_try_acquire_def MAX_ATTEMPTS_def)

theorem shield_retries_bounded_witness:
  "\<exists>s. shield_run (\<lambda>_. []) shield_example slow_start = Some s \<and> (\<forall>c \<in> set (sh_calls s). ca_attempt c \<le> 4) \<and>
    int (sum_list (map ca_attempt (filter (\<lambda>c. ca_state c = 0 \<and> \<not> succeeded (ca_phase c)) (sh_calls s)))) \<le>
      int (length (filter (\<lambda>c. ca_state c = 0 \<and> \<not> succeeded (ca_phase c)) (sh_calls s))) +
      sp_failures (sc_profile (ss_config (sh_states s ! 0))) +
      int (length (filter (\<lambda>c. ca_state c = 0 \<and> succeeded (ca_phase c) \<and> ca_retries c = 0) (sh_calls s)))"
proof -
  obtain s where s: "shield_run (\<lambda>_. []) shield_example slow_start = Some s" "length (sh_states s) = 1" using shield_example_runs by blast
  show ?thesis using shield_retries_bounded [OF slow_setup s(1), of 0] s by auto
qed

section \<open>The gate in front of all calls\<close>

text \<open>What the gate of snapshot \<open>g\<close> is told by an event, and how many calls the event lets into the function.\<close>

definition of_state :: "nat \<Rightarrow> nat \<Rightarrow> ('a, 'v) shield \<Rightarrow> bool" where
  "of_state g i s \<longleftrightarrow> (case call_at s i of Some c \<Rightarrow> ca_state c = g | None \<Rightarrow> False)"

fun gate_told :: "nat \<Rightarrow> ('a, 'v) shield_event \<Rightarrow> ('a, 'v) shield \<Rightarrow> (seconds \<times> gate_event) list" where
  "gate_told g (PassGate i now start) s = (if of_state g i s then [(now, Pass)] else [])"
| "gate_told g (FnReturns i v now gnow) s = (if of_state g i s then [(gnow, Succeeded)] else [])"
| "gate_told g (FnRaises i x gnow r now) s =
     (if of_state g i s \<and> \<not> is_instance x [''ResilienceError''] \<and> is_instance x [''Exception''] \<and> is_instance x (ss_errors (sh_states s ! g))
      then [(gnow, SlowedDown)] else [])"
| "gate_told g _ s = []"

fun gate_trace :: "('a \<Rightarrow> string) \<Rightarrow> nat \<Rightarrow> ('a, 'v) shield_event list \<Rightarrow> ('a, 'v) shield \<Rightarrow> (seconds \<times> gate_event) list" where
  "gate_trace H g [] s = []"
| "gate_trace H g (e # es) s = gate_told g e s @ (case shield_step H e s of None \<Rightarrow> [] | Some s1 \<Rightarrow> gate_trace H g es s1)"

fun is_calling :: "'v shield_phase \<Rightarrow> bool" where
  "is_calling (Calling a b) = True"
| "is_calling _ = False"

fun invoked :: "nat \<Rightarrow> ('a, 'v) shield_event \<Rightarrow> ('a, 'v) shield \<Rightarrow> ('a, 'v) shield \<Rightarrow> nat" where
  "invoked g (PassGate i now start) s s1 = (if of_state g i s \<and> is_calling (ca_phase (sh_calls s1 ! i)) then 1 else 0)"
| "invoked g _ s s1 = 0"

text \<open>The invocations of the function by the calls of snapshot \<open>g\<close> in a run.\<close>

fun invocations :: "('a \<Rightarrow> string) \<Rightarrow> nat \<Rightarrow> ('a, 'v) shield_event list \<Rightarrow> ('a, 'v) shield \<Rightarrow> nat" where
  "invocations H g [] s = 0"
| "invocations H g (e # es) s = (case shield_step H e s of None \<Rightarrow> 0 | Some s1 \<Rightarrow> invoked g e s s1 + invocations H g es s1)"

lemma gate_run_append: "gate_run (xs @ ys) g = (let (n, g1) = gate_run xs g; (m, g2) = gate_run ys g1 in (n + m, g2))"
  by (induction xs arbitrary: g) (auto simp: Let_def split: prod.splits)

lemma give_up_states [simp]: "sh_states (give_up H i why x now c s) = sh_states s"
  by (simp add: give_up_def Let_def)

lemma call_at_nth: "call_at s i = Some c \<Longrightarrow> i < length (sh_calls s) \<and> sh_calls s ! i = c"
  by (auto simp: call_at_def split: if_splits)

lemma states_grow: "shield_step H e s = Some s1 \<Longrightarrow> length (sh_states s) \<le> length (sh_states s1)"
  by (cases e) (auto simp: enter_call_def pass_gate_def fn_returns_def fn_raises_def cache_answers_def fallback_ends_def
    shield_apply_reconfigure_def Let_def split: option.splits if_splits shield_phase.splits prod.splits sum.splits bool.splits)

lemma states_grow_run: "shield_run H es s = Some s1 \<Longrightarrow> length (sh_states s) \<le> length (sh_states s1)"
proof (induction es arbitrary: s)
  case (Cons e es)
  then obtain s2 where "shield_step H e s = Some s2" "shield_run H es s2 = Some s1" by (auto split: option.splits)
  then show ?case using Cons.IH states_grow by (meson order_trans)
qed simp

text \<open>An event changes the gate of a snapshot as what it is told says.\<close>

lemma gate_told_pass:
  assumes g: "g < length (sh_states s)" and step: "shield_step H (PassGate i now start) s = Some s1"
  shows "gate_run (gate_told g (PassGate i now start) s) (ss_gate (sh_states s ! g)) = (invoked g (PassGate i now start) s s1, ss_gate (sh_states s1 ! g))"
proof -
  obtain c where c: "call_at s i = Some c" "ca_phase c = AtGate" and s1: "s1 = pass_gate i now start c s"
    using step by (auto split: option.splits if_splits)
  note k = call_at_nth [OF c(1)]
  obtain w g' where w: "gate_acquire now (ss_gate (sh_states s ! ca_state c)) = (w, g')" by fastforce
  show ?thesis
  proof (cases "ca_state c = g")
    case True
    then show ?thesis using g c k w unfolding s1 by (cases w) (auto simp: of_state_def pass_gate_def Let_def)
  next
    case False
    then show ?thesis using c k w unfolding s1 by (cases w) (auto simp: of_state_def pass_gate_def Let_def)
  qed
qed

lemma gate_told_returns:
  assumes g: "g < length (sh_states s)" and step: "shield_step H (FnReturns i v now gnow) s = Some s1"
  shows "ss_gate (sh_states s1 ! g) = (if of_state g i s then gate_on_success gnow (ss_gate (sh_states s ! g)) else ss_gate (sh_states s ! g))"
proof -
  obtain c start t where c: "call_at s i = Some c" and s1: "s1 = fn_returns H i v start now gnow c s"
    using step by (auto split: option.splits shield_phase.splits)
  show ?thesis using g c unfolding s1
    by (cases "compute_key H (sh_name s) (ss_config (sh_states s ! ca_state c)) (ca_args c)") (auto simp: of_state_def fn_returns_def Let_def nth_list_update)
qed

lemma gate_told_raises:
  assumes g: "g < length (sh_states s)" and step: "shield_step H (FnRaises i x gnow r now) s = Some s1"
  shows "ss_gate (sh_states s1 ! g) =
    (if of_state g i s \<and> \<not> is_instance x [''ResilienceError''] \<and> is_instance x [''Exception''] \<and> is_instance x (ss_errors (sh_states s ! g))
     then gate_on_slow_down gnow (ss_gate (sh_states s ! g)) else ss_gate (sh_states s ! g))"
proof -
  obtain c where c: "call_at s i = Some c" and s1: "s1 = fn_raises H i x gnow r now c s"
    using step by (auto split: option.splits shield_phase.splits)
  show ?thesis using g c unfolding s1
    by (cases "ca_state c = g") (auto simp: of_state_def fn_raises_def Let_def budget_try_acquire_def)
qed

lemma gate_told_step:
  assumes g: "g < length (sh_states s)" and step: "shield_step H e s = Some s1"
  shows "gate_run (gate_told g e s) (ss_gate (sh_states s ! g)) = (invoked g e s s1, ss_gate (sh_states s1 ! g))"
proof (cases e)
  case (PassGate i now start)
  then show ?thesis using gate_told_pass [OF g] step by blast
next
  case (FnReturns i v now gnow)
  then show ?thesis using gate_told_returns [OF g step [unfolded FnReturns]] by simp
next
  case (FnRaises i x gnow r now)
  then show ?thesis using gate_told_raises [OF g step [unfolded FnRaises]] by simp
next
  case (Reconfigure cfg now)
  then show ?thesis using g step by (auto simp: shield_apply_reconfigure_def nth_append split: sum.splits)
next
  case (CacheAnswers i r now)
  then show ?thesis using step by (auto simp: cache_answers_def Let_def split: option.splits shield_phase.splits sum.splits)
qed (use step in \<open>auto simp: enter_call_def fallback_ends_def split: option.splits shield_phase.splits if_splits\<close>)

lemma gate_trace_run:
  assumes "g < length (sh_states s)" "shield_run H es s = Some s1"
  shows "gate_run (gate_trace H g es s) (ss_gate (sh_states s ! g)) = (invocations H g es s, ss_gate (sh_states s1 ! g))"
  using assms
proof (induction es arbitrary: s)
  case (Cons e es)
  obtain s2 where s2: "shield_step H e s = Some s2" "shield_run H es s2 = Some s1" using Cons.prems(2) by (auto split: option.splits)
  have "g < length (sh_states s2)" using Cons.prems(1) states_grow [OF s2(1)] by simp
  then show ?case using Cons.IH [OF _ s2(2)] gate_told_step [OF Cons.prems(1) s2(1)] s2(1) by (simp add: gate_run_append)
qed simp

text \<open>
  Once a slow-down has engaged the gate of a shield with a ceiling, all its calls together invoke the function in any
  period at most the burst capacity of the profile and \<open>max_rate\<close> times per second, first attempts and retries alike.
\<close>

theorem shield_rate_ceiling:
  assumes "shield_setup name cfg t0 = Inr s0" "sc_max_rate cfg = Some m"
    and "shield_run H es s0 = Some s" "gate_times t0 (gate_trace H 0 es s0) u" "ag_enabled (ss_gate (sh_states s ! 0))"
    and "shield_run H es' s = Some s'" "gate_times u (gate_trace H 0 es' s) T"
  shows "real (invocations H 0 es' s) \<le> sp_burst (sc_profile cfg) + m * (T - u)"
proof -
  obtain h where h: "build_state cfg t0 = Inr h" "sh_states s0 = [h]" using assms(1) by (cases "build_state cfg t0") (auto simp: shield_setup_def)
  have n: "0 < length (sh_states s)" using states_grow_run [OF assms(3)] h(2) by (simp add: Suc_le_eq)
  have g0: "gate_ok t0 (ss_gate h)" "ag_cap (ss_gate h) = Some m" "ag_capacity (ss_gate h) = sp_burst (sc_profile cfg)"
    using build_state_ok [OF h(1)] assms(2) by auto
  have r: "gate_run (gate_trace H 0 es s0) (ss_gate h) = (invocations H 0 es s0, ss_gate (sh_states s ! 0))"
    using gate_trace_run [OF _ assms(3), of 0] h(2) by simp
  have g: "gate_ok u (ss_gate (sh_states s ! 0))" "ag_cap (ss_gate (sh_states s ! 0)) = Some m" "ag_capacity (ss_gate (sh_states s ! 0)) = sp_burst (sc_profile cfg)"
    using gate_run_ok [OF g0(1) assms(4) r] g0 by auto
  show ?thesis using gate_run_bound [OF g(1) assms(7) gate_trace_run [OF n assms(6)] assms(5) g(2)] gate_level_bounds [OF g(1)] g(3) by simp
qed

definition capped_shield :: "nat shield_config" where
  "capped_shield = slow_shield\<lparr>sc_max_rate := Some 1\<rparr>"

definition capped_start :: "(nat, nat) shield" where
  "capped_start = (case shield_setup ''db'' capped_shield 0 of Inr s \<Rightarrow> s)"

lemma capped_setup: "shield_setup ''db'' capped_shield 0 = Inr capped_start"
  by (simp add: capped_start_def capped_shield_def shield_eval)

lemma capped_runs:
  assumes "shield_run (\<lambda>_. []) shield_example capped_start = Some s"
  shows "ag_enabled (ss_gate (sh_states s ! 0))" "gate_trace (\<lambda>_. []) 0 shield_example capped_start = [(0, Pass), (120, SlowedDown)]"
    "shield_run (\<lambda>_. []) [PassGate 0 130 130] s \<noteq> None" "gate_trace (\<lambda>_. []) 0 [PassGate 0 130 130] s = [(130, Pass)]"
  using assms
  by (auto simp: shield_example_def capped_start_def capped_shield_def shield_eval enter_call_def call_at_def pass_gate_def gate_acquire_def put_call_def put_state_def
    fn_raises_def is_instance_def budget_try_acquire_def MAX_ATTEMPTS_def gate_on_slow_down_def apply_rate_def of_state_def split: option.split)

theorem shield_rate_ceiling_witness:
  "\<exists>s s'. shield_run (\<lambda>_. []) shield_example capped_start = Some s \<and> shield_run (\<lambda>_. []) [PassGate 0 130 130] s = Some s' \<and>
    real (invocations (\<lambda>_. []) 0 [PassGate 0 130 130] s) \<le> sp_burst (sc_profile capped_shield) + 1 * (130 - 120)"
proof -
  have "shield_run (\<lambda>_. []) shield_example capped_start \<noteq> None"
    by (simp add: shield_example_def capped_start_def capped_shield_def shield_eval enter_call_def call_at_def pass_gate_def gate_acquire_def put_call_def put_state_def
      fn_raises_def is_instance_def budget_try_acquire_def MAX_ATTEMPTS_def)
  then obtain s where s: "shield_run (\<lambda>_. []) shield_example capped_start = Some s" by blast
  note r = capped_runs [OF s]
  obtain s' where s': "shield_run (\<lambda>_. []) [PassGate 0 130 130] s = Some s'" using r(3) by blast
  have "real (invocations (\<lambda>_. []) 0 [PassGate 0 130 130] s) \<le> sp_burst (sc_profile capped_shield) + 1 * (130 - 120)"
  proof (rule shield_rate_ceiling [OF capped_setup _ s _ r(1) s'])
    show "gate_times 0 (gate_trace (\<lambda>_. []) 0 shield_example capped_start) 120" by (simp add: r(2))
    show "gate_times 120 (gate_trace (\<lambda>_. []) 0 [PassGate 0 130 130] s) 130" unfolding r(4) by simp
  qed (simp add: capped_shield_def)
  then show ?thesis using s s' by blast
qed

section \<open>Every call ends\<close>

text \<open>How many steps a call has left, waits in the gate apart.\<close>

fun phase_rank :: "'v shield_phase \<Rightarrow> nat" where
  "phase_rank AtGate = 4"
| "phase_rank (Calling a b) = 3"
| "phase_rank (BackingOff d) = 2"
| "phase_rank (ReadingCache k x n) = 2"
| "phase_rank (InFallback x) = 1"
| "phase_rank _ = 0"

definition call_rank :: "('a, 'v) shield_call \<Rightarrow> nat" where
  "call_rank c = (case ca_phase c of AtGate \<Rightarrow> 3 * (MAX_ATTEMPTS - ca_attempt c) | Calling a b \<Rightarrow> 3 * (MAX_ATTEMPTS - ca_attempt c)
     | BackingOff d \<Rightarrow> 3 * (MAX_ATTEMPTS - ca_attempt c) | _ \<Rightarrow> 0) + phase_rank (ca_phase c)"

lemma call_rank_at:
  "ca_phase c = AtGate \<Longrightarrow> call_rank c = 3 * (MAX_ATTEMPTS - ca_attempt c) + 4"
  "ca_phase c = Calling a b \<Longrightarrow> call_rank c = 3 * (MAX_ATTEMPTS - ca_attempt c) + 3"
  "ca_phase c = BackingOff d \<Longrightarrow> call_rank c = 3 * (MAX_ATTEMPTS - ca_attempt c) + 2"
  "ca_phase c = ReadingCache k x n \<Longrightarrow> call_rank c = 2"
  "ca_phase c = InFallback x \<Longrightarrow> call_rank c = 1"
  by (simp_all add: call_rank_def)

lemma call_rank_set [simp]:
  "call_rank (set_phase (Calling a b) c) = 3 * (MAX_ATTEMPTS - ca_attempt c) + 3"
  "call_rank (set_phase (InFallback x) c) = 1"
  "call_rank (set_phase (Recovered v) c) = 0" "call_rank (set_phase (Raised x m) c) = 0"
  "call_rank (set_phase (Returned v) c) = 0" "call_rank (set_phase (KeyFailed x) c) = 0"
  by (simp_all add: call_rank_def)

lemma give_up_calls:
  "\<exists>q. phase_rank q \<le> 2 \<and> (\<forall>d. q \<noteq> BackingOff d) \<and> sh_calls (give_up H j why x now c s) = (sh_calls s)[j := set_phase q c]"
proof -
  have "phase_rank (handle_give_up H n cfg args x nt) \<le> 2 \<and> (\<forall>d. handle_give_up H n cfg args x nt \<noteq> BackingOff d)" for n cfg args nt
    by (auto simp: handle_give_up_def without_cache_def split: sum.split)
  then show ?thesis unfolding give_up_def Let_def put_fields by blast
qed

lemma low_rank: "phase_rank q \<le> 2 \<Longrightarrow> \<forall>d. q \<noteq> BackingOff d \<Longrightarrow> call_rank (set_phase q c) \<le> 2"
  by (cases q) (auto simp: call_rank_def)

text \<open>A step changes at most one call, and that one gets nearer to its end.\<close>

lemma raises_rank:
  assumes ok: "call_ok n c" and p: "ca_phase c = Calling a b"
  shows "\<exists>c'. sh_calls (fn_raises H j x gnow r now c s) = (sh_calls s)[j := c'] \<and> call_rank c' < call_rank c"
proof -
  have three: "3 \<le> call_rank c" by (simp add: call_rank_def p)
  have up: "\<exists>c'. sh_calls (give_up H j why x now c s1) = (sh_calls s)[j := c'] \<and> call_rank c' < call_rank c"
    if eq: "sh_calls s1 = sh_calls s" for why s1
  proof -
    obtain q where q: "phase_rank q \<le> 2" "\<forall>d. q \<noteq> BackingOff d" "sh_calls (give_up H j why x now c s1) = (sh_calls s)[j := set_phase q c]"
      using give_up_calls [of H j why x now c s1] eq by auto
    then show ?thesis using low_rank [OF q(1,2), of c] three by auto
  qed
  have raw: "call_rank (set_phase (Raised x None) c) < call_rank c" using three by simp
  let ?h = "sh_states s ! ca_state c"
  consider "is_instance x [''ResilienceError''] \<or> \<not> is_instance x [''Exception'']"
    | "\<not> is_instance x [''ResilienceError'']" "is_instance x [''Exception'']" "\<not> is_instance x (ss_errors ?h) \<or> MAX_ATTEMPTS \<le> ca_attempt c \<or> rb_available (ss_budget ?h) \<le> 0"
    | "\<not> is_instance x [''ResilienceError'']" "is_instance x [''Exception'']" "is_instance x (ss_errors ?h)" "\<not> MAX_ATTEMPTS \<le> ca_attempt c" "\<not> rb_available (ss_budget ?h) \<le> 0"
    by blast
  then show ?thesis
  proof cases
    case 1
    then show ?thesis using raw by (intro exI [of _ "set_phase (Raised x None) c"]) (auto simp: fn_raises_def Let_def)
  next
    case 2
    then show ?thesis using up by (auto simp: fn_raises_def Let_def budget_try_acquire_def)
  next
    case 3
    then show ?thesis using p
      by (intro exI [of _ "c\<lparr>ca_retries := ca_retries c + 1, ca_phase := BackingOff (backoff_for ?h (ca_attempt c) r)\<rparr>"])
        (simp add: fn_raises_def Let_def budget_try_acquire_def call_rank_def)
  qed
qed

lemma rank_step:
  assumes a: "accounts (sh_states s) (sh_calls s)" and step: "shield_step H e s = Some s1" and i: "i < length (sh_calls s)"
  shows "i < length (sh_calls s1) \<and> (sh_calls s1 ! i = sh_calls s ! i \<or> call_rank (sh_calls s1 ! i) < call_rank (sh_calls s ! i))"
proof -
  have upd: ?thesis if "sh_calls s1 = (sh_calls s)[j := c']" "call_at s j = Some c" "call_rank c' < call_rank c" for j c c'
    using that i call_at_nth [OF that(2)] by (cases "j = i") auto
  show ?thesis
  proof (cases e)
    case (Enter args now)
    then show ?thesis using step i by (auto simp: enter_call_def nth_append)
  next
    case (PassGate j now start)
    then obtain c where c: "call_at s j = Some c" "ca_phase c = AtGate" and s1: "s1 = pass_gate j now start c s"
      using step by (auto split: option.splits if_splits)
    have "sh_calls s1 = sh_calls s \<or> (\<exists>t. sh_calls s1 = (sh_calls s)[j := set_phase (Calling start t) c])"
      unfolding s1 by (auto simp: pass_gate_def Let_def split: prod.split option.split)
    then show ?thesis
    proof
      assume "\<exists>t. sh_calls s1 = (sh_calls s)[j := set_phase (Calling start t) c]"
      then obtain t where t: "sh_calls s1 = (sh_calls s)[j := set_phase (Calling start t) c]" ..
      show ?thesis using upd [OF t c(1)] call_rank_at(1) [OF c(2)] by simp
    qed (use i in simp)
  next
    case (FnReturns j v now gnow)
    then obtain c start t where c: "call_at s j = Some c" "ca_phase c = Calling start t" and s1: "s1 = fn_returns H j v start now gnow c s"
      using step by (auto split: option.splits shield_phase.splits)
    have "\<exists>p. succeeded p \<and> sh_calls s1 = (sh_calls s)[j := set_phase p c]"
      unfolding s1 fn_returns_def Let_def by (auto split: sum.split intro: exI [of _ "Returned v"] exI [of _ "KeyFailed y" for y])
    then obtain p where p: "succeeded p" "sh_calls s1 = (sh_calls s)[j := set_phase p c]" by blast
    have "call_rank (set_phase p c) = 0" using p(1) by (cases p) (auto simp: call_rank_def)
    then show ?thesis using upd [OF p(2) c(1)] call_rank_at(2) [OF c(2)] by simp
  next
    case (FnRaises j x gnow r now)
    then obtain c start t where c: "call_at s j = Some c" "ca_phase c = Calling start t" and s1: "s1 = fn_raises H j x gnow r now c s"
      using step by (auto split: option.splits shield_phase.splits)
    show ?thesis using raises_rank [OF accounts_call(1) [OF a c(1)] c(2), of H j x gnow r now s] upd [OF _ c(1)] unfolding s1 by blast
  next
    case (Wake j)
    then obtain c d where c: "call_at s j = Some c" "ca_phase c = BackingOff d" and
      s1: "s1 = put_call j (c\<lparr>ca_attempt := ca_attempt c + 1, ca_phase := AtGate\<rparr>) s"
      using step by (auto split: option.splits shield_phase.splits)
    have "ca_attempt c < MAX_ATTEMPTS" using accounts_call(1) [OF a c(1)] c(2) by (auto simp: call_ok_def)
    then show ?thesis using upd [OF _ c(1)] c(2) unfolding s1 by (simp add: call_rank_def)
  next
    case (CacheAnswers j r now)
    then obtain c k x n where c: "call_at s j = Some c" "ca_phase c = ReadingCache k x n" and s1: "s1 = cache_answers j r now x n c s"
      using step by (auto split: option.splits shield_phase.splits)
    have "\<exists>p. call_rank (set_phase p c) \<le> 1 \<and> sh_calls s1 = (sh_calls s)[j := set_phase p c]"
      unfolding s1 cache_answers_def Let_def without_cache_def
      by (auto split: sum.split option.split intro: exI [of _ "Recovered v" for v] exI [of _ "InFallback x"] exI [of _ "Raised y m" for y m])
    then obtain p where p: "call_rank (set_phase p c) \<le> 1" "sh_calls s1 = (sh_calls s)[j := set_phase p c]" by blast
    show ?thesis using upd [OF p(2) c(1)] p(1) call_rank_at(4) [OF c(2)] by simp
  next
    case (FallbackEnds j r)
    then obtain c x where c: "call_at s j = Some c" "ca_phase c = InFallback x" and s1: "s1 = fallback_ends j r c s"
      using step by (auto split: option.splits shield_phase.splits)
    have "call_rank (set_phase (case r of Inr v \<Rightarrow> Recovered v | Inl y \<Rightarrow> Raised y None) c) = 0" by (simp split: sum.split)
    then show ?thesis using upd [OF _ c(1)] call_rank_at(5) [OF c(2)] unfolding s1 fallback_ends_def by simp
  next
    case (Cancelled j y)
    then obtain c where c: "call_at s j = Some c" "suspended (ca_phase c)" and s1: "s1 = put_call j (set_phase (Raised y None) c) s"
      using step by (auto split: option.splits if_splits)
    have "0 < call_rank c" using c(2) by (cases "ca_phase c") (auto simp: call_rank_def)
    then show ?thesis using upd [OF _ c(1)] unfolding s1 by simp
  qed (use step i in \<open>auto simp: shield_apply_reconfigure_def split: if_splits sum.splits\<close>)
qed

text \<open>How often the call \<open>i\<close> changes in a run.\<close>

fun changes_of :: "('a \<Rightarrow> string) \<Rightarrow> nat \<Rightarrow> ('a, 'v) shield_event list \<Rightarrow> ('a, 'v) shield \<Rightarrow> nat" where
  "changes_of H i [] s = 0"
| "changes_of H i (e # es) s =
     (case shield_step H e s of None \<Rightarrow> 0 | Some s1 \<Rightarrow> (if call_at s1 i = call_at s i then 0 else 1) + changes_of H i es s1)"

lemma changes_rank:
  assumes "accounts (sh_states s) (sh_calls s)" "shield_run H es s = Some s1" "i < length (sh_calls s)"
  shows "i < length (sh_calls s1) \<and> changes_of H i es s + call_rank (sh_calls s1 ! i) \<le> call_rank (sh_calls s ! i)"
  using assms
proof (induction es arbitrary: s)
  case (Cons e es)
  then obtain s2 where s2: "shield_step H e s = Some s2" "shield_run H es s2 = Some s1" by (auto split: option.splits)
  note r = rank_step [OF Cons.prems(1) s2(1) Cons.prems(3)]
  have "changes_of H i es s2 + call_rank (sh_calls s1 ! i) \<le> call_rank (sh_calls s2 ! i)" "i < length (sh_calls s1)"
    using Cons.IH [OF accounts_step [OF Cons.prems(1) s2(1)] s2(2)] r by auto
  moreover have "call_at s2 i = call_at s i \<longleftrightarrow> sh_calls s2 ! i = sh_calls s ! i" using r Cons.prems(3) by (simp add: call_at_def)
  ultimately show ?case using r s2(1) by auto
qed simp

text \<open>
  C28. A call that enters a shield makes, whatever happens to it and around it, at most 13 moves until it has ended: four times
  the gate, the function and the pause, then the cache and the fallback. Only waits in the gate are not counted.
\<close>

theorem shield_call_ends:
  assumes "shield_setup name cfg t0 = Inr s0" "shield_run H es s0 = Some s" "shield_run H es' (enter_call args now s) = Some s'"
  shows "changes_of H (length (sh_calls s)) es' (enter_call args now s) + call_rank (sh_calls s' ! length (sh_calls s)) \<le> 13"
proof -
  have a: "accounts (sh_states s) (sh_calls s)" by (rule accounts_run [OF assms(2) accounts_setup [OF assms(1)]])
  have "call_rank (sh_calls (enter_call args now s) ! length (sh_calls s)) = 13"
    by (simp add: enter_call_def nth_append call_rank_def MAX_ATTEMPTS_def)
  then show ?thesis using changes_rank [OF accounts_enter [OF a] assms(3), of "length (sh_calls s)"] by (simp add: enter_call_def)
qed

theorem shield_call_ends_witness:
  "\<exists>s. shield_run (\<lambda>_. []) (tl shield_example) (enter_call 7 0 slow_start) = Some s \<and>
     changes_of (\<lambda>_. []) 0 (tl shield_example) (enter_call 7 0 slow_start) + call_rank (sh_calls s ! 0) \<le> 13"
proof -
  obtain s where "shield_run (\<lambda>_. []) shield_example slow_start = Some s" using shield_example_runs by blast
  then have s: "shield_run (\<lambda>_. []) (tl shield_example) (enter_call 7 0 slow_start) = Some s" by (simp add: shield_example_def)
  have z: "length (sh_calls slow_start) = 0" by (simp add: shield_eval)
  show ?thesis using shield_call_ends [OF slow_setup _ s, of "[]"] s by (simp add: z)
qed

section \<open>Where it differs\<close>

text \<open>
  An exception that is not among the timeout errors is not retried, but it does not propagate unchanged: with a cache that
  holds a value, the caller gets that value and no exception; with a fallback, what the fallback makes of it.
\<close>

theorem shield_hides_other_errors:
  assumes "call_at s i = Some c" "ca_phase c = Calling start t" "sc_cache (ss_config (sh_states s ! ca_state c))"
    and "compute_key H (sh_name s) (ss_config (sh_states s ! ca_state c)) (ca_args c) = Inr k"
    and "is_instance x [''Exception'']" "\<not> is_instance x [''ResilienceError'']" "\<not> is_instance x (ss_errors (sh_states s ! ca_state c))"
  shows "map_option (\<lambda>s1. ca_phase (sh_calls s1 ! i)) (shield_run H [FnRaises i x g r u, CacheAnswers i (Inr (Some v)) w] s) = Some (Recovered v)"
  using assms call_at_nth [OF assms(1)]
  by (simp add: fn_raises_def Let_def give_up_def handle_give_up_def call_at_def cache_answers_def put_call_def)

definition cached_shield :: "nat shield_config" where
  "cached_shield = slow_shield\<lparr>sc_cache := True\<rparr>"

definition cached_start :: "(nat, nat) shield" where
  "cached_start = (case shield_setup ''db'' cached_shield 0 of Inr s \<Rightarrow> s)"

definition wrong_input :: py_raised where
  "wrong_input = Exc [''ValueError'', ''Exception'', ''BaseException'', ''object''] ''bad'' None"

theorem shield_hides_other_errors_witness:
  "map_option (\<lambda>s1. ca_phase (sh_calls s1 ! 0)) (shield_run (\<lambda>_. ''00'') [FnRaises 0 wrong_input 1 0 1, CacheAnswers 0 (Inr (Some 5)) 1]
     (the (shield_run (\<lambda>_. ''00'') [Enter 7 0, PassGate 0 0 0] cached_start))) = Some (Recovered 5)"
  by (rule shield_hides_other_errors [where c = "\<lparr>ca_args = 7, ca_state = 0, ca_started = 0, ca_attempt = 1, ca_retries = 0, ca_phase = Calling 0 120\<rparr>" and start = 0 and t = 120 and k = "''db:00''"])
    (simp_all add: cached_start_def cached_shield_def shield_eval enter_call_def call_at_def pass_gate_def gate_acquire_def put_call_def put_state_def
      estimate_def estimator_clamp_def compute_key_def default_cache_key_def wrong_input_def is_instance_def)

text \<open>
  A \<open>cache_key\<close> that fails turns a success into an exception: the function has returned, its latency is recorded and the
  budget refunded, and the caller gets the exception of \<open>cache_key\<close>.
\<close>

theorem shield_key_error_breaks_success:
  assumes "call_at s i = Some c" "ca_phase c = Calling start t" "sc_cache (ss_config (sh_states s ! ca_state c))"
    and "sc_cache_key (ss_config (sh_states s ! ca_state c)) = Some f" "f (ca_args c) = Inl y"
  shows "map_option (\<lambda>s1. ca_phase (sh_calls s1 ! i)) (shield_step H (FnReturns i v now gnow) s) = Some (KeyFailed y)"
  using assms call_at_nth [OF assms(1)] by (simp add: fn_returns_def Let_def compute_key_def)

theorem shield_key_error_breaks_success_witness:
  "map_option (\<lambda>s1. ca_phase (sh_calls s1 ! 0)) (shield_step (\<lambda>_. ''00'') (FnReturns 0 (5::nat) 1 1)
     (the (shield_run (\<lambda>_. ''00'') [Enter 7 0, PassGate 0 0 0]
       (case shield_setup ''db'' (cached_shield\<lparr>sc_cache_key := Some (\<lambda>_. Inl wrong_input)\<rparr>) 0 of Inr s \<Rightarrow> s)))) = Some (KeyFailed wrong_input)"
  by (rule shield_key_error_breaks_success [where c = "\<lparr>ca_args = 7, ca_state = 0, ca_started = 0, ca_attempt = 1, ca_retries = 0, ca_phase = Calling 0 120\<rparr>" and start = 0 and t = 120 and f = "\<lambda>_. Inl wrong_input"])
    (simp_all add: cached_shield_def shield_eval enter_call_def call_at_def pass_gate_def gate_acquire_def put_call_def put_state_def estimate_def estimator_clamp_def)

text \<open>A ceiling below the floor of the profile is accepted by the configuration and refused when the shield is built.\<close>

lemma shield_ceiling_below_floor: "m < sp_floor (sc_profile cfg) \<Longrightarrow> sc_profile cfg \<in> {InternalShieldConfig, ApiShieldConfig, SlowShieldConfig} \<Longrightarrow>
    sc_max_rate cfg = Some m \<Longrightarrow> build_state cfg now = Inl ValueError"
  by (auto simp: build_state_def Let_def InternalShieldConfig_def ApiShieldConfig_def SlowShieldConfig_def retry_budget_init_def adaptive_gate_init_def)

text \<open>Warnings about the cache are at least 60 seconds apart.\<close>

definition spaced :: "('a, 'v) shield \<Rightarrow> bool" where
  "spaced s \<longleftrightarrow> sorted_wrt (\<lambda>a b. a + CACHE_ERROR_LOG_INTERVAL \<le> b) (sh_warnings s) \<and>
     sh_error_logged_at s = (if sh_warnings s = [] then None else Some (List.last (sh_warnings s)))"

lemma warnings_spaced: "spaced s \<Longrightarrow> spaced (report_cache_error now s)"
proof (cases "sh_warnings s" rule: rev_cases)
  case (snoc ws w)
  moreover assume "spaced s"
  ultimately show ?thesis by (auto simp: spaced_def report_cache_error_def sorted_wrt_append CACHE_ERROR_LOG_INTERVAL_def)
qed (simp add: spaced_def report_cache_error_def)

end
