(* ===== verification/Sql_Rate.thy ===== *)
theory Sql_Rate
  imports Rate_Limiter
begin

text \<open>
  The rate limiters on Postgres and SQLite (\<open>resilience/ratelimiter/postgres.py\<close>, \<open>sqlite.py\<close>): the functions in PL/pgSQL and
  the transactions of the SQLite strategies on a table with one row per key. The locale \<open>rate_simulation\<close> compares
  two strategies: what answers the same call by call answers the same in every run; its interpretations show that in the
  order of the clock both databases answer as the in-memory strategies do, on Postgres up to a limit of \<open>2147483647\<close>: its
  functions return \<open>remaining\<close> as \<open>INT\<close>, and a larger number raises. Beyond that order: a transaction that
  reads its clock, waits for its lock and then runs can be overtaken by one with a later reading. On Postgres the rate
  is kept all the same, on SQLite it is not.
\<close>

section \<open>Strategies that answer alike\<close>

datatype rate_call = Acquire key int | Peek key | Reset key

datatype rate_answer = Answer "py_exc + rate_limit_result" | ResetAnswer "py_exc + unit"

text \<open>The answers of a strategy along timed calls.\<close>

fun rate_run :: "'s rate_ops \<Rightarrow> (seconds \<times> rate_call) list \<Rightarrow> 's \<Rightarrow> rate_answer list" where
  "rate_run S [] s = []"
| "rate_run S ((t, Acquire k c) # xs) s = Answer (fst (rs_acquire S t k c s)) # rate_run S xs (snd (rs_acquire S t k c s))"
| "rate_run S ((t, Peek k) # xs) s = Answer (rs_peek S t k s) # rate_run S xs s"
| "rate_run S ((t, Reset k) # xs) s = ResetAnswer (fst (rs_reset S k s)) # rate_run S xs (snd (rs_reset S k s))"

text \<open>In the order of the clock, with costs that the limiter lets through.\<close>

fun calls_ordered :: "int \<Rightarrow> seconds \<Rightarrow> (seconds \<times> rate_call) list \<Rightarrow> bool" where
  "calls_ordered most s [] = True"
| "calls_ordered most s ((t, x) # xs) = (s \<le> t \<and> (case x of Acquire k c \<Rightarrow> 1 \<le> c \<and> c \<le> most | _ \<Rightarrow> True) \<and> calls_ordered most t xs)"

locale rate_simulation =
  fixes A :: "'a rate_ops" and B :: "'b rate_ops" and clock :: "seconds \<Rightarrow> seconds" and most :: int and sim :: "seconds \<Rightarrow> 'a \<Rightarrow> 'b \<Rightarrow> bool"
  assumes sim_later: "sim t a b \<Longrightarrow> t \<le> t' \<Longrightarrow> sim t' a b"
    and sim_acquire: "sim t a b \<Longrightarrow> 1 \<le> c \<Longrightarrow> c \<le> most \<Longrightarrow>
      fst (rs_acquire B t k c b) = fst (rs_acquire A (clock t) k c a) \<and> sim t (snd (rs_acquire A (clock t) k c a)) (snd (rs_acquire B t k c b))"
    and sim_peek: "sim t a b \<Longrightarrow> rs_peek B t k b = rs_peek A (clock t) k a"
    and sim_reset: "sim t a b \<Longrightarrow> fst (rs_reset B k b) = fst (rs_reset A k a) \<and> sim t (snd (rs_reset A k a)) (snd (rs_reset B k b))"
begin

lemma same_answers: "sim s a b \<Longrightarrow> calls_ordered most s xs \<Longrightarrow> rate_run B xs b = rate_run A (map (apfst clock) xs) a"
proof (induction xs arbitrary: s a b)
  case (Cons x xs)
  obtain t y where x: "x = (t, y)" by (cases x)
  have sim: "sim t a b" using Cons.prems x sim_later by auto
  show ?case
  proof (cases y)
    case (Acquire k c)
    then have c: "1 \<le> c" "c \<le> most" using Cons.prems x by auto
    then show ?thesis using sim_acquire [OF sim c, of k] Cons.IH [of t] Cons.prems(2) x Acquire by auto
  next
    case (Peek k)
    then show ?thesis using sim_peek [OF sim] Cons.IH [OF sim] Cons.prems(2) x by auto
  next
    case (Reset k)
    then show ?thesis using sim_reset [OF sim, of k] Cons.IH [of t] Cons.prems(2) x by auto
  qed
qed simp

end

section \<open>The table\<close>

text \<open>A row per key: the tokens, or the arrival time of a sliding window, and when it was written.\<close>

type_synonym rate_table = "(string, real \<times> seconds) pydict"

definition TB_PREFIX :: string where
  "TB_PREFIX = ''tb:''"

definition GCRA_PREFIX :: string where
  "GCRA_PREFIX = ''gcra:''"

section \<open>Postgres\<close>

definition pg_refilled :: "int \<Rightarrow> real \<Rightarrow> seconds \<Rightarrow> (real \<times> seconds) option \<Rightarrow> real" where
  "pg_refilled capacity rate now row =
     (let (v_tokens, v_last) = (case row of None \<Rightarrow> (real_of_int capacity, now) | Some r \<Rightarrow> r)
      in min (real_of_int capacity) (v_tokens + (now - v_last) * rate))"

text \<open>The answers have \<open>remaining INT\<close>: \<open>FLOOR(...)::INT\<close> raises out of its range, and the transaction leaves the table as it was.\<close>

definition pg_tb_acquire :: "int \<Rightarrow> real \<Rightarrow> seconds \<Rightarrow> string \<Rightarrow> int \<Rightarrow> rate_table \<Rightarrow> (py_exc + rate_limit_result) \<times> rate_table" where
  "pg_tb_acquire capacity rate now key cost tab =
     (let v_new = pg_refilled capacity rate now (dget tab key)
      in if real_of_int cost \<le> v_new
         then if \<not> fits_int \<lfloor>v_new - real_of_int cost\<rfloor> then (Inl DataError, tab)
              else (Inr \<lparr>allowed = True, rl_limit = capacity, remaining = \<lfloor>v_new - real_of_int cost\<rfloor>, retry_after = 0,
                reset_after = (real_of_int capacity - (v_new - real_of_int cost)) / rate\<rparr>, dput key (v_new - real_of_int cost, now) tab)
         else if \<not> fits_int \<lfloor>v_new\<rfloor> then (Inl DataError, tab)
              else (Inr \<lparr>allowed = False, rl_limit = capacity, remaining = \<lfloor>v_new\<rfloor>, retry_after = (real_of_int cost - v_new) / rate,
                reset_after = (real_of_int capacity - v_new) / rate\<rparr>, dput key (v_new, now) tab))"

definition pg_tb_peek :: "int \<Rightarrow> real \<Rightarrow> seconds \<Rightarrow> string \<Rightarrow> rate_table \<Rightarrow> py_exc + rate_limit_result" where
  "pg_tb_peek capacity rate now key tab =
     (let v_new = pg_refilled capacity rate now (dget tab key)
      in if \<not> fits_int \<lfloor>v_new\<rfloor> then Inl DataError
         else if 1 \<le> v_new
         then Inr \<lparr>allowed = True, rl_limit = capacity, remaining = \<lfloor>v_new\<rfloor>, retry_after = 0, reset_after = (real_of_int capacity - v_new) / rate\<rparr>
         else Inr \<lparr>allowed = False, rl_limit = capacity, remaining = \<lfloor>v_new\<rfloor>, retry_after = (1 - v_new) / rate,
               reset_after = (real_of_int capacity - v_new) / rate\<rparr>)"

text \<open>The sliding window keeps the arrival time where the bucket keeps its tokens. The variable \<open>v_remaining\<close> is an \<open>INT\<close>, negative ones included.\<close>

definition pg_gcra_acquire :: "int \<Rightarrow> seconds \<Rightarrow> seconds \<Rightarrow> string \<Rightarrow> int \<Rightarrow> rate_table \<Rightarrow> (py_exc + rate_limit_result) \<times> rate_table" where
  "pg_gcra_acquire limit window now key cost tab =
     (let emission = window / real_of_int limit;
          tat = (case dget tab key of None \<Rightarrow> now | Some (x, u) \<Rightarrow> x);
          new_tat = max tat now + emission * real_of_int cost;
          diff = now - (new_tat - emission * real_of_int limit);
          left = \<lfloor>diff / emission + 1 / 2\<rfloor>
      in if \<not> fits_int left then (Inl DataError, tab)
         else if left < 0
         then (Inr \<lparr>allowed = False, rl_limit = limit, remaining = 0, retry_after = max 0 (- diff), reset_after = max 0 (tat - now)\<rparr>, tab)
         else (Inr \<lparr>allowed = True, rl_limit = limit, remaining = left, retry_after = 0, reset_after = new_tat - now\<rparr>, dput key (new_tat, now) tab))"

definition pg_gcra_peek :: "int \<Rightarrow> seconds \<Rightarrow> seconds \<Rightarrow> string \<Rightarrow> rate_table \<Rightarrow> py_exc + rate_limit_result" where
  "pg_gcra_peek limit window now key tab =
     (let emission = window / real_of_int limit;
          tat = (case dget tab key of None \<Rightarrow> now | Some (x, u) \<Rightarrow> x);
          new_tat = max tat now;
          diff = now - (new_tat - window);
          left = \<lfloor>diff / emission + 1 / 2\<rfloor>
      in if \<not> fits_int left then Inl DataError
         else if left \<le> 0
         then Inr \<lparr>allowed = False, rl_limit = limit, remaining = 0, retry_after = max 0 (if left < 0 then - diff else emission - diff),
               reset_after = max 0 (tat - now)\<rparr>
         else Inr \<lparr>allowed = True, rl_limit = limit, remaining = left, retry_after = 0, reset_after = max 0 (new_tat - now)\<rparr>)"

definition sql_rate_reset :: "string \<Rightarrow> rate_table \<Rightarrow> rate_table" where
  "sql_rate_reset key tab = ddel key tab"

section \<open>SQLite\<close>

text \<open>\<open>elapsed = max(0.0, now - last)\<close>.\<close>

definition sqlite_refill :: "int \<Rightarrow> real \<Rightarrow> real \<Rightarrow> seconds \<Rightarrow> seconds \<Rightarrow> real" where
  "sqlite_refill capacity rate tokens last_at now = min (real_of_int capacity) (tokens + max 0 (now - last_at) * rate)"

definition sqlite_tb_acquire :: "int \<Rightarrow> real \<Rightarrow> seconds \<Rightarrow> string \<Rightarrow> int \<Rightarrow> rate_table \<Rightarrow> rate_limit_result \<times> rate_table" where
  "sqlite_tb_acquire capacity rate now key cost tab =
     (let (tokens0, last_at) = (case dget tab key of None \<Rightarrow> (real_of_int capacity, now) | Some r \<Rightarrow> r);
          tokens = sqlite_refill capacity rate tokens0 last_at now
      in if real_of_int cost \<le> tokens
         then let left = tokens - real_of_int cost
              in (\<lparr>allowed = True, rl_limit = capacity, remaining = py_int left, retry_after = 0,
                   reset_after = (real_of_int capacity - left) / rate\<rparr>, dput key (left, now) tab)
         else (\<lparr>allowed = False, rl_limit = capacity, remaining = py_int tokens, retry_after = (real_of_int cost - tokens) / rate,
                reset_after = (real_of_int capacity - tokens) / rate\<rparr>, dput key (tokens, now) tab))"

definition sqlite_tb_peek :: "int \<Rightarrow> real \<Rightarrow> seconds \<Rightarrow> string \<Rightarrow> rate_table \<Rightarrow> rate_limit_result" where
  "sqlite_tb_peek capacity rate now key tab =
     (let (tokens0, last_at) = (case dget tab key of None \<Rightarrow> (real_of_int capacity, now) | Some r \<Rightarrow> r);
          tokens = sqlite_refill capacity rate tokens0 last_at now
      in if 1 \<le> tokens
         then \<lparr>allowed = True, rl_limit = capacity, remaining = py_int tokens, retry_after = 0, reset_after = (real_of_int capacity - tokens) / rate\<rparr>
         else \<lparr>allowed = False, rl_limit = capacity, remaining = py_int tokens, retry_after = (1 - tokens) / rate,
               reset_after = (real_of_int capacity - tokens) / rate\<rparr>)"

definition sqlite_gcra_acquire :: "int \<Rightarrow> seconds \<Rightarrow> seconds \<Rightarrow> string \<Rightarrow> int \<Rightarrow> rate_table \<Rightarrow> rate_limit_result \<times> rate_table" where
  "sqlite_gcra_acquire limit window now key cost tab =
     (let emission = window / real_of_int limit;
          tat = (case dget tab key of None \<Rightarrow> now | Some (x, u) \<Rightarrow> x);
          new_tat = max tat now + emission * real_of_int cost;
          diff = now - (new_tat - window);
          left = \<lfloor>diff / emission + 1 / 2\<rfloor>
      in if left < 0
         then (\<lparr>allowed = False, rl_limit = limit, remaining = 0, retry_after = max 0 (- diff), reset_after = max 0 (tat - now)\<rparr>, tab)
         else (\<lparr>allowed = True, rl_limit = limit, remaining = left, retry_after = 0, reset_after = new_tat - now\<rparr>, dput key (new_tat, now) tab))"

definition sqlite_gcra_peek :: "int \<Rightarrow> seconds \<Rightarrow> seconds \<Rightarrow> string \<Rightarrow> rate_table \<Rightarrow> rate_limit_result" where
  "sqlite_gcra_peek limit window now key tab =
     (let emission = window / real_of_int limit;
          tat = (case dget tab key of None \<Rightarrow> now | Some (x, u) \<Rightarrow> x);
          new_tat = max tat now;
          diff = now - (new_tat - window);
          left = \<lfloor>diff / emission + 1 / 2\<rfloor>
      in if left \<le> 0
         then \<lparr>allowed = False, rl_limit = limit, remaining = 0, retry_after = max 0 (if left < 0 then - diff else emission - diff),
               reset_after = max 0 (tat - now)\<rparr>
         else \<lparr>allowed = True, rl_limit = limit, remaining = left, retry_after = 0, reset_after = max 0 (new_tat - now)\<rparr>)"

section \<open>Binding\<close>

text \<open>The strategies of a configuration: the calls on the keys with the prefix of the adapter and of the algorithm.\<close>

abbreviation under :: "string \<Rightarrow> (seconds \<Rightarrow> string \<Rightarrow> 'b) \<Rightarrow> seconds \<Rightarrow> key \<Rightarrow> 'b" where
  "under p f \<equiv> \<lambda>t k. f t (p @ k)"

fun postgres_bind :: "string \<Rightarrow> rate_limiter_config \<Rightarrow> rate_table rate_ops" where
  "postgres_bind prefix (TokenBucketConfig capacity rate fo) =
     \<lparr>rs_acquire = under (prefix @ TB_PREFIX) (pg_tb_acquire capacity rate), rs_peek = under (prefix @ TB_PREFIX) (pg_tb_peek capacity rate),
      rs_reset = (\<lambda>k tab. (Inr (), sql_rate_reset (prefix @ TB_PREFIX @ k) tab))\<rparr>"
| "postgres_bind prefix (SlidingWindowConfig limit window fo) =
     \<lparr>rs_acquire = under (prefix @ GCRA_PREFIX) (pg_gcra_acquire limit window), rs_peek = under (prefix @ GCRA_PREFIX) (pg_gcra_peek limit window),
      rs_reset = (\<lambda>k tab. (Inr (), sql_rate_reset (prefix @ GCRA_PREFIX @ k) tab))\<rparr>"

fun sqlite_bind :: "string \<Rightarrow> rate_limiter_config \<Rightarrow> rate_table rate_ops" where
  "sqlite_bind prefix (TokenBucketConfig capacity rate fo) =
     lift_ops (under (prefix @ TB_PREFIX) (sqlite_tb_acquire capacity rate)) (under (prefix @ TB_PREFIX) (sqlite_tb_peek capacity rate)) (\<lambda>k. sql_rate_reset (prefix @ TB_PREFIX @ k))"
| "sqlite_bind prefix (SlidingWindowConfig limit window fo) =
     lift_ops (under (prefix @ GCRA_PREFIX) (sqlite_gcra_acquire limit window)) (under (prefix @ GCRA_PREFIX) (sqlite_gcra_peek limit window)) (\<lambda>k. sql_rate_reset (prefix @ GCRA_PREFIX @ k))"

section \<open>The databases answer as the memory does\<close>

abbreviation mem_bucket :: "int \<Rightarrow> real \<Rightarrow> memory_rate_limiter \<Rightarrow> token_bucket" where
  "mem_bucket capacity rate M \<equiv> \<lparr>tb_capacity = capacity, tb_refill_rate = rate, tb_state = token_bucket_state M\<rparr>"

abbreviation mem_window :: "int \<Rightarrow> seconds \<Rightarrow> memory_rate_limiter \<Rightarrow> gcra" where
  "mem_window limit window M \<equiv> \<lparr>g_limit = limit, g_window = window, g_state = gcra_state M\<rparr>"

text \<open>The arrival time that a row stands for at \<open>t\<close>.\<close>

definition row_due :: "seconds \<Rightarrow> (real \<times> seconds) option \<Rightarrow> real" where
  "row_due t row = (case row of None \<Rightarrow> t | Some (x, u) \<Rightarrow> max x t)"

text \<open>From \<open>t\<close> on the table and the dictionary of the memory stand for the same levels.\<close>

fun table_sim :: "string \<Rightarrow> rate_limiter_config \<Rightarrow> seconds \<Rightarrow> memory_rate_limiter \<Rightarrow> rate_table \<Rightarrow> bool" where
  "table_sim prefix (TokenBucketConfig capacity rate fo) t M tab =
     (tb_ok t (mem_bucket capacity rate M) \<and> (\<forall>k x u. dget tab (prefix @ TB_PREFIX @ k) = Some (x, u) \<longrightarrow> u \<le> t) \<and>
      (\<forall>k t'. t \<le> t' \<longrightarrow> pg_refilled capacity rate t' (dget tab (prefix @ TB_PREFIX @ k)) = tb_level (mem_bucket capacity rate M) k t'))"
| "table_sim prefix (SlidingWindowConfig limit window fo) t M tab =
     (gcra_ok t (mem_window limit window M) \<and>
      (\<forall>k t'. t \<le> t' \<longrightarrow> row_due t' (dget tab (prefix @ GCRA_PREFIX @ k)) = gcra_due (mem_window limit window M) k t'))"

lemma pg_refilled_simps [simp]:
  "pg_refilled capacity rate t None = real_of_int capacity"
  "pg_refilled capacity rate t (Some (x, u)) = min (real_of_int capacity) (x + (t - u) * rate)"
  by (simp_all add: pg_refilled_def)

lemma case_lift [simp]: "(case p of (r, s) \<Rightarrow> (Inr r, f s)) = (Inr (fst p), f (snd p))"
  by (simp add: split_beta)

text \<open>The answer of the bucket as a function of the level, for both roundings of the remainder.\<close>

definition bucket_answer :: "int \<Rightarrow> real \<Rightarrow> int \<Rightarrow> real \<Rightarrow> rate_limit_result" where
  "bucket_answer capacity rate cost level =
     (if real_of_int cost \<le> level
      then \<lparr>allowed = True, rl_limit = capacity, remaining = \<lfloor>level - real_of_int cost\<rfloor>, retry_after = 0,
            reset_after = (real_of_int capacity - (level - real_of_int cost)) / rate\<rparr>
      else \<lparr>allowed = False, rl_limit = capacity, remaining = \<lfloor>level\<rfloor>, retry_after = (real_of_int cost - level) / rate,
            reset_after = (real_of_int capacity - level) / rate\<rparr>)"

definition bucket_after :: "int \<Rightarrow> real \<Rightarrow> real" where
  "bucket_after cost level = (if real_of_int cost \<le> level then level - real_of_int cost else level)"

definition bucket_shown :: "int \<Rightarrow> real \<Rightarrow> real \<Rightarrow> rate_limit_result" where
  "bucket_shown capacity rate level =
     \<lparr>allowed = (1 \<le> level), rl_limit = capacity, remaining = \<lfloor>level\<rfloor>, retry_after = (if 1 \<le> level then 0 else (1 - level) / rate),
      reset_after = (real_of_int capacity - level) / rate\<rparr>"

lemma py_int_floor: "0 \<le> x \<Longrightarrow> py_int x = \<lfloor>x\<rfloor>"
  by (simp add: py_int_def)

lemma py_int_of_int [simp]: "py_int (real_of_int n) = n"
  by (simp add: py_int_def)

lemma memory_bucket_answer:
  assumes "tb_ok t s" "0 \<le> c"
  shows "token_bucket_acquire t k c s =
      (bucket_answer (tb_capacity s) (tb_refill_rate s) c (tb_level s k t), tb_store t k (bucket_after c (tb_level s k t)) s)"
    and "token_bucket_peek t k s = bucket_shown (tb_capacity s) (tb_refill_rate s) (tb_level s k t)"
  using tb_level_bounds(1) [OF assms(1), of k] assms(2)
  by (simp_all add: token_bucket_acquire_def token_bucket_peek_def bucket_answer_def bucket_after_def bucket_shown_def Let_def py_int_floor)

text \<open>SQLite refills as Postgres does while the row is not from the future.\<close>

lemma sqlite_bucket_answer:
  assumes "\<And>x u. dget tab key = Some (x, u) \<Longrightarrow> u \<le> now" "level = pg_refilled capacity rate now (dget tab key)" "0 \<le> level" "0 \<le> c"
  shows "sqlite_tb_acquire capacity rate now key c tab = (bucket_answer capacity rate c level, dput key (bucket_after c level, now) tab)"
    and "sqlite_tb_peek capacity rate now key tab = bucket_shown capacity rate level"
proof -
  have r: "sqlite_refill capacity rate (fst p) (snd p) now = level"
    if "p = (case dget tab key of None \<Rightarrow> (real_of_int capacity, now) | Some r \<Rightarrow> r)" for p
    using assms(1,2) that by (cases "dget tab key") (auto simp: sqlite_refill_def)
  show "sqlite_tb_acquire capacity rate now key c tab = (bucket_answer capacity rate c level, dput key (bucket_after c level, now) tab)"
    using r [OF refl] assms(3,4) unfolding sqlite_tb_acquire_def Let_def case_prod_beta by (auto simp: py_int_floor bucket_answer_def bucket_after_def)
  show "sqlite_tb_peek capacity rate now key tab = bucket_shown capacity rate level"
    using r [OF refl] assms(3) unfolding sqlite_tb_peek_def Let_def case_prod_beta by (auto simp: py_int_floor bucket_shown_def)
qed

text \<open>Postgres gives the same answer, or raises where it does not fit.\<close>

lemma pg_bucket_answer:
  fixes capacity now tab key c rate
  defines "level \<equiv> pg_refilled capacity rate now (dget tab key)"
  shows "pg_tb_acquire capacity rate now key c tab =
      (if fits_int (remaining (bucket_answer capacity rate c level))
       then (Inr (bucket_answer capacity rate c level), dput key (bucket_after c level, now) tab) else (Inl DataError, tab))"
    and "pg_tb_peek capacity rate now key tab =
      (if fits_int (remaining (bucket_shown capacity rate level)) then Inr (bucket_shown capacity rate level) else Inl DataError)"
  by (simp_all add: pg_tb_acquire_def pg_tb_peek_def bucket_answer_def bucket_after_def bucket_shown_def Let_def level_def)

lemma bucket_fits:
  assumes "0 \<le> level" "level \<le> real_of_int capacity" "capacity \<le> 2147483647" "0 \<le> c"
  shows "fits_int (remaining (bucket_answer capacity rate c level))" "fits_int (remaining (bucket_shown capacity rate level))"
proof -
  have f: "fits_int \<lfloor>x\<rfloor>" if "0 \<le> x" "x \<le> real_of_int capacity" for x
  proof -
    have "0 \<le> \<lfloor>x\<rfloor>" "\<lfloor>x\<rfloor> \<le> capacity" using that by (simp, linarith)
    then show ?thesis using assms(3) unfolding fits_int_def by linarith
  qed
  show "fits_int (remaining (bucket_shown capacity rate level))" using f [of level] assms by (simp add: bucket_shown_def)
  show "fits_int (remaining (bucket_answer capacity rate c level))"
    using f [of level] f [of "level - real_of_int c"] assms by (simp add: bucket_answer_def)
qed

lemma bucket_eta: "tb_capacity s = capacity \<Longrightarrow> tb_refill_rate s = rate \<Longrightarrow> \<lparr>tb_capacity = capacity, tb_refill_rate = rate, tb_state = tb_state s\<rparr> = s"
  by auto

lemma window_eta: "g_limit s = limit \<Longrightarrow> g_window s = window \<Longrightarrow> \<lparr>g_limit = limit, g_window = window, g_state = g_state s\<rparr> = s"
  by auto

text \<open>The sliding window as a function of the arrival time that counts.\<close>

definition window_answer :: "int \<Rightarrow> seconds \<Rightarrow> int \<Rightarrow> seconds \<Rightarrow> real \<Rightarrow> rate_limit_result" where
  "window_answer limit window cost now due =
     (let e = window / real_of_int limit; room = now + window - (due + e * real_of_int cost)
      in if \<lfloor>room / e + 1 / 2\<rfloor> < 0 then \<lparr>allowed = False, rl_limit = limit, remaining = 0, retry_after = max 0 (- room), reset_after = due - now\<rparr>
         else \<lparr>allowed = True, rl_limit = limit, remaining = \<lfloor>room / e + 1 / 2\<rfloor>, retry_after = 0, reset_after = due + e * real_of_int cost - now\<rparr>)"

definition window_shown :: "int \<Rightarrow> seconds \<Rightarrow> seconds \<Rightarrow> real \<Rightarrow> rate_limit_result" where
  "window_shown limit window now due =
     (let e = window / real_of_int limit; room = now + window - due; left = \<lfloor>room / e + 1 / 2\<rfloor>
      in if left \<le> 0 then \<lparr>allowed = False, rl_limit = limit, remaining = 0, retry_after = max 0 (if left < 0 then - room else e - room), reset_after = due - now\<rparr>
         else \<lparr>allowed = True, rl_limit = limit, remaining = left, retry_after = 0, reset_after = due - now\<rparr>)"

definition window_store :: "int \<Rightarrow> seconds \<Rightarrow> int \<Rightarrow> seconds \<Rightarrow> string \<Rightarrow> real \<Rightarrow> rate_table \<Rightarrow> rate_table" where
  "window_store limit window cost now key due tab =
     (if allowed (window_answer limit window cost now due) then dput key (due + window / real_of_int limit * real_of_int cost, now) tab else tab)"

lemma window_allowed:
  assumes "0 < limit" "0 < window"
  shows "allowed (window_answer limit window c t due) \<longleftrightarrow> \<not> t + window - (due + window / real_of_int limit * real_of_int c) < - (window / real_of_int limit / 2)"
  using half_neg [of "window / real_of_int limit"] assms by (simp add: window_answer_def Let_def)

lemma memory_window_answer:
  assumes "gcra_ok t s"
  shows "fst (gcra_acquire t k c s) = window_answer (g_limit s) (g_window s) c t (gcra_due s k t)"
    and "gcra_peek t k s = window_shown (g_limit s) (g_window s) t (gcra_due s k t)"
proof -
  note ok = gcra_okD [OF assms]
  show "fst (gcra_acquire t k c s) = window_answer (g_limit s) (g_window s) c t (gcra_due s k t)"
    by (simp add: gcra_acquire_eq [OF assms] window_answer_def Let_def emission_interval_def [symmetric] gcra_room_def half_neg [OF ok(3)])
  have m: "max 0 (dget_or (g_state s) k t - t) = gcra_due s k t - t" by (simp add: gcra_due_def)
  show "gcra_peek t k s = window_shown (g_limit s) (g_window s) t (gcra_due s k t)"
    using gcra_due_ge [of t s k]
    by (simp add: gcra_peek_def window_shown_def Let_def emission_interval_def [symmetric] m gcra_due_def [symmetric] algebra_simps)
qed

lemma row_tat:
  fixes t :: seconds
  defines "tat row \<equiv> (case row of None \<Rightarrow> t | Some (x, u) \<Rightarrow> x)"
  shows "max (tat row) t = row_due t row" "max 0 (tat row - t) = row_due t row - t" "t \<le> row_due t row"
  by (auto simp: tat_def row_due_def split: option.split)

lemma sqlite_window_answer:
  shows "sqlite_gcra_acquire limit window now key c tab =
      (window_answer limit window c now (row_due now (dget tab key)), window_store limit window c now key (row_due now (dget tab key)) tab)"
    and "sqlite_gcra_peek limit window now key tab = window_shown limit window now (row_due now (dget tab key))"
proof -
  have d: "now - (d + e - window) = now + window - (d + e)" for d e :: real by simp
  show "sqlite_gcra_acquire limit window now key c tab =
      (window_answer limit window c now (row_due now (dget tab key)), window_store limit window c now key (row_due now (dget tab key)) tab)"
    by (auto simp: sqlite_gcra_acquire_def window_answer_def window_store_def Let_def row_tat d diff_diff_eq add.commute)
  show "sqlite_gcra_peek limit window now key tab = window_shown limit window now (row_due now (dget tab key))"
    using row_tat(3) [of now "dget tab key"] by (simp add: sqlite_gcra_peek_def window_shown_def Let_def row_tat algebra_simps)
qed

definition window_left :: "int \<Rightarrow> seconds \<Rightarrow> int \<Rightarrow> seconds \<Rightarrow> real \<Rightarrow> int" where
  "window_left limit window cost now due =
     \<lfloor>(now + window - (due + window / real_of_int limit * real_of_int cost)) / (window / real_of_int limit) + 1 / 2\<rfloor>"

lemma pg_window_answer:
  assumes "0 < limit"
  shows "pg_gcra_acquire limit window now key c tab =
      (if fits_int (window_left limit window c now (row_due now (dget tab key)))
       then (Inr (fst (sqlite_gcra_acquire limit window now key c tab)), snd (sqlite_gcra_acquire limit window now key c tab)) else (Inl DataError, tab))"
    and "pg_gcra_peek limit window now key tab =
      (if fits_int (window_left limit window 0 now (row_due now (dget tab key))) then Inr (sqlite_gcra_peek limit window now key tab) else Inl DataError)"
proof -
  have w: "window / real_of_int limit * real_of_int limit = window" using assms by simp
  have d: "now + window - (d + e) = now - (d + e - window)" for d e :: real by simp
  show "pg_gcra_acquire limit window now key c tab =
      (if fits_int (window_left limit window c now (row_due now (dget tab key)))
       then (Inr (fst (sqlite_gcra_acquire limit window now key c tab)), snd (sqlite_gcra_acquire limit window now key c tab)) else (Inl DataError, tab))"
    unfolding pg_gcra_acquire_def sqlite_gcra_acquire_def window_left_def Let_def row_tat(1) w d by simp
  show "pg_gcra_peek limit window now key tab =
      (if fits_int (window_left limit window 0 now (row_due now (dget tab key))) then Inr (sqlite_gcra_peek limit window now key tab) else Inl DataError)"
    unfolding pg_gcra_peek_def sqlite_gcra_peek_def window_left_def Let_def row_tat(1) d by simp
qed

lemma window_fits:
  assumes "0 < limit" "0 < window" "now \<le> due" "due \<le> now + window + window / real_of_int limit / 2" "0 \<le> c" "c \<le> limit" "limit \<le> 2147483647"
  shows "fits_int (window_left limit window c now due)"
proof -
  let ?e = "window / real_of_int limit"
  have e: "0 < ?e" "?e * real_of_int limit = window" using assms by auto
  have "now + window - (due + ?e * real_of_int c) \<le> ?e * real_of_int (limit - c)" using assms(3) e(2) by (simp add: algebra_simps)
  then have up: "(now + window - (due + ?e * real_of_int c)) / ?e \<le> real_of_int (limit - c)" unfolding pos_divide_le_eq [OF e(1)] by (simp only: mult.commute)
  have "?e * (- 1 / 2 - real_of_int c) \<le> now + window - (due + ?e * real_of_int c)" using assms(4) by (simp add: algebra_simps)
  then have lo: "- 1 / 2 - real_of_int c \<le> (now + window - (due + ?e * real_of_int c)) / ?e" unfolding pos_le_divide_eq [OF e(1)] by (simp only: mult.commute)
  have "- c \<le> window_left limit window c now due" unfolding window_left_def using lo by linarith
  moreover have "window_left limit window c now due \<le> limit - c" unfolding window_left_def using up by linarith
  ultimately show ?thesis using assms(5-7) by (simp add: fits_int_def)
qed

lemma bucket_sim_acquire:
  assumes sim: "table_sim prefix (TokenBucketConfig capacity rate fo) t M tab" and c: "1 \<le> c" "c \<le> capacity"
  shows "fst (sqlite_tb_acquire capacity rate t (prefix @ TB_PREFIX @ k) c tab) = fst (bind_acquire (TokenBucketConfig capacity rate fo) t k c M)"
    and "table_sim prefix (TokenBucketConfig capacity rate fo) t (snd (bind_acquire (TokenBucketConfig capacity rate fo) t k c M))
       (snd (sqlite_tb_acquire capacity rate t (prefix @ TB_PREFIX @ k) c tab))"
proof -
  let ?s = "mem_bucket capacity rate M" let ?l = "tb_level ?s k t"
  have ok: "tb_ok t ?s" and old: "\<forall>k x u. dget tab (prefix @ TB_PREFIX @ k) = Some (x, u) \<longrightarrow> u \<le> t"
    and lev: "\<And>j t'. t \<le> t' \<Longrightarrow> pg_refilled capacity rate t' (dget tab (prefix @ TB_PREFIX @ j)) = tb_level ?s j t'"
    using sim by auto
  note m = memory_bucket_answer [OF ok, of c k] and b = tb_level_bounds [OF ok, of k]
  have a: "sqlite_tb_acquire capacity rate t (prefix @ TB_PREFIX @ k) c tab =
      (bucket_answer capacity rate c ?l, dput (prefix @ TB_PREFIX @ k) (bucket_after c ?l, t) tab)"
    using old b(1) c lev [of t k] by (intro sqlite_bucket_answer(1)) auto
  show "fst (sqlite_tb_acquire capacity rate t (prefix @ TB_PREFIX @ k) c tab) = fst (bind_acquire (TokenBucketConfig capacity rate fo) t k c M)"
    using m c by (simp add: a)
  have v: "0 \<le> bucket_after c ?l" "bucket_after c ?l \<le> real_of_int capacity" using b c by (auto simp: bucket_after_def)
  note st = tb_ok_store [OF ok v(1), of k] tb_store_level [OF ok v(1), of _ k]
  have M: "mem_bucket capacity rate (snd (bind_acquire (TokenBucketConfig capacity rate fo) t k c M)) = tb_store t k (bucket_after c ?l) ?s"
    using m c by (simp add: bucket_eta)
  show "table_sim prefix (TokenBucketConfig capacity rate fo) t (snd (bind_acquire (TokenBucketConfig capacity rate fo) t k c M))
       (snd (sqlite_tb_acquire capacity rate t (prefix @ TB_PREFIX @ k) c tab))"
    unfolding table_sim.simps M using st v old lev by (auto simp: a)
qed

lemma window_sim_acquire:
  assumes sim: "table_sim prefix (SlidingWindowConfig limit window fo) t M tab" and c: "1 \<le> c"
  shows "fst (sqlite_gcra_acquire limit window t (prefix @ GCRA_PREFIX @ k) c tab) = fst (bind_acquire (SlidingWindowConfig limit window fo) t k c M)"
    and "table_sim prefix (SlidingWindowConfig limit window fo) t (snd (bind_acquire (SlidingWindowConfig limit window fo) t k c M))
       (snd (sqlite_gcra_acquire limit window t (prefix @ GCRA_PREFIX @ k) c tab))"
proof -
  let ?s = "mem_window limit window M" let ?d = "gcra_due ?s k t"
  have ok: "gcra_ok t ?s" and due: "\<And>j t'. t \<le> t' \<Longrightarrow> row_due t' (dget tab (prefix @ GCRA_PREFIX @ j)) = gcra_due ?s j t'"
    using sim by auto
  have lim: "0 < limit" "0 < window" using gcra_okD(1,2) [OF ok] by auto
  note m = memory_window_answer(1) [OF ok, of k c] and p = sqlite_window_answer(1)
  have al: "allowed (window_answer limit window c t ?d) \<longleftrightarrow> - (emission_interval ?s / 2) \<le> gcra_room ?s k c t"
    using window_allowed [OF lim, of c t ?d] by (auto simp: gcra_room_def emission_interval_def)
  show "fst (sqlite_gcra_acquire limit window t (prefix @ GCRA_PREFIX @ k) c tab) = fst (bind_acquire (SlidingWindowConfig limit window fo) t k c M)"
    using m by (auto simp: p due split: prod.split)
  have f: "g_limit (snd (gcra_acquire t k c ?s)) = limit" "g_window (snd (gcra_acquire t k c ?s)) = window"
    using gcra_acquire_fields(1,2) [OF ok, of k c] by auto
  have M: "mem_window limit window (snd (bind_acquire (SlidingWindowConfig limit window fo) t k c M)) = snd (gcra_acquire t k c ?s)"
    using window_eta [OF f] by (simp add: split_beta)
  show "table_sim prefix (SlidingWindowConfig limit window fo) t (snd (bind_acquire (SlidingWindowConfig limit window fo) t k c M))
       (snd (sqlite_gcra_acquire limit window t (prefix @ GCRA_PREFIX @ k) c tab))"
    unfolding table_sim.simps M
  proof (intro conjI allI impI)
    fix j t' assume t': "t \<le> t'"
    show "row_due t' (dget (snd (sqlite_gcra_acquire limit window t (prefix @ GCRA_PREFIX @ k) c tab)) (prefix @ GCRA_PREFIX @ j)) =
        gcra_due (snd (gcra_acquire t k c ?s)) j t'"
      unfolding gcra_acquire_due [OF ok c t'] p using due t' al
      by (auto simp: window_store_def row_due_def emission_interval_def)
  qed (rule gcra_acquire_ok [OF ok])
qed

lemma table_sim_reset:
  assumes "table_sim prefix cfg t M tab"
  shows "table_sim prefix cfg t (bind_reset cfg k M) (snd (rs_reset (sqlite_bind prefix cfg) k tab))"
proof (cases cfg)
  case (TokenBucketConfig capacity rate fo)
  have b: "mem_bucket capacity rate (bind_reset cfg k M) = token_bucket_reset k (mem_bucket capacity rate M)"
    by (simp add: TokenBucketConfig token_bucket_reset_def)
  have "tb_ok t (mem_bucket capacity rate M)" using assms TokenBucketConfig by simp
  then show ?thesis using assms unfolding TokenBucketConfig
    by (simp only: table_sim.simps b [unfolded TokenBucketConfig] tb_reset_level) (auto simp: tb_ok_reset sql_rate_reset_def)
next
  case (SlidingWindowConfig limit window fo)
  have "gcra_ok t (mem_window limit window M)" using assms SlidingWindowConfig by simp
  then show ?thesis using assms unfolding SlidingWindowConfig
    by (auto simp: gcra_ok_def gcra_reset_def pd.wf_del sql_rate_reset_def gcra_due_eq row_due_def emission_interval_def split: if_splits)
qed

lemma table_sim_later: "table_sim prefix cfg t M tab \<Longrightarrow> t \<le> t' \<Longrightarrow> table_sim prefix cfg t' M tab"
  by (cases cfg) (force intro: tb_ok_later gcra_ok_later)+

lemma table_sim_acquire:
  assumes "table_sim prefix cfg t M tab" "1 \<le> c" "c \<le> config_limit cfg"
  shows "fst (rs_acquire (sqlite_bind prefix cfg) t k c tab) = fst (rs_acquire (memory_bind cfg) t k c M)"
    "table_sim prefix cfg t (snd (rs_acquire (memory_bind cfg) t k c M)) (snd (rs_acquire (sqlite_bind prefix cfg) t k c tab))"
proof -
  have m: "rs_acquire (memory_bind cfg) t k c M = (Inr (fst (bind_acquire cfg t k c M)), snd (bind_acquire cfg t k c M))"
    by (simp add: memory_bind_def)
  have "fst (rs_acquire (sqlite_bind prefix cfg) t k c tab) = Inr (fst (bind_acquire cfg t k c M)) \<and>
    table_sim prefix cfg t (snd (bind_acquire cfg t k c M)) (snd (rs_acquire (sqlite_bind prefix cfg) t k c tab))"
  proof (cases cfg)
    case (TokenBucketConfig capacity rate fo)
    show ?thesis using bucket_sim_acquire [of prefix capacity rate fo t M tab c k] assms unfolding TokenBucketConfig
      by (simp del: table_sim.simps bind_acquire.simps)
  next
    case (SlidingWindowConfig limit window fo)
    show ?thesis using window_sim_acquire [of prefix limit window fo t M tab c k] assms unfolding SlidingWindowConfig
      by (simp del: table_sim.simps bind_acquire.simps)
  qed
  then show "fst (rs_acquire (sqlite_bind prefix cfg) t k c tab) = fst (rs_acquire (memory_bind cfg) t k c M)"
    "table_sim prefix cfg t (snd (rs_acquire (memory_bind cfg) t k c M)) (snd (rs_acquire (sqlite_bind prefix cfg) t k c tab))"
    unfolding m by auto
qed

lemma table_sim_peek:
  assumes "table_sim prefix cfg t M tab"
  shows "rs_peek (sqlite_bind prefix cfg) t k tab = rs_peek (memory_bind cfg) t k M"
proof (cases cfg)
  case (TokenBucketConfig capacity rate fo)
  let ?s = "mem_bucket capacity rate M"
  have ok: "tb_ok t ?s" using assms TokenBucketConfig by simp
  have "sqlite_tb_peek capacity rate t (prefix @ TB_PREFIX @ k) tab = bucket_shown capacity rate (tb_level ?s k t)"
    by (rule sqlite_bucket_answer(2) [where c = 0]) (use assms TokenBucketConfig tb_level_bounds(1) [OF ok] in auto)
  then show ?thesis using TokenBucketConfig memory_bucket_answer(2) [OF ok, of 0 k] by (simp add: memory_bind_def)
next
  case (SlidingWindowConfig limit window fo)
  then have ok: "gcra_ok t (mem_window limit window M)" using assms by simp
  then show ?thesis using assms SlidingWindowConfig memory_window_answer(2) [OF ok, of k] by (simp add: memory_bind_def sqlite_window_answer(2))
qed

text \<open>Up to the largest \<open>INT\<close>, Postgres answers as SQLite does.\<close>

lemma postgres_answers_as_sqlite:
  assumes "table_sim prefix cfg t M tab" "config_limit cfg \<le> 2147483647" "1 \<le> c" "c \<le> config_limit cfg"
  shows "rs_acquire (postgres_bind prefix cfg) t k c tab = rs_acquire (sqlite_bind prefix cfg) t k c tab \<and>
    rs_peek (postgres_bind prefix cfg) t k tab = rs_peek (sqlite_bind prefix cfg) t k tab"
proof (cases cfg)
  case (TokenBucketConfig capacity rate fo)
  let ?l = "tb_level (mem_bucket capacity rate M) k t" and ?k = "prefix @ TB_PREFIX @ k"
  have ok: "tb_ok t (mem_bucket capacity rate M)" and l: "?l = pg_refilled capacity rate t (dget tab ?k)" using assms(1) TokenBucketConfig by auto
  note b = tb_level_bounds [OF ok, of k]
  have old: "u \<le> t" if "dget tab ?k = Some (x, u)" for x u using assms(1) that TokenBucketConfig by auto
  have "fits_int (remaining (bucket_answer capacity rate c ?l))" "fits_int (remaining (bucket_shown capacity rate ?l))"
    using bucket_fits [where level = ?l and capacity = capacity and c = c and rate = rate] b assms TokenBucketConfig by simp_all
  then have "pg_tb_acquire capacity rate t ?k c tab = (Inr (fst (sqlite_tb_acquire capacity rate t ?k c tab)), snd (sqlite_tb_acquire capacity rate t ?k c tab))"
    "pg_tb_peek capacity rate t ?k tab = Inr (sqlite_tb_peek capacity rate t ?k tab)"
    using sqlite_bucket_answer [where c = c, OF old l b(1)] assms(3) by (simp_all add: pg_bucket_answer l [symmetric])
  then show ?thesis using TokenBucketConfig by simp
next
  case (SlidingWindowConfig limit window fo)
  let ?s = "mem_window limit window M" and ?k = "prefix @ GCRA_PREFIX @ k"
  have ok: "gcra_ok t ?s" and d: "row_due t (dget tab ?k) = gcra_due ?s k t" using assms(1) SlidingWindowConfig by auto
  have lim: "0 < limit" "0 < window" using gcra_okD(1,2) [OF ok] by auto
  have "fits_int (window_left limit window x t (row_due t (dget tab ?k)))" if "0 \<le> x" "x \<le> limit" for x
    unfolding d by (rule window_fits [OF lim gcra_due_ge]) (use gcra_due_le [OF ok, of k] that assms(2) SlidingWindowConfig in \<open>auto simp: emission_interval_def\<close>)
  then show ?thesis using SlidingWindowConfig assms(3,4) lim by (simp add: pg_window_answer [OF lim(1)])
qed

lemma config_limit_pos: "table_sim prefix cfg t M tab \<Longrightarrow> 1 \<le> config_limit cfg"
  by (cases cfg) (auto simp: tb_ok_def gcra_ok_def)

interpretation slr: rate_simulation "memory_bind cfg" "sqlite_bind prefix cfg" "\<lambda>t. t" "config_limit cfg" "table_sim prefix cfg" for prefix cfg
proof (unfold_locales, goal_cases)
  case (1 t a b t')
  then show ?case by (rule table_sim_later)
next
  case (2 t a b c k)
  then show ?case using table_sim_acquire by simp
next
  case (3 t a b k)
  then show ?case by (rule table_sim_peek)
next
  case (4 t a b k)
  then show ?case using table_sim_reset [OF 4, of k] by (cases cfg) (simp_all add: memory_bind_def del: table_sim.simps bind_reset.simps)
qed

interpretation pgr: rate_simulation "memory_bind cfg" "postgres_bind prefix cfg" "\<lambda>t. t" "config_limit cfg"
    "\<lambda>t M tab. config_limit cfg \<le> 2147483647 \<and> table_sim prefix cfg t M tab" for prefix cfg
proof (unfold_locales, goal_cases)
  case (1 t a b t')
  then show ?case using table_sim_later by blast
next
  case (2 t a b c k)
  then show ?case using table_sim_acquire postgres_answers_as_sqlite [of prefix cfg t a b c k] by simp
next
  case (3 t a b k)
  then have sim: "table_sim prefix cfg t a b" "config_limit cfg \<le> 2147483647" by auto
  from postgres_answers_as_sqlite [OF sim config_limit_pos [OF sim(1)] order_refl, of k] show ?case using table_sim_peek [OF sim(1)] by simp
next
  case (4 t a b k)
  have "rs_reset (postgres_bind prefix cfg) k b = rs_reset (sqlite_bind prefix cfg) k b" by (cases cfg) simp_all
  then show ?case using 4 slr.sim_reset [of prefix cfg t a b k] by simp
qed

definition memory_rate_init :: memory_rate_limiter where
  "memory_rate_init = \<lparr>token_bucket_state = [], gcra_state = []\<rparr>"

fun rate_config_ok :: "rate_limiter_config \<Rightarrow> bool" where
  "rate_config_ok (TokenBucketConfig capacity rate fo) = (0 < capacity \<and> 0 < rate)"
| "rate_config_ok (SlidingWindowConfig limit window fo) = (0 < limit \<and> 0 < window)"

lemma table_sim_init: "rate_config_ok cfg \<Longrightarrow> table_sim prefix cfg t memory_rate_init []"
  by (cases cfg) (auto simp: memory_rate_init_def tb_ok_def gcra_ok_def tb_level_eq row_due_def gcra_due_eq)

text \<open>
  C29. In the order of the clock, the limiters on SQLite and on Postgres, bound with any prefix, give the answers of the
  in-memory limiter to every sequence of acquires, peeks and resets with costs between one and the limit, for both algorithms;
  on Postgres as long as the limit or capacity is an \<open>INT\<close>, at most 2147483647.
\<close>

theorem sql_rate_refines_memory:
  assumes "rate_config_ok cfg" "calls_ordered (config_limit cfg) t xs"
  shows "rate_run (sqlite_bind prefix cfg) xs [] = rate_run (memory_bind cfg) xs memory_rate_init \<and>
    (config_limit cfg \<le> 2147483647 \<longrightarrow> rate_run (postgres_bind prefix cfg) xs [] = rate_run (memory_bind cfg) xs memory_rate_init)"
proof -
  have id: "map (apfst (\<lambda>t. t)) xs = xs" by (induction xs) auto
  note sim = table_sim_init [OF assms(1), of prefix t]
  show ?thesis using pgr.same_answers [OF conjI [OF _ sim] assms(2)] slr.same_answers [OF sim assms(2)] id by simp
qed

theorem sql_rate_refines_memory_witness:
  "rate_run (postgres_bind ''app:'' (TokenBucketConfig 2 1 False)) [(0, Acquire ''u'' 2), (1, Peek ''u''), (1, Acquire ''u'' 2), (2, Reset ''u'')] [] =
     rate_run (memory_bind (TokenBucketConfig 2 1 False)) [(0, Acquire ''u'' 2), (1, Peek ''u''), (1, Acquire ''u'' 2), (2, Reset ''u'')] memory_rate_init \<and>
   rate_run (sqlite_bind ''app:'' (TokenBucketConfig 2 1 False)) [(0, Acquire ''u'' 2), (1, Peek ''u''), (1, Acquire ''u'' 2), (2, Reset ''u'')] [] =
     rate_run (memory_bind (TokenBucketConfig 2 1 False)) [(0, Acquire ''u'' 2), (1, Peek ''u''), (1, Acquire ''u'' 2), (2, Reset ''u'')] memory_rate_init"
  using sql_rate_refines_memory [of "TokenBucketConfig 2 1 False" 0 "[(0, Acquire ''u'' 2), (1, Peek ''u''), (1, Acquire ''u'' 2), (2, Reset ''u'')]" "''app:''"]
  by (simp del: sqlite_bind.simps postgres_bind.simps rate_run.simps)

text \<open>A larger bucket raises on Postgres at its first peek, and at an acquire that leaves more than an \<open>INT\<close>, where the memory and SQLite answer.\<close>

theorem postgres_bucket_int_overflow:
  assumes "2147483647 < capacity" "1 \<le> c" "c < capacity - 2147483647"
  shows "rs_peek (postgres_bind prefix (TokenBucketConfig capacity rate fo)) t k [] = Inl DataError \<and>
    rs_acquire (postgres_bind prefix (TokenBucketConfig capacity rate fo)) t k c [] = (Inl DataError, [])"
  using assms by (simp add: pg_bucket_answer bucket_answer_def bucket_shown_def fits_int_def del: of_int_diff flip: of_int_diff)

theorem postgres_bucket_int_overflow_witness:
  "rs_acquire (postgres_bind ''app:'' (TokenBucketConfig 5000000000 1 False)) 0 ''u'' 1 [] = (Inl DataError, [])"
  using postgres_bucket_int_overflow [of 5000000000 1 "''app:''" 1 False 0 "''u''"] by simp

section \<open>Overtaken transactions\<close>

text \<open>What a strategy grants a key along requests in the order in which they got the lock, each with the clock it read before.\<close>

fun granted_by :: "'s rate_ops \<Rightarrow> key \<Rightarrow> rate_request list \<Rightarrow> 's \<Rightarrow> int" where
  "granted_by S k [] tab = 0"
| "granted_by S k ((t, j, c) # rs) tab =
     (case rs_acquire S t j c tab of
        (Inl e, tab1) \<Rightarrow> granted_by S k rs tab1
      | (Inr r, tab1) \<Rightarrow> (if j = k \<and> allowed r then c else 0) + granted_by S k rs tab1)"

definition row_left :: "int \<Rightarrow> real \<Rightarrow> seconds \<Rightarrow> seconds \<Rightarrow> (real \<times> seconds) option \<Rightarrow> real" where
  "row_left capacity rate s T row =
     (let most = real_of_int capacity + (T - s) * rate in case row of None \<Rightarrow> most | Some (x, u) \<Rightarrow> min most (x + (T - u) * rate))"

lemma row_left_step:
  assumes "0 < rate" "s \<le> t" "t \<le> T"
  shows "pg_refilled capacity rate t row + (T - t) * rate \<le> row_left capacity rate s T row"
proof -
  have "(T - t) * rate \<le> (T - s) * rate" using assms by (simp add: mult_right_mono)
  then show ?thesis by (cases row) (auto simp: row_left_def Let_def min_def algebra_simps)
qed

lemma pg_granted_left:
  assumes "0 < rate" "list_all (\<lambda>(t, j, c). s \<le> t \<and> t \<le> T \<and> 1 \<le> c) rs"
  shows "real_of_int (granted_by (postgres_bind prefix (TokenBucketConfig capacity rate fo)) k rs tab) \<le>
    max 0 (row_left capacity rate s T (dget tab (prefix @ TB_PREFIX @ k)))"
  using assms(2)
proof (induction rs arbitrary: tab)
  case (Cons r rs)
  obtain t j c where r: "r = (t, j, c)" by (cases r)
  have t: "s \<le> t" "t \<le> T" "1 \<le> c" and rs: "list_all (\<lambda>(t, j, c). s \<le> t \<and> t \<le> T \<and> 1 \<le> c) rs" using Cons.prems r by auto
  let ?S = "postgres_bind prefix (TokenBucketConfig capacity rate fo)" and ?k = "prefix @ TB_PREFIX @ k"
  let ?v = "pg_refilled capacity rate t (dget tab (prefix @ TB_PREFIX @ j))"
  note ans = pg_bucket_answer(1) [of capacity rate t "prefix @ TB_PREFIX @ j" c tab]
  show ?case
  proof (cases "j = k \<and> fits_int (remaining (bucket_answer capacity rate c ?v))")
    case False
    have "granted_by ?S k (r # rs) tab = granted_by ?S k rs (snd (rs_acquire ?S t j c tab))"
      "dget (snd (rs_acquire ?S t j c tab)) ?k = dget tab ?k" using False by (auto simp: r ans)
    then show ?thesis using Cons.IH [OF rs, of "snd (rs_acquire ?S t j c tab)"] by simp
  next
    case True
    have jk: "j = k" using True by simp
    have new: "row_left capacity rate s T (Some (x, t)) \<le> x + (T - t) * rate" for x by (simp add: row_left_def Let_def)
    note old = row_left_step [OF assms(1) t(1,2), of capacity "dget tab ?k"]
    have nonneg: "0 \<le> (T - t) * rate" using assms(1) t by simp
    let ?next = "granted_by ?S k rs (dput ?k (bucket_after c ?v, t) tab)"
    have IH: "real_of_int ?next \<le> max 0 (bucket_after c ?v + (T - t) * rate)"
      using Cons.IH [OF rs, of "dput ?k (bucket_after c ?v, t) tab"] new [of "bucket_after c ?v"] by (simp add: max_def split: if_splits)
    have al: "allowed (bucket_answer capacity rate c ?v) \<longleftrightarrow> real_of_int c \<le> ?v" by (simp add: bucket_answer_def)
    have g: "granted_by ?S k (r # rs) tab = (if real_of_int c \<le> ?v then c else 0) + ?next"
      using True [unfolded jk] by (simp add: r jk ans [unfolded jk] al [unfolded jk])
    show ?thesis
    proof (cases "real_of_int c \<le> ?v")
      case granted: True
      then have "real_of_int ?next \<le> ?v - real_of_int c + (T - t) * rate" using IH nonneg by (simp add: bucket_after_def)
      then show ?thesis using granted True old unfolding g by simp
    next
      case denied: False
      then show ?thesis using IH True old unfolding g by (simp add: bucket_after_def max_def split: if_splits)
    qed
  qed
qed simp

text \<open>
  The token bucket on Postgres keeps its rate in whatever order the transactions run: over requests whose clock readings
  lie in a period, however they overtake each other between the reading and the lock, a key is granted at most the capacity
  and the refill of the period.
\<close>

theorem postgres_bucket_rate_any_order:
  assumes "0 < capacity" "0 < rate" "s \<le> T" "list_all (\<lambda>(t, j, c). s \<le> t \<and> t \<le> T \<and> 1 \<le> c) rs"
  shows "real_of_int (granted_by (postgres_bind prefix (TokenBucketConfig capacity rate fo)) k rs tab) \<le> real_of_int capacity + (T - s) * rate"
proof -
  have "0 \<le> (T - s) * rate" using assms by simp
  then have "row_left capacity rate s T (dget tab (prefix @ TB_PREFIX @ k)) \<le> real_of_int capacity + (T - s) * rate \<and> 0 \<le> real_of_int capacity + (T - s) * rate"
    using assms(1) by (auto simp: row_left_def Let_def split: option.split)
  then show ?thesis using pg_granted_left [OF assms(2,4), of prefix capacity fo k tab] by (auto simp: max_def split: if_splits)
qed

text \<open>Grants at time 100, and between them transactions that read the clock at 90.\<close>

definition overtaken :: "nat \<Rightarrow> rate_request list" where
  "overtaken n = (100, ''u'', 10) # concat (replicate n [(90, ''u'', 1), (100, ''u'', 10)])"

lemma overtaken_ok: "list_all (\<lambda>(t, j, c). 90 \<le> t \<and> t \<le> 100 \<and> 1 \<le> c) (overtaken n)"
  by (induction n) (auto simp: overtaken_def)

theorem postgres_bucket_rate_any_order_witness:
  "real_of_int (granted_by (postgres_bind ''app:'' (TokenBucketConfig 10 1 False)) ''u'' (overtaken 3) []) \<le> real_of_int 10 + (100 - 90) * 1"
  by (rule postgres_bucket_rate_any_order [OF _ _ _ overtaken_ok]) simp_all

text \<open>
  On SQLite overtaken transactions create tokens: the clamp to a non-negative elapsed time leaves the tokens as they are
  while the row gets the earlier time, so the same seconds are refilled again. A bucket of 10 tokens and one token per second
  grants 10 tokens at time 100 as often as a transaction that read the clock at 90 comes in between.
\<close>

theorem sqlite_bucket_overtaken:
  "granted_by (sqlite_bind [] (TokenBucketConfig 10 1 False)) ''u'' (overtaken n) [] = 10 * (int n + 1)"
proof -
  have step: "sqlite_tb_acquire 10 1 90 ''tb:u'' 1 [(''tb:u'', 0, 100)] = (bucket_answer 10 1 1 0, [(''tb:u'', 0, 90)])"
    "sqlite_tb_acquire 10 1 100 ''tb:u'' 10 [(''tb:u'', 0, 90)] = (bucket_answer 10 1 10 10, [(''tb:u'', 0, 100)])"
    "sqlite_tb_acquire 10 1 100 ''tb:u'' 10 [] = (bucket_answer 10 1 10 10, [(''tb:u'', 0, 100)])"
    by (simp_all add: sqlite_tb_acquire_def sqlite_refill_def bucket_answer_def py_int_def)
  have "granted_by (sqlite_bind [] (TokenBucketConfig 10 1 False)) ''u'' (concat (replicate n [(90, ''u'', 1), (100, ''u'', 10)])) [(''tb:u'', 0, 100)] = 10 * int n"
    by (induction n) (simp_all add: step bucket_answer_def TB_PREFIX_def)
  then show ?thesis by (simp add: overtaken_def step bucket_answer_def TB_PREFIX_def)
qed

end
