(* ===== verification/Redis_Rate.thy ===== *)
theory Redis_Rate
  imports Sql_Rate Redis_Store
begin

text \<open>
  The rate limiters on Redis (\<open>resilience/ratelimiter/redis.py\<close>): the four Lua scripts over the commands they call, with the time
  of the server in microseconds, and the keys that expire by themselves. The interpretation \<open>rer\<close> of \<open>rate_simulation\<close> shows
  that they answer as the in-memory strategies do at the time of the server's clock: a key expires only when it says no more
  than a missing one.
\<close>

section \<open>Commands\<close>

text \<open>\<open>TIME\<close>, in seconds since the first of January 2017, as the scripts compute it.\<close>

definition lua_now :: "seconds \<Rightarrow> seconds" where
  "lua_now t = real_of_int \<lfloor>t * 1000000\<rfloor> / 1000000 - 1483228800"

text \<open>\<open>HMGET key tokens last\<close> and its conversion; an answer without tokens is a missing bucket.\<close>

definition r_bucket :: "int \<Rightarrow> string \<Rightarrow> redis \<Rightarrow> py_exc + (real \<times> seconds) option" where
  "r_bucket now k db = (case r_lookup now k db of
     None \<Rightarrow> Inr None
   | Some (RHash h, x) \<Rightarrow>
       (case dget h ''tokens'' of
          None \<Rightarrow> Inr None
        | Some (FNum a) \<Rightarrow> (case dget h ''last'' of Some (FNum b) \<Rightarrow> Inr (Some (a, b)) | _ \<Rightarrow> Inl ResponseError)
        | Some f \<Rightarrow> Inl ResponseError)
   | Some e \<Rightarrow> Inl ResponseError)"

text \<open>\<open>HSET key tokens x last u\<close>: a new hash without an end, or the fields of the old one, which keeps its end.\<close>

definition r_hset_bucket :: "int \<Rightarrow> string \<Rightarrow> real \<Rightarrow> seconds \<Rightarrow> redis \<Rightarrow> (py_exc + unit) \<times> redis" where
  "r_hset_bucket now k a b db = (case r_lookup now k db of
     None \<Rightarrow> (Inr (), dput k (RHash [(''tokens'', FNum a), (''last'', FNum b)], None) db)
   | Some (RHash h, x) \<Rightarrow> (Inr (), dput k (RHash (dput ''last'' (FNum b) (dput ''tokens'' (FNum a) h)), x) db)
   | Some e \<Rightarrow> (Inl ResponseError, db))"

text \<open>\<open>EXPIRE key seconds\<close>.\<close>

definition r_expire :: "int \<Rightarrow> string \<Rightarrow> int \<Rightarrow> redis \<Rightarrow> redis" where
  "r_expire now k seconds db = r_pexpire now k (1000 * seconds) db"

definition r_get_num :: "int \<Rightarrow> string \<Rightarrow> redis \<Rightarrow> py_exc + real option" where
  "r_get_num now k db = (case r_lookup now k db of None \<Rightarrow> Inr None | Some (RNum x, u) \<Rightarrow> Inr (Some x) | Some e \<Rightarrow> Inl ResponseError)"

text \<open>\<open>SET key number EX seconds\<close>.\<close>

definition r_set_num_ex :: "int \<Rightarrow> string \<Rightarrow> real \<Rightarrow> int \<Rightarrow> redis \<Rightarrow> (py_exc + unit) \<times> redis" where
  "r_set_num_ex now k x ex db = (if ex \<le> 0 then (Inl ResponseError, db) else (Inr (), dput k (RNum x, Some (now + 1000 * ex)) db))"

section \<open>Scripts\<close>

definition lua_tb_acquire :: "int \<Rightarrow> real \<Rightarrow> seconds \<Rightarrow> string \<Rightarrow> int \<Rightarrow> redis \<Rightarrow> (py_exc + rate_limit_result) \<times> redis" where
  "lua_tb_acquire capacity rate t key cost db =
     (let now = lua_now t
      in case r_bucket (ms t) key db of
           Inl e \<Rightarrow> (Inl e, db)
         | Inr stored \<Rightarrow>
             let (tokens0, last_at) = (case stored of None \<Rightarrow> (real_of_int capacity, now) | Some r \<Rightarrow> r);
                 tokens = min (real_of_int capacity) (tokens0 + (now - last_at) * rate)
             in if real_of_int cost \<le> tokens
                then let left = tokens - real_of_int cost; reset = (real_of_int capacity - left) / rate
                     in case r_hset_bucket (ms t) key left now db of
                          (Inl e, db1) \<Rightarrow> (Inl e, db1)
                        | (Inr u, db1) \<Rightarrow>
                            (Inr \<lparr>allowed = True, rl_limit = capacity, remaining = \<lfloor>left\<rfloor>, retry_after = 0, reset_after = reset\<rparr>,
                             r_expire (ms t) key (max 1 \<lceil>reset\<rceil>) db1)
                else let retry = (real_of_int cost - tokens) / rate; reset = (real_of_int capacity - tokens) / rate
                     in case r_hset_bucket (ms t) key tokens now db of
                          (Inl e, db1) \<Rightarrow> (Inl e, db1)
                        | (Inr u, db1) \<Rightarrow>
                            (Inr \<lparr>allowed = False, rl_limit = capacity, remaining = \<lfloor>tokens\<rfloor>, retry_after = retry, reset_after = reset\<rparr>,
                             r_expire (ms t) key (max 1 \<lceil>reset\<rceil>) db1))"

definition lua_tb_peek :: "int \<Rightarrow> real \<Rightarrow> seconds \<Rightarrow> string \<Rightarrow> redis \<Rightarrow> py_exc + rate_limit_result" where
  "lua_tb_peek capacity rate t key db =
     (let now = lua_now t
      in case r_bucket (ms t) key db of
           Inl e \<Rightarrow> Inl e
         | Inr stored \<Rightarrow>
             let (tokens0, last_at) = (case stored of None \<Rightarrow> (real_of_int capacity, now) | Some r \<Rightarrow> r);
                 tokens = min (real_of_int capacity) (tokens0 + (now - last_at) * rate)
             in if 1 \<le> tokens
                then Inr \<lparr>allowed = True, rl_limit = capacity, remaining = \<lfloor>tokens\<rfloor>, retry_after = 0, reset_after = (real_of_int capacity - tokens) / rate\<rparr>
                else Inr \<lparr>allowed = False, rl_limit = capacity, remaining = \<lfloor>tokens\<rfloor>, retry_after = (1 - tokens) / rate,
                          reset_after = (real_of_int capacity - tokens) / rate\<rparr>)"

definition lua_gcra_acquire :: "int \<Rightarrow> seconds \<Rightarrow> seconds \<Rightarrow> string \<Rightarrow> int \<Rightarrow> redis \<Rightarrow> (py_exc + rate_limit_result) \<times> redis" where
  "lua_gcra_acquire limit period t key cost db =
     (let emission = period / real_of_int limit; now = lua_now t
      in case r_get_num (ms t) key db of
           Inl e \<Rightarrow> (Inl e, db)
         | Inr stored \<Rightarrow>
             let tat = (case stored of None \<Rightarrow> now | Some x \<Rightarrow> x);
                 new_tat = max tat now + emission * real_of_int cost;
                 diff = now - (new_tat - emission * real_of_int limit);
                 left = \<lfloor>diff / emission + 1 / 2\<rfloor>
             in if left < 0
                then (Inr \<lparr>allowed = False, rl_limit = limit, remaining = 0, retry_after = diff * (- 1), reset_after = tat - now\<rparr>, db)
                else let reset = new_tat - now
                     in case r_set_num_ex (ms t) key new_tat (max 1 \<lceil>reset\<rceil>) db of
                          (Inl e, db1) \<Rightarrow> (Inl e, db1)
                        | (Inr u, db1) \<Rightarrow> (Inr \<lparr>allowed = True, rl_limit = limit, remaining = left, retry_after = 0, reset_after = reset\<rparr>, db1))"

definition lua_gcra_peek :: "int \<Rightarrow> seconds \<Rightarrow> seconds \<Rightarrow> string \<Rightarrow> redis \<Rightarrow> py_exc + rate_limit_result" where
  "lua_gcra_peek limit period t key db =
     (let emission = period / real_of_int limit; now = lua_now t
      in case r_get_num (ms t) key db of
           Inl e \<Rightarrow> Inl e
         | Inr stored \<Rightarrow>
             let tat = (case stored of None \<Rightarrow> now | Some x \<Rightarrow> x);
                 new_tat = max tat now;
                 diff = now - (new_tat - period);
                 left = \<lfloor>diff / emission + 1 / 2\<rfloor>
             in if left \<le> 0
                then Inr \<lparr>allowed = False, rl_limit = limit, remaining = 0, retry_after = max 0 (if left < 0 then diff * (- 1) else emission - diff),
                          reset_after = max 0 (tat - now)\<rparr>
                else Inr \<lparr>allowed = True, rl_limit = limit, remaining = left, retry_after = 0, reset_after = new_tat - now\<rparr>)"

fun redis_bind :: "string \<Rightarrow> rate_limiter_config \<Rightarrow> redis rate_ops" where
  "redis_bind prefix (TokenBucketConfig capacity rate fo) =
     \<lparr>rs_acquire = (\<lambda>t k. lua_tb_acquire capacity rate t (prefix @ TB_PREFIX @ k)), rs_peek = (\<lambda>t k. lua_tb_peek capacity rate t (prefix @ TB_PREFIX @ k)),
      rs_reset = (\<lambda>k db. (Inr (), r_del (prefix @ TB_PREFIX @ k) db))\<rparr>"
| "redis_bind prefix (SlidingWindowConfig limit window fo) =
     \<lparr>rs_acquire = (\<lambda>t k. lua_gcra_acquire limit window t (prefix @ GCRA_PREFIX @ k)), rs_peek = (\<lambda>t k. lua_gcra_peek limit window t (prefix @ GCRA_PREFIX @ k)),
      rs_reset = (\<lambda>k db. (Inr (), r_del (prefix @ GCRA_PREFIX @ k) db))\<rparr>"

section \<open>They answer as the memory does\<close>

lemma lua_now_mono: "t \<le> t' \<Longrightarrow> lua_now t \<le> lua_now t'"
  by (simp add: lua_now_def divide_right_mono floor_mono mult_right_mono)

text \<open>A key that is given whole seconds in milliseconds outlives them on the finer clock.\<close>

lemma expired_late:
  assumes "ms t + 1000 * n < ms t'" "r \<le> real_of_int n"
  shows "lua_now t + r < lua_now t'"
proof -
  let ?u = "\<lfloor>t * 1000000\<rfloor>" let ?u' = "\<lfloor>t' * 1000000\<rfloor>"
  have up: "u < (m + 1) * 1000" if "u \<le> t * 1000000" "t * 1000 < m + 1" for u m :: real using that by (simp add: field_simps)
  have "real_of_int ?u < real_of_int (ms t + 1) * 1000"
    using up [of "real_of_int ?u" "real_of_int (ms t)"] floor_correct [of "t * 1000"] by (simp add: ms_def)
  moreover have "real_of_int (ms t') * 1000 \<le> real_of_int ?u'"
  proof -
    have "real_of_int (ms t' * 1000) \<le> t' * 1000000" using floor_correct [of "t' * 1000"] unfolding ms_def by (simp add: algebra_simps)
    then have "ms t' * 1000 \<le> ?u'" by (simp add: le_floor_iff)
    then show ?thesis by linarith
  qed
  moreover have "real_of_int (ms t + 1) + 1000 * real_of_int n \<le> real_of_int (ms t')" using assms(1) by linarith
  moreover have "u + 1000000 * v < u'" if "u < m * 1000" "m' * 1000 \<le> u'" "m + 1000 * v \<le> m'" for u u' m m' v :: real using that by argo
  ultimately have "real_of_int ?u + 1000000 * real_of_int n < real_of_int ?u'" by blast
  then show ?thesis using assms(2) unfolding lua_now_def by (simp add: field_simps)
qed

fun redis_sim :: "string \<Rightarrow> rate_limiter_config \<Rightarrow> seconds \<Rightarrow> memory_rate_limiter \<Rightarrow> redis \<Rightarrow> bool" where
  "redis_sim prefix (TokenBucketConfig capacity rate fo) t M db =
     (tb_ok (lua_now t) (mem_bucket capacity rate M) \<and>
      (\<forall>k t'. t \<le> t' \<longrightarrow> (\<exists>row. r_bucket (ms t') (prefix @ TB_PREFIX @ k) db = Inr row \<and>
         pg_refilled capacity rate (lua_now t') row = tb_level (mem_bucket capacity rate M) k (lua_now t'))))"
| "redis_sim prefix (SlidingWindowConfig limit window fo) t M db =
     (gcra_ok (lua_now t) (mem_window limit window M) \<and>
      (\<forall>k t'. t \<le> t' \<longrightarrow> (\<exists>tat. r_get_num (ms t') (prefix @ GCRA_PREFIX @ k) db = Inr tat \<and>
         row_due (lua_now t') (map_option (\<lambda>x. (x, 0)) tat) = gcra_due (mem_window limit window M) k (lua_now t'))))"

text \<open>The scripts in terms of the level and of the arrival time.\<close>

definition bucket_saved :: "int \<Rightarrow> real \<Rightarrow> seconds \<Rightarrow> string \<Rightarrow> real \<Rightarrow> redis \<Rightarrow> redis" where
  "bucket_saved capacity rate t key x db =
     r_expire (ms t) key (max 1 \<lceil>(real_of_int capacity - x) / rate\<rceil>) (snd (r_hset_bucket (ms t) key x (lua_now t) db))"

lemma hset_ok: "r_bucket now k db = Inr row \<Longrightarrow> fst (r_hset_bucket now k a b db) = Inr ()"
  by (auto simp: r_bucket_def r_hset_bucket_def split: option.splits prod.splits rvalue.splits)

lemma lua_bucket_answer:
  fixes capacity :: int and rate :: real
  assumes "r_bucket (ms t) key db = Inr row"
  defines "level \<equiv> pg_refilled capacity rate (lua_now t) row"
  shows "lua_tb_acquire capacity rate t key c db = (Inr (bucket_answer capacity rate c level), bucket_saved capacity rate t key (bucket_after c level) db)"
    and "lua_tb_peek capacity rate t key db = Inr (bucket_shown capacity rate level)"
proof -
  have h: "r_hset_bucket (ms t) key x u db = (Inr (), snd (r_hset_bucket (ms t) key x u db))" for x u
    using hset_ok [OF assms(1), of x u] by (metis prod.collapse)
  have l: "min (real_of_int capacity) (fst p + (lua_now t - snd p) * rate) = level" if "p = (case row of None \<Rightarrow> (real_of_int capacity, lua_now t) | Some r \<Rightarrow> r)" for p
    using that by (simp add: level_def pg_refilled_def split_beta)
  note l = l [OF refl]
  show "lua_tb_acquire capacity rate t key c db = (Inr (bucket_answer capacity rate c level), bucket_saved capacity rate t key (bucket_after c level) db)"
    unfolding lua_tb_acquire_def Let_def assms(1) sum.case split_beta l
    by (subst (1 2) h) (simp add: bucket_answer_def bucket_after_def bucket_saved_def)
  show "lua_tb_peek capacity rate t key db = Inr (bucket_shown capacity rate level)"
    unfolding lua_tb_peek_def Let_def assms(1) sum.case split_beta l by (simp add: bucket_shown_def)
qed

lemma bucket_saved_row:
  assumes "r_bucket (ms t) key db = Inr row" "0 < rate" "x \<le> real_of_int capacity" "t \<le> t'"
  shows "\<exists>row'. r_bucket (ms t') key (bucket_saved capacity rate t key x db) = Inr row' \<and>
    pg_refilled capacity rate (lua_now t') row' = min (real_of_int capacity) (x + (lua_now t' - lua_now t) * rate)"
    and "j \<noteq> key \<Longrightarrow> r_bucket (ms t') j (bucket_saved capacity rate t key x db) = r_bucket (ms t') j db"
proof -
  let ?n = "max 1 \<lceil>(real_of_int capacity - x) / rate\<rceil>"
  obtain h e where e: "snd (r_hset_bucket (ms t) key x (lua_now t) db) = dput key (RHash h, e) db" "r_alive (ms t) (RHash h, e)"
      and h: "dget h ''tokens'' = Some (FNum x)" "dget h ''last'' = Some (FNum (lua_now t))"
  proof (cases "r_lookup (ms t) key db")
    case None
    show ?thesis by (rule that [of "[(''tokens'', FNum x), (''last'', FNum (lua_now t))]" None]) (simp_all add: None r_hset_bucket_def r_alive_def)
  next
    case (Some p)
    then obtain h0 e where p: "p = (RHash h0, e)" using assms(1) by (cases p; cases "fst p") (auto simp: r_bucket_def)
    have al: "r_alive (ms t) (v, e)" for v using r_lookup_get [OF Some] by (simp add: p r_alive_def)
    show ?thesis by (rule that [of "dput ''last'' (FNum (lua_now t)) (dput ''tokens'' (FNum x) h0)" e]) (simp_all add: Some p r_hset_bucket_def al)
  qed
  have sv: "bucket_saved capacity rate t key x db = dput key (RHash h, Some (ms t + 1000 * ?n)) (dput key (RHash h, e) db)"
    by (simp add: bucket_saved_def r_expire_def r_pexpire_def e)
  show "\<exists>row'. r_bucket (ms t') key (bucket_saved capacity rate t key x db) = Inr row' \<and>
    pg_refilled capacity rate (lua_now t') row' = min (real_of_int capacity) (x + (lua_now t' - lua_now t) * rate)"
  proof (cases "ms t' \<le> ms t + 1000 * ?n")
    case True
    then have "r_bucket (ms t') key (bucket_saved capacity rate t key x db) = Inr (Some (x, lua_now t))"
      using h by (simp add: r_bucket_def sv r_alive_def)
    then show ?thesis by simp
  next
    case False
    then have r: "r_bucket (ms t') key (bucket_saved capacity rate t key x db) = Inr None" by (simp add: r_bucket_def sv r_alive_def)
    have "lua_now t + (real_of_int capacity - x) / rate < lua_now t'"
    proof (rule expired_late)
      show "ms t + 1000 * ?n < ms t'" using False by simp
      show "(real_of_int capacity - x) / rate \<le> real_of_int ?n" by linarith
    qed
    then have "real_of_int capacity - x < (lua_now t' - lua_now t) * rate" using assms(2) by (simp add: field_simps)
    then show ?thesis using r by simp
  qed
  show "r_bucket (ms t') j (bucket_saved capacity rate t key x db) = r_bucket (ms t') j db" if "j \<noteq> key"
    using that by (simp add: r_bucket_def sv)
qed

lemma redis_bucket_acquire:
  assumes sim: "redis_sim prefix (TokenBucketConfig capacity rate fo) t M db" and c: "1 \<le> c" "c \<le> capacity"
  shows "fst (rs_acquire (redis_bind prefix (TokenBucketConfig capacity rate fo)) t k c db) = Inr (fst (bind_acquire (TokenBucketConfig capacity rate fo) (lua_now t) k c M))"
    and "redis_sim prefix (TokenBucketConfig capacity rate fo) t (snd (bind_acquire (TokenBucketConfig capacity rate fo) (lua_now t) k c M))
       (snd (rs_acquire (redis_bind prefix (TokenBucketConfig capacity rate fo)) t k c db))"
proof -
  let ?s = "mem_bucket capacity rate M" let ?l = "tb_level ?s k (lua_now t)" let ?K = "\<lambda>k. prefix @ TB_PREFIX @ k"
  have ok: "tb_ok (lua_now t) ?s" using sim by simp
  have rows: "\<exists>row. r_bucket (ms t') (?K j) db = Inr row \<and> pg_refilled capacity rate (lua_now t') row = tb_level ?s j (lua_now t')" if "t \<le> t'" for j t'
    using sim that by simp
  obtain row where row: "r_bucket (ms t) (?K k) db = Inr row" "pg_refilled capacity rate (lua_now t) row = ?l" using rows [of t k] by auto
  note m = memory_bucket_answer(1) [OF ok, of c k] and b = tb_level_bounds [OF ok, of k] and a = lua_bucket_answer(1) [OF row(1), of capacity rate c, unfolded row(2)]
  have rate: "0 < rate" using tb_okD(2) [OF ok] by simp
  have v: "0 \<le> bucket_after c ?l" "bucket_after c ?l \<le> real_of_int capacity" using b c by (auto simp: bucket_after_def)
  show "fst (rs_acquire (redis_bind prefix (TokenBucketConfig capacity rate fo)) t k c db) = Inr (fst (bind_acquire (TokenBucketConfig capacity rate fo) (lua_now t) k c M))"
    using m c a by simp
  have M: "mem_bucket capacity rate (snd (bind_acquire (TokenBucketConfig capacity rate fo) (lua_now t) k c M)) = tb_store (lua_now t) k (bucket_after c ?l) ?s"
    using m c by (simp add: bucket_eta)
  have db: "snd (rs_acquire (redis_bind prefix (TokenBucketConfig capacity rate fo)) t k c db) = bucket_saved capacity rate t (?K k) (bucket_after c ?l) db"
    using a by simp
  note sv = bucket_saved_row [OF row(1) rate v(2)]
  have ok': "tb_ok (lua_now t) (tb_store (lua_now t) k (bucket_after c ?l) ?s)" using tb_ok_store [OF ok v(1)] v(2) by simp
  have "\<exists>row. r_bucket (ms t') (?K j) (bucket_saved capacity rate t (?K k) (bucket_after c ?l) db) = Inr row \<and>
      pg_refilled capacity rate (lua_now t') row = tb_level (tb_store (lua_now t) k (bucket_after c ?l) ?s) j (lua_now t')" if t': "t \<le> t'" for j t'
    using tb_store_level [OF ok v(1) _ lua_now_mono [OF t'], of k j] v(2) sv(1) [OF t'] sv(2) [OF t', of "?K j"] rows [OF t', of j] by (cases "j = k") auto
  then show "redis_sim prefix (TokenBucketConfig capacity rate fo) t (snd (bind_acquire (TokenBucketConfig capacity rate fo) (lua_now t) k c M))
       (snd (rs_acquire (redis_bind prefix (TokenBucketConfig capacity rate fo)) t k c db))"
    unfolding redis_sim.simps M db using ok' by blast
qed

definition window_saved :: "int \<Rightarrow> seconds \<Rightarrow> int \<Rightarrow> seconds \<Rightarrow> string \<Rightarrow> real \<Rightarrow> redis \<Rightarrow> redis" where
  "window_saved limit window c t key due db =
     (let new_tat = due + window / real_of_int limit * real_of_int c
      in if allowed (window_answer limit window c (lua_now t) due) then dput key (RNum new_tat, Some (ms t + 1000 * max 1 \<lceil>new_tat - lua_now t\<rceil>)) db else db)"

lemma lua_window_answer:
  fixes limit :: int and window :: seconds
  assumes "r_get_num (ms t) key db = Inr tat" "0 < limit" "0 < window"
  defines "due \<equiv> row_due (lua_now t) (map_option (\<lambda>x. (x, 0)) tat)"
  shows "c \<le> limit \<Longrightarrow> lua_gcra_acquire limit window t key c db = (Inr (window_answer limit window c (lua_now t) due), window_saved limit window c t key due db)"
    and "lua_gcra_peek limit window t key db = Inr (window_shown limit window (lua_now t) due)"
proof -
  let ?x = "case tat of None \<Rightarrow> lua_now t | Some x \<Rightarrow> x" let ?e = "window / real_of_int limit"
  have x: "max ?x (lua_now t) = due" "max 0 (?x - lua_now t) = due - lua_now t" "lua_now t \<le> due" by (auto simp: due_def row_due_def split: option.split)
  have w: "?e * real_of_int limit = window" using assms(2) by simp
  have e: "0 < ?e" using assms(2,3) by simp
  have dd: "lua_now t - (a + b - window) = lua_now t + window - (a + b)" for a b :: real by simp
  show "lua_gcra_acquire limit window t key c db = (Inr (window_answer limit window c (lua_now t) due), window_saved limit window c t key due db)" if c: "c \<le> limit"
  proof (cases "allowed (window_answer limit window c (lua_now t) due)")
    case True
    then show ?thesis
      by (simp add: lua_gcra_acquire_def Let_def assms(1) x w dd r_set_num_ex_def window_saved_def window_answer_def split: if_splits)
  next
    case False
    have early: "lua_now t + window - (due + ?e * real_of_int c) < 0"
      using False window_allowed [OF assms(2,3), of c "lua_now t" due] e by auto
    have "?e * real_of_int c \<le> ?e * real_of_int limit" using c e by (intro mult_left_mono) auto
    then have "lua_now t < due" using early w by linarith
    then have d: "?x = due" using x(1) by (auto simp: max_def split: if_splits)
    show ?thesis using False early assms(2)
      by (simp add: lua_gcra_acquire_def Let_def assms(1) x w dd d window_saved_def window_answer_def split: if_splits)
  qed
  show "lua_gcra_peek limit window t key db = Inr (window_shown limit window (lua_now t) due)"
    using x(3) by (simp add: lua_gcra_peek_def Let_def assms(1) x window_shown_def algebra_simps)
qed

lemma window_saved_row:
  assumes "t \<le> t'" "allowed (window_answer limit window c (lua_now t) due)"
  shows "\<exists>tat. r_get_num (ms t') key (window_saved limit window c t key due db) = Inr tat \<and>
    row_due (lua_now t') (map_option (\<lambda>x. (x, 0)) tat) = max (due + window / real_of_int limit * real_of_int c) (lua_now t')"
proof -
  let ?n = "due + window / real_of_int limit * real_of_int c" let ?e = "max 1 \<lceil>?n - lua_now t\<rceil>"
  show ?thesis
  proof (cases "ms t' \<le> ms t + 1000 * ?e")
    case True
    then have "r_get_num (ms t') key (window_saved limit window c t key due db) = Inr (Some ?n)"
      using assms(2) by (simp add: r_get_num_def window_saved_def Let_def r_alive_def)
    then show ?thesis by (simp add: row_due_def)
  next
    case False
    have "lua_now t + (?n - lua_now t) < lua_now t'"
    proof (rule expired_late)
      show "ms t + 1000 * ?e < ms t'" using False by simp
      show "?n - lua_now t \<le> real_of_int ?e" by linarith
    qed
    moreover have "r_get_num (ms t') key (window_saved limit window c t key due db) = Inr None"
      using assms(2) False by (simp add: r_get_num_def window_saved_def Let_def r_alive_def)
    ultimately show ?thesis by (simp add: row_due_def)
  qed
qed

lemma redis_window_acquire:
  assumes sim: "redis_sim prefix (SlidingWindowConfig limit window fo) t M db" and c: "1 \<le> c" "c \<le> limit"
  shows "fst (rs_acquire (redis_bind prefix (SlidingWindowConfig limit window fo)) t k c db) = Inr (fst (bind_acquire (SlidingWindowConfig limit window fo) (lua_now t) k c M))"
    and "redis_sim prefix (SlidingWindowConfig limit window fo) t (snd (bind_acquire (SlidingWindowConfig limit window fo) (lua_now t) k c M))
       (snd (rs_acquire (redis_bind prefix (SlidingWindowConfig limit window fo)) t k c db))"
proof -
  let ?s = "mem_window limit window M" let ?d = "gcra_due ?s k (lua_now t)" let ?K = "\<lambda>k. prefix @ GCRA_PREFIX @ k"
  have ok: "gcra_ok (lua_now t) ?s" using sim by simp
  have rows: "\<exists>tat. r_get_num (ms t') (?K j) db = Inr tat \<and> row_due (lua_now t') (map_option (\<lambda>x. (x, 0)) tat) = gcra_due ?s j (lua_now t')" if "t \<le> t'" for j t'
    using sim that by simp
  obtain tat where tat: "r_get_num (ms t) (?K k) db = Inr tat" "row_due (lua_now t) (map_option (\<lambda>x. (x, 0)) tat) = ?d" using rows [of t k] by auto
  have lim: "0 < limit" "0 < window" using gcra_okD(1,2) [OF ok] by auto
  note m = memory_window_answer(1) [OF ok, of k c] and a = lua_window_answer(1) [OF tat(1) lim c(2), unfolded tat(2)]
  have al: "allowed (window_answer limit window c (lua_now t) ?d) \<longleftrightarrow> - (emission_interval ?s / 2) \<le> gcra_room ?s k c (lua_now t)"
    using window_allowed [OF lim, of c "lua_now t" ?d] by (auto simp: gcra_room_def emission_interval_def)
  show "fst (rs_acquire (redis_bind prefix (SlidingWindowConfig limit window fo)) t k c db) = Inr (fst (bind_acquire (SlidingWindowConfig limit window fo) (lua_now t) k c M))"
    using m a by (simp add: split_beta)
  have f: "g_limit (snd (gcra_acquire (lua_now t) k c ?s)) = limit" "g_window (snd (gcra_acquire (lua_now t) k c ?s)) = window"
    using gcra_acquire_fields(1,2) [OF ok, of k c] by auto
  have M: "mem_window limit window (snd (bind_acquire (SlidingWindowConfig limit window fo) (lua_now t) k c M)) = snd (gcra_acquire (lua_now t) k c ?s)"
    using window_eta [OF f] by (simp add: split_beta)
  have db: "snd (rs_acquire (redis_bind prefix (SlidingWindowConfig limit window fo)) t k c db) = window_saved limit window c t (?K k) ?d db" using a by simp
  have other: "r_get_num m (?K j) (window_saved limit window c t (?K k) ?d db) = r_get_num m (?K j) db" if "j \<noteq> k \<or> \<not> allowed (window_answer limit window c (lua_now t) ?d)" for j m
    using that by (auto simp: r_get_num_def window_saved_def Let_def)
  have "\<exists>tat. r_get_num (ms t') (?K j) (window_saved limit window c t (?K k) ?d db) = Inr tat \<and>
      row_due (lua_now t') (map_option (\<lambda>x. (x, 0)) tat) = gcra_due (snd (gcra_acquire (lua_now t) k c ?s)) j (lua_now t')" if t': "t \<le> t'" for j t'
    unfolding gcra_acquire_due [OF ok c(1) lua_now_mono [OF t']]
    using rows [OF t', of j] other [of j "ms t'"] window_saved_row [OF t', of limit window c ?d "?K k" db] al
    by (cases "j = k \<and> allowed (window_answer limit window c (lua_now t) ?d)") (auto simp: emission_interval_def)
  then show "redis_sim prefix (SlidingWindowConfig limit window fo) t (snd (bind_acquire (SlidingWindowConfig limit window fo) (lua_now t) k c M))
       (snd (rs_acquire (redis_bind prefix (SlidingWindowConfig limit window fo)) t k c db))"
    unfolding redis_sim.simps M db using gcra_acquire_ok [OF ok] by blast
qed

lemma redis_sim_reset:
  assumes "redis_sim prefix cfg t M db"
  shows "redis_sim prefix cfg t (bind_reset cfg k M) (snd (rs_reset (redis_bind prefix cfg) k db))"
proof (cases cfg)
  case (TokenBucketConfig capacity rate fo)
  let ?s = "mem_bucket capacity rate M" let ?K = "\<lambda>k. prefix @ TB_PREFIX @ k"
  have b: "mem_bucket capacity rate (bind_reset cfg k M) = token_bucket_reset k ?s" by (simp add: TokenBucketConfig token_bucket_reset_def)
  have sim: "tb_ok (lua_now t) ?s" "\<forall>j t'. t \<le> t' \<longrightarrow> (\<exists>row. r_bucket (ms t') (?K j) db = Inr row \<and> pg_refilled capacity rate (lua_now t') row = tb_level ?s j (lua_now t'))"
    using assms TokenBucketConfig by auto
  have d: "r_bucket m (?K j) (ddel (?K k) db) = (if j = k then Inr None else r_bucket m (?K j) db)" for m j by (simp add: r_bucket_def)
  show ?thesis unfolding TokenBucketConfig redis_sim.simps b [unfolded TokenBucketConfig] tb_reset_level
    using sim tb_ok_reset [OF sim(1), of k] d by (auto simp: r_del_def)
next
  case (SlidingWindowConfig limit window fo)
  let ?s = "mem_window limit window M" let ?K = "\<lambda>k. prefix @ GCRA_PREFIX @ k"
  have sim: "gcra_ok (lua_now t) ?s" "\<forall>j t'. t \<le> t' \<longrightarrow> (\<exists>tat. r_get_num (ms t') (?K j) db = Inr tat \<and> row_due (lua_now t') (map_option (\<lambda>x. (x, 0)) tat) = gcra_due ?s j (lua_now t'))"
    using assms SlidingWindowConfig by auto
  have b: "mem_window limit window (bind_reset cfg k M) = gcra_reset k ?s" by (simp add: SlidingWindowConfig gcra_reset_def)
  have ok: "gcra_ok (lua_now t) (gcra_reset k ?s)" using sim(1) by (auto simp: gcra_ok_def gcra_reset_def emission_interval_def pd.wf_del split: if_splits)
  have due: "gcra_due (gcra_reset k ?s) j u = (if j = k then u else gcra_due ?s j u)" for j u by (simp add: gcra_reset_def gcra_due_eq)
  have d: "r_get_num m (?K j) (ddel (?K k) db) = (if j = k then Inr None else r_get_num m (?K j) db)" for m j by (simp add: r_get_num_def)
  show ?thesis unfolding SlidingWindowConfig redis_sim.simps b [unfolded SlidingWindowConfig] due
    using sim ok d by (auto simp: r_del_def row_due_def)
qed

lemma redis_sim_peek:
  assumes "redis_sim prefix cfg t M db"
  shows "rs_peek (redis_bind prefix cfg) t k db = rs_peek (memory_bind cfg) (lua_now t) k M"
proof (cases cfg)
  case (TokenBucketConfig capacity rate fo)
  then have ok: "tb_ok (lua_now t) (mem_bucket capacity rate M)" using assms by simp
  obtain row where "r_bucket (ms t) (prefix @ TB_PREFIX @ k) db = Inr row" "pg_refilled capacity rate (lua_now t) row = tb_level (mem_bucket capacity rate M) k (lua_now t)"
    using assms TokenBucketConfig by auto
  then show ?thesis using TokenBucketConfig lua_bucket_answer(2) [of t "prefix @ TB_PREFIX @ k" db row capacity rate] memory_bucket_answer(2) [OF ok, of 0 k]
    by (simp add: memory_bind_def)
next
  case (SlidingWindowConfig limit window fo)
  then have ok: "gcra_ok (lua_now t) (mem_window limit window M)" using assms by simp
  obtain tat where "r_get_num (ms t) (prefix @ GCRA_PREFIX @ k) db = Inr tat"
      "row_due (lua_now t) (map_option (\<lambda>x. (x, 0)) tat) = gcra_due (mem_window limit window M) k (lua_now t)"
    using assms SlidingWindowConfig by auto
  then show ?thesis using SlidingWindowConfig lua_window_answer(2) [of t "prefix @ GCRA_PREFIX @ k" db tat limit window] memory_window_answer(2) [OF ok, of k] gcra_okD(1,2) [OF ok]
    by (simp add: memory_bind_def)
qed

interpretation rer: rate_simulation "memory_bind cfg" "redis_bind prefix cfg" lua_now "config_limit cfg" "redis_sim prefix cfg" for prefix cfg
proof (unfold_locales, goal_cases)
  case (1 t a b t')
  then show ?case by (cases cfg) (auto intro: tb_ok_later gcra_ok_later lua_now_mono)
next
  case (2 t a b c k)
  have m: "rs_acquire (memory_bind cfg) u k c M = (Inr (fst (bind_acquire cfg u k c M)), snd (bind_acquire cfg u k c M))" for u M by (simp add: memory_bind_def)
  show ?case
  proof (cases cfg)
    case (TokenBucketConfig capacity rate fo)
    show ?thesis using redis_bucket_acquire [of prefix capacity rate fo t a b c k] 2 unfolding m unfolding TokenBucketConfig config_limit.simps by simp
  next
    case (SlidingWindowConfig limit window fo)
    show ?thesis using redis_window_acquire [of prefix limit window fo t a b c k] 2 unfolding m unfolding SlidingWindowConfig config_limit.simps by simp
  qed
next
  case (3 t a b k)
  then show ?case by (rule redis_sim_peek)
next
  case (4 t a b k)
  show ?case using redis_sim_reset [OF 4, of k] by (cases cfg) (simp_all add: memory_bind_def del: redis_sim.simps bind_reset.simps)
qed

text \<open>
  C30. The limiters on Redis give the answers of the in-memory limiter at the clock of the server, to every sequence of
  acquires, peeks and resets in its order and for both algorithms: no call is refused by the server, and no key expires
  while it would still count.
\<close>

theorem redis_rate_refines_memory:
  assumes "rate_config_ok cfg" "calls_ordered (config_limit cfg) t xs"
  shows "rate_run (redis_bind prefix cfg) xs [] = rate_run (memory_bind cfg) (map (apfst lua_now) xs) memory_rate_init"
proof -
  have "redis_sim prefix cfg t memory_rate_init []" using assms(1)
    by (cases cfg) (auto simp: memory_rate_init_def tb_ok_def gcra_ok_def tb_level_eq row_due_def gcra_due_eq r_bucket_def r_get_num_def)
  then show ?thesis using rer.same_answers assms(2) by blast
qed

theorem redis_rate_refines_memory_witness:
  "rate_run (redis_bind [] (SlidingWindowConfig 2 60 False)) [(1483228800, Acquire ''u'' 2), (1483228801, Acquire ''u'' 1), (1483228860, Peek ''u'')] [] =
     rate_run (memory_bind (SlidingWindowConfig 2 60 False)) (map (apfst lua_now) [(1483228800, Acquire ''u'' 2), (1483228801, Acquire ''u'' 1), (1483228860, Peek ''u'')])
       memory_rate_init"
  by (rule redis_rate_refines_memory [where t = 0]) simp_all

end
