(* ===== verification/Circuit.thy ===== *)
theory Circuit
  imports Breaker_Client
begin

text \<open>
  What a circuit is, apart from where it is stored: the record of one breaker, which field_counts as absent when its lifetime is
  over or when it says nothing, and the four calls of \<open>CircuitBreakerStrategy\<close> (\<open>resilience/_protocol.py\<close>) on it. The
  locale \<open>circuit_store\<close> is the contract of a store of circuits with calls that may fail; in it every run of calls of
  any breakers answers what the circuits answer. The in-memory adapter interprets it here, the databases in
  \<open>Sql_Breaker\<close>.
\<close>

section \<open>One circuit\<close>

text \<open>A closed circuit with cleared counters says no more than a missing one.\<close>

definition says_nothing :: "breaker_entry \<Rightarrow> bool" where
  "says_nothing e \<longleftrightarrow> be_state e = CLOSED \<and> opened_at e = 0 \<and> error_count e = 0 \<and> success_count e = 0 \<and> cool_down e = 0 \<and> half_open_admit e = 0"

definition living :: "seconds \<Rightarrow> breaker_entry option \<Rightarrow> breaker_entry option" where
  "living t v = (case v of None \<Rightarrow> None | Some e \<Rightarrow> if passed t (expires_at e) \<or> says_nothing e then None else Some e)"

definition circuit_try :: "breaker_config \<Rightarrow> seconds \<Rightarrow> breaker_entry option \<Rightarrow> bool \<times> breaker_entry option" where
  "circuit_try c now v =
     (case v of
        None \<Rightarrow> (True, None)
      | Some e \<Rightarrow>
          if be_state e = CLOSED \<or> be_state e = FORCED_CLOSED then (True, v)
          else if be_state e = FORCED_OPEN then (False, v)
          else if be_state e = OPEN \<and> now < opened_at e + cool_down e then (False, v)
          else let e1 = (if be_state e = OPEN
                         then e\<lparr>be_state := HALF_OPEN, error_count := 0, success_count := 0, half_open_admit := 0,
                                opened_at := 0, cool_down := 0, expires_at := At (now + STATE_TTL)\<rparr> else e)
               in if half_open_admit e1 < half_open_capacity c
                  then (True, Some (e1\<lparr>half_open_admit := half_open_admit e1 + 1, expires_at := At (now + STATE_TTL)\<rparr>))
                  else (False, Some e1))"

definition circuit_outcome :: "breaker_config \<Rightarrow> seconds \<Rightarrow> bool \<Rightarrow> breaker_entry option \<Rightarrow> breaker_snapshot \<times> breaker_entry option" where
  "circuit_outcome c now success v =
     (let e0 = (case v of None \<Rightarrow> fresh_entry now | Some e \<Rightarrow> e)
      in if be_state e0 \<in> {FORCED_OPEN, FORCED_CLOSED, OPEN} then (snapshot_of e0, v)
         else let e = e0\<lparr>expires_at := At (now + STATE_TTL)\<rparr>;
                  probed = (\<lambda>x. if be_state x = HALF_OPEN \<and> 0 < half_open_admit x then x\<lparr>half_open_admit := half_open_admit x - 1\<rparr> else x)
              in if success
                 then let e2 = probed (e\<lparr>success_count := success_count e + 1, error_count := 0\<rparr>)
                      in if be_state e = HALF_OPEN \<and> success_threshold c \<le> success_count e2 then (DEFAULT_SNAPSHOT, None)
                         else (snapshot_of e2, Some e2)
                 else let e2 = probed (e\<lparr>error_count := error_count e + 1, success_count := 0\<rparr>)
                      in if error_threshold c \<le> error_count e2
                         then let e3 = e2\<lparr>be_state := OPEN, opened_at := now, cool_down := reset_timeout c,
                                          expires_at := At (now + resolve_state_ttl (reset_timeout c)),
                                          error_count := 0, success_count := 0, half_open_admit := 0\<rparr>
                              in (snapshot_of e3, Some e3)
                         else (snapshot_of e2, Some e2))"

definition circuit_transition :: "breaker_config \<Rightarrow> seconds \<Rightarrow> cb_state \<Rightarrow> seconds option \<Rightarrow> breaker_entry option" where
  "circuit_transition c now desired cool =
     (let cd = (case cool of Some x \<Rightarrow> x | None \<Rightarrow> reset_timeout c)
      in if desired = CLOSED then None
         else if desired = OPEN
         then Some \<lparr>be_state = OPEN, opened_at = now, cool_down = cd, error_count = 0, success_count = 0, half_open_admit = 0,
                    expires_at = At (now + resolve_state_ttl cd)\<rparr>
         else Some \<lparr>be_state = desired, opened_at = 0, cool_down = 0, error_count = 0, success_count = 0, half_open_admit = 0,
                    expires_at = (if desired \<in> {FORCED_OPEN, FORCED_CLOSED} then Never else At (now + STATE_TTL))\<rparr>)"

definition circuit_snapshot :: "breaker_entry option \<Rightarrow> breaker_snapshot" where
  "circuit_snapshot v = (case v of None \<Rightarrow> DEFAULT_SNAPSHOT | Some e \<Rightarrow> snapshot_of e)"

section \<open>Stores of circuits\<close>

record ('x, 's) circuit_ops =
  co_try :: "breaker_strategy \<Rightarrow> seconds \<Rightarrow> 's \<Rightarrow> ('x + bool) \<times> 's"
  co_outcome :: "breaker_strategy \<Rightarrow> seconds \<Rightarrow> bool \<Rightarrow> 's \<Rightarrow> ('x + breaker_snapshot) \<times> 's"
  co_transition :: "breaker_strategy \<Rightarrow> seconds \<Rightarrow> cb_state \<Rightarrow> seconds option \<Rightarrow> 's \<Rightarrow> ('x + unit) \<times> 's"
  co_snapshot :: "breaker_strategy \<Rightarrow> seconds \<Rightarrow> 's \<Rightarrow> 'x + breaker_snapshot"

datatype circuit_call = CTry | COutcome bool | CTransition cb_state "seconds option" | CSnapshot

datatype 'x circuit_answer = Admitted bool | Seen breaker_snapshot | Moved | Failed 'x

fun circuit_step :: "('x, 's) circuit_ops \<Rightarrow> breaker_strategy \<Rightarrow> seconds \<Rightarrow> circuit_call \<Rightarrow> 's \<Rightarrow> 'x circuit_answer \<times> 's" where
  "circuit_step B S t CTry s = (case co_try B S t s of (Inr b, s1) \<Rightarrow> (Admitted b, s1) | (Inl x, s1) \<Rightarrow> (Failed x, s1))"
| "circuit_step B S t (COutcome ok) s = (case co_outcome B S t ok s of (Inr r, s1) \<Rightarrow> (Seen r, s1) | (Inl x, s1) \<Rightarrow> (Failed x, s1))"
| "circuit_step B S t (CTransition st w) s = (case co_transition B S t st w s of (Inr u, s1) \<Rightarrow> (Moved, s1) | (Inl x, s1) \<Rightarrow> (Failed x, s1))"
| "circuit_step B S t CSnapshot s = (case co_snapshot B S t s of Inr r \<Rightarrow> (Seen r, s) | Inl x \<Rightarrow> (Failed x, s))"

fun circuit_run :: "('x, 's) circuit_ops \<Rightarrow> (breaker_strategy \<times> seconds \<times> circuit_call) list \<Rightarrow> 's \<Rightarrow> 'x circuit_answer list" where
  "circuit_run B [] s = []"
| "circuit_run B ((S, t, c) # xs) s = (case circuit_step B S t c s of (a, s1) \<Rightarrow> a # circuit_run B xs s1)"

text \<open>The same on the circuits themselves.\<close>

fun circuit_spec :: "breaker_config \<Rightarrow> seconds \<Rightarrow> circuit_call \<Rightarrow> breaker_entry option \<Rightarrow> 'x circuit_answer \<times> breaker_entry option" where
  "circuit_spec c t CTry v = map_prod Admitted id (circuit_try c t v)"
| "circuit_spec c t (COutcome ok) v = map_prod Seen id (circuit_outcome c t ok v)"
| "circuit_spec c t (CTransition st w) v = (Moved, circuit_transition c t st w)"
| "circuit_spec c t CSnapshot v = (Seen (circuit_snapshot v), v)"

fun spec_run :: "(breaker_strategy \<times> seconds \<times> circuit_call) list \<Rightarrow> (string \<Rightarrow> breaker_entry option) \<Rightarrow> 'x circuit_answer list" where
  "spec_run [] f = []"
| "spec_run ((S, t, c) # xs) f =
     (case circuit_spec (bs_config S) t c (living t (f (bs_name S))) of (a, v) \<Rightarrow> a # spec_run xs (f(bs_name S := v)))"

fun in_time :: "seconds \<Rightarrow> (breaker_strategy \<times> seconds \<times> circuit_call) list \<Rightarrow> bool" where
  "in_time s [] = True"
| "in_time s ((S, t, c) # xs) = (s \<le> t \<and> in_time t xs)"

text \<open>
  The contract: each call answers what the circuit of its breaker answers and leaves it as the circuit, from then on; the
  other circuits stay. \<open>room s k\<close>: the store has room for \<open>k\<close> more calls.
\<close>

locale circuit_store =
  fixes B :: "('x, 's) circuit_ops" and circuit :: "'s \<Rightarrow> string \<Rightarrow> breaker_entry option" and inv :: "'s \<Rightarrow> bool" and room :: "'s \<Rightarrow> nat \<Rightarrow> bool"
  assumes step_answer: "inv s \<Longrightarrow> room s (Suc k) \<Longrightarrow>
      fst (circuit_step B S t c s) = fst (circuit_spec (bs_config S) t c (living t (circuit s (bs_name S))) :: 'x circuit_answer \<times> breaker_entry option)"
    and step_circuit: "inv s \<Longrightarrow> room s (Suc k) \<Longrightarrow> t \<le> u \<Longrightarrow>
      living u (circuit (snd (circuit_step B S t c s)) n) =
        (if n = bs_name S then living u (snd (circuit_spec (bs_config S) t c (living t (circuit s n)) :: 'x circuit_answer \<times> breaker_entry option)) else living u (circuit s n))"
    and step_inv: "inv s \<Longrightarrow> room s (Suc k) \<Longrightarrow> inv (snd (circuit_step B S t c s)) \<and> room (snd (circuit_step B S t c s)) k"
begin

lemma run_spec:
  assumes "inv s" "room s (length xs)" "in_time t0 xs" "\<And>n u. t0 \<le> u \<Longrightarrow> living u (circuit s n) = living u (f n)"
  shows "circuit_run B xs s = spec_run xs f"
  using assms
proof (induction xs arbitrary: s t0 f)
  case (Cons x xs)
  obtain S t c where x: "x = (S, t, c)" by (cases x) auto
  let ?s1 = "snd (circuit_step B S t c s)"
  let ?v = "snd (circuit_spec (bs_config S) t c (living t (f (bs_name S))) :: 'x circuit_answer \<times> breaker_entry option)"
  have t: "t0 \<le> t" "in_time t xs" using Cons.prems(3) x by auto
  have room: "room s (Suc (length xs))" using Cons.prems(2) by simp
  have now: "living t (circuit s n) = living t (f n)" for n by (rule Cons.prems(4) [OF t(1)])
  have "living u (circuit ?s1 n) = living u ((f(bs_name S := ?v)) n)" if "t \<le> u" for n u
    using step_circuit [OF Cons.prems(1) room that, of S c n] Cons.prems(4) [of u n] that t(1) now by (simp add: fun_upd_def)
  from Cons.IH [OF _ _ t(2) this] step_inv [OF Cons.prems(1) room, of S t c]
  have "circuit_run B xs ?s1 = spec_run xs (f(bs_name S := ?v))" by blast
  then show ?case using step_answer [OF Cons.prems(1) room, of S t c] now x by (simp add: split_beta)
qed simp

end

text \<open>A closed circuit with cleared counters answers as a missing one.\<close>

lemma quiet_try: "says_nothing e \<Longrightarrow> circuit_try c t (Some e) = (True, Some e)"
  by (simp add: circuit_try_def says_nothing_def)

lemma quiet_outcome: "says_nothing e \<Longrightarrow> circuit_outcome c t ok (Some e) = circuit_outcome c t ok None"
  by (cases e) (simp add: circuit_outcome_def says_nothing_def fresh_entry_def)

lemma quiet_snapshot: "says_nothing e \<Longrightarrow> circuit_snapshot (Some e) = DEFAULT_SNAPSHOT"
  by (simp add: circuit_snapshot_def says_nothing_def snapshot_of_def DEFAULT_SNAPSHOT_def)

definition heard :: "breaker_entry option \<Rightarrow> breaker_entry option" where
  "heard v = (case v of None \<Rightarrow> None | Some e \<Rightarrow> if says_nothing e then None else Some e)"

lemma heard_step:
  fixes c :: breaker_config and t :: seconds and x :: circuit_call and v :: "breaker_entry option"
  defines "p \<equiv> circuit_spec c t x (heard v) :: 'x circuit_answer \<times> breaker_entry option"
    and "q \<equiv> circuit_spec c t x v :: 'x circuit_answer \<times> breaker_entry option"
  shows "fst p = fst q" "living u (snd p) = living u (snd q)"
proof -
  have "fst p = fst q \<and> living u (snd p) = living u (snd q)"
  proof (cases "\<exists>e. v = Some e \<and> says_nothing e")
    case True
    then obtain e where e: "v = Some e" "says_nothing e" by blast
    have "heard v = None" using e by (simp add: heard_def)
    then show ?thesis using e unfolding p_def q_def
      by (cases x) (simp_all add: quiet_try quiet_outcome quiet_snapshot circuit_try_def [of _ _ None] circuit_snapshot_def [of None] living_def)
  next
    case False
    then have "heard v = v" by (auto simp: heard_def split: option.split)
    then show ?thesis by (simp add: p_def q_def)
  qed
  then show "fst p = fst q" "living u (snd p) = living u (snd q)" by auto
qed

text \<open>Circuits that differ in their lifetime alone answer alike.\<close>

definition same :: "breaker_entry option \<Rightarrow> breaker_entry option \<Rightarrow> bool" where
  "same v w \<longleftrightarrow> map_option (expires_at_update (\<lambda>x. Never)) (heard v) = map_option (expires_at_update (\<lambda>x. Never)) (heard w)"

lemma same_refl: "same v v"
  by (simp add: same_def)

lemma same_trans: "same u v \<Longrightarrow> same v w \<Longrightarrow> same u w"
  by (simp add: same_def)

lemma same_sym: "same u v \<Longrightarrow> same v u"
  by (simp add: same_def)

lemma heard_heard [simp]: "heard (heard v) = heard v"
  by (simp add: heard_def split: option.split)

lemma same_heard: "same (heard v) v"
  by (simp add: same_def)

lemma circuit_spec_heard:
  fixes c :: breaker_config and t :: seconds and x :: circuit_call and v :: "breaker_entry option"
  defines "p \<equiv> circuit_spec c t x (heard v) :: 'x circuit_answer \<times> breaker_entry option"
    and "q \<equiv> circuit_spec c t x v :: 'x circuit_answer \<times> breaker_entry option"
  shows "fst p = fst q \<and> same (snd p) (snd q)"
proof (cases "heard v = v")
  case False
  then obtain e where e: "v = Some e" "says_nothing e" by (auto simp: heard_def split: option.splits if_splits)
  then show ?thesis using e unfolding p_def q_def
    by (cases x) (simp_all add: heard_def quiet_try quiet_outcome quiet_snapshot circuit_try_def [of _ _ None] circuit_snapshot_def [of None] same_def)
qed (simp add: p_def q_def same_refl)

lemma unlimited:
  "circuit_try c t (Some (e\<lparr>expires_at := y\<rparr>)) = (b, v) \<Longrightarrow>
   \<exists>w. circuit_try c t (Some e) = (b, w) \<and> map_option (expires_at_update (\<lambda>x. Never)) v = map_option (expires_at_update (\<lambda>x. Never)) w"
  "circuit_outcome c t ok (Some (e\<lparr>expires_at := y\<rparr>)) = (r, v) \<Longrightarrow>
   \<exists>w. circuit_outcome c t ok (Some e) = (r, w) \<and> map_option (expires_at_update (\<lambda>x. Never)) v = map_option (expires_at_update (\<lambda>x. Never)) w"
  by (cases e; auto simp: circuit_try_def circuit_outcome_def snapshot_of_def Let_def split: if_splits)+

lemma forget_same: "map_option (expires_at_update (\<lambda>x. Never)) v = map_option (expires_at_update (\<lambda>x. Never)) w \<Longrightarrow> same v w"
proof -
  have "says_nothing (e\<lparr>expires_at := Never\<rparr>) = says_nothing e" for e by (simp add: says_nothing_def)
  then have s: "e\<lparr>expires_at := Never\<rparr> = e1\<lparr>expires_at := Never\<rparr> \<Longrightarrow> says_nothing e = says_nothing e1" for e e1 by metis
  assume "map_option (expires_at_update (\<lambda>x. Never)) v = map_option (expires_at_update (\<lambda>x. Never)) w"
  then show ?thesis by (cases v; cases w) (auto simp: same_def heard_def dest: s)
qed

lemma same_step:
  fixes c :: breaker_config and t :: seconds and x :: circuit_call and v w :: "breaker_entry option"
  assumes "same v w"
  defines "p \<equiv> circuit_spec c t x v :: 'x circuit_answer \<times> breaker_entry option" and "q \<equiv> circuit_spec c t x w :: 'x circuit_answer \<times> breaker_entry option"
  shows "fst p = fst q \<and> same (snd p) (snd q)"
proof -
  let ?p = "circuit_spec c t x (heard v) :: 'x circuit_answer \<times> breaker_entry option" and ?q = "circuit_spec c t x (heard w) :: 'x circuit_answer \<times> breaker_entry option"
  have "fst ?p = fst ?q \<and> same (snd ?p) (snd ?q)"
  proof (cases "heard w")
    case None
    then have "heard v = heard w" using assms(1) by (simp add: same_def)
    then show ?thesis by (simp add: same_refl)
  next
    case (Some e)
    then obtain e1 where e1: "heard v = Some e1" "e1\<lparr>expires_at := Never\<rparr> = e\<lparr>expires_at := Never\<rparr>" using assms(1) by (auto simp: same_def)
    have "e1 = (e1\<lparr>expires_at := Never\<rparr>)\<lparr>expires_at := expires_at e1\<rparr>" by simp
    then have e: "heard v = Some (e\<lparr>expires_at := expires_at e1\<rparr>)" unfolding e1(2) using e1(1) by simp
    show ?thesis
    proof (cases x)
      case CTry
      obtain b v1 where v1: "circuit_try c t (Some (e\<lparr>expires_at := expires_at e1\<rparr>)) = (b, v1)" by fastforce
      from unlimited(1) [OF v1] show ?thesis using v1 by (auto simp: CTry e Some intro: forget_same)
    next
      case (COutcome ok)
      obtain r v1 where v1: "circuit_outcome c t ok (Some (e\<lparr>expires_at := expires_at e1\<rparr>)) = (r, v1)" by fastforce
      from unlimited(2) [OF v1] show ?thesis using v1 by (auto simp: COutcome e Some intro: forget_same)
    next
      case CSnapshot
      have "same (Some (e\<lparr>expires_at := expires_at e1\<rparr>)) (Some e)" by (rule forget_same) simp
      then show ?thesis by (simp add: CSnapshot e Some circuit_snapshot_def snapshot_of_def)
    qed (simp add: same_refl)
  qed
  then show ?thesis using circuit_spec_heard [of c t x v, where 'x = 'x] circuit_spec_heard [of c t x w, where 'x = 'x] unfolding p_def q_def
    by (metis same_sym same_trans)
qed

section \<open>The in-memory store\<close>

definition memory_circuits :: "(unit, breaker_store) circuit_ops" where
  "memory_circuits =
     \<lparr>co_try = (\<lambda>S t d. apfst Inr (breaker_try_acquire S t d)), co_outcome = (\<lambda>S t ok d. apfst Inr (breaker_record_outcome S t ok d)),
      co_transition = (\<lambda>S t st w d. (Inr (), breaker_transition S t st w d)), co_snapshot = (\<lambda>S t d. Inr (breaker_get_snapshot S t d))\<rparr>"

definition memory_circuits_inv :: "breaker_store \<Rightarrow> bool" where
  "memory_circuits_inv d \<longleftrightarrow> dwf d \<and> (\<forall>n e. dget d n = Some e \<longrightarrow> be_state e \<in> {FORCED_OPEN, FORCED_CLOSED} \<longrightarrow> expires_at e = Never)"

lemma living_simps [simp]:
  "living t None = None"
  "living t (Some e) = (if passed t (expires_at e) \<or> says_nothing e then None else Some e)"
  by (simp_all add: living_def)

lemma living_later: "living t v = None \<Longrightarrow> t \<le> u \<Longrightarrow> living u v = None"
  by (cases v) (auto dest: passed_later split: if_splits)

lemma living_alive: "t \<le> u \<Longrightarrow> living u (living t v) = living u v"
  by (cases v) (auto dest: passed_later)

lemma fresh_says_nothing [simp]: "says_nothing (fresh_entry t)"
  by (simp add: says_nothing_def fresh_entry_def)

lemma living_view: "living t (dget d n) = (case view n t d of None \<Rightarrow> None | Some e \<Rightarrow> if says_nothing e then None else Some e)"
  by (auto simp: view_def split: option.splits)

text \<open>What a call reads: the live circuit, or a fresh one in its place.\<close>

lemma memory_live:
  assumes "dwf d" "living t (dget d (bs_name S)) = v"
  shows "v = Some e \<Longrightarrow> breaker_live S t d = (e, d) \<and> dget d (bs_name S) = Some e"
    and "v = None \<Longrightarrow> (fst (breaker_live S t d))\<lparr>expires_at := x\<rparr> = (fresh_entry t)\<lparr>expires_at := x\<rparr> \<and> be_state (fst (breaker_live S t d)) = CLOSED"
  using assms(2)
  by (auto simp: breaker_live_def living_def says_nothing_def fresh_entry_def split: option.splits if_splits)

lemma memory_circuit_try:
  fixes t :: seconds and S :: breaker_strategy
  assumes "memory_circuits_inv d"
  defines "v \<equiv> living t (dget d (bs_name S))"
  shows "fst (breaker_try_acquire S t d) = fst (circuit_try (bs_config S) t v)"
    and "t \<le> u \<Longrightarrow> living u (dget (snd (breaker_try_acquire S t d)) (bs_name S)) = living u (snd (circuit_try (bs_config S) t v))"
proof -
  have "fst (breaker_try_acquire S t d) = fst (circuit_try (bs_config S) t v) \<and>
    (t \<le> u \<longrightarrow> living u (dget (snd (breaker_try_acquire S t d)) (bs_name S)) = living u (snd (circuit_try (bs_config S) t v)))"
  proof (cases v)
    case None
    show ?thesis
    proof (cases "dget d (bs_name S)")
      case absent: None
      then show ?thesis using None by (simp add: breaker_try_acquire_def circuit_try_def)
    next
      case (Some e)
      have gone: "passed t (expires_at e) \<or> says_nothing e" using None Some by (auto simp: v_def split: if_splits)
      have "passed t (expires_at e) \<Longrightarrow> be_state e \<noteq> FORCED_OPEN" using assms(1) Some by (auto simp: memory_circuits_inv_def)
      then show ?thesis using gone None Some passed_later [of t "expires_at e" u]
        by (auto simp: breaker_try_acquire_def admit_recovering_def circuit_try_def breaker_live_def says_nothing_def fresh_entry_def)
    qed
  next
    case (Some e)
    then have d: "dget d (bs_name S) = Some e" and live: "\<not> passed t (expires_at e)" "\<not> says_nothing e"
      by (auto simp: v_def living_def split: option.splits if_splits)
    then show ?thesis using Some by (auto simp: breaker_try_acquire_def admit_recovering_def circuit_try_def Let_def)
  qed
  then show "fst (breaker_try_acquire S t d) = fst (circuit_try (bs_config S) t v)"
    "t \<le> u \<Longrightarrow> living u (dget (snd (breaker_try_acquire S t d)) (bs_name S)) = living u (snd (circuit_try (bs_config S) t v))" by auto
qed

lemma memory_circuit_outcome:
  fixes t :: seconds and S :: breaker_strategy
  assumes "memory_circuits_inv d"
  defines "v \<equiv> living t (dget d (bs_name S))"
  shows "fst (breaker_record_outcome S t ok d) = fst (circuit_outcome (bs_config S) t ok v)"
    and "living u (dget (snd (breaker_record_outcome S t ok d)) (bs_name S)) = living u (snd (circuit_outcome (bs_config S) t ok v))"
proof -
  define e0 where "e0 = (case v of None \<Rightarrow> fresh_entry t | Some e \<Rightarrow> e)"
  have wf: "dwf d" using assms(1) by (simp add: memory_circuits_inv_def)
  have v: "living t (dget d (bs_name S)) = v" by (simp add: v_def)
  have l: "(fst (breaker_live S t d))\<lparr>expires_at := x\<rparr> = e0\<lparr>expires_at := x\<rparr>" for x
    using memory_live [OF wf v] by (cases v) (auto simp: e0_def)
  have st: "be_state (fst (breaker_live S t d)) = be_state e0"
    using memory_live [OF wf v] by (cases v) (auto simp: e0_def fresh_entry_def)
  have held: "be_state e0 \<in> {FORCED_OPEN, FORCED_CLOSED, OPEN} \<Longrightarrow> v = Some e0 \<and> breaker_live S t d = (e0, d) \<and> dget d (bs_name S) = Some e0"
    using memory_live(1) [OF wf v] by (cases v) (auto simp: e0_def fresh_entry_def)
  have c: "circuit_outcome (bs_config S) t ok v = (if be_state e0 \<in> {FORCED_OPEN, FORCED_CLOSED, OPEN} then (snapshot_of e0, v)
      else circuit_outcome (bs_config S) t ok (Some e0))" by (auto simp: circuit_outcome_def e0_def)
  obtain e d1 where e: "breaker_live S t d = (e, d1)" by fastforce
  have "fst (breaker_record_outcome S t ok d) = fst (circuit_outcome (bs_config S) t ok v) \<and>
    living u (dget (snd (breaker_record_outcome S t ok d)) (bs_name S)) = living u (snd (circuit_outcome (bs_config S) t ok v))"
  proof (cases "be_state e0 \<in> {FORCED_OPEN, FORCED_CLOSED, OPEN}")
    case True
    then show ?thesis using held [OF True] by (auto simp: breaker_record_outcome_def circuit_outcome_def)
  next
    case False
    have l': "e\<lparr>expires_at := x\<rparr> = e0\<lparr>expires_at := x\<rparr>" "be_state e = be_state e0" for x using l st e by auto
    have "breaker_record_outcome S t ok d = (if ok then record_success S (e0\<lparr>expires_at := At (t + STATE_TTL)\<rparr>) d1
        else record_error S t (e0\<lparr>expires_at := At (t + STATE_TTL)\<rparr>) d1)"
      using False by (simp add: breaker_record_outcome_def e l')
    then show ?thesis using False unfolding c
      by (auto simp: circuit_outcome_def record_success_def record_error_def breaker_close_def Let_def)
  qed
  then show "fst (breaker_record_outcome S t ok d) = fst (circuit_outcome (bs_config S) t ok v)"
    "living u (dget (snd (breaker_record_outcome S t ok d)) (bs_name S)) = living u (snd (circuit_outcome (bs_config S) t ok v))" by auto
qed

lemma memory_circuit_transition: "dget (breaker_transition S t st w d) (bs_name S) = circuit_transition (bs_config S) t st w"
  by (cases st) (auto simp: breaker_transition_def circuit_transition_def breaker_close_def Let_def split: prod.split option.split)

lemma memory_circuit_snapshot: "breaker_get_snapshot S t d = circuit_snapshot (living t (dget d (bs_name S)))"
  by (auto simp: breaker_get_snapshot_def circuit_snapshot_def says_nothing_def snapshot_of_def DEFAULT_SNAPSHOT_def split: option.split)

fun memory_call :: "circuit_call \<Rightarrow> breaker_call option" where
  "memory_call CTry = Some TryAcquire"
| "memory_call (COutcome ok) = Some (Outcome ok)"
| "memory_call (CTransition st w) = Some (Transition st w)"
| "memory_call CSnapshot = None"

lemma memory_circuit_store: "snd (circuit_step memory_circuits S t c d) = (case memory_call c of None \<Rightarrow> d | Some b \<Rightarrow> breaker_step S t b d)"
  by (cases c) (simp_all add: memory_circuits_def split_beta)

lemma forced_never_step:
  assumes "memory_circuits_inv d"
  shows "memory_circuits_inv (breaker_step S t c d)"
proof -
  have wf: "dwf d" and f: "\<And>n e. dget d n = Some e \<Longrightarrow> be_state e \<in> {FORCED_OPEN, FORCED_CLOSED} \<Longrightarrow> expires_at e = Never"
    using assms by (auto simp: memory_circuits_inv_def)
  have live: "dget (snd (breaker_live S t d)) n = Some e \<Longrightarrow> be_state e \<in> {FORCED_OPEN, FORCED_CLOSED} \<Longrightarrow> expires_at e = Never" for n e
    using breaker_cull_get [OF pd.wf_put [OF wf], of "bs_name S" t "bs_name S" "fresh_entry t" n] f [of n e]
    by (auto simp: breaker_live_def fresh_entry_def split: option.splits if_splits)
  have fst: "be_state (fst (breaker_live S t d)) \<in> {FORCED_OPEN, FORCED_CLOSED} \<Longrightarrow> expires_at (fst (breaker_live S t d)) = Never"
    using f by (auto simp: breaker_live_def fresh_entry_def split: option.splits if_splits)
  have "dget (breaker_step S t c d) n = Some e \<Longrightarrow> be_state e \<in> {FORCED_OPEN, FORCED_CLOSED} \<Longrightarrow> expires_at e = Never" for n e
  proof (cases c)
    case TryAcquire
    assume a: "dget (breaker_step S t c d) n = Some e" "be_state e \<in> {FORCED_OPEN, FORCED_CLOSED}"
    then show ?thesis using f [of n e] live [of n e] TryAcquire
      by (auto simp: breaker_try_acquire_def admit_recovering_def Let_def split: option.splits if_splits)
  next
    case (Outcome ok)
    assume a: "dget (breaker_step S t c d) n = Some e" "be_state e \<in> {FORCED_OPEN, FORCED_CLOSED}"
    then show ?thesis using live [of n e] fst Outcome
      by (auto simp: breaker_record_outcome_def record_success_def record_error_def breaker_close_def Let_def split: prod.splits if_splits)
  next
    case (Transition st w)
    assume a: "dget (breaker_step S t c d) n = Some e" "be_state e \<in> {FORCED_OPEN, FORCED_CLOSED}"
    then show ?thesis using live [of n e] f [of n e] Transition
      by (auto simp: breaker_transition_def breaker_close_def Let_def split: prod.splits if_splits)
  qed
  then show ?thesis using breaker_step_wf [OF wf] by (auto simp: memory_circuits_inv_def)
qed

interpretation mcs: circuit_store memory_circuits dget memory_circuits_inv "\<lambda>d k. True"
proof (unfold_locales, goal_cases)
  case (1 s k S t c)
  then show ?case using memory_circuit_try(1) [OF 1(1)] memory_circuit_outcome(1) [OF 1(1)] memory_circuit_snapshot
    by (cases c) (auto simp: memory_circuits_def split_beta)
next
  case (2 s k t u S c n)
  show ?case
  proof (cases "n = bs_name S")
    case True
    then show ?thesis unfolding memory_circuit_store using memory_circuit_try(2) [OF 2(1,3)] memory_circuit_outcome(2) [OF 2(1)] memory_circuit_transition
      by (cases c) (auto simp: living_alive [OF 2(3)])
  next
    case False
    have "dwf s" using 2(1) by (simp add: memory_circuits_inv_def)
    then show ?thesis unfolding memory_circuit_store living_view using False breaker_step_frame [OF _ False 2(3)] by (cases "memory_call c") simp_all
  qed
next
  case (3 s k S t c)
  then show ?case unfolding memory_circuit_store using forced_never_step [OF 3(1)] by (simp split: option.split)
qed

text \<open>The in-memory adapter answers as the circuits.\<close>

lemma memory_answers_spec: "in_time t xs \<Longrightarrow> circuit_run memory_circuits xs [] = spec_run xs (\<lambda>n. None)"
  by (rule mcs.run_spec) (auto simp: memory_circuits_inv_def)

end
