(* ===== verification/Sql_Breaker.thy ===== *)
theory Sql_Breaker
  imports Circuit
begin

text \<open>
  The circuit breakers on Postgres and SQLite (\<open>resilience/circuitbreaker/postgres.py\<close>, \<open>sqlite.py\<close>): the functions in PL/pgSQL
  and the transactions of the SQLite strategy on a table with one row per breaker, and the sweeps that delete expired rows.
  Both interpret \<open>circuit_store\<close>, so that they answer as the in-memory adapter does, for Postgres as long as a counter fits
  its 32-bit column; and what happens when it does not.
\<close>

section \<open>The table\<close>

record cb_row =
  cr_state :: cb_state
  cr_opened_at :: seconds
  cr_cool_down :: seconds
  cr_cerr :: int
  cr_csucc :: int
  cr_ho_admit :: int
  cr_updated_at :: seconds

type_synonym cb_table = "(string, cb_row) pydict"

text \<open>\<open>updated_at + GREATEST(state_ttl, factor * cool_down) <= now\<close>, for a state that no operator holds.\<close>

definition row_expired :: "seconds \<Rightarrow> cb_row \<Rightarrow> bool" where
  "row_expired now r \<longleftrightarrow> cr_state r \<notin> {FORCED_OPEN, FORCED_CLOSED} \<and> cr_updated_at r + max STATE_TTL (10 * cr_cool_down r) \<le> now"

section \<open>Postgres\<close>

text \<open>A value out of the range of a column of type \<open>INT\<close> (\<open>fits_int\<close>).\<close>

datatype pg_exc = NumericValueOutOfRange

definition pg_delete_expired :: "string \<Rightarrow> seconds \<Rightarrow> cb_table \<Rightarrow> cb_table" where
  "pg_delete_expired name now tab = (case dget tab name of None \<Rightarrow> tab | Some r \<Rightarrow> if row_expired now r then ddel name tab else tab)"

definition pg_try_acquire :: "int \<Rightarrow> seconds \<Rightarrow> string \<Rightarrow> cb_table \<Rightarrow> bool \<times> cb_table" where
  "pg_try_acquire capacity now name tab0 =
     (let tab = pg_delete_expired name now tab0
      in case dget tab name of
           None \<Rightarrow> (True, tab)
         | Some r \<Rightarrow>
             if cr_state r = FORCED_CLOSED \<or> cr_state r = CLOSED then (True, tab)
             else if cr_state r = FORCED_OPEN then (False, tab)
             else if cr_state r = OPEN \<and> \<not> cr_opened_at r + cr_cool_down r \<le> now then (False, tab)
             else let r1 = (if cr_state r = OPEN
                            then r\<lparr>cr_state := HALF_OPEN, cr_opened_at := 0, cr_cool_down := 0, cr_cerr := 0, cr_csucc := 0, cr_ho_admit := 0, cr_updated_at := now\<rparr>
                            else r)
                  in if cr_ho_admit r1 < capacity then (True, dput name (r1\<lparr>cr_ho_admit := cr_ho_admit r1 + 1, cr_updated_at := now\<rparr>) tab)
                     else (False, if cr_state r = OPEN then dput name r1 tab else tab))"

text \<open>\<open>INSERT ... ON CONFLICT DO UPDATE\<close> of a counter, with the defaults of the table.\<close>

definition pg_count_error :: "cb_state \<Rightarrow> seconds \<Rightarrow> cb_row option \<Rightarrow> cb_row" where
  "pg_count_error st now row =
     (case row of
        None \<Rightarrow> \<lparr>cr_state = st, cr_opened_at = 0, cr_cool_down = 0, cr_cerr = 1, cr_csucc = 0, cr_ho_admit = 0, cr_updated_at = now\<rparr>
      | Some r \<Rightarrow> r\<lparr>cr_cerr := cr_cerr r + 1, cr_csucc := 0, cr_updated_at := now\<rparr>)"

definition pg_count_success :: "cb_state \<Rightarrow> seconds \<Rightarrow> cb_row option \<Rightarrow> cb_row" where
  "pg_count_success st now row =
     (case row of
        None \<Rightarrow> \<lparr>cr_state = st, cr_opened_at = 0, cr_cool_down = 0, cr_cerr = 0, cr_csucc = 1, cr_ho_admit = 0, cr_updated_at = now\<rparr>
      | Some r \<Rightarrow> r\<lparr>cr_csucc := cr_csucc r + 1, cr_cerr := 0, cr_updated_at := now\<rparr>)"

text \<open>A value out of range aborts the transaction, the deletion of the expired row included.\<close>

definition pg_record_error :: "int \<Rightarrow> seconds \<Rightarrow> seconds \<Rightarrow> string \<Rightarrow> cb_table \<Rightarrow> (pg_exc + breaker_snapshot) \<times> cb_table" where
  "pg_record_error threshold reset now name tab0 =
     (let tab = pg_delete_expired name now tab0;
          (v_state, v_opened_at, v_ho_admit) = (case dget tab name of None \<Rightarrow> (CLOSED, 0, 0) | Some r \<Rightarrow> (cr_state r, cr_opened_at r, cr_ho_admit r))
      in if v_state \<in> {FORCED_OPEN, FORCED_CLOSED, OPEN}
         then (Inr \<lparr>sn_state = v_state, sn_opened_at = v_opened_at, sn_errors = 0, sn_successes = 0\<rparr>, tab)
         else let r = pg_count_error v_state now (dget tab name)
              in if \<not> fits_int (cr_cerr r) then (Inl NumericValueOutOfRange, tab0)
                 else let r1 = (if v_state = HALF_OPEN \<and> 0 < v_ho_admit then r\<lparr>cr_ho_admit := cr_ho_admit r - 1, cr_updated_at := now\<rparr> else r)
                      in if threshold \<le> cr_cerr r
                         then (Inr \<lparr>sn_state = OPEN, sn_opened_at = now, sn_errors = 0, sn_successes = 0\<rparr>,
                               dput name (r1\<lparr>cr_state := OPEN, cr_opened_at := now, cr_cool_down := reset, cr_cerr := 0, cr_csucc := 0, cr_ho_admit := 0, cr_updated_at := now\<rparr>) tab)
                         else (Inr \<lparr>sn_state = v_state, sn_opened_at = v_opened_at, sn_errors = cr_cerr r, sn_successes = 0\<rparr>, dput name r1 tab))"

definition pg_record_success :: "int \<Rightarrow> seconds \<Rightarrow> string \<Rightarrow> cb_table \<Rightarrow> (pg_exc + breaker_snapshot) \<times> cb_table" where
  "pg_record_success threshold now name tab0 =
     (let tab = pg_delete_expired name now tab0;
          (v_state, v_opened_at, v_ho_admit) = (case dget tab name of None \<Rightarrow> (CLOSED, 0, 0) | Some r \<Rightarrow> (cr_state r, cr_opened_at r, cr_ho_admit r))
      in if v_state \<in> {FORCED_OPEN, FORCED_CLOSED, OPEN}
         then (Inr \<lparr>sn_state = v_state, sn_opened_at = v_opened_at, sn_errors = 0, sn_successes = 0\<rparr>, tab)
         else let r = pg_count_success v_state now (dget tab name)
              in if \<not> fits_int (cr_csucc r) then (Inl NumericValueOutOfRange, tab0)
                 else let r1 = (if v_state = HALF_OPEN \<and> 0 < v_ho_admit then r\<lparr>cr_ho_admit := cr_ho_admit r - 1, cr_updated_at := now\<rparr> else r)
                      in if v_state = HALF_OPEN \<and> threshold \<le> cr_csucc r
                         then (Inr \<lparr>sn_state = CLOSED, sn_opened_at = 0, sn_errors = 0, sn_successes = 0\<rparr>, ddel name (dput name r1 tab))
                         else (Inr \<lparr>sn_state = v_state, sn_opened_at = v_opened_at, sn_errors = 0, sn_successes = cr_csucc r\<rparr>, dput name r1 tab))"

definition pg_transition :: "seconds \<Rightarrow> string \<Rightarrow> cb_state \<Rightarrow> seconds \<Rightarrow> cb_table \<Rightarrow> cb_table" where
  "pg_transition now name desired cool tab =
     (if desired = CLOSED then ddel name tab
      else if desired = OPEN
      then dput name \<lparr>cr_state = OPEN, cr_opened_at = now, cr_cool_down = cool, cr_cerr = 0, cr_csucc = 0, cr_ho_admit = 0, cr_updated_at = now\<rparr> tab
      else dput name \<lparr>cr_state = desired, cr_opened_at = 0, cr_cool_down = 0, cr_cerr = 0, cr_csucc = 0, cr_ho_admit = 0, cr_updated_at = now\<rparr> tab)"

definition pg_get_state :: "seconds \<Rightarrow> string \<Rightarrow> cb_table \<Rightarrow> breaker_snapshot" where
  "pg_get_state now name tab =
     (case dget tab name of
        None \<Rightarrow> \<lparr>sn_state = CLOSED, sn_opened_at = 0, sn_errors = 0, sn_successes = 0\<rparr>
      | Some r \<Rightarrow>
          if cr_state r \<in> {FORCED_OPEN, FORCED_CLOSED} \<or> now < cr_updated_at r + max STATE_TTL (10 * cr_cool_down r)
          then \<lparr>sn_state = cr_state r, sn_opened_at = cr_opened_at r, sn_errors = cr_cerr r, sn_successes = cr_csucc r\<rparr>
          else \<lparr>sn_state = CLOSED, sn_opened_at = 0, sn_errors = 0, sn_successes = 0\<rparr>)"

definition CLEANUP_LIMIT :: nat where
  "CLEANUP_LIMIT = 100"

text \<open>
  The sweep: at most \<open>p_limit\<close> expired rows; a row whose lock is held, given by \<open>busy\<close>, is skipped. The rows are read in the order of
  the table; which order does not matter below.
\<close>

definition pg_cleanup :: "(string \<Rightarrow> bool) \<Rightarrow> nat \<Rightarrow> seconds \<Rightarrow> cb_table \<Rightarrow> cb_table" where
  "pg_cleanup busy p_limit now tab =
     (let names = take p_limit (map fst (filter (\<lambda>(n, r). row_expired now r) tab))
      in fold (\<lambda>n tab. if busy n then tab else pg_delete_expired n now tab) names tab)"

definition cb_row_key :: "string \<Rightarrow> string \<Rightarrow> string" where
  "cb_row_key pre name = pre @ ''cb:'' @ name"

definition postgres_circuits :: "string \<Rightarrow> (pg_exc, cb_table) circuit_ops" where
  "postgres_circuits pre =
     \<lparr>co_try = (\<lambda>S t tab. apfst Inr (pg_try_acquire (half_open_capacity (bs_config S)) t (cb_row_key pre (bs_name S)) tab)),
      co_outcome = (\<lambda>S t ok tab. if ok then pg_record_success (success_threshold (bs_config S)) t (cb_row_key pre (bs_name S)) tab
                     else pg_record_error (error_threshold (bs_config S)) (reset_timeout (bs_config S)) t (cb_row_key pre (bs_name S)) tab),
      co_transition = (\<lambda>S t st w tab. (Inr (), pg_transition t (cb_row_key pre (bs_name S)) st (case w of Some c \<Rightarrow> c | None \<Rightarrow> reset_timeout (bs_config S)) tab)),
      co_snapshot = (\<lambda>S t tab. Inr (pg_get_state t (cb_row_key pre (bs_name S)) tab))\<rparr>"

section \<open>SQLite\<close>

text \<open>Each call of \<open>time()\<close> is an argument: when a row is read, compared or opened, and written.\<close>

definition new_cb_row :: "seconds \<Rightarrow> cb_row" where
  "new_cb_row u = \<lparr>cr_state = CLOSED, cr_opened_at = 0, cr_cool_down = 0, cr_cerr = 0, cr_csucc = 0, cr_ho_admit = 0, cr_updated_at = u\<rparr>"

definition sqlite_cb_read :: "seconds \<Rightarrow> string \<Rightarrow> cb_table \<Rightarrow> cb_row" where
  "sqlite_cb_read now name tab =
     (case dget tab name of
        None \<Rightarrow> new_cb_row 0
      | Some r \<Rightarrow> if cr_state r \<notin> {FORCED_OPEN, FORCED_CLOSED} \<and> cr_updated_at r + resolve_state_ttl (cr_cool_down r) \<le> now then new_cb_row 0 else r)"

definition sqlite_cb_write :: "seconds \<Rightarrow> string \<Rightarrow> cb_row \<Rightarrow> cb_table \<Rightarrow> cb_table" where
  "sqlite_cb_write now name r tab = dput name (r\<lparr>cr_updated_at := now\<rparr>) tab"

definition sqlite_try_acquire :: "int \<Rightarrow> seconds \<Rightarrow> seconds \<Rightarrow> seconds \<Rightarrow> seconds \<Rightarrow> string \<Rightarrow> cb_table \<Rightarrow> bool \<times> cb_table" where
  "sqlite_try_acquire capacity t1 t2 t3 t4 name tab =
     (let r = sqlite_cb_read t1 name tab
      in if cr_state r = CLOSED \<or> cr_state r = FORCED_CLOSED then (True, tab)
         else if cr_state r = FORCED_OPEN then (False, tab)
         else if cr_state r = OPEN \<and> \<not> cr_opened_at r + cr_cool_down r \<le> t2 then (False, tab)
         else let (r1, tab1) = (if cr_state r = OPEN
                                then let r1 = r\<lparr>cr_state := HALF_OPEN, cr_opened_at := 0, cr_cool_down := 0, cr_cerr := 0, cr_csucc := 0, cr_ho_admit := 0\<rparr>
                                     in (r1, sqlite_cb_write t3 name r1 tab)
                                else (r, tab))
              in if cr_state r1 = HALF_OPEN \<and> cr_ho_admit r1 < capacity
                 then (True, sqlite_cb_write t4 name (r1\<lparr>cr_ho_admit := cr_ho_admit r1 + 1\<rparr>) tab1)
                 else (False, tab1))"

definition row_snapshot :: "cb_row \<Rightarrow> breaker_snapshot" where
  "row_snapshot r = \<lparr>sn_state = cr_state r, sn_opened_at = cr_opened_at r, sn_errors = cr_cerr r, sn_successes = cr_csucc r\<rparr>"

definition sqlite_record_outcome :: "breaker_config \<Rightarrow> bool \<Rightarrow> seconds \<Rightarrow> seconds \<Rightarrow> seconds \<Rightarrow> string \<Rightarrow> cb_table \<Rightarrow> breaker_snapshot \<times> cb_table" where
  "sqlite_record_outcome c success t1 t2 t3 name tab =
     (let r = sqlite_cb_read t1 name tab
      in if cr_state r \<in> {FORCED_OPEN, FORCED_CLOSED, OPEN} then (row_snapshot r, tab)
         else if success
         then let r1 = r\<lparr>cr_csucc := cr_csucc r + 1, cr_cerr := 0\<rparr>;
                  r2 = (if cr_state r1 = HALF_OPEN \<and> 0 < cr_ho_admit r1 then r1\<lparr>cr_ho_admit := cr_ho_admit r1 - 1\<rparr> else r1)
              in if cr_state r1 = HALF_OPEN \<and> success_threshold c \<le> cr_csucc r2 then (DEFAULT_SNAPSHOT, ddel name tab)
                 else (row_snapshot r2, sqlite_cb_write t3 name r2 tab)
         else let r1 = r\<lparr>cr_cerr := cr_cerr r + 1, cr_csucc := 0\<rparr>;
                  r2 = (if cr_state r1 = HALF_OPEN \<and> 0 < cr_ho_admit r1 then r1\<lparr>cr_ho_admit := cr_ho_admit r1 - 1\<rparr> else r1);
                  r3 = (if error_threshold c \<le> cr_cerr r2
                        then r2\<lparr>cr_state := OPEN, cr_opened_at := t2, cr_cool_down := reset_timeout c, cr_cerr := 0, cr_csucc := 0, cr_ho_admit := 0\<rparr> else r2)
              in (row_snapshot r3, sqlite_cb_write t3 name r3 tab))"

definition sqlite_transition :: "breaker_config \<Rightarrow> cb_state \<Rightarrow> seconds option \<Rightarrow> seconds \<Rightarrow> seconds \<Rightarrow> string \<Rightarrow> cb_table \<Rightarrow> cb_table" where
  "sqlite_transition c desired cool t2 t3 name tab =
     (if desired = CLOSED then ddel name tab
      else let r = (new_cb_row 0)\<lparr>cr_state := desired\<rparr>;
               r1 = (if desired = OPEN then r\<lparr>cr_opened_at := t2, cr_cool_down := (case cool of Some x \<Rightarrow> x | None \<Rightarrow> reset_timeout c)\<rparr> else r)
           in sqlite_cb_write t3 name r1 tab)"

definition sqlite_get_snapshot :: "seconds \<Rightarrow> string \<Rightarrow> cb_table \<Rightarrow> breaker_snapshot" where
  "sqlite_get_snapshot now name tab = row_snapshot (sqlite_cb_read now name tab)"

definition sqlite_cleanup :: "nat \<Rightarrow> seconds \<Rightarrow> cb_table \<Rightarrow> cb_table" where
  "sqlite_cleanup limit now tab = fold AList.delete (take limit (map fst (filter (\<lambda>(n, r). row_expired now r) tab))) tab"

text \<open>The calls with one reading of the clock.\<close>

definition sqlite_circuits :: "string \<Rightarrow> (unit, cb_table) circuit_ops" where
  "sqlite_circuits pre =
     \<lparr>co_try = (\<lambda>S t tab. apfst Inr (sqlite_try_acquire (half_open_capacity (bs_config S)) t t t t (cb_row_key pre (bs_name S)) tab)),
      co_outcome = (\<lambda>S t ok tab. apfst Inr (sqlite_record_outcome (bs_config S) ok t t t (cb_row_key pre (bs_name S)) tab)),
      co_transition = (\<lambda>S t st w tab. (Inr (), sqlite_transition (bs_config S) st w t t (cb_row_key pre (bs_name S)) tab)),
      co_snapshot = (\<lambda>S t tab. Inr (sqlite_get_snapshot t (cb_row_key pre (bs_name S)) tab))\<rparr>"

section \<open>A row is a circuit\<close>

definition entry_of_row :: "cb_row \<Rightarrow> breaker_entry" where
  "entry_of_row r = \<lparr>be_state = cr_state r, opened_at = cr_opened_at r, cool_down = cr_cool_down r, error_count = cr_cerr r, success_count = cr_csucc r,
     half_open_admit = cr_ho_admit r,
     expires_at = (if cr_state r \<in> {FORCED_OPEN, FORCED_CLOSED} then Never else At (cr_updated_at r + max STATE_TTL (10 * cr_cool_down r)))\<rparr>"

definition row_circuit :: "string \<Rightarrow> cb_table \<Rightarrow> string \<Rightarrow> breaker_entry option" where
  "row_circuit pre tab n = map_option entry_of_row (dget tab (cb_row_key pre n))"

text \<open>The counters of a held or open circuit are cleared, and no row is closed with anything but counters.\<close>

definition row_ok :: "cb_row \<Rightarrow> bool" where
  "row_ok r \<longleftrightarrow> (cr_state r \<in> {FORCED_OPEN, FORCED_CLOSED, OPEN} \<longrightarrow> cr_cerr r = 0 \<and> cr_csucc r = 0) \<and> (cr_state r \<noteq> OPEN \<longrightarrow> cr_cool_down r = 0) \<and>
     0 \<le> cr_cerr r \<and> 0 \<le> cr_csucc r"

definition table_ok :: "cb_table \<Rightarrow> bool" where
  "table_ok tab \<longleftrightarrow> (\<forall>k r. dget tab k = Some r \<longrightarrow> row_ok r)"

text \<open>No counter leaves its column within \<open>k\<close> calls.\<close>

definition table_room :: "cb_table \<Rightarrow> nat \<Rightarrow> bool" where
  "table_room tab k \<longleftrightarrow> int k \<le> 2147483647 \<and> (\<forall>n r. dget tab n = Some r \<longrightarrow> cr_cerr r + int k \<le> 2147483647 \<and> cr_csucc r + int k \<le> 2147483647)"

lemma row_expired_passed: "row_expired t r \<longleftrightarrow> passed t (expires_at (entry_of_row r))"
  by (simp add: row_expired_def entry_of_row_def)

lemma cb_row_key_inj [simp]: "cb_row_key pre n = cb_row_key pre m \<longleftrightarrow> n = m"
  by (simp add: cb_row_key_def)

lemma STATE_TTL_pos [simp]: "max STATE_TTL 0 = STATE_TTL"
  by (simp add: STATE_TTL_def)

lemma row_nothing: "row_ok r \<Longrightarrow> says_nothing (entry_of_row r) \<longleftrightarrow> cr_state r = CLOSED \<and> cr_opened_at r = 0 \<and> cr_cerr r = 0 \<and> cr_csucc r = 0 \<and> cr_ho_admit r = 0"
  by (auto simp: says_nothing_def entry_of_row_def row_ok_def)

text \<open>After the deletion of an expired row the table holds the circuit, or a row that says nothing.\<close>

lemma delete_expired_get:
  "dget (pg_delete_expired k now tab) k = (case dget tab k of None \<Rightarrow> None | Some r \<Rightarrow> if row_expired now r then None else Some r)"
  "j \<noteq> k \<Longrightarrow> dget (pg_delete_expired k now tab) j = dget tab j"
  by (auto simp: pg_delete_expired_def split: option.split)

lemma delete_expired_alive: "t \<le> u \<Longrightarrow> living u (map_option entry_of_row (dget (pg_delete_expired k t tab) j)) = living u (map_option entry_of_row (dget tab j))"
  by (cases "j = k"; cases "dget tab j") (auto simp: delete_expired_get row_expired_passed dest: passed_later)

lemmas entry_simps = entry_of_row_def snapshot_of_def DEFAULT_SNAPSHOT_def fresh_entry_def resolve_state_ttl_def

text \<open>What a call sees of a row: nothing of an expired one.\<close>

definition live_row :: "seconds \<Rightarrow> string \<Rightarrow> cb_table \<Rightarrow> cb_row option" where
  "live_row t k tab = (case dget tab k of None \<Rightarrow> None | Some r \<Rightarrow> if row_expired t r then None else Some r)"

lemma live_row_ok: "table_ok tab \<Longrightarrow> live_row t k tab = Some r \<Longrightarrow> row_ok r \<and> dget tab k = Some r"
  by (auto simp: live_row_def table_ok_def split: option.splits if_splits)

lemma live_row_alive: "t \<le> u \<Longrightarrow> living u (map_option entry_of_row (live_row t k tab)) = living u (map_option entry_of_row (dget tab k))"
  by (auto simp: live_row_def row_expired_passed dest: passed_later split: option.split)

lemma living_live_row:
  "living t (map_option entry_of_row (dget tab k)) =
     (case live_row t k tab of None \<Rightarrow> None | Some r \<Rightarrow> if says_nothing (entry_of_row r) then None else Some (entry_of_row r))"
  by (auto simp: live_row_def row_expired_passed split: option.split)

text \<open>
  A table of circuits: each call does on the visible row of its breaker what it does on a circuit, up to rows that have expired
  and are still there, leaves the other rows, and keeps the table in order.
\<close>

locale circuit_rows =
  fixes B :: "('x, cb_table) circuit_ops" and pre :: string and room :: "cb_table \<Rightarrow> nat \<Rightarrow> bool"
  assumes row_answer: "table_ok tab \<Longrightarrow> room tab (Suc n) \<Longrightarrow>
      fst (circuit_step B S t c tab) =
        fst (circuit_spec (bs_config S) t c (map_option entry_of_row (live_row t (cb_row_key pre (bs_name S)) tab)) :: 'x circuit_answer \<times> breaker_entry option)"
    and row_after: "table_ok tab \<Longrightarrow> room tab (Suc n) \<Longrightarrow> t \<le> u \<Longrightarrow>
      living u (row_circuit pre (snd (circuit_step B S t c tab)) (bs_name S)) =
        living u (snd (circuit_spec (bs_config S) t c (map_option entry_of_row (live_row t (cb_row_key pre (bs_name S)) tab)) :: 'x circuit_answer \<times> breaker_entry option))"
    and row_frame: "j \<noteq> cb_row_key pre (bs_name S) \<Longrightarrow> dget (snd (circuit_step B S t c tab)) j = dget tab j"
    and row_kept: "table_ok tab \<Longrightarrow> room tab (Suc n) \<Longrightarrow>
      pred_option row_ok (dget (snd (circuit_step B S t c tab)) (cb_row_key pre (bs_name S))) \<and> room (snd (circuit_step B S t c tab)) n"
begin

lemma row_heard: "living t (row_circuit pre tab n) = heard (map_option entry_of_row (live_row t (cb_row_key pre n) tab))"
  by (simp add: row_circuit_def heard_def living_live_row split: option.split)

end

sublocale circuit_rows \<subseteq> circuit_store B "row_circuit pre" table_ok room
proof (unfold_locales, goal_cases)
  case (1 s k S t c)
  then show ?case using row_answer by (simp add: row_heard heard_step)
next
  case (2 s k t u S c n)
  show ?case
  proof (cases "n = bs_name S")
    case True
    then show ?thesis using row_after [OF 2, of S c] by (simp add: row_heard [of t] heard_step)
  next
    case False
    then show ?thesis using row_frame [of "cb_row_key pre n" S t c s] by (simp add: row_circuit_def)
  qed
next
  case (3 s k S t c)
  have "row_ok r" if r: "dget (snd (circuit_step B S t c s)) j = Some r" for j r
    using row_kept [OF 3, of S t c] row_frame [of j S t c s] r 3(1) by (cases "j = cb_row_key pre (bs_name S)") (auto simp: table_ok_def)
  then show ?case using row_kept [OF 3, of S t c] by (auto simp: table_ok_def)
qed

lemma pg_try_circuit:
  assumes "table_ok tab"
  shows "circuit_try c t (map_option entry_of_row (live_row t k tab)) =
    map_prod id (\<lambda>tab1. map_option entry_of_row (dget tab1 k)) (pg_try_acquire (half_open_capacity c) t k tab)"
proof (cases "live_row t k tab")
  case None
  then show ?thesis by (auto simp: pg_try_acquire_def Let_def circuit_try_def delete_expired_get live_row_def split: option.splits if_splits)
next
  case (Some r)
  then have d: "dget (pg_delete_expired k t tab) k = Some r" by (auto simp: delete_expired_get live_row_def)
  have ok: "row_ok r" using live_row_ok [OF assms Some] by simp
  show ?thesis
  proof (cases "cr_state r")
    case HALF_OPEN
    then have "cr_cool_down r = 0" using ok by (simp add: row_ok_def)
    then show ?thesis using Some d HALF_OPEN by (simp add: pg_try_acquire_def Let_def circuit_try_def entry_of_row_def)
  qed (use Some d in \<open>simp_all add: pg_try_acquire_def Let_def circuit_try_def entry_of_row_def\<close>)
qed

definition row_room :: "nat \<Rightarrow> cb_row \<Rightarrow> bool" where
  "row_room n r \<longleftrightarrow> row_ok r \<and> cr_cerr r + int n \<le> 2147483647 \<and> cr_csucc r + int n \<le> 2147483647"

lemma table_row_room: "table_ok tab \<Longrightarrow> table_room tab n \<Longrightarrow> dget tab k = Some r \<Longrightarrow> row_room n r"
  by (auto simp: table_ok_def table_room_def row_room_def)

lemma row_room_less: "row_room (Suc n) r \<Longrightarrow> row_room n r"
  by (auto simp: row_room_def)

lemma row_room_fits: "row_room (Suc n) r \<Longrightarrow> fits_int (cr_cerr r + 1) \<and> fits_int (cr_csucc r + 1)"
  by (auto simp: row_room_def fits_int_def row_ok_def)

lemma pg_error_circuit:
  assumes "table_ok tab" "table_room tab (Suc n)"
  shows "apfst (\<lambda>r. Inr r :: pg_exc + breaker_snapshot) (circuit_outcome c t False (map_option entry_of_row (live_row t k tab))) =
    map_prod id (\<lambda>tab1. map_option entry_of_row (dget tab1 k)) (pg_record_error (error_threshold c) (reset_timeout c) t k tab)"
proof (cases "live_row t k tab")
  case None
  then have d: "dget (pg_delete_expired k t tab) k = None" by (auto simp: delete_expired_get live_row_def)
  show ?thesis using None d by (simp add: pg_record_error_def pg_count_error_def fits_int_def Let_def circuit_outcome_def entry_simps)
next
  case (Some r)
  then have d: "dget (pg_delete_expired k t tab) k = Some r" by (auto simp: delete_expired_get live_row_def)
  have ok: "row_ok r" "dget tab k = Some r" using live_row_ok [OF assms(1) Some] by simp_all
  have f: "fits_int (cr_cerr r + 1)" using row_room_fits [OF table_row_room [OF assms ok(2)]] by simp
  show ?thesis using Some d ok(1) f
    by (cases "cr_state r") (simp_all add: pg_record_error_def pg_count_error_def Let_def circuit_outcome_def entry_simps row_ok_def)
qed

lemma pg_success_circuit:
  assumes "table_ok tab" "table_room tab (Suc n)"
  shows "apfst (\<lambda>r. Inr r :: pg_exc + breaker_snapshot) (circuit_outcome c t True (map_option entry_of_row (live_row t k tab))) =
    map_prod id (\<lambda>tab1. map_option entry_of_row (dget tab1 k)) (pg_record_success (success_threshold c) t k tab)"
proof (cases "live_row t k tab")
  case None
  then have d: "dget (pg_delete_expired k t tab) k = None" by (auto simp: delete_expired_get live_row_def)
  show ?thesis using None d by (simp add: pg_record_success_def pg_count_success_def fits_int_def Let_def circuit_outcome_def entry_simps)
next
  case (Some r)
  then have d: "dget (pg_delete_expired k t tab) k = Some r" by (auto simp: delete_expired_get live_row_def)
  have ok: "row_ok r" "dget tab k = Some r" using live_row_ok [OF assms(1) Some] by simp_all
  have f: "fits_int (cr_csucc r + 1)" using row_room_fits [OF table_row_room [OF assms ok(2)]] by simp
  show ?thesis using Some d ok(1) f
    by (cases "cr_state r") (simp_all add: pg_record_success_def pg_count_success_def Let_def circuit_outcome_def entry_simps row_ok_def)
qed

lemma pg_transition_circuit:
  "map_option entry_of_row (dget (pg_transition t k st (case w of Some x \<Rightarrow> x | None \<Rightarrow> reset_timeout c) tab) k) = circuit_transition c t st w"
  by (cases st; cases w) (simp_all add: pg_transition_def circuit_transition_def entry_simps Let_def)

lemma pg_state_circuit: "pg_get_state t k tab = circuit_snapshot (living t (map_option entry_of_row (dget tab k)))"
  by (auto simp: pg_get_state_def circuit_snapshot_def row_expired_def says_nothing_def entry_simps split: option.split)

text \<open>A call leaves the other rows, and its own row in order and with room for one call less.\<close>

lemma table_frame:
  assumes "j \<noteq> k"
  shows "dget (snd (pg_try_acquire cap t k tab)) j = dget tab j" "dget (snd (pg_record_error th reset t k tab)) j = dget tab j"
    "dget (snd (pg_record_success th t k tab)) j = dget tab j" "dget (pg_transition t k st cool tab) j = dget tab j"
  using assms
  by (simp_all add: pg_try_acquire_def pg_record_error_def pg_record_success_def pg_transition_def delete_expired_get Let_def split: option.split)

lemma room_one:
  assumes "table_ok tab" "table_room tab (Suc n)" "\<And>j. j \<noteq> k \<Longrightarrow> dget tab1 j = dget tab j" "pred_option (row_room n) (dget tab1 k)"
  shows "table_ok tab1 \<and> table_room tab1 n"
proof -
  have "row_room n r" if "dget tab1 j = Some r" for j r
    using assms(3,4) that row_room_less [OF table_row_room [OF assms(1,2)], of j] by (cases "j = k") auto
  then show ?thesis using assms(2) by (auto simp: table_ok_def table_room_def row_room_def)
qed

lemma live_row_room: "table_ok tab \<Longrightarrow> table_room tab (Suc n) \<Longrightarrow> live_row t k tab = Some r \<Longrightarrow> row_room (Suc n) r"
  using live_row_ok table_row_room by blast

lemma deleted_live: "dget (pg_delete_expired k t tab) k = live_row t k tab"
  by (simp add: delete_expired_get live_row_def)

lemma room_no_row: "table_room tab (Suc n) \<Longrightarrow> int n \<le> 2147483646"
  by (simp add: table_room_def)

lemmas room_simps = row_room_def row_ok_def

lemma pg_try_room:
  assumes "table_ok tab" "table_room tab (Suc n)"
  shows "pred_option (row_room n) (dget (snd (pg_try_acquire cap t k tab)) k)"
proof (cases "live_row t k tab")
  case (Some r)
  have "row_room (Suc n) r" by (rule live_row_room [OF assms Some])
  then show ?thesis using Some by (cases "cr_state r") (simp_all add: pg_try_acquire_def deleted_live Let_def room_simps)
qed (simp add: pg_try_acquire_def deleted_live Let_def)

lemma pg_error_room:
  assumes "table_ok tab" "table_room tab (Suc n)"
  shows "pred_option (row_room n) (dget (snd (pg_record_error th reset t k tab)) k)"
proof (cases "live_row t k tab")
  case None
  then show ?thesis using room_no_row [OF assms(2)]
    by (simp add: pg_record_error_def pg_count_error_def fits_int_def deleted_live Let_def room_simps)
next
  case (Some r)
  have r: "row_room (Suc n) r" by (rule live_row_room [OF assms Some])
  then show ?thesis using Some row_room_fits [OF r]
    by (cases "cr_state r") (simp_all add: pg_record_error_def pg_count_error_def deleted_live Let_def room_simps)
qed

lemma pg_success_room:
  assumes "table_ok tab" "table_room tab (Suc n)"
  shows "pred_option (row_room n) (dget (snd (pg_record_success th t k tab)) k)"
proof (cases "live_row t k tab")
  case None
  then show ?thesis using room_no_row [OF assms(2)]
    by (simp add: pg_record_success_def pg_count_success_def fits_int_def deleted_live Let_def room_simps)
next
  case (Some r)
  have r: "row_room (Suc n) r" by (rule live_row_room [OF assms Some])
  then show ?thesis using Some row_room_fits [OF r]
    by (cases "cr_state r") (simp_all add: pg_record_success_def pg_count_success_def deleted_live Let_def room_simps)
qed

lemma transition_room: "table_room tab (Suc n) \<Longrightarrow> pred_option (row_room n) (dget (pg_transition t k st cool tab) k)"
  using room_no_row [of tab n] by (simp add: pg_transition_def room_simps)

lemma pg_step_room:
  assumes "table_ok tab" "table_room tab (Suc n)"
  shows "table_ok (snd (circuit_step (postgres_circuits pre) S t c tab)) \<and> table_room (snd (circuit_step (postgres_circuits pre) S t c tab)) n"
proof (rule room_one [OF assms, where k = "cb_row_key pre (bs_name S)"])
  let ?k = "cb_row_key pre (bs_name S)"
  show "dget (snd (circuit_step (postgres_circuits pre) S t c tab)) j = dget tab j" if "j \<noteq> ?k" for j
    using table_frame [OF that] by (cases c) (auto simp: postgres_circuits_def split_beta split: sum.split)
  have q: "pred_option (row_room n) (dget tab ?k)" using row_room_less [OF table_row_room [OF assms]] by (cases "dget tab ?k") auto
  show "pred_option (row_room n) (dget (snd (circuit_step (postgres_circuits pre) S t c tab)) ?k)"
    using pg_try_room [OF assms] pg_error_room [OF assms] pg_success_room [OF assms] transition_room [OF assms(2)] q
    by (cases c) (simp_all add: postgres_circuits_def split_beta split: sum.split)
qed

text \<open>On Postgres the rows of a call are its circuit.\<close>

lemma pg_step_row:
  fixes S :: breaker_strategy and t :: seconds and tab :: cb_table and pre :: string
  assumes "table_ok tab" "table_room tab (Suc n)"
  defines "w \<equiv> map_option entry_of_row (live_row t (cb_row_key pre (bs_name S)) tab)"
  shows "fst (circuit_step (postgres_circuits pre) S t c tab) = fst (circuit_spec (bs_config S) t c w :: pg_exc circuit_answer \<times> breaker_entry option)"
    and "t \<le> u \<Longrightarrow> living u (row_circuit pre (snd (circuit_step (postgres_circuits pre) S t c tab)) (bs_name S)) =
      living u (snd (circuit_spec (bs_config S) t c w :: pg_exc circuit_answer \<times> breaker_entry option))"
proof -
  let ?k = "cb_row_key pre (bs_name S)" and ?c = "bs_config S"
  note tr = pg_try_circuit [OF assms(1), of ?c t ?k, folded w_def]
  note er = pg_error_circuit [OF assms(1,2), of ?c t ?k, folded w_def]
  note su = pg_success_circuit [OF assms(1,2), of ?c t ?k, folded w_def]
  note sn = pg_state_circuit [of t ?k tab]
  have q: "circuit_snapshot (living t (map_option entry_of_row (dget tab ?k))) = circuit_snapshot w"
    by (auto simp: living_live_row w_def quiet_snapshot circuit_snapshot_def [of None] split: option.split)
  have l: "living u (map_option entry_of_row (dget tab ?k)) = living u w" if "t \<le> u" using live_row_alive [OF that] by (simp add: w_def)
  obtain b tab1 where p1: "pg_try_acquire (half_open_capacity ?c) t ?k tab = (b, tab1)" by fastforce
  obtain x tab2 where p2: "pg_record_error (error_threshold ?c) (reset_timeout ?c) t ?k tab = (x, tab2)" by fastforce
  obtain y tab3 where p3: "pg_record_success (success_threshold ?c) t ?k tab = (y, tab3)" by fastforce
  obtain r1 v1 where o1: "circuit_outcome ?c t False w = (r1, v1)" by fastforce
  obtain r2 v2 where o2: "circuit_outcome ?c t True w = (r2, v2)" by fastforce
  have f: "x = Inr r1" "map_option entry_of_row (dget tab2 ?k) = v1" "y = Inr r2" "map_option entry_of_row (dget tab3 ?k) = v2"
    "circuit_try ?c t w = (b, map_option entry_of_row (dget tab1 ?k))"
    using tr er su by (simp_all add: p1 p2 p3 o1 o2)
  show "fst (circuit_step (postgres_circuits pre) S t c tab) = fst (circuit_spec ?c t c w :: pg_exc circuit_answer \<times> breaker_entry option)"
    using q sn by (cases c) (auto simp: postgres_circuits_def p1 p2 p3 o1 o2 f)
  show "living u (row_circuit pre (snd (circuit_step (postgres_circuits pre) S t c tab)) (bs_name S)) =
      living u (snd (circuit_spec ?c t c w :: pg_exc circuit_answer \<times> breaker_entry option))" if u: "t \<le> u"
    using l [OF u] pg_transition_circuit [of t ?k] by (cases c) (auto simp: postgres_circuits_def row_circuit_def p1 p2 p3 o1 o2 f)
qed

interpretation pcs: circuit_rows "postgres_circuits pre" pre table_room for pre
proof (unfold_locales, goal_cases)
  case (1 tab n S t c)
  then show ?case by (rule pg_step_row(1))
next
  case (2 tab n t u S c)
  show ?case by (rule pg_step_row(2) [OF 2])
next
  case (3 j S t c tab)
  then show ?case using table_frame [OF 3] by (cases c) (auto simp: postgres_circuits_def split_beta split: sum.split)
next
  case (4 tab n S t c)
  then show ?case using pg_step_room [OF 4] by (auto simp: table_ok_def pred_option_def elim: option.set_cases)
qed

section \<open>SQLite as circuits\<close>

lemma sqlite_read_live: "sqlite_cb_read t k tab = (case live_row t k tab of None \<Rightarrow> new_cb_row 0 | Some r \<Rightarrow> r)"
  by (auto simp: sqlite_cb_read_def live_row_def row_expired_def resolve_state_ttl_def split: option.split)

lemma sqlite_try_row:
  fixes k :: string and t :: seconds and tab :: cb_table
  assumes "table_ok tab"
  defines "w \<equiv> map_option entry_of_row (live_row t k tab)"
  shows "fst (sqlite_try_acquire (half_open_capacity c) t t t t k tab) = fst (circuit_try c t w)"
    and "t \<le> u \<Longrightarrow> living u (map_option entry_of_row (dget (snd (sqlite_try_acquire (half_open_capacity c) t t t t k tab)) k)) = living u (snd (circuit_try c t w))"
    and "pred_option row_ok (dget (snd (sqlite_try_acquire (half_open_capacity c) t t t t k tab)) k)"
proof -
  let ?p = "sqlite_try_acquire (half_open_capacity c) t t t t k tab"
  have "fst ?p = fst (circuit_try c t w) \<and> (t \<le> u \<longrightarrow> living u (map_option entry_of_row (dget (snd ?p) k)) = living u (snd (circuit_try c t w))) \<and>
    pred_option row_ok (dget (snd ?p) k)"
  proof (cases "live_row t k tab")
    case None
    have "?p = (True, tab)" using None by (simp add: sqlite_try_acquire_def sqlite_read_live new_cb_row_def)
    then show ?thesis using live_row_alive [of t u k tab] None assms(1)
      by (auto simp: w_def circuit_try_def table_ok_def pred_option_def elim: option.set_cases)
  next
    case (Some r)
    have ok: "row_ok r" "dget tab k = Some r" using live_row_ok [OF assms(1) Some] by simp_all
    have "circuit_try c t (Some (entry_of_row r)) = map_prod id (\<lambda>tab1. map_option entry_of_row (dget tab1 k)) ?p \<and> pred_option row_ok (dget (snd ?p) k)"
      using Some ok by (cases "cr_state r")
        (simp_all add: sqlite_try_acquire_def sqlite_read_live sqlite_cb_write_def Let_def circuit_try_def entry_of_row_def row_ok_def)
    then show ?thesis using Some by (auto simp: w_def)
  qed
  then show "fst ?p = fst (circuit_try c t w)" "t \<le> u \<Longrightarrow> living u (map_option entry_of_row (dget (snd ?p) k)) = living u (snd (circuit_try c t w))"
    "pred_option row_ok (dget (snd ?p) k)" by auto
qed

lemma sqlite_outcome_row:
  fixes k :: string and t :: seconds and tab :: cb_table
  assumes "table_ok tab"
  shows "circuit_outcome c t ok (map_option entry_of_row (live_row t k tab)) =
      map_prod id (\<lambda>tab1. map_option entry_of_row (dget tab1 k)) (sqlite_record_outcome c ok t t t k tab)"
    and "pred_option row_ok (dget (snd (sqlite_record_outcome c ok t t t k tab)) k)"
proof -
  let ?p = "sqlite_record_outcome c ok t t t k tab"
  have "circuit_outcome c t ok (map_option entry_of_row (live_row t k tab)) = map_prod id (\<lambda>tab1. map_option entry_of_row (dget tab1 k)) ?p \<and>
    pred_option row_ok (dget (snd ?p) k)"
  proof (cases "live_row t k tab")
    case None
    then show ?thesis
      by (cases ok) (simp_all add: sqlite_record_outcome_def sqlite_read_live sqlite_cb_write_def new_cb_row_def row_snapshot_def Let_def circuit_outcome_def entry_simps row_ok_def)
  next
    case (Some r)
    have r: "row_ok r" "dget tab k = Some r" using live_row_ok [OF assms(1) Some] by simp_all
    show ?thesis using Some r
      by (cases "cr_state r"; cases ok)
        (simp_all add: sqlite_record_outcome_def sqlite_read_live sqlite_cb_write_def row_snapshot_def Let_def circuit_outcome_def entry_simps row_ok_def)
  qed
  then show "circuit_outcome c t ok (map_option entry_of_row (live_row t k tab)) = map_prod id (\<lambda>tab1. map_option entry_of_row (dget tab1 k)) ?p"
    "pred_option row_ok (dget (snd ?p) k)" by auto
qed

lemma sqlite_transition_row:
  "map_option entry_of_row (dget (sqlite_transition c st w t t k tab) k) = circuit_transition c t st w"
  "pred_option row_ok (dget (sqlite_transition c st w t t k tab) k)"
  by (cases st; cases w; simp add: sqlite_transition_def sqlite_cb_write_def new_cb_row_def circuit_transition_def entry_simps row_ok_def Let_def)+

lemma sqlite_snapshot_row: "sqlite_get_snapshot t k tab = circuit_snapshot (map_option entry_of_row (live_row t k tab))"
  by (simp add: sqlite_get_snapshot_def sqlite_read_live new_cb_row_def row_snapshot_def circuit_snapshot_def entry_simps split: option.split)

lemma sqlite_frame:
  assumes "j \<noteq> k"
  shows "dget (snd (sqlite_try_acquire cap t1 t2 t3 t4 k tab)) j = dget tab j" "dget (snd (sqlite_record_outcome c ok t1 t2 t3 k tab)) j = dget tab j"
    "dget (sqlite_transition c st w t2 t3 k tab) j = dget tab j"
  using assms by (simp_all add: sqlite_try_acquire_def sqlite_record_outcome_def sqlite_transition_def sqlite_cb_write_def Let_def)

interpretation scs: circuit_rows "sqlite_circuits pre" pre "\<lambda>tab k. True" for pre
proof (unfold_locales, goal_cases)
  case (1 tab n S t c)
  then show ?case using sqlite_try_row(1) [OF 1(1)] sqlite_outcome_row(1) [OF 1(1)] sqlite_snapshot_row
    by (cases c) (auto simp: sqlite_circuits_def split_beta)
next
  case (2 tab n t u S c)
  then show ?case using sqlite_try_row(2) [OF 2(1,3)] sqlite_outcome_row(1) [OF 2(1)] sqlite_transition_row(1) live_row_alive [OF 2(3)]
    by (cases c) (auto simp: sqlite_circuits_def row_circuit_def split_beta)
next
  case (3 j S t c tab)
  then show ?case using sqlite_frame [OF 3] by (cases c) (auto simp: sqlite_circuits_def split_beta)
next
  case (4 tab n S t c)
  then have q: "pred_option row_ok (dget tab (cb_row_key pre (bs_name S)))" by (auto simp: table_ok_def pred_option_def elim: option.set_cases)
  show ?case using sqlite_try_row(3) [OF 4(1)] sqlite_outcome_row(2) [OF 4(1)] sqlite_transition_row(2) q
    by (cases c) (auto simp: sqlite_circuits_def split_beta)
qed

section \<open>The databases answer as the memory\<close>

lemma spec_run_type: "map (map_circuit_answer f) (spec_run xs g) = spec_run xs g"
proof (induction xs arbitrary: g)
  case (Cons x xs)
  obtain S t c where x: "x = (S, t, c)" by (cases x) auto
  have "map_circuit_answer f (fst (circuit_spec C t c v)) = fst (circuit_spec C t c v)"
    "snd (circuit_spec C t c v :: 'a circuit_answer \<times> _) = snd (circuit_spec C t c v :: 'b circuit_answer \<times> _)" for C v
    by (cases c; simp add: split_beta)+
  then show ?case using Cons by (simp add: x split_beta fun_upd_def)
qed simp

lemma empty_table [simp]: "table_ok []" "table_room [] n \<longleftrightarrow> n \<le> 2147483647"
  by (simp_all add: table_ok_def table_room_def)

text \<open>C31. Any calls of any breakers, in the order of their time, are answered on SQLite as in memory, and on Postgres too when they are no
  more than a 32-bit counter can count.\<close>

theorem sql_breakers_refine_memory:
  assumes "in_time t0 xs" "length xs \<le> 2147483647"
  shows "circuit_run (postgres_circuits pre) xs [] = map (map_circuit_answer (\<lambda>u. NumericValueOutOfRange)) (circuit_run memory_circuits xs []) \<and>
    circuit_run (sqlite_circuits pre) xs [] = circuit_run memory_circuits xs []"
proof -
  have "circuit_run (postgres_circuits pre) xs [] = spec_run xs (\<lambda>n. None)"
    by (rule pcs.run_spec [OF _ _ assms(1)]) (simp_all add: assms(2) row_circuit_def)
  moreover have "circuit_run (sqlite_circuits pre) xs [] = spec_run xs (\<lambda>n. None)"
    by (rule scs.run_spec [OF _ _ assms(1)]) (simp_all add: row_circuit_def)
  ultimately show ?thesis by (simp add: memory_answers_spec [OF assms(1)] spec_run_type)
qed

definition breaker_trace :: "(breaker_strategy \<times> seconds \<times> circuit_call) list" where
  "breaker_trace = (let S = \<lparr>bs_name = ''api'', bs_config = \<lparr>error_threshold = 1, success_threshold = 1, reset_timeout = 30, half_open_capacity = 1\<rparr>\<rparr>
     in [(S, 0, CTry), (S, 1, COutcome False), (S, 2, CTry), (S, 31, CTry), (S, 32, CTry), (S, 33, COutcome True), (S, 34, CSnapshot)])"

theorem sql_breakers_refine_memory_witness:
  "circuit_run (postgres_circuits ''p:'') breaker_trace [] = map (map_circuit_answer (\<lambda>u. NumericValueOutOfRange)) (circuit_run memory_circuits breaker_trace []) \<and>
   circuit_run (sqlite_circuits ''p:'') breaker_trace [] = circuit_run memory_circuits breaker_trace []"
  by (rule sql_breakers_refine_memory [of 0]) (simp_all add: breaker_trace_def Let_def)

section \<open>The counter of successes on Postgres\<close>

text \<open>The largest value of an \<open>INT\<close> column.\<close>

definition INT_MAX :: nat where
  "INT_MAX = 2147483647"

definition success_table :: "string \<Rightarrow> breaker_strategy \<Rightarrow> seconds \<Rightarrow> nat \<Rightarrow> cb_table" where
  "success_table pre S t m = [(cb_row_key pre (bs_name S), \<lparr>cr_state = CLOSED, cr_opened_at = 0, cr_cool_down = 0, cr_cerr = 0, cr_csucc = int m, cr_ho_admit = 0, cr_updated_at = t\<rparr>)]"

lemma success_table_step:
  "circuit_step (postgres_circuits pre) S t (COutcome True) (success_table pre S t m) =
     (if m < INT_MAX then (Seen \<lparr>sn_state = CLOSED, sn_opened_at = 0, sn_errors = 0, sn_successes = int m + 1\<rparr>, success_table pre S t (Suc m))
      else (Failed NumericValueOutOfRange, success_table pre S t m))"
  by (simp add: postgres_circuits_def pg_record_success_def pg_count_success_def success_table_def pg_delete_expired_def row_expired_def STATE_TTL_def
      INT_MAX_def fits_int_def)

lemma success_table_first:
  "circuit_step (postgres_circuits pre) S t (COutcome True) [] =
     (Seen \<lparr>sn_state = CLOSED, sn_opened_at = 0, sn_errors = 0, sn_successes = 1\<rparr>, success_table pre S t 1)"
  by (simp add: postgres_circuits_def pg_record_success_def pg_count_success_def success_table_def pg_delete_expired_def fits_int_def)

lemma success_table_run:
  "m + d \<le> INT_MAX \<Longrightarrow>
   drop d (circuit_run (postgres_circuits pre) (replicate (d + n) (S, t, COutcome True)) (success_table pre S t m)) =
     circuit_run (postgres_circuits pre) (replicate n (S, t, COutcome True)) (success_table pre S t (m + d))"
  by (induction d arbitrary: m) (auto simp: success_table_step simp del: circuit_step.simps)

lemma success_table_full:
  "circuit_run (postgres_circuits pre) (replicate n (S, t, COutcome True)) (success_table pre S t INT_MAX) = replicate n (Failed NumericValueOutOfRange)"
  by (induction n) (auto simp: success_table_step simp del: circuit_step.simps)

text \<open>A closed circuit on Postgres counts every success in a 32-bit column and never clears the count: once it has seen
  2147483647 successes in a row, recording a success fails, every time.\<close>

theorem postgres_success_overflow:
  "drop 2147483647 (circuit_run (postgres_circuits pre) (replicate (2147483647 + n) (S, t, COutcome True)) []) = replicate n (Failed NumericValueOutOfRange)"
proof -
  obtain d where d: "INT_MAX = Suc d" by (cases INT_MAX) (simp_all add: INT_MAX_def)
  have "drop INT_MAX (circuit_run (postgres_circuits pre) (replicate (INT_MAX + n) (S, t, COutcome True)) []) =
    drop d (circuit_run (postgres_circuits pre) (replicate (d + n) (S, t, COutcome True)) (success_table pre S t 1))"
    unfolding d by (simp add: success_table_first del: circuit_step.simps)
  also have "\<dots> = replicate n (Failed NumericValueOutOfRange)"
    using success_table_run [of 1 d pre n S t] success_table_full [of pre n S t] d by simp
  finally show ?thesis unfolding INT_MAX_def .
qed

section \<open>The sweeps\<close>

text \<open>A sweep deletes rows that have expired and no others.\<close>

definition swept :: "seconds \<Rightarrow> cb_table \<Rightarrow> cb_table \<Rightarrow> bool" where
  "swept now tab tab1 \<longleftrightarrow> (\<forall>k. dget tab1 k = dget tab k \<or> dget tab1 k = None \<and> (\<exists>r. dget tab k = Some r \<and> row_expired now r))"

lemma swept_refl: "swept now tab tab"
  by (simp add: swept_def)

lemma swept_trans: "swept now a b \<Longrightarrow> swept now b c \<Longrightarrow> swept now a c"
  unfolding swept_def by (metis option.distinct(1))

lemma swept_fold: "(\<And>n tab. n \<in> set ns \<Longrightarrow> swept now tab (f n tab)) \<Longrightarrow> swept now tab (fold f ns tab)"
  by (induction ns arbitrary: tab) (auto simp: swept_refl intro: swept_trans)

lemma pg_cleanup_swept: "swept now tab (pg_cleanup busy limit now tab)"
proof -
  have "swept now tab (pg_delete_expired n now tab)" for n tab
    by (auto simp: swept_def pg_delete_expired_def split: option.split)
  then show ?thesis by (auto simp: pg_cleanup_def Let_def intro!: swept_fold swept_refl)
qed

lemma delete_all_get: "dget (fold AList.delete ns tab) k = (if k \<in> set ns then None else dget tab k)"
  by (induction ns arbitrary: tab) auto

lemma sqlite_cleanup_swept:
  assumes "dwf tab"
  shows "swept now tab (sqlite_cleanup limit now tab)"
proof -
  have "\<exists>r. dget tab k = Some r \<and> row_expired now r" if k: "k \<in> set (take limit (map fst (filter (\<lambda>(n, r). row_expired now r) tab)))" for k
    using in_set_takeD [OF k] dget_iff [OF assms] by fastforce
  then show ?thesis by (auto simp: swept_def sqlite_cleanup_def delete_all_get)
qed

lemma swept_alive: "swept now tab tab1 \<Longrightarrow> now \<le> u \<Longrightarrow> living u (row_circuit pre tab1 n) = living u (row_circuit pre tab n)"
  unfolding swept_def row_circuit_def row_expired_passed
  by (drule spec [of _ "cb_row_key pre n"]) (auto dest: passed_later)

lemma swept_ok: "swept now tab tab1 \<Longrightarrow> table_ok tab \<Longrightarrow> table_ok tab1" "swept now tab tab1 \<Longrightarrow> table_room tab n \<Longrightarrow> table_room tab1 n"
  unfolding swept_def table_ok_def table_room_def by (metis option.distinct(1))+

text \<open>No caller sees a sweep: whatever it deletes, the calls that follow it are answered as without it.\<close>

lemma postgres_sweep_unseen:
  assumes "table_ok tab" "table_room tab (length xs)" "in_time now xs"
  shows "circuit_run (postgres_circuits pre) xs (pg_cleanup busy limit now tab) = circuit_run (postgres_circuits pre) xs tab"
proof -
  note s = pg_cleanup_swept [of now tab busy limit]
  show ?thesis using pcs.run_spec [OF swept_ok(1) [OF s assms(1)] swept_ok(2) [OF s assms(2)] assms(3) swept_alive [OF s], of pre]
      pcs.run_spec [OF assms, of pre "row_circuit pre tab"] by simp
qed

lemma sqlite_sweep_unseen:
  assumes "table_ok tab" "dwf tab" "in_time now xs"
  shows "circuit_run (sqlite_circuits pre) xs (sqlite_cleanup limit now tab) = circuit_run (sqlite_circuits pre) xs tab"
proof -
  note s = sqlite_cleanup_swept [OF assms(2), of now limit]
  show ?thesis using scs.run_spec [OF swept_ok(1) [OF s assms(1)] TrueI assms(3) swept_alive [OF s], of pre]
      scs.run_spec [OF assms(1) TrueI assms(3), of pre "row_circuit pre tab"] by simp
qed

end
