(* ===== verification/Redis_Breaker.thy ===== *)
theory Redis_Breaker
  imports Sql_Breaker Redis_Rate
begin

text \<open>
  The circuit breakers on Redis (\<open>resilience/circuitbreaker/redis.py\<close>): the five Lua scripts over the commands they call, on one hash
  per breaker. For a day from the first call, as long as no key can expire, they answer as the in-memory adapter at the time of the
  server's clock; and a circuit that an operator opens for longer than the lifetime of its key closes by itself before its time.
\<close>

section \<open>Commands\<close>

text \<open>\<open>TIME\<close> in seconds, and a time as \<open>tostring\<close> writes it with fourteen digits: ten of them are whole seconds.\<close>

definition r_time :: "seconds \<Rightarrow> seconds" where
  "r_time t = real_of_int \<lfloor>t * 1000000\<rfloor> / 1000000"

definition lua_shown :: "seconds \<Rightarrow> seconds" where
  "lua_shown x = real_of_int \<lfloor>x * 10000 + 1 / 2\<rfloor> / 10000"

definition r_bind :: "(py_exc + 'a) \<times> redis \<Rightarrow> ('a \<Rightarrow> redis \<Rightarrow> (py_exc + 'b) \<times> redis) \<Rightarrow> (py_exc + 'b) \<times> redis" where
  "r_bind p f = (case p of (Inl e, db) \<Rightarrow> (Inl e, db) | (Inr x, db) \<Rightarrow> f x db)"

text \<open>The hash of a key, none of it when the key is missing; a hash that is written keeps its end, and an empty one is gone.\<close>

definition r_hash :: "int \<Rightarrow> string \<Rightarrow> redis \<Rightarrow> py_exc + (string, rfield) pydict" where
  "r_hash now k db = (case r_lookup now k db of None \<Rightarrow> Inr [] | Some (RHash h, x) \<Rightarrow> Inr h | Some e \<Rightarrow> Inl ResponseError)"

definition r_put_hash :: "int \<Rightarrow> string \<Rightarrow> (string, rfield) pydict \<Rightarrow> redis \<Rightarrow> redis" where
  "r_put_hash now k h db = (if h = [] then ddel k db else dput k (RHash h, case r_lookup now k db of None \<Rightarrow> None | Some (v, x) \<Rightarrow> x) db)"

definition r_hmget :: "int \<Rightarrow> string \<Rightarrow> redis \<Rightarrow> (py_exc + (string, rfield) pydict) \<times> redis" where
  "r_hmget now k db = (r_hash now k db, db)"

definition r_hset :: "int \<Rightarrow> string \<Rightarrow> (string \<times> rfield) list \<Rightarrow> redis \<Rightarrow> (py_exc + unit) \<times> redis" where
  "r_hset now k kvs db = (case r_hash now k db of Inl e \<Rightarrow> (Inl e, db) | Inr h \<Rightarrow> (Inr (), r_put_hash now k (fold (\<lambda>(f, v). dput f v) kvs h) db))"

definition r_hdel :: "int \<Rightarrow> string \<Rightarrow> string list \<Rightarrow> redis \<Rightarrow> (py_exc + unit) \<times> redis" where
  "r_hdel now k fs db = (case r_hash now k db of Inl e \<Rightarrow> (Inl e, db) | Inr h \<Rightarrow> (Inr (), r_put_hash now k (fold ddel fs h) db))"

text \<open>\<open>HINCRBY\<close> of a 64-bit integer, zero when the field is missing.\<close>

definition r_hincrby :: "int \<Rightarrow> string \<Rightarrow> string \<Rightarrow> int \<Rightarrow> redis \<Rightarrow> (py_exc + int) \<times> redis" where
  "r_hincrby now k f d db =
     (case r_hash now k db of
        Inl e \<Rightarrow> (Inl e, db)
      | Inr h \<Rightarrow>
          (case (case dget h f of None \<Rightarrow> Some 0 | Some (FInt i) \<Rightarrow> Some i | Some v \<Rightarrow> None) of
             None \<Rightarrow> (Inl ResponseError, db)
           | Some i \<Rightarrow> if i + d < - (2 ^ 63) \<or> 2 ^ 63 \<le> i + d then (Inl ResponseError, db)
                       else (Inr (i + d), r_put_hash now k (dput f (FInt (i + d)) h) db)))"

definition r_persist :: "int \<Rightarrow> string \<Rightarrow> redis \<Rightarrow> redis" where
  "r_persist now k db = (case r_lookup now k db of None \<Rightarrow> db | Some (v, x) \<Rightarrow> dput k (v, None) db)"

text \<open>\<open>tonumber(field) or d\<close>, for the numbers the scripts write.\<close>

definition lua_num :: "(string, rfield) pydict \<Rightarrow> string \<Rightarrow> real \<Rightarrow> real" where
  "lua_num h f d = (case dget h f of Some (FNum x) \<Rightarrow> x | Some (FInt i) \<Rightarrow> real_of_int i | _ \<Rightarrow> d)"

definition lua_int :: "(string, rfield) pydict \<Rightarrow> string \<Rightarrow> int" where
  "lua_int h f = (case dget h f of Some (FInt i) \<Rightarrow> i | _ \<Rightarrow> 0)"

text \<open>The state of a hash: \<open>false\<close> stands for \<open>CLOSED\<close>.\<close>

definition text_field :: "(string, rfield) pydict \<Rightarrow> string" where
  "text_field h = (case dget h ''state'' of Some (FText s) \<Rightarrow> s | _ \<Rightarrow> ''CLOSED'')"

section \<open>Scripts\<close>

fun cb_value :: "cb_state \<Rightarrow> string" where
  "cb_value CLOSED = ''CLOSED''"
| "cb_value OPEN = ''OPEN''"
| "cb_value HALF_OPEN = ''HALF_OPEN''"
| "cb_value FORCED_OPEN = ''FORCED_OPEN''"
| "cb_value FORCED_CLOSED = ''FORCED_CLOSED''"

definition lua_cb_try_acquire :: "int \<Rightarrow> seconds \<Rightarrow> int \<Rightarrow> seconds \<Rightarrow> string \<Rightarrow> redis \<Rightarrow> (py_exc + bool) \<times> redis" where
  "lua_cb_try_acquire capacity reset ttl t key db =
     r_bind (r_hmget (ms t) key db) (\<lambda>h db0.
       let state = text_field h; opened = lua_num h ''opened_at'' 0; admit = lua_int h ''ho_admit''; cool = lua_num h ''cool_down'' reset;
           probe = (\<lambda>admit db. if admit < capacity
                     then r_bind (r_hincrby (ms t) key ''ho_admit'' 1 db) (\<lambda>n db1. (Inr True, r_expire (ms t) key ttl db1))
                     else (Inr False, db))
       in if state = ''FORCED_CLOSED'' \<or> state = ''CLOSED'' then (Inr True, db0)
          else if state = ''FORCED_OPEN'' then (Inr False, db0)
          else if state = ''OPEN''
          then if opened + cool \<le> r_time t
               then r_bind (r_hset (ms t) key [(''state'', FText ''HALF_OPEN''), (''cerr'', FInt 0), (''csucc'', FInt 0), (''ho_admit'', FInt 0)] db0) (\<lambda>u db1.
                    r_bind (r_hdel (ms t) key [''opened_at'', ''cool_down''] db1) (\<lambda>u db2. probe 0 (r_expire (ms t) key ttl db2)))
               else (Inr False, db0)
          else if state = ''HALF_OPEN'' then probe admit db0
          else (Inr False, db0))"

text \<open>A probe that has ended frees its place.\<close>

definition lua_release_probe :: "seconds \<Rightarrow> string \<Rightarrow> string \<Rightarrow> redis \<Rightarrow> (py_exc + unit) \<times> redis" where
  "lua_release_probe t key state db =
     (if state = ''HALF_OPEN''
      then r_bind (r_hmget (ms t) key db) (\<lambda>h db1.
             if 0 < lua_int h ''ho_admit'' then r_bind (r_hincrby (ms t) key ''ho_admit'' (- 1) db1) (\<lambda>n db2. (Inr (), db2)) else (Inr (), db1))
      else (Inr (), db))"

definition lua_cb_record_error :: "int \<Rightarrow> seconds \<Rightarrow> int \<Rightarrow> seconds \<Rightarrow> string \<Rightarrow> redis \<Rightarrow> (py_exc + (string \<times> int \<times> int \<times> real)) \<times> redis" where
  "lua_cb_record_error threshold reset ttl t key db =
     r_bind (r_hmget (ms t) key db) (\<lambda>h db0.
       let state = text_field h; opened = lua_num h ''opened_at'' 0
       in if state = ''FORCED_OPEN'' \<or> state = ''FORCED_CLOSED'' \<or> state = ''OPEN'' then (Inr (state, 0, 0, lua_shown opened), db0)
          else r_bind (r_hincrby (ms t) key ''cerr'' 1 db0) (\<lambda>cerr db1.
               r_bind (r_hset (ms t) key [(''csucc'', FInt 0)] db1) (\<lambda>u db2.
               r_bind (lua_release_probe t key state db2) (\<lambda>u db3.
               if threshold \<le> cerr
               then r_bind (r_hset (ms t) key [(''state'', FText ''OPEN''), (''opened_at'', FNum (r_time t)), (''cool_down'', FNum reset),
                                               (''cerr'', FInt 0), (''csucc'', FInt 0), (''ho_admit'', FInt 0)] db3)
                      (\<lambda>u db4. (Inr (''OPEN'', 0, 0, lua_shown (r_time t)), r_expire (ms t) key ttl db4))
               else (Inr (state, cerr, 0, lua_shown opened), r_expire (ms t) key ttl db3)))))"

definition lua_cb_record_success :: "int \<Rightarrow> int \<Rightarrow> seconds \<Rightarrow> string \<Rightarrow> redis \<Rightarrow> (py_exc + (string \<times> int \<times> int \<times> real)) \<times> redis" where
  "lua_cb_record_success threshold ttl t key db =
     r_bind (r_hmget (ms t) key db) (\<lambda>h db0.
       let state = text_field h; opened = lua_num h ''opened_at'' 0
       in if state = ''FORCED_OPEN'' \<or> state = ''FORCED_CLOSED'' \<or> state = ''OPEN'' then (Inr (state, 0, 0, lua_shown opened), db0)
          else r_bind (r_hincrby (ms t) key ''csucc'' 1 db0) (\<lambda>csucc db1.
               r_bind (r_hset (ms t) key [(''cerr'', FInt 0)] db1) (\<lambda>u db2.
               r_bind (lua_release_probe t key state db2) (\<lambda>u db3.
               if state = ''HALF_OPEN'' \<and> threshold \<le> csucc then (Inr (''CLOSED'', 0, 0, 0), r_del key db3)
               else (Inr (state, 0, csucc, lua_shown opened), r_expire (ms t) key ttl db3)))))"

definition lua_cb_transition :: "string \<Rightarrow> seconds \<Rightarrow> int \<Rightarrow> seconds \<Rightarrow> string \<Rightarrow> redis \<Rightarrow> (py_exc + unit) \<times> redis" where
  "lua_cb_transition desired cool ttl t key db =
     (if desired = ''CLOSED'' then (Inr (), r_del key db)
      else r_bind
             (if desired = ''OPEN''
              then r_hset (ms t) key [(''state'', FText desired), (''opened_at'', FNum (r_time t)), (''cool_down'', FNum cool),
                                      (''cerr'', FInt 0), (''csucc'', FInt 0), (''ho_admit'', FInt 0)] db
              else r_bind (r_hset (ms t) key [(''state'', FText desired), (''cerr'', FInt 0), (''csucc'', FInt 0), (''ho_admit'', FInt 0)] db)
                     (\<lambda>u db1. r_hdel (ms t) key [''opened_at'', ''cool_down''] db1))
             (\<lambda>u db2. (Inr (), if desired = ''FORCED_OPEN'' \<or> desired = ''FORCED_CLOSED'' then r_persist (ms t) key db2 else r_expire (ms t) key ttl db2)))"

definition lua_cb_get_state :: "seconds \<Rightarrow> string \<Rightarrow> redis \<Rightarrow> py_exc + (string \<times> int \<times> int \<times> real)" where
  "lua_cb_get_state t key db =
     (case r_hash (ms t) key db of
        Inl e \<Rightarrow> Inl e
      | Inr h \<Rightarrow> Inr (text_field h, lua_int h ''cerr'', lua_int h ''csucc'', lua_shown (lua_num h ''opened_at'' 0)))"

section \<open>The strategy\<close>

text \<open>\<open>CircuitBreakerState(...)\<close> raises \<open>ValueError\<close> for a text that names no state.\<close>

definition cb_state_of :: "string \<Rightarrow> cb_state option" where
  "cb_state_of s = find (\<lambda>st. cb_value st = s) [CLOSED, OPEN, HALF_OPEN, FORCED_OPEN, FORCED_CLOSED]"

definition redis_cb_unpack :: "py_exc + (string \<times> int \<times> int \<times> real) \<Rightarrow> py_exc + breaker_snapshot" where
  "redis_cb_unpack r = (case r of
     Inl e \<Rightarrow> Inl e
   | Inr (s, cerr, csucc, opened) \<Rightarrow>
       (case cb_state_of s of
          None \<Rightarrow> Inl ValueError
        | Some st \<Rightarrow> Inr \<lparr>sn_state = st, sn_opened_at = opened, sn_errors = cerr, sn_successes = csucc\<rparr>))"

text \<open>The lifetime of a key: from the configuration, in whole seconds.\<close>

definition redis_cb_ttl :: "breaker_config \<Rightarrow> int" where
  "redis_cb_ttl c = \<lceil>resolve_state_ttl (reset_timeout c)\<rceil>"

definition redis_circuits :: "string \<Rightarrow> (py_exc, redis) circuit_ops" where
  "redis_circuits pre =
     \<lparr>co_try = (\<lambda>S t db. lua_cb_try_acquire (half_open_capacity (bs_config S)) (reset_timeout (bs_config S)) (redis_cb_ttl (bs_config S)) t (cb_row_key pre (bs_name S)) db),
      co_outcome = (\<lambda>S t ok db. apfst redis_cb_unpack
        (if ok then lua_cb_record_success (success_threshold (bs_config S)) (redis_cb_ttl (bs_config S)) t (cb_row_key pre (bs_name S)) db
         else lua_cb_record_error (error_threshold (bs_config S)) (reset_timeout (bs_config S)) (redis_cb_ttl (bs_config S)) t (cb_row_key pre (bs_name S)) db)),
      co_transition = (\<lambda>S t st w db. lua_cb_transition (cb_value st) (case w of Some c \<Rightarrow> c | None \<Rightarrow> reset_timeout (bs_config S)) (redis_cb_ttl (bs_config S)) t
        (cb_row_key pre (bs_name S)) db),
      co_snapshot = (\<lambda>S t db. redis_cb_unpack (lua_cb_get_state t (cb_row_key pre (bs_name S)) db))\<rparr>"

section \<open>A database of hashes\<close>

text \<open>No key ends before the time \<open>E\<close>, so that until then every look-up is a look into the table.\<close>

fun slot_ok :: "int \<Rightarrow> rvalue \<times> int option \<Rightarrow> bool" where
  "slot_ok E (RHash h, x) = pred_option ((\<le>) E) x"
| "slot_ok E e = False"

definition db_ok :: "int \<Rightarrow> redis \<Rightarrow> bool" where
  "db_ok E db \<longleftrightarrow> (\<forall>k. pred_option (slot_ok E) (dget db k))"

lemma db_ok_cases:
  assumes "db_ok E db"
  obtains "dget db k = None" | h where "dget db k = Some (RHash h, None)" | h y where "dget db k = Some (RHash h, Some y)" "E \<le> y"
proof (cases "dget db k")
  case (Some e)
  then have "slot_ok E e" using assms by (auto simp: db_ok_def pred_option_def)
  then show ?thesis using Some that by (cases "(E, e)" rule: slot_ok.cases) (auto simp: pred_option_def split: option.splits)
qed (use that in blast)

lemma db_ok_put: "db_ok E db \<Longrightarrow> slot_ok E e \<Longrightarrow> db_ok E (dput k e db)"
  by (auto simp: db_ok_def)

lemma db_ok_del: "db_ok E db \<Longrightarrow> db_ok E (ddel k db)"
  by (auto simp: db_ok_def)

definition hash_at :: "string \<Rightarrow> redis \<Rightarrow> (string, rfield) pydict" where
  "hash_at k db = (case dget db k of Some (RHash h, x) \<Rightarrow> h | _ \<Rightarrow> [])"

lemma db_lookup: "db_ok E db \<Longrightarrow> now \<le> E \<Longrightarrow> r_lookup now k db = dget db k"
  by (erule db_ok_cases [where k = k]) (auto simp: r_lookup_def r_alive_def)

lemma db_hash: "db_ok E db \<Longrightarrow> now \<le> E \<Longrightarrow> r_hash now k db = Inr (hash_at k db)"
  by (erule db_ok_cases [where k = k]) (auto simp: r_hash_def r_lookup_def r_alive_def hash_at_def)

lemma hash_at_put [simp]: "hash_at j (r_put_hash now k h db) = (if j = k then h else hash_at j db)"
  by (simp add: hash_at_def r_put_hash_def)

lemma hash_at_del [simp]: "hash_at j (r_del k db) = (if j = k then [] else hash_at j db)"
  by (simp add: hash_at_def r_del_def)

lemma db_put: "db_ok E db \<Longrightarrow> now \<le> E \<Longrightarrow> db_ok E (r_put_hash now k h db)"
  unfolding r_put_hash_def by (cases rule: db_ok_cases [where E = E and db = db and k = k]) (auto simp: db_lookup intro!: db_ok_put db_ok_del)

lemma db_del: "db_ok E db \<Longrightarrow> db_ok E (r_del k db)"
  by (simp add: r_del_def db_ok_del)

lemma db_expire:
  assumes "db_ok E db" "now \<le> E" "E \<le> now + 1000 * ttl" "0 < ttl"
  shows "db_ok E (r_expire now k ttl db)" "hash_at j (r_expire now k ttl db) = hash_at j db"
  using assms(1) by (cases rule: db_ok_cases [where k = k];
      use assms in \<open>auto simp: r_expire_def r_pexpire_def db_lookup hash_at_def intro!: db_ok_put\<close>)+

lemma db_persist:
  assumes "db_ok E db" "now \<le> E"
  shows "db_ok E (r_persist now k db)" "hash_at j (r_persist now k db) = hash_at j db"
  using assms(1) by (cases rule: db_ok_cases [where k = k];
      use assms in \<open>auto simp: r_persist_def db_lookup hash_at_def intro!: db_ok_put\<close>)+

lemma r_bind_Inr [simp]: "r_bind (Inr x, db) f = f x db"
  by (simp add: r_bind_def)

lemma db_hmget: "db_ok E db \<Longrightarrow> now \<le> E \<Longrightarrow> r_hmget now k db = (Inr (hash_at k db), db)"
  by (simp add: r_hmget_def db_hash)

lemma db_hset: "db_ok E db \<Longrightarrow> now \<le> E \<Longrightarrow> r_hset now k kvs db = (Inr (), r_put_hash now k (fold (\<lambda>(f, v). dput f v) kvs (hash_at k db)) db)"
  by (simp add: r_hset_def db_hash)

lemma db_hdel: "db_ok E db \<Longrightarrow> now \<le> E \<Longrightarrow> r_hdel now k fs db = (Inr (), r_put_hash now k (fold ddel fs (hash_at k db)) db)"
  by (simp add: r_hdel_def db_hash)

text \<open>A counter of a hash: the number, or nothing for zero.\<close>

definition field_counts :: "(string, rfield) pydict \<Rightarrow> string \<Rightarrow> int \<Rightarrow> bool" where
  "field_counts h f i \<longleftrightarrow> dget h f = Some (FInt i) \<or> dget h f = None \<and> i = 0"

lemma db_hincrby:
  assumes "db_ok E db" "now \<le> E" "field_counts (hash_at k db) f i" "- (2 ^ 63) \<le> i + d" "i + d < 2 ^ 63"
  shows "r_hincrby now k f d db = (Inr (i + d), r_put_hash now k (dput f (FInt (i + d)) (hash_at k db)) db)"
  using assms by (auto simp: r_hincrby_def db_hash field_counts_def)

lemma field_counts_field: "field_counts h f i \<Longrightarrow> lua_int h f = i"
  by (auto simp: field_counts_def lua_int_def)

section \<open>A hash is a circuit\<close>

definition hash_holds :: "nat \<Rightarrow> (string, rfield) pydict \<Rightarrow> breaker_entry \<Rightarrow> bool" where
  "hash_holds n h e \<longleftrightarrow>
     text_field h = cb_value (be_state e) \<and> field_counts h ''cerr'' (error_count e) \<and> field_counts h ''csucc'' (success_count e) \<and> field_counts h ''ho_admit'' (half_open_admit e) \<and>
     (if be_state e = OPEN then dget h ''opened_at'' = Some (FNum (opened_at e)) \<and> dget h ''cool_down'' = Some (FNum (cool_down e))
      else dget h ''opened_at'' = None \<and> dget h ''cool_down'' = None \<and> opened_at e = 0 \<and> cool_down e = 0) \<and>
     (be_state e \<in> {OPEN, FORCED_OPEN, FORCED_CLOSED} \<longrightarrow> error_count e = 0 \<and> success_count e = 0) \<and>
     0 \<le> error_count e \<and> 0 \<le> success_count e \<and> 0 \<le> half_open_admit e \<and>
     error_count e + int n < 2 ^ 63 \<and> success_count e + int n < 2 ^ 63 \<and> half_open_admit e + int n < 2 ^ 63"

lemma hash_holds_Nil: "int n < 2 ^ 63 \<Longrightarrow> hash_holds n [] (fresh_entry t)"
  by (simp add: hash_holds_def fresh_entry_def text_field_def field_counts_def)

lemma hash_holds_less: "hash_holds (Suc n) h e \<Longrightarrow> hash_holds n h e"
  by (auto simp: hash_holds_def)

lemma cb_value_inj [simp]: "cb_value a = cb_value b \<longleftrightarrow> a = b"
  by (cases a; cases b) auto

lemma cb_state_of_value [simp]: "cb_state_of (cb_value st) = Some st"
  by (cases st) (simp_all add: cb_state_of_def)

lemmas cb_state_texts [simp] = cb_state_of_value [of CLOSED, simplified] cb_state_of_value [of OPEN, simplified] cb_state_of_value [of HALF_OPEN, simplified]
  cb_state_of_value [of FORCED_OPEN, simplified] cb_state_of_value [of FORCED_CLOSED, simplified]

definition becomes :: "int \<Rightarrow> string \<Rightarrow> nat \<Rightarrow> redis \<Rightarrow> redis \<Rightarrow> breaker_entry \<Rightarrow> bool" where
  "becomes E k n db db1 e \<longleftrightarrow> db_ok E db1 \<and> (\<forall>j. j \<noteq> k \<longrightarrow> hash_at j db1 = hash_at j db) \<and> hash_holds n (hash_at k db1) e"

lemmas db_steps = db_hmget db_hset db_hdel db_put db_del db_expire db_persist

lemma hash_holds_facts:
  assumes "hash_holds n h e"
  shows "text_field h = cb_value (be_state e)" "lua_int h ''ho_admit'' = half_open_admit e" "lua_int h ''cerr'' = error_count e" "lua_int h ''csucc'' = success_count e"
    "lua_num h ''opened_at'' 0 = opened_at e" "be_state e = OPEN \<Longrightarrow> lua_num h ''cool_down'' r = cool_down e"
  using assms by (auto simp: hash_holds_def field_counts_field lua_num_def split: if_splits)

lemma becomes_refl: "db_ok E db \<Longrightarrow> hash_holds (Suc n) (hash_at k db) e \<Longrightarrow> becomes E k n db db e"
  by (simp add: becomes_def hash_holds_less)

lemma becomes_trans: "db_ok E db1 \<and> (\<forall>j. j \<noteq> k \<longrightarrow> hash_at j db1 = hash_at j db) \<Longrightarrow> becomes E k n db1 db2 e \<Longrightarrow> becomes E k n db db2 e"
  by (simp add: becomes_def)

lemma redis_probe:
  assumes ok: "db_ok E db" and le: "ms t \<le> E" and ge: "E \<le> ms t + 1000 * ttl" "0 < ttl" and h: "hash_holds (Suc n) (hash_at k db) e" and st: "be_state e = HALF_OPEN"
  shows "\<exists>db1. r_bind (r_hincrby (ms t) k ''ho_admit'' 1 db) (\<lambda>n db1. (Inr True, r_expire (ms t) k ttl db1)) = (Inr True, db1) \<and>
    becomes E k n db db1 (e\<lparr>half_open_admit := half_open_admit e + 1, expires_at := x\<rparr>)"
proof -
  have i: "r_hincrby (ms t) k ''ho_admit'' 1 db = (Inr (half_open_admit e + 1), r_put_hash (ms t) k (dput ''ho_admit'' (FInt (half_open_admit e + 1)) (hash_at k db)) db)"
    using h by (intro db_hincrby [OF ok le]) (auto simp: hash_holds_def)
  have "becomes E k n db (r_expire (ms t) k ttl (r_put_hash (ms t) k (dput ''ho_admit'' (FInt (half_open_admit e + 1)) (hash_at k db)) db))
      (e\<lparr>half_open_admit := half_open_admit e + 1, expires_at := x\<rparr>)"
    using h st by (simp add: becomes_def db_steps [where E = E] ok le ge hash_holds_def text_field_def field_counts_def)
  then show ?thesis by (simp add: i)
qed

lemma redis_try_circuit:
  fixes t :: seconds and ttl :: int
  assumes ok: "db_ok E db" and le: "ms t \<le> E" and ge: "E \<le> ms t + 1000 * ttl" "0 < ttl" and h: "hash_holds (Suc n) (hash_at k db) e"
  shows "\<exists>db1 e1. lua_cb_try_acquire (half_open_capacity c) r ttl t k db = (Inr (fst (circuit_try c (r_time t) (Some e))), db1) \<and>
    snd (circuit_try c (r_time t) (Some e)) = Some e1 \<and> becomes E k n db db1 e1"
proof -
  note stay = becomes_refl [OF ok h]
  consider "be_state e = OPEN" "r_time t < opened_at e + cool_down e" | "be_state e = OPEN" "opened_at e + cool_down e \<le> r_time t" | "be_state e = HALF_OPEN"
    | "be_state e \<in> {CLOSED, FORCED_OPEN, FORCED_CLOSED}" by (cases "be_state e"; cases "r_time t < opened_at e + cool_down e") auto
  then show ?thesis
  proof cases
    case 1
    then show ?thesis using hash_holds_facts [OF h] stay by (simp add: lua_cb_try_acquire_def db_hmget [OF ok le] circuit_try_def)
  next
    case 2
    let ?f = "fold (\<lambda>(f, v). dput f v) [(''state'', FText ''HALF_OPEN''), (''cerr'', FInt 0), (''csucc'', FInt 0), (''ho_admit'', FInt 0)] (hash_at k db)"
    let ?h = "fold ddel [''opened_at'', ''cool_down''] ?f"
    let ?e = "e\<lparr>be_state := HALF_OPEN, error_count := 0, success_count := 0, half_open_admit := 0, opened_at := 0, cool_down := 0, expires_at := At (r_time t + STATE_TTL)\<rparr>"
    define db2 where "db2 = r_expire (ms t) k ttl (r_put_hash (ms t) k ?h (r_put_hash (ms t) k ?f db))"
    have ok2: "db_ok E db2" and h2: "hash_at j db2 = (if j = k then ?h else hash_at j db)" for j
      unfolding db2_def by (simp_all add: db_steps [where E = E] ok le ge del: fold_simps)
    have e2: "hash_holds (Suc n) (hash_at k db2) ?e" using h by (auto simp: h2 hash_holds_def field_counts_def text_field_def)
    have run: "lua_cb_try_acquire (half_open_capacity c) r ttl t k db =
      (if 0 < half_open_capacity c then r_bind (r_hincrby (ms t) k ''ho_admit'' 1 db2) (\<lambda>n db1. (Inr True, r_expire (ms t) k ttl db1)) else (Inr False, db2))"
      using 2 hash_holds_facts(1,2,5) [OF h] hash_holds_facts(6) [OF h 2(1)]
      by (simp add: lua_cb_try_acquire_def db_steps [where E = E] ok le db2_def Let_def del: fold_simps)
    have frame: "db_ok E db2 \<and> (\<forall>j. j \<noteq> k \<longrightarrow> hash_at j db2 = hash_at j db)" using ok2 h2 by simp
    show ?thesis
    proof (cases "0 < half_open_capacity c")
      case True
      from redis_probe [OF ok2 le ge e2, of "At (r_time t + STATE_TTL)"] obtain db1 where
        "r_bind (r_hincrby (ms t) k ''ho_admit'' 1 db2) (\<lambda>n db1. (Inr True, r_expire (ms t) k ttl db1)) = (Inr True, db1)"
        "becomes E k n db2 db1 (?e\<lparr>half_open_admit := half_open_admit ?e + 1, expires_at := At (r_time t + STATE_TTL)\<rparr>)" by auto
      then show ?thesis using becomes_trans [OF frame] 2 True unfolding run by (simp add: circuit_try_def)
    next
      case False
      then show ?thesis using becomes_trans [OF frame becomes_refl [OF ok2 e2]] 2 unfolding run by (simp add: circuit_try_def)
    qed
  next
    case 3
    from redis_probe [OF ok le ge h 3, of "At (r_time t + STATE_TTL)"] stay hash_holds_facts [OF h] 3
    show ?thesis by (auto simp: lua_cb_try_acquire_def db_hmget [OF ok le] circuit_try_def)
  next
    case 4
    then show ?thesis using hash_holds_facts [OF h] stay by (auto simp: lua_cb_try_acquire_def db_hmget [OF ok le] circuit_try_def)
  qed
qed

definition shown :: "breaker_snapshot \<Rightarrow> breaker_snapshot" where
  "shown s = s\<lparr>sn_opened_at := lua_shown (sn_opened_at s)\<rparr>"

lemma lua_shown_0 [simp]: "lua_shown 0 = 0"
  by (simp add: lua_shown_def)

lemma redis_release:
  assumes ok: "db_ok E db" and le: "ms t \<le> E" and a: "field_counts (hash_at k db) ''ho_admit'' a" "0 \<le> a" "a < 2 ^ 63"
  shows "lua_release_probe t k s db =
    (Inr (), if s = ''HALF_OPEN'' \<and> 0 < a then r_put_hash (ms t) k (dput ''ho_admit'' (FInt (a - 1)) (hash_at k db)) db else db)"
  using db_hincrby [OF ok le a(1), of "- 1"] a by (simp add: lua_release_probe_def db_hmget [OF ok le] field_counts_field [OF a(1)])

text \<open>A counter of a closed or recovering circuit goes up, the other is cleared, and a probe ends.\<close>

lemma redis_count:
  assumes ok: "db_ok E db" and le: "ms t \<le> E" and h: "hash_holds (Suc n) (hash_at k db) e" and st: "be_state e \<in> {CLOSED, HALF_OPEN}"
    and f: "(f, g, i) = (''cerr'', ''csucc'', error_count e) \<or> (f, g, i) = (''csucc'', ''cerr'', success_count e)"
  obtains db1 db2 db3 where "r_hincrby (ms t) k f 1 db = (Inr (i + 1), db1)" "r_hset (ms t) k [(g, FInt 0)] db1 = (Inr (), db2)"
    "lua_release_probe t k (cb_value (be_state e)) db2 = (Inr (), db3)" "db_ok E db3" "\<And>j. j \<noteq> k \<Longrightarrow> hash_at j db3 = hash_at j db"
    "hash_at k db3 = (let h2 = dput g (FInt 0) (dput f (FInt (i + 1)) (hash_at k db))
                      in if be_state e = HALF_OPEN \<and> 0 < half_open_admit e then dput ''ho_admit'' (FInt (half_open_admit e - 1)) h2 else h2)"
proof -
  have c: "field_counts (hash_at k db) f i" "- (2 ^ 63) \<le> i + 1" "i + 1 < 2 ^ 63" using f h by (auto simp: hash_holds_def)
  define db1 where "db1 = r_put_hash (ms t) k (dput f (FInt (i + 1)) (hash_at k db)) db"
  define db2 where "db2 = r_put_hash (ms t) k (dput g (FInt 0) (hash_at k db1)) db1"
  have 1: "r_hincrby (ms t) k f 1 db = (Inr (i + 1), db1)" using db_hincrby [OF ok le c] by (simp add: db1_def)
  have ok1: "db_ok E db1" by (simp add: db1_def db_put ok le)
  have 2: "r_hset (ms t) k [(g, FInt 0)] db1 = (Inr (), db2)" by (simp add: db_hset [OF ok1 le] db2_def)
  have ok2: "db_ok E db2" by (simp add: db2_def db_put ok1 le)
  have a: "field_counts (hash_at k db2) ''ho_admit'' (half_open_admit e)" "0 \<le> half_open_admit e" "half_open_admit e < 2 ^ 63"
    using f h by (auto simp: db2_def db1_def hash_holds_def field_counts_def)
  have s: "cb_value (be_state e) = ''HALF_OPEN'' \<longleftrightarrow> be_state e = HALF_OPEN" by (cases "be_state e") auto
  show ?thesis
    by (rule that [OF 1 2 redis_release [OF ok2 le a]]) (auto simp: s db_put ok le db2_def db1_def Let_def)
qed

lemma field_counts_put [simp]: "field_counts (dput f (FInt i) h) g j \<longleftrightarrow> (if f = g then i = j else field_counts h g j)"
  by (auto simp: field_counts_def)

lemma text_put [simp]: "f \<noteq> ''state'' \<Longrightarrow> text_field (dput f v h) = text_field h" "text_field (dput ''state'' (FText s) h) = s"
  by (simp_all add: text_field_def)

lemma hash_holds_error:
  assumes h: "hash_holds (Suc n) h e" and st: "be_state e \<in> {CLOSED, HALF_OPEN}"
  shows "hash_holds n (let h2 = dput ''csucc'' (FInt 0) (dput ''cerr'' (FInt (error_count e + 1)) h)
      in if be_state e = HALF_OPEN \<and> 0 < half_open_admit e then dput ''ho_admit'' (FInt (half_open_admit e - 1)) h2 else h2)
    ((\<lambda>e. if be_state e = HALF_OPEN \<and> 0 < half_open_admit e then e\<lparr>half_open_admit := half_open_admit e - 1\<rparr> else e)
      (e\<lparr>expires_at := x, error_count := error_count e + 1, success_count := 0\<rparr>))"
proof (cases "be_state e = HALF_OPEN \<and> 0 < half_open_admit e")
  case True
  then show ?thesis using h by (simp add: hash_holds_def)
next
  case False
  then have st: "be_state e \<noteq> OPEN" "be_state e \<notin> {OPEN, FORCED_OPEN, FORCED_CLOSED}" using st by auto
  show ?thesis using h st unfolding if_not_P [OF False] Let_def by (simp add: hash_holds_def False)
qed

lemma hash_holds_success:
  assumes h: "hash_holds (Suc n) h e" and st: "be_state e \<in> {CLOSED, HALF_OPEN}"
  shows "hash_holds n (let h2 = dput ''cerr'' (FInt 0) (dput ''csucc'' (FInt (success_count e + 1)) h)
      in if be_state e = HALF_OPEN \<and> 0 < half_open_admit e then dput ''ho_admit'' (FInt (half_open_admit e - 1)) h2 else h2)
    ((\<lambda>e. if be_state e = HALF_OPEN \<and> 0 < half_open_admit e then e\<lparr>half_open_admit := half_open_admit e - 1\<rparr> else e)
      (e\<lparr>expires_at := x, success_count := success_count e + 1, error_count := 0\<rparr>))"
proof (cases "be_state e = HALF_OPEN \<and> 0 < half_open_admit e")
  case True
  then show ?thesis using h by (simp add: hash_holds_def)
next
  case False
  then have st: "be_state e \<noteq> OPEN" "be_state e \<notin> {OPEN, FORCED_OPEN, FORCED_CLOSED}" using st by auto
  show ?thesis using h st unfolding if_not_P [OF False] Let_def by (simp add: hash_holds_def False)
qed

lemma fresh_same: "same (Some (fresh_entry t)) None"
  by (simp add: same_def heard_def)

lemma redis_error_circuit:
  fixes t :: seconds and ttl :: int and c :: breaker_config and e :: breaker_entry
  assumes ok: "db_ok E db" and le: "ms t \<le> E" and ge: "E \<le> ms t + 1000 * ttl" "0 < ttl" and h: "hash_holds (Suc n) (hash_at k db) e"
  defines "w \<equiv> circuit_outcome c (r_time t) False (Some e)"
  shows "\<exists>db1 e1. apfst redis_cb_unpack (lua_cb_record_error (error_threshold c) (reset_timeout c) ttl t k db) = (Inr (shown (fst w)), db1) \<and>
    snd w = Some e1 \<and> becomes E k n db db1 e1"
proof (cases "be_state e \<in> {CLOSED, HALF_OPEN}")
  case False
  then have s: "be_state e \<in> {OPEN, FORCED_OPEN, FORCED_CLOSED}" by (cases "be_state e") auto
  then have "error_count e = 0" "success_count e = 0" using h by (auto simp: hash_holds_def)
  then show ?thesis using s hash_holds_facts [OF h] becomes_refl [OF ok h] unfolding w_def
    by (auto simp: lua_cb_record_error_def db_hmget [OF ok le] circuit_outcome_def redis_cb_unpack_def snapshot_of_def shown_def)
next
  case True
  obtain db1 db2 db3 where r: "r_hincrby (ms t) k ''cerr'' 1 db = (Inr (error_count e + 1), db1)" "r_hset (ms t) k [(''csucc'', FInt 0)] db1 = (Inr (), db2)"
    "lua_release_probe t k (cb_value (be_state e)) db2 = (Inr (), db3)" "db_ok E db3" "\<And>j. j \<noteq> k \<Longrightarrow> hash_at j db3 = hash_at j db"
    and h3: "hash_at k db3 = (let h2 = dput ''csucc'' (FInt 0) (dput ''cerr'' (FInt (error_count e + 1)) (hash_at k db))
                      in if be_state e = HALF_OPEN \<and> 0 < half_open_admit e then dput ''ho_admit'' (FInt (half_open_admit e - 1)) h2 else h2)"
    by (rule redis_count [OF ok le h True, of "''cerr''" "''csucc''" "error_count e"]) auto
  let ?held = "cb_value (be_state e) = ''FORCED_OPEN'' \<or> cb_value (be_state e) = ''FORCED_CLOSED'' \<or> cb_value (be_state e) = ''OPEN''"
  have nh: "\<not> ?held" using True by auto
  let ?x = "\<lambda>e. if be_state e = HALF_OPEN \<and> 0 < half_open_admit e then e\<lparr>half_open_admit := half_open_admit e - 1\<rparr> else e"
  let ?e2 = "?x (e\<lparr>expires_at := At (r_time t + STATE_TTL), error_count := error_count e + 1, success_count := 0\<rparr>)"
  have "error_count ?e2 = error_count e + 1" by simp
  show ?thesis
  proof (cases "error_threshold c \<le> error_count e + 1")
    case low: False
    have "hash_holds n (hash_at k db3) ?e2" unfolding h3 by (rule hash_holds_error [OF h True])
    then have b: "becomes E k n db (r_expire (ms t) k ttl db3) ?e2" using r(4,5) by (simp add: becomes_def db_expire [where E = E] le ge)
    have "w = (snapshot_of ?e2, Some ?e2)" using low True unfolding w_def by (auto simp: circuit_outcome_def Let_def)
    moreover have "apfst redis_cb_unpack (lua_cb_record_error (error_threshold c) (reset_timeout c) ttl t k db) = (Inr (shown (snapshot_of ?e2)), r_expire (ms t) k ttl db3)"
      using low nh r(1-3) hash_holds_facts [OF h] by (simp add: lua_cb_record_error_def db_hmget [OF ok le] redis_cb_unpack_def snapshot_of_def shown_def)
    ultimately show ?thesis using b by auto
  next
    case high: True
    let ?h4 = "fold (\<lambda>(f, v). dput f v) [(''state'', FText ''OPEN''), (''opened_at'', FNum (r_time t)), (''cool_down'', FNum (reset_timeout c)),
       (''cerr'', FInt 0), (''csucc'', FInt 0), (''ho_admit'', FInt 0)] (hash_at k db3)"
    let ?e4 = "?e2\<lparr>be_state := OPEN, opened_at := r_time t, cool_down := reset_timeout c, expires_at := At (r_time t + resolve_state_ttl (reset_timeout c)),
      error_count := 0, success_count := 0, half_open_admit := 0\<rparr>"
    have "hash_holds n ?h4 ?e4" using h by (auto simp: hash_holds_def field_counts_def text_field_def)
    then have b: "becomes E k n db (r_expire (ms t) k ttl (r_put_hash (ms t) k ?h4 db3)) ?e4"
      using r(4,5) by (simp add: becomes_def db_steps [where E = E] le ge)
    have "w = (snapshot_of ?e4, Some ?e4)" using high True unfolding w_def by (auto simp: circuit_outcome_def Let_def)
    moreover have "apfst redis_cb_unpack (lua_cb_record_error (error_threshold c) (reset_timeout c) ttl t k db) =
        (Inr (shown (snapshot_of ?e4)), r_expire (ms t) k ttl (r_put_hash (ms t) k ?h4 db3))"
      using high nh r(1-3) hash_holds_facts [OF h]
      by (simp add: lua_cb_record_error_def db_hmget [OF ok le] db_hset [OF r(4) le] redis_cb_unpack_def snapshot_of_def shown_def)
    ultimately show ?thesis using b by auto
  qed
qed

lemma redis_success_circuit:
  fixes t :: seconds and ttl :: int and c :: breaker_config and e :: breaker_entry
  assumes ok: "db_ok E db" and le: "ms t \<le> E" and ge: "E \<le> ms t + 1000 * ttl" "0 < ttl" and h: "hash_holds (Suc n) (hash_at k db) e"
  defines "w \<equiv> circuit_outcome c (r_time t) True (Some e)"
  shows "\<exists>db1 e1. apfst redis_cb_unpack (lua_cb_record_success (success_threshold c) ttl t k db) = (Inr (shown (fst w)), db1) \<and>
    same (Some e1) (snd w) \<and> becomes E k n db db1 e1"
proof (cases "be_state e \<in> {CLOSED, HALF_OPEN}")
  case False
  then have s: "be_state e \<in> {OPEN, FORCED_OPEN, FORCED_CLOSED}" by (cases "be_state e") auto
  then have "error_count e = 0" "success_count e = 0" using h by (auto simp: hash_holds_def)
  then have "apfst redis_cb_unpack (lua_cb_record_success (success_threshold c) ttl t k db) = (Inr (shown (fst w)), db) \<and> snd w = Some e"
    using s hash_holds_facts [OF h] unfolding w_def
    by (auto simp: lua_cb_record_success_def db_hmget [OF ok le] circuit_outcome_def redis_cb_unpack_def snapshot_of_def shown_def)
  then show ?thesis using becomes_refl [OF ok h] same_refl by metis
next
  case True
  obtain db1 db2 db3 where r: "r_hincrby (ms t) k ''csucc'' 1 db = (Inr (success_count e + 1), db1)" "r_hset (ms t) k [(''cerr'', FInt 0)] db1 = (Inr (), db2)"
    "lua_release_probe t k (cb_value (be_state e)) db2 = (Inr (), db3)" "db_ok E db3" "\<And>j. j \<noteq> k \<Longrightarrow> hash_at j db3 = hash_at j db"
    and h3: "hash_at k db3 = (let h2 = dput ''cerr'' (FInt 0) (dput ''csucc'' (FInt (success_count e + 1)) (hash_at k db))
                      in if be_state e = HALF_OPEN \<and> 0 < half_open_admit e then dput ''ho_admit'' (FInt (half_open_admit e - 1)) h2 else h2)"
    by (rule redis_count [OF ok le h True, of "''csucc''" "''cerr''" "success_count e"]) auto
  let ?held = "cb_value (be_state e) = ''FORCED_OPEN'' \<or> cb_value (be_state e) = ''FORCED_CLOSED'' \<or> cb_value (be_state e) = ''OPEN''"
  have nh: "\<not> ?held" using True by auto
  have s: "cb_value (be_state e) = ''HALF_OPEN'' \<longleftrightarrow> be_state e = HALF_OPEN" by (cases "be_state e") auto
  let ?x = "\<lambda>e. if be_state e = HALF_OPEN \<and> 0 < half_open_admit e then e\<lparr>half_open_admit := half_open_admit e - 1\<rparr> else e"
  let ?e2 = "?x (e\<lparr>expires_at := At (r_time t + STATE_TTL), success_count := success_count e + 1, error_count := 0\<rparr>)"
  have run: "lua_cb_record_success (success_threshold c) ttl t k db =
      (if be_state e = HALF_OPEN \<and> success_threshold c \<le> success_count e + 1 then (Inr (''CLOSED'', 0, 0, 0), r_del k db3)
       else (Inr (cb_value (be_state e), 0, success_count e + 1, lua_shown (opened_at e)), r_expire (ms t) k ttl db3))"
    using nh r(1-3) hash_holds_facts [OF h] by (simp add: lua_cb_record_success_def db_hmget [OF ok le] s)
  show ?thesis
  proof (cases "be_state e = HALF_OPEN \<and> success_threshold c \<le> success_count e + 1")
    case shut: True
    have "int n < 2 ^ 63" using h by (auto simp: hash_holds_def)
    then have "becomes E k n db (r_del k db3) (fresh_entry t)" using r(4,5) by (simp add: becomes_def db_del hash_holds_Nil)
    then show ?thesis using shut fresh_same unfolding w_def run
      by (auto simp: circuit_outcome_def Let_def redis_cb_unpack_def shown_def DEFAULT_SNAPSHOT_def)
  next
    case low: False
    have "hash_holds n (hash_at k db3) ?e2" unfolding h3 by (rule hash_holds_success [OF h True])
    then have b: "becomes E k n db (r_expire (ms t) k ttl db3) ?e2" using r(4,5) by (simp add: becomes_def db_expire [where E = E] le ge)
    have "w = (snapshot_of ?e2, Some ?e2)" using low True unfolding w_def by (auto simp: circuit_outcome_def Let_def)
    moreover have "apfst redis_cb_unpack (lua_cb_record_success (success_threshold c) ttl t k db) = (Inr (shown (snapshot_of ?e2)), r_expire (ms t) k ttl db3)"
      unfolding run using low by (simp add: redis_cb_unpack_def snapshot_of_def shown_def)
    ultimately show ?thesis using b same_refl by (metis fst_conv snd_conv)
  qed
qed

lemma redis_transition_circuit:
  fixes t :: seconds and ttl :: int
  assumes ok: "db_ok E db" and le: "ms t \<le> E" and ge: "E \<le> ms t + 1000 * ttl" "0 < ttl" and h: "hash_holds (Suc n) (hash_at k db) e"
  shows "\<exists>db1 e1. lua_cb_transition (cb_value st) (case w of Some x \<Rightarrow> x | None \<Rightarrow> reset_timeout c) ttl t k db = (Inr (), db1) \<and>
    same (Some e1) (circuit_transition c (r_time t) st w) \<and> becomes E k n db db1 e1"
proof (cases "st = CLOSED")
  case True
  have "int n < 2 ^ 63" using h by (auto simp: hash_holds_def)
  then have "becomes E k n db (r_del k db) (fresh_entry t)" using ok by (simp add: becomes_def db_del hash_holds_Nil)
  then show ?thesis using True fresh_same by (auto simp: lua_cb_transition_def circuit_transition_def)
next
  case False
  then obtain e1 where e1: "circuit_transition c (r_time t) st w = Some e1" by (cases "st = OPEN") (auto simp: circuit_transition_def Let_def)
  have n: "int n < 2 ^ 63" using h by (auto simp: hash_holds_def)
  have "\<exists>db1. lua_cb_transition (cb_value st) (case w of Some x \<Rightarrow> x | None \<Rightarrow> reset_timeout c) ttl t k db = (Inr (), db1) \<and> becomes E k n db db1 e1"
  proof (cases "st = OPEN")
    case True
    then show ?thesis using e1 n by (auto simp: lua_cb_transition_def circuit_transition_def Let_def db_steps [where E = E] ok le ge becomes_def hash_holds_def)
  next
    case other: False
    let ?f = "fold (\<lambda>(f, v). dput f v) [(''state'', FText (cb_value st)), (''cerr'', FInt 0), (''csucc'', FInt 0), (''ho_admit'', FInt 0)] (hash_at k db)"
    let ?h = "fold ddel [''opened_at'', ''cool_down''] ?f"
    define db2 where "db2 = r_put_hash (ms t) k ?h (r_put_hash (ms t) k ?f db)"
    have ok2: "db_ok E db2" and h2: "hash_at j db2 = (if j = k then ?h else hash_at j db)" for j
      unfolding db2_def by (simp_all add: db_steps [where E = E] ok le del: fold_simps)
    have e: "e1 = \<lparr>be_state = st, opened_at = 0, cool_down = 0, error_count = 0, success_count = 0, half_open_admit = 0,
        expires_at = (if st \<in> {FORCED_OPEN, FORCED_CLOSED} then Never else At (r_time t + STATE_TTL))\<rparr>"
      using e1 False other by (simp add: circuit_transition_def Let_def)
    have "hash_holds n ?h e1" using n other unfolding e by (simp add: hash_holds_def field_counts_def text_field_def)
    then have "becomes E k n db (if cb_value st = ''FORCED_OPEN'' \<or> cb_value st = ''FORCED_CLOSED'' then r_persist (ms t) k db2 else r_expire (ms t) k ttl db2) e1"
      by (simp add: becomes_def db_steps [where E = E] ok2 le ge h2 del: fold_simps)
    moreover have "cb_value st \<noteq> ''OPEN''" "cb_value st \<noteq> ''CLOSED''" using other False by (cases st; simp)+
    then have "lua_cb_transition (cb_value st) (case w of Some x \<Rightarrow> x | None \<Rightarrow> reset_timeout c) ttl t k db =
        (Inr (), if cb_value st = ''FORCED_OPEN'' \<or> cb_value st = ''FORCED_CLOSED'' then r_persist (ms t) k db2 else r_expire (ms t) k ttl db2)"
      by (simp add: lua_cb_transition_def db_steps [where E = E] ok le db2_def)
    ultimately show ?thesis by blast
  qed
  then show ?thesis using e1 same_refl by auto
qed

lemma redis_snapshot_circuit:
  assumes ok: "db_ok E db" and le: "ms t \<le> E" and h: "hash_holds n (hash_at k db) e"
  shows "redis_cb_unpack (lua_cb_get_state t k db) = Inr (shown (circuit_snapshot (Some e)))"
  using hash_holds_facts [OF h] by (simp add: lua_cb_get_state_def db_hash [OF ok le] redis_cb_unpack_def circuit_snapshot_def snapshot_of_def shown_def)

section \<open>A day of calls\<close>

fun shown_answer :: "'x circuit_answer \<Rightarrow> 'x circuit_answer" where
  "shown_answer (Seen s) = Seen (shown s)"
| "shown_answer a = a"

lemma redis_cb_ttl_day: "86400 \<le> redis_cb_ttl c"
proof -
  have "86400 \<le> resolve_state_ttl (reset_timeout c)" by (simp add: resolve_state_ttl_def STATE_TTL_def)
  then show ?thesis unfolding redis_cb_ttl_def by linarith
qed

lemma redis_step_circuit:
  fixes t :: seconds and S :: breaker_strategy and x :: circuit_call and e :: breaker_entry
  assumes ok: "db_ok E db" and le: "ms t \<le> E" and ge: "E \<le> ms t + 86400000" and h: "hash_holds (Suc n) (hash_at (cb_row_key pre (bs_name S)) db) e"
  defines "p \<equiv> circuit_spec (bs_config S) (r_time t) x (Some e) :: py_exc circuit_answer \<times> breaker_entry option"
  shows "\<exists>db1 e1. circuit_step (redis_circuits pre) S t x db = (shown_answer (fst p), db1) \<and> same (Some e1) (snd p) \<and>
    becomes E (cb_row_key pre (bs_name S)) n db db1 e1"
proof -
  let ?c = "bs_config S" and ?k = "cb_row_key pre (bs_name S)"
  have ttl: "E \<le> ms t + 1000 * redis_cb_ttl ?c" "0 < redis_cb_ttl ?c" using redis_cb_ttl_day [of ?c] ge by linarith+
  show ?thesis
  proof (cases x)
    case CTry
    from redis_try_circuit [OF ok le ttl h, of ?c "reset_timeout ?c"] obtain db1 e1 where
      r: "lua_cb_try_acquire (half_open_capacity ?c) (reset_timeout ?c) (redis_cb_ttl ?c) t ?k db = (Inr (fst (circuit_try ?c (r_time t) (Some e))), db1)"
        "snd (circuit_try ?c (r_time t) (Some e)) = Some e1" "becomes E ?k n db db1 e1" by auto
    then show ?thesis using CTry same_refl [of "Some e1"] unfolding p_def by (auto simp: redis_circuits_def split_beta)
  next
    case (COutcome good)
    obtain db1 e1 where r: "apfst redis_cb_unpack (lua_cb_record_error (error_threshold ?c) (reset_timeout ?c) (redis_cb_ttl ?c) t ?k db) =
        (Inr (shown (fst (circuit_outcome ?c (r_time t) False (Some e)))), db1)" "snd (circuit_outcome ?c (r_time t) False (Some e)) = Some e1" "becomes E ?k n db db1 e1"
      using redis_error_circuit [OF ok le ttl h, of ?c] by auto
    then show ?thesis using COutcome redis_success_circuit [OF ok le ttl h, of ?c] same_refl [of "Some e1"] unfolding p_def
      by (cases good) (auto simp: redis_circuits_def)
  next
    case (CTransition st w)
    then show ?thesis using redis_transition_circuit [OF ok le ttl h, where st = st and w = w and c = ?c] unfolding p_def by (auto simp: redis_circuits_def)
  next
    case CSnapshot
    then show ?thesis using redis_snapshot_circuit [OF ok le h] becomes_refl [OF ok h] same_refl [of "Some e"] unfolding p_def
      by (auto simp: redis_circuits_def)
  qed
qed

text \<open>Circuits that last beyond the time \<open>D\<close>.\<close>

definition late :: "seconds \<Rightarrow> breaker_entry option \<Rightarrow> bool" where
  "late D v \<longleftrightarrow> (case v of None \<Rightarrow> True | Some e \<Rightarrow> \<not> passed D (expires_at e))"

lemma late_heard: "late D v \<Longrightarrow> t \<le> D \<Longrightarrow> living t v = heard v"
  by (auto simp: late_def living_def heard_def dest: passed_later split: option.splits)

lemma late_hearing: "late D v \<Longrightarrow> late D (heard v)"
  by (auto simp: late_def heard_def split: option.splits)

lemma late_step: "late D v \<Longrightarrow> D < t + STATE_TTL \<Longrightarrow> late D (snd (circuit_spec c t x v))"
  by (cases x) (auto simp: late_def circuit_try_def circuit_outcome_def circuit_transition_def resolve_state_ttl_def fresh_entry_def Let_def split: option.splits)

definition within_day :: "int \<Rightarrow> seconds \<Rightarrow> (breaker_strategy \<times> seconds \<times> circuit_call) list \<Rightarrow> bool" where
  "within_day E D xs \<longleftrightarrow> list_all (\<lambda>(S, t, c). ms t \<le> E \<and> E \<le> ms t + 86400000 \<and> r_time t \<le> D \<and> D < r_time t + STATE_TTL) xs"

definition server_time :: "(breaker_strategy \<times> seconds \<times> circuit_call) list \<Rightarrow> (breaker_strategy \<times> seconds \<times> circuit_call) list" where
  "server_time xs = map (\<lambda>(S, t, c). (S, r_time t, c)) xs"

lemma redis_run_spec:
  assumes "db_ok E db" "within_day E D xs" "\<And>n. \<exists>e. hash_holds (length xs) (hash_at (cb_row_key pre n) db) e \<and> same (Some e) (f n)" "\<And>n. late D (f n)"
  shows "circuit_run (redis_circuits pre) xs db = map shown_answer (spec_run (server_time xs) f)"
  using assms
proof (induction xs arbitrary: db f)
  case (Cons x xs)
  obtain S t c where x: "x = (S, t, c)" by (cases x) auto
  have t: "ms t \<le> E" "E \<le> ms t + 86400000" "r_time t \<le> D" "D < r_time t + STATE_TTL" "within_day E D xs" using Cons.prems(2) by (auto simp: x within_day_def)
  obtain e where e: "hash_holds (Suc (length xs)) (hash_at (cb_row_key pre (bs_name S)) db) e" "same (Some e) (f (bs_name S))" using Cons.prems(3) [of "bs_name S"] by auto
  let ?p = "circuit_spec (bs_config S) (r_time t) c (Some e) :: py_exc circuit_answer \<times> breaker_entry option"
  let ?q = "circuit_spec (bs_config S) (r_time t) c (living (r_time t) (f (bs_name S))) :: py_exc circuit_answer \<times> breaker_entry option"
  have a: "living (r_time t) (f (bs_name S)) = heard (f (bs_name S))" by (rule late_heard [OF Cons.prems(4) t(3)])
  have q: "fst ?p = fst ?q \<and> same (snd ?p) (snd ?q)" unfolding a by (rule same_step) (use e(2) same_heard same_sym same_trans in blast)
  obtain db1 e1 where r: "circuit_step (redis_circuits pre) S t c db = (shown_answer (fst ?q), db1)" "same (Some e1) (snd ?q)"
    "becomes E (cb_row_key pre (bs_name S)) (length xs) db db1 e1"
    using redis_step_circuit [OF Cons.prems(1) t(1,2) e(1), of c] q by (auto intro: same_trans)
  let ?f = "f(bs_name S := snd ?q)"
  have "\<exists>e. hash_holds (length xs) (hash_at (cb_row_key pre n) db1) e \<and> same (Some e) (?f n)" for n
    using r(2,3) Cons.prems(3) [of n] hash_holds_less by (cases "n = bs_name S") (auto simp: becomes_def)
  moreover have "late D (?f n)" for n
    using Cons.prems(4) [of n] late_step [OF late_hearing [OF Cons.prems(4)] t(4), where 'a = py_exc] by (simp add: a)
  moreover have "db_ok E db1" using r(3) by (simp add: becomes_def)
  ultimately have "circuit_run (redis_circuits pre) xs db1 = map shown_answer (spec_run (server_time xs) ?f)" using Cons.IH t(5) by blast
  then show ?case using r(1) by (simp add: x server_time_def split_beta)
qed (simp add: server_time_def)

lemma r_time_mono: "s \<le> t \<Longrightarrow> r_time s \<le> r_time t"
  by (simp add: r_time_def floor_mono divide_right_mono)

lemma r_time_add: "r_time (t + real_of_int i) = r_time t + real_of_int i"
proof -
  have "(t + real_of_int i) * 1000000 = t * 1000000 + real_of_int (1000000 * i)" by (simp add: algebra_simps)
  then have "\<lfloor>(t + real_of_int i) * 1000000\<rfloor> = \<lfloor>t * 1000000\<rfloor> + 1000000 * i" by (simp only: floor_add_int [symmetric])
  then show ?thesis by (simp add: r_time_def field_simps)
qed

lemma ms_add: "ms (t + real_of_int i) = ms t + 1000 * i"
proof -
  have "(t + real_of_int i) * 1000 = t * 1000 + real_of_int (1000 * i)" by (simp add: algebra_simps)
  then show ?thesis unfolding ms_def by (simp only: floor_add_int [symmetric])
qed

lemma day_within:
  assumes "list_all (\<lambda>(S, t, c). t0 \<le> t \<and> t \<le> t0 + 86399) xs"
  shows "within_day (ms t0 + 86400000) (r_time t0 + 86399) xs"
proof -
  have "ms t \<le> ms t0 + 86400000 \<and> ms t0 \<le> ms t \<and> r_time t \<le> r_time t0 + 86399 \<and> r_time t0 \<le> r_time t" if "t0 \<le> t" "t \<le> t0 + 86399" for t
    using ms_mono [OF that(1)] ms_mono [OF that(2)] r_time_mono [OF that(1)] r_time_mono [OF that(2)] ms_add [of t0 86399] r_time_add [of t0 86399] by simp
  then show ?thesis using assms by (fastforce simp: within_day_def list_all_iff STATE_TTL_def)
qed

lemma server_in_time: "in_time t0 xs \<Longrightarrow> in_time (r_time t0) (server_time xs)"
  by (induction xs arbitrary: t0) (auto simp: server_time_def r_time_mono)

text \<open>C32. For a day, the circuit breakers on Redis answer any calls of any breakers as the in-memory adapter does at the time of the server's
  clock, with the times they show rounded.\<close>

theorem redis_breakers_refine_memory:
  assumes "in_time t0 xs" "list_all (\<lambda>(S, t, c). t0 \<le> t \<and> t \<le> t0 + 86399) xs" "int (length xs) < 2 ^ 63"
  shows "circuit_run (redis_circuits pre) xs [] =
    map (\<lambda>a. shown_answer (map_circuit_answer (\<lambda>u. ResponseError) a)) (circuit_run memory_circuits (server_time xs) [])"
proof -
  have e: "\<exists>e. hash_holds (length xs) (hash_at (cb_row_key pre n) []) e \<and> same (Some e) None" for n
    using hash_holds_Nil [OF assms(3)] fresh_same by (auto simp: hash_at_def)
  have "circuit_run (redis_circuits pre) xs [] = map shown_answer (spec_run (server_time xs) (\<lambda>n. None))"
    by (rule redis_run_spec [OF _ day_within [OF assms(2)] e]) (simp_all add: db_ok_def late_def)
  also have "\<dots> = map shown_answer (map (map_circuit_answer (\<lambda>u. ResponseError)) (circuit_run memory_circuits (server_time xs) []))"
    by (simp only: memory_answers_spec [OF server_in_time [OF assms(1)]] spec_run_type)
  finally show ?thesis by simp
qed

theorem redis_breakers_refine_memory_witness:
  "circuit_run (redis_circuits ''p:'') breaker_trace [] =
    map (\<lambda>a. shown_answer (map_circuit_answer (\<lambda>u. ResponseError) a)) (circuit_run memory_circuits (server_time breaker_trace) [])"
  by (rule redis_breakers_refine_memory [of 0]) (simp_all add: breaker_trace_def Let_def)

section \<open>A lifetime below the cool-down\<close>

text \<open>The lifetime of a key comes from the configuration, not from the cool-down of the transition: a circuit that an operator opens for
  two days admits calls again after one, where the in-memory adapter still refuses.\<close>

theorem redis_manual_open_lapses:
  fixes name :: string
  defines "S \<equiv> \<lparr>bs_name = name, bs_config = \<lparr>error_threshold = 5, success_threshold = 2, reset_timeout = 30, half_open_capacity = 1\<rparr>\<rparr>"
  shows "circuit_run (redis_circuits pre) [(S, 0, CTransition OPEN (Some 172800)), (S, 86401, CTry)] [] = [Moved, Admitted True] \<and>
    circuit_run memory_circuits [(S, 0, CTransition OPEN (Some 172800)), (S, 86401, CTry)] [] = [Moved, Admitted False]"
proof
  show "circuit_run memory_circuits [(S, 0, CTransition OPEN (Some 172800)), (S, 86401, CTry)] [] = [Moved, Admitted False]"
    by (subst memory_answers_spec [of 0]) (simp_all add: S_def circuit_transition_def circuit_try_def says_nothing_def resolve_state_ttl_def STATE_TTL_def)
  show "circuit_run (redis_circuits pre) [(S, 0, CTransition OPEN (Some 172800)), (S, 86401, CTry)] [] = [Moved, Admitted True]"
    by (simp add: S_def redis_circuits_def lua_cb_transition_def lua_cb_try_acquire_def redis_cb_ttl_def resolve_state_ttl_def STATE_TTL_def
        r_hset_def r_hash_def r_put_hash_def r_hmget_def r_expire_def r_pexpire_def r_alive_def r_lookup_def text_field_def ms_def)
qed

end
