(* ===== verification/Kube_Lease.thy ===== *)
theory Kube_Lease
  imports Leader Text
begin

text \<open>
  Coordination on Kubernetes (\<open>coordination/kubernetes.py\<close>): locks and elections in \<open>Lease\<close> objects. A call of an adapter is a program
  of single requests to the API server: it reads a lease with its \<open>resourceVersion\<close>, decides, and writes back under that
  version, and between any two requests other clients act, requests fail, and clients die. The programs
  are the values of a datatype with one constructor per request, and a run interleaves those of any number of clients. Every client reads
  its own clock (\<open>datetime.now(tz=UTC)\<close> of its node): an event carries the instant at which it happens and what the clock of the client shows then, which
  may be off by up to a bound \<open>k\<close> in either direction and may go back. The locale
  \<open>lease_clients\<close> says what a program may write, given what it has read; in it, the history of every lease is shown to be
  a chain of such writes, each decided on the state that it replaces.
\<close>

section \<open>The API server\<close>

record lease_spec =
  holderIdentity :: "token option"
  leaseDurationSeconds :: "int option"
  acquireTime :: "seconds option"
  renewTime :: "seconds option"
  leaseTransitions :: "int option"

record lease =
  l_name :: string
  resourceVersion :: nat
  managed :: bool
  annotations :: "(string, string) pydict option"
  l_spec :: "lease_spec option"

datatype api_error = NOT_FOUND | CONFLICT | API_FAILURE

text \<open>The leases of a namespace, and the last version that was given out.\<close>

record kube =
  leases :: "(string, lease) pydict"
  version :: nat

definition kube_write :: "lease \<Rightarrow> kube \<Rightarrow> kube" where
  "kube_write l s = s\<lparr>leases := dput (l_name l) (l\<lparr>resourceVersion := Suc (version s)\<rparr>) (leases s), version := Suc (version s)\<rparr>"

definition kube_get :: "string \<Rightarrow> kube \<Rightarrow> api_error + lease" where
  "kube_get n s = (case dget (leases s) n of None \<Rightarrow> Inl NOT_FOUND | Some l \<Rightarrow> Inr l)"

definition kube_create :: "lease \<Rightarrow> kube \<Rightarrow> (api_error + unit) \<times> kube" where
  "kube_create l s = (case dget (leases s) (l_name l) of None \<Rightarrow> (Inr (), kube_write l s) | Some l0 \<Rightarrow> (Inl CONFLICT, s))"

definition kube_replace :: "lease \<Rightarrow> kube \<Rightarrow> (api_error + unit) \<times> kube" where
  "kube_replace l s =
     (case dget (leases s) (l_name l) of
        None \<Rightarrow> (Inl NOT_FOUND, s)
      | Some l0 \<Rightarrow> if resourceVersion l0 = resourceVersion l then (Inr (), kube_write l s) else (Inl CONFLICT, s))"

definition kube_delete :: "string \<Rightarrow> kube \<Rightarrow> (api_error + unit) \<times> kube" where
  "kube_delete n s = (case dget (leases s) n of None \<Rightarrow> (Inl NOT_FOUND, s) | Some l \<Rightarrow> (Inr (), s\<lparr>leases := ddel n (leases s)\<rparr>))"

definition kube_list :: "kube \<Rightarrow> lease list" where
  "kube_list s = filter managed (map snd (leases s))"

section \<open>Programs of requests\<close>

datatype kube_exc = ApiError api_error | PyError py_exc

datatype kube_answer = Fence "int option" | Flag bool | Leads leader_record | Live "leader_record option" | Closed

datatype kprog =
  Return kube_answer
| Raise kube_exc
| Now "seconds \<Rightarrow> kprog"
| Get string "api_error + lease \<Rightarrow> kprog"
| ListAll "api_error + lease list \<Rightarrow> kprog"
| Create lease "api_error + unit \<Rightarrow> kprog"
| Replace lease "api_error + unit \<Rightarrow> kprog"
| Delete string "api_error + unit \<Rightarrow> kprog"

section \<open>Names\<close>

text \<open>\<open>name.lower()\<close>, the two substitutions, the cut at 253 characters and \<open>strip('-')\<close>.\<close>

definition label_char :: "char \<Rightarrow> bool" where
  "label_char c \<longleftrightarrow> of_char c \<in> {97 .. 122 :: nat} \<or> of_char c \<in> {48 .. 57 :: nat} \<or> c = CHR ''-''"

fun squeeze :: "string \<Rightarrow> string" where
  "squeeze (c # d # cs) = (if c = CHR ''-'' \<and> d = CHR ''-'' then squeeze (d # cs) else c # squeeze (d # cs))"
| "squeeze cs = cs"

definition strip_hyphens :: "string \<Rightarrow> string" where
  "strip_hyphens s = rev (dropWhile (\<lambda>c. c = CHR ''-'') (rev (dropWhile (\<lambda>c. c = CHR ''-'') s)))"

definition MAX_NAME_LENGTH :: nat where
  "MAX_NAME_LENGTH = 253"

definition sanitize_lease_name :: "string \<Rightarrow> py_exc + string" where
  "sanitize_lease_name name =
     (let s = map (\<lambda>c. if label_char c then c else CHR ''-'') (map lower_char name);
          r = strip_hyphens (take MAX_NAME_LENGTH (squeeze s))
      in if r = [] then Inl ValueError else Inr r)"

text \<open>A call begins with the name of its lease.\<close>

definition named :: "string \<Rightarrow> string \<Rightarrow> (string \<Rightarrow> kprog) \<Rightarrow> kprog" where
  "named pre name f = (case sanitize_lease_name (pre @ name) of Inl e \<Rightarrow> Raise (PyError e) | Inr n \<Rightarrow> f n)"

section \<open>The lock adapter\<close>

definition get_expire_at :: "lease \<Rightarrow> seconds option" where
  "get_expire_at l =
     (case l_spec l of
        None \<Rightarrow> None
      | Some s \<Rightarrow> (case (renewTime s, leaseDurationSeconds s) of (Some r, Some d) \<Rightarrow> Some (r + real_of_int d) | _ \<Rightarrow> None))"

definition current_holder :: "lease \<Rightarrow> token option" where
  "current_holder l = (case l_spec l of None \<Rightarrow> None | Some s \<Rightarrow> holderIdentity s)"

text \<open>The counter of a lease; a missing one is zero.\<close>

definition current_transitions :: "lease \<Rightarrow> int" where
  "current_transitions l = (case l_spec l of None \<Rightarrow> 0 | Some s \<Rightarrow> (case leaseTransitions s of None \<Rightarrow> 0 | Some n \<Rightarrow> n))"

definition held_spec :: "token \<Rightarrow> seconds \<Rightarrow> seconds \<Rightarrow> int \<Rightarrow> lease_spec" where
  "held_spec token duration now fence = \<lparr>holderIdentity = Some token, leaseDurationSeconds = Some \<lceil>duration\<rceil>, acquireTime = Some now, renewTime = Some now,
     leaseTransitions = Some fence\<rparr>"

definition create_lease :: "string \<Rightarrow> token \<Rightarrow> seconds \<Rightarrow> kprog" where
  "create_lease n token duration = Now (\<lambda>now.
     Create \<lparr>l_name = n, resourceVersion = 0, managed = True, annotations = None, l_spec = Some (held_spec token duration now 1)\<rparr>
       (\<lambda>r. case r of Inr u \<Rightarrow> Return (Fence (Some 1)) | Inl e \<Rightarrow> if e = CONFLICT then Return (Fence None) else Raise (ApiError e)))"

definition replace_lease :: "lease \<Rightarrow> token \<Rightarrow> seconds \<Rightarrow> bool \<Rightarrow> token option \<Rightarrow> kprog" where
  "replace_lease l token duration live who = Now (\<lambda>now.
     let fence = (if live \<and> who = Some token then current_transitions l else current_transitions l + 1)
     in Replace \<lparr>l_name = l_name l, resourceVersion = resourceVersion l, managed = True, annotations = None, l_spec = Some (held_spec token duration now fence)\<rparr>
          (\<lambda>r. case r of Inr u \<Rightarrow> Return (Fence (Some fence)) | Inl e \<Rightarrow> if e = CONFLICT then Return (Fence None) else Raise (ApiError e)))"

definition vacant_spec :: "int \<Rightarrow> lease_spec" where
  "vacant_spec n = \<lparr>holderIdentity = None, leaseDurationSeconds = None, acquireTime = None, renewTime = None, leaseTransitions = Some n\<rparr>"

text \<open>\<open>_vacate_lease\<close>, with what its caller does with the answer.\<close>

definition vacate_lease :: "lease \<Rightarrow> (bool \<Rightarrow> kprog) \<Rightarrow> kprog" where
  "vacate_lease l k =
     Replace \<lparr>l_name = l_name l, resourceVersion = resourceVersion l, managed = True, annotations = None, l_spec = Some (vacant_spec (current_transitions l))\<rparr>
       (\<lambda>r. case r of Inr u \<Rightarrow> k True | Inl e \<Rightarrow> if e = NOT_FOUND \<or> e = CONFLICT then k False else Raise (ApiError e))"

definition kube_acquire :: "string \<Rightarrow> string \<Rightarrow> token \<Rightarrow> seconds \<Rightarrow> kprog" where
  "kube_acquire pre name token duration = named pre name (\<lambda>n. Now (\<lambda>now. Get n (\<lambda>r.
     case r of
       Inl e \<Rightarrow> if e \<noteq> NOT_FOUND then Raise (ApiError e) else create_lease n token duration
     | Inr l \<Rightarrow>
         let live = (case get_expire_at l of None \<Rightarrow> False | Some x \<Rightarrow> now \<le> x)
         in if live \<and> current_holder l \<noteq> Some token then Return (Fence None)
            else replace_lease l token duration live (current_holder l))))"

definition kube_release :: "string \<Rightarrow> string \<Rightarrow> token \<Rightarrow> kprog" where
  "kube_release pre name token = named pre name (\<lambda>n. Now (\<lambda>now. Get n (\<lambda>r.
     case r of
       Inl e \<Rightarrow> if e = NOT_FOUND then Return (Flag False) else Raise (ApiError e)
     | Inr l \<Rightarrow>
         if current_holder l \<noteq> Some token \<or> (case get_expire_at l of None \<Rightarrow> True | Some x \<Rightarrow> x < now) then Return (Flag False)
         else vacate_lease l (\<lambda>b. Return (Flag b)))))"

definition kube_locked :: "string \<Rightarrow> string \<Rightarrow> kprog" where
  "kube_locked pre name = named pre name (\<lambda>n. Get n (\<lambda>r.
     case r of
       Inl e \<Rightarrow> if e = NOT_FOUND then Return (Flag False) else Raise (ApiError e)
     | Inr l \<Rightarrow> (case get_expire_at l of None \<Rightarrow> Return (Flag False) | Some x \<Rightarrow> Now (\<lambda>now. Return (Flag (now \<le> x))))))"

definition kube_owned :: "string \<Rightarrow> string \<Rightarrow> token \<Rightarrow> kprog" where
  "kube_owned pre name token = named pre name (\<lambda>n. Get n (\<lambda>r.
     case r of
       Inl e \<Rightarrow> if e = NOT_FOUND then Return (Flag False) else Raise (ApiError e)
     | Inr l \<Rightarrow>
         if current_holder l \<noteq> Some token then Return (Flag False)
         else (case get_expire_at l of None \<Rightarrow> Return (Flag False) | Some x \<Rightarrow> Now (\<lambda>now. Return (Flag (now \<le> x))))))"

text \<open>\<open>__aexit__\<close>: the expired leases of the listing, one after the other.\<close>

fun vacate_expired :: "seconds \<Rightarrow> lease list \<Rightarrow> kprog" where
  "vacate_expired now [] = Return Closed"
| "vacate_expired now (l # ls) =
     (if current_holder l \<noteq> None \<and> (case get_expire_at l of None \<Rightarrow> False | Some x \<Rightarrow> x < now) then vacate_lease l (\<lambda>b. vacate_expired now ls)
      else vacate_expired now ls)"

definition kube_lock_close :: kprog where
  "kube_lock_close = Now (\<lambda>now. ListAll (\<lambda>r. case r of Inl e \<Rightarrow> Raise (ApiError e) | Inr ls \<Rightarrow> vacate_expired now ls))"

section \<open>Runs\<close>

text \<open>
  A run: events with the instant and the reading of the client's clock. A client begins a request, its program makes its next step, a request to the server fails without effect or after it took
  effect, or the client dies. The log holds what was written: by which request, when, and the lease before and after.
\<close>

datatype 'r kevent = Begin nat 'r | Go nat | Fault nat | Fault_Late nat | Die nat

type_synonym 'r kwrite = "'r \<times> seconds \<times> string \<times> lease option \<times> lease option"

record 'r kworld =
  server :: kube
  programs :: "(nat, 'r \<times> kprog) pydict"
  writes :: "'r kwrite list"
  answers :: "('r \<times> kube_answer) list"

text \<open>One request, or reading \<open>c\<close> of the clock: the answer, the server and the lease it may have written.\<close>

fun kube_serve :: "seconds \<Rightarrow> kprog \<Rightarrow> kube \<Rightarrow> kprog \<times> kube \<times> string option" where
  "kube_serve c (Now k) s = (k c, s, None)"
| "kube_serve c (Get n k) s = (k (kube_get n s), s, None)"
| "kube_serve c (ListAll k) s = (k (Inr (kube_list s)), s, None)"
| "kube_serve c (Create l k) s = (case kube_create l s of (a, s1) \<Rightarrow> (k a, s1, if a = Inr () then Some (l_name l) else None))"
| "kube_serve c (Replace l k) s = (case kube_replace l s of (a, s1) \<Rightarrow> (k a, s1, if a = Inr () then Some (l_name l) else None))"
| "kube_serve c (Delete n k) s = (case kube_delete n s of (a, s1) \<Rightarrow> (k a, s1, if a = Inr () then Some n else None))"
| "kube_serve c p s = (p, s, None)"

text \<open>The program when its request is answered by a failure.\<close>

fun kube_fail :: "kprog \<Rightarrow> kprog" where
  "kube_fail (Get n k) = k (Inl API_FAILURE)"
| "kube_fail (ListAll k) = k (Inl API_FAILURE)"
| "kube_fail (Create l k) = k (Inl API_FAILURE)"
| "kube_fail (Replace l k) = k (Inl API_FAILURE)"
| "kube_fail (Delete n k) = k (Inl API_FAILURE)"
| "kube_fail p = p"

definition kube_log :: "'r \<Rightarrow> seconds \<Rightarrow> kube \<Rightarrow> kube \<Rightarrow> string option \<Rightarrow> 'r kwrite list \<Rightarrow> 'r kwrite list" where
  "kube_log r t s s1 w ws = (case w of None \<Rightarrow> ws | Some n \<Rightarrow> (r, t, n, dget (leases s) n, dget (leases s1) n) # ws)"

fun kube_step :: "('r \<Rightarrow> kprog) \<Rightarrow> seconds \<times> seconds \<times> 'r kevent \<Rightarrow> 'r kworld \<Rightarrow> 'r kworld" where
  "kube_step code (t, c, Begin i r) w = (if dget (programs w) i = None then w\<lparr>programs := dput i (r, code r) (programs w)\<rparr> else w)"
| "kube_step code (t, c, Go i) w =
     (case dget (programs w) i of
        None \<Rightarrow> w
      | Some (r, Return a) \<Rightarrow> w\<lparr>programs := ddel i (programs w), answers := (r, a) # answers w\<rparr>
      | Some (r, Raise e) \<Rightarrow> w\<lparr>programs := ddel i (programs w)\<rparr>
      | Some (r, p) \<Rightarrow>
          (case kube_serve c p (server w) of (p1, s1, n) \<Rightarrow>
             w\<lparr>server := s1, writes := kube_log r t (server w) s1 n (writes w), programs := dput i (r, p1) (programs w)\<rparr>))"
| "kube_step code (t, c, Fault i) w =
     (case dget (programs w) i of None \<Rightarrow> w | Some (r, p) \<Rightarrow> w\<lparr>programs := dput i (r, kube_fail p) (programs w)\<rparr>)"
| "kube_step code (t, c, Fault_Late i) w =
     (case dget (programs w) i of
        None \<Rightarrow> w
      | Some (r, p) \<Rightarrow>
          (case kube_serve c p (server w) of (p1, s1, n) \<Rightarrow>
             w\<lparr>server := s1, writes := kube_log r t (server w) s1 n (writes w), programs := dput i (r, kube_fail p) (programs w)\<rparr>))"
| "kube_step code (t, c, Die i) w = w\<lparr>programs := ddel i (programs w)\<rparr>"

fun kube_run :: "('r \<Rightarrow> kprog) \<Rightarrow> (seconds \<times> seconds \<times> 'r kevent) list \<Rightarrow> 'r kworld \<Rightarrow> 'r kworld" where
  "kube_run code [] w = w"
| "kube_run code (e # es) w = kube_run code es (kube_step code e w)"

definition kube_init :: "'r kworld" where
  "kube_init = \<lparr>server = \<lparr>leases = [], version = 0\<rparr>, programs = [], writes = [], answers = []\<rparr>"

text \<open>Events in the order of time, with clocks that are off by at most \<open>k\<close>.\<close>

fun kube_clock :: "seconds \<Rightarrow> seconds \<Rightarrow> (seconds \<times> seconds \<times> 'r kevent) list \<Rightarrow> bool" where
  "kube_clock k t [] = True"
| "kube_clock k t ((u, c, e) # es) = (t \<le> u \<and> \<bar>c - u\<bar> \<le> k \<and> kube_clock k u es)"

section \<open>What a program may write\<close>

text \<open>
  \<open>safe k R p K u\<close>: whatever answers the program \<open>p\<close> gets from now on, having read the leases \<open>K\<close> and made its last step at \<open>u\<close>, with a clock that is off by at most \<open>k\<close>, each of its
  writes replaces a lease it has read under the version it has read, and stands in the relation \<open>R\<close> to it.
\<close>

type_synonym lease_change = "seconds \<Rightarrow> string \<Rightarrow> lease option \<Rightarrow> lease option \<Rightarrow> bool"

primrec safe :: "seconds \<Rightarrow> lease_change \<Rightarrow> kprog \<Rightarrow> lease set \<Rightarrow> seconds \<Rightarrow> bool" where
  "safe e R (Return a) K u = True"
| "safe e R (Raise x) K u = True"
| "safe e R (Now k) K u = (\<forall>t c. u \<le> t \<longrightarrow> \<bar>c - t\<bar> \<le> e \<longrightarrow> safe e R (k c) K t)"
| "safe e R (Get n k) K u = (\<forall>t r. u \<le> t \<longrightarrow> (\<forall>l. r = Inr l \<longrightarrow> l_name l = n) \<longrightarrow> safe e R (k r) (case r of Inl x \<Rightarrow> K | Inr l \<Rightarrow> insert l K) t)"
| "safe e R (ListAll k) K u = (\<forall>t r. u \<le> t \<longrightarrow> safe e R (k r) (case r of Inl x \<Rightarrow> K | Inr ls \<Rightarrow> set ls \<union> K) t)"
| "safe e R (Create l k) K u = (R u (l_name l) None (Some l) \<and> (\<forall>t r. u \<le> t \<longrightarrow> safe e R (k r) K t))"
| "safe e R (Replace l k) K u =
     ((\<exists>l0 \<in> K. l_name l0 = l_name l \<and> resourceVersion l0 = resourceVersion l \<and> R u (l_name l) (Some l0) (Some l)) \<and> (\<forall>t r. u \<le> t \<longrightarrow> safe e R (k r) K t))"
| "safe e R (Delete n k) K u = ((\<forall>l. R u n (Some l) None) \<and> (\<forall>t r. u \<le> t \<longrightarrow> safe e R (k r) K t))"

text \<open>The last write of a lease in a log, newest first: when it was, and what it left.\<close>

fun last_write :: "string \<Rightarrow> 'r kwrite list \<Rightarrow> (seconds \<times> lease option) option" where
  "last_write n [] = None"
| "last_write n ((r, t, m, old, new) # ws) = (if m = n then Some (t, new) else last_write n ws)"

definition left_by :: "string \<Rightarrow> 'r kwrite list \<Rightarrow> lease option" where
  "left_by n ws = (case last_write n ws of None \<Rightarrow> None | Some (t, v) \<Rightarrow> v)"

text \<open>
  A chain: every write found the lease as the last one left it, and was decided on a reading of the clock after that one, unless it
  created or deleted the lease, which the server does under no version.
\<close>

fun lease_chain :: "('r \<Rightarrow> lease_change) \<Rightarrow> 'r kwrite list \<Rightarrow> bool" where
  "lease_chain R [] = True"
| "lease_chain R ((r, t, n, old, new) # ws) =
     (lease_chain R ws \<and> old = left_by n ws \<and>
      (\<exists>u \<le> t. (old \<noteq> None \<and> new \<noteq> None \<longrightarrow> (case last_write n ws of None \<Rightarrow> True | Some (t0, v) \<Rightarrow> t0 \<le> u)) \<and> R r u n old new))"

text \<open>What a client has read is the lease as it is now, or has another version.\<close>

definition read_ok :: "kube \<Rightarrow> 'r kwrite list \<Rightarrow> seconds \<Rightarrow> lease set \<Rightarrow> bool" where
  "read_ok s ws u K \<longleftrightarrow> (\<forall>l \<in> K. resourceVersion l \<le> version s \<and>
     (\<forall>l1. dget (leases s) (l_name l) = Some l1 \<longrightarrow> resourceVersion l1 = resourceVersion l \<longrightarrow>
        l1 = l \<and> (case last_write (l_name l) ws of None \<Rightarrow> True | Some (t0, v) \<Rightarrow> t0 \<le> u)))"

definition kube_inv :: "seconds \<Rightarrow> ('r \<Rightarrow> lease_change) \<Rightarrow> seconds \<Rightarrow> 'r kworld \<Rightarrow> bool" where
  "kube_inv k R t w \<longleftrightarrow>
     dwf (leases (server w)) \<and> lease_chain R (writes w) \<and> (\<forall>n. dget (leases (server w)) n = left_by n (writes w)) \<and>
     (\<forall>n l. dget (leases (server w)) n = Some l \<longrightarrow> l_name l = n \<and> resourceVersion l \<le> version (server w)) \<and>
     (\<forall>n t0 v. last_write n (writes w) = Some (t0, v) \<longrightarrow> t0 \<le> t) \<and>
     (\<forall>i r p. dget (programs w) i = Some (r, p) \<longrightarrow> (\<exists>K u. u \<le> t \<and> safe k (R r) p K u \<and> read_ok (server w) (writes w) u K))"

text \<open>A relation that does not look at versions.\<close>

definition blind :: "lease_change \<Rightarrow> bool" where
  "blind R \<longleftrightarrow> (\<forall>u n old l v. R u n old (Some l) \<longrightarrow> R u n old (Some (l\<lparr>resourceVersion := v\<rparr>)))"

lemma safe_fail:
  assumes "safe k R p K u" "u \<le> t"
  shows "\<exists>u1. u \<le> u1 \<and> u1 \<le> t \<and> safe k R (kube_fail p) K u1"
proof (cases p)
  case (Get n h)
  then have "safe k R (h (Inl API_FAILURE)) K t" using assms by fastforce
  then show ?thesis using Get assms(2) by auto
next
  case (ListAll h)
  then have "safe k R (h (Inl API_FAILURE)) K t" using assms(1) [unfolded ListAll safe.simps, rule_format, OF assms(2), of "Inl API_FAILURE"] by simp
  then show ?thesis using ListAll assms(2) by auto
qed (use assms in auto)

lemma read_ok_later: "read_ok s ws u K \<Longrightarrow> u \<le> u1 \<Longrightarrow> read_ok s ws u1 K"
  by (fastforce simp: read_ok_def split: option.splits)

text \<open>A write of one lease under a version that nobody has read.\<close>

definition fresh_write :: "string \<Rightarrow> kube \<Rightarrow> kube \<Rightarrow> bool" where
  "fresh_write n s s1 \<longleftrightarrow> (\<forall>m. m \<noteq> n \<longrightarrow> dget (leases s1) m = dget (leases s) m) \<and> version s \<le> version s1 \<and> (dwf (leases s) \<longrightarrow> dwf (leases s1)) \<and>
     (\<forall>l. dget (leases s1) n = Some l \<longrightarrow> l_name l = n \<and> version s < resourceVersion l \<and> resourceVersion l \<le> version s1)"

lemma fresh_kube_write: "fresh_write (l_name l) s (kube_write l s)"
  by (auto simp: fresh_write_def kube_write_def intro: pd.wf_put)

lemma fresh_kube_delete: "fresh_write n s (s\<lparr>leases := ddel n (leases s)\<rparr>)"
  by (auto simp: fresh_write_def intro: pd.wf_del)

lemma read_ok_write:
  assumes "read_ok s ws u K" "fresh_write n s s1"
  shows "read_ok s1 ((r, t, n, old, new) # ws) u K"
  unfolding read_ok_def
proof (intro ballI conjI allI impI)
  fix l assume l: "l \<in> K"
  then show "resourceVersion l \<le> version s1" using assms by (fastforce simp: read_ok_def fresh_write_def)
  fix l1 assume l1: "dget (leases s1) (l_name l) = Some l1" "resourceVersion l1 = resourceVersion l"
  have "l_name l \<noteq> n" using assms l l1 by (fastforce simp: read_ok_def fresh_write_def)
  then show "l1 = l" "case last_write (l_name l) ((r, t, n, old, new) # ws) of None \<Rightarrow> True | Some (t0, v) \<Rightarrow> t0 \<le> u"
    using assms l l1 by (auto simp: read_ok_def fresh_write_def)
qed

lemma kube_inv_time: "kube_inv k R t w \<Longrightarrow> t \<le> t1 \<Longrightarrow> kube_inv k R t1 w"
  unfolding kube_inv_def by (elim conjE; intro conjI; (assumption | metis order_trans))

lemma kube_inv_program:
  assumes "kube_inv k R t w" "u \<le> t" "safe k (R r) p K u" "read_ok (server w) (writes w) u K"
  shows "kube_inv k R t (w\<lparr>programs := dput i (r, p) (programs w)\<rparr>)"
  using assms unfolding kube_inv_def by auto

lemma kube_inv_drop: "kube_inv k R t w \<Longrightarrow> kube_inv k R t (w\<lparr>programs := ddel i (programs w)\<rparr>)"
  unfolding kube_inv_def by auto

lemma kube_inv_write:
  assumes "kube_inv k R t w" "fresh_write n (server w) s1" "u \<le> t"
    "dget (leases (server w)) n \<noteq> None \<and> dget (leases s1) n \<noteq> None \<longrightarrow> (case last_write n (writes w) of None \<Rightarrow> True | Some (t0, v) \<Rightarrow> t0 \<le> u)"
    "R r u n (dget (leases (server w)) n) (dget (leases s1) n)"
  shows "kube_inv k R t (w\<lparr>server := s1, writes := (r, t, n, dget (leases (server w)) n, dget (leases s1) n) # writes w\<rparr>)"
proof -
  let ?e = "(r, t, n, dget (leases (server w)) n, dget (leases s1) n)"
  have inv: "dwf (leases (server w))" "lease_chain R (writes w)" "\<And>n. dget (leases (server w)) n = left_by n (writes w)"
    "\<And>n l. dget (leases (server w)) n = Some l \<Longrightarrow> l_name l = n \<and> resourceVersion l \<le> version (server w)"
    "\<And>n t0 v. last_write n (writes w) = Some (t0, v) \<Longrightarrow> t0 \<le> t"
    "\<And>i r p. dget (programs w) i = Some (r, p) \<Longrightarrow> \<exists>K u. u \<le> t \<and> safe k (R r) p K u \<and> read_ok (server w) (writes w) u K"
    using assms(1) unfolding kube_inv_def by (elim conjE; blast)+
  have chain: "lease_chain R (?e # writes w)" using inv(2) inv(3) [of n] assms(3-5) by auto
  have left: "dget (leases s1) m = left_by m (?e # writes w)" for m
    using inv(3) [of m] assms(2) by (auto simp: left_by_def fresh_write_def)
  have named: "l_name l = m \<and> resourceVersion l \<le> version s1" if "dget (leases s1) m = Some l" for m l
    using that inv(4) [of m l] assms(2) by (cases "m = n") (fastforce simp: fresh_write_def)+
  have progs: "\<exists>K u. u \<le> t \<and> safe k (R q) p K u \<and> read_ok s1 (?e # writes w) u K" if "dget (programs w) i = Some (q, p)" for i q p
  proof -
    from inv(6) [OF that] obtain K v where "v \<le> t" "safe k (R q) p K v" "read_ok (server w) (writes w) v K" by blast
    then show ?thesis by (blast intro: read_ok_write [OF _ assms(2)])
  qed
  have times: "t0 \<le> t" if "last_write m (?e # writes w) = Some (t0, v)" for m t0 v using that inv(5) by (auto split: if_splits)
  have dwf: "dwf (leases s1)" using inv(1) assms(2) by (simp add: fresh_write_def)
  have sel: "server (w\<lparr>server := s1, writes := ?e # writes w\<rparr>) = s1" "writes (w\<lparr>server := s1, writes := ?e # writes w\<rparr>) = ?e # writes w"
    "programs (w\<lparr>server := s1, writes := ?e # writes w\<rparr>) = programs w" by simp_all
  show ?thesis unfolding kube_inv_def sel
  proof (intro conjI allI impI)
    show "dwf (leases s1)" "lease_chain R (?e # writes w)" by (rule dwf, rule chain)
    show "dget (leases s1) m = left_by m (?e # writes w)" for m by (rule left)
    show "l_name l = m" "resourceVersion l \<le> version s1" if "dget (leases s1) m = Some l" for m l using named [OF that] by auto
    show "t0 \<le> t" if "last_write m (?e # writes w) = Some (t0, v)" for m t0 v by (rule times [OF that])
    show "\<exists>K u. u \<le> t \<and> safe k (R q) p K u \<and> read_ok s1 (?e # writes w) u K" if "dget (programs w) i = Some (q, p)" for i q p by (rule progs [OF that])
  qed
qed

text \<open>One step of a safe program.\<close>

lemma kube_serve_inv:
  assumes inv: "kube_inv k R t w" and p: "dget (programs w) i = Some (r, p)" and blind: "blind (R r)" and serve: "kube_serve c p (server w) = (p1, s1, n)" and c: "\<bar>c - t\<bar> \<le> k"
  defines "w1 \<equiv> w\<lparr>server := s1, writes := kube_log r t (server w) s1 n (writes w)\<rparr>"
  shows "kube_inv k R t w1" "\<exists>u K. u \<le> t \<and> safe k (R r) p1 K u \<and> read_ok (server w1) (writes w1) u K" "\<exists>u K. u \<le> t \<and> safe k (R r) (kube_fail p) K u \<and> read_ok (server w1) (writes w1) u K"
proof -
  let ?s = "server w"
  obtain K u where K: "u \<le> t" "safe k (R r) p K u" "read_ok ?s (writes w) u K" using inv p unfolding kube_inv_def by blast
  have Kt: "read_ok ?s (writes w) t K" by (rule read_ok_later [OF K(3,1)])
  obtain u1 where u1: "u \<le> u1" "u1 \<le> t" "safe k (R r) (kube_fail p) K u1" using safe_fail [OF K(2,1)] by blast
  have K1: "read_ok ?s (writes w) u1 K" by (rule read_ok_later [OF K(3) u1(1)])
  have cur: "dget (leases ?s) m = Some l \<Longrightarrow> l_name l = m \<and> resourceVersion l \<le> version ?s" for m l using inv unfolding kube_inv_def by blast
  have lw: "case last_write m (writes w) of None \<Rightarrow> True | Some (t0, v) \<Rightarrow> t0 \<le> t" for m
    using inv unfolding kube_inv_def by (auto split: option.split)
  have seen: "read_ok ?s (writes w) t (insert l K)" if "dget (leases ?s) m = Some l" for m l
    using Kt cur [OF that] that lw by (auto simp: read_ok_def)
  have written: "kube_inv k R t w1 \<and> (\<forall>v X. read_ok ?s (writes w) v X \<longrightarrow> read_ok (server w1) (writes w1) v X)"
    if "fresh_write m ?s s1" "n = Some m"
      "dget (leases ?s) m \<noteq> None \<and> dget (leases s1) m \<noteq> None \<longrightarrow> (case last_write m (writes w) of None \<Rightarrow> True | Some (t0, v) \<Rightarrow> t0 \<le> u)" "R r u m (dget (leases ?s) m) (dget (leases s1) m)" for m
    using kube_inv_write [OF inv that(1) K(1) that(3,4)] that(2) by (auto simp: w1_def kube_log_def intro: read_ok_write [OF _ that(1)])
  have stay: "w1 = w" if "s1 = ?s" "n = None" using that by (simp add: w1_def kube_log_def)
  have "kube_inv k R t w1 \<and> (\<forall>v X. read_ok ?s (writes w) v X \<longrightarrow> read_ok (server w1) (writes w1) v X) \<and> (\<exists>u K. u \<le> t \<and> safe k (R r) p1 K u \<and> read_ok ?s (writes w) u K)"
  proof (cases p)
    case (Now h)
    then show ?thesis using K(1,2) Kt stay serve inv c by auto
  next
    case (Get m h)
    have s: "s1 = ?s" "n = None" "p1 = h (kube_get m ?s)" using serve Get by auto
    have "\<exists>X. safe k (R r) p1 X t \<and> read_ok ?s (writes w) t X"
    proof (cases "dget (leases ?s) m")
      case None
      then have "safe k (R r) (h (Inl NOT_FOUND)) K t" using K(1,2) Get by fastforce
      then show ?thesis using Kt None s by (auto simp: kube_get_def)
    next
      case (Some l)
      then have "safe k (R r) (h (Inr l)) (insert l K) t" using K(1,2) Get cur [OF Some] by fastforce
      then show ?thesis using seen [OF Some] Some s by (auto simp: kube_get_def)
    qed
    then show ?thesis using stay [OF s(1,2)] inv by auto
  next
    case (ListAll h)
    have s: "s1 = ?s" "n = None" "p1 = h (Inr (kube_list ?s))" using serve ListAll by auto
    have "dget (leases ?s) (l_name l) = Some l" if "l \<in> set (kube_list ?s)" for l
      using that cur dget_iff [of "leases ?s"] inv unfolding kube_inv_def kube_list_def by fastforce
    then have "read_ok ?s (writes w) t (set (kube_list ?s) \<union> K)" using seen Kt by (auto simp: read_ok_def)
    moreover have "safe k (R r) p1 (set (kube_list ?s) \<union> K) t" using K(2) [unfolded ListAll safe.simps, rule_format, OF K(1), of "Inr (kube_list ?s)"] s by simp
    ultimately show ?thesis using stay [OF s(1,2)] inv by auto
  next
    case (Create l h)
    have hk: "safe k (R r) (h a) K t" for a using K(1,2) Create by auto
    show ?thesis
    proof (cases "dget (leases ?s) (l_name l)")
      case None
      have s: "s1 = kube_write l ?s" "n = Some (l_name l)" "p1 = h (Inr ())" using serve Create None by (auto simp: kube_create_def)
      have "R r u (l_name l) None (Some l)" using K(2) Create by simp
      then have "R r u (l_name l) (dget (leases ?s) (l_name l)) (dget (leases s1) (l_name l))" using blind None by (simp add: s kube_write_def blind_def)
      then show ?thesis using written [of "l_name l"] fresh_kube_write [of l ?s] None hk Kt s by auto
    next
      case (Some l0)
      have s: "s1 = ?s" "n = None" "p1 = h (Inl CONFLICT)" using serve Create Some by (auto simp: kube_create_def)
      then show ?thesis using stay [OF s(1,2)] inv hk Kt by auto
    qed
  next
    case (Replace l h)
    have hk: "safe k (R r) (h a) K t" for a using K(1,2) Replace by auto
    obtain l0 where l0: "l0 \<in> K" "l_name l0 = l_name l" "resourceVersion l0 = resourceVersion l" "R r u (l_name l) (Some l0) (Some l)" using K(2) Replace by auto
    consider "s1 = ?s" "n = None" "\<exists>a. p1 = h a" | l1 where "dget (leases ?s) (l_name l) = Some l1" "resourceVersion l1 = resourceVersion l"
        "s1 = kube_write l ?s" "n = Some (l_name l)" "p1 = h (Inr ())"
      using serve Replace by (auto simp: kube_replace_def split: option.splits if_splits)
    then show ?thesis
    proof cases
      case 1
      then show ?thesis using stay inv hk Kt by auto
    next
      case (2 l1)
      have l1: "l1 = l0" "case last_write (l_name l) (writes w) of None \<Rightarrow> True | Some (t0, v) \<Rightarrow> t0 \<le> u"
        using K(3) l0 2(1,2) by (auto simp: read_ok_def)
      have "R r u (l_name l) (dget (leases ?s) (l_name l)) (dget (leases s1) (l_name l))" using blind l0(4) 2 l1(1) by (simp add: kube_write_def blind_def)
      then show ?thesis using written [of "l_name l"] fresh_kube_write [of l ?s] l1(2) hk Kt 2 by auto
    qed
  next
    case (Delete m h)
    have hk: "safe k (R r) (h a) K t" for a using K(1,2) Delete by auto
    show ?thesis
    proof (cases "dget (leases ?s) m")
      case None
      then have s: "s1 = ?s" "n = None" "p1 = h (Inl NOT_FOUND)" using serve Delete by (auto simp: kube_delete_def)
      then show ?thesis using stay [OF s(1,2)] inv hk Kt by auto
    next
      case (Some l)
      then have s: "s1 = ?s\<lparr>leases := ddel m (leases ?s)\<rparr>" "n = Some m" "p1 = h (Inr ())" using serve Delete by (auto simp: kube_delete_def)
      have "R r u m (dget (leases ?s) m) (dget (leases s1) m)" using K(2) Delete Some s by simp
      then show ?thesis using written [of m] fresh_kube_delete [of m ?s] hk Kt s by auto
    qed
  qed (use serve K stay inv in auto)
  then show "kube_inv k R t w1" "\<exists>u K. u \<le> t \<and> safe k (R r) p1 K u \<and> read_ok (server w1) (writes w1) u K" "\<exists>u K. u \<le> t \<and> safe k (R r) (kube_fail p) K u \<and> read_ok (server w1) (writes w1) u K"
    using u1 K1 by blast+
qed

section \<open>Clients that write what they may\<close>

locale lease_clients =
  fixes code :: "'r \<Rightarrow> kprog" and R :: "seconds \<Rightarrow> 'r \<Rightarrow> lease_change"
  assumes code_safe: "safe k (R k r) (code r) {} u" and change_blind: "blind (R k r)"
begin

lemma clients_step_inv:
  assumes "kube_inv k (R k) t0 w" "t0 \<le> t" and c: "\<bar>c - t\<bar> \<le> k"
  shows "kube_inv k (R k) t (kube_step code (t, c, e) w)"
proof -
  have inv: "kube_inv k (R k) t w" by (rule kube_inv_time [OF assms(1,2)])
  have rest: "kube_inv k (R k) t (w1\<lparr>programs := dput i (r, p) (programs w1)\<rparr>)"
    if "kube_inv k (R k) t w1" "\<exists>u K. u \<le> t \<and> safe k (R k r) p K u \<and> read_ok (server w1) (writes w1) u K" for w1 i r p
    using that kube_inv_program by metis
  show ?thesis
  proof (cases e)
    case (Begin i r)
    have "read_ok (server w) (writes w) t {}" by (simp add: read_ok_def)
    then show ?thesis using Begin inv kube_inv_program [OF inv order_refl code_safe] by simp
  next
    case (Go i)
    show ?thesis
    proof (cases "dget (programs w) i")
      case (Some x)
      obtain r p where x: "x = (r, p)" by (cases x)
      obtain p1 s1 n where s: "kube_serve c p (server w) = (p1, s1, n)" by (metis prod_cases3)
      have "kube_inv k (R k) t (w\<lparr>server := s1, writes := kube_log r t (server w) s1 n (writes w), programs := dput i (r, p1) (programs w)\<rparr>)"
        using rest [OF kube_serve_inv(1,2) [OF inv Some [unfolded x] change_blind s c]] by simp
      moreover have "kube_inv k (R k) t (w\<lparr>programs := ddel i (programs w), answers := a\<rparr>)" for a
        using kube_inv_drop [OF inv, of i] by (simp add: kube_inv_def)
      ultimately show ?thesis using Go Some x s kube_inv_drop [OF inv] by (cases p) auto
    qed (use Go inv in simp)
  next
    case (Fault i)
    show ?thesis
    proof (cases "dget (programs w) i")
      case (Some x)
      obtain r p where x: "x = (r, p)" by (cases x)
      obtain K u where K: "u \<le> t" "safe k (R k r) p K u" "read_ok (server w) (writes w) u K" using inv Some x unfolding kube_inv_def by blast
      then have "\<exists>u K. u \<le> t \<and> safe k (R k r) (kube_fail p) K u \<and> read_ok (server w) (writes w) u K" using safe_fail read_ok_later by metis
      then show ?thesis using rest [OF inv] Fault Some x by auto
    qed (use Fault inv in simp)
  next
    case (Fault_Late i)
    show ?thesis
    proof (cases "dget (programs w) i")
      case (Some x)
      obtain r p where x: "x = (r, p)" by (cases x)
      obtain p1 s1 n where s: "kube_serve c p (server w) = (p1, s1, n)" by (metis prod_cases3)
      show ?thesis using rest [OF kube_serve_inv(1,3) [OF inv Some [unfolded x] change_blind s c]] Fault_Late Some x s by simp
    qed (use Fault_Late inv in simp)
  next
    case (Die i)
    then show ?thesis using kube_inv_drop [OF inv] by simp
  qed
qed

lemma clients_run_inv: "kube_inv k (R k) t w \<Longrightarrow> kube_clock k t es \<Longrightarrow> \<exists>t1. kube_inv k (R k) t1 (kube_run code es w)"
proof (induction es arbitrary: t w)
  case (Cons e es)
  obtain u c x where e: "e = (u, c, x)" by (cases e)
  then have "kube_inv k (R k) u (kube_step code e w)" "kube_clock k u es" using clients_step_inv [OF Cons.prems(1)] Cons.prems(2) by auto
  then show ?case using Cons.IH by simp
qed auto

lemma run_chain: "kube_clock k t es \<Longrightarrow> lease_chain (R k) (writes (kube_run code es kube_init))"
  using clients_run_inv [of k t kube_init es] by (auto simp: kube_inv_def kube_init_def left_by_def)

end

section \<open>Locks\<close>

datatype kube_lock_call = KAcquire string token seconds | KRelease string token | KLocked string | KOwned string token | KClose

fun kube_lock_code :: "string \<Rightarrow> kube_lock_call \<Rightarrow> kprog" where
  "kube_lock_code pre (KAcquire n a d) = kube_acquire pre n a d"
| "kube_lock_code pre (KRelease n a) = kube_release pre n a"
| "kube_lock_code pre (KLocked n) = kube_locked pre n"
| "kube_lock_code pre (KOwned n a) = kube_owned pre n a"
| "kube_lock_code pre KClose = kube_lock_close"

text \<open>An acquire takes a lease that is over by its clock, or its own; a release vacates its own, the close one that is over. \<open>u\<close> is the instant of the last step before the write.\<close>

definition over_at :: "seconds \<Rightarrow> lease \<Rightarrow> bool" where
  "over_at u l \<longleftrightarrow> (case get_expire_at l of None \<Rightarrow> True | Some x \<Rightarrow> x < u)"

fun lock_change :: "string \<Rightarrow> seconds \<Rightarrow> kube_lock_call \<Rightarrow> lease_change" where
  "lock_change pre k (KAcquire n a d) u m old (Some l1) =
     (sanitize_lease_name (pre @ n) = Inr m \<and>
      (\<exists>f c. \<bar>c - u\<bar> \<le> k \<and> l_spec l1 = Some (held_spec a d c f) \<and>
        (case old of
           None \<Rightarrow> f = 1
         | Some l \<Rightarrow> current_holder l = Some a \<and> f = current_transitions l \<or> over_at (u + k) l \<and> f = current_transitions l + 1)))"
| "lock_change pre k (KRelease n a) u m (Some l) (Some l1) =
     (sanitize_lease_name (pre @ n) = Inr m \<and> current_holder l = Some a \<and> l_spec l1 = Some (vacant_spec (current_transitions l)))"
| "lock_change pre k KClose u m (Some l) (Some l1) = (over_at (u + k) l \<and> get_expire_at l \<noteq> None \<and> l_spec l1 = Some (vacant_spec (current_transitions l)))"
| "lock_change pre k c u m old new = False"

lemma over_later: "over_at u l \<Longrightarrow> u \<le> v \<Longrightarrow> over_at v l"
  by (auto simp: over_at_def split: option.splits)

lemma lock_change_blind: "blind (lock_change pre k c)"
  unfolding blind_def
proof (intro allI impI)
  fix u n old l v
  assume "lock_change pre k c u n old (Some l)"
  then show "lock_change pre k c u n old (Some (l\<lparr>resourceVersion := v\<rparr>))" by (cases c; cases old) auto
qed

lemma named_safe: "(\<And>n. sanitize_lease_name (pre @ name) = Inr n \<Longrightarrow> safe k R (f n) K u) \<Longrightarrow> safe k R (named pre name f) K u"
  by (simp add: named_def split: sum.split)

lemma vacate_expired_safe: "set ls \<subseteq> K \<Longrightarrow> now \<le> u + k \<Longrightarrow> safe k (lock_change pre k KClose) (vacate_expired now ls) K u"
proof (induction ls arbitrary: u)
  case (Cons l ls)
  have "safe k (lock_change pre k KClose) (vacate_expired now ls) K v" if "u \<le> v" for v using Cons that by auto
  moreover have "over_at (u + k) l \<and> get_expire_at l \<noteq> None" if "case get_expire_at l of None \<Rightarrow> False | Some x \<Rightarrow> x < now"
    using that Cons.prems(2) by (auto simp: over_at_def split: option.splits)
  ultimately show ?case using Cons.prems by (auto simp: vacate_lease_def split: sum.split)
qed simp

lemma held_change:
  assumes "sanitize_lease_name (pre @ n) = Inr m" "\<bar>c - u\<bar> \<le> k" "l_spec l1 = Some (held_spec a d c f)"
    and "case old of None \<Rightarrow> f = 1 | Some l \<Rightarrow> current_holder l = Some a \<and> f = current_transitions l \<or> over_at (u + k) l \<and> f = current_transitions l + 1"
  shows "lock_change pre k (KAcquire n a d) u m old (Some l1)"
  using assms by auto

lemma replace_lease_safe:
  assumes n: "sanitize_lease_name (pre @ n) = Inr (l_name l)" and l: "l \<in> K" "who = current_holder l" "live \<Longrightarrow> who = Some a" "\<not> live \<Longrightarrow> over_at (u + k) l"
  shows "safe k (lock_change pre k (KAcquire n a d)) (replace_lease l a d live who) K u"
proof -
  have "lock_change pre k (KAcquire n a d) t (l_name l) (Some l) (Some \<lparr>l_name = l_name l, resourceVersion = resourceVersion l, managed = True, annotations = None,
      l_spec = Some (held_spec a d c (if live \<and> who = Some a then current_transitions l else current_transitions l + 1))\<rparr>)"
    if "u \<le> t" "\<bar>c - t\<bar> \<le> k" for t c
  proof (rule held_change [OF n that(2)])
    have "\<not> live \<Longrightarrow> over_at (t + k) l" using l(4) over_later [of "u + k" l "t + k"] that(1) by simp
    then show "case Some l of None \<Rightarrow> (if live \<and> who = Some a then current_transitions l else current_transitions l + 1) = 1
      | Some l' \<Rightarrow> current_holder l' = Some a \<and> (if live \<and> who = Some a then current_transitions l else current_transitions l + 1) = current_transitions l' \<or>
          over_at (t + k) l' \<and> (if live \<and> who = Some a then current_transitions l else current_transitions l + 1) = current_transitions l' + 1"
      using l(2,3) by (cases live) auto
  qed simp
  then show ?thesis using l(1) unfolding replace_lease_def by (auto simp: Let_def simp del: lock_change.simps split: sum.split intro!: bexI [of _ l])
qed

lemma create_lease_safe:
  assumes "sanitize_lease_name (pre @ n) = Inr m"
  shows "safe k (lock_change pre k (KAcquire n a d)) (create_lease m a d) K u"
  unfolding create_lease_def using held_change [OF assms] by (auto simp del: lock_change.simps split: sum.split)

lemma kube_acquire_safe: "safe k (lock_change pre k (KAcquire n a d)) (kube_acquire pre n a d) {} u"
  unfolding kube_acquire_def
proof (rule named_safe, unfold safe.simps, intro allI impI)
  fix m t now v and r :: "api_error + lease" assume m: "sanitize_lease_name (pre @ n) = Inr m" and t: "t \<le> v" "\<bar>now - t\<bar> \<le> k" "\<forall>l. r = Inr l \<longrightarrow> l_name l = m"
  let ?p = "\<lambda>l. let live = (case get_expire_at l of None \<Rightarrow> False | Some x \<Rightarrow> now \<le> x)
    in if live \<and> current_holder l \<noteq> Some a then Return (Fence None) else replace_lease l a d live (current_holder l)"
  have "safe k (lock_change pre k (KAcquire n a d)) (?p l) {l} v" if "r = Inr l" for l
    using t m that replace_lease_safe [of pre n l "{l}" "current_holder l" _ a v k d] by (auto simp: Let_def over_at_def split: option.split)
  then show "safe k (lock_change pre k (KAcquire n a d)) (case r of Inl e \<Rightarrow> if e \<noteq> NOT_FOUND then Raise (ApiError e) else create_lease m a d | Inr l \<Rightarrow> ?p l)
      (case r of Inl x \<Rightarrow> {} | Inr l \<Rightarrow> {l}) v"
    using create_lease_safe [OF m] by (auto split: sum.split)
qed

lemma kube_release_safe: "safe k (lock_change pre k (KRelease n a)) (kube_release pre n a) {} u"
  unfolding kube_release_def by (rule named_safe) (auto simp: vacate_lease_def split: sum.split)

interpretation kl: lease_clients "kube_lock_code pre" "lock_change pre" for pre
proof
  fix k r u
  show "safe k (lock_change pre k r) (kube_lock_code pre r) {} u"
  proof (cases r)
    case (KAcquire n a d)
    then show ?thesis using kube_acquire_safe by simp
  next
    case (KRelease n a)
    then show ?thesis using kube_release_safe by simp
  next
    case (KLocked n)
    then show ?thesis by (auto simp: kube_locked_def intro!: named_safe split: sum.split option.split)
  next
    case (KOwned n a)
    then show ?thesis by (auto simp: kube_owned_def intro!: named_safe split: sum.split option.split)
  next
    case KClose
    then show ?thesis by (auto simp: kube_lock_close_def intro!: vacate_expired_safe split: sum.split)
  qed
qed (rule lock_change_blind)

lemma lease_chain_suffix: "lease_chain R (us @ vs) \<Longrightarrow> lease_chain R vs"
  by (induction us) auto

lemma lock_change_kinds:
  assumes "lock_change pre k q u m old new"
  obtains (take_over) n a d l1 f c where "q = KAcquire n a d" "new = Some l1" "l_spec l1 = Some (held_spec a d c f)" "\<bar>c - u\<bar> \<le> k" "old = None" "f = 1"
  | (again) n a d l l1 c where "q = KAcquire n a d" "old = Some l" "new = Some l1" "l_spec l1 = Some (held_spec a d c (current_transitions l))" "\<bar>c - u\<bar> \<le> k"
      "current_holder l = Some a"
  | (steal) n a d l l1 c where "q = KAcquire n a d" "old = Some l" "new = Some l1" "l_spec l1 = Some (held_spec a d c (current_transitions l + 1))" "\<bar>c - u\<bar> \<le> k"
      "over_at (u + k) l"
  | (vacate) n a l l1 where "q = KRelease n a" "old = Some l" "new = Some l1" "l_spec l1 = Some (vacant_spec (current_transitions l))" "current_holder l = Some a"
  | (sweep) l l1 where "q = KClose" "old = Some l" "new = Some l1" "l_spec l1 = Some (vacant_spec (current_transitions l))" "over_at (u + k) l"
proof (cases q)
  case (KAcquire n a d)
  then obtain l1 f c where l1: "new = Some l1" "l_spec l1 = Some (held_spec a d c f)" "\<bar>c - u\<bar> \<le> k"
    "case old of None \<Rightarrow> f = 1 | Some l \<Rightarrow> current_holder l = Some a \<and> f = current_transitions l \<or> over_at (u + k) l \<and> f = current_transitions l + 1"
    using assms by (cases new) auto
  show ?thesis
  proof (cases old)
    case None
    then show ?thesis using take_over [OF KAcquire l1(1-3)] l1(4) by simp
  next
    case (Some l)
    then show ?thesis using l1 again [OF KAcquire Some l1(1)] steal [OF KAcquire Some l1(1)] by auto
  qed
next
  case (KRelease n a)
  then show ?thesis using assms vacate by (cases old; cases new) auto
next
  case KClose
  then show ?thesis using assms sweep by (cases old; cases new) auto
qed (use assms in \<open>cases old; cases new; simp\<close>)+

lemma held_facts:
  "l_spec l = Some (held_spec a d u f) \<Longrightarrow> current_holder l = Some a \<and> get_expire_at l = Some (u + real_of_int \<lceil>d\<rceil>) \<and> current_transitions l = f"
  "l_spec l = Some (vacant_spec f) \<Longrightarrow> current_holder l = None \<and> get_expire_at l = None \<and> current_transitions l = f"
  by (simp_all add: held_spec_def vacant_spec_def current_holder_def get_expire_at_def current_transitions_def)





text \<open>The counter of a lease never goes back, and is past a fencing token once the holder has changed.\<close>

lemma counter_grows:
  assumes "lease_chain (lock_change pre k) (ys @ (c, t, m, old, Some l) # zs)" "current_holder l = Some a"
  shows "\<exists>t1 l1. last_write m (ys @ (c, t, m, old, Some l) # zs) = Some (t1, Some l1) \<and> current_transitions l \<le> current_transitions l1 \<and>
    (current_holder l1 = Some a \<or> current_holder l1 = None \<or> current_transitions l < current_transitions l1)"
  using assms(1)
proof (induction ys)
  case (Cons y ys)
  obtain q tq n o1 n1 where y: "y = (q, tq, n, o1, n1)" by (cases y) auto
  obtain t1 l1 where l1: "last_write m (ys @ (c, t, m, old, Some l) # zs) = Some (t1, Some l1)" "current_transitions l \<le> current_transitions l1"
    "current_holder l1 = Some a \<or> current_holder l1 = None \<or> current_transitions l < current_transitions l1"
    using Cons by (auto simp: y)
  show ?case
  proof (cases "n = m")
    case True
    obtain u where u: "o1 = Some l1" "lock_change pre k q u m o1 n1" using Cons.prems l1(1) by (auto simp: y True left_by_def)
    show ?thesis using u(1) l1(2,3) held_facts by (cases rule: lock_change_kinds [OF u(2)]) (fastforce simp: y True)+
  qed (use l1 in \<open>simp add: y\<close>)
qed (use assms in auto)

text \<open>C33. On Kubernetes the fencing tokens of a lease never decrease in the order in which its holders were written, and grow strictly whenever the
  holder is another.\<close>

theorem kube_lock_fencing_ordered:
  assumes "kube_clock k t0 es"
    and "writes (kube_run (kube_lock_code pre) es kube_init) = xs @ (KAcquire n1 b d1, t1, m, old1, Some l1) # ys @ (KAcquire n a d, t, m, old, Some l) # zs"
  shows "current_transitions l \<le> current_transitions l1 \<and> (a \<noteq> b \<longrightarrow> current_transitions l < current_transitions l1)"
proof -
  have chain: "lease_chain (lock_change pre k) ((KAcquire n1 b d1, t1, m, old1, Some l1) # ys @ (KAcquire n a d, t, m, old, Some l) # zs)"
    by (rule lease_chain_suffix [of _ xs]) (use kl.run_chain [OF assms(1), of pre] in \<open>simp only: assms(2)\<close>)
  then have "lease_chain (lock_change pre k) ((KAcquire n a d, t, m, old, Some l) # zs)"
    by (rule lease_chain_suffix [of _ "(KAcquire n1 b d1, t1, m, old1, Some l1) # ys", simplified append_Cons])
  then obtain u0 f where l: "l_spec l = Some (held_spec a d u0 f)" by auto
  have a: "current_holder l = Some a" using held_facts(1) [OF l] by blast
  obtain t2 l2 where l2: "last_write m (ys @ (KAcquire n a d, t, m, old, Some l) # zs) = Some (t2, Some l2)" "current_transitions l \<le> current_transitions l2"
    "current_holder l2 = Some a \<or> current_holder l2 = None \<or> current_transitions l < current_transitions l2"
    using counter_grows [OF _ a, of pre k ys "KAcquire n a d" t m old zs] chain by auto
  obtain u where u: "old1 = Some l2" "lock_change pre k (KAcquire n1 b d1) u m old1 (Some l1)" using chain l2(1) by (auto simp: left_by_def simp del: lock_change.simps)
  show ?thesis using u(1) l2 held_facts by (cases rule: lock_change_kinds [OF u(2)]) fastforce+
qed

section \<open>Names of leases\<close>

lemma label_lower: "label_char c \<Longrightarrow> lower_char c = c"
  by (auto simp: label_char_def lower_char_def)

lemma squeeze_set: "set (squeeze s) \<subseteq> set s"
  by (induction s rule: squeeze.induct) auto

lemma squeeze_hd: "s \<noteq> [] \<Longrightarrow> squeeze s \<noteq> [] \<and> hd (squeeze s) = hd s"
  by (induction s rule: squeeze.induct) auto

text \<open>No two hyphens in a row.\<close>

fun single_hyphens :: "string \<Rightarrow> bool" where
  "single_hyphens (c # d # cs) = (\<not> (c = CHR ''-'' \<and> d = CHR ''-'') \<and> single_hyphens (d # cs))"
| "single_hyphens cs = True"

lemma squeeze_single: "single_hyphens (squeeze s)"
proof (induction s rule: squeeze.induct)
  case (1 c d cs)
  show ?case
  proof (cases "c = CHR ''-'' \<and> d = CHR ''-''")
    case False
    obtain e es where e: "squeeze (d # cs) = e # es" "e = d" using squeeze_hd [of "d # cs"] by (cases "squeeze (d # cs)") auto
    then show ?thesis using 1(2) [OF False] False by auto
  qed (use 1 in simp)
qed auto

lemma single_squeeze: "single_hyphens s \<Longrightarrow> squeeze s = s"
  by (induction s rule: squeeze.induct) auto

lemma single_append: "single_hyphens (a @ b) \<Longrightarrow> single_hyphens a \<and> single_hyphens b"
  by (induction a rule: single_hyphens.induct; cases b; auto)

lemma single_drop: "single_hyphens s \<Longrightarrow> single_hyphens (dropWhile P s)" "single_hyphens s \<Longrightarrow> single_hyphens (take n s)"
  using single_append [of "takeWhile P s" "dropWhile P s"] single_append [of "take n s" "drop n s"] by simp_all

lemma strip_parts: "\<exists>a b. s = a @ strip_hyphens s @ b"
proof -
  let ?d = "dropWhile (\<lambda>c. c = CHR ''-'')" and ?t = "takeWhile (\<lambda>c. c = CHR ''-'')"
  have "rev (?d s) = ?t (rev (?d s)) @ ?d (rev (?d s))" by simp
  then have "?d s = rev (?d (rev (?d s))) @ rev (?t (rev (?d s)))" by (metis rev_append rev_rev_ident)
  moreover have "s = ?t s @ ?d s" by simp
  ultimately show ?thesis unfolding strip_hyphens_def by metis
qed

lemma strip_ends:
  assumes "strip_hyphens s \<noteq> []"
  shows "hd (strip_hyphens s) \<noteq> CHR ''-''" "last (strip_hyphens s) \<noteq> CHR ''-''"
proof -
  let ?d = "dropWhile (\<lambda>c. c = CHR ''-'')"
  have ne: "?d (rev (?d s)) \<noteq> []" using assms by (simp add: strip_hyphens_def)
  then show "last (strip_hyphens s) \<noteq> CHR ''-''" using hd_dropWhile [OF ne] by (simp add: strip_hyphens_def last_rev)
  obtain b where b: "?d s = strip_hyphens s @ b"
    by (metis rev_append rev_rev_ident strip_hyphens_def takeWhile_dropWhile_id)
  then have "hd (strip_hyphens s) = hd (?d s)" using assms by simp
  moreover have "?d s \<noteq> []" using b assms by auto
  ultimately show "hd (strip_hyphens s) \<noteq> CHR ''-''" using hd_dropWhile [of "\<lambda>c. c = CHR ''-''" s] by simp
qed

lemma strip_id: "r \<noteq> [] \<Longrightarrow> hd r \<noteq> CHR ''-'' \<Longrightarrow> last r \<noteq> CHR ''-'' \<Longrightarrow> strip_hyphens r = r"
  using dropWhile_eq_self_iff [of "\<lambda>c. c = CHR ''-''" r] dropWhile_eq_self_iff [of "\<lambda>c. c = CHR ''-''" "rev r"] by (simp add: strip_hyphens_def hd_rev)

text \<open>The name of a lease is a valid resource name: lower-case letters, digits and single hyphens, at most 253 of them, with neither end a hyphen; and a
  valid name is kept.\<close>

theorem lease_name_valid:
  assumes "sanitize_lease_name name = Inr r"
  shows "r \<noteq> [] \<and> length r \<le> 253 \<and> list_all label_char r \<and> single_hyphens r \<and> hd r \<noteq> CHR ''-'' \<and> last r \<noteq> CHR ''-'' \<and> sanitize_lease_name r = Inr r"
proof -
  define s where "s = take MAX_NAME_LENGTH (squeeze (map (\<lambda>c. if label_char c then c else CHR ''-'') (map lower_char name)))"
  have r: "r = strip_hyphens s" "r \<noteq> []" using assms by (auto simp: sanitize_lease_name_def s_def Let_def split: if_splits)
  obtain a b where ab: "s = a @ r @ b" using strip_parts r(1) by metis
  have "length s \<le> 253" by (simp add: s_def MAX_NAME_LENGTH_def)
  then have len: "length r \<le> 253" using ab by simp
  have "single_hyphens s" unfolding s_def by (intro single_drop(2) squeeze_single)
  then have single: "single_hyphens r" using single_append ab by metis
  have "set s \<subseteq> Collect label_char" using set_take_subset squeeze_set unfolding s_def by (fastforce simp: label_char_def split: if_splits)
  then have chars: "list_all label_char r" using ab by (auto simp: list_all_iff)
  have ends: "hd r \<noteq> CHR ''-''" "last r \<noteq> CHR ''-''" using strip_ends r by auto
  have "map (\<lambda>c. if label_char c then c else CHR ''-'') (map lower_char r) = r" using chars by (auto simp: list_all_iff label_lower intro: map_idI)
  then have "sanitize_lease_name r = Inr r"
    using single_squeeze [OF single] len strip_id [OF r(2) ends] r(2) by (simp add: sanitize_lease_name_def MAX_NAME_LENGTH_def)
  then show ?thesis using r(2) len chars single ends by simp
qed

section \<open>Examples\<close>

text \<open>Worker A takes the lock for ten seconds at 1, and B, whose clock is a second ahead, after its end by that clock, at 11.\<close>

definition kube_lock_events :: "(seconds \<times> seconds \<times> kube_lock_call kevent) list" where
  "kube_lock_events =
     [(0, 0, Begin 1 (KAcquire ''a'' ''A'' 10)), (0, 0, Go 1), (0, 0, Go 1), (1, 1, Go 1), (1, 1, Go 1),
      (11, 12, Begin 2 (KAcquire ''a'' ''B'' 10)), (11, 12, Go 2), (11, 12, Go 2), (11, 12, Go 2), (11, 12, Go 2)]"

definition kube_lease_of :: "token \<Rightarrow> nat \<Rightarrow> seconds \<Rightarrow> int \<Rightarrow> lease" where
  "kube_lease_of a v u f = \<lparr>l_name = ''a'', resourceVersion = v, managed = True, annotations = None, l_spec = Some (held_spec a 10 u f)\<rparr>"

lemma sanitize_a [simp]: "sanitize_lease_name ''a'' = Inr ''a''"
  by (simp add: sanitize_lease_name_def strip_hyphens_def label_char_def lower_char_def MAX_NAME_LENGTH_def)

lemmas kube_defs = kube_acquire_def kube_release_def named_def create_lease_def replace_lease_def vacate_lease_def kube_get_def kube_create_def kube_replace_def
  kube_write_def kube_log_def kube_init_def get_expire_at_def current_holder_def current_transitions_def held_spec_def vacant_spec_def

lemma kube_lock_example:
  "writes (kube_run (kube_lock_code []) kube_lock_events kube_init) =
     [(KAcquire ''a'' ''B'' 10, 11, ''a'', Some (kube_lease_of ''A'' 1 1 1), Some (kube_lease_of ''B'' 2 12 2)),
      (KAcquire ''a'' ''A'' 10, 1, ''a'', None, Some (kube_lease_of ''A'' 1 1 1))]"
  by (simp add: kube_lock_events_def kube_lease_of_def kube_defs Let_def)

lemma kube_lock_example_clock: "kube_clock 1 0 kube_lock_events"
  by (simp add: kube_lock_events_def)


theorem kube_lock_fencing_ordered_witness:
  "current_transitions (kube_lease_of ''A'' 1 1 1) < current_transitions (kube_lease_of ''B'' 2 12 2)"
  using kube_lock_fencing_ordered [OF kube_lock_example_clock, of "[]" "[]" "''a''" "''B''" 10 11 "''a''" "Some (kube_lease_of ''A'' 1 1 1)" "kube_lease_of ''B'' 2 12 2" "[]"
      "''a''" "''A''" 10 1 None "kube_lease_of ''A'' 1 1 1" "[]"]
  by (simp add: kube_lock_example)

theorem lease_name_valid_witness:
  "''a'' \<noteq> [] \<and> length ''a'' \<le> 253 \<and> list_all label_char ''a'' \<and> single_hyphens ''a'' \<and> hd ''a'' \<noteq> CHR ''-'' \<and> last ''a'' \<noteq> CHR ''-'' \<and> sanitize_lease_name ''a'' = Inr ''a''"
  by (rule lease_name_valid [of "''a''"]) simp

text \<open>
  Two lock names can have the same lease. A task that holds one and takes and releases the other has released both, and another worker takes the
  first lock while its lease runs.
\<close>

definition kube_collision :: "(seconds \<times> seconds \<times> kube_lock_call kevent) list" where
  "kube_collision =
     [(0, 0, Begin 1 (KAcquire ''a:b'' ''A'' 10)), (0, 0, Go 1), (0, 0, Go 1), (0, 0, Go 1), (0, 0, Go 1), (0, 0, Go 1),
      (1, 1, Begin 1 (KAcquire ''a-b'' ''A'' 10)), (1, 1, Go 1), (1, 1, Go 1), (1, 1, Go 1), (1, 1, Go 1), (1, 1, Go 1),
      (2, 2, Begin 1 (KRelease ''a-b'' ''A'')), (2, 2, Go 1), (2, 2, Go 1), (2, 2, Go 1), (2, 2, Go 1),
      (3, 3, Begin 2 (KAcquire ''a:b'' ''B'' 10)), (3, 3, Go 2), (3, 3, Go 2), (3, 3, Go 2), (3, 3, Go 2), (3, 3, Go 2)]"

lemma sanitize_ab [simp]: "sanitize_lease_name ''a:b'' = Inr ''a-b''" "sanitize_lease_name ''a-b'' = Inr ''a-b''"
  by (simp_all add: sanitize_lease_name_def strip_hyphens_def label_char_def lower_char_def MAX_NAME_LENGTH_def)

theorem kube_lock_names_collide:
  "answers (kube_run (kube_lock_code []) kube_collision kube_init) =
     [(KAcquire ''a:b'' ''B'' 10, Fence (Some 2)), (KRelease ''a-b'' ''A'', Flag True), (KAcquire ''a-b'' ''A'' 10, Fence (Some 1)), (KAcquire ''a:b'' ''A'' 10, Fence (Some 1))]"
  by (simp add: kube_collision_def kube_defs Let_def)

end
