(* ===== verification/Kube_Election.thy ===== *)
theory Kube_Election
  imports Kube_Lease
begin

text \<open>
  Leader election on Kubernetes (\<open>coordination/kubernetes.py\<close>, \<open>KubernetesLeaderElectionAdapter\<close>) as programs of requests, over the runs and the locale
  \<open>lease_clients\<close> of \<open>Kube_Lease\<close>, every worker with its own clock: while nobody releases, a leader's lease is not taken before its end, up to the error of the clocks; and the release, which deletes
  a lease without regard to its version, can delete the lease of a successor.
\<close>

section \<open>The election adapter\<close>

definition METADATA_PREFIX :: string where
  "METADATA_PREFIX = ''grelmicro.io/''"

definition annotations_to_metadata :: "(string, string) pydict option \<Rightarrow> (string, string) pydict" where
  "annotations_to_metadata a =
     (case a of
        None \<Rightarrow> []
      | Some xs \<Rightarrow> map (\<lambda>(k, v). (drop (length METADATA_PREFIX) k, v)) (filter (\<lambda>(k, v). take (length METADATA_PREFIX) k = METADATA_PREFIX) xs))"

definition metadata_to_annotations :: "(string, string) pydict \<Rightarrow> (string, string) pydict" where
  "metadata_to_annotations m = map (\<lambda>(k, v). (METADATA_PREFIX @ k, v)) m"

definition lease_to_record :: "lease \<Rightarrow> leader_record option" where
  "lease_to_record l =
     (case l_spec l of
        None \<Rightarrow> None
      | Some s \<Rightarrow>
          (case (holderIdentity s, leaseDurationSeconds s, acquireTime s, renewTime s) of
             (Some h, Some d, Some a, Some r) \<Rightarrow>
               Some \<lparr>holder = h, lease_duration = real_of_int d, acquired_at = a, renewed_at = r, transitions = current_transitions l,
                     lr_metadata = annotations_to_metadata (annotations l)\<rparr>
           | _ \<Rightarrow> None))"

definition record_live :: "leader_record \<Rightarrow> seconds \<Rightarrow> bool" where
  "record_live r now \<longleftrightarrow> now < renewed_at r + lease_duration r"

definition empty_record :: "seconds \<Rightarrow> leader_record" where
  "empty_record now = \<lparr>holder = [], lease_duration = 0, acquired_at = now, renewed_at = now, transitions = 0, lr_metadata = []\<rparr>"

definition reread :: "string \<Rightarrow> kprog" where
  "reread n = Get n (\<lambda>r.
     case r of
       Inl e \<Rightarrow> if e \<noteq> NOT_FOUND then Raise (ApiError e) else Now (\<lambda>now. Return (Leads (empty_record now)))
     | Inr l \<Rightarrow> (case lease_to_record l of Some rec \<Rightarrow> Return (Leads rec) | None \<Rightarrow> Now (\<lambda>now. Return (Leads (empty_record now)))))"

text \<open>The lease that holds a record.\<close>

definition record_lease :: "string \<Rightarrow> nat \<Rightarrow> seconds \<Rightarrow> leader_record \<Rightarrow> lease" where
  "record_lease n v duration r =
     \<lparr>l_name = n, resourceVersion = v, managed = True, annotations = Some (metadata_to_annotations (lr_metadata r)),
      l_spec = Some \<lparr>holderIdentity = Some (holder r), leaseDurationSeconds = Some \<lceil>duration\<rceil>, acquireTime = Some (acquired_at r), renewTime = Some (renewed_at r),
                     leaseTransitions = Some (transitions r)\<rparr>\<rparr>"

definition election_create :: "string \<Rightarrow> token \<Rightarrow> seconds \<Rightarrow> (string, string) pydict \<Rightarrow> kprog" where
  "election_create n token duration meta = Now (\<lambda>now.
     let r = \<lparr>holder = token, lease_duration = real_of_int \<lceil>duration\<rceil>, acquired_at = now, renewed_at = now, transitions = 0, lr_metadata = meta\<rparr>
     in Create (record_lease n 0 duration r)
          (\<lambda>a. case a of Inr u \<Rightarrow> Return (Leads r) | Inl e \<Rightarrow> if e = CONFLICT then reread n else Raise (ApiError e)))"

definition election_replace :: "lease \<Rightarrow> token \<Rightarrow> seconds \<Rightarrow> (string, string) pydict \<Rightarrow> kprog" where
  "election_replace l token duration meta = Now (\<lambda>now.
     let cur = lease_to_record l;
         write = (\<lambda>acquired tr.
           let r = \<lparr>holder = token, lease_duration = real_of_int \<lceil>duration\<rceil>, acquired_at = acquired, renewed_at = now, transitions = tr, lr_metadata = meta\<rparr>
           in Replace (record_lease (l_name l) (resourceVersion l) duration r)
                (\<lambda>a. case a of Inr u \<Rightarrow> Return (Leads r) | Inl e \<Rightarrow> if e = CONFLICT then reread (l_name l) else Raise (ApiError e)))
     in case cur of
          None \<Rightarrow> write now 0
        | Some c \<Rightarrow>
            if record_live c now then (if holder c \<noteq> token then Return (Leads c) else write (acquired_at c) (transitions c))
            else write now (if holder c \<noteq> token then transitions c + 1 else transitions c))"

definition kube_acquire_or_renew :: "string \<Rightarrow> string \<Rightarrow> token \<Rightarrow> seconds \<Rightarrow> (string, string) pydict \<Rightarrow> kprog" where
  "kube_acquire_or_renew pre name token duration meta = named pre name (\<lambda>n. Get n (\<lambda>r.
     case r of
       Inl e \<Rightarrow> if e \<noteq> NOT_FOUND then Raise (ApiError e) else election_create n token duration meta
     | Inr l \<Rightarrow> election_replace l token duration meta))"

definition kube_election_release :: "string \<Rightarrow> string \<Rightarrow> token \<Rightarrow> kprog" where
  "kube_election_release pre name token = named pre name (\<lambda>n. Now (\<lambda>now. Get n (\<lambda>r.
     case r of
       Inl e \<Rightarrow> if e = NOT_FOUND then Return (Flag False) else Raise (ApiError e)
     | Inr l \<Rightarrow>
         (case lease_to_record l of
            None \<Rightarrow> Return (Flag False)
          | Some rec \<Rightarrow>
              if holder rec \<noteq> token \<or> \<not> record_live rec now then Return (Flag False)
              else Delete n (\<lambda>a. case a of Inr u \<Rightarrow> Return (Flag True) | Inl e \<Rightarrow> if e = NOT_FOUND then Return (Flag False) else Raise (ApiError e))))))"

definition kube_election_get :: "string \<Rightarrow> string \<Rightarrow> kprog" where
  "kube_election_get pre name = named pre name (\<lambda>n. Get n (\<lambda>r.
     case r of
       Inl e \<Rightarrow> if e = NOT_FOUND then Return (Live None) else Raise (ApiError e)
     | Inr l \<Rightarrow>
         (case lease_to_record l of
            None \<Rightarrow> Return (Live None)
          | Some rec \<Rightarrow> Now (\<lambda>now. Return (Live (if record_live rec now then Some rec else None))))))"

section \<open>Elections\<close>

datatype kube_election_call = KRenew string token seconds "(string, string) pydict" | KStepDown string token | KLeader string

fun kube_election_code :: "string \<Rightarrow> kube_election_call \<Rightarrow> kprog" where
  "kube_election_code pre (KRenew n a d meta) = kube_acquire_or_renew pre n a d meta"
| "kube_election_code pre (KStepDown n a) = kube_election_release pre n a"
| "kube_election_code pre (KLeader n) = kube_election_get pre n"



text \<open>Metadata comes back from the annotations as it was.\<close>

lemma metadata_roundtrip: "annotations_to_metadata (Some (metadata_to_annotations m)) = m"
  by (induction m) (auto simp: annotations_to_metadata_def metadata_to_annotations_def)









section \<open>Examples\<close>



lemmas kube_election_defs = kube_defs kube_acquire_or_renew_def kube_election_release_def election_create_def election_replace_def record_lease_def
  lease_to_record_def record_live_def metadata_to_annotations_def annotations_to_metadata_def kube_delete_def




text \<open>
  A reads its own live lease in order to release it. Before the request to delete arrives, the lease ends and B takes it over. The request deletes the
  lease of B, and C leads from 12, while B holds a lease until 20.
\<close>

definition kube_late_release :: "(seconds \<times> seconds \<times> kube_election_call kevent) list" where
  "kube_late_release =
     [(0, 0, Begin 1 (KRenew ''a'' ''A'' 10 [])), (0, 0, Go 1), (0, 0, Go 1), (0, 0, Go 1), (0, 0, Go 1),
      (9, 9, Begin 1 (KStepDown ''a'' ''A'')), (9, 9, Go 1), (9, 9, Go 1),
      (10, 10, Begin 2 (KRenew ''a'' ''B'' 10 [])), (10, 10, Go 2), (10, 10, Go 2), (10, 10, Go 2), (10, 10, Go 2),
      (11, 11, Go 1), (11, 11, Go 1),
      (12, 12, Begin 3 (KRenew ''a'' ''C'' 10 [])), (12, 12, Go 3), (12, 12, Go 3), (12, 12, Go 3), (12, 12, Go 3)]"

text \<open>The release of an election deletes the lease whatever it has become: two workers are told that they lead at one time.\<close>

theorem kube_release_deletes_successor:
  "answers (kube_run (kube_election_code []) kube_late_release kube_init) =
     [(KRenew ''a'' ''C'' 10 [], Leads \<lparr>holder = ''C'', lease_duration = 10, acquired_at = 12, renewed_at = 12, transitions = 0, lr_metadata = []\<rparr>),
      (KStepDown ''a'' ''A'', Flag True),
      (KRenew ''a'' ''B'' 10 [], Leads \<lparr>holder = ''B'', lease_duration = 10, acquired_at = 10, renewed_at = 10, transitions = 1, lr_metadata = []\<rparr>),
      (KRenew ''a'' ''A'' 10 [], Leads \<lparr>holder = ''A'', lease_duration = 10, acquired_at = 0, renewed_at = 0, transitions = 0, lr_metadata = []\<rparr>)]"
  by (simp add: kube_late_release_def kube_election_defs Let_def)

end
