(* ===== verification/Client_Address.thy ===== *)
theory Client_Address
  imports Text "HOL-Library.Word"
begin

text \<open>
  Client addresses behind proxies (\<open>clientip.py\<close>): the addresses and networks of Python's \<open>ipaddress\<close>, the set of trusted proxies, the splitting of
  the header and the walk from its right end. Whatever a caller writes into the header, the address that is resolved is the one that a trusted
  proxy wrote, or the peer with a reason that says so.
\<close>

unbundle bit_operations_syntax

section \<open>Addresses\<close>

text \<open>An address of version 4, or of version 6 with a zone.\<close>

datatype ip = V4 "32 word" | V6 "128 word" "string option"

datatype network = N4 "32 word" nat | N6 "128 word" nat

definition parse_octet :: "string \<Rightarrow> nat option" where
  "parse_octet s =
     (if s = [] \<or> \<not> list_all is_digit s \<or> 3 < length s \<or> s \<noteq> ''0'' \<and> hd s = CHR ''0'' \<or> 255 < read_digits s then None else Some (read_digits s))"

definition parse_v4 :: "string \<Rightarrow> (32 word) option" where
  "parse_v4 s =
     (case map parse_octet (split_on CHR ''.'' s) of
        [Some a, Some b, Some c, Some d] \<Rightarrow> Some (word_of_nat (((a * 256 + b) * 256 + c) * 256 + d))
      | _ \<Rightarrow> None)"

definition hex_value :: "char \<Rightarrow> nat option" where
  "hex_value c =
     (let n = of_char c :: nat
      in if is_digit c then Some (digit_value c) else if 97 \<le> n \<and> n \<le> 102 then Some (n - 87) else if 65 \<le> n \<and> n \<le> 70 then Some (n - 55) else None)"

definition parse_hextet :: "string \<Rightarrow> nat option" where
  "parse_hextet s =
     (if s = [] \<or> 4 < length s \<or> list_ex (\<lambda>c. hex_value c = None) s then None
      else Some (foldl (\<lambda>v c. 16 * v + the (hex_value c)) 0 s))"

text \<open>The hextets of a list in one number; \<open>None\<close> when one of them is not a hextet.\<close>

fun join_hextets :: "nat \<Rightarrow> string list \<Rightarrow> nat option" where
  "join_hextets v [] = Some v"
| "join_hextets v (s # ss) = (case parse_hextet s of None \<Rightarrow> None | Some h \<Rightarrow> join_hextets (v * 65536 + h) ss)"

text \<open>\<open>_ip_int_from_string\<close>: a version 4 tail counts as two hextets; one empty part inside stands for the zeros.\<close>

definition v6_parts :: "string \<Rightarrow> (string list \<times> (nat \<times> nat) option) option" where
  "v6_parts s =
     (let parts = split_on CHR '':'' s
      in if length parts < 3 then None
         else if CHR ''.'' \<in> set (last parts)
         then (case parse_v4 (last parts) of None \<Rightarrow> None | Some a \<Rightarrow> Some (butlast parts, Some (unat a div 65536, unat a mod 65536)))
         else Some (parts, None))"

fun with_tail :: "nat \<Rightarrow> (nat \<times> nat) option \<Rightarrow> nat" where
  "with_tail v None = v"
| "with_tail v (Some (a, b)) = (v * 65536 + a) * 65536 + b"

definition parse_v6_number :: "string \<Rightarrow> nat option" where
  "parse_v6_number s =
     (case v6_parts s of
        None \<Rightarrow> None
      | Some (parts, v4) \<Rightarrow>
          let n = length parts + (case v4 of None \<Rightarrow> 0 | Some x \<Rightarrow> 2);
              final = (case v4 of None \<Rightarrow> last parts | Some x \<Rightarrow> ''0'');
              gaps = filter (\<lambda>i. i < length parts \<and> parts ! i = []) [1 ..< n - 1]
          in if 9 < n then None
             else (case gaps of
                 [] \<Rightarrow> if n \<noteq> 8 \<or> hd parts = [] \<or> final = [] then None
                      else map_option (\<lambda>v. with_tail v v4) (join_hextets 0 parts)
               | [g] \<Rightarrow>
                   let hi = (if hd parts = [] then g - 1 else g); lo = (if final = [] then n - g - 2 else n - g - 1)
                   in if hd parts = [] \<and> hi \<noteq> 0 \<or> final = [] \<and> lo \<noteq> 0 \<or> 8 < hi + lo + 1 then None
                      else (case join_hextets 0 (take hi parts) of
                          None \<Rightarrow> None
                        | Some v \<Rightarrow> map_option (\<lambda>v. with_tail v v4)
                            (join_hextets (v * 65536 ^ (8 - (hi + lo))) (take (lo - (case v4 of None \<Rightarrow> 0 | Some x \<Rightarrow> 2)) (drop (g + 1) parts))))
               | _ \<Rightarrow> None))"

definition parse_v6 :: "string \<Rightarrow> (128 word \<times> string option) option" where
  "parse_v6 s =
     (if CHR ''/'' \<in> set s then None
      else (case split_on CHR ''%'' s of
          [a] \<Rightarrow> map_option (\<lambda>v. (word_of_nat v, None)) (parse_v6_number a)
        | [a, z] \<Rightarrow> if z = [] then None else map_option (\<lambda>v. (word_of_nat v, Some z)) (parse_v6_number a)
        | _ \<Rightarrow> None))"

definition ip_address :: "string \<Rightarrow> py_exc + ip" where
  "ip_address s =
     (case parse_v4 s of
        Some a \<Rightarrow> Inr (V4 a)
      | None \<Rightarrow> (case parse_v6 s of Some (a, z) \<Rightarrow> Inr (V6 a z) | None \<Rightarrow> Inl ValueError))"

definition ipv4_mapped :: "128 word \<Rightarrow> (32 word) option" where
  "ipv4_mapped a = (if drop_bit 32 a = 65535 then Some (ucast a) else None)"

fun canonical :: "ip \<Rightarrow> ip" where
  "canonical (V6 a z) = (case ipv4_mapped a of Some b \<Rightarrow> V4 b | None \<Rightarrow> if z \<noteq> None then V6 a None else V6 a z)"
| "canonical (V4 a) = V4 a"

definition IPV4_MAPPED_PREFIX :: nat where
  "IPV4_MAPPED_PREFIX = 96"

fun canonical_network :: "network \<Rightarrow> network" where
  "canonical_network (N6 a p) =
     (if IPV4_MAPPED_PREFIX \<le> p
      then (case ipv4_mapped a of Some b \<Rightarrow> N4 (b AND push_bit (32 - (p - IPV4_MAPPED_PREFIX)) (mask (p - IPV4_MAPPED_PREFIX))) (p - IPV4_MAPPED_PREFIX) | None \<Rightarrow> N6 a p)
      else N6 a p)"
| "canonical_network (N4 a p) = N4 a p"

text \<open>\<open>address in network\<close>.\<close>

fun in_network :: "ip \<Rightarrow> network \<Rightarrow> bool" where
  "in_network (V4 a) (N4 n p) \<longleftrightarrow> a AND push_bit (32 - p) (mask p) = n"
| "in_network (V6 a z) (N6 n p) \<longleftrightarrow> a AND push_bit (128 - p) (mask p) = n"
| "in_network a n \<longleftrightarrow> False"

section \<open>Trusted proxies\<close>

text \<open>A mask as a prefix length: ones above, zeros below.\<close>

definition prefix_of_mask :: "32 word \<Rightarrow> nat option" where
  "prefix_of_mask m = find (\<lambda>p. push_bit (32 - p) (mask p) = m) [0 ..< 33]"

text \<open>The part after the slash: a length, or for version 4 a network or a host mask.\<close>

definition parse_length :: "nat \<Rightarrow> string \<Rightarrow> nat option" where
  "parse_length w s = (if s \<noteq> [] \<and> list_all is_digit s \<and> read_digits s \<le> w then Some (read_digits s) else None)"

definition parse_v4_length :: "string \<Rightarrow> nat option" where
  "parse_v4_length s =
     (case parse_length 32 s of
        Some p \<Rightarrow> Some p
      | None \<Rightarrow>
          (case parse_v4 s of
             None \<Rightarrow> None
           | Some m \<Rightarrow> (case prefix_of_mask m of Some p \<Rightarrow> Some p | None \<Rightarrow> prefix_of_mask (NOT m))))"

text \<open>\<open>ip_network\<close> of a text; bits below the length are refused.\<close>

definition parse_network :: "string \<Rightarrow> network option" where
  "parse_network s =
     (let (addr, len) = (case split_on CHR ''/'' s of [a] \<Rightarrow> (a, None) | [a, l] \<Rightarrow> (a, Some l) | _ \<Rightarrow> ([], None))
      in case (parse_v4 addr, case len of None \<Rightarrow> Some 32 | Some l \<Rightarrow> parse_v4_length l) of
           (Some a, Some p) \<Rightarrow> if a AND push_bit (32 - p) (mask p) = a then Some (N4 a p) else None
         | _ \<Rightarrow>
             (case (parse_v6 addr, case len of None \<Rightarrow> Some 128 | Some l \<Rightarrow> parse_length 128 l) of
                (Some (a, z), Some p) \<Rightarrow> if a AND push_bit (128 - p) (mask p) = a then Some (N6 a p) else None
              | _ \<Rightarrow> None))"

datatype proxy_entry = ENetwork network | EAddress ip | EText string | EOther

definition compile_entry :: "proxy_entry \<Rightarrow> py_exc + network" where
  "compile_entry e =
     (case e of
        ENetwork n \<Rightarrow> Inr (canonical_network n)
      | EAddress a \<Rightarrow> Inr (canonical_network (case canonical a of V4 x \<Rightarrow> N4 x 32 | V6 x z \<Rightarrow> N6 x 128))
      | EText s \<Rightarrow> (case parse_network s of Some n \<Rightarrow> Inr (canonical_network n) | None \<Rightarrow> Inl ValueError)
      | EOther \<Rightarrow> Inl TypeError)"

record trusted_proxies =
  networks :: "network list"
  max_hops :: "int option"
  max_entries :: int
  max_header_bytes :: int
  warned_peers :: "ip list option"

fun compile_entries :: "proxy_entry list \<Rightarrow> py_exc + network list" where
  "compile_entries [] = Inr []"
| "compile_entries (e # es) =
     (case compile_entry e of Inl x \<Rightarrow> Inl x | Inr n \<Rightarrow> (case compile_entries es of Inl x \<Rightarrow> Inl x | Inr ns \<Rightarrow> Inr (n # ns)))"

definition trusted_init :: "proxy_entry list \<Rightarrow> int option \<Rightarrow> int \<Rightarrow> int \<Rightarrow> py_exc + trusted_proxies" where
  "trusted_init es hops entries bytes =
     (case compile_entries es of
        Inl x \<Rightarrow> Inl x
      | Inr ns \<Rightarrow> Inr \<lparr>networks = ns, max_hops = hops, max_entries = entries, max_header_bytes = bytes, warned_peers = (if ns = [] then None else Some [])\<rparr>)"

definition trusts :: "trusted_proxies \<Rightarrow> ip \<Rightarrow> bool" where
  "trusts T a = list_ex (in_network (canonical a)) (networks T)"

section \<open>The header\<close>

definition FORWARDED_FOR :: string where
  "FORWARDED_FOR = ''x-forwarded-for''"

definition MAX_PORT :: nat where
  "MAX_PORT = 65535"

definition MAX_WARNED_PEERS :: nat where
  "MAX_WARNED_PEERS = 8"

definition is_blank :: "char \<Rightarrow> bool" where
  "is_blank c \<longleftrightarrow> of_char c \<in> {9, 10, 11, 12, 13, 32 :: nat}"

definition bytes_strip :: "string \<Rightarrow> string" where
  "bytes_strip s = rev (dropWhile is_blank (rev (dropWhile is_blank s)))"

text \<open>\<open>int\<close> of a text of digits raises when they are more than the interpreter converts (\<open>sys.int_info.default_max_str_digits\<close>).\<close>

definition MAX_STR_DIGITS :: nat where
  "MAX_STR_DIGITS = 4300"

definition int_of_digits :: "string \<Rightarrow> py_exc + nat" where
  "int_of_digits s = (if MAX_STR_DIGITS < length s then Inl ValueError else Inr (read_digits s))"

definition with_port :: "string \<Rightarrow> string \<Rightarrow> py_exc + (string \<times> nat option) option" where
  "with_port host port =
     (if port = [] \<or> \<not> list_all is_digit port then Inr None
      else (case int_of_digits port of
          Inl e \<Rightarrow> Inl e
        | Inr n \<Rightarrow> Inr (if MAX_PORT < n then None else Some (host, Some n))))"

definition split_host_port :: "string \<Rightarrow> py_exc + (string \<times> nat option) option" where
  "split_host_port value =
     (if value \<noteq> [] \<and> hd value = CHR ''[''
      then let host = takeWhile (\<lambda>c. c \<noteq> CHR '']'') (tl value); rest = dropWhile (\<lambda>c. c \<noteq> CHR '']'') (tl value)
           in if rest = [] then Inr None
              else if tl rest = [] then Inr (Some (host, None))
              else if hd (tl rest) \<noteq> CHR '':'' then Inr None
              else with_port host (tl (tl rest))
      else (case split_on CHR '':'' value of
          [v] \<Rightarrow> Inr (Some (v, None))
        | [host, port] \<Rightarrow> with_port host port
        | _ \<Rightarrow> Inr (Some (value, None))))"

fun collect_values :: "int \<Rightarrow> int \<Rightarrow> (string \<times> string) list \<Rightarrow> string list option" where
  "collect_values limit seen [] = Some []"
| "collect_values limit seen ((name, value) # hs) =
     (if map lower_char name \<noteq> FORWARDED_FOR then collect_values limit seen hs
      else let s = seen + int (length value) + 1
           in if limit < s then None else map_option ((#) value) (collect_values limit s hs))"

definition collect_header :: "(string \<times> string) list \<Rightarrow> int \<Rightarrow> string option" where
  "collect_header hs limit = (case collect_values limit 0 hs of None \<Rightarrow> None | Some [] \<Rightarrow> Some [] | Some vs \<Rightarrow> Some (join_with CHR '','' vs))"

definition header_entries :: "string \<Rightarrow> string list" where
  "header_entries raw = filter (\<lambda>e. e \<noteq> []) (map bytes_strip (split_on CHR '','' raw))"

section \<open>Resolution\<close>

datatype reason = RESOLVED | NO_FORWARDED_HEADER | UNTRUSTED_PEER | CHAIN_EXHAUSTED | HOP_LIMIT | MALFORMED_ENTRY | HEADER_TOO_LARGE | TOO_MANY_ENTRIES

record client_address =
  ca_ip :: ip
  ca_port :: "nat option"
  ca_reason :: reason
  ca_hops :: nat

definition forwarded :: "client_address \<Rightarrow> bool" where
  "forwarded c \<longleftrightarrow> ca_reason c = RESOLVED"

definition degraded :: "client_address \<Rightarrow> bool" where
  "degraded c \<longleftrightarrow> ca_reason c \<notin> {RESOLVED, NO_FORWARDED_HEADER, UNTRUSTED_PEER}"

record scope =
  sc_client :: "(string \<times> nat option) option"
  sc_headers :: "(string \<times> string) list"

text \<open>The set of reported peers, and whether this request is reported.\<close>

definition warn_untrusted_peer :: "trusted_proxies \<Rightarrow> ip list \<Rightarrow> (string \<times> string) list \<Rightarrow> ip \<Rightarrow> bool \<times> trusted_proxies" where
  "warn_untrusted_peer T warned hs peer =
     (if \<not> list_ex (\<lambda>(name, value). map lower_char name = FORWARDED_FOR \<and> bytes_strip value \<noteq> []) hs then (False, T)
      else let w = List.insert peer warned
           in (True, T\<lparr>warned_peers := (if MAX_WARNED_PEERS \<le> length w then None else Some w)\<rparr>))"

text \<open>\<open>entries[-k:]\<close>.\<close>

definition slice_last :: "int \<Rightarrow> 'a list \<Rightarrow> 'a list" where
  "slice_last k xs = (if 0 < k then drop (length xs - nat k) xs else drop (nat (- k)) xs)"

fun walk_back :: "trusted_proxies \<Rightarrow> ip \<Rightarrow> nat option \<Rightarrow> reason \<Rightarrow> nat \<Rightarrow> string list \<Rightarrow> py_exc + client_address" where
  "walk_back T peer port exhausted hops [] = Inr \<lparr>ca_ip = peer, ca_port = port, ca_reason = exhausted, ca_hops = hops\<rparr>"
| "walk_back T peer port exhausted hops (entry # rest) =
     (case split_host_port entry of
        Inl e \<Rightarrow> Inl e
      | Inr None \<Rightarrow> Inr \<lparr>ca_ip = peer, ca_port = port, ca_reason = MALFORMED_ENTRY, ca_hops = hops\<rparr>
      | Inr (Some (host, entry_port)) \<Rightarrow>
          (case ip_address host of
             Inl e \<Rightarrow> Inr \<lparr>ca_ip = peer, ca_port = port, ca_reason = MALFORMED_ENTRY, ca_hops = hops\<rparr>
           | Inr a \<Rightarrow>
               let address = canonical a
               in if \<not> trusts T address then Inr \<lparr>ca_ip = address, ca_port = entry_port, ca_reason = RESOLVED, ca_hops = hops\<rparr>
                  else if (case max_hops T of None \<Rightarrow> False | Some m \<Rightarrow> m < int (hops + 1))
                  then Inr \<lparr>ca_ip = peer, ca_port = port, ca_reason = HOP_LIMIT, ca_hops = hops + 1\<rparr>
                  else walk_back T peer port exhausted (hops + 1) rest))"

definition resolve_client_address :: "scope \<Rightarrow> trusted_proxies \<Rightarrow> (py_exc + client_address option) \<times> bool \<times> trusted_proxies" where
  "resolve_client_address S T =
     (case sc_client S of
        None \<Rightarrow> (Inr None, False, T)
      | Some (host, port) \<Rightarrow>
          (case ip_address host of
             Inl e \<Rightarrow> (Inr None, False, T)
           | Inr a \<Rightarrow>
               let peer = canonical a; from_peer = (\<lambda>r. Inr (Some \<lparr>ca_ip = peer, ca_port = port, ca_reason = r, ca_hops = 0\<rparr>))
               in if \<not> trusts T peer
                  then let (said, T1) = (case warned_peers T of
                                           None \<Rightarrow> (False, T)
                                         | Some warned \<Rightarrow> if peer \<in> set warned then (False, T) else warn_untrusted_peer T warned (sc_headers S) peer)
                       in (from_peer UNTRUSTED_PEER, said, T1)
                  else (case collect_header (sc_headers S) (max_header_bytes T) of
                      None \<Rightarrow> (from_peer HEADER_TOO_LARGE, False, T)
                    | Some raw \<Rightarrow>
                        let entries = header_entries raw
                        in if entries = [] then (from_peer NO_FORWARDED_HEADER, False, T)
                           else if max_entries T < int (length entries)
                           then (map_sum id Some (walk_back T peer port TOO_MANY_ENTRIES 0 (rev (slice_last (max_entries T) entries))), False, T)
                           else (map_sum id Some (walk_back T peer port CHAIN_EXHAUSTED 0 (rev entries)), False, T))))"

record asgi_state =
  as_scope :: scope
  client_address_state :: "client_address option"

text \<open>\<open>ip.compressed\<close>: dotted numbers, or hextets with the first of the longest runs of zeros left out.\<close>

fun show_hex :: "nat \<Rightarrow> string" where
  "show_hex n = (let d = (if n mod 16 < 10 then digit_char (n mod 16) else char_of (87 + n mod 16)) in if n < 16 then [d] else show_hex (n div 16) @ [d])"

declare show_hex.simps [simp del]

fun zero_run :: "string list \<Rightarrow> nat \<Rightarrow> nat \<Rightarrow> nat \<times> nat \<Rightarrow> nat \<times> nat" where
  "zero_run [] i len best = best"
| "zero_run (h # hs) i len best =
     (if h = ''0'' then zero_run hs (i + 1) (len + 1) (if snd best < len + 1 then (i - len, len + 1) else best)
      else zero_run hs (i + 1) 0 best)"

definition compress_hextets :: "string list \<Rightarrow> string list" where
  "compress_hextets hs =
     (let (start, len) = zero_run hs 0 0 (0, 0)
      in if len \<le> 1 then hs
         else let hs1 = take start hs @ [[]] @ drop (start + len) (if start + len = length hs then hs @ [[]] else hs)
              in if start = 0 then [] # hs1 else hs1)"

fun compressed :: "ip \<Rightarrow> string" where
  "compressed (V4 a) =
     (let n = unat a in join_with CHR ''.'' (map show_nat [n div 16777216, n div 65536 mod 256, n div 256 mod 256, n mod 256]))"
| "compressed (V6 a z) =
     join_with CHR '':'' (compress_hextets (map (\<lambda>i. show_hex (unat (drop_bit (16 * (7 - i)) a AND 65535))) [0 ..< 8])) @ (case z of None \<Rightarrow> [] | Some s \<Rightarrow> CHR ''%'' # s)"

text \<open>\<open>key\<close>: the address in canonical form, a bucket and not an identity.\<close>

definition client_key :: "client_address \<Rightarrow> string" where
  "client_key c = compressed (ca_ip c)"

text \<open>The middleware, up to the call of the next application: what it leaves on the scope of a request or a websocket.\<close>

definition middleware :: "bool \<Rightarrow> string \<Rightarrow> trusted_proxies \<Rightarrow> asgi_state \<Rightarrow> (py_exc + asgi_state) \<times> trusted_proxies" where
  "middleware overwrite kind T s =
     (if kind \<noteq> ''http'' \<and> kind \<noteq> ''websocket'' then (Inr s, T)
      else (case resolve_client_address (as_scope s) T of
          (Inl e, said, T1) \<Rightarrow> (Inl e, T1)
        | (Inr None, said, T1) \<Rightarrow> (Inr s, T1)
        | (Inr (Some c), said, T1) \<Rightarrow>
            (Inr (s\<lparr>client_address_state := Some c,
               as_scope := (if overwrite then (as_scope s)\<lparr>sc_client := Some (client_key c, Some (case ca_port c of None \<Rightarrow> 0 | Some p \<Rightarrow> p))\<rparr> else as_scope s)\<rparr>), T1)))"

section \<open>What is resolved\<close>

text \<open>An entry that a trusted proxy wrote about another, and one about an address that is not trusted.\<close>

definition proxy_at :: "trusted_proxies \<Rightarrow> string \<Rightarrow> bool" where
  "proxy_at T e = (case split_host_port e of Inr (Some (h, p)) \<Rightarrow> (case ip_address h of Inl x \<Rightarrow> False | Inr a \<Rightarrow> trusts T (canonical a)) | _ \<Rightarrow> False)"

definition caller_at :: "trusted_proxies \<Rightarrow> string \<Rightarrow> ip \<Rightarrow> nat option \<Rightarrow> bool" where
  "caller_at T e c port = (case split_host_port e of
     Inr (Some (h, p)) \<Rightarrow> (case ip_address h of Inl x \<Rightarrow> False | Inr a \<Rightarrow> canonical a = c \<and> p = port \<and> \<not> trusts T c)
   | _ \<Rightarrow> False)"

definition hops_allowed :: "trusted_proxies \<Rightarrow> nat \<Rightarrow> bool" where
  "hops_allowed T n = (case max_hops T of None \<Rightarrow> True | Some m \<Rightarrow> int n \<le> m)"

lemma canonical_canonical [simp]: "canonical (canonical a) = canonical a"
  by (cases a) (auto split: option.split)

text \<open>Past proxies the walk comes to the caller, or stops at the bound on hops.\<close>

lemma walk_past:
  "list_all (proxy_at T) ps \<Longrightarrow> caller_at T e c q \<Longrightarrow>
   walk_back T peer port ex h (ps @ e # rest) =
     (if ps = [] \<or> hops_allowed T (h + length ps) then Inr \<lparr>ca_ip = c, ca_port = q, ca_reason = RESOLVED, ca_hops = h + length ps\<rparr>
      else walk_back T peer port ex h ps) \<and>
   (ps \<noteq> [] \<longrightarrow> \<not> hops_allowed T (h + length ps) \<longrightarrow> (\<exists>r. walk_back T peer port ex h ps = Inr r \<and> ca_ip r = peer \<and> ca_reason r = HOP_LIMIT))"
proof (induction ps arbitrary: h)
  case Nil
  then show ?case by (auto simp: caller_at_def split: option.splits sum.splits prod.splits)
next
  case (Cons x ps)
  obtain hh p a where x: "split_host_port x = Inr (Some (hh, p))" "ip_address hh = Inr a" "trusts T (canonical a)"
    using Cons.prems(1) by (auto simp: proxy_at_def split: option.splits sum.splits)
  have more: "hops_allowed T (h + length (x # ps)) \<Longrightarrow> hops_allowed T (h + 1)" by (auto simp: hops_allowed_def split: option.splits)
  have ih: "list_all (proxy_at T) ps" using Cons.prems(1) by simp
  show ?case
  proof (cases "hops_allowed T (h + 1)")
    case True
    then have "\<not> (case max_hops T of None \<Rightarrow> False | Some m \<Rightarrow> m < int (h + 1))" by (auto simp: hops_allowed_def split: option.splits)
    then have w: "walk_back T peer port ex h (x # ys) = walk_back T peer port ex (h + 1) ys" for ys using x by simp
    show ?thesis using Cons.IH [OF ih Cons.prems(2), of "h + 1"] True unfolding append_Cons w by (cases ps) auto
  next
    case False
    then have "case max_hops T of None \<Rightarrow> False | Some m \<Rightarrow> m < int (h + 1)" by (auto simp: hops_allowed_def split: option.splits)
    then have w: "walk_back T peer port ex h (x # ys) = Inr \<lparr>ca_ip = peer, ca_port = port, ca_reason = HOP_LIMIT, ca_hops = h + 1\<rparr>" for ys using x by simp
    show ?thesis using False more unfolding append_Cons w by auto
  qed
qed

text \<open>What a walk ends with is an address that is not trusted, or the peer.\<close>

lemma walk_sources:
  "walk_back T peer port ex h es = Inr r \<Longrightarrow>
   ca_reason r = RESOLVED \<and> \<not> trusts T (ca_ip r) \<or> ca_ip r = peer \<and> ca_reason r \<in> {ex, MALFORMED_ENTRY, HOP_LIMIT}"
  by (induction es arbitrary: h) (auto simp: Let_def split: option.splits sum.splits prod.splits if_splits)

lemma walk_proxies:
  assumes "list_all (proxy_at T) ps" "ex \<noteq> RESOLVED"
  shows "\<exists>r. walk_back T peer port ex h ps = Inr r \<and> ca_ip r = peer \<and> ca_reason r \<noteq> RESOLVED"
  using assms(1)
proof (induction ps arbitrary: h)
  case (Cons x ps)
  then show ?case by (auto simp: proxy_at_def Let_def split: option.splits sum.splits prod.splits)
qed (use assms(2) in simp)

lemma split_on_sep: "split_on c (a @ c # b) = split_on c a @ split_on c b"
proof (induction a)
  case (Cons x a)
  then show ?case by (cases "split_on c a") auto
qed auto

lemma header_entries_sep: "header_entries (a @ CHR '','' # b) = header_entries a @ header_entries b"
  by (simp add: header_entries_def split_on_sep)

lemma slice_last_suffix: "\<exists>ys. xs = ys @ slice_last k xs"
  unfolding slice_last_def by (metis append_take_drop_id)

lemma suffix_of_append: "us @ vs = ys @ zs \<Longrightarrow> (\<exists>ws. zs = ws @ vs) \<or> (\<exists>ws. vs = ws @ zs)"
  by (auto simp: append_eq_append_conv2)

text \<open>The answer to a request whose peer has an address.\<close>

definition resolved_from :: "(string \<times> string) list \<Rightarrow> trusted_proxies \<Rightarrow> ip \<Rightarrow> nat option \<Rightarrow> py_exc + client_address" where
  "resolved_from hs T peer port =
     (if \<not> trusts T peer then Inr \<lparr>ca_ip = peer, ca_port = port, ca_reason = UNTRUSTED_PEER, ca_hops = 0\<rparr>
      else (case collect_header hs (max_header_bytes T) of
          None \<Rightarrow> Inr \<lparr>ca_ip = peer, ca_port = port, ca_reason = HEADER_TOO_LARGE, ca_hops = 0\<rparr>
        | Some raw \<Rightarrow>
            if header_entries raw = [] then Inr \<lparr>ca_ip = peer, ca_port = port, ca_reason = NO_FORWARDED_HEADER, ca_hops = 0\<rparr>
            else if max_entries T < int (length (header_entries raw)) then walk_back T peer port TOO_MANY_ENTRIES 0 (rev (slice_last (max_entries T) (header_entries raw)))
            else walk_back T peer port CHAIN_EXHAUSTED 0 (rev (header_entries raw))))"

lemma resolve_peer:
  assumes "ip_address host = Inr a"
  shows "fst (resolve_client_address \<lparr>sc_client = Some (host, port), sc_headers = hs\<rparr> T) = map_sum id Some (resolved_from hs T (canonical a) port)"
proof (cases "trusts T (canonical a)")
  case True
  then show ?thesis using assms by (simp add: resolve_client_address_def resolved_from_def Let_def split: option.split)
next
  case False
  then show ?thesis using assms by (simp add: resolve_client_address_def resolved_from_def Let_def split_beta)
qed

definition forwarded_line :: "string \<Rightarrow> (string \<times> string) list" where
  "forwarded_line v = [(FORWARDED_FOR, v)]"

lemma collect_line: "collect_header (forwarded_line v) limit = (if limit < int (length v) + 1 then None else Some v)"
proof -
  have "map lower_char FORWARDED_FOR = FORWARDED_FOR" by (simp add: FORWARDED_FOR_def lower_char_def)
  then show ?thesis by (simp add: forwarded_line_def collect_header_def)
qed

text \<open>C13. A caller cannot choose its address: whatever text it puts before what the trusted proxies append to the header, the result is the address of
  the entry that the first of them wrote about it, or the peer with a reason that tells so.\<close>

theorem client_address_unforgeable:
  assumes "header_entries genuine = client # proxies" "list_all (proxy_at T) proxies" "caller_at T client c q"
    and "ip_address host = Inr peer"
  shows "\<exists>r. fst (resolve_client_address \<lparr>sc_client = Some (host, port), sc_headers = forwarded_line (forged @ CHR '','' # genuine)\<rparr> T) = Inr (Some r) \<and>
    (ca_ip r = c \<and> ca_port r = q \<and> forwarded r \<and> ca_hops r = length proxies \<or> ca_ip r = canonical peer \<and> \<not> forwarded r)"
proof -
  let ?v = "forged @ CHR '','' # genuine" and ?peer = "canonical peer"
  let ?S = "\<lparr>sc_client = Some (host, port), sc_headers = forwarded_line ?v\<rparr>"
  let ?ok = "\<lambda>x. \<exists>r. x = Inr r \<and> (ca_ip r = c \<and> ca_port r = q \<and> forwarded r \<and> ca_hops r = length proxies \<or> ca_ip r = ?peer \<and> \<not> forwarded r)"
  have es: "header_entries ?v = header_entries forged @ client # proxies" by (simp add: header_entries_sep assms(1))
  have rp: "list_all (proxy_at T) (rev proxies)" using assms(2) by simp
  have walk: "?ok (walk_back T ?peer port ex 0 (rev zs))" if "ex \<noteq> RESOLVED" "header_entries ?v = ys @ zs" for ex ys zs
  proof -
    have "header_entries forged @ (client # proxies) = ys @ zs" using that(2) es by simp
    from suffix_of_append [OF this] consider ws where "zs = ws @ client # proxies" | ws where "client # proxies = ws @ zs" by blast
    then show ?thesis
    proof cases
      case 1
      then have "rev zs = rev proxies @ client # rev ws" by simp
      then show ?thesis using walk_past [OF rp assms(3), of ?peer port ex 0 "rev ws"] walk_proxies [OF rp that(1), of ?peer port 0]
        by (auto simp: forwarded_def)
    next
      case 2
      show ?thesis
      proof (cases ws)
        case Nil
        then have "rev zs = rev proxies @ client # []" using 2 by auto
        then show ?thesis using walk_past [OF rp assms(3), of ?peer port ex 0 "[]"] walk_proxies [OF rp that(1), of ?peer port 0]
          by (auto simp: forwarded_def)
      next
        case (Cons w ws1)
        then have "proxies = ws1 @ zs" using 2 by simp
        then have "list_all (proxy_at T) (rev zs)" using assms(2) by simp
        then show ?thesis using walk_proxies [OF _ that(1), of T "rev zs" ?peer port 0] by (auto simp: forwarded_def)
      qed
    qed
  qed
  obtain ys where ys: "header_entries ?v = ys @ slice_last (max_entries T) (header_entries ?v)" using slice_last_suffix by blast
  have "?ok (walk_back T ?peer port CHAIN_EXHAUSTED 0 (rev (header_entries ?v)))" by (rule walk [of _ "[]"]) simp_all
  moreover have "?ok (walk_back T ?peer port TOO_MANY_ENTRIES 0 (rev (slice_last (max_entries T) (header_entries ?v))))" by (rule walk [OF _ ys]) simp
  ultimately have "?ok (resolved_from (forwarded_line ?v) T ?peer port)"
    unfolding resolved_from_def collect_line using es by (simp add: forwarded_def)
  then show ?thesis using resolve_peer [OF assms(4)] by force
qed

text \<open>C39. Within the bounds on bytes, entries and hops, behind trusted proxies the caller is found, whatever it sent.\<close>

theorem client_address_found:
  assumes "header_entries genuine = client # proxies" "list_all (proxy_at T) proxies" "caller_at T client c q"
    and "ip_address host = Inr peer" "trusts T (canonical peer)" "hops_allowed T (length proxies)" "int (length proxies) < max_entries T"
    and "int (length (forged @ CHR '','' # genuine)) < max_header_bytes T"
  shows "fst (resolve_client_address \<lparr>sc_client = Some (host, port), sc_headers = forwarded_line (forged @ CHR '','' # genuine)\<rparr> T) =
    Inr (Some \<lparr>ca_ip = c, ca_port = q, ca_reason = RESOLVED, ca_hops = length proxies\<rparr>)"
proof -
  let ?v = "forged @ CHR '','' # genuine" and ?k = "max_entries T"
  have es: "header_entries ?v = header_entries forged @ client # proxies" by (simp add: header_entries_sep assms(1))
  have rp: "list_all (proxy_at T) (rev proxies)" using assms(2) by simp
  have walk: "walk_back T (canonical peer) port ex 0 (rev (ws @ client # proxies)) = Inr \<lparr>ca_ip = c, ca_port = q, ca_reason = RESOLVED, ca_hops = length proxies\<rparr>" for ex ws
    using walk_past [OF rp assms(3), of "canonical peer" port ex 0 "rev ws"] assms(6) by simp
  have "slice_last ?k (header_entries ?v) = drop (length (header_entries ?v) - nat ?k) (header_entries forged) @ client # proxies"
    using assms(7) by (simp add: slice_last_def es)
  then have "resolved_from (forwarded_line ?v) T (canonical peer) port = Inr \<lparr>ca_ip = c, ca_port = q, ca_reason = RESOLVED, ca_hops = length proxies\<rparr>"
    unfolding resolved_from_def collect_line using assms(5,8) walk es by simp
  then show ?thesis using resolve_peer [OF assms(4)] by simp
qed

text \<open>The address is vouched for exactly when it is not the peer's but one that no trusted proxy has; of an untrusted peer the header is not read; and
  an answer is degraded only when the peer is trusted.\<close>

theorem client_address_sources:
  assumes "ip_address host = Inr peer"
    and "fst (resolve_client_address \<lparr>sc_client = Some (host, port), sc_headers = hs\<rparr> T) = Inr (Some r)"
  shows "(if forwarded r then \<not> trusts T (ca_ip r) \<and> trusts T (canonical peer) else ca_ip r = canonical peer) \<and>
    (degraded r \<longrightarrow> trusts T (canonical peer)) \<and> (ca_reason r = UNTRUSTED_PEER \<longleftrightarrow> \<not> trusts T (canonical peer))"
proof -
  let ?ok = "\<lambda>r. (if forwarded r then \<not> trusts T (ca_ip r) else ca_ip r = canonical peer) \<and> ca_reason r \<noteq> UNTRUSTED_PEER"
  have w: "walk_back T (canonical peer) port ex 0 es = Inr r \<Longrightarrow> ex \<in> {CHAIN_EXHAUSTED, TOO_MANY_ENTRIES} \<Longrightarrow> ?ok r" for ex es
    using walk_sources [of T "canonical peer" port ex 0 es r] by (auto simp: forwarded_def)
  have r: "resolved_from hs T (canonical peer) port = Inr r"
    using assms resolve_peer [OF assms(1)] by (cases "resolved_from hs T (canonical peer) port") simp_all
  show ?thesis
  proof (cases "trusts T (canonical peer)")
    case True
    then have "?ok r" using r w unfolding resolved_from_def by (auto simp: forwarded_def split: option.splits if_splits)
    then show ?thesis using True by simp
  next
    case False
    then show ?thesis using r unfolding resolved_from_def by (auto simp: forwarded_def degraded_def)
  qed
qed

section \<open>Reports\<close>

text \<open>The peers that are reported over a sequence of requests.\<close>

fun reported :: "trusted_proxies \<Rightarrow> scope list \<Rightarrow> ip list" where
  "reported T [] = []"
| "reported T (S # Ss) =
     (case resolve_client_address S T of
        (Inr (Some r), True, T1) \<Rightarrow> ca_ip r # reported T1 Ss
      | (_, _, T1) \<Rightarrow> reported T1 Ss)"

lemma resolve_reports:
  "(\<exists>x. resolve_client_address S T = (x, False, T)) \<or>
   (\<exists>r w. resolve_client_address S T = (Inr (Some r), True, T\<lparr>warned_peers := (if 8 \<le> Suc (length w) then None else Some (ca_ip r # w))\<rparr>) \<and> warned_peers T = Some w \<and> ca_ip r \<notin> set w)"
proof (cases "\<exists>host port a w. sc_client S = Some (host, port) \<and> ip_address host = Inr a \<and> \<not> trusts T (canonical a) \<and> warned_peers T = Some w \<and> canonical a \<notin> set w \<and>
    list_ex (\<lambda>(name, value). map lower_char name = FORWARDED_FOR \<and> bytes_strip value \<noteq> []) (sc_headers S)")
  case True
  then obtain host port a w where c: "sc_client S = Some (host, port)" "ip_address host = Inr a" "\<not> trusts T (canonical a)" "warned_peers T = Some w" "canonical a \<notin> set w"
    "list_ex (\<lambda>(name, value). map lower_char name = FORWARDED_FOR \<and> bytes_strip value \<noteq> []) (sc_headers S)" by blast
  let ?r = "\<lparr>ca_ip = canonical a, ca_port = port, ca_reason = UNTRUSTED_PEER, ca_hops = 0\<rparr>"
  have "resolve_client_address S T = (Inr (Some ?r), True, T\<lparr>warned_peers := (if 8 \<le> Suc (length w) then None else Some (ca_ip ?r # w))\<rparr>)"
    using c by (simp add: resolve_client_address_def warn_untrusted_peer_def MAX_WARNED_PEERS_def Let_def)
  then show ?thesis using c(4,5) by (intro disjI2 exI [of _ ?r] exI [of _ w]) simp
next
  case False
  then show ?thesis unfolding resolve_client_address_def
    by (auto simp: warn_untrusted_peer_def Let_def split: option.split sum.split prod.split)
qed

lemma reported_bounded:
  "(case warned_peers T of None \<Rightarrow> reported T Ss = []
    | Some w \<Rightarrow> length w < 8 \<longrightarrow> distinct (reported T Ss) \<and> set (reported T Ss) \<inter> set w = {} \<and> length (reported T Ss) + length w \<le> 8)"
proof (induction Ss arbitrary: T)
  case (Cons S Ss)
  consider x where "resolve_client_address S T = (x, False, T)"
    | r w where "resolve_client_address S T = (Inr (Some r), True, T\<lparr>warned_peers := (if 8 \<le> Suc (length w) then None else Some (ca_ip r # w))\<rparr>)" "warned_peers T = Some w" "ca_ip r \<notin> set w"
    using resolve_reports by blast
  then show ?case
  proof cases
    case 1
    then have "reported T (S # Ss) = reported T Ss" by (simp split: option.split sum.split)
    then show ?thesis using Cons [of T] by (simp only:)
  next
    case (2 r w)
    then show ?thesis using Cons [of "T\<lparr>warned_peers := (if 8 \<le> Suc (length w) then None else Some (ca_ip r # w))\<rparr>"] by (auto split: if_splits)
  qed
qed (auto split: option.split)

text \<open>However many requests come, at most eight untrusted peers are reported, each once.\<close>

theorem untrusted_reports_bounded:
  assumes "trusted_init es hops entries bytes = Inr T"
  shows "distinct (reported T Ss) \<and> length (reported T Ss) \<le> 8"
  using assms reported_bounded [of T Ss] by (auto simp: trusted_init_def split: sum.splits if_splits)

section \<open>A deployment\<close>

definition example_proxies :: trusted_proxies where
  "example_proxies = \<lparr>networks = [N4 167772160 8], max_hops = None, max_entries = 64, max_header_bytes = 8192, warned_peers = Some []\<rparr>"

lemma example_octets:
  "parse_octet ''0'' = Some 0" "parse_octet ''1'' = Some 1" "parse_octet ''2'' = Some 2" "parse_octet ''8'' = Some 8" "parse_octet ''10'' = Some 10"
  by code_simp+

lemma example_init: "trusted_init [EText ''10.0.0.0/8''] None 64 8192 = Inr example_proxies"
proof -
  have "parse_v4_length ''8'' = Some 8" by code_simp
  then have "parse_network ''10.0.0.0/8'' = Some (N4 167772160 8)" by (simp add: parse_network_def parse_v4_def example_octets mask_eq_exp_minus_1 push_bit_eq_mult)
  then show ?thesis by (simp add: trusted_init_def compile_entry_def example_proxies_def)
qed

lemma example_addresses:
  "ip_address ''10.0.0.1'' = Inr (V4 167772161)" "ip_address ''10.0.0.2'' = Inr (V4 167772162)" "ip_address ''8.8.8.8'' = Inr (V4 134744072)"
  by (simp_all add: ip_address_def parse_v4_def example_octets)

lemma example_trusts: "trusts example_proxies (V4 167772161)" "trusts example_proxies (V4 167772162)" "\<not> trusts example_proxies (V4 134744072)"
  by code_simp+

lemma example_entries: "header_entries ''8.8.8.8:443, 10.0.0.2'' = [''8.8.8.8:443'', ''10.0.0.2'']"
  by code_simp

lemma example_split: "split_host_port ''8.8.8.8:443'' = Inr (Some (''8.8.8.8'', Some 443))" "split_host_port ''10.0.0.2'' = Inr (Some (''10.0.0.2'', None))"
proof -
  have "list_all is_digit ''443''" "read_digits ''443'' = 443" by code_simp+
  then show "split_host_port ''8.8.8.8:443'' = Inr (Some (''8.8.8.8'', Some 443))"
    by (simp add: split_host_port_def with_port_def int_of_digits_def MAX_STR_DIGITS_def MAX_PORT_def)
  show "split_host_port ''10.0.0.2'' = Inr (Some (''10.0.0.2'', None))" by (simp add: split_host_port_def)
qed

lemma example_line: "proxy_at example_proxies ''10.0.0.2''" "caller_at example_proxies ''8.8.8.8:443'' (V4 134744072) (Some 443)"
  by (simp_all add: proxy_at_def caller_at_def example_split example_addresses example_trusts)

definition example_scope :: "string \<Rightarrow> scope" where
  "example_scope v = \<lparr>sc_client = Some (''10.0.0.1'', None), sc_headers = forwarded_line v\<rparr>"

text \<open>A forged entry before what the two proxies wrote.\<close>

theorem client_address_unforgeable_witness:
  "\<exists>r. fst (resolve_client_address (example_scope (''9.9.9.9'' @ CHR '','' # ''8.8.8.8:443, 10.0.0.2'')) example_proxies) = Inr (Some r) \<and>
    ca_ip r \<in> {V4 134744072, V4 167772161}"
proof -
  have "list_all (proxy_at example_proxies) [''10.0.0.2'']" using example_line by simp
  from client_address_unforgeable [OF example_entries this example_line(2) example_addresses(1), of None "''9.9.9.9''"]
  show ?thesis unfolding example_scope_def by fastforce
qed

theorem client_address_found_witness:
  "fst (resolve_client_address (example_scope (''9.9.9.9'' @ CHR '','' # ''8.8.8.8:443, 10.0.0.2'')) example_proxies) =
    Inr (Some \<lparr>ca_ip = V4 134744072, ca_port = Some 443, ca_reason = RESOLVED, ca_hops = 1\<rparr>)"
proof -
  have "list_all (proxy_at example_proxies) [''10.0.0.2'']" using example_line by simp
  from client_address_found [OF example_entries this example_line(2) example_addresses(1), where port = None and forged = "''9.9.9.9''"]
  show ?thesis using example_trusts by (simp add: example_scope_def hops_allowed_def) (simp add: example_proxies_def)
qed

lemma example_first: "fst (resolve_client_address (example_scope ''10.0.0.2'') example_proxies) =
    Inr (Some \<lparr>ca_ip = V4 167772161, ca_port = None, ca_reason = CHAIN_EXHAUSTED, ca_hops = 1\<rparr>)"
proof -
  have h: "header_entries ''10.0.0.2'' = [''10.0.0.2'']" by code_simp
  have b: "max_hops example_proxies = None" "max_entries example_proxies = 64" "max_header_bytes example_proxies = 8192" by (simp_all add: example_proxies_def)
  show ?thesis unfolding example_scope_def resolve_peer [OF example_addresses(1)]
    by (simp add: resolved_from_def collect_line h b example_trusts example_split example_addresses)
qed

theorem client_address_sources_witness:
  "(let r = \<lparr>ca_ip = V4 167772161, ca_port = None, ca_reason = CHAIN_EXHAUSTED, ca_hops = 1\<rparr> in
    (if forwarded r then \<not> trusts example_proxies (ca_ip r) \<and> trusts example_proxies (V4 167772161) else ca_ip r = V4 167772161) \<and>
    trusts example_proxies (V4 167772161) \<and> degraded r)"
  using client_address_sources [OF example_addresses(1) example_first [unfolded example_scope_def]]
  by (simp add: degraded_def forwarded_def Let_def)

theorem untrusted_reports_bounded_witness:
  "distinct (reported example_proxies (replicate 20 (example_scope ''8.8.8.8''))) \<and> length (reported example_proxies (replicate 20 (example_scope ''8.8.8.8''))) \<le> 8"
  by (rule untrusted_reports_bounded [OF example_init])

text \<open>A bound of no entries is no bound: \<open>entries[-0:]\<close> is the whole list, which a bound of one cuts.\<close>

theorem max_entries_zero_reads_all:
  "fst (resolve_client_address (example_scope ''8.8.8.8:443, 10.0.0.2'') (example_proxies\<lparr>max_entries := 0\<rparr>)) =
     Inr (Some \<lparr>ca_ip = V4 134744072, ca_port = Some 443, ca_reason = RESOLVED, ca_hops = 1\<rparr>) \<and>
   fst (resolve_client_address (example_scope ''8.8.8.8:443, 10.0.0.2'') (example_proxies\<lparr>max_entries := 1\<rparr>)) =
     Inr (Some \<lparr>ca_ip = V4 167772161, ca_port = None, ca_reason = TOO_MANY_ENTRIES, ca_hops = 1\<rparr>)"
proof -
  have b: "max_hops example_proxies = None" "max_header_bytes example_proxies = 8192" by (simp_all add: example_proxies_def)
  have t: "trusts (example_proxies\<lparr>max_entries := n\<rparr>) a = trusts example_proxies a" for n a by (simp add: trusts_def)
  show ?thesis unfolding example_scope_def resolve_peer [OF example_addresses(1)]
    by (simp add: resolved_from_def collect_line example_entries b t example_trusts example_split example_addresses slice_last_def)
qed

lemma header_one:
  assumes "v \<noteq> []" "list_all (\<lambda>c. c \<noteq> CHR '','' \<and> \<not> is_blank c) v"
  shows "header_entries v = [v]"
proof -
  have "dropWhile is_blank w = w" if "set w \<subseteq> set v" for w using assms(2) that by (cases w) (auto simp: list_all_iff)
  then have "bytes_strip v = v" by (simp add: bytes_strip_def)
  moreover have "split_on CHR '','' v = [v]" using assms(2) by (induction v) auto
  ultimately show ?thesis using assms(1) by (simp add: header_entries_def)
qed

text \<open>An entry whose port has more digits than Python converts makes the resolution raise, where a port above the largest is a malformed entry.\<close>

theorem long_port_raises:
  "fst (resolve_client_address (example_scope (''8.8.8.8:'' @ replicate 4301 CHR ''1'')) example_proxies) = Inl ValueError"
proof -
  let ?d = "replicate 4301 CHR ''1''" and ?v = "''8.8.8.8:'' @ replicate 4301 CHR ''1''"
  have "\<not> is_blank CHR ''1''" "\<not> is_blank CHR ''8''" "\<not> is_blank CHR ''.''" "\<not> is_blank CHR '':''" by code_simp+
  then have h: "header_entries ?v = [?v]" by (intro header_one) (simp_all add: list_all_iff)
  have ne: "split_on CHR '':'' ds = [ds]" if "CHR '':'' \<notin> set ds" for ds using that by (induction ds) auto
  have "split_on CHR '':'' ?v = [''8.8.8.8'', ?d]" by (simp add: ne)
  moreover have "list_all is_digit ?d" by (simp add: list_all_iff is_digit_def)
  ultimately have "split_host_port ?v = Inl ValueError" by (simp add: split_host_port_def with_port_def int_of_digits_def MAX_STR_DIGITS_def)
  moreover have "max_header_bytes example_proxies = 8192" "max_entries example_proxies = 64" by (simp_all add: example_proxies_def)
  ultimately show ?thesis unfolding example_scope_def resolve_peer [OF example_addresses(1)] resolved_from_def collect_line
    by (simp del: append.simps(2) add: h example_trusts)
qed

end
