(* ===== verification/Task_Lock.thy ===== *)
theory Task_Lock
  imports Lock_Client Sql_Lock
begin

text \<open>
  The lock of scheduled tasks (\<open>coordination/tasklock.py\<close>, \<open>TaskLock\<close>): a block that keeps its lock for a minimum time
  after it has been entered, so that no other worker runs the task again. Each method is split where it waits for the backend,
  and any number of tasks and threads of any number of workers interleave at these points. A thread does not call the backend itself: its
  coroutine runs on the event loop and computes the token there, from the identity of the thread of the loop, so all threads of a worker share a token.
  The locale \<open>task_lock_store\<close> adds to the contract of lock backends that a lease lasts at least its duration; there, with at most one thread
  for each worker, grants of different holders and the blocks that they enter are shown to be apart by the minimum time. Races of the class itself follow.

  All instants are those of one time line: the class only uses differences of its monotonic clock, so what is assumed of the clocks of
  the workers and of the backend is that they run at one rate.
\<close>

section \<open>The class\<close>

record task_config =
  tc_worker :: string
  tc_min_hold :: seconds
  tc_lease :: seconds

definition validate_task_config :: "task_config \<Rightarrow> py_exc + task_config" where
  "validate_task_config c =
     (if tc_min_hold c \<le> 0 \<or> tc_lease c \<le> 0 then Inl ValueError
      else if tc_lease c < tc_min_hold c then Inl ValueError
      else Inr c)"

text \<open>\<open>tl_worker\<close> is the effective identity of the process.\<close>

record task_lock =
  tl_name :: string
  tl_cfg :: task_config
  tl_worker :: string
  tl_nonce :: string
  tl_acquired :: "seconds option"

definition task_lock_setup :: "string \<Rightarrow> task_config \<Rightarrow> string \<Rightarrow> string \<Rightarrow> task_lock" where
  "task_lock_setup name config worker nonce =
     \<lparr>tl_name = name, tl_cfg = config, tl_worker = worker, tl_nonce = nonce, tl_acquired = None\<rparr>"

definition with_name :: "string \<Rightarrow> string \<Rightarrow> task_lock \<Rightarrow> task_lock" where
  "with_name nonce name L = task_lock_setup name (tl_cfg L) (tl_worker L) nonce"

definition task_lock_name :: "task_lock \<Rightarrow> key" where
  "task_lock_name L = ''tasklock:'' @ tl_name L"

fun session_token :: "string \<Rightarrow> lock_owner \<Rightarrow> string \<Rightarrow> token" where
  "session_token worker (Task i) nonce = worker @ '':task:'' @ show_nat i @ nonce"
| "session_token worker (Thread i) nonce = worker @ '':thread:'' @ show_nat i @ nonce"

text \<open>What a coroutine asks of the backend, and what it is told.\<close>

datatype task_answer = Got "py_exc + int option" | Freed "py_exc + bool"

text \<open>\<open>__aenter__\<close> and \<open>do_thread_enter\<close>, up to the call of the backend and after it (\<open>do_acquire\<close>).\<close>

definition enter_begin :: "lock_owner \<Rightarrow> task_lock \<Rightarrow> lock_error + lock_request" where
  "enter_begin i L =
     (if tl_acquired L \<noteq> None then Inl LockReentrantError
      else Inr (Acquire (task_lock_name L) (session_token (tl_worker L) i (tl_nonce L)) (tc_lease (tl_cfg L))))"

fun enter_end :: "seconds \<Rightarrow> task_answer \<Rightarrow> task_lock \<Rightarrow> (lock_error + unit) \<times> task_lock" where
  "enter_end now (Got (Inr (Some f))) L = (Inr (), L\<lparr>tl_acquired := Some now\<rparr>)"
| "enter_end now (Got (Inr None)) L = (Inl WouldBlockError, L)"
| "enter_end now _ L = (Inl LockAcquireError, L)"

text \<open>\<open>__aexit__\<close> and \<open>do_thread_exit\<close> with \<open>do_exit\<close>, up to the call of the backend and after it (\<open>do_release\<close>, \<open>do_reacquire\<close>).\<close>

definition exit_begin :: "seconds \<Rightarrow> string \<Rightarrow> lock_owner \<Rightarrow> task_lock \<Rightarrow> (lock_error + lock_request) \<times> task_lock" where
  "exit_begin now nonce i L =
     (case tl_acquired L of
        None \<Rightarrow> (Inl LockNotOwnedError, L)
      | Some a \<Rightarrow>
          let token = session_token (tl_worker L) i (tl_nonce L); hold = tc_min_hold (tl_cfg L); elapsed = now - a;
              L1 = L\<lparr>tl_nonce := nonce, tl_acquired := None\<rparr>
          in if hold \<le> elapsed then (Inr (Release (task_lock_name L) token), L1)
             else (Inr (Acquire (task_lock_name L) token (hold - elapsed)), L1))"

fun release_end :: "task_answer \<Rightarrow> lock_error + unit" where
  "release_end (Freed (Inr True)) = Inr ()"
| "release_end (Freed (Inr False)) = Inl LockNotOwnedError"
| "release_end _ = Inl LockReleaseError"

fun reacquire_end :: "task_answer \<Rightarrow> lock_error + unit" where
  "reacquire_end (Got (Inr (Some f))) = Inr ()"
| "reacquire_end (Got (Inr None)) = Inl LockNotOwnedError"
| "reacquire_end _ = Inl LockReleaseError"

text \<open>The calls from a thread run as coroutines on the loop, whose thread is \<open>loop\<close>: \<open>get_ident\<close> there is not the identity of the caller.\<close>

definition do_thread_enter :: "nat \<Rightarrow> task_lock \<Rightarrow> lock_error + lock_request" where
  "do_thread_enter loop L = enter_begin (Thread loop) L"

definition do_thread_exit :: "seconds \<Rightarrow> string \<Rightarrow> nat \<Rightarrow> task_lock \<Rightarrow> (lock_error + lock_request) \<times> task_lock" where
  "do_thread_exit now nonce loop L = exit_begin now nonce (Thread loop) L"

text \<open>\<open>refresh\<close>, which threads do not have: \<open>reacquire_end\<close> after it, too.\<close>

definition refresh_begin :: "lock_owner \<Rightarrow> task_lock \<Rightarrow> lock_error + lock_request" where
  "refresh_begin i L =
     (if tl_acquired L = None then Inl LockNotOwnedError
      else Inr (Acquire (task_lock_name L) (session_token (tl_worker L) i (tl_nonce L)) (tc_lease (tl_cfg L))))"

definition task_locked :: "'s lock_backend \<Rightarrow> seconds \<Rightarrow> task_lock \<Rightarrow> 's \<Rightarrow> lock_error + bool" where
  "task_locked B t L s = (case lb_locked B t (task_lock_name L) s of Inl e \<Rightarrow> Inl LockLockedCheckError | Inr b \<Rightarrow> Inr b)"

definition task_reconfigure :: "task_config \<Rightarrow> task_lock \<Rightarrow> py_exc + task_lock" where
  "task_reconfigure new L = (if tc_worker new \<noteq> tc_worker (tl_cfg L) then Inl ValueError else Inr (L\<lparr>tl_cfg := new\<rparr>))"

section \<open>Interleavings\<close>

datatype call_kind = Entering | Refreshing | Exiting

text \<open>A caller outside the block, one that waits for the backend, one whose request was served at an instant with an answer, one in its body.\<close>

datatype task_phase = Outside | Sent call_kind lock_request | Told call_kind lock_request seconds task_answer | Inside

text \<open>A grant of the backend, or the start of a body: by which caller and until when it promises that no other token is granted.\<close>

datatype grant_kind = Asked call_kind | Started

record task_grant =
  g_kind :: grant_kind
  g_owner :: "nat \<times> lock_owner"
  g_key :: key
  g_token :: token
  g_time :: seconds
  g_until :: seconds

text \<open>The world: the store, the lock object and the thread of the loop of every worker, the callers, the grants and the starts, the newest first.\<close>

record 's task_world =
  tw_store :: 's
  tw_locks :: "nat \<Rightarrow> task_lock"
  tw_loops :: "nat \<Rightarrow> nat"
  tw_calls :: "nat \<times> lock_owner \<Rightarrow> task_phase"
  tw_grants :: "task_grant list"
  tw_starts :: "task_grant list"

text \<open>The identity with which a caller of a worker asks.\<close>

fun caller_as :: "(nat \<Rightarrow> nat) \<Rightarrow> nat \<times> lock_owner \<Rightarrow> lock_owner" where
  "caller_as loops (p, Task n) = Task n"
| "caller_as loops (p, Thread n) = Thread (loops p)"

fun enter_of :: "(nat \<Rightarrow> nat) \<Rightarrow> nat \<times> lock_owner \<Rightarrow> task_lock \<Rightarrow> lock_error + lock_request" where
  "enter_of loops (p, Task n) L = enter_begin (Task n) L"
| "enter_of loops (p, Thread n) L = do_thread_enter (loops p) L"

fun exit_of :: "(nat \<Rightarrow> nat) \<Rightarrow> seconds \<Rightarrow> string \<Rightarrow> nat \<times> lock_owner \<Rightarrow> task_lock \<Rightarrow> (lock_error + lock_request) \<times> task_lock" where
  "exit_of loops now nonce (p, Task n) L = exit_begin now nonce (Task n) L"
| "exit_of loops now nonce (p, Thread n) L = do_thread_exit now nonce (loops p) L"

fun refresh_of :: "nat \<times> lock_owner \<Rightarrow> task_lock \<Rightarrow> lock_error + lock_request" where
  "refresh_of (p, Task n) L = refresh_begin (Task n) L"
| "refresh_of (p, Thread n) L = Inl LockNotOwnedError"

fun serve :: "'s lock_backend \<Rightarrow> seconds \<Rightarrow> seconds \<Rightarrow> lock_request \<Rightarrow> 's \<Rightarrow> task_answer \<times> 's" where
  "serve B t1 t2 (Acquire n a d) s = map_prod Got id (lb_acquire B t1 t2 n a d s)"
| "serve B t1 t2 (Release n a) s = map_prod Freed id (lb_release B t1 t2 n a s)"

fun new_grants :: "nat \<times> lock_owner \<Rightarrow> call_kind \<Rightarrow> seconds \<Rightarrow> seconds \<Rightarrow> lock_request \<Rightarrow> task_answer \<Rightarrow> task_grant list" where
  "new_grants j k t hold (Acquire n a d) (Got (Inr (Some f))) =
     [\<lparr>g_kind = Asked k, g_owner = j, g_key = n, g_token = a, g_time = t, g_until = (if k = Entering then t + hold else t)\<rparr>]"
| "new_grants j k t hold q r = []"

text \<open>A block that is entered at \<open>now\<close> by a lease granted at \<open>t\<close>.\<close>

fun new_starts :: "nat \<times> lock_owner \<Rightarrow> seconds \<Rightarrow> seconds \<Rightarrow> seconds \<Rightarrow> lock_request \<Rightarrow> task_answer \<Rightarrow> task_grant list" where
  "new_starts j now hold t (Acquire n a d) (Got (Inr (Some f))) =
     [\<lparr>g_kind = Started, g_owner = j, g_key = n, g_token = a, g_time = now, g_until = min (now + hold) (t + d)\<rparr>]"
| "new_starts j now hold t q r = []"

datatype task_event =
    CallEnter "nat \<times> lock_owner"
  | CallRefresh "nat \<times> lock_owner"
  | CallExit "nat \<times> lock_owner" string
  | Serve "nat \<times> lock_owner"
  | Return "nat \<times> lock_owner"
  | Reconfigure nat task_config

fun task_step :: "'s lock_backend \<Rightarrow> seconds \<times> seconds \<times> task_event \<Rightarrow> 's task_world \<Rightarrow> 's task_world" where
  "task_step B (t1, t2, CallEnter j) w =
     (case (tw_calls w j, enter_of (tw_loops w) j (tw_locks w (fst j))) of
        (Outside, Inr q) \<Rightarrow> w\<lparr>tw_calls := (tw_calls w)(j := Sent Entering q)\<rparr>
      | _ \<Rightarrow> w)"
| "task_step B (t1, t2, CallRefresh j) w =
     (case (tw_calls w j, refresh_of j (tw_locks w (fst j))) of
        (Inside, Inr q) \<Rightarrow> w\<lparr>tw_calls := (tw_calls w)(j := Sent Refreshing q)\<rparr>
      | _ \<Rightarrow> w)"
| "task_step B (t1, t2, CallExit j nonce) w =
     (case (tw_calls w j, exit_of (tw_loops w) t1 nonce j (tw_locks w (fst j))) of
        (Inside, Inr q, L) \<Rightarrow> w\<lparr>tw_locks := (tw_locks w)(fst j := L), tw_calls := (tw_calls w)(j := Sent Exiting q)\<rparr>
      | (Inside, Inl e, L) \<Rightarrow> w\<lparr>tw_locks := (tw_locks w)(fst j := L), tw_calls := (tw_calls w)(j := Outside)\<rparr>
      | _ \<Rightarrow> w)"
| "task_step B (t1, t2, Serve j) w =
     (case tw_calls w j of
        Sent k q \<Rightarrow>
          (case serve B t1 t2 q (tw_store w) of
             (r, s) \<Rightarrow> w\<lparr>tw_store := s, tw_calls := (tw_calls w)(j := Told k q t1 r),
               tw_grants := new_grants j k t1 (tc_min_hold (tl_cfg (tw_locks w (fst j)))) q r @ tw_grants w\<rparr>)
      | _ \<Rightarrow> w)"
| "task_step B (t1, t2, Return j) w =
     (case tw_calls w j of
        Told Entering q t r \<Rightarrow>
          (case enter_end t1 r (tw_locks w (fst j)) of
             (x, L) \<Rightarrow> w\<lparr>tw_locks := (tw_locks w)(fst j := L), tw_calls := (tw_calls w)(j := (case x of Inl e \<Rightarrow> Outside | Inr u \<Rightarrow> Inside)),
               tw_starts := new_starts j t1 (tc_min_hold (tl_cfg (tw_locks w (fst j)))) t q r @ tw_starts w\<rparr>)
      | Told Refreshing q t r \<Rightarrow> w\<lparr>tw_calls := (tw_calls w)(j := Inside)\<rparr>
      | Told Exiting q t r \<Rightarrow> w\<lparr>tw_calls := (tw_calls w)(j := Outside)\<rparr>
      | _ \<Rightarrow> w)"
| "task_step B (t1, t2, Reconfigure p c) w =
     (case task_reconfigure c (tw_locks w p) of Inl e \<Rightarrow> w | Inr L \<Rightarrow> w\<lparr>tw_locks := (tw_locks w)(p := L)\<rparr>)"

fun task_run :: "'s lock_backend \<Rightarrow> (seconds \<times> seconds \<times> task_event) list \<Rightarrow> 's task_world \<Rightarrow> 's task_world" where
  "task_run B [] w = w"
| "task_run B (x # xs) w = task_run B xs (task_step B x w)"

definition task_init :: "(nat \<Rightarrow> nat) \<Rightarrow> (nat \<Rightarrow> task_lock) \<Rightarrow> 's \<Rightarrow> 's task_world" where
  "task_init loops objs s = \<lparr>tw_store = s, tw_locks = objs, tw_loops = loops, tw_calls = (\<lambda>j. Outside), tw_grants = [], tw_starts = []\<rparr>"

fun task_clock :: "seconds \<Rightarrow> (seconds \<times> seconds \<times> task_event) list \<Rightarrow> bool" where
  "task_clock t [] = True"
| "task_clock t ((t1, t2, e) # xs) = (t \<le> t1 \<and> t1 \<le> t2 \<and> task_clock t2 xs)"

text \<open>Grants, the newest first: one that another token gets comes when the promise is over.\<close>

fun grants_apart :: "task_grant list \<Rightarrow> bool" where
  "grants_apart [] = True"
| "grants_apart (g # gs) = ((\<forall>h \<in> set gs. g_key h = g_key g \<longrightarrow> g_token h \<noteq> g_token g \<longrightarrow> g_until h \<le> g_time g) \<and> grants_apart gs)"

text \<open>Blocks of different tokens are entered at least \<open>d\<close> apart.\<close>

fun starts_apart :: "seconds \<Rightarrow> task_grant list \<Rightarrow> bool" where
  "starts_apart d [] = True"
| "starts_apart d (g # gs) = ((\<forall>h \<in> set gs. g_key h = g_key g \<longrightarrow> g_token h \<noteq> g_token g \<longrightarrow> g_time h + d \<le> g_time g) \<and> starts_apart d gs)"

lemma starts_apartI: "grants_apart gs \<Longrightarrow> (\<And>g. g \<in> set gs \<Longrightarrow> g_time g + d \<le> g_until g) \<Longrightarrow> starts_apart d gs"
  by (induction gs) fastforce+

text \<open>The answer to an entry reaches its caller within \<open>d\<close> of the instant at which the backend served it.\<close>

fun prompt :: "'s lock_backend \<Rightarrow> seconds \<Rightarrow> (seconds \<times> seconds \<times> task_event) list \<Rightarrow> 's task_world \<Rightarrow> bool" where
  "prompt B d [] w = True"
| "prompt B d ((t1, t2, e) # es) w =
     ((case e of Return j \<Rightarrow> (case tw_calls w j of Told Entering q t r \<Rightarrow> t1 \<le> t + d | _ \<Rightarrow> True) | _ \<Rightarrow> True) \<and>
      prompt B d es (task_step B (t1, t2, e) w))"

text \<open>A nonce as \<open>generate_token_nonce\<close> makes it.\<close>

definition nonce_ok :: "string \<Rightarrow> bool" where
  "nonce_ok c \<longleftrightarrow> (\<exists>h. c = CHR '':'' # h \<and> CHR '':'' \<notin> set h)"

text \<open>The thread of a worker that may call is \<open>th\<close>; any number of tasks may.\<close>

fun sole :: "(nat \<Rightarrow> nat) \<Rightarrow> nat \<times> lock_owner \<Rightarrow> bool" where
  "sole th (p, Task n) = True"
| "sole th (p, Thread n) = (n = th p)"

text \<open>No reconfiguration, nonces as the class makes them, and at most one thread for each worker.\<close>

fun steady :: "(nat \<Rightarrow> nat) \<Rightarrow> task_event \<Rightarrow> bool" where
  "steady th (CallExit j nonce) = nonce_ok nonce"
| "steady th (CallEnter j) = sole th j"
| "steady th (Reconfigure p c) = False"
| "steady th e = True"

abbreviation all_steady :: "(nat \<Rightarrow> nat) \<Rightarrow> (seconds \<times> seconds \<times> task_event) list \<Rightarrow> bool" where
  "all_steady th es \<equiv> list_all (\<lambda>(t1, t2, e). steady th e) es"

section \<open>Tokens\<close>

lemma split_last_colon:
  "a @ CHR '':'' # b = a' @ CHR '':'' # b' \<Longrightarrow> CHR '':'' \<notin> set b \<Longrightarrow> CHR '':'' \<notin> set b' \<Longrightarrow> a = a' \<and> b = b'"
proof (induction a arbitrary: a')
  case Nil
  then show ?case by (cases a') auto
next
  case (Cons x a)
  then show ?case by (cases a') auto
qed

lemma colon_in_number: "CHR '':'' \<notin> set (show_nat n)"
  using show_nat_digits [of n] by (auto simp: list_all_iff is_digit_def)

lemma session_token_inject:
  assumes "session_token v i c = session_token v' i' c'" "nonce_ok c" "nonce_ok c'"
  shows "v = v' \<and> i = i'"
proof -
  define kind where "kind x = (case x of Task n \<Rightarrow> ''task'' | Thread n \<Rightarrow> ''thread'')" for x
  define num where "num x = (case x of Task n \<Rightarrow> n | Thread n \<Rightarrow> n)" for x
  have tok: "session_token u x d = ((u @ CHR '':'' # kind x) @ CHR '':'' # show_nat (num x)) @ d" for u x d
    by (cases x) (simp_all add: kind_def num_def)
  obtain h h' where h: "c = CHR '':'' # h" "CHR '':'' \<notin> set h" "c' = CHR '':'' # h'" "CHR '':'' \<notin> set h'" using assms(2,3) by (auto simp: nonce_ok_def)
  have "(v @ CHR '':'' # kind i) @ CHR '':'' # show_nat (num i) = (v' @ CHR '':'' # kind i') @ CHR '':'' # show_nat (num i')"
    using assms(1) split_last_colon [OF _ h(2,4)] unfolding tok h(1,3) by blast
  then have e: "v @ CHR '':'' # kind i = v' @ CHR '':'' # kind i'" "show_nat (num i) = show_nat (num i')"
    using split_last_colon [OF _ colon_in_number colon_in_number] by blast+
  have "CHR '':'' \<notin> set (kind x)" for x by (cases x) (simp_all add: kind_def)
  then have "v = v'" "kind i = kind i'" using split_last_colon [OF e(1)] by blast+
  then show ?thesis using e(2) by (cases i; cases i') (simp_all add: kind_def num_def)
qed

section \<open>Any store of the contract\<close>

text \<open>What a request asks for on behalf of a task of a worker.\<close>

definition token_of :: "task_lock \<Rightarrow> lock_owner \<Rightarrow> token \<Rightarrow> bool" where
  "token_of L i a \<longleftrightarrow> (\<exists>c. nonce_ok c \<and> a = session_token (tl_worker L) i c)"

definition lock_valid :: "task_lock \<Rightarrow> bool" where
  "lock_valid L \<longleftrightarrow> validate_task_config (tl_cfg L) = Inr (tl_cfg L) \<and> nonce_ok (tl_nonce L)"

abbreviation hold_of :: "'s task_world \<Rightarrow> nat \<Rightarrow> seconds" where
  "hold_of w p \<equiv> tc_min_hold (tl_cfg (tw_locks w p))"

text \<open>What the store has promised: to grants and to blocks.\<close>

definition promises :: "'s task_world \<Rightarrow> task_grant set" where
  "promises w = set (tw_grants w) \<union> set (tw_starts w)"

abbreviation asks_as :: "'s task_world \<Rightarrow> nat \<times> lock_owner \<Rightarrow> token \<Rightarrow> bool" where
  "asks_as w j \<equiv> token_of (tw_locks w (fst j)) (caller_as (tw_loops w) j)"

definition held_ok :: "seconds \<Rightarrow> 's task_world \<Rightarrow> nat \<times> lock_owner \<Rightarrow> bool" where
  "held_ok t w j \<longleftrightarrow> (\<forall>a g. tl_acquired (tw_locks w (fst j)) = Some a \<longrightarrow> g \<in> promises w \<longrightarrow> g_owner g = j \<longrightarrow> g_until g \<le> max t (a + hold_of w (fst j)))"

definition asks_lease :: "'s task_world \<Rightarrow> nat \<times> lock_owner \<Rightarrow> lock_request \<Rightarrow> bool" where
  "asks_lease w j q \<longleftrightarrow> (\<exists>a. q = Acquire (task_lock_name (tw_locks w (fst j))) a (tc_lease (tl_cfg (tw_locks w (fst j)))) \<and> asks_as w j a)"

definition asks_exit :: "seconds \<Rightarrow> 's task_world \<Rightarrow> nat \<times> lock_owner \<Rightarrow> lock_request \<Rightarrow> bool" where
  "asks_exit t w j q =
     (case q of
        Release n a \<Rightarrow> n = task_lock_name (tw_locks w (fst j)) \<and> asks_as w j a \<and> (\<forall>g \<in> promises w. g_owner g = j \<longrightarrow> g_until g \<le> t)
      | Acquire n a d \<Rightarrow> n = task_lock_name (tw_locks w (fst j)) \<and> asks_as w j a \<and> 0 < d \<and> (\<forall>g \<in> promises w. g_owner g = j \<longrightarrow> g_until g \<le> t + d))"

text \<open>A caller that has been granted its entry and does not know yet: the store keeps the whole lease for it.\<close>

definition told_ok :: "('s \<Rightarrow> seconds \<Rightarrow> key \<Rightarrow> token option) \<Rightarrow> seconds \<Rightarrow> 's task_world \<Rightarrow> nat \<times> lock_owner \<Rightarrow> lock_request \<Rightarrow> seconds \<Rightarrow> task_answer \<Rightarrow> bool" where
  "told_ok hold t w j q s r \<longleftrightarrow> s \<le> t \<and> asks_lease w j q \<and>
     (\<forall>f n a d u. r = Got (Inr (Some f)) \<longrightarrow> q = Acquire n a d \<longrightarrow> t \<le> u \<longrightarrow> u < s + d \<longrightarrow> hold (tw_store w) u n = Some a)"

definition phase_ok :: "(nat \<Rightarrow> nat) \<Rightarrow> ('s \<Rightarrow> seconds \<Rightarrow> key \<Rightarrow> token option) \<Rightarrow> seconds \<Rightarrow> 's task_world \<Rightarrow> nat \<times> lock_owner \<Rightarrow> bool" where
  "phase_ok th hold t w j \<longleftrightarrow> (tw_calls w j \<noteq> Outside \<longrightarrow> sole th j) \<and>
     (case tw_calls w j of
        Inside \<Rightarrow> held_ok t w j
      | Told Refreshing q s r \<Rightarrow> held_ok t w j
      | Told Entering q s r \<Rightarrow> told_ok hold t w j q s r
      | Sent Refreshing q \<Rightarrow> held_ok t w j \<and> asks_lease w j q
      | Sent Entering q \<Rightarrow> asks_lease w j q
      | Sent Exiting q \<Rightarrow> asks_exit t w j q
      | _ \<Rightarrow> True)"

definition grant_ok :: "(nat \<Rightarrow> nat) \<Rightarrow> ('s \<Rightarrow> seconds \<Rightarrow> key \<Rightarrow> token option) \<Rightarrow> seconds \<Rightarrow> 's task_world \<Rightarrow> task_grant \<Rightarrow> bool" where
  "grant_ok th hold t w g \<longleftrightarrow>
     g_time g \<le> t \<and> g_until g \<le> g_time g + hold_of w (fst (g_owner g)) \<and>
     (g_kind g = Asked Entering \<longrightarrow> g_until g = g_time g + hold_of w (fst (g_owner g))) \<and> g_key g = task_lock_name (tw_locks w (fst (g_owner g))) \<and>
     asks_as w (g_owner g) (g_token g) \<and> sole th (g_owner g) \<and>
     (\<forall>u. t \<le> u \<longrightarrow> u < g_until g \<longrightarrow> hold (tw_store w) u (g_key g) = Some (g_token g))"

lemma enter_of_eq: "enter_of loops j L = enter_begin (caller_as loops j) L"
  by (cases "(loops, j, L)" rule: enter_of.cases) (simp_all add: do_thread_enter_def)

lemma exit_of_eq: "exit_of loops now nonce j L = exit_begin now nonce (caller_as loops j) L"
  by (cases "(loops, now, nonce, j, L)" rule: exit_of.cases) (simp_all add: do_thread_exit_def)

lemma refresh_of_eq: "refresh_of j L = Inr q \<Longrightarrow> refresh_begin (caller_as loops j) L = Inr q"
  by (cases "(j, L)" rule: refresh_of.cases) simp_all

lemma sole_caller: "caller_as loops j = caller_as loops j' \<Longrightarrow> fst j = fst j' \<Longrightarrow> sole th j \<Longrightarrow> sole th j' \<Longrightarrow> j = j'"
  by (cases "(th, j)" rule: sole.cases; cases "(th, j')" rule: sole.cases) auto

lemma new_starts_cases:
  assumes "g \<in> set (new_starts j now hold t q r)"
  obtains n a d f where "q = Acquire n a d" "r = Got (Inr (Some f))"
    "g = \<lparr>g_kind = Started, g_owner = j, g_key = n, g_token = a, g_time = now, g_until = min (now + hold) (t + d)\<rparr>"
  using assms by (cases "(j, now, hold, t, q, r)" rule: new_starts.cases) auto

locale task_lock_store = lock_backend_laws +
  assumes lease_lasts: "t1 \<le> t2 \<Longrightarrow> u < t1 + d \<Longrightarrow> lease t1 t2 d u"
    and task_names: "name_ok (''tasklock:'' @ n)"
    and task_times: "0 < d \<Longrightarrow> served d"
begin

definition task_inv :: "(nat \<Rightarrow> nat) \<Rightarrow> seconds \<Rightarrow> 'a task_world \<Rightarrow> bool" where
  "task_inv th t w \<longleftrightarrow>
     inv (tw_store w) \<and> inj (\<lambda>p. tl_worker (tw_locks w p)) \<and> (\<forall>p. lock_valid (tw_locks w p)) \<and> grants_apart (tw_grants w) \<and>
     (\<forall>g \<in> promises w. grant_ok th holder t w g) \<and> (\<forall>j. phase_ok th holder t w j)"

text \<open>What serving a request does to a promise.\<close>

lemma serve_keeps:
  assumes s: "inv s" "t \<le> t1" "t1 \<le> t2" "request_ok name_ok served q" "name_ok n" "serve B t1 t2 q s = (r, s')"
    and p: "\<And>u. t \<le> u \<Longrightarrow> u < e \<Longrightarrow> holder s u n = Some x"
    and own: "\<And>d. q = Acquire n x d \<Longrightarrow> e \<le> t1 + d" "q = Release n x \<Longrightarrow> e \<le> t1"
  shows "\<And>u. t2 \<le> u \<Longrightarrow> u < e \<Longrightarrow> holder s' u n = Some x"
    and "\<And>a d f. q = Acquire n a d \<Longrightarrow> r = Got (Inr (Some f)) \<Longrightarrow> a \<noteq> x \<Longrightarrow> e \<le> t1"
proof -
  have "(\<forall>u. t2 \<le> u \<longrightarrow> u < e \<longrightarrow> holder s' u n = Some x) \<and> (\<forall>a d f. q = Acquire n a d \<longrightarrow> r = Got (Inr (Some f)) \<longrightarrow> a \<noteq> x \<longrightarrow> e \<le> t1)"
  proof (cases "e \<le> t1")
    case True
    then show ?thesis using s(3) by auto
  next
    case False
    then have h: "holder s t1 n = Some x" using p s(2) by simp
    have k: "holder s u n = Some x" if "t2 \<le> u" "u < e" for u using p that s(2,3) by simp
    show ?thesis
    proof (cases q)
      case (Acquire m a d)
      obtain y z where acq: "lb_acquire B t1 t2 m a d s = (y, z)" by (cases "lb_acquire B t1 t2 m a d s")
      then have r: "r = Got y" "s' = z" using s(6) Acquire by simp_all
      have ok: "name_ok m" "served d" using s(4) Acquire by simp_all
      show ?thesis
      proof (cases rule: acquire_cases [OF s(1,3) ok acq])
        case 1
        show ?thesis
        proof (cases "m = n")
          case True
          then have "a = x" using 1(1) h by simp
          moreover have "e \<le> t1 + d" using own(1) Acquire True \<open>a = x\<close> by simp
          ultimately show ?thesis using 1(4) True lease_lasts [OF s(3)] r Acquire by auto
        next
          case False
          then show ?thesis using 1(6) s(5) k r Acquire by simp
        qed
      next
        case (2 b)
        then show ?thesis using k r by simp
      qed
    next
      case (Release m a)
      then have rel: "lb_release B t1 t2 m a s = (fst (lb_release B t1 t2 m a s), s')" using s(6) by (auto simp: map_prod_def prod_eq_iff split: prod.splits)
      have ok: "name_ok m" using s(4) Release by simp
      show ?thesis
      proof (cases "m = n")
        case True
        then have "a \<noteq> x" using own(2) Release False by auto
        then have "holder s t1 m \<noteq> Some a" using h True by simp
        from release_other [OF s(1,3) ok this rel] show ?thesis using k True Release by auto
      next
        case False
        then show ?thesis using release_frame [OF s(1) ok rel s(5)] k Release by simp
      qed
    qed
  qed
  then show "\<And>u. t2 \<le> u \<Longrightarrow> u < e \<Longrightarrow> holder s' u n = Some x"
    "\<And>a d f. q = Acquire n a d \<Longrightarrow> r = Got (Inr (Some f)) \<Longrightarrow> a \<noteq> x \<Longrightarrow> e \<le> t1" by blast+
qed

lemma task_inv_later: "task_inv th t w \<Longrightarrow> t \<le> t' \<Longrightarrow> task_inv th t' w"
proof -
  assume a: "task_inv th t w" "t \<le> t'"
  have h: "held_ok t w j \<Longrightarrow> held_ok t' w j" for j using a(2) unfolding held_ok_def le_max_iff_disj by fastforce
  have e: "asks_exit t w j q \<Longrightarrow> asks_exit t' w j q" for j q
    using a(2) unfolding asks_exit_def by (cases q) force+
  have d: "told_ok holder t w j q s r \<Longrightarrow> told_ok holder t' w j q s r" for j q s r using a(2) unfolding told_ok_def by auto
  have "phase_ok th holder t w j \<Longrightarrow> phase_ok th holder t' w j" for j
    unfolding phase_ok_def using h e d by (simp split: task_phase.splits call_kind.splits)
  moreover have "grant_ok th holder t w g \<Longrightarrow> grant_ok th holder t' w g" for g using a(2) unfolding grant_ok_def by auto
  ultimately show "task_inv th t' w" using a(1) unfolding task_inv_def by blast
qed

text \<open>Steps that do not reach the store.\<close>

lemma local_step:
  assumes w: "task_inv th t w" and same: "tw_store w' = tw_store w" "tw_grants w' = tw_grants w" "tw_starts w' = tw_starts w" "tw_loops w' = tw_loops w"
    and l: "\<And>p. tl_name (tw_locks w' p) = tl_name (tw_locks w p)" "\<And>p. tl_cfg (tw_locks w' p) = tl_cfg (tw_locks w p)"
      "\<And>p. tl_worker (tw_locks w' p) = tl_worker (tw_locks w p)" "\<And>p. nonce_ok (tl_nonce (tw_locks w' p))"
    and a: "\<And>p. tl_acquired (tw_locks w' p) \<in> {tl_acquired (tw_locks w p), None, Some t}"
    and c: "\<And>j. tw_calls w' j = tw_calls w j \<or> phase_ok th holder t w' j"
  shows "task_inv th t w'"
proof -
  have pr: "promises w' = promises w" by (simp add: promises_def same)
  have g: "grant_ok th holder t w' g = grant_ok th holder t w g" for g
    unfolding grant_ok_def same by (simp add: l task_lock_name_def token_of_def)
  have gs: "grant_ok th holder t w g" if "g \<in> promises w" for g using w that by (simp add: task_inv_def)
  have h: "held_ok t w' j" if "held_ok t w j" for j
    unfolding held_ok_def
  proof (intro allI impI)
    fix x g assume x: "tl_acquired (tw_locks w' (fst j)) = Some x" "g \<in> promises w'" "g_owner g = j"
    consider "tl_acquired (tw_locks w (fst j)) = Some x" | "x = t" using a [of "fst j"] x(1) by auto
    then show "g_until g \<le> max t (x + hold_of w' (fst j))"
    proof cases
      case 1
      then show ?thesis using that x(2,3) unfolding held_ok_def pr l by blast
    next
      case 2
      then show ?thesis using gs [of g] x(2,3) unfolding grant_ok_def pr l by auto
    qed
  qed
  have "phase_ok th holder t w' j" for j
  proof (cases "tw_calls w' j = tw_calls w j")
    case True
    moreover have al: "asks_lease w' j q = asks_lease w j q" "asks_exit t w' j q = asks_exit t w j q" for q
      unfolding asks_lease_def asks_exit_def pr same by (simp_all add: l task_lock_name_def token_of_def split: lock_request.split)
    moreover have "told_ok holder t w' j q s r = told_ok holder t w j q s r" for q s r unfolding told_ok_def same al ..
    moreover have "phase_ok th holder t w j" using w unfolding task_inv_def by blast
    ultimately show ?thesis using h unfolding phase_ok_def by (simp split: task_phase.splits call_kind.splits)
  next
    case False
    then show ?thesis using c by blast
  qed
  moreover have "lock_valid (tw_locks w' p)" for p using w l unfolding task_inv_def lock_valid_def by simp
  ultimately show ?thesis using w g pr unfolding task_inv_def same by (simp add: l)
qed

lemma valid_facts:
  assumes "lock_valid L"
  shows "0 < tc_min_hold (tl_cfg L)" "tc_min_hold (tl_cfg L) \<le> tc_lease (tl_cfg L)" "nonce_ok (tl_nonce L)"
  using assms by (auto simp: lock_valid_def validate_task_config_def split: if_splits)

lemma own_token: "lock_valid L \<Longrightarrow> token_of L i (session_token (tl_worker L) i (tl_nonce L))"
  unfolding token_of_def using valid_facts(3) by blast

text \<open>What a task asks for concerns its own promises only.\<close>

lemma token_owner:
  assumes "task_inv th t w" "asks_as w j a" "asks_as w j' a" "sole th j" "sole th j'"
  shows "j = j'"
proof -
  have "tl_worker (tw_locks w (fst j)) = tl_worker (tw_locks w (fst j')) \<and> caller_as (tw_loops w) j = caller_as (tw_loops w) j'"
    using assms(2,3) session_token_inject unfolding token_of_def by metis
  moreover have "inj (\<lambda>p. tl_worker (tw_locks w p))" using assms(1) unfolding task_inv_def by blast
  ultimately show ?thesis using sole_caller [OF _ _ assms(4,5)] by (meson injD)
qed

text \<open>The request of a caller that waits.\<close>

lemma sent_request:
  assumes "task_inv th t w" "tw_calls w j = Sent k q"
  shows "request_ok name_ok served q"
    and "\<And>n a d. q = Acquire n a d \<Longrightarrow> n = task_lock_name (tw_locks w (fst j)) \<and> asks_as w j a"
    and "\<And>n a. q = Release n a \<Longrightarrow> n = task_lock_name (tw_locks w (fst j)) \<and> asks_as w j a"
    and "\<And>n a d. q = Acquire n a d \<Longrightarrow> k = Entering \<Longrightarrow> d = tc_lease (tl_cfg (tw_locks w (fst j)))"
    and "\<And>g n d. g \<in> promises w \<Longrightarrow> q = Acquire n (g_token g) d \<Longrightarrow> g_until g \<le> t + d"
    and "\<And>g n. g \<in> promises w \<Longrightarrow> q = Release n (g_token g) \<Longrightarrow> g_until g \<le> t"
    and "sole th j" and "k = Entering \<Longrightarrow> asks_lease w j q"
proof -
  let ?L = "tw_locks w (fst j)"
  have v: "lock_valid ?L" and p: "phase_ok th holder t w j" using assms(1) unfolding task_inv_def by blast+
  note vf = valid_facts [OF v]
  show so: "sole th j" using p assms(2) by (simp add: phase_ok_def)
  have shape: "asks_lease w j q \<or> k = Exiting \<and> asks_exit t w j q" and kind: "k = Entering \<Longrightarrow> asks_lease w j q"
    using p assms(2) unfolding phase_ok_def by (auto split: call_kind.splits)
  show "k = Entering \<Longrightarrow> asks_lease w j q" by (rule kind)
  have n: "name_ok (task_lock_name ?L)" by (simp add: task_lock_name_def task_names [simplified])
  show "request_ok name_ok served q"
    using shape n vf(1,2) task_times unfolding asks_lease_def asks_exit_def by (cases q; auto)
  show a: "\<And>n a d. q = Acquire n a d \<Longrightarrow> n = task_lock_name ?L \<and> asks_as w j a"
    using shape unfolding asks_lease_def asks_exit_def by (cases q; auto)
  show b: "\<And>n a. q = Release n a \<Longrightarrow> n = task_lock_name ?L \<and> asks_as w j a"
    using shape unfolding asks_lease_def asks_exit_def by (cases q; auto)
  show "\<And>n a d. q = Acquire n a d \<Longrightarrow> k = Entering \<Longrightarrow> d = tc_lease (tl_cfg ?L)" using kind unfolding asks_lease_def by auto
  have own: "g_owner g = j \<and> g_until g \<le> t + tc_lease (tl_cfg ?L)" if g: "g \<in> promises w" "asks_as w j (g_token g)" for g
  proof -
    have ok: "grant_ok th holder t w g" using assms(1) g(1) by (simp add: task_inv_def)
    then have "asks_as w (g_owner g) (g_token g)" "sole th (g_owner g)" by (simp_all add: grant_ok_def)
    from token_owner [OF assms(1) this(1) g(2) this(2) so] have "g_owner g = j" .
    then show ?thesis using ok vf(2) unfolding grant_ok_def by auto
  qed
  show "\<And>g n d. g \<in> promises w \<Longrightarrow> q = Acquire n (g_token g) d \<Longrightarrow> g_until g \<le> t + d"
    using shape own a unfolding asks_lease_def asks_exit_def by (cases q; auto)
  show "\<And>g n. g \<in> promises w \<Longrightarrow> q = Release n (g_token g) \<Longrightarrow> g_until g \<le> t"
    using shape own b unfolding asks_lease_def asks_exit_def by (cases q; auto)
qed

text \<open>A grant to an entry lasts for the lease that it asked for.\<close>

lemma served_lease:
  assumes "task_inv th t1 w" "tw_calls w j = Sent k (Acquire n a d)" "t1 \<le> t2" "serve B t1 t2 (Acquire n a d) (tw_store w) = (Got (Inr (Some f)), s')"
    and "t2 \<le> u" "u < t1 + d"
  shows "holder s' u n = Some a"
proof -
  note sr = sent_request [OF assms(1,2)]
  have inv: "inv (tw_store w)" using assms(1) unfolding task_inv_def by blast
  have acq: "lb_acquire B t1 t2 n a d (tw_store w) = (Inr (Some f), s')" using assms(4) by (auto simp: map_prod_def split: prod.splits)
  have ok: "name_ok n" "served d" using sr(1) by simp_all
  have l: "lease t1 t2 d u" by (rule lease_lasts [OF assms(3,6)])
  show ?thesis by (cases rule: acquire_cases [OF inv assms(3) ok acq]) (simp_all add: l assms(5))
qed

lemma new_grants_facts:
  assumes "task_inv th t1 w" "tw_calls w j = Sent k q" "t1 \<le> t2" "serve B t1 t2 q (tw_store w) = (r, s')"
    and "g \<in> set (new_grants j k t1 (hold_of w (fst j)) q r)"
  shows "g_owner g = j" "k \<noteq> Entering \<Longrightarrow> g_until g = t1" "g_time g = t1" "g_until g \<le> t1 + hold_of w (fst j)"
    "g_kind g = Asked Entering \<longrightarrow> g_until g = t1 + hold_of w (fst j)"
    "g_key g = task_lock_name (tw_locks w (fst j))" "asks_as w j (g_token g)"
    "\<And>u. t2 \<le> u \<Longrightarrow> u < g_until g \<Longrightarrow> holder s' u (g_key g) = Some (g_token g)"
    "\<exists>n d f. q = Acquire n (g_token g) d \<and> r = Got (Inr (Some f)) \<and> n = g_key g"
proof -
  let ?L = "tw_locks w (fst j)"
  obtain n a d f where q: "q = Acquire n a d" "r = Got (Inr (Some f))"
    and g: "g = \<lparr>g_kind = Asked k, g_owner = j, g_key = n, g_token = a, g_time = t1, g_until = (if k = Entering then t1 + hold_of w (fst j) else t1)\<rparr>"
    using assms(5) by (cases "(j, k, t1, hold_of w (fst j), q, r)" rule: new_grants.cases) auto
  note sr = sent_request [OF assms(1,2)]
  have v: "lock_valid ?L" using assms(1) unfolding task_inv_def by blast
  note vf = valid_facts [OF v]
  show "g_owner g = j" "k \<noteq> Entering \<Longrightarrow> g_until g = t1" "g_time g = t1" "g_until g \<le> t1 + hold_of w (fst j)"
    "g_kind g = Asked Entering \<longrightarrow> g_until g = t1 + hold_of w (fst j)" using g vf by simp_all
  show "g_key g = task_lock_name ?L" "asks_as w j (g_token g)" using sr(2) q g by simp_all
  show "\<exists>n d f. q = Acquire n (g_token g) d \<and> r = Got (Inr (Some f)) \<and> n = g_key g" using q g by simp
  show "holder s' u (g_key g) = Some (g_token g)" if "t2 \<le> u" "u < g_until g" for u
  proof -
    have k: "k = Entering" using that assms(3) g by (cases "k = Entering") simp_all
    have "u < t1 + d" using that(2) g k sr(4) [OF q(1) k] vf(2) by simp
    then show ?thesis using served_lease [OF assms(1) assms(2) [unfolded q] assms(3) assms(4) [unfolded q] that(1)] by (simp add: g)
  qed
qed

lemma serve_inv: "inv s \<Longrightarrow> request_ok name_ok served q \<Longrightarrow> serve B t1 t2 q s = (r, s') \<Longrightarrow> inv s'"
  by (cases q) (auto simp: map_prod_def split: prod.splits intro: inv_acquire inv_release)

lemma serve_step:
  assumes w: "task_inv th t1 w" "t1 \<le> t2" "tw_calls w j = Sent k q" "serve B t1 t2 q (tw_store w) = (r, s')"
    and w': "w' = w\<lparr>tw_store := s', tw_calls := (tw_calls w)(j := Told k q t1 r), tw_grants := new_grants j k t1 (hold_of w (fst j)) q r @ tw_grants w\<rparr>"
  shows "task_inv th t2 w'"
proof -
  let ?new = "new_grants j k t1 (hold_of w (fst j)) q r"
  note sr = sent_request [OF w(1,3)] and ng = new_grants_facts [OF w(1,3,2,4)]
  have i: "inv (tw_store w)" and old: "\<And>g. g \<in> promises w \<Longrightarrow> grant_ok th holder t1 w g" and apart: "grants_apart (tw_grants w)"
    using w(1) unfolding task_inv_def by blast+
  have sel: "tw_locks w' = tw_locks w" "tw_store w' = s'" "tw_grants w' = ?new @ tw_grants w" "tw_loops w' = tw_loops w"
    "promises w' = set ?new \<union> promises w" by (auto simp: w' promises_def)
  have key: "name_ok (g_key g)" if "g \<in> promises w" for g
    using old [OF that] task_names by (simp add: grant_ok_def task_lock_name_def)
  have keep: "\<And>u. t2 \<le> u \<Longrightarrow> u < g_until g \<Longrightarrow> holder s' u (g_key g) = Some (g_token g)"
    and other: "\<And>a d f. q = Acquire (g_key g) a d \<Longrightarrow> r = Got (Inr (Some f)) \<Longrightarrow> a \<noteq> g_token g \<Longrightarrow> g_until g \<le> t1" if g: "g \<in> promises w" for g
  proof -
    have p: "\<And>u. t1 \<le> u \<Longrightarrow> u < g_until g \<Longrightarrow> holder (tw_store w) u (g_key g) = Some (g_token g)" using old [OF g] unfolding grant_ok_def by blast
    have o: "\<And>d. q = Acquire (g_key g) (g_token g) d \<Longrightarrow> g_until g \<le> t1 + d" "q = Release (g_key g) (g_token g) \<Longrightarrow> g_until g \<le> t1"
      using sr(5,6) [OF g] by blast+
    show "holder s' u (g_key g) = Some (g_token g)" if "t2 \<le> u" "u < g_until g" for u
      by (rule serve_keeps(1) [OF i order_refl w(2) sr(1) key [OF g] w(4) p o that])
    show "g_until g \<le> t1" if "q = Acquire (g_key g) a d" "r = Got (Inr (Some f))" "a \<noteq> g_token g" for a d f
      by (rule serve_keeps(2) [OF i order_refl w(2) sr(1) key [OF g] w(4) p o that])
  qed
  have gs: "grant_ok th holder t2 w' g" if "g \<in> promises w'" for g
  proof (cases "g \<in> set ?new")
    case True
    then show ?thesis using ng [OF True] w(2) sr(7) unfolding grant_ok_def sel by simp
  next
    case False
    then have "g \<in> promises w" using that by (simp add: sel)
    then show ?thesis using old keep w(2) unfolding grant_ok_def sel by fastforce
  qed
  have "length ?new \<le> 1" by (cases "(j, k, t1, hold_of w (fst j), q, r)" rule: new_grants.cases) simp_all
  moreover have "g_until h \<le> g_time g" if "g \<in> set ?new" "h \<in> set (tw_grants w)" "g_key h = g_key g" "g_token h \<noteq> g_token g" for g h
    using other [of h] ng(3,9) [OF that(1)] that(2,3,4) unfolding promises_def by (metis Un_iff)
  ultimately have ap: "grants_apart (tw_grants w')" using apart unfolding sel by (cases ?new) auto
  have held: "held_ok t2 w' j'" if "held_ok t1 w j'" "j' = j \<Longrightarrow> k \<noteq> Entering" for j'
    using that ng(1,2) w(2) unfolding held_ok_def sel le_max_iff_disj by fastforce
  have ex: "asks_exit t2 w' j' p" if "asks_exit t1 w j' p" "j' \<noteq> j" for j' p
    using that ng(1) w(2) unfolding asks_exit_def sel by (cases p) fastforce+
  have a: "asks_lease w' = asks_lease w" by (intro ext) (simp add: asks_lease_def sel)
  have told: "told_ok holder t2 w' j' q' x r'" if t: "told_ok holder t1 w j' q' x r'" "sole th j'" "j' \<noteq> j" for j' q' x r'
    unfolding told_ok_def sel a
  proof (intro conjI allI impI)
    show "x \<le> t2" "asks_lease w j' q'" using t(1) w(2) unfolding told_ok_def by simp_all
    fix f n y d u assume u: "r' = Got (Inr (Some f))" "q' = Acquire n y d" "t2 \<le> u" "u < x + d"
    have p: "\<And>u. t1 \<le> u \<Longrightarrow> u < x + d \<Longrightarrow> holder (tw_store w) u n = Some y" using t(1) u(1,2) unfolding told_ok_def by blast
    have y: "asks_as w j' y" "n = task_lock_name (tw_locks w (fst j'))" using t(1) u(2) unfolding told_ok_def asks_lease_def by auto
    then have n: "name_ok n" using task_names by (simp add: task_lock_name_def)
    have "\<not> asks_as w j y" using token_owner [OF w(1) y(1) _ t(2) sr(7)] t(3) by blast
    then have o: "\<And>d. q = Acquire n y d \<Longrightarrow> x + d' \<le> t1 + d" "q = Release n y \<Longrightarrow> x + d' \<le> t1" for d' using sr(2,3) by blast+
    show "holder s' u n = Some y" by (rule serve_keeps(1) [OF i order_refl w(2) sr(1) n w(4) p o u(3,4)])
  qed
  have "phase_ok th holder t2 w' j'" for j'
  proof -
    have p: "phase_ok th holder t1 w j'" using w(1) unfolding task_inv_def by blast
    show ?thesis
    proof (cases "j' = j")
      case True
      have "told_ok holder t2 w' j q t1 r" if "k = Entering"
        unfolding told_ok_def sel a using sr(8) [OF that] served_lease [OF w(1) _ w(2)] w(2-4) by blast
      then show ?thesis using p held [of j] w(3) sr(7) True unfolding phase_ok_def by (simp add: w' split: call_kind.splits)
    next
      case False
      then show ?thesis using p held [of j'] ex [of j'] told [of j'] a unfolding phase_ok_def by (simp add: w' split: task_phase.splits call_kind.splits)
    qed
  qed
  then show ?thesis using w(1) gs ap serve_inv [OF i sr(1) w(4)] unfolding task_inv_def sel by blast
qed

lemma exit_step:
  assumes w: "task_inv th t w" "tw_calls w j = Inside" "exit_of (tw_loops w) t nonce j (tw_locks w (fst j)) = (Inr q, L)" "nonce_ok nonce"
  shows "task_inv th t (w\<lparr>tw_locks := (tw_locks w)(fst j := L), tw_calls := (tw_calls w)(j := Sent Exiting q)\<rparr>)" (is "task_inv th t ?w")
proof -
  let ?K = "tw_locks w (fst j)"
  let ?i = "caller_as (tw_loops w) j"
  let ?tok = "session_token (tl_worker ?K) ?i (tl_nonce ?K)"
  obtain a where a: "tl_acquired ?K = Some a" and L: "L = ?K\<lparr>tl_nonce := nonce, tl_acquired := None\<rparr>"
    and q: "q = (if hold_of w (fst j) \<le> t - a then Release (task_lock_name ?K) ?tok else Acquire (task_lock_name ?K) ?tok (hold_of w (fst j) - (t - a)))"
    using w(3) unfolding exit_of_eq exit_begin_def by (auto simp: Let_def split: option.splits if_splits)
  have v: "lock_valid ?K" and p: "phase_ok th holder t w j" using w(1) unfolding task_inv_def by blast+
  have "held_ok t w j" and so: "sole th j" using p w(2) by (simp_all add: phase_ok_def)
  then have h: "g_until g \<le> max t (a + hold_of w (fst j))" if "g \<in> promises w" "g_owner g = j" for g
    using a that unfolding held_ok_def by blast
  have n: "task_lock_name (tw_locks ?w (fst j)) = task_lock_name ?K" "asks_as ?w j = asks_as w j" "promises ?w = promises w"
    by (simp_all add: L task_lock_name_def token_of_def fun_eq_iff promises_def)
  have "asks_exit t ?w j q"
  proof (cases "hold_of w (fst j) \<le> t - a")
    case True
    then have "g_until g \<le> t" if "g \<in> promises w" "g_owner g = j" for g using h [OF that] by simp
    then show ?thesis unfolding asks_exit_def n using own_token [OF v, of ?i] True by (simp add: q)
  next
    case False
    then have "g_until g \<le> t + (hold_of w (fst j) - (t - a))" if "g \<in> promises w" "g_owner g = j" for g using h [OF that] by simp
    then show ?thesis unfolding asks_exit_def n using own_token [OF v, of ?i] False by (simp add: q)
  qed
  then have "phase_ok th holder t ?w j" using so by (simp add: phase_ok_def)
  then show ?thesis using w(4) valid_facts(3) w(1) by (intro local_step [OF w(1)]) (auto simp: L task_inv_def)
qed

text \<open>A caller that learns of its grant has the promise of what is left of the lease.\<close>

lemma start_step:
  assumes w: "task_inv th t w" "tw_calls w j = Told Entering q s r" "tl_acquired L = Some t \<or> L = tw_locks w (fst j)"
    and L: "L\<lparr>tl_acquired := tl_acquired (tw_locks w (fst j))\<rparr> = tw_locks w (fst j)" and c: "c = Outside \<or> c = Inside \<and> tl_acquired L = Some t"
  shows "task_inv th t (w\<lparr>tw_locks := (tw_locks w)(fst j := L), tw_calls := (tw_calls w)(j := c), tw_starts := new_starts j t (hold_of w (fst j)) s q r @ tw_starts w\<rparr>)"
proof -
  have p: "phase_ok th holder t w j'" and v: "lock_valid (tw_locks w p')" for j' p' using w(1) unfolding task_inv_def by blast+
  have so: "sole th j" and told: "told_ok holder t w j q s r" using p [of j] w(2) by (simp_all add: phase_ok_def)
  let ?new = "new_starts j t (hold_of w (fst j)) s q r"
  let ?w = "w\<lparr>tw_starts := ?new @ tw_starts w\<rparr>"
  have pr: "promises ?w = promises w \<union> set ?new" by (auto simp: promises_def)
  have new: "grant_ok th holder t ?w g \<and> g_owner g = j" if "g \<in> set ?new" for g
    using that
  proof (cases rule: new_starts_cases)
    case (1 n a d f)
    have "n = task_lock_name (tw_locks w (fst j))" "asks_as w j a" using told 1 unfolding told_ok_def asks_lease_def by auto
    moreover have "holder (tw_store w) u n = Some a" if "t \<le> u" "u < s + d" for u using told 1 that unfolding told_ok_def by blast
    ultimately show ?thesis using so 1 by (simp add: grant_ok_def)
  qed
  have o: "grant_ok th holder t w g" if "g \<in> promises w" for g using w(1) that unfolding task_inv_def by blast
  have "grant_ok th holder t ?w g" if "g \<in> promises ?w" for g
    using that o [of g] new [of g] unfolding pr by (auto simp: grant_ok_def)
  moreover have "phase_ok th holder t ?w j'" for j'
  proof -
    have h: "held_ok t w j' \<Longrightarrow> held_ok t ?w j'" "asks_exit t w j' x \<Longrightarrow> asks_exit t ?w j' x" if "j' \<noteq> j" for x
      using that new unfolding held_ok_def asks_exit_def pr by (fastforce split: lock_request.splits)+
    have "told_ok holder t ?w j' x y z = told_ok holder t w j' x y z" "asks_lease ?w j' x = asks_lease w j' x" for x y z
      by (simp_all add: told_ok_def asks_lease_def)
    then show ?thesis using p [of j'] h w(2) unfolding phase_ok_def by (cases "j' = j") (simp_all split: task_phase.splits call_kind.splits)
  qed
  ultimately have i: "task_inv th t ?w" using w(1) unfolding task_inv_def by simp
  have same: "tl_name L = tl_name (tw_locks w (fst j))" "tl_cfg L = tl_cfg (tw_locks w (fst j))" "tl_worker L = tl_worker (tw_locks w (fst j))" "tl_nonce L = tl_nonce (tw_locks w (fst j))"
    using L by (metis task_lock.simps task_lock.surjective task_lock.update_convs)+
  have g: "g_until g \<le> t + hold_of w (fst (g_owner g))" if "g \<in> promises ?w" for g
    using i that unfolding task_inv_def grant_ok_def by fastforce
  let ?v = "w\<lparr>tw_locks := (tw_locks w)(fst j := L), tw_calls := (tw_calls w)(j := c), tw_starts := ?new @ tw_starts w\<rparr>"
  have "phase_ok th holder t ?v j" using c so g by (auto simp: phase_ok_def held_ok_def promises_def same le_max_iff_disj)
  then show ?thesis using same w(3) valid_facts(3) [OF v] by (intro local_step [OF i]) auto
qed

lemma task_step_inv:
  assumes "task_inv th t w" "t \<le> t1" "t1 \<le> t2" "steady th e"
  shows "task_inv th t2 (task_step B (t1, t2, e) w)"
proof -
  have w: "task_inv th t1 w" by (rule task_inv_later [OF assms(1,2)])
  have w2: "task_inv th t2 w" by (rule task_inv_later [OF w assms(3)])
  have v: "lock_valid (tw_locks w p)" for p using w unfolding task_inv_def by blast
  have nn: "nonce_ok (tl_nonce (tw_locks w p))" for p by (rule valid_facts(3) [OF v])
  have ph: "phase_ok th holder t1 w j" for j using w unfolding task_inv_def by blast
  have call: "task_inv th t1 (w\<lparr>tw_calls := (tw_calls w)(j := c)\<rparr>)" if "phase_ok th holder t1 (w\<lparr>tw_calls := (tw_calls w)(j := c)\<rparr>) j" for j c
    using that nn by (intro local_step [OF w]) auto
  note later = task_inv_later [OF _ assms(3)]
  show ?thesis
  proof (cases e)
    case (CallEnter j)
    have "asks_lease w j q" if "enter_of (tw_loops w) j (tw_locks w (fst j)) = Inr q" for q
      using that own_token [OF v] unfolding enter_of_eq enter_begin_def asks_lease_def by (auto split: if_splits)
    then have "task_inv th t1 (w\<lparr>tw_calls := (tw_calls w)(j := Sent Entering q)\<rparr>)" if "enter_of (tw_loops w) j (tw_locks w (fst j)) = Inr q" for q
      using that CallEnter assms(4) by (intro call) (simp add: phase_ok_def asks_lease_def)
    then show ?thesis using CallEnter w2 later by (auto split: task_phase.splits sum.splits)
  next
    case (CallRefresh j)
    have "asks_lease w j q" if "refresh_of j (tw_locks w (fst j)) = Inr q" for q
      using refresh_of_eq [OF that, of "tw_loops w"] own_token [OF v] unfolding refresh_begin_def asks_lease_def by (auto split: if_splits)
    then have "task_inv th t1 (w\<lparr>tw_calls := (tw_calls w)(j := Sent Refreshing q)\<rparr>)" if "tw_calls w j = Inside" "refresh_of j (tw_locks w (fst j)) = Inr q" for q
      using that ph [of j] by (intro call) (simp add: phase_ok_def asks_lease_def held_ok_def promises_def)
    then show ?thesis using CallRefresh w2 later by (auto split: task_phase.splits sum.splits)
  next
    case (CallExit j nonce)
    show ?thesis
    proof (cases "tw_calls w j = Inside")
      case True
      obtain x L where x: "exit_of (tw_loops w) t1 nonce j (tw_locks w (fst j)) = (x, L)" by (cases "exit_of (tw_loops w) t1 nonce j (tw_locks w (fst j))")
      show ?thesis
      proof (cases x)
        case (Inl y)
        then have "L = tw_locks w (fst j)" using x by (auto simp: exit_of_eq exit_begin_def Let_def split: option.splits if_splits)
        moreover have "task_inv th t1 (w\<lparr>tw_calls := (tw_calls w)(j := Outside)\<rparr>)" by (rule call) (simp add: phase_ok_def)
        ultimately show ?thesis using CallExit True x Inl later by simp
      next
        case (Inr q)
        then show ?thesis using CallExit True x exit_step [OF w True] assms(4) later by simp
      qed
    qed (use w2 CallExit in \<open>auto split: task_phase.splits\<close>)
  next
    case (Serve j)
    then show ?thesis using w2 serve_step [OF w assms(3) _ _ refl] by (auto split: task_phase.splits prod.splits)
  next
    case (Return j)
    show ?thesis
    proof (cases "\<exists>q s r. tw_calls w j = Told Entering q s r")
      case True
      then obtain q s r where r: "tw_calls w j = Told Entering q s r" by blast
      obtain x L where x: "enter_end t1 r (tw_locks w (fst j)) = (x, L)" by (cases "enter_end t1 r (tw_locks w (fst j))")
      have L: "x = Inr () \<and> L = (tw_locks w (fst j))\<lparr>tl_acquired := Some t1\<rparr> \<or> (\<exists>y. x = Inl y) \<and> L = tw_locks w (fst j)"
        using x by (cases "(t1, r, tw_locks w (fst j))" rule: enter_end.cases) auto
      have "task_inv th t1 (w\<lparr>tw_locks := (tw_locks w)(fst j := L), tw_calls := (tw_calls w)(j := (case x of Inl e \<Rightarrow> Outside | Inr u \<Rightarrow> Inside)),
        tw_starts := new_starts j t1 (hold_of w (fst j)) s q r @ tw_starts w\<rparr>)"
        by (rule start_step [OF w r]) (use L in auto)
      then show ?thesis using Return r x later by simp
    next
      case False
      have "task_inv th t1 (w\<lparr>tw_calls := (tw_calls w)(j := Outside)\<rparr>)" by (rule call) (simp add: phase_ok_def)
      moreover have "task_inv th t1 (w\<lparr>tw_calls := (tw_calls w)(j := Inside)\<rparr>)" if "tw_calls w j = Told Refreshing q s r" for q s r
        using ph [of j] that by (intro call) (simp add: phase_ok_def held_ok_def promises_def)
      ultimately show ?thesis using Return w2 False later by (auto split: task_phase.splits call_kind.splits)
    qed
  next
    case (Reconfigure p c)
    then show ?thesis using assms(4) by simp
  qed
qed

lemma task_run_inv:
  "task_inv th t w \<Longrightarrow> task_clock t es \<Longrightarrow> all_steady th es \<Longrightarrow> \<exists>t'. task_inv th t' (task_run B es w)"
proof (induction es arbitrary: t w)
  case (Cons x es)
  obtain t1 t2 e where x: "x = (t1, t2, e)" by (cases x)
  have "task_inv th t2 (task_step B x w)" using task_step_inv [OF Cons.prems(1)] Cons.prems(2,3) by (simp add: x)
  then show ?case using Cons.IH [of t2 "task_step B x w"] Cons.prems(2,3) by (simp add: x)
qed auto

lemma task_init_inv:
  "inv s \<Longrightarrow> inj (\<lambda>p. tl_worker (objs p)) \<Longrightarrow> (\<And>p. lock_valid (objs p)) \<Longrightarrow> task_inv th t (task_init loops objs s)"
  by (simp add: task_inv_def task_init_def phase_ok_def promises_def)

theorem task_grants_apart:
  assumes "inv s" "inj (\<lambda>p. tl_worker (objs p))" "\<And>p. lock_valid (objs p)"
    and "task_clock t es" "all_steady th es"
  shows "grants_apart (tw_grants (task_run B es (task_init loops objs s)))"
  using task_run_inv [OF task_init_inv [OF assms(1-3)] assms(4,5)] unfolding task_inv_def by blast

text \<open>With prompt answers the blocks keep the whole promise.\<close>

definition blocks_apart :: "'a task_world \<Rightarrow> bool" where
  "blocks_apart w \<longleftrightarrow> grants_apart (tw_starts w) \<and> (\<forall>g \<in> set (tw_starts w). g_until g = g_time g + hold_of w (fst (g_owner g)))"

lemma hold_step: "steady th e \<Longrightarrow> tl_cfg (tw_locks (task_step B (t1, t2, e) w) p) = tl_cfg (tw_locks w p)"
proof -
  assume s: "steady th e"
  have "tl_cfg (snd (enter_end t r L)) = tl_cfg L" for t r L by (cases "(t, r, L)" rule: enter_end.cases) simp_all
  moreover have "tl_cfg (snd (exit_of loops t c i L)) = tl_cfg L" for loops t c i L by (simp add: exit_of_eq exit_begin_def Let_def split: option.split)
  ultimately show ?thesis
    using s by (cases e) (auto split: task_phase.splits sum.splits prod.splits call_kind.splits dest: arg_cong [where f = snd], (metis snd_conv)+)
qed

lemma start_apart:
  assumes w: "task_inv th t w" "blocks_apart w" "tw_calls w j = Told Entering q s r"
    and d: "t \<le> s + d" "d + hold_of w (fst j) \<le> tc_lease (tl_cfg (tw_locks w (fst j)))" and g: "g \<in> set (new_starts j t (hold_of w (fst j)) s q r)"
  shows "g_until g = g_time g + hold_of w (fst (g_owner g))"
    and "h \<in> set (tw_starts w) \<Longrightarrow> g_key h = g_key g \<Longrightarrow> g_token h \<noteq> g_token g \<Longrightarrow> g_until h \<le> g_time g"
proof -
  have p: "phase_ok th holder t w j" and v: "lock_valid (tw_locks w (fst j))" using w(1) unfolding task_inv_def by blast+
  have told: "told_ok holder t w j q s r" using p w(3) by (simp add: phase_ok_def)
  from g obtain n a l f where q: "q = Acquire n a l" "r = Got (Inr (Some f))"
    and e: "g = \<lparr>g_kind = Started, g_owner = j, g_key = n, g_token = a, g_time = t, g_until = min (t + hold_of w (fst j)) (s + l)\<rparr>" by (rule new_starts_cases)
  have "l = tc_lease (tl_cfg (tw_locks w (fst j)))" using told q(1) unfolding told_ok_def asks_lease_def by auto
  then have u: "t + hold_of w (fst j) \<le> s + l" using d by simp
  then show "g_until g = g_time g + hold_of w (fst (g_owner g))" by (simp add: e)
  have h: "holder (tw_store w) t n = Some a" using told q u valid_facts(1) [OF v] unfolding told_ok_def by simp
  assume x: "h \<in> set (tw_starts w)" "g_key h = g_key g" "g_token h \<noteq> g_token g"
  have "grant_ok th holder t w h" using w(1) x(1) unfolding task_inv_def promises_def by blast
  then show "g_until h \<le> g_time g" using h x(2,3) unfolding grant_ok_def by (force simp: e)
qed

lemma blocks_step:
  assumes w: "task_inv th t w" "blocks_apart w" "t \<le> t1" "steady th e" "prompt B d ((t1, t2, e) # es) w"
    and d: "\<And>p. d + hold_of w p \<le> tc_lease (tl_cfg (tw_locks w p))"
  shows "blocks_apart (task_step B (t1, t2, e) w)"
proof -
  have w1: "task_inv th t1 w" by (rule task_inv_later [OF w(1,3)])
  have hold: "hold_of (task_step B (t1, t2, e) w) p = hold_of w p" for p by (simp only: hold_step [OF w(4)])
  show ?thesis
  proof (cases "\<exists>j q s r. e = Return j \<and> tw_calls w j = Told Entering q s r")
    case True
    then obtain j q s r where e: "e = Return j" "tw_calls w j = Told Entering q s r" by blast
    let ?new = "new_starts j t1 (hold_of w (fst j)) s q r"
    have st: "tw_starts (task_step B (t1, t2, e) w) = ?new @ tw_starts w" by (simp add: e split: prod.split)
    have "t1 \<le> s + d" using w(5) e by simp
    note sa = start_apart [OF w1 w(2) e(2) this d]
    have "length ?new \<le> 1" by (cases "(j, t1, hold_of w (fst j), s, q, r)" rule: new_starts.cases) simp_all
    then have "grants_apart (?new @ tw_starts w)" using w(2) sa(2) unfolding blocks_apart_def by (cases ?new) auto
    then show ?thesis using w(2) sa(1) unfolding blocks_apart_def st hold by auto
  next
    case False
    then have "tw_starts (task_step B (t1, t2, e) w) = tw_starts w"
      by (cases e) (auto split: task_phase.split sum.split prod.split call_kind.split)
    then show ?thesis using w(2) unfolding blocks_apart_def hold by simp
  qed
qed

lemma blocks_run:
  "task_inv th t w \<Longrightarrow> blocks_apart w \<Longrightarrow> task_clock t es \<Longrightarrow> all_steady th es \<Longrightarrow> prompt B d es w \<Longrightarrow>
   (\<And>p. d + hold_of w p \<le> tc_lease (tl_cfg (tw_locks w p))) \<Longrightarrow>
   blocks_apart (task_run B es w) \<and> (\<forall>p. tl_cfg (tw_locks (task_run B es w) p) = tl_cfg (tw_locks w p))"
proof (induction es arbitrary: t w)
  case (Cons x es)
  obtain t1 t2 e where x: "x = (t1, t2, e)" by (cases x)
  have e: "t \<le> t1" "t1 \<le> t2" "steady th e" "task_clock t2 es" "all_steady th es" using Cons.prems(3,4) by (simp_all add: x)
  note h = hold_step [OF e(3), of t1 t2 w]
  have "blocks_apart (task_run B es (task_step B x w)) \<and> (\<forall>p. tl_cfg (tw_locks (task_run B es (task_step B x w)) p) = tl_cfg (tw_locks (task_step B x w) p))"
  proof (rule Cons.IH)
    show "task_inv th t2 (task_step B x w)" using task_step_inv [OF Cons.prems(1) e(1-3)] by (simp add: x)
    show "blocks_apart (task_step B x w)" using blocks_step [OF Cons.prems(1,2) e(1,3) Cons.prems(5) [unfolded x] Cons.prems(6)] by (simp add: x)
    show "prompt B d es (task_step B x w)" using Cons.prems(5) by (simp add: x)
    show "d + hold_of (task_step B x w) p \<le> tc_lease (tl_cfg (tw_locks (task_step B x w) p))" for p using Cons.prems(6) h by (simp add: x)
  qed (use e in simp_all)
  then show ?case using h by (simp add: x)
qed simp

theorem task_blocks_apart:
  assumes "inv s" "inj (\<lambda>p. tl_worker (objs p))" "\<And>p. lock_valid (objs p)" "\<And>p. d \<le> tc_min_hold (tl_cfg (objs p))"
    and "\<And>p. late + tc_min_hold (tl_cfg (objs p)) \<le> tc_lease (tl_cfg (objs p))"
    and "task_clock t es" "all_steady th es" "prompt B late es (task_init loops objs s)"
  shows "starts_apart d (tw_starts (task_run B es (task_init loops objs s)))"
proof -
  let ?w = "task_init loops objs s"
  have w: "blocks_apart ?w" "\<And>p. tw_locks ?w p = objs p" by (simp_all add: blocks_apart_def task_init_def)
  have r: "blocks_apart (task_run B es ?w)" "\<And>p. tl_cfg (tw_locks (task_run B es ?w) p) = tl_cfg (objs p)"
    using blocks_run [OF task_init_inv [OF assms(1-3)] w(1) assms(6-8)] assms(5) by (simp_all add: w(2))
  have "g_time g + d \<le> g_until g" if "g \<in> set (tw_starts (task_run B es ?w))" for g
    using r that assms(4) [of "fst (g_owner g)"] unfolding blocks_apart_def by simp
  then show ?thesis using r(1) by (intro starts_apartI) (auto simp: blocks_apart_def)
qed

end

interpretation memory_tasks: task_lock_store MemoryLockAdapter lock_holder lock_fence memory_lock_inv
  "\<lambda>t1 t2 d t. t \<le> t2 + d" "\<lambda>n. True" "\<lambda>d. True"
  by unfold_locales simp_all

interpretation postgres_tasks: task_lock_store "sql_lock_adapter (\<lambda>t. t) (\<lambda>t d. t + d)" "sql_holder (\<lambda>t. t)" sql_fence sql_lock_inv
  "\<lambda>t1 t2 d t. t \<le> t1 + d" "\<lambda>n. True" "\<lambda>d. True"
  by unfold_locales simp_all

lemma sqlite_lease_lasts: "u < t1 + d \<Longrightarrow> sqlite_now u \<le> sqlite_until t1 d"
  unfolding sqlite_now_def sqlite_until_def by (simp only: of_int_le_iff) linarith

interpretation sqlite_tasks: task_lock_store "sql_lock_adapter sqlite_now sqlite_until" "sql_holder sqlite_now" sql_fence sql_lock_inv
  "\<lambda>t1 t2 d t. sqlite_now t \<le> sqlite_until t1 d" "\<lambda>n. True" "\<lambda>d. True"
  by unfold_locales (simp_all add: sqlite_lease_lasts)

section \<open>Guarantees\<close>

text \<open>C12. However the entries, refreshes and exits of any tasks of any workers, and of at most one thread of each, interleave, after an entry was granted no other
  token gets the lock until the minimum time has passed since the grant, on the in-memory, Postgres and SQLite adapters, unless the configuration is changed in between.\<close>

theorem task_lock_runs_apart:
  assumes "inj (\<lambda>p. tl_worker (objs p))" "\<And>p. lock_valid (objs p)"
    and "task_clock t es" "all_steady th es"
  shows "grants_apart (tw_grants (task_run MemoryLockAdapter es (task_init loops objs memory_lock_init))) \<and>
    grants_apart (tw_grants (task_run PostgresLockAdapter es (task_init loops objs []))) \<and>
    grants_apart (tw_grants (task_run SQLiteLockAdapter es (task_init loops objs [])))"
proof (intro conjI)
  show "grants_apart (tw_grants (task_run MemoryLockAdapter es (task_init loops objs memory_lock_init)))"
    by (rule memory_tasks.task_grants_apart [OF memory_lock_inv_init assms])
  show "grants_apart (tw_grants (task_run PostgresLockAdapter es (task_init loops objs [])))"
    unfolding PostgresLockAdapter_def by (rule postgres_tasks.task_grants_apart [OF sql_lock_inv_Nil assms])
  show "grants_apart (tw_grants (task_run SQLiteLockAdapter es (task_init loops objs [])))"
    unfolding SQLiteLockAdapter_def by (rule sqlite_tasks.task_grants_apart [OF sql_lock_inv_Nil assms])
qed

text \<open>Workers with a minimum of ten seconds and a lease of sixty.\<close>

definition hourly :: "nat \<Rightarrow> task_lock" where
  "hourly p = task_lock_setup ''t'' \<lparr>tc_worker = ''w'', tc_min_hold = 10, tc_lease = 60\<rparr> (show_nat p) '':0.a''"

text \<open>The first enters at 0 and leaves at 2, the second is refused at 5 and enters at 11.\<close>

definition two_workers :: "(seconds \<times> seconds \<times> task_event) list" where
  "two_workers =
     [(0, 0, CallEnter (0, Task 1)), (0, 0, Serve (0, Task 1)), (0, 0, Return (0, Task 1)),
      (2, 2, CallExit (0, Task 1) '':1.b''), (2, 2, Serve (0, Task 1)), (2, 2, Return (0, Task 1)),
      (5, 5, CallEnter (1, Task 1)), (5, 5, Serve (1, Task 1)), (5, 5, Return (1, Task 1)),
      (11, 11, CallEnter (1, Task 1)), (11, 11, Serve (1, Task 1)), (11, 11, Return (1, Task 1))]"

lemma hourly_valid: "inj (\<lambda>p. tl_worker (hourly p))" "lock_valid (hourly p)"
  by (simp_all add: hourly_def task_lock_setup_def inj_def lock_valid_def validate_task_config_def nonce_ok_def)

lemma two_workers_grants:
  "map (\<lambda>g. (g_token g, g_time g, g_until g)) (tw_grants (task_run MemoryLockAdapter two_workers (task_init (\<lambda>p. 9) hourly memory_lock_init))) =
     [(''1:task:1:0.a'', 11, 21), (''0:task:1:0.a'', 2, 2), (''0:task:1:0.a'', 0, 10)]"
  by code_simp

theorem task_lock_runs_apart_witness:
  "grants_apart (tw_grants (task_run MemoryLockAdapter two_workers (task_init (\<lambda>p. 9) hourly memory_lock_init))) \<and>
   map (\<lambda>g. (g_token g, g_time g, g_until g)) (tw_grants (task_run MemoryLockAdapter two_workers (task_init (\<lambda>p. 9) hourly memory_lock_init))) =
     [(''1:task:1:0.a'', 11, 21), (''0:task:1:0.a'', 2, 2), (''0:task:1:0.a'', 0, 10)]"
proof -
  have "task_clock 0 two_workers" "all_steady (\<lambda>p. 0) two_workers" by (simp_all add: two_workers_def nonce_ok_def)
  from task_lock_runs_apart [OF hourly_valid this] two_workers_grants show ?thesis by simp
qed

section \<open>Races of the class\<close>

text \<open>
  Two tasks of one worker enter at the same time. The first gets the lock, works and leaves, which gives the object a new nonce; then the request of the
  second is served and granted, with a token of the old nonce. When it leaves, the token it computes is another: nothing is released, it is told that
  it does not own the lock, and other workers are refused until the end of the lease.
\<close>

definition late_request :: "(seconds \<times> seconds \<times> task_event) list" where
  "late_request =
     [(0, 0, CallEnter (0, Task 1)), (0, 0, CallEnter (0, Task 2)), (0, 0, Serve (0, Task 1)), (0, 0, Return (0, Task 1)),
      (11, 11, CallExit (0, Task 1) '':1.b''), (11, 11, Serve (0, Task 1)), (11, 11, Return (0, Task 1)),
      (12, 12, Serve (0, Task 2)), (12, 12, Return (0, Task 2)),
      (30, 30, CallExit (0, Task 2) '':2.c''), (30, 30, Serve (0, Task 2)),
      (71, 71, CallEnter (1, Task 1)), (71, 71, Serve (1, Task 1))]"

theorem task_lock_late_request_strands:
  "let w = task_run MemoryLockAdapter late_request (task_init (\<lambda>p. 9) hourly memory_lock_init)
   in tw_calls w (0, Task 2) = Told Exiting (Release ''tasklock:t'' ''0:task:2:1.b'') 30 (Freed (Inr False)) \<and> release_end (Freed (Inr False)) = Inl LockNotOwnedError \<and>
      tw_calls w (1, Task 1) = Told Entering (Acquire ''tasklock:t'' ''1:task:1:0.a'' 60) 71 (Got (Inr None))"
  by code_simp

text \<open>
  Two threads of one worker enter at the same time: both pass the check before either request is served, both ask with the token of the loop, the second grant
  counts as a renewal of the first, and both are in the block. Two tasks of the worker, whose tokens differ, are kept apart.
\<close>

definition both_enter :: "lock_owner \<Rightarrow> lock_owner \<Rightarrow> (seconds \<times> seconds \<times> task_event) list" where
  "both_enter i k =
     [(0, 0, CallEnter (0, i)), (0, 0, CallEnter (0, k)), (0, 0, Serve (0, i)), (1, 1, Serve (0, k)), (1, 1, Return (0, i)), (1, 1, Return (0, k))]"

theorem task_lock_threads_share:
  "let w = task_run MemoryLockAdapter (both_enter (Thread 1) (Thread 2)) (task_init (\<lambda>p. 9) hourly memory_lock_init);
       v = task_run MemoryLockAdapter (both_enter (Task 1) (Task 2)) (task_init (\<lambda>p. 9) hourly memory_lock_init)
   in tw_calls w (0, Thread 1) = Inside \<and> tw_calls w (0, Thread 2) = Inside \<and> tw_calls v (0, Task 1) = Inside \<and> tw_calls v (0, Task 2) = Outside"
  by code_simp

text \<open>A new configuration counts for a block that was entered before: with a minimum of one second the lock is free at 2, where the block was entered with ten.\<close>

definition reconfigured_block :: "(seconds \<times> seconds \<times> task_event) list" where
  "reconfigured_block =
     [(0, 0, CallEnter (0, Task 1)), (0, 0, Serve (0, Task 1)), (0, 0, Return (0, Task 1)),
      (1, 1, Reconfigure 0 \<lparr>tc_worker = ''w'', tc_min_hold = 1, tc_lease = 60\<rparr>),
      (2, 2, CallExit (0, Task 1) '':1.b''), (2, 2, Serve (0, Task 1)), (2, 2, Return (0, Task 1)),
      (3, 3, CallEnter (1, Task 1)), (3, 3, Serve (1, Task 1)), (3, 3, Return (1, Task 1))]"

theorem task_lock_reconfigure_in_block:
  "\<not> grants_apart (tw_grants (task_run MemoryLockAdapter reconfigured_block (task_init (\<lambda>p. 9) hourly memory_lock_init))) \<and>
   tw_calls (task_run MemoryLockAdapter reconfigured_block (task_init (\<lambda>p. 9) hourly memory_lock_init)) (1, Task 1) = Inside"
  by code_simp

end
