(* ===== verification/Interval_Task.thy ===== *)
theory Interval_Task
  imports Task_Lock Cron_Task
begin

text \<open>
  Interval tasks (\<open>task/_interval.py\<close>): the checks of the constructor, the lock that it resolves, the order of the primitives, the nested entry of
  them around the body and the loop. An iteration is given by what each primitive and the body do; the lock itself is the task lock, so that the
  distance of two executions follows from its guarantee.
\<close>

section \<open>Construction\<close>

datatype sync_primitive = LeaderGuard | TaskLockGuard task_lock | ResourceLock nat

definition resolve_task_lock :: "string \<Rightarrow> string \<Rightarrow> string \<Rightarrow> task_lock option \<Rightarrow> seconds \<Rightarrow> py_exc + task_lock" where
  "resolve_task_lock worker nonce name lock secs =
     (case lock of
        None \<Rightarrow>
          (case validate_task_config \<lparr>tc_worker = worker, tc_min_hold = secs, tc_lease = secs * 5\<rparr> of
             Inl e \<Rightarrow> Inl e
           | Inr c \<Rightarrow> Inr (task_lock_setup name c worker nonce))
      | Some l \<Rightarrow>
          if tc_lease (tl_cfg l) < secs then Inl ValueError
          else if tl_name l = ''default'' then Inr (with_name nonce name l)
          else Inr l)"

definition build_sync_list :: "bool \<Rightarrow> task_lock \<Rightarrow> nat option \<Rightarrow> sync_primitive list" where
  "build_sync_list leader l resource =
     (if leader then [LeaderGuard] else []) @ [TaskLockGuard l] @ (case resource of None \<Rightarrow> [] | Some r \<Rightarrow> [ResourceLock r])"

record interval_task =
  it_name :: string
  it_seconds :: seconds
  it_sync :: "sync_primitive list"
  it_last_fire :: "fire_outcome option"

definition interval_init :: "string \<Rightarrow> string \<Rightarrow> string \<Rightarrow> seconds \<Rightarrow> task_lock option \<Rightarrow> bool \<Rightarrow> nat option \<Rightarrow> py_exc + interval_task" where
  "interval_init worker nonce name secs lock leader sync =
     (if secs \<le> 0 then Inl ValueError
      else (case (if lock \<noteq> None \<or> leader
                  then (case resolve_task_lock worker nonce name lock secs of Inl e \<Rightarrow> Inl e | Inr l \<Rightarrow> Inr (build_sync_list leader l sync))
                  else Inr (case sync of None \<Rightarrow> [] | Some r \<Rightarrow> [ResourceLock r])) of
          Inl e \<Rightarrow> Inl e
        | Inr ps \<Rightarrow> Inr \<lparr>it_name = name, it_seconds = secs, it_sync = ps, it_last_fire = None\<rparr>))"

section \<open>An iteration\<close>

datatype task_exc = EWouldBlock | ELockNotOwned | ECancelled | EOther

datatype body_end = BReturned | BRaised | BCancelled

text \<open>What entering and leaving a primitive raises, in the order of the list; the third component is whether the body has started.\<close>

fun run_with_sync :: "(task_exc option \<times> task_exc option) list \<Rightarrow> body_end \<Rightarrow> task_exc option \<times> fire_outcome list \<times> bool" where
  "run_with_sync [] b =
     (case b of
        BReturned \<Rightarrow> (None, [SUCCESS], True)
      | BRaised \<Rightarrow> (None, [ERROR], True)
      | BCancelled \<Rightarrow> (Some ECancelled, [ERROR], True))"
| "run_with_sync ((enter, leave) # ps) b =
     (case enter of
        Some e \<Rightarrow> (Some e, [], False)
      | None \<Rightarrow> (case run_with_sync ps b of (e, fires, started) \<Rightarrow> (case leave of Some x \<Rightarrow> Some x | None \<Rightarrow> e, fires, started)))"

record iteration =
  i_sync :: "(task_exc option \<times> task_exc option) list"
  i_body :: body_end
  i_cancelling :: bool
  i_stop :: bool

text \<open>One turn of the loop: the fires it reports, and whether it is the last, by a stop or by cancellation.\<close>

datatype turn = Next | Stopped | CancelledTask

definition iterate :: "iteration \<Rightarrow> fire_outcome list \<times> turn" where
  "iterate it =
     (case run_with_sync (i_sync it) (i_body it) of
        (exc, fires, started) \<Rightarrow>
          if exc = Some ECancelled then (fires, CancelledTask)
          else (fires @ (case exc of
                     Some EWouldBlock \<Rightarrow> [SKIPPED]
                   | Some EOther \<Rightarrow> if started then [] else [COORDINATION_ERROR]
                   | _ \<Rightarrow> []),
                if i_cancelling it then CancelledTask else if i_stop it then Stopped else Next))"

fun interval_call :: "iteration list \<Rightarrow> interval_task \<Rightarrow> fire_outcome list \<times> turn \<times> interval_task" where
  "interval_call [] task = ([], Next, task)"
| "interval_call (it # its) task =
     (case iterate it of
        (fires, t) \<Rightarrow>
          let task1 = task\<lparr>it_last_fire := (if fires = [] then it_last_fire task else Some (last fires))\<rparr>
          in (case t of
                Next \<Rightarrow> (case interval_call its task1 of (fs, t1, task2) \<Rightarrow> (fires @ fs, t1, task2))
              | _ \<Rightarrow> (fires, t, task1)))"

section \<open>Guarantees\<close>

text \<open>The primitives raise what they document: none says that a lock is not owned when it is entered, none would block when it is left.\<close>

definition primitives_ok :: "iteration \<Rightarrow> bool" where
  "primitives_ok it = list_all (\<lambda>(en, lv). en \<noteq> Some ELockNotOwned \<and> en \<noteq> Some ECancelled \<and> lv \<noteq> Some EWouldBlock \<and> lv \<noteq> Some ECancelled) (i_sync it)"

definition body_reached :: "iteration \<Rightarrow> bool" where
  "body_reached it = list_all (\<lambda>(en, lv). en = None) (i_sync it)"

lemma run_with_sync_reached:
  "list_all (\<lambda>(en, lv). en = None) ps \<Longrightarrow>
   snd (run_with_sync ps b) = (case b of BReturned \<Rightarrow> [SUCCESS] | _ \<Rightarrow> [ERROR], True) \<and>
   (list_all (\<lambda>(en, lv). lv \<noteq> Some EWouldBlock \<and> lv \<noteq> Some ECancelled) ps \<longrightarrow> b \<noteq> BCancelled \<longrightarrow> fst (run_with_sync ps b) \<notin> {Some EWouldBlock, Some ECancelled})"
  by (induction ps) (auto split: body_end.splits option.splits prod.splits)

lemma run_with_sync_refused:
  "\<not> list_all (\<lambda>(en, lv). en = None) ps \<Longrightarrow>
   snd (run_with_sync ps b) = ([], False) \<and> (\<exists>e. fst (run_with_sync ps b) = Some e \<and> (list_ex (\<lambda>(en, lv). en = Some e) ps \<or> list_ex (\<lambda>(en, lv). lv = Some e) ps))"
proof (induction ps)
  case (Cons x ps)
  obtain en lv where x: "x = (en, lv)" by (cases x)
  show ?case
  proof (cases en)
    case None
    then obtain e where e: "run_with_sync ps b = (Some e, [], False)" "list_ex (\<lambda>(en, lv). en = Some e) ps \<or> list_ex (\<lambda>(en, lv). lv = Some e) ps"
      using Cons by (cases "run_with_sync ps b") (auto simp: x)
    then show ?thesis using None by (cases lv) (auto simp: x)
  qed (simp add: x)
qed simp

text \<open>Every turn of the loop reports exactly one fire, that of its body when it ran, however entering and leaving the primitives goes; unless leaving a
  primitive that was entered raised that a lock is not owned although the body was never reached.\<close>

theorem interval_reports_once:
  assumes "primitives_ok it" "i_body it \<noteq> BCancelled"
  shows "(if body_reached it then fst (iterate it) = [if i_body it = BReturned then SUCCESS else ERROR]
     else fst (iterate it) \<in> {[SKIPPED], [COORDINATION_ERROR]} \<or> fst (iterate it) = [] \<and> list_ex (\<lambda>(en, lv). lv = Some ELockNotOwned) (i_sync it)) \<and>
    snd (iterate it) = (if i_cancelling it then CancelledTask else if i_stop it then Stopped else Next)"
proof -
  obtain exc fires started where r: "run_with_sync (i_sync it) (i_body it) = (exc, fires, started)" by (cases "run_with_sync (i_sync it) (i_body it)")
  show ?thesis
  proof (cases "body_reached it")
    case True
    have "list_all (\<lambda>(en, lv). lv \<noteq> Some EWouldBlock \<and> lv \<noteq> Some ECancelled) (i_sync it)" using assms(1) by (auto simp: primitives_ok_def list_all_iff)
    then have "exc \<notin> {Some EWouldBlock, Some ECancelled}" "fires = [if i_body it = BReturned then SUCCESS else ERROR]" "started"
      using run_with_sync_reached [of "i_sync it" "i_body it"] True assms(2) r by (auto simp: body_reached_def split: body_end.splits)
    then show ?thesis using True r by (auto simp: iterate_def split: option.splits task_exc.splits)
  next
    case False
    obtain e where e: "exc = Some e" "fires = []" "\<not> started" "list_ex (\<lambda>(en, lv). en = Some e) (i_sync it) \<or> list_ex (\<lambda>(en, lv). lv = Some e) (i_sync it)"
      using run_with_sync_refused [of "i_sync it" "i_body it"] False r by (auto simp: body_reached_def)
    then have "e \<noteq> ECancelled" "e = ELockNotOwned \<Longrightarrow> list_ex (\<lambda>(en, lv). lv = Some ELockNotOwned) (i_sync it)"
      using assms(1) by (auto simp: primitives_ok_def list_all_iff list_ex_iff)
    then show ?thesis using False r e(1-3) by (cases e) (simp_all add: iterate_def)
  qed
qed

theorem interval_reports_once_witness:
  "iterate \<lparr>i_sync = [(None, None), (Some EWouldBlock, None)], i_body = BReturned, i_cancelling = False, i_stop = False\<rparr> = ([SKIPPED], Next)"
  using interval_reports_once [of "\<lparr>i_sync = [(None, None), (Some EWouldBlock, None)], i_body = BReturned, i_cancelling = False, i_stop = False\<rparr>"]
  by (simp add: primitives_ok_def body_reached_def iterate_def)




text \<open>
  With a lock that keeps its defaults the constructor accepts an interval of a minute, and two workers both run the task within it: the lock is held for
  one second.
\<close>

definition default_lock :: "nat \<Rightarrow> task_lock" where
  "default_lock p = task_lock_setup ''default'' \<lparr>tc_worker = ''w'', tc_min_hold = 1, tc_lease = 60\<rparr> (show_nat p) '':0.a''"

definition minute_lock :: "nat \<Rightarrow> task_lock" where
  "minute_lock p = with_name '':0.a'' ''t'' (default_lock p)"

theorem interval_lock_runs_twice:
  "resolve_task_lock w '':0.a'' ''t'' (Some (default_lock p)) 60 = Inr (minute_lock p) \<and>
   \<not> starts_apart 60 (tw_starts (task_run MemoryLockAdapter two_workers (task_init (\<lambda>p. 9) minute_lock memory_lock_init)))"
proof
  show "resolve_task_lock w '':0.a'' ''t'' (Some (default_lock p)) 60 = Inr (minute_lock p)"
    by (simp add: resolve_task_lock_def minute_lock_def default_lock_def task_lock_setup_def)
  show "\<not> starts_apart 60 (tw_starts (task_run MemoryLockAdapter two_workers (task_init (\<lambda>p. 9) minute_lock memory_lock_init)))" by code_simp
qed

end
