(* ===== verification/Health.thy ===== *)
theory Health
  imports Text "HOL-Library.List_Lexorder" "HOL-Library.Char_ord"
begin

text \<open>
  Health checks (\<open>health/_checks.py\<close>): registration, the outcome of a check, selection and aggregation of a report, and the slot of a check with its
  cached result, over any interleaving of concurrent callers, completions and cancellations: one run at a time, none within a lifetime of the cache after
  one that completed, fresh answers, and no caller that waits for nothing. A run is the await of the check by the caller that leads it: the thread of a
  synchronous check goes on after the timeout or the cancellation of its run and is not part of the model.
\<close>

section \<open>Results\<close>

datatype health_status = HealthOk | HealthError

record 'd check_result =
  cr_status :: health_status
  cr_critical :: bool
  cr_error :: "string option"
  cr_details :: "'d option"

record health_entry =
  he_func :: nat
  he_critical :: bool
  he_timeout :: seconds

record health_config =
  hc_timeout :: seconds
  hc_cache_ttl :: seconds

definition validate_health_config :: "health_config \<Rightarrow> py_exc + health_config" where
  "validate_health_config c = (if hc_timeout c \<le> 0 \<or> hc_cache_ttl c < 0 then Inl ValueError else Inr c)"

text \<open>How awaiting the function under its timeout goes: it returns details, the timeout expires, it raises a \<open>HealthError\<close> or another exception.\<close>

datatype 'd check_end = CReturns "'d option" | CExpires | CUnhealthy string "'d option" | CRaises string string

text \<open>\<open>_run_check_inner\<close>; \<open>secs\<close> is the text of the timeout.\<close>

fun run_check_inner :: "string \<Rightarrow> string \<Rightarrow> health_entry \<Rightarrow> 'd check_end \<Rightarrow> 'd check_result" where
  "run_check_inner name secs e (CReturns d) = \<lparr>cr_status = HealthOk, cr_critical = he_critical e, cr_error = None, cr_details = d\<rparr>"
| "run_check_inner name secs e CExpires =
     \<lparr>cr_status = HealthError, cr_critical = he_critical e,
      cr_error = Some (''Health check '' @ [CHR 0x27] @ name @ [CHR 0x27] @ '' timed out after '' @ secs @ ''s''), cr_details = None\<rparr>"
| "run_check_inner name secs e (CUnhealthy msg d) = \<lparr>cr_status = HealthError, cr_critical = he_critical e, cr_error = Some msg, cr_details = d\<rparr>"
| "run_check_inner name secs e (CRaises typ msg) =
     \<lparr>cr_status = HealthError, cr_critical = he_critical e, cr_error = Some (typ @ '': '' @ msg), cr_details = None\<rparr>"

section \<open>Registration\<close>

definition check_name_char :: "char \<Rightarrow> bool" where
  "check_name_char c \<longleftrightarrow> is_digit c \<or> 97 \<le> (of_char c :: nat) \<and> (of_char c :: nat) \<le> 122"

text \<open>\<open>_NAME_PATTERN.match\<close>: \<open>$\<close> also matches before a newline at the end.\<close>

definition check_name_match :: "string \<Rightarrow> bool" where
  "check_name_match s =
     (case s of [] \<Rightarrow> False
      | c # cs \<Rightarrow>
          let tail = (\<lambda>x. check_name_char x \<or> x \<in> set '':_-'')
          in check_name_char c \<and> (list_all tail cs \<or> cs \<noteq> [] \<and> last cs = CHR 0x0A \<and> list_all tail (butlast cs)))"

definition NAME_MAX_LEN :: nat where
  "NAME_MAX_LEN = 64"

type_synonym health_registry = "(string \<times> health_entry) list"

definition health_add :: "health_config \<Rightarrow> string \<Rightarrow> nat \<Rightarrow> bool \<Rightarrow> seconds option \<Rightarrow> health_registry \<Rightarrow> py_exc + health_registry" where
  "health_add config name func critical timeout reg =
     (if name = [] \<or> NAME_MAX_LEN < length name \<or> \<not> check_name_match name then Inl ValueError
      else if name \<in> fst ` set reg then Inl ValueError
      else Inr (sort_key fst (reg @ [(name, \<lparr>he_func = func, he_critical = critical, he_timeout = (case timeout of None \<Rightarrow> hc_timeout config | Some t \<Rightarrow> t)\<rparr>)])))"

text \<open>A provider: its short name and its check, if it ships one.\<close>

type_synonym provider = "string \<times> nat option"

definition add_provider :: "health_config \<Rightarrow> provider \<Rightarrow> string option \<Rightarrow> bool \<Rightarrow> seconds option \<Rightarrow> health_registry \<Rightarrow> py_exc + health_registry" where
  "add_provider config p name critical timeout reg =
     (case snd p of
        None \<Rightarrow> Inl ValueError
      | Some check \<Rightarrow>
          health_add config (''provider:'' @ (case name of None \<Rightarrow> fst p | Some n \<Rightarrow> if n = [] then fst p else n)) check critical timeout reg)"

fun register_active_providers :: "health_config \<Rightarrow> provider list \<Rightarrow> health_registry \<Rightarrow> py_exc + health_registry" where
  "register_active_providers config [] reg = Inr reg"
| "register_active_providers config (p # ps) reg =
     (case snd p of
        None \<Rightarrow> register_active_providers config ps reg
      | Some check \<Rightarrow>
          if list_ex (\<lambda>(n, e). he_func e = check) reg then register_active_providers config ps reg
          else if ''provider:'' @ fst p \<in> fst ` set reg then register_active_providers config ps reg
          else (case health_add config (''provider:'' @ fst p) check True None reg of
              Inl x \<Rightarrow> Inl x
            | Inr reg1 \<Rightarrow> register_active_providers config ps reg1))"

section \<open>Reports\<close>

definition aggregate_status :: "'d check_result list \<Rightarrow> health_status" where
  "aggregate_status rs = (if list_ex (\<lambda>r. cr_status r = HealthError \<and> cr_critical r) rs then HealthError else HealthOk)"

definition selected :: "bool \<Rightarrow> string set \<Rightarrow> health_registry \<Rightarrow> health_registry" where
  "selected critical_only exclude reg = filter (\<lambda>(n, e). n \<notin> exclude \<and> (\<not> critical_only \<or> he_critical e)) reg"

record 'd health_report =
  hr_status :: health_status
  hr_checks :: "(string \<times> 'd check_result) list"

text \<open>\<open>run\<close>, given the answer of each check.\<close>

definition health_run :: "bool \<Rightarrow> string set \<Rightarrow> (string \<Rightarrow> 'd check_result) \<Rightarrow> health_registry \<Rightarrow> 'd health_report" where
  "health_run critical_only exclude results reg =
     (let sel = selected critical_only exclude reg
      in if sel = [] then \<lparr>hr_status = HealthOk, hr_checks = []\<rparr>
         else let ordered = map (\<lambda>(n, e). (n, results n)) sel
              in \<lparr>hr_status = aggregate_status (map snd ordered), hr_checks = ordered\<rparr>)"

section \<open>One check, many callers\<close>

text \<open>A caller that has not tested the slot yet, one that waits for an event, one that runs the check, one that has its answer, one that was cancelled.\<close>

datatype 'r call_state = NotYet | Waits nat | Leads nat | Answered 'r seconds | Dropped

text \<open>A run begins, and completes with its result or breaks off with the cancellation of its caller.\<close>

datatype 'r run_log = Began seconds | Ended seconds 'r | Broke seconds

record 'r check_slot =
  cached_result :: "'r option"
  cached_at :: seconds
  inflight :: "nat option"
  callers :: "nat \<Rightarrow> 'r call_state"
  events_set :: "nat set"
  next_event :: nat
  run_logs :: "'r run_log list"

definition slot_init :: "'r check_slot" where
  "slot_init = \<lparr>cached_result = None, cached_at = 0, inflight = None, callers = (\<lambda>i. NotYet), events_set = {}, next_event = 0, run_logs = []\<rparr>"

text \<open>The body of the loop of \<open>_get_or_run\<close> up to where it suspends or returns.\<close>

definition slot_test :: "seconds \<Rightarrow> seconds \<Rightarrow> nat \<Rightarrow> 'r check_slot \<Rightarrow> 'r check_slot" where
  "slot_test ttl now i s =
     (case (if 0 < ttl \<and> now - cached_at s < ttl then cached_result s else None) of
        Some r \<Rightarrow> s\<lparr>callers := (callers s)(i := Answered r now)\<rparr>
      | None \<Rightarrow>
          (case inflight s of
             Some ev \<Rightarrow> s\<lparr>callers := (callers s)(i := Waits ev)\<rparr>
           | None \<Rightarrow> s\<lparr>inflight := Some (next_event s), callers := (callers s)(i := Leads (next_event s)), next_event := Suc (next_event s),
               run_logs := Began now # run_logs s\<rparr>))"

datatype 'r slot_event = Poll nat | Finish nat 'r | Cancel nat

fun slot_step :: "seconds \<Rightarrow> seconds \<times> 'r slot_event \<Rightarrow> 'r check_slot \<Rightarrow> 'r check_slot" where
  "slot_step ttl (now, Poll i) s =
     (case callers s i of
        NotYet \<Rightarrow> slot_test ttl now i s
      | Waits ev \<Rightarrow> if ev \<in> events_set s then slot_test ttl now i s else s
      | _ \<Rightarrow> s)"
| "slot_step ttl (now, Finish i r) s =
     (case callers s i of
        Leads ev \<Rightarrow> s\<lparr>cached_result := Some r, cached_at := now, inflight := None, callers := (callers s)(i := Answered r now),
          events_set := insert ev (events_set s), run_logs := Ended now r # run_logs s\<rparr>
      | _ \<Rightarrow> s)"
| "slot_step ttl (now, Cancel i) s =
     (case callers s i of
        Leads ev \<Rightarrow> s\<lparr>inflight := None, callers := (callers s)(i := Dropped), events_set := insert ev (events_set s), run_logs := Broke now # run_logs s\<rparr>
      | Answered r t \<Rightarrow> s
      | _ \<Rightarrow> s\<lparr>callers := (callers s)(i := Dropped)\<rparr>)"

fun slot_run :: "seconds \<Rightarrow> (seconds \<times> 'r slot_event) list \<Rightarrow> 'r check_slot \<Rightarrow> 'r check_slot" where
  "slot_run ttl [] s = s"
| "slot_run ttl (x # xs) s = slot_run ttl xs (slot_step ttl x s)"

fun slot_clock :: "seconds \<Rightarrow> (seconds \<times> 'r slot_event) list \<Rightarrow> bool" where
  "slot_clock t [] = True"
| "slot_clock t ((t1, e) # xs) = (t \<le> t1 \<and> slot_clock t1 xs)"

text \<open>Logs are newest first; the run that is under way.\<close>

fun run_open :: "'r run_log list \<Rightarrow> bool" where
  "run_open (Began t # l) = True"
| "run_open _ = False"

text \<open>
  A run begins when no other is under way and every run that completed did so at least \<open>ttl\<close> before, and when one broke off its
  cancellation is past; a run ends once.
\<close>

fun runs_apart :: "seconds \<Rightarrow> 'r run_log list \<Rightarrow> bool" where
  "runs_apart ttl [] = True"
| "runs_apart ttl (Began t # l) =
     (\<not> run_open l \<and> (\<forall>u r. Ended u r \<in> set l \<longrightarrow> u + ttl \<le> t) \<and> (\<forall>u. Broke u \<in> set l \<longrightarrow> u \<le> t) \<and> runs_apart ttl l)"
| "runs_apart ttl (Ended t r # l) = (run_open l \<and> runs_apart ttl l)"
| "runs_apart ttl (Broke t # l) = (run_open l \<and> runs_apart ttl l)"

definition one_leader :: "'r check_slot \<Rightarrow> bool" where
  "one_leader s \<longleftrightarrow>
     (\<forall>i j ev e. callers s i = Leads ev \<longrightarrow> callers s j = Leads e \<longrightarrow> i = j) \<and> (\<forall>i ev. callers s i = Leads ev \<longrightarrow> inflight s = Some ev) \<and>
     (\<forall>ev. inflight s = Some ev \<longrightarrow> (\<exists>i. callers s i = Leads ev))"

definition none_lost :: "'r check_slot \<Rightarrow> bool" where
  "none_lost s \<longleftrightarrow> (\<forall>i ev. callers s i = Waits ev \<longrightarrow> ev \<in> events_set s \<or> inflight s = Some ev)"

definition cache_logged :: "seconds \<Rightarrow> 'r check_slot \<Rightarrow> bool" where
  "cache_logged t s \<longleftrightarrow>
     (\<forall>u r. Ended u r \<in> set (run_logs s) \<longrightarrow> u \<le> cached_at s \<and> cached_result s \<noteq> None) \<and>
     (\<forall>r. cached_result s = Some r \<longrightarrow> Ended (cached_at s) r \<in> set (run_logs s) \<and> cached_at s \<le> t) \<and>
     (\<forall>u. Broke u \<in> set (run_logs s) \<longrightarrow> u \<le> t) \<and> (run_open (run_logs s) \<longleftrightarrow> inflight s \<noteq> None)"

definition answers_fresh :: "seconds \<Rightarrow> 'r check_slot \<Rightarrow> bool" where
  "answers_fresh ttl s \<longleftrightarrow> (\<forall>i r u. callers s i = Answered r u \<longrightarrow> (\<exists>f. Ended f r \<in> set (run_logs s) \<and> (f = u \<or> u < f + ttl)))"

definition slot_inv :: "seconds \<Rightarrow> seconds \<Rightarrow> 'r check_slot \<Rightarrow> bool" where
  "slot_inv ttl t s \<longleftrightarrow> one_leader s \<and> none_lost s \<and> cache_logged t s \<and> answers_fresh ttl s \<and> (0 < ttl \<longrightarrow> runs_apart ttl (run_logs s))"

lemmas slot_parts = one_leader_def none_lost_def cache_logged_def answers_fresh_def

lemma slot_inv_init: "slot_inv ttl t slot_init"
  by (simp add: slot_inv_def slot_parts slot_init_def)

lemma slot_inv_later: "slot_inv ttl t s \<Longrightarrow> t \<le> t' \<Longrightarrow> slot_inv ttl t' s"
  unfolding slot_inv_def cache_logged_def by fastforce

lemma one_leader_other:
  assumes "one_leader s" "\<And>ev. callers s i \<noteq> Leads ev" "\<And>ev. c \<noteq> Leads ev"
  shows "one_leader (s\<lparr>callers := (callers s)(i := c)\<rparr>)"
proof -
  have "((callers s)(i := c)) j = Leads ev \<longleftrightarrow> callers s j = Leads ev" for j ev using assms(2,3) by auto
  then show ?thesis using assms(1) by (simp add: one_leader_def del: fun_upd_apply)
qed

lemma slot_inv_drop:
  assumes "slot_inv ttl t s" "\<And>ev. callers s i \<noteq> Leads ev"
  shows "slot_inv ttl t (s\<lparr>callers := (callers s)(i := Dropped)\<rparr>)"
  using assms one_leader_other [of s i Dropped] by (simp add: slot_inv_def none_lost_def cache_logged_def answers_fresh_def)

lemma slot_test_inv:
  assumes "slot_inv ttl t s" "\<And>ev. callers s i \<noteq> Leads ev" "t \<le> now"
  shows "slot_inv ttl now (slot_test ttl now i s)"
proof -
  have p: "one_leader s" "none_lost s" "cache_logged now s" "answers_fresh ttl s" "0 < ttl \<longrightarrow> runs_apart ttl (run_logs s)"
    using slot_inv_later [OF assms(1,3)] by (simp_all add: slot_inv_def)
  show ?thesis
  proof (cases "if 0 < ttl \<and> now - cached_at s < ttl then cached_result s else None")
    case (Some r)
    then have r: "now - cached_at s < ttl" "cached_result s = Some r" by (auto split: if_splits)
    let ?s = "s\<lparr>callers := (callers s)(i := Answered r now)\<rparr>"
    have s: "slot_test ttl now i s = ?s" using Some by (simp add: slot_test_def)
    have "one_leader ?s" by (rule one_leader_other [OF p(1) assms(2)]) simp
    moreover have "none_lost ?s" using p(2) by (simp add: none_lost_def)
    moreover have "cache_logged now ?s" using p(3) by (simp add: cache_logged_def)
    moreover have "Ended (cached_at s) r \<in> set (run_logs s)" "now < cached_at s + ttl" using p(3) r by (auto simp: cache_logged_def)
    then have "answers_fresh ttl ?s" using p(4) by (auto simp: answers_fresh_def)
    ultimately show ?thesis using p(5) by (simp add: slot_inv_def s)
  next
    case None
    note test = None
    show ?thesis
    proof (cases "inflight s")
      case (Some ev)
      let ?s = "s\<lparr>callers := (callers s)(i := Waits ev)\<rparr>"
      have s: "slot_test ttl now i s = ?s" using test Some by (simp add: slot_test_def)
      have "one_leader ?s" by (rule one_leader_other [OF p(1) assms(2)]) simp
      moreover have "none_lost ?s" using p(2) Some by (simp add: none_lost_def)
      moreover have "cache_logged now ?s" using p(3) by (simp add: cache_logged_def)
      moreover have "answers_fresh ttl ?s" using p(4) by (simp add: answers_fresh_def)
      ultimately show ?thesis using p(5) by (simp add: slot_inv_def s)
    next
      case None
      let ?n = "next_event s"
      let ?s = "s\<lparr>inflight := Some ?n, callers := (callers s)(i := Leads ?n), next_event := Suc ?n, run_logs := Began now # run_logs s\<rparr>"
      have s: "slot_test ttl now i s = ?s" using test None by (simp add: slot_test_def)
      have nl: "callers s j \<noteq> Leads ev" for j ev using p(1) None by (auto simp: one_leader_def)
      have "one_leader ?s" using nl by (simp add: one_leader_def)
      moreover have "none_lost ?s" using p(2) None by (simp add: none_lost_def)
      moreover have "cache_logged now ?s" using p(3) by (simp add: cache_logged_def)
      moreover have "answers_fresh ttl ?s" using p(4) by (simp add: answers_fresh_def)
      moreover have "u + ttl \<le> now" if "Ended u r \<in> set (run_logs s)" "0 < ttl" for u r
        using test p(3) that by (fastforce simp: cache_logged_def split: if_splits)
      moreover have "\<not> run_open (run_logs s)" "\<forall>u. Broke u \<in> set (run_logs s) \<longrightarrow> u \<le> now" using p(3) None by (simp_all add: cache_logged_def)
      ultimately show ?thesis using p(5) by (auto simp: slot_inv_def s)
    qed
  qed
qed

lemma slot_step_inv:
  assumes "slot_inv ttl t s" "t \<le> now"
  shows "slot_inv ttl now (slot_step ttl (now, e) s)"
proof -
  note later = slot_inv_later [OF assms]
  then have p: "one_leader s" "none_lost s" "cache_logged now s" "answers_fresh ttl s" "0 < ttl \<longrightarrow> runs_apart ttl (run_logs s)" by (simp_all add: slot_inv_def)
  show ?thesis
  proof (cases e)
    case (Poll i)
    then show ?thesis using slot_test_inv [OF assms(1) _ assms(2)] later by (simp split: call_state.split)
  next
    case (Finish i r)
    show ?thesis
    proof (cases "callers s i")
      case (Leads ev)
      let ?s = "s\<lparr>cached_result := Some r, cached_at := now, inflight := None, callers := (callers s)(i := Answered r now),
          events_set := insert ev (events_set s), run_logs := Ended now r # run_logs s\<rparr>"
      have nl: "callers s j \<noteq> Leads e" if "j \<noteq> i" for j e using p(1) Leads that by (auto simp: one_leader_def)
      have in1: "inflight s = Some ev" using p(1) Leads by (simp add: one_leader_def)
      have "one_leader ?s" using nl by (auto simp: one_leader_def)
      moreover have "none_lost ?s" using p(2) in1 by (auto simp: none_lost_def)
      moreover have "u \<le> now" if "Ended u x \<in> set (run_logs s)" for u x using p(3) that by (fastforce simp: cache_logged_def)
      then have "cache_logged now ?s" using p(3) by (auto simp: cache_logged_def)
      moreover have "answers_fresh ttl ?s" using p(4) by (fastforce simp: answers_fresh_def)
      moreover have "run_open (run_logs s)" using p(3) in1 by (simp add: cache_logged_def)
      ultimately show ?thesis using p(5) Finish Leads by (simp add: slot_inv_def)
    qed (use later Finish in simp_all)
  next
    case (Cancel i)
    show ?thesis
    proof (cases "callers s i")
      case (Leads ev)
      let ?s = "s\<lparr>inflight := None, callers := (callers s)(i := Dropped), events_set := insert ev (events_set s), run_logs := Broke now # run_logs s\<rparr>"
      have nl: "callers s j \<noteq> Leads e" if "j \<noteq> i" for j e using p(1) Leads that by (auto simp: one_leader_def)
      have in1: "inflight s = Some ev" using p(1) Leads by (simp add: one_leader_def)
      have "one_leader ?s" using nl by (auto simp: one_leader_def)
      moreover have "none_lost ?s" using p(2) in1 by (auto simp: none_lost_def)
      moreover have "cache_logged now ?s" using p(3) by (auto simp: cache_logged_def)
      moreover have "answers_fresh ttl ?s" using p(4) by (simp add: answers_fresh_def)
      moreover have "run_open (run_logs s)" using p(3) in1 by (simp add: cache_logged_def)
      ultimately show ?thesis using p(5) Cancel Leads by (simp add: slot_inv_def)
    next
      case (Answered r u)
      then show ?thesis using later Cancel by simp
    next
      case NotYet
      then show ?thesis using Cancel slot_inv_drop [OF later, of i] by simp
    next
      case (Waits ev)
      then show ?thesis using Cancel slot_inv_drop [OF later, of i] by simp
    next
      case Dropped
      then have "(callers s)(i := Dropped) = callers s" by auto
      then show ?thesis using later Cancel Dropped by simp
    qed
  qed
qed

lemma slot_run_inv: "slot_inv ttl t s \<Longrightarrow> slot_clock t es \<Longrightarrow> \<exists>t'. slot_inv ttl t' (slot_run ttl es s)"
proof (induction es arbitrary: t s)
  case (Cons x es)
  obtain t1 e where x: "x = (t1, e)" by (cases x)
  then show ?case using Cons.IH [OF slot_step_inv [OF Cons.prems(1)], of t1 e] Cons.prems(2) by simp
qed auto

section \<open>Guarantees\<close>

text \<open>C36. With a lifetime of the cache above zero, however the callers of a check arrive, wait and are cancelled: one of them at a time runs the check, each
  run completes or breaks off with its caller before the next begins, none begins within a lifetime after a run that completed, and every caller gets the
  result of its own run or of one that completed within the lifetime before its answer. A run that breaks off leaves no result: the next caller runs the
  check again at once.\<close>

theorem health_runs_apart:
  assumes "slot_clock t es" "0 < ttl" "s = slot_run ttl es slot_init"
  shows "runs_apart ttl (run_logs s) \<and> (\<forall>i j ev e. callers s i = Leads ev \<longrightarrow> callers s j = Leads e \<longrightarrow> i = j) \<and>
    (\<forall>i r u. callers s i = Answered r u \<longrightarrow> (\<exists>f. Ended f r \<in> set (run_logs s) \<and> (f = u \<or> u < f + ttl)))"
  using slot_run_inv [OF slot_inv_init assms(1)] assms(2,3) unfolding slot_inv_def one_leader_def answers_fresh_def by blast

text \<open>C37. No caller waits for nothing: the run it waits for is under way, or is over and has woken it, also when the caller that ran the check was
  cancelled.\<close>

theorem health_waits_end:
  assumes "slot_clock t es" "s = slot_run ttl es slot_init" "callers s i = Waits ev"
  shows "ev \<in> events_set s \<or> (\<exists>j. callers s j = Leads ev)"
  using slot_run_inv [OF slot_inv_init assms(1)] assms(2,3) unfolding slot_inv_def one_leader_def none_lost_def by metis

text \<open>The registry is kept in the order of the names, each once.\<close>

lemma health_add_sorted:
  assumes "sorted (map fst reg)" "distinct (map fst reg)" "health_add c n f cr to reg = Inr reg'"
  shows "sorted (map fst reg') \<and> distinct (map fst reg') \<and> fst ` set reg' = insert n (fst ` set reg)"
proof -
  obtain e where r: "reg' = sort_key fst (reg @ [(n, e)])" "n \<notin> fst ` set reg" using assms(3) by (auto simp: health_add_def split: if_splits)
  have "distinct (map fst (reg @ [(n, e)]))" using assms(2) r(2) by (auto simp: image_iff)
  then have "distinct (map fst reg')" by (auto simp: r(1) distinct_map image_iff)
  then show ?thesis by (auto simp: r(1))
qed

lemma register_sorted:
  "sorted (map fst reg) \<Longrightarrow> distinct (map fst reg) \<Longrightarrow> register_active_providers c ps reg = Inr reg' \<Longrightarrow>
   sorted (map fst reg') \<and> distinct (map fst reg') \<and> fst ` set reg \<subseteq> fst ` set reg'"
proof (induction c ps reg rule: register_active_providers.induct)
  case (2 c p ps reg)
  show ?case
  proof (cases "\<exists>check reg1. snd p = Some check \<and> \<not> list_ex (\<lambda>(n, e). he_func e = check) reg \<and> ''provider:'' @ fst p \<notin> fst ` set reg \<and>
      health_add c (''provider:'' @ fst p) check True None reg = Inr reg1")
    case True
    then obtain check reg1 where k: "snd p = Some check" "\<not> list_ex (\<lambda>(n, e). he_func e = check) reg" "''provider:'' @ fst p \<notin> fst ` set reg"
      "health_add c (''provider:'' @ fst p) check True None reg = Inr reg1" by blast
    note add = health_add_sorted [OF 2(5,6) k(4)]
    have "register_active_providers c ps reg1 = Inr reg'" using 2(7) k by simp
    then show ?thesis using 2(4) [OF k] add by auto
  next
    case False
    then show ?thesis using 2 by (auto split: option.splits if_splits sum.splits)
  qed
qed simp

text \<open>C38. A report has the checks that were asked for, in the order of their names, and its status is an error exactly when a critical check that is not
  excluded failed, whether or not the others are run.\<close>

theorem health_report_exact:
  assumes "\<And>n e. (n, e) \<in> set reg \<Longrightarrow> cr_critical (results n) = he_critical e"
  shows "map fst (hr_checks (health_run critical_only exclude results reg)) = map fst (filter (\<lambda>(n, e). n \<notin> exclude \<and> (\<not> critical_only \<or> he_critical e)) reg) \<and>
    (hr_status (health_run critical_only exclude results reg) = HealthError \<longleftrightarrow>
      (\<exists>n e. (n, e) \<in> set reg \<and> n \<notin> exclude \<and> he_critical e \<and> cr_status (results n) = HealthError))"
proof -
  let ?sel = "selected critical_only exclude reg" and ?r = "health_run critical_only exclude results reg"
  let ?ordered = "map (\<lambda>(n, e). (n, results n)) ?sel"
  have r: "hr_checks ?r = ?ordered" "hr_status ?r = aggregate_status (map snd ?ordered)" by (cases "?sel = []"; simp add: health_run_def aggregate_status_def Let_def)+
  have "list_ex (\<lambda>r. cr_status r = HealthError \<and> cr_critical r) (map snd ?ordered) \<longleftrightarrow>
    (\<exists>n e. (n, e) \<in> set reg \<and> n \<notin> exclude \<and> he_critical e \<and> cr_status (results n) = HealthError)"
    using assms by (fastforce simp: list_ex_iff selected_def)
  moreover have "map fst ?ordered = map fst ?sel" by (simp add: o_def split_beta)
  ultimately show ?thesis unfolding r aggregate_status_def by (simp add: selected_def)
qed

section \<open>Examples\<close>

text \<open>Two callers arrive while the first runs the check; it is cancelled and the second runs it again; a fourth comes within the second after the end.\<close>

definition three_callers :: "(seconds \<times> bool slot_event) list" where
  "three_callers = [(0, Poll 0), (1, Poll 1), (1, Poll 2), (2, Cancel 2), (3, Cancel 0), (3, Poll 1), (5, Finish 1 True), (5.5, Poll 3), (7, Poll 4)]"

lemma three_callers_slot:
  "run_logs (slot_run 1 three_callers slot_init) = [Began 7, Ended 5 True, Began 3, Broke 3, Began 0]"
  "callers (slot_run 1 three_callers slot_init) 3 = Answered True 5.5"
  by code_simp+

theorem health_runs_apart_witness:
  "runs_apart 1 [Began 7, Ended 5 True, Began 3, Broke 3, Began 0] \<and> callers (slot_run 1 three_callers slot_init) 3 = Answered True 5.5"
proof -
  have "slot_clock 0 three_callers" by (simp add: three_callers_def)
  from health_runs_apart [OF this _ refl, of 1] have "runs_apart 1 (run_logs (slot_run 1 three_callers slot_init))" by simp
  then show ?thesis using three_callers_slot by simp
qed

definition one_waits :: "(seconds \<times> bool slot_event) list" where
  "one_waits = [(0, Poll 0), (1, Poll 1)]"

theorem health_waits_end_witness: "\<exists>j. callers (slot_run 1 one_waits slot_init) j = Leads 0"
proof -
  have "slot_clock 0 one_waits" "callers (slot_run 1 one_waits slot_init) 1 = Waits 0" "0 \<notin> events_set (slot_run 1 one_waits slot_init)" by code_simp+
  then show ?thesis using health_waits_end [OF _ refl] by blast
qed

definition example_results :: "string \<Rightarrow> nat check_result" where
  "example_results n = \<lparr>cr_status = (if n = ''a'' then HealthError else HealthOk), cr_critical = (n = ''b''), cr_error = None, cr_details = None\<rparr>"

definition example_registry :: health_registry where
  "example_registry = [(''a'', \<lparr>he_func = 0, he_critical = False, he_timeout = 5\<rparr>), (''b'', \<lparr>he_func = 1, he_critical = True, he_timeout = 5\<rparr>)]"

lemma example_critical: "(n, e) \<in> set example_registry \<Longrightarrow> he_critical e = (n = ''b'')"
  by (auto simp: example_registry_def)

theorem health_report_exact_witness: "hr_status (health_run False {} example_results example_registry) = HealthOk"
proof -
  have "cr_critical (example_results n) = he_critical e" if "(n, e) \<in> set example_registry" for n e
    using example_critical [OF that] by (simp add: example_results_def)
  from health_report_exact [of example_registry example_results False "{}", OF this]
  have "hr_status (health_run False {} example_results example_registry) = HealthError \<longleftrightarrow>
    (\<exists>n e. (n, e) \<in> set example_registry \<and> n \<notin> {} \<and> he_critical e \<and> cr_status (example_results n) = HealthError)" by blast
  moreover have "cr_status (example_results n) = HealthOk" if "(n, e) \<in> set example_registry" "he_critical e" for n e
    using example_critical [OF that(1)] that(2) by (simp add: example_results_def)
  ultimately show ?thesis by (metis health_status.distinct(1) health_status.exhaust)
qed

text \<open>With a lifetime of zero callers that come together run the check one after the other, each a run of its own.\<close>

definition no_caching :: "(seconds \<times> bool slot_event) list" where
  "no_caching = [(0, Poll 0), (0, Poll 1), (0, Poll 2), (5, Finish 0 True), (5, Poll 1), (5, Poll 2), (10, Finish 1 True), (10, Poll 2), (15, Finish 2 True)]"

theorem health_no_cache_serial:
  "run_logs (slot_run 0 no_caching slot_init) = [Ended 15 True, Began 10, Ended 10 True, Began 5, Ended 5 True, Began 0] \<and>
   callers (slot_run 0 no_caching slot_init) 2 = Answered True 15"
  by code_simp

text \<open>After a cancelled run the check is run again well within the lifetime, by a caller that had come before the cancellation.\<close>

theorem health_cancelled_run_repeats:
  "run_logs (slot_run 1 [(0, Poll 0), (1 / 10, Poll 1), (1 / 5, Cancel 0), (1 / 5, Poll 1)] slot_init) = ([Began (1 / 5), Broke (1 / 5), Began 0] :: bool run_log list)"
  by code_simp

text \<open>A name that ends in a newline is accepted.\<close>

theorem health_name_newline: "\<exists>reg. health_add c (''redis'' @ [CHR 0x0A]) f True None [] = Inr reg"
proof -
  have "check_name_match (''redis'' @ [CHR 0x0A])" by code_simp
  then show ?thesis by (simp add: health_add_def NAME_MAX_LEN_def)
qed

end
