(* ===== verification/Spec2Isabelle.thy ===== *)
theory Spec2Isabelle
  imports Lock_Client Tokens Sql_Lock Redis_Lock Store_Adapters Rate_Limiter Breaker_Client Cron_Task Leader Retry Bulkhead
    Cache_Memory Sql_Cache Redis_Cache Cache_Client Stampede Sql_Outbox Idempotency Shield
    Redis_Rate Redis_Breaker Kube_Election Client_Address Interval_Task Health
begin

text \<open>
  \<^bold>\<open>grelmicro: a verification development.\<close>

  grelmicro (\<open>src/grelmicro\<close>) is a Python toolkit for microservices: coordination between workers
  (locks, leader election, schedules), resilience around calls (rate limiters, circuit breakers,
  retries, bulkheads), tasks, caching, an outbox, idempotency, health, logging. A component is split
  in a client class with the policy and a backend with the shared state; the backends are
  interchangeable adapters (memory, Redis, Postgres, SQLite, Kubernetes) of one protocol. The
  development follows that split: the protocol of a backend is a record of functions with a locale that
  states what the protocol's documentation promises, the adapters are defined operation by operation and
  interpret the locale, and the client's properties are proved in the locale.

  \<^bold>\<open>Conventions.\<close> A class is a record, an enumeration or a union a datatype, a dictionary an association
  list in insertion order (theory \<open>Prelude\<close>), an exception a value of a sum type. Each reading of a clock
  is an argument, in the order in which the code reads; floating point numbers are reals, so rounding
  errors are outside the model. A coroutine is a function on the state it shares; where it suspends and
  others may act, the suspension is a step boundary (runs are lists of steps) or an argument (what the
  others did in the meantime). A loop that waits takes the list of its wake-ups and answers \<open>None\<close> when
  they do not suffice, so that returning is a statement of its own.

  \<^bold>\<open>Locks\<close> (\<open>coordination/_protocol.py\<close>, \<open>memory.py\<close>, \<open>lock.py\<close>, \<open>_tokens.py\<close>, \<open>_base.py\<close>).
  \<open>Lock_Contract\<close>: the calls of \<open>LockBackend\<close> as a record, runs of requests on it and the locale
  \<open>lock_backend_laws\<close> with the consequences of the contract for every run: fencing tokens are ordered and a
  lease excludes others. Its parameters are the instants a lease lasts to, the lock names and the durations
  an adapter serves, so that it fits clocks of different grain; two adapters of the contract with the same
  leases answer every call alike. \<open>Memory_Lock\<close>: \<open>MemoryLockAdapter\<close>, which interprets the locale. \<open>Text\<close> and
  \<open>Tokens\<close>: text helpers, worker identities and ownership tokens. \<open>Lock_Client\<close>: the class \<open>Lock\<close>: checks,
  the acquire loop with its deadline, extend, release, the re-entrancy marker and the thread variants;
  the marker invariant is proved in the locale and used on the adapter.

  \<^bold>\<open>Coordination on servers\<close> (\<open>coordination/sqlite.py\<close>, \<open>postgres.py\<close>, \<open>redis.py\<close>). A statement or a script is one
  step on the tables or the keyspace. \<open>Sql_Lock\<close>: the lock adapters of SQLite and Postgres over the locale
  \<open>sql_clock\<close>; Postgres answers every call as the in-memory adapter, SQLite keeps leases by whole seconds. \<open>Redis_Store\<close>: the
  Redis commands that the scripts use. \<open>Redis_Lock\<close>: the lock scripts, with the leases in milliseconds.
  \<open>Store_Adapters\<close>: schedules on SQL and Redis, elections on Postgres and Redis, as refinements of the
  in-memory ones.

  \<^bold>\<open>Coordination on Kubernetes\<close> (\<open>coordination/kubernetes.py\<close>). A call is several requests to the API server, between which others
  act. \<open>Kube_Lease\<close>: the server with its resource versions, a call as a tree of requests and clock readings, runs in which the
  requests of any calls interleave, answers are lost and tasks die, and each client reads a clock of its own, off by at most a bound; the locale \<open>lease_clients\<close>, in which a condition on each
  program gives a chain of the writes of a run; the lock adapter, which interprets it: a lease excludes others, less the error
  of the clocks, and fencing tokens are ordered. \<open>Kube_Election\<close>: the election adapter, a second interpretation, and the release that deletes the lease of a successor.

  \<^bold>\<open>Rate limiting\<close> (\<open>resilience/ratelimiter/\<close>). \<open>Rate_Contract\<close>: the result type and the locale
  \<open>rate_strategy\<close>. \<open>Token_Bucket\<close> and \<open>Gcra\<close>: the in-memory token bucket and sliding window with their
  eviction; a bound on what any run grants, the exactness of \<open>retry_after\<close>, and where the code differs
  from its documentation. \<open>Rate_Limiter\<close>: the adapter that shares one dictionary per algorithm and the
  class \<open>RateLimiter\<close> with the fail-open policy and the waiting loop. \<open>Sql_Rate\<close>, \<open>Redis_Rate\<close>: the adapters of Postgres,
  SQLite and Redis, as refinements of the in-memory one by interpretations of the locale \<open>rate_simulation\<close>, although
  a key of Redis expires and Postgres counts the remainder in 32 bits; and transactions that overtake each other, which keep the rate on Postgres and not on SQLite.

  \<^bold>\<open>Circuit breaker\<close> (\<open>resilience/circuitbreaker/\<close>). \<open>Breaker_Store\<close>: the state machine of the in-memory
  adapter, the invariant of its counters, tripping, cooling down, recovery, and that breakers of one
  adapter do not interfere although they reclaim each other's expired entries. \<open>Breaker_Client\<close>: the class
  \<open>CircuitBreaker\<close> (admission, exit classification, cached state, isolate, reset, per-key circuits and
  their eviction, reconfiguration) over the locale \<open>breaker_backend_laws\<close>. \<open>Circuit\<close>: what the calls of the strategy mean
  on one circuit, and the locale \<open>circuit_store\<close> in which a store of circuits answers any run of calls as its circuits do.
  \<open>Sql_Breaker\<close>: Postgres and SQLite, interpretations of \<open>circuit_rows\<close> and so of \<open>circuit_store\<close>, their sweeps, which
  no caller sees, and the 32-bit counter that overflows. \<open>Redis_Breaker\<close>: the Lua scripts, which answer as the
  in-memory adapter while no key can expire, and the lifetime that falls below a manual cool-down.

  \<^bold>\<open>Retries\<close> (\<open>resilience/retry.py\<close>, \<open>_match.py\<close>, \<open>_outcome.py\<close>, \<open>backoffs/\<close>). \<open>Retry\<close>: the outcome filters, the five
  backoff strategies, the decorator loop and the block form; where a run ends, that both forms agree,
  the delay after each attempt and where its computation overflows.

  \<^bold>\<open>Bulkhead\<close> (\<open>resilience/bulkhead.py\<close>). \<open>Bulkhead\<close>: the semaphore of the standard library with its queue, entry,
  exit, opening of components, reconfiguration; the account of permits over any run, exact while no opening fails, no lost
  wake-ups, and two ways in which the account differs from what is meant.

  \<^bold>\<open>Leader election\<close> (\<open>coordination/leaderelection.py\<close>, \<open>memory.py\<close>). \<open>Leader\<close>: the backend's lease record,
  the worker's local view, runs of requests, answers and failures of many workers over the locale
  \<open>leader_laws\<close>: one leader at a time under the timing condition that the proof needs, and what happens
  without it.

  \<^bold>\<open>Cron\<close> (\<open>task/_cron.py\<close>, \<open>coordination/memory.py\<close>). \<open>Cron_Calendar\<close>: dates, times and steps of Python's
  datetime. \<open>Cron_Expr\<close>: the parser and the two searches with their exactness. \<open>Cron_Task\<close>: the schedule
  backend with the locale \<open>schedule_laws\<close>, the tick of a worker, which waits at its read, its claim, its admission and in its body,
  and interleavings of many workers: each fire is claimed and runs at most once.

  \<^bold>\<open>Task locks and interval tasks\<close> (\<open>coordination/tasklock.py\<close>, \<open>task/_interval.py\<close>). \<open>Task_Lock\<close>: the class \<open>TaskLock\<close>, each method split
  where it waits, and interleavings of any tasks and workers; the locale \<open>task_lock_store\<close>, which extends \<open>lock_backend_laws\<close> and is
  interpreted on the in-memory, Postgres and SQLite adapters: grants to different holders, and with prompt answers the starts of their blocks,
  are the minimum hold apart; and the races of threads, which share a token, of late requests and of reconfigurations.
  \<open>Interval_Task\<close>: the constructor, the nested primitives, the loop; one report per turn, one start per interval in leader mode, and
  why a lock of one's own does not give that.

  \<^bold>\<open>Health checks\<close> (\<open>health/_checks.py\<close>). \<open>Health\<close>: the registry, the outcome of a check, reports, and the slot of a check over any
  interleaving of callers: one run at a time, none within a lifetime after one that completed, fresh answers, nobody left waiting.

  \<^bold>\<open>Caches\<close> (\<open>cache/\<close>). \<open>Cache_Contract\<close>: \<open>CacheBackend\<close>, the map from keys to value, end of life and tags that a
  store implements, and the locale \<open>cache_laws\<close>, in which runs of calls are shown to answer what the map
  answers. \<open>Cache_Memory\<close>, \<open>Sql_Cache\<close>: the in-memory, SQLite and Postgres adapters, which interpret it.
  \<open>Redis_Cache\<close>: the Redis adapter, its typing of the keyspace, and where it leaves the contract.
  \<open>Cache_Client\<close>: \<open>TTLCache\<close> over any store of the contract: what is written is read, eviction keeps the bound,
  the stale reserve, deletes; and where set_many, delete_tags and the reserve fall short. \<open>Stampede\<close>: the
  registry of per-key locks and the interleaved callers of \<open>compute_with_stampede\<close>: one computation per lost
  entry, and nobody is left behind.

  \<^bold>\<open>Outbox\<close> (\<open>outbox/\<close>). \<open>Outbox\<close>: messages, rows, the registry, the in-memory adapter, the contract of a store
  as the locale \<open>outbox_laws\<close>, the relay with its ways to settle a message, and runs in which any number of
  relays claim, handle, fail and crash. In the locale: no message is lost, attempts are bounded, claims of a
  message are a lease apart, late writes are fenced off. \<open>Sql_Outbox\<close>: the Postgres adapter, which
  interprets the locale, the properties on it, and the redrive that defeats the fence.

  \<^bold>\<open>Idempotency\<close> (\<open>idempotency/\<close>). \<open>Idempotency\<close>: keys, fingerprints, replay and persisting over a cache, and the blocks of
  any number of workers with their local and distributed locks as interleaved steps. The locale \<open>idem_world\<close> joins
  the contracts of caches and locks and is interpreted on the in-memory and on the Postgres adapters: one body at a
  time, replay until the end of the time to live, the check of fingerprints; and what happens when a body outlives its
  lease.

  \<^bold>\<open>Shield\<close> (\<open>resilience/shield/\<close>). \<open>Shield_Parts\<close>: the retry budget, the timeout estimator and the adaptive gate, with
  their accounts. \<open>Shield\<close>: the call path over shared snapshots of them; the bound on retries and on the rate over
  all calls, the bound on the moves of a call, and what becomes of exceptions.

  \<^bold>\<open>Client addresses\<close> (\<open>clientip.py\<close>). \<open>Client_Address\<close>: addresses and networks as machine words with the parser of Python's
  \<open>ipaddress\<close>, the trusted set, the header and the walk over it: a caller cannot choose its address, behind trusted proxies it is
  found, reports on untrusted peers are bounded; and two inputs that escape the bounds.

  \<^bold>\<open>Bounds.\<close> Recursive searches (calendar search, eviction) are total by measures on the remaining span or
  the size of the map; the waiting loops are over finite lists of wake-ups, and the theorems say how long a
  list suffices. There is no fuel.

  \<^bold>\<open>Not modelled.\<close> Connections, transactions that fail and schema creation; the application container, configuration from the
  environment and files, framework integrations, logging, metrics and tracing, which are input and output
  or glue to libraries; the cached decorator and the task manager.
\<close>

end
